(* ===== verification/Prelude.thy ===== *)
theory Prelude
  imports Main "HOL-Library.Word" "HOL-Library.Monad_Syntax"
begin

section \<open>Shared vocabulary\<close>

text \<open>
  Types and facts every component uses: machine words, error codes, byte orders, and lemmas on
  lists and options the library proves once.

  Conventions of the whole development.
  \<^item> A C function that may touch memory it does not own returns an \<open>option\<close>: \<open>None\<close> is
    undefined behaviour (a read or write outside an object, a dereferenced NULL), so that a theorem
    "the result is not \<open>None\<close>" is a memory-safety theorem. Everything the C function reports
    to its caller, error codes included, is inside the \<open>Some\<close>.
  \<^item> An \<open>int\<close> error code is a HOL \<open>int\<close> with the Linux values; \<open>err |= f(..)\<close> is
    bitwise OR on \<open>int\<close>, as in the code.
  \<^item> \<open>size_t\<close> is 64 bits wide; it is a \<open>nat\<close> with the reduction modulo \<open>2 ^ 64\<close> written
    out wherever the code adds or multiplies sizes.
  \<^item> The hosts the library is built for (ARM64, x86) store integers least significant byte first.
\<close>

named_theorems wf_intros \<open>introduction rules for the well-formedness invariants\<close>
named_theorems step_simps \<open>unfolding rules of the step functions\<close>

unbundle bit_operations_syntax

type_synonym byte = "8 word"
type_synonym u16 = "16 word"
type_synonym u32 = "32 word"
type_synonym u64 = "64 word"
type_synonym err = int

subsection \<open>Error codes\<close>

abbreviation (input) ENOENT :: err where "ENOENT \<equiv> 2"
abbreviation (input) EAGAIN :: err where "EAGAIN \<equiv> 11"
abbreviation (input) ENOMEM :: err where "ENOMEM \<equiv> 12"
abbreviation (input) EINVAL :: err where "EINVAL \<equiv> 22"
abbreviation (input) ERANGE :: err where "ERANGE \<equiv> 34"
abbreviation (input) ENOSYS :: err where "ENOSYS \<equiv> 38"
abbreviation (input) EPROTO :: err where "EPROTO \<equiv> 71"
abbreviation (input) EBADMSG :: err where "EBADMSG \<equiv> 74"
abbreviation (input) EOVERFLOW :: err where "EOVERFLOW \<equiv> 75"
abbreviation (input) ETIMEDOUT :: err where "ETIMEDOUT \<equiv> 110"
abbreviation (input) EALREADY :: err where "EALREADY \<equiv> 114"

lemma err_or_eq_0 [simp]: "(a :: err) OR b = 0 \<longleftrightarrow> a = 0 \<and> b = 0"
  by (auto simp: or_eq_0_iff)

subsection \<open>Sizes\<close>

abbreviation size_mod :: nat where "size_mod \<equiv> 2 ^ 64"

definition szadd :: "nat \<Rightarrow> nat \<Rightarrow> nat" where
  "szadd a b = (a + b) mod size_mod"

definition szmul :: "nat \<Rightarrow> nat \<Rightarrow> nat" where
  "szmul a b = (a * b) mod size_mod"

lemma szadd_small [simp]: "a + b < size_mod \<Longrightarrow> szadd a b = a + b"
  by (simp add: szadd_def)

lemma szmul_small [simp]: "a * b < size_mod \<Longrightarrow> szmul a b = a * b"
  by (simp add: szmul_def)

subsection \<open>Bytes of a word\<close>

fun le_bytes :: "nat \<Rightarrow> 'a::len word \<Rightarrow> byte list" where
  "le_bytes 0 w = []"
| "le_bytes (Suc n) w = ucast w # le_bytes n (drop_bit 8 w)"

fun of_le :: "byte list \<Rightarrow> 'a::len word" where
  "of_le [] = 0"
| "of_le (b # bs) = ucast b OR push_bit 8 (of_le bs)"

lemma length_le_bytes [simp]: "length (le_bytes n w) = n"
  by (induction n arbitrary: w) auto

lemma of_le_le_bytes: "of_le (le_bytes n w) = take_bit (8 * n) (w :: 'a::len word)"
proof (induction n arbitrary: w)
  case 0
  then show ?case by simp
next
  case (Suc n)
  have IH: "of_le (le_bytes n (drop_bit 8 w)) = take_bit (8 * n) (drop_bit 8 w :: 'a word)"
    by (rule Suc.IH)
  show ?case
    unfolding le_bytes.simps of_le.simps IH
    by (rule bit_word_eqI) (auto simp: bit_simps)
qed

lemma of_le_le_bytes_full [simp]:
  "LENGTH('a) \<le> 8 * n \<Longrightarrow> of_le (le_bytes n w) = (w :: 'a::len word)"
  by (simp add: of_le_le_bytes take_bit_word_eq_self)

lemma le_bytes_of_le:
  "8 * length bs \<le> LENGTH('a) \<Longrightarrow> le_bytes (length bs) (of_le bs :: 'a::len word) = bs"
proof (induction bs)
  case Nil
  then show ?case by simp
next
  case (Cons b bs)
  let ?w = "ucast b OR push_bit 8 (of_le bs) :: 'a word"
  have hd: "ucast ?w = b"
    using Cons.prems by (intro bit_word_eqI) (auto simp: bit_simps)
  have "drop_bit 8 ?w = take_bit (LENGTH('a) - 8) (of_le bs)"
    by (rule bit_word_eqI) (auto simp: bit_simps dest: bit_imp_le_length)
  moreover have "le_bytes (length bs) (take_bit (LENGTH('a) - 8) (of_le bs :: 'a word))
      = le_bytes (length bs) (of_le bs :: 'a word)"
  proof -
    have "le_bytes n (take_bit m w) = le_bytes n w" if "8 * n \<le> m" for n m and w :: "'a word"
      using that
    proof (induction n arbitrary: m w)
      case 0
      then show ?case by simp
    next
      case (Suc n)
      have "ucast (take_bit m w) = (ucast w :: byte)"
        using Suc.prems by (intro bit_word_eqI) (auto simp: bit_simps)
      moreover have "drop_bit 8 (take_bit m w) = take_bit (m - 8) (drop_bit 8 w)"
        by (simp add: drop_bit_take_bit)
      ultimately show ?case using Suc by simp
    qed
    then show ?thesis using Cons.prems by simp
  qed
  ultimately show ?case using hd Cons by simp
qed

text \<open>Network order: \<open>htons\<close>, \<open>htonl\<close> and \<open>sys_htonll\<close> reverse the bytes on these hosts.\<close>

definition htons :: "u16 \<Rightarrow> u16" where "htons w = of_le (rev (le_bytes 2 w))"
definition htonl :: "u32 \<Rightarrow> u32" where "htonl w = of_le (rev (le_bytes 4 w))"
definition htonll :: "u64 \<Rightarrow> u64" where "htonll w = of_le (rev (le_bytes 8 w))"
abbreviation (input) ntohs :: "u16 \<Rightarrow> u16" where "ntohs \<equiv> htons"
abbreviation (input) ntohl :: "u32 \<Rightarrow> u32" where "ntohl \<equiv> htonl"
abbreviation (input) ntohll :: "u64 \<Rightarrow> u64" where "ntohll \<equiv> htonll"

abbreviation be16 :: "u16 \<Rightarrow> byte list" where "be16 w \<equiv> rev (le_bytes 2 w)"
abbreviation be32 :: "u32 \<Rightarrow> byte list" where "be32 w \<equiv> rev (le_bytes 4 w)"
abbreviation be64 :: "u64 \<Rightarrow> byte list" where "be64 w \<equiv> rev (le_bytes 8 w)"

lemma le_bytes_htons [simp]: "le_bytes 2 (htons w) = be16 w"
  using le_bytes_of_le [of "be16 w", where 'a = 16] by (simp add: htons_def)

lemma le_bytes_htonl [simp]: "le_bytes 4 (htonl w) = be32 w"
  using le_bytes_of_le [of "be32 w", where 'a = 32] by (simp add: htonl_def)

lemma le_bytes_htonll [simp]: "le_bytes 8 (htonll w) = be64 w"
  using le_bytes_of_le [of "be64 w", where 'a = 64] by (simp add: htonll_def)

lemma ntohs_htons [simp]: "ntohs (htons w) = w"
  using le_bytes_htons [of w] by (simp only: htons_def [of "htons w"]) simp

lemma ntohl_htonl [simp]: "ntohl (htonl w) = w"
  using le_bytes_htonl [of w] by (simp only: htonl_def [of "htonl w"]) simp

lemma ntohll_htonll [simp]: "ntohll (htonll w) = w"
  using le_bytes_htonll [of w] by (simp only: htonll_def [of "htonll w"]) simp

subsection \<open>Searching lists\<close>

lemma find_SomeD: "List.find P xs = Some x \<Longrightarrow> x \<in> set xs \<and> P x"
  by (induction xs) (auto split: if_splits)

lemma find_NoneD: "List.find P xs = None \<Longrightarrow> x \<in> set xs \<Longrightarrow> \<not> P x"
  by (induction xs) (auto split: if_splits)

subsection \<open>Defined results\<close>

text \<open>\<open>runs m Q\<close>: the operation \<open>m\<close> is defined and its result satisfies \<open>Q\<close>.\<close>

definition runs :: "'a option \<Rightarrow> ('a \<Rightarrow> bool) \<Rightarrow> bool" where
  "runs m Q \<longleftrightarrow> (\<exists>x. m = Some x \<and> Q x)"

lemma runs_Some [simp]: "runs (Some x) Q \<longleftrightarrow> Q x"
  by (simp add: runs_def)

lemma runs_None [simp]: "\<not> runs None Q"
  by (simp add: runs_def)

lemma runs_bind: "runs m Q \<Longrightarrow> (\<And>x. m = Some x \<Longrightarrow> Q x \<Longrightarrow> runs (f x) R) \<Longrightarrow> runs (Option.bind m f) R"
  by (auto simp: runs_def)

lemma runs_map: "runs m (\<lambda>x. Q (f x)) \<Longrightarrow> runs (map_option f m) Q"
  by (auto simp: runs_def)

lemma runs_mono: "runs m Q \<Longrightarrow> (\<And>x. m = Some x \<Longrightarrow> Q x \<Longrightarrow> R x) \<Longrightarrow> runs m R"
  by (auto simp: runs_def)

lemma runs_conj: "runs m Q \<Longrightarrow> runs m R \<Longrightarrow> runs m (\<lambda>x. Q x \<and> R x)"
  by (auto simp: runs_def)

lemma runsD: "runs m Q \<Longrightarrow> m = Some x \<Longrightarrow> Q x"
  by (auto simp: runs_def)

end
