(* ===== verification/LinkedList.thy ===== *)
theory LinkedList
  imports Prelude "HOL-Library.Multiset"
begin

section \<open>Linked lists (re/src/list/list.c)\<close>

text \<open>
  The intrusive doubly linked list under every queue, pool, hash bucket and timer of the stack.
  The model keeps the pointers: a store maps the address of every \<open>struct le\<close> to its four
  fields and the address of every \<open>struct list\<close> to its head and tail. An operation reads and
  writes that store exactly as the code does, also when it is called on an element that is linked
  elsewhere. Loops over the chain of pointers are \<open>partial_function (option)\<close>: \<open>None\<close> is a
  loop that never ends, which a cyclic chain would give. Guards against NULL list arguments have no
  counterpart; a NULL element is \<open>None\<close> only where the code passes it on.
  \<open>list_repr\<close> relates a store to the HOL list of the linked elements.
\<close>

type_synonym addr = nat

record le =
  le_prev :: "addr option"
  le_next :: "addr option"
  le_list :: "addr option"
  le_data :: "addr option"

record lheap =
  les :: "addr \<Rightarrow> le"
  lhead :: "addr \<Rightarrow> addr option"
  ltail :: "addr \<Rightarrow> addr option"

abbreviation upd_le :: "addr \<Rightarrow> (le \<Rightarrow> le) \<Rightarrow> lheap \<Rightarrow> lheap" where
  "upd_le e f h \<equiv> h\<lparr>les := (les h)(e := f (les h e))\<rparr>"

abbreviation set_head :: "addr \<Rightarrow> addr option \<Rightarrow> lheap \<Rightarrow> lheap" where
  "set_head l v h \<equiv> h\<lparr>lhead := (lhead h)(l := v)\<rparr>"

abbreviation set_tail :: "addr \<Rightarrow> addr option \<Rightarrow> lheap \<Rightarrow> lheap" where
  "set_tail l v h \<equiv> h\<lparr>ltail := (ltail h)(l := v)\<rparr>"

subsection \<open>Operations\<close>

definition list_init :: "addr \<Rightarrow> lheap \<Rightarrow> lheap" where
  "list_init l h = set_tail l None (set_head l None h)"

definition list_append :: "addr \<Rightarrow> addr \<Rightarrow> addr option \<Rightarrow> lheap \<Rightarrow> lheap" where
  "list_append l e d h =
     (if le_list (les h e) \<noteq> None then h
      else
        let h1 = upd_le e (\<lambda>_. \<lparr>le_prev = ltail h l, le_next = None, le_list = Some l, le_data = d\<rparr>) h;
            h2 = (if lhead h1 l = None then set_head l (Some e) h1 else h1);
            h3 = (case ltail h2 l of None \<Rightarrow> h2 | Some t \<Rightarrow> upd_le t (le_next_update (\<lambda>_. Some e)) h2)
        in set_tail l (Some e) h3)"

definition list_prepend :: "addr \<Rightarrow> addr \<Rightarrow> addr option \<Rightarrow> lheap \<Rightarrow> lheap" where
  "list_prepend l e d h =
     (if le_list (les h e) \<noteq> None then h
      else
        let h1 = upd_le e (\<lambda>_. \<lparr>le_prev = None, le_next = lhead h l, le_list = Some l, le_data = d\<rparr>) h;
            h2 = (case lhead h1 l of None \<Rightarrow> h1 | Some t \<Rightarrow> upd_le t (le_prev_update (\<lambda>_. Some e)) h1);
            h3 = (if ltail h2 l = None then set_tail l (Some e) h2 else h2)
        in set_head l (Some e) h3)"

definition list_insert_before :: "addr \<Rightarrow> addr \<Rightarrow> addr \<Rightarrow> addr option \<Rightarrow> lheap \<Rightarrow> lheap" where
  "list_insert_before l e i d h =
     (if le_list (les h i) \<noteq> None then h
      else
        let h1 = (case le_prev (les h e) of
                    Some p \<Rightarrow> upd_le p (le_next_update (\<lambda>_. Some i)) h
                  | None \<Rightarrow> if lhead h l = Some e then set_head l (Some i) h else h);
            h2 = upd_le i (\<lambda>_. \<lparr>le_prev = le_prev (les h1 e), le_next = Some e,
                                le_list = Some l, le_data = d\<rparr>) h1
        in upd_le e (le_prev_update (\<lambda>_. Some i)) h2)"

definition list_insert_after :: "addr \<Rightarrow> addr \<Rightarrow> addr \<Rightarrow> addr option \<Rightarrow> lheap \<Rightarrow> lheap" where
  "list_insert_after l e i d h =
     (if le_list (les h i) \<noteq> None then h
      else
        let h1 = (case le_next (les h e) of
                    Some p \<Rightarrow> upd_le p (le_prev_update (\<lambda>_. Some i)) h
                  | None \<Rightarrow> if ltail h l = Some e then set_tail l (Some i) h else h);
            h2 = upd_le i (\<lambda>_. \<lparr>le_prev = Some e, le_next = le_next (les h1 e),
                                le_list = Some l, le_data = d\<rparr>) h1
        in upd_le e (le_next_update (\<lambda>_. Some i)) h2)"

definition list_unlink :: "addr \<Rightarrow> lheap \<Rightarrow> lheap" where
  "list_unlink e h =
     (case le_list (les h e) of None \<Rightarrow> h
      | Some l \<Rightarrow>
          let h1 = (case le_prev (les h e) of
                      Some p \<Rightarrow> upd_le p (le_next_update (\<lambda>_. le_next (les h e))) h
                    | None \<Rightarrow> set_head l (le_next (les h e)) h);
              h2 = (case le_next (les h1 e) of
                      Some n \<Rightarrow> upd_le n (le_prev_update (\<lambda>_. le_prev (les h1 e))) h1
                    | None \<Rightarrow> set_tail l (le_prev (les h1 e)) h1)
          in upd_le e (\<lambda>x. x\<lparr>le_next := None, le_prev := None, le_list := None\<rparr>) h2)"

text \<open>\<open>list_flush\<close> also returns the data pointers it dereferences, in order.\<close>

definition le_clear :: "addr \<Rightarrow> lheap \<Rightarrow> lheap" where
  "le_clear e h = upd_le e (\<lambda>_. \<lparr>le_prev = None, le_next = None, le_list = None, le_data = None\<rparr>) h"

partial_function (option) list_flush_loop ::
  "addr option \<Rightarrow> addr option list \<Rightarrow> lheap \<Rightarrow> (addr option list \<times> lheap) option" where
  "list_flush_loop p ds h =
     (case p of None \<Rightarrow> Some (ds, h)
      | Some e \<Rightarrow> list_flush_loop (le_next (les h e)) (ds @ [le_data (les h e)]) (le_clear e h))"

definition list_flush :: "addr \<Rightarrow> lheap \<Rightarrow> (addr option list \<times> lheap) option" where
  "list_flush l h = map_option (\<lambda>(ds, h'). (ds, list_init l h')) (list_flush_loop (lhead h l) [] h)"

definition list_clear :: "addr \<Rightarrow> lheap \<Rightarrow> lheap option" where
  "list_clear l h = map_option snd (list_flush l h)"

text \<open>
  \<open>list_apply\<close> with a handler that only inspects elements: the first element, in the direction
  of travel, the handler accepts.
\<close>

partial_function (option) list_apply_loop ::
  "bool \<Rightarrow> (addr \<Rightarrow> bool) \<Rightarrow> addr option \<Rightarrow> lheap \<Rightarrow> addr option option" where
  "list_apply_loop fwd ah p h =
     (case p of None \<Rightarrow> Some None
      | Some e \<Rightarrow>
          if ah e then Some (Some e)
          else list_apply_loop fwd ah (if fwd then le_next (les h e) else le_prev (les h e)) h)"

definition list_apply :: "addr \<Rightarrow> bool \<Rightarrow> (addr \<Rightarrow> bool) \<Rightarrow> lheap \<Rightarrow> addr option option" where
  "list_apply l fwd ah h = list_apply_loop fwd ah (if fwd then lhead h l else ltail h l) h"

partial_function (option) list_count_loop :: "addr option \<Rightarrow> u32 \<Rightarrow> lheap \<Rightarrow> u32 option" where
  "list_count_loop p n h =
     (case p of None \<Rightarrow> Some n | Some e \<Rightarrow> list_count_loop (le_next (les h e)) (n + 1) h)"

definition list_count :: "addr \<Rightarrow> lheap \<Rightarrow> u32 option" where
  "list_count l h = list_count_loop (lhead h l) 0 h"

text \<open>One pass of \<open>list_sort\<close> (the inner loop), and the \<open>retry\<close> loop around it.\<close>

partial_function (option) list_sort_pass ::
  "addr \<Rightarrow> (addr \<Rightarrow> addr \<Rightarrow> bool) \<Rightarrow> addr option \<Rightarrow> bool \<Rightarrow> lheap \<Rightarrow> (bool \<times> lheap) option" where
  "list_sort_pass l sh p swapped h =
     (case p of None \<Rightarrow> Some (swapped, h)
      | Some e \<Rightarrow>
          (case le_next (les h e) of None \<Rightarrow> Some (swapped, h)
           | Some n \<Rightarrow>
               if sh e n then list_sort_pass l sh (Some n) swapped h
               else list_sort_pass l sh (Some e) True
                      (list_insert_after l n e (le_data (les (list_unlink e h) e)) (list_unlink e h))))"

partial_function (option) list_sort :: "addr \<Rightarrow> (addr \<Rightarrow> addr \<Rightarrow> bool) \<Rightarrow> lheap \<Rightarrow> lheap option" where
  "list_sort l sh h =
     (case list_sort_pass l sh (lhead h l) False h of
        None \<Rightarrow> None
      | Some r \<Rightarrow> if fst r then list_sort l sh (snd r) else Some (snd r))"

section \<open>The abstraction: the HOL list a store represents\<close>

fun first_or :: "addr option \<Rightarrow> addr list \<Rightarrow> addr option" where
  "first_or n [] = n"
| "first_or n (e # es) = Some e"

fun last_or :: "addr option \<Rightarrow> addr list \<Rightarrow> addr option" where
  "last_or p [] = p"
| "last_or p (e # es) = last_or (Some e) es"

fun dll :: "lheap \<Rightarrow> addr \<Rightarrow> addr option \<Rightarrow> addr list \<Rightarrow> addr option \<Rightarrow> bool" where
  "dll h l p [] n = True"
| "dll h l p (e # es) n =
     (le_prev (les h e) = p \<and> le_next (les h e) = first_or n es \<and> le_list (les h e) = Some l \<and>
      dll h l (Some e) es n)"

definition list_repr :: "lheap \<Rightarrow> addr \<Rightarrow> addr list \<Rightarrow> bool" where
  "list_repr h l es \<longleftrightarrow>
     distinct es \<and> lhead h l = first_or None es \<and> ltail h l = last_or None es \<and>
     dll h l None es None \<and> (\<forall>e. le_list (les h e) = Some l \<longrightarrow> e \<in> set es)"

lemma first_or_append [simp]: "first_or n (xs @ ys) = first_or (first_or n ys) xs"
  by (cases xs) auto

lemma last_or_append [simp]: "last_or p (xs @ ys) = last_or (last_or p xs) ys"
  by (induction xs arbitrary: p) auto

lemma first_or_None [simp]: "first_or None xs = None \<longleftrightarrow> xs = []"
  by (cases xs) auto

lemma first_or_Some [simp]: "\<exists>y. first_or (Some t) xs = Some y"
  by (cases xs) auto

lemma last_or_snoc_cases: "last_or p xs = (if xs = [] then p else Some (last xs))"
  by (induction xs arbitrary: p) auto

lemma dll_append [simp]:
  "dll h l p (xs @ ys) n \<longleftrightarrow> dll h l p xs (first_or n ys) \<and> dll h l (last_or p xs) ys n"
  by (induction xs arbitrary: p) auto

lemma dll_heap_simps [simp]:
  "dll (h\<lparr>lhead := f\<rparr>) l p es n = dll h l p es n"
  "dll (h\<lparr>ltail := f\<rparr>) l p es n = dll h l p es n"
  by (induction es arbitrary: p) auto

lemma dll_upd_other [simp]:
  "e \<notin> set es \<Longrightarrow> dll (h\<lparr>les := (les h)(e := v)\<rparr>) l p es n = dll h l p es n"
  by (induction es arbitrary: p) auto

lemma dll_fun_upd [simp]:
  "e \<notin> set es \<Longrightarrow> dll (h\<lparr>les := f(e := v)\<rparr>) l p es n = dll (h\<lparr>les := f\<rparr>) l p es n"
  by (induction es arbitrary: p) auto

lemma dll_les_id [simp]: "dll (h\<lparr>les := les h\<rparr>) l p es n = dll h l p es n"
  by (induction es arbitrary: p) auto

lemma dll_owner: "dll h l p es n \<Longrightarrow> e \<in> set es \<Longrightarrow> le_list (les h e) = Some l"
  by (induction es arbitrary: p) auto

lemma list_repr_owner: "list_repr h l es \<Longrightarrow> le_list (les h e) = Some l \<longleftrightarrow> e \<in> set es"
  by (auto simp: list_repr_def dest: dll_owner)

lemma list_repr_fresh: "list_repr h l es \<Longrightarrow> le_list (les h e) = None \<Longrightarrow> e \<notin> set es"
  using list_repr_owner [of h l es e] by auto

lemma list_init_repr:
  "(\<And>e. le_list (les h e) \<noteq> Some l) \<Longrightarrow> list_repr (list_init l h) l []"
  by (simp add: list_repr_def list_init_def)

lemma list_append_repr:
  assumes "list_repr h l es" "le_list (les h e) = None"
  shows "list_repr (list_append l e d h) l (es @ [e])"
proof (cases es rule: rev_cases)
  case Nil
  with assms show ?thesis
    by (auto simp: list_repr_def list_append_def Let_def split: if_splits)
next
  case (snoc xs t)
  have e: "e \<notin> set es" using assms by (rule list_repr_fresh)
  with snoc assms show ?thesis
    by (auto simp: list_repr_def list_append_def Let_def split: if_splits)
qed

lemma list_prepend_repr:
  assumes "list_repr h l es" "le_list (les h e) = None"
  shows "list_repr (list_prepend l e d h) l (e # es)"
proof (cases es)
  case Nil
  with assms show ?thesis
    by (auto simp: list_repr_def list_prepend_def Let_def split: if_splits)
next
  case (Cons t xs)
  have e: "e \<notin> set es" using assms by (rule list_repr_fresh)
  with Cons assms show ?thesis
    by (auto simp: list_repr_def list_prepend_def Let_def last_or_snoc_cases split: if_splits)
qed

lemma list_insert_after_repr:
  assumes "list_repr h l (xs @ e # ys)" "le_list (les h i) = None"
  shows "list_repr (list_insert_after l e i d h) l (xs @ e # i # ys)"
proof -
  have i: "i \<notin> set (xs @ e # ys)" using assms by (rule list_repr_fresh)
  show ?thesis
  proof (cases ys)
    case Nil
    with assms i show ?thesis
      by (auto simp: list_repr_def list_insert_after_def Let_def split: if_splits)
  next
    case (Cons y zs)
    with assms i show ?thesis
      by (auto simp: list_repr_def list_insert_after_def Let_def split: if_splits)
  qed
qed

lemma list_insert_before_repr:
  assumes "list_repr h l (xs @ e # ys)" "le_list (les h i) = None"
  shows "list_repr (list_insert_before l e i d h) l (xs @ i # e # ys)"
proof -
  have i: "i \<notin> set (xs @ e # ys)" using assms by (rule list_repr_fresh)
  show ?thesis
  proof (cases xs rule: rev_cases)
    case Nil
    with assms i show ?thesis
      by (auto simp: list_repr_def list_insert_before_def Let_def split: if_splits)
  next
    case (snoc ws w)
    with assms i show ?thesis
      by (auto simp: list_repr_def list_insert_before_def Let_def split: if_splits)
  qed
qed

lemma list_unlink_repr:
  assumes "list_repr h l (xs @ e # ys)"
  shows "list_repr (list_unlink e h) l (xs @ ys) \<and> le_list (les (list_unlink e h) e) = None"
proof -
  have "xs = [] \<or> (\<exists>ws w. xs = ws @ [w])" by (cases xs rule: rev_cases) auto
  moreover have "ys = [] \<or> (\<exists>z zs. ys = z # zs)" by (cases ys) auto
  ultimately show ?thesis using assms
    by (elim disjE exE) (auto simp: list_repr_def list_unlink_def Let_def split: if_splits)
qed

text \<open>Who owns an element after each operation, whatever the store.\<close>

lemma list_op_owner:
  "le_list (les (list_append l e d h) x) =
     (if x = e \<and> le_list (les h e) = None then Some l else le_list (les h x))"
  "le_list (les (list_prepend l e d h) x) =
     (if x = e \<and> le_list (les h e) = None then Some l else le_list (les h x))"
  "le_list (les (list_insert_before l y e d h) x) =
     (if x = e \<and> le_list (les h e) = None then Some l else le_list (les h x))"
  "le_list (les (list_insert_after l y e d h) x) =
     (if x = e \<and> le_list (les h e) = None then Some l else le_list (les h x))"
  "le_list (les (list_unlink e h) x) = (if x = e then None else le_list (les h x))"
  by (auto simp: list_append_def list_prepend_def list_insert_before_def list_insert_after_def
      list_unlink_def Let_def split: option.splits)

lemma list_unlink_not_linked: "le_list (les h e) = None \<Longrightarrow> list_unlink e h = h"
  by (simp add: list_unlink_def)

subsection \<open>The other lists of the store\<close>

text \<open>
  An operation on one list writes elements of that list and the element it moves, which is in no
  list before, so every other list of the store keeps its content.
\<close>

lemma list_repr_frame:
  assumes "list_repr h l' es'"
    and "\<And>x. le_list (les h x) = Some l' \<Longrightarrow> les h' x = les h x"
    and "\<And>x. le_list (les h' x) = Some l' \<Longrightarrow> le_list (les h x) = Some l'"
    and "lhead h' l' = lhead h l'" "ltail h' l' = ltail h l'"
  shows "list_repr h' l' es'"
proof -
  have same: "\<forall>x \<in> set es'. les h' x = les h x"
    using assms(2) list_repr_owner [OF assms(1)] by blast
  have "dll h' l' p es n" if "dll h l' p es n" "\<forall>x \<in> set es. les h' x = les h x" for p es n
    using that by (induction es arbitrary: p) auto
  then have "dll h' l' None es' None"
    using assms(1) same by (simp add: list_repr_def)
  moreover have "\<forall>e. le_list (les h' e) = Some l' \<longrightarrow> e \<in> set es'"
    using assms(3) assms(1) by (auto simp: list_repr_def)
  ultimately show ?thesis
    using assms(1,4,5) unfolding list_repr_def by metis
qed

lemma dll_neighbours:
  "dll h l p es n \<Longrightarrow> e \<in> set es \<Longrightarrow>
   (le_next (les h e) = n \<or> (\<exists>x \<in> set es. le_next (les h e) = Some x)) \<and>
   (le_prev (les h e) = p \<or> (\<exists>x \<in> set es. le_prev (les h e) = Some x))"
proof (induction es arbitrary: p)
  case Nil
  then show ?case by simp
next
  case (Cons x xs)
  show ?case
  proof (cases "e = x")
    case True
    with Cons.prems show ?thesis by (cases xs) simp_all
  next
    case False
    with Cons.prems have "dll h l (Some x) xs n" "e \<in> set xs" by simp_all
    from Cons.IH [OF this] show ?thesis by auto
  qed
qed

lemma list_repr_neighbours:
  assumes "list_repr h l es" "e \<in> set es"
  shows "le_next (les h e) = Some x \<Longrightarrow> le_list (les h x) = Some l"
    and "le_prev (les h e) = Some x \<Longrightarrow> le_list (les h x) = Some l"
  using dll_neighbours [of h l None es None e] assms dll_owner [of h l None es None]
  by (auto simp: list_repr_def)

lemma list_repr_ends:
  assumes "list_repr h l es"
  shows "lhead h l = Some x \<Longrightarrow> le_list (les h x) = Some l"
    and "ltail h l = Some x \<Longrightarrow> le_list (les h x) = Some l"
  using list_repr_owner [OF assms, of x] assms
  by (cases es; auto simp: list_repr_def last_or_snoc_cases split: if_splits)+

lemma list_append_frame:
  assumes "list_repr h l es" "list_repr h l' es'" "l \<noteq> l'"
  shows "list_repr (list_append l e d h) l' es'"
proof (cases "ltail h l")
  case None
  with assms(3) show ?thesis
    by (intro list_repr_frame [OF assms(2)]) (auto simp: list_append_def Let_def split: if_splits)
next
  case (Some t)
  with list_repr_ends(2) [OF assms(1) Some] assms(3) show ?thesis
    by (intro list_repr_frame [OF assms(2)]) (auto simp: list_append_def Let_def split: if_splits)
qed

lemma list_prepend_frame:
  assumes "list_repr h l es" "list_repr h l' es'" "l \<noteq> l'"
  shows "list_repr (list_prepend l e d h) l' es'"
proof (cases "lhead h l")
  case None
  with assms(3) show ?thesis
    by (intro list_repr_frame [OF assms(2)]) (auto simp: list_prepend_def Let_def split: if_splits)
next
  case (Some t)
  with list_repr_ends(1) [OF assms(1) Some] assms(3) show ?thesis
    by (intro list_repr_frame [OF assms(2)]) (auto simp: list_prepend_def Let_def split: if_splits)
qed

lemma list_insert_after_frame:
  assumes "list_repr h l es" "e \<in> set es" "list_repr h l' es'" "l \<noteq> l'"
  shows "list_repr (list_insert_after l e i d h) l' es'"
proof -
  have e: "le_list (les h e) = Some l" using assms(1,2) by (simp add: list_repr_owner)
  show ?thesis
  proof (cases "le_next (les h e)")
    case None
    with e assms(4) show ?thesis
      by (intro list_repr_frame [OF assms(3)])
        (auto simp: list_insert_after_def Let_def split: if_splits)
  next
    case (Some n)
    with e list_repr_neighbours(1) [OF assms(1,2) Some] assms(4) show ?thesis
      by (intro list_repr_frame [OF assms(3)])
        (auto simp: list_insert_after_def Let_def split: if_splits)
  qed
qed

lemma list_insert_before_frame:
  assumes "list_repr h l es" "e \<in> set es" "list_repr h l' es'" "l \<noteq> l'"
  shows "list_repr (list_insert_before l e i d h) l' es'"
proof -
  have e: "le_list (les h e) = Some l" using assms(1,2) by (simp add: list_repr_owner)
  show ?thesis
  proof (cases "le_prev (les h e)")
    case None
    with e assms(4) show ?thesis
      by (intro list_repr_frame [OF assms(3)])
        (auto simp: list_insert_before_def Let_def split: if_splits)
  next
    case (Some n)
    with e list_repr_neighbours(2) [OF assms(1,2) Some] assms(4) show ?thesis
      by (intro list_repr_frame [OF assms(3)])
        (auto simp: list_insert_before_def Let_def split: if_splits)
  qed
qed

lemma list_unlink_frame:
  assumes "list_repr h l es" "e \<in> set es" "list_repr h l' es'" "l \<noteq> l'"
  shows "list_repr (list_unlink e h) l' es'"
proof -
  have e: "le_list (les h e) = Some l" using assms(1,2) by (simp add: list_repr_owner)
  show ?thesis
  proof (cases "le_next (les h e)")
    case n: None
    show ?thesis
    proof (cases "le_prev (les h e)")
      case None
      with e n assms(4) show ?thesis
        by (intro list_repr_frame [OF assms(3)])
          (auto simp: list_unlink_def Let_def split: if_splits)
    next
      case (Some p)
      with e n list_repr_neighbours(2) [OF assms(1,2) Some] assms(4) show ?thesis
        by (intro list_repr_frame [OF assms(3)])
          (auto simp: list_unlink_def Let_def split: if_splits)
    qed
  next
    case n: (Some x)
    note nx = list_repr_neighbours(1) [OF assms(1,2) n]
    show ?thesis
    proof (cases "le_prev (les h e)")
      case None
      with e n nx assms(4) show ?thesis
        by (intro list_repr_frame [OF assms(3)])
          (auto simp: list_unlink_def Let_def split: if_splits)
    next
      case (Some p)
      with e n nx list_repr_neighbours(2) [OF assms(1,2) Some] assms(4) show ?thesis
        by (intro list_repr_frame [OF assms(3)])
          (auto simp: list_unlink_def Let_def split: if_splits)
    qed
  qed
qed

subsection \<open>The loops end, and compute what they should\<close>

lemma list_apply_loop_fwd:
  "dll h l p es None \<Longrightarrow> list_apply_loop True ah (first_or None es) h = Some (List.find ah es)"
proof (induction es arbitrary: p)
  case Nil
  then show ?case by (simp add: list_apply_loop.simps)
next
  case (Cons e es)
  then show ?case by (auto simp: list_apply_loop.simps [of True ah "Some e" h])
qed

lemma list_apply_loop_rev:
  "dll h l None es n \<Longrightarrow>
   list_apply_loop False ah (last_or None es) h = Some (List.find ah (rev es))"
proof (induction es arbitrary: n rule: rev_induct)
  case Nil
  then show ?case by (simp add: list_apply_loop.simps)
next
  case (snoc e es)
  then show ?case by (auto simp: list_apply_loop.simps [of False ah "Some e" h])
qed

lemma list_apply_repr:
  "list_repr h l es \<Longrightarrow>
   list_apply l fwd ah h = Some (List.find ah (if fwd then es else rev es))"
  by (auto simp: list_apply_def list_repr_def list_apply_loop_fwd list_apply_loop_rev)

lemma list_count_loop_dll:
  "dll h l p es None \<Longrightarrow>
   list_count_loop (first_or None es) n h = Some (n + of_nat (length es))"
proof (induction es arbitrary: p n)
  case Nil
  then show ?case by (simp add: list_count_loop.simps)
next
  case (Cons e es)
  with Cons.IH [of "Some e" "n + 1"] show ?case
    by (auto simp: list_count_loop.simps [of "Some e" n h] ac_simps)
qed

lemma list_count_repr: "list_repr h l es \<Longrightarrow> list_count l h = Some (of_nat (length es))"
  using list_count_loop_dll [of h l None es 0] by (simp add: list_count_def list_repr_def)

lemma le_clear_les:
  "les (fold le_clear es h) x =
     (if x \<in> set es then \<lparr>le_prev = None, le_next = None, le_list = None, le_data = None\<rparr>
      else les h x)"
  by (induction es arbitrary: h) (auto simp: le_clear_def)

lemma le_clear_heads:
  "lhead (fold le_clear es h) = lhead h" "ltail (fold le_clear es h) = ltail h"
  by (induction es arbitrary: h) (auto simp: le_clear_def)

lemma list_flush_loop_dll:
  "dll h l p es None \<Longrightarrow> distinct es \<Longrightarrow>
   list_flush_loop (first_or None es) ds h =
     Some (ds @ map (\<lambda>e. le_data (les h e)) es, fold le_clear es h)"
proof (induction es arbitrary: p ds h)
  case Nil
  then show ?case by (simp add: list_flush_loop.simps)
next
  case (Cons e es)
  have "dll (le_clear e h) l (Some e) es None"
    using Cons.prems by (simp add: le_clear_def)
  from Cons.IH [OF this] Cons.prems
  show ?case
    by (auto simp: list_flush_loop.simps [of "Some e" ds h] le_clear_def intro!: map_cong)
qed

subsection \<open>Sorting\<close>

text \<open>
  On the represented list, a pass is one sweep of bubble sort. With a handler that orders every two
  elements at least one way (\<open>\<not> sh x y\<close> implies \<open>sh y x\<close>), each swap removes one inversion,
  so the \<open>retry\<close> loop ends.
\<close>

fun bubble :: "('a \<Rightarrow> 'a \<Rightarrow> bool) \<Rightarrow> 'a list \<Rightarrow> bool \<times> 'a list" where
  "bubble sh (x # y # zs) =
     (if sh x y then let (b, r) = bubble sh (y # zs) in (b, x # r)
      else let (b, r) = bubble sh (x # zs) in (True, y # r))"
| "bubble sh xs = (False, xs)"

fun inversions :: "('a \<Rightarrow> 'a \<Rightarrow> bool) \<Rightarrow> 'a list \<Rightarrow> nat" where
  "inversions sh [] = 0"
| "inversions sh (x # xs) = length (filter (\<lambda>y. \<not> sh x y) xs) + inversions sh xs"

lemma mset_bubble: "mset (snd (bubble sh xs)) = mset xs"
  by (induction sh xs rule: bubble.induct) (auto split: prod.splits)

lemma length_filter_bubble:
  "length (filter P (snd (bubble sh xs))) = length (filter P xs)"
proof -
  have "mset (filter P (snd (bubble sh xs))) = mset (filter P xs)"
    by (simp add: mset_bubble)
  then show ?thesis by (rule mset_eq_length)
qed

lemma bubble_inversions:
  assumes "\<And>x y. \<not> sh x y \<Longrightarrow> sh y x"
  shows "inversions sh (snd (bubble sh xs)) + (if fst (bubble sh xs) then 1 else 0)
         \<le> inversions sh xs"
  using assms
proof (induction sh xs rule: bubble.induct)
  case (1 sh x y zs)
  show ?case
  proof (cases "sh x y")
    case True
    with 1 length_filter_bubble [of "\<lambda>z. \<not> sh x z" sh "y # zs"] show ?thesis
      by (auto split: prod.splits if_splits)
  next
    case False
    with 1 length_filter_bubble [of "\<lambda>z. \<not> sh y z" sh "x # zs"] show ?thesis
      by (auto split: prod.splits if_splits)
  qed
qed simp_all

lemma bubble_no_swap: "\<not> fst (bubble sh xs) \<Longrightarrow> snd (bubble sh xs) = xs \<and> successively sh xs"
  by (induction sh xs rule: bubble.induct) (auto split: prod.splits if_splits)

lemma list_repr_step:
  assumes "list_repr h l (ws @ x # zs)"
  shows "le_next (les h x) = first_or None zs"
  using assms by (simp add: list_repr_def)

lemma list_sort_swap:
  assumes r: "list_repr h l (ws @ x # y # zs)"
    and h': "h' = list_insert_after l y x d (list_unlink x h)"
  shows "list_repr h' l (ws @ y # x # zs) \<and>
    (\<forall>l' es'. l' \<noteq> l \<longrightarrow> list_repr h l' es' \<longrightarrow> list_repr h' l' es')"
proof -
  let ?h = "list_unlink x h"
  from list_unlink_repr [OF r] have u: "list_repr ?h l (ws @ y # zs)"
    and x: "le_list (les ?h x) = None" by auto
  have "list_repr h' l (ws @ y # x # zs)"
    unfolding h' using u x by (rule list_insert_after_repr)
  moreover have "list_repr h' l' es'" if "l' \<noteq> l" "list_repr h l' es'" for l' es'
  proof -
    have "list_repr ?h l' es'" using list_unlink_frame [OF r _ that(2)] that(1) by simp
    then show ?thesis
      unfolding h' using list_insert_after_frame [OF u _ _, of y l' es'] that(1) by simp
  qed
  ultimately show ?thesis by blast
qed

lemma list_sort_pass_repr:
  "list_repr h l (ws @ es) \<Longrightarrow>
   \<exists>h'. list_sort_pass l sh (first_or None es) sw h = Some (sw \<or> fst (bubble sh es), h') \<and>
     list_repr h' l (ws @ snd (bubble sh es)) \<and>
     (\<forall>l' es'. l' \<noteq> l \<longrightarrow> list_repr h l' es' \<longrightarrow> list_repr h' l' es')"
proof (induction sh es arbitrary: ws sw h rule: bubble.induct [case_names swap nil single])
  case (swap sh x y zs)
  note nx = list_repr_step [OF swap.prems, simplified]
  show ?case
  proof (cases "sh x y")
    case True
    from swap.IH(1) [OF True, of h "ws @ [x]" sw] swap.prems show ?thesis
      by (auto simp: list_sort_pass.simps [of l sh "Some x"] nx True split: prod.splits)
  next
    case False
    let ?h = "list_insert_after l y x (le_data (les (list_unlink x h) x)) (list_unlink x h)"
    from list_sort_swap [OF swap.prems refl]
    have r: "list_repr ?h l ((ws @ [y]) @ x # zs)"
      and fr: "\<And>l' es'. l' \<noteq> l \<Longrightarrow> list_repr h l' es' \<Longrightarrow> list_repr ?h l' es'" by auto
    from swap.IH(2) [OF False r, of True] fr show ?thesis
      by (auto simp: list_sort_pass.simps [of l sh "Some x"] nx False split: prod.splits)
  qed
next
  case (nil sh)
  then show ?case by (auto simp: list_sort_pass.simps [of l sh None])
next
  case (single sh x)
  then show ?case
    by (auto simp: list_sort_pass.simps [of l sh "Some x"] list_repr_step [OF single])
qed

section \<open>The interface of a list, for its clients\<close>

text \<open>
  A client keeps its elements in an order of its own by searching for a place and inserting there:
  backwards for the last element that may stand before the new one (the jitter buffer, the timers,
  the candidate pairs), or forwards for the first that must stand after it. \<open>insert_back\<close> and
  \<open>insert_fwd\<close> are what these two idioms do to the sequence.
\<close>

definition insert_back :: "('e \<Rightarrow> bool) \<Rightarrow> 'e \<Rightarrow> 'e list \<Rightarrow> 'e list" where
  "insert_back P e xs =
     rev (dropWhile (\<lambda>x. \<not> P x) (rev xs)) @ e # rev (takeWhile (\<lambda>x. \<not> P x) (rev xs))"

definition insert_fwd :: "('e \<Rightarrow> bool) \<Rightarrow> 'e \<Rightarrow> 'e list \<Rightarrow> 'e list" where
  "insert_fwd P e xs = takeWhile (\<lambda>x. \<not> P x) xs @ e # dropWhile (\<lambda>x. \<not> P x) xs"

lemma find_split: "List.find P xs = Some x \<Longrightarrow>
  \<exists>ys. dropWhile (\<lambda>x. \<not> P x) xs = x # ys"
  by (induction xs) auto

lemma find_None_dropWhile: "List.find P xs = None \<Longrightarrow>
  dropWhile (\<lambda>x. \<not> P x) xs = [] \<and> takeWhile (\<lambda>x. \<not> P x) xs = xs"
  by (auto simp: find_None_iff)

locale elem_list =
  fixes repr :: "'h \<Rightarrow> 'e list \<Rightarrow> bool"
    and free :: "'h \<Rightarrow> 'e \<Rightarrow> bool"
    and append :: "'e \<Rightarrow> 'h \<Rightarrow> 'h"
    and prepend :: "'e \<Rightarrow> 'h \<Rightarrow> 'h"
    and ins_before :: "'e \<Rightarrow> 'e \<Rightarrow> 'h \<Rightarrow> 'h"
    and ins_after :: "'e \<Rightarrow> 'e \<Rightarrow> 'h \<Rightarrow> 'h"
    and unlink :: "'e \<Rightarrow> 'h \<Rightarrow> 'h"
    and search :: "bool \<Rightarrow> ('e \<Rightarrow> bool) \<Rightarrow> 'h \<Rightarrow> 'e option option"
  assumes repr_distinct: "repr h xs \<Longrightarrow> distinct xs"
    and repr_free: "repr h xs \<Longrightarrow> free h e \<Longrightarrow> e \<notin> set xs"
    and append_repr: "repr h xs \<Longrightarrow> free h e \<Longrightarrow> repr (append e h) (xs @ [e])"
    and prepend_repr: "repr h xs \<Longrightarrow> free h e \<Longrightarrow> repr (prepend e h) (e # xs)"
    and ins_before_repr: "repr h (xs @ x # ys) \<Longrightarrow> free h e \<Longrightarrow>
          repr (ins_before x e h) (xs @ e # x # ys)"
    and ins_after_repr: "repr h (xs @ x # ys) \<Longrightarrow> free h e \<Longrightarrow>
          repr (ins_after x e h) (xs @ x # e # ys)"
    and unlink_repr: "repr h (xs @ x # ys) \<Longrightarrow> repr (unlink x h) (xs @ ys) \<and> free (unlink x h) x"
    and unlink_free: "free h e \<Longrightarrow> unlink e h = h"
    and search_repr: "repr h xs \<Longrightarrow>
          search fwd P h = Some (List.find P (if fwd then xs else rev xs))"
begin

lemma unlink_any:
  assumes "repr h xs" "x \<in> set xs \<or> free h x"
  shows "repr (unlink x h) (remove1 x xs) \<and> free (unlink x h) x"
proof (cases "x \<in> set xs")
  case True
  then obtain ys zs where xs: "xs = ys @ x # zs" "x \<notin> set ys"
    by (meson split_list_first)
  with unlink_repr [of h ys x zs] assms(1) show ?thesis
    by (simp add: remove1_append)
next
  case False
  with assms show ?thesis by (simp add: unlink_free remove1_idem)
qed

lemma insert_back_repr:
  assumes "repr h xs" "free h e"
  shows "\<exists>r. search False P h = Some r \<and>
    repr (case r of Some x \<Rightarrow> ins_after x e h | None \<Rightarrow> prepend e h) (insert_back P e xs)"
proof (cases "List.find P (rev xs)")
  case None
  have "insert_back P e xs = e # xs"
    unfolding insert_back_def find_None_dropWhile [OF None, THEN conjunct1]
      find_None_dropWhile [OF None, THEN conjunct2] by simp
  with None assms show ?thesis by (simp add: search_repr prepend_repr)
next
  case (Some x)
  from find_split [OF Some] obtain ys where y: "dropWhile (\<lambda>x. \<not> P x) (rev xs) = x # ys" by blast
  have "xs = rev (x # ys) @ rev (takeWhile (\<lambda>x. \<not> P x) (rev xs))"
    using takeWhile_dropWhile_id [of "\<lambda>x. \<not> P x" "rev xs"] y
    by (metis rev_append rev_rev_ident)
  with assms have "repr h (rev ys @ x # rev (takeWhile (\<lambda>x. \<not> P x) (rev xs)))" by simp
  from ins_after_repr [OF this assms(2)] show ?thesis
    using assms(1) Some y by (simp add: search_repr insert_back_def)
qed

lemma insert_fwd_repr:
  assumes "repr h xs" "free h e"
  shows "\<exists>r. search True P h = Some r \<and>
    repr (case r of Some x \<Rightarrow> ins_before x e h | None \<Rightarrow> append e h) (insert_fwd P e xs)"
proof (cases "List.find P xs")
  case None
  have "insert_fwd P e xs = xs @ [e]"
    unfolding insert_fwd_def find_None_dropWhile [OF None, THEN conjunct1]
      find_None_dropWhile [OF None, THEN conjunct2] by simp
  with None assms show ?thesis by (simp add: search_repr append_repr)
next
  case (Some x)
  from find_split [OF Some] obtain ys where y: "dropWhile (\<lambda>x. \<not> P x) xs = x # ys" by blast
  have "xs = takeWhile (\<lambda>x. \<not> P x) xs @ x # ys"
    using takeWhile_dropWhile_id [of "\<lambda>x. \<not> P x" xs] y by simp
  with assms have "repr h (takeWhile (\<lambda>x. \<not> P x) xs @ x # ys)" by simp
  from ins_before_repr [OF this assms(2)] show ?thesis
    using assms(1) Some y by (simp add: search_repr insert_fwd_def)
qed

end

interpretation ll: elem_list "\<lambda>h. list_repr h l" "\<lambda>h e. le_list (les h e) = None"
  "\<lambda>e. list_append l e (d e)" "\<lambda>e. list_prepend l e (d e)"
  "\<lambda>x e. list_insert_before l x e (d e)" "\<lambda>x e. list_insert_after l x e (d e)"
  list_unlink "list_apply l" for l and d :: "addr \<Rightarrow> addr option"
  by unfold_locales
    (simp_all add: list_repr_fresh list_append_repr list_prepend_repr list_insert_before_repr
      list_insert_after_repr list_unlink_repr list_unlink_not_linked list_apply_repr
      list_repr_def [THEN iffD1])

section \<open>What the list guarantees\<close>

text \<open>Two elements appended to an empty list, for the witnesses.\<close>

definition lheap_empty :: lheap where
  "lheap_empty = \<lparr>les = (\<lambda>_. \<lparr>le_prev = None, le_next = None, le_list = None, le_data = None\<rparr>),
     lhead = (\<lambda>_. None), ltail = (\<lambda>_. None)\<rparr>"

definition lheap_two :: lheap where
  "lheap_two = list_append 0 1 (Some 1) (list_append 0 2 (Some 2) (list_init 0 lheap_empty))"

lemma lheap_two_repr: "list_repr lheap_two 0 [2, 1]"
proof -
  have "list_repr (list_init 0 lheap_empty) 0 []" by (rule list_init_repr) (simp add: lheap_empty_def)
  from list_append_repr [OF this, of 2 "Some 2"]
  have "list_repr (list_append 0 2 (Some 2) (list_init 0 lheap_empty)) 0 [2]"
    by (simp add: list_init_def lheap_empty_def)
  from list_append_repr [OF this, of 1 "Some 1"]
  show ?thesis unfolding lheap_two_def by (simp add: list_op_owner list_init_def lheap_empty_def)
qed

text \<open>
  C32: with any comparison that orders every two elements at least one way, \<open>list_sort\<close> terminates
  (its \<open>retry\<close> loop is not bounded in the code) and leaves a well linked list
  of the same elements in which no adjacent pair is out of order; the other lists of the store are
  untouched.
\<close>

theorem list_sort_sorts:
  assumes total: "\<And>x y. \<not> sh x y \<Longrightarrow> sh y x"
  shows "list_repr h l es \<Longrightarrow>
    \<exists>h' es'. list_sort l sh h = Some h' \<and> list_repr h' l es' \<and> mset es' = mset es \<and>
      successively sh es' \<and>
      (\<forall>l' fs. l' \<noteq> l \<longrightarrow> list_repr h l' fs \<longrightarrow> list_repr h' l' fs)"
proof (induction "inversions sh es" arbitrary: h es rule: less_induct)
  case less
  let ?b = "bubble sh es"
  have hd: "lhead h l = first_or None es" using less.prems by (simp add: list_repr_def)
  from list_sort_pass_repr [of h l "[]" es sh False] less.prems obtain h1
    where p: "list_sort_pass l sh (lhead h l) False h = Some (fst ?b, h1)"
      and r1: "list_repr h1 l (snd ?b)"
      and f1: "\<And>l' fs. l' \<noteq> l \<Longrightarrow> list_repr h l' fs \<Longrightarrow> list_repr h1 l' fs"
    unfolding hd by auto
  show ?case
  proof (cases "fst ?b")
    case False
    with bubble_no_swap [of sh es] p r1 f1 show ?thesis
      by (intro exI [of _ h1] exI [of _ es]) (simp add: list_sort.simps [of l sh h])
  next
    case True
    with bubble_inversions [of sh es, OF total] have "inversions sh (snd ?b) < inversions sh es"
      by simp
    from less.hyps [OF this r1] True p f1 show ?thesis
      by (simp add: list_sort.simps [of l sh h] mset_bubble) blast
  qed
qed

lemma list_sort_sorts_witness:
  "\<exists>h' es'. list_sort 0 (\<lambda>x y. x \<le> y) lheap_two = Some h' \<and> list_repr h' 0 es' \<and> mset es' = {#1, 2#} \<and>
     successively (\<lambda>x y. x \<le> y) es'"
  using list_sort_sorts [OF _ lheap_two_repr, of "\<lambda>x y. x \<le> y"] by (auto simp: add_mset_commute)

text \<open>
  \<open>list_flush\<close> terminates and dereferences the data of every element exactly once, in list
  order; afterwards the list is empty, every element is unlinked, and other lists are untouched.
\<close>

theorem list_flush_releases_all:
  assumes "list_repr h l es"
  shows "\<exists>h'. list_flush l h = Some (map (\<lambda>e. le_data (les h e)) es, h') \<and>
     list_repr h' l [] \<and> (\<forall>e \<in> set es. le_list (les h' e) = None) \<and>
     (\<forall>l' es'. l' \<noteq> l \<longrightarrow> list_repr h l' es' \<longrightarrow> list_repr h' l' es')"
proof -
  let ?h = "list_init l (fold le_clear es h)"
  have "list_flush l h = Some (map (\<lambda>e. le_data (les h e)) es, ?h)"
    using assms list_flush_loop_dll [of h l None es "[]"]
    by (simp add: list_flush_def list_repr_def)
  moreover have "list_repr ?h l []"
    using list_repr_owner [OF assms] by (intro list_init_repr) (auto simp: le_clear_les)
  moreover have "list_repr ?h l' es'" if "l' \<noteq> l" "list_repr h l' es'" for l' es'
  proof (rule list_repr_frame [OF that(2)])
    have own: "\<And>x. x \<in> set es \<Longrightarrow> le_list (les h x) = Some l"
      using list_repr_owner [OF assms] by blast
    show "le_list (les h x) = Some l' \<Longrightarrow> les ?h x = les h x" for x
      using own [of x] that(1) by (auto simp: le_clear_les list_init_def)
  qed (use that in \<open>auto simp: le_clear_les le_clear_heads list_init_def split: if_splits\<close>)
  ultimately show ?thesis by (auto simp: le_clear_les list_init_def)
qed

lemma list_flush_releases_all_witness:
  "\<exists>h'. list_flush 0 lheap_two = Some (map (\<lambda>e. le_data (les lheap_two e)) [2, 1], h') \<and> list_repr h' 0 []"
  using list_flush_releases_all [OF lheap_two_repr] by auto

end
