(* ===== verification/Tmr.thy ===== *)
theory Tmr
  imports LinkedList
begin

section \<open>Timers (re/src/tmr/tmr.c)\<close>

text \<open>
  One list of armed timers per thread, kept in order of expiry, polled by the event loop. A timer is
  a \<open>struct tmr\<close> with its list element inside, so the element's address names the timer (the
  \<open>data\<close> pointer of the element is the timer itself). \<open>tm_th\<close> is the handler pointer with its
  argument, \<open>None\<close> for NULL. The clock is an argument: \<open>now\<close> is what \<open>tmr_jiffies()\<close>
  returns, in milliseconds, a 64-bit word, so \<open>delay + now\<close> wraps as in the code.
\<close>

record 'h tmrs =
  tm_heap :: lheap
  tm_jfs :: "addr \<Rightarrow> u64"
  tm_th :: "addr \<Rightarrow> 'h option"

definition tmrl :: addr where "tmrl = 0"

definition inspos_handler :: "'h tmrs \<Rightarrow> u64 \<Rightarrow> addr \<Rightarrow> bool" where
  "inspos_handler s now e \<longleftrightarrow> tm_jfs s e \<le> now"

definition inspos_handler_0 :: "'h tmrs \<Rightarrow> u64 \<Rightarrow> addr \<Rightarrow> bool" where
  "inspos_handler_0 s now e \<longleftrightarrow> tm_jfs s e > now"

definition tmr_init :: "addr \<Rightarrow> 'h tmrs \<Rightarrow> 'h tmrs" where
  "tmr_init t s = s\<lparr>tm_heap := le_clear t (tm_heap s), tm_jfs := (tm_jfs s)(t := 0),
                    tm_th := (tm_th s)(t := None)\<rparr>"

definition tmr_start :: "addr \<Rightarrow> u64 \<Rightarrow> 'h option \<Rightarrow> u64 \<Rightarrow> 'h tmrs \<Rightarrow> 'h tmrs option" where
  "tmr_start t delay th now s =
     (let s1 = (if tm_th s t \<noteq> None then s\<lparr>tm_heap := list_unlink t (tm_heap s)\<rparr> else s);
          s2 = s1\<lparr>tm_th := (tm_th s1)(t := th)\<rparr>
      in if th = None then Some s2
         else
           let s3 = s2\<lparr>tm_jfs := (tm_jfs s2)(t := delay + now)\<rparr>;
               h = tm_heap s3
           in if delay = 0 then do {
                le \<leftarrow> list_apply tmrl True (inspos_handler_0 s3 (tm_jfs s3 t)) h;
                Some (s3\<lparr>tm_heap := (case le of
                    Some x \<Rightarrow> list_insert_before tmrl x t (Some t) h
                  | None \<Rightarrow> list_append tmrl t (Some t) h)\<rparr>) }
              else do {
                le \<leftarrow> list_apply tmrl False (inspos_handler s3 (tm_jfs s3 t)) h;
                Some (s3\<lparr>tm_heap := (case le of
                    Some x \<Rightarrow> list_insert_after tmrl x t (Some t) h
                  | None \<Rightarrow> list_prepend tmrl t (Some t) h)\<rparr>) })"

definition tmr_cancel :: "addr \<Rightarrow> u64 \<Rightarrow> 'h tmrs \<Rightarrow> 'h tmrs option" where
  "tmr_cancel t now s = tmr_start t 0 None now s"

definition tmr_get_expire :: "addr \<Rightarrow> u64 \<Rightarrow> 'h tmrs \<Rightarrow> u64" where
  "tmr_get_expire t now s =
     (if tm_th s t = None then 0
      else if tm_jfs s t > now then tm_jfs s t - now else 0)"

definition tmr_next_timeout :: "u64 \<Rightarrow> 'h tmrs \<Rightarrow> u64" where
  "tmr_next_timeout now s =
     (case lhead (tm_heap s) tmrl of
        None \<Rightarrow> 0
      | Some t \<Rightarrow> if tm_jfs s t \<le> now then 1 else tm_jfs s t - now)"

text \<open>
  \<open>tmr_poll\<close> runs handlers, which may do anything to the timers and to the rest of the program:
  \<open>run h\<close> is the effect of handler \<open>h\<close>. The model also returns the timers it fired. A handler
  that re-arms a timer at once makes the loop run on as long as the clock stands still, so the loop
  is a partial function.
\<close>

partial_function (option) tmr_poll_loop ::
  "('h \<Rightarrow> 'h tmrs \<Rightarrow> 'w \<Rightarrow> 'h tmrs \<times> 'w) \<Rightarrow> u64 \<Rightarrow> 'h tmrs \<Rightarrow> 'w \<Rightarrow> (addr \<times> 'h) list
   \<Rightarrow> ((addr \<times> 'h) list \<times> 'h tmrs \<times> 'w) option" where
  "tmr_poll_loop run jfs s w fired =
     (case lhead (tm_heap s) tmrl of
        None \<Rightarrow> Some (fired, s, w)
      | Some t \<Rightarrow>
          if tm_jfs s t > jfs then Some (fired, s, w)
          else
            let s1 = s\<lparr>tm_th := (tm_th s)(t := None), tm_heap := list_unlink t (tm_heap s)\<rparr>
            in (case tm_th s t of
                  None \<Rightarrow> tmr_poll_loop run jfs s1 w fired
                | Some h \<Rightarrow>
                    let r = run h s1 w
                    in tmr_poll_loop run jfs (fst r) (snd r) (fired @ [(t, h)])))"

definition tmr_poll ::
  "('h \<Rightarrow> 'h tmrs \<Rightarrow> 'w \<Rightarrow> 'h tmrs \<times> 'w) \<Rightarrow> u64 \<Rightarrow> 'h tmrs \<Rightarrow> 'w
   \<Rightarrow> ((addr \<times> 'h) list \<times> 'h tmrs \<times> 'w) option" where
  "tmr_poll run now s w = tmr_poll_loop run now s w []"

section \<open>The timer list is sorted, and is the map of deadlines\<close>

definition tmr_wf :: "'h tmrs \<Rightarrow> addr list \<Rightarrow> bool" where
  "tmr_wf s ts \<longleftrightarrow>
     list_repr (tm_heap s) tmrl ts \<and> sorted (map (tm_jfs s) ts) \<and>
     (\<forall>t. tm_th s t \<noteq> None \<longleftrightarrow> t \<in> set ts) \<and>
     (\<forall>t. t \<in> set ts \<or> le_list (les (tm_heap s) t) = None)"

definition deadline :: "'h tmrs \<Rightarrow> addr \<Rightarrow> (u64 \<times> 'h) option" where
  "deadline s t = map_option (\<lambda>h. (tm_jfs s t, h)) (tm_th s t)"

lemma tmr_wfD:
  assumes "tmr_wf s ts"
  shows "list_repr (tm_heap s) tmrl ts" "sorted (map (tm_jfs s) ts)" "distinct ts"
    "tm_th s t \<noteq> None \<longleftrightarrow> t \<in> set ts" "t \<in> set ts \<or> le_list (les (tm_heap s) t) = None"
  using assms by (auto simp: tmr_wf_def dest: ll.repr_distinct)

text \<open>Where the new timer goes: after every timer that expires no later than it.\<close>

definition tmr_place :: "(addr \<Rightarrow> u64) \<Rightarrow> addr \<Rightarrow> addr list \<Rightarrow> addr list" where
  "tmr_place j t ts = filter (\<lambda>x. j x \<le> j t) ts @ t # filter (\<lambda>x. j x > j t) ts"

lemma sorted_split_filter:
  "sorted (map f xs) \<Longrightarrow>
   takeWhile (\<lambda>x. f x \<le> (a::'a::linorder)) xs = filter (\<lambda>x. f x \<le> a) xs \<and>
   dropWhile (\<lambda>x. f x \<le> a) xs = filter (\<lambda>x. a < f x) xs"
proof (induction xs)
  case Nil
  then show ?case by simp
next
  case (Cons x xs)
  show ?case
  proof (cases "f x \<le> a")
    case True
    with Cons show ?thesis by simp
  next
    case False
    then have "\<forall>y \<in> set xs. a < f y"
      using Cons.prems by auto
    then show ?thesis using False
      by (auto simp: filter_empty_conv filter_id_conv not_le [symmetric])
  qed
qed

lemma insert_fwd_sorted:
  "sorted (map f xs) \<Longrightarrow>
   insert_fwd (\<lambda>x. (a::'a::linorder) < f x) e xs =
     filter (\<lambda>x. f x \<le> a) xs @ e # filter (\<lambda>x. a < f x) xs"
  by (simp add: insert_fwd_def not_less sorted_split_filter)

lemma sorted_split_filter_rev:
  "sorted (map f xs) \<Longrightarrow>
   rev (takeWhile (\<lambda>x. \<not> f x \<le> a) (rev xs)) = filter (\<lambda>x. (a::'a::linorder) < f x) xs \<and>
   rev (dropWhile (\<lambda>x. \<not> f x \<le> a) (rev xs)) = filter (\<lambda>x. f x \<le> a) xs"
proof (induction xs rule: rev_induct)
  case Nil
  then show ?case by simp
next
  case (snoc x xs)
  show ?case
  proof (cases "f x \<le> a")
    case True
    then have "\<forall>y \<in> set xs. f y \<le> a"
      using snoc.prems by (auto simp: sorted_append)
    then show ?thesis using True by (auto simp: filter_empty_conv filter_id_conv not_less)
  next
    case False
    with snoc show ?thesis by (simp add: sorted_append)
  qed
qed

lemma insert_back_sorted:
  "sorted (map f xs) \<Longrightarrow>
   insert_back (\<lambda>x. f x \<le> (a::'a::linorder)) e xs =
     filter (\<lambda>x. f x \<le> a) xs @ e # filter (\<lambda>x. a < f x) xs"
  by (simp add: insert_back_def sorted_split_filter_rev)


lemma sorted_tmr_place: "sorted (map j ts) \<Longrightarrow> sorted (map j (tmr_place j t ts))"
proof -
  assume "sorted (map j ts)"
  then have "sorted (map j (filter P ts))" for P by (rule sorted_filter)
  then show ?thesis by (auto simp: tmr_place_def sorted_append)
qed

lemma set_tmr_place [simp]: "set (tmr_place j t ts) = insert t (set ts)"
  by (auto simp: tmr_place_def)

lemma filter_other:
  "t \<notin> set ts \<Longrightarrow> map (f(t := v)) ts = map f ts"
  by auto

text \<open>A stopped timer is out of the list and free; this is the common first half of a (re)start.\<close>

lemma tmr_stopped:
  assumes wf: "tmr_wf s ts"
    and h: "h = (if tm_th s t \<noteq> None then list_unlink t (tm_heap s) else tm_heap s)"
  shows "list_repr h tmrl (remove1 t ts)" "le_list (les h t) = None"
    "sorted (map (tm_jfs s) (remove1 t ts))" "set (remove1 t ts) = set ts - {t}"
    "x \<in> set (remove1 t ts) \<or> le_list (les h x) = None"
proof -
  note w = tmr_wfD(1-3) [OF wf] tmr_wfD(4,5) [OF wf, where t = t]
  have "tm_th s t = None \<Longrightarrow> le_list (les (tm_heap s) t) = None" using w(4,5) by blast
  then have hu: "h = list_unlink t (tm_heap s)"
    using list_unlink_not_linked [of "tm_heap s" t] by (cases "tm_th s t") (simp_all add: h)
  from ll.unlink_any [OF w(1), of t] w(5)
  show "list_repr h tmrl (remove1 t ts)" "le_list (les h t) = None"
    by (simp_all add: hu)
  show "sorted (map (tm_jfs s) (remove1 t ts))"
    using w(2) by (rule sorted_map_remove1)
  show st: "set (remove1 t ts) = set ts - {t}" using w(3) by (rule set_remove1_eq)
  show "x \<in> set (remove1 t ts) \<or> le_list (les h x) = None"
    using tmr_wfD(5) [OF wf, where t = x] st by (auto simp: hu list_op_owner)
qed

lemma tmr_cancel_spec:
  assumes wf: "tmr_wf s ts"
  shows "\<exists>s'. tmr_cancel t now s = Some s' \<and> tmr_wf s' (remove1 t ts) \<and>
     deadline s' = (deadline s)(t := None)"
proof -
  let ?h = "if tm_th s t \<noteq> None then list_unlink t (tm_heap s) else tm_heap s"
  let ?s = "s\<lparr>tm_heap := ?h, tm_th := (tm_th s)(t := None)\<rparr>"
  note st = tmr_stopped(1-4) [OF wf, where t = t, OF refl] tmr_stopped(5) [OF wf, where t = t, OF refl]
  have "tmr_cancel t now s = Some ?s"
    by (cases "tm_th s t") (simp_all add: tmr_cancel_def tmr_start_def Let_def)
  moreover have "tmr_wf ?s (remove1 t ts)"
    unfolding tmr_wf_def using st(1,3,4,5) tmr_wfD(4) [OF wf] by (simp add: st(5))
  ultimately show ?thesis by (auto simp: deadline_def fun_eq_iff)
qed

lemma tmr_start_spec:
  assumes wf: "tmr_wf s ts"
  shows "\<exists>s'. tmr_start t delay (Some th) now s = Some s' \<and>
     tmr_wf s' (tmr_place (tm_jfs s') t (remove1 t ts)) \<and>
     deadline s' = (deadline s)(t \<mapsto> (delay + now, th))"
proof -
  define h where "h = (if tm_th s t \<noteq> None then list_unlink t (tm_heap s) else tm_heap s)"
  define j where "j = (tm_jfs s)(t := delay + now)"
  define us where "us = remove1 t ts"
  define s3 where "s3 = s\<lparr>tm_heap := h, tm_th := (tm_th s)(t \<mapsto> th), tm_jfs := j\<rparr>"
  note st = tmr_stopped(1-4) [OF wf h_def, folded us_def] tmr_stopped(5) [OF wf h_def, folded us_def]
  have tn: "t \<notin> set us" using st(4) by simp
  have srt: "sorted (map j us)" using st(3) tn by (simp add: filter_other j_def)
  have s3: "tm_heap s3 = h" "tm_jfs s3 = j" "tm_th s3 = (tm_th s)(t \<mapsto> th)" by (simp_all add: s3_def)
  have start: "tmr_start t delay (Some th) now s =
      (if delay = 0 then do {
         le \<leftarrow> list_apply tmrl True (inspos_handler_0 s3 (j t)) h;
         Some (s3\<lparr>tm_heap := (case le of
             Some x \<Rightarrow> list_insert_before tmrl x t (Some t) h
           | None \<Rightarrow> list_append tmrl t (Some t) h)\<rparr>) }
       else do {
         le \<leftarrow> list_apply tmrl False (inspos_handler s3 (j t)) h;
         Some (s3\<lparr>tm_heap := (case le of
             Some x \<Rightarrow> list_insert_after tmrl x t (Some t) h
           | None \<Rightarrow> list_prepend tmrl t (Some t) h)\<rparr>) })"
    by (cases "tm_th s t")
      (simp_all add: tmr_start_def Let_def s3_def h_def j_def cong: option.case_cong)
  have "\<exists>h'. tmr_start t delay (Some th) now s = Some (s3\<lparr>tm_heap := h'\<rparr>) \<and>
      list_repr h' tmrl (tmr_place j t us) \<and>
      (\<forall>x. le_list (les h' x) = (if x = t then Some tmrl else le_list (les h x)))"
  proof (cases "delay = 0")
    case True
    have P: "inspos_handler_0 s3 (j t) = (\<lambda>x. j t < j x)"
      by (auto simp: inspos_handler_0_def s3)
    from ll.insert_fwd_repr [OF st(1,2), where d = Some and P = "\<lambda>x. j t < j x"]
    obtain r where "list_apply tmrl True (\<lambda>x. j t < j x) h = Some r"
      and "list_repr (case r of Some x \<Rightarrow> list_insert_before tmrl x t (Some t) h
           | None \<Rightarrow> list_append tmrl t (Some t) h) tmrl (tmr_place j t us)"
      by (auto simp: insert_fwd_sorted [OF srt] tmr_place_def)
    with True P show ?thesis
      unfolding start by (cases r) (auto simp: list_op_owner st(2))
  next
    case False
    have P: "inspos_handler s3 (j t) = (\<lambda>x. j x \<le> j t)"
      by (auto simp: inspos_handler_def s3)
    from ll.insert_back_repr [OF st(1,2), where d = Some and P = "\<lambda>x. j x \<le> j t"]
    obtain r where "list_apply tmrl False (\<lambda>x. j x \<le> j t) h = Some r"
      and "list_repr (case r of Some x \<Rightarrow> list_insert_after tmrl x t (Some t) h
           | None \<Rightarrow> list_prepend tmrl t (Some t) h) tmrl (tmr_place j t us)"
      by (auto simp: insert_back_sorted [OF srt] tmr_place_def)
    with False P show ?thesis
      unfolding start by (cases r) (auto simp: list_op_owner st(2))
  qed
  then obtain h' where h': "tmr_start t delay (Some th) now s = Some (s3\<lparr>tm_heap := h'\<rparr>)"
    and rep: "list_repr h' tmrl (tmr_place j t us)"
    and own: "\<forall>x. le_list (les h' x) = (if x = t then Some tmrl else le_list (les h x))" by blast
  have "\<forall>x. x \<in> set us \<or> le_list (les h x) = None" using st(5) by blast
  then have "tmr_wf (s3\<lparr>tm_heap := h'\<rparr>) (tmr_place j t us)"
    using rep sorted_tmr_place [OF srt, of t] st(4) tmr_wfD(4) [OF wf] own
    by (auto simp: tmr_wf_def s3)
  with h' show ?thesis
    by (auto simp: deadline_def fun_eq_iff s3 us_def j_def)
qed


lemma tmr_wf_head:
  "tmr_wf s ts \<Longrightarrow> lhead (tm_heap s) tmrl = first_or None ts"
  by (simp add: tmr_wf_def list_repr_def)

lemma tmr_next_timeout_spec:
  assumes "tmr_wf s ts"
  shows "tmr_next_timeout now s =
    (if ts = [] then 0 else if tm_jfs s (hd ts) \<le> now then 1 else tm_jfs s (hd ts) - now)"
  using tmr_wf_head [OF assms] by (cases ts) (simp_all add: tmr_next_timeout_def)

lemma tmr_wf_hd_least: "tmr_wf s ts \<Longrightarrow> t \<in> set ts \<Longrightarrow> tm_jfs s (hd ts) \<le> tm_jfs s t"
  by (cases ts) (auto simp: tmr_wf_def)

subsection \<open>Polling\<close>

text \<open>Taking the head timer off the list, the first thing \<open>tmr_poll\<close> does with it.\<close>

lemma tmr_pop:
  assumes "tmr_wf s (t # ts)"
  shows "tmr_wf (s\<lparr>tm_th := (tm_th s)(t := None), tm_heap := list_unlink t (tm_heap s)\<rparr>) ts"
proof -
  from tmr_cancel_spec [OF assms, of t 0] obtain s' where
    c: "tmr_cancel t 0 s = Some s'" and w: "tmr_wf s' ts" by auto
  have "tm_th s t \<noteq> None" using tmr_wfD(4) [OF assms, where t = t] by simp
  then have "s' = s\<lparr>tm_th := (tm_th s)(t := None), tm_heap := list_unlink t (tm_heap s)\<rparr>"
    using c by (auto simp: tmr_cancel_def tmr_start_def Let_def)
  with w show ?thesis by simp
qed

definition tmr_due :: "'h tmrs \<Rightarrow> u64 \<Rightarrow> addr list \<Rightarrow> addr list" where
  "tmr_due s now ts = filter (\<lambda>t. tm_jfs s t \<le> now) ts"

text \<open>
  A program whose handlers leave the due timers alone. \<open>J\<close> is an invariant of the program. Whenever it holds and
  the first timer of the list is due, its handler, which finds the timer off the list, keeps the invariant, neither
  stops nor moves another due timer, and arms none, itself included, for the polled time or before.
\<close>

definition tmr_taken :: "addr \<Rightarrow> 'h tmrs \<Rightarrow> 'h tmrs" where
  "tmr_taken t s = s\<lparr>tm_th := (tm_th s)(t := None), tm_heap := list_unlink t (tm_heap s)\<rparr>"

definition leaves_due :: "('h tmrs \<Rightarrow> 'w \<Rightarrow> bool) \<Rightarrow> ('h \<Rightarrow> 'h tmrs \<Rightarrow> 'w \<Rightarrow> 'h tmrs \<times> 'w) \<Rightarrow> u64 \<Rightarrow> bool" where
  "leaves_due J run now \<longleftrightarrow>
     (\<forall>t ts h s w. tmr_wf s (t # ts) \<longrightarrow> J s w \<longrightarrow> tm_jfs s t \<le> now \<longrightarrow> tm_th s t = Some h \<longrightarrow>
        (\<exists>ts'. tmr_wf (fst (run h (tmr_taken t s) w)) ts' \<and> J (fst (run h (tmr_taken t s) w)) (snd (run h (tmr_taken t s) w)) \<and>
           tmr_due (fst (run h (tmr_taken t s) w)) now ts' = tmr_due s now ts \<and>
           (\<forall>x \<in> set (tmr_due s now ts). deadline (fst (run h (tmr_taken t s) w)) x = deadline s x)))"

lemma deadline_th: "deadline s t = deadline s' t' \<Longrightarrow> tm_th s t = tm_th s' t'"
  by (auto simp: deadline_def map_option_case split: option.splits)

lemma tmr_poll_loop_spec:
  assumes q: "leaves_due J run now"
  shows "tmr_wf s ts \<Longrightarrow> J s w \<Longrightarrow> tmr_due s now ts = due \<Longrightarrow>
    \<exists>s' w' ts'. tmr_poll_loop run now s w fired =
        Some (fired @ map (\<lambda>t. (t, the (tm_th s t))) due, s', w') \<and>
      tmr_wf s' ts' \<and> J s' w' \<and> (\<forall>t \<in> set ts'. now < tm_jfs s' t)"
proof (induction due arbitrary: s w ts fired)
  case Nil
  have late: "\<forall>t \<in> set ts. now < tm_jfs s t"
    using Nil.prems(3) by (auto simp: tmr_due_def filter_empty_conv not_le)
  then have "tmr_poll_loop run now s w fired = Some (fired, s, w)"
    by (cases ts) (auto simp: tmr_poll_loop.simps tmr_wf_head [OF Nil.prems(1)])
  with late Nil.prems(1,2) show ?case by auto
next
  case (Cons t due)
  note srt = sorted_split_filter [OF tmr_wfD(2) [OF Cons.prems(1)], of now]
  from Cons.prems(3) srt have "takeWhile (\<lambda>x. tm_jfs s x \<le> now) ts = t # due"
    by (simp add: tmr_due_def)
  then obtain rs where ts: "ts = t # rs" and tn: "tm_jfs s t \<le> now"
    by (cases ts) (auto split: if_splits)
  have wf: "tmr_wf s (t # rs)" using Cons.prems(1) by (simp add: ts)
  have d1: "tmr_due s now rs = due" using Cons.prems(3) tn by (simp add: tmr_due_def ts)
  obtain h where h: "tm_th s t = Some h"
    using tmr_wfD(4) [OF Cons.prems(1), where t = t] ts by auto
  let ?r = "run h (tmr_taken t s) w"
  obtain ts' where w2: "tmr_wf (fst ?r) ts'" "J (fst ?r) (snd ?r)" and d2: "tmr_due (fst ?r) now ts' = due"
    and same: "\<forall>x \<in> set due. deadline (fst ?r) x = deadline s x"
    using q [unfolded leaves_due_def, rule_format, OF wf Cons.prems(2) tn h] unfolding d1 by blast
  have th: "\<forall>x \<in> set due. tm_th (fst ?r) x = tm_th s x"
    using same by (fastforce dest: deadline_th)
  have step: "tmr_poll_loop run now s w fired =
      tmr_poll_loop run now (fst ?r) (snd ?r) (fired @ [(t, h)])"
    using tmr_wf_head [OF Cons.prems(1)] leD [OF tn] h
    by (subst tmr_poll_loop.simps) (simp add: ts Let_def tmr_taken_def)
  from Cons.IH [OF w2 d2, of "fired @ [(t, h)]"] show ?case
    unfolding step using th by (auto simp: h cong: map_cong)
qed

text \<open>For example: handlers that arm their own timer again for a later time.\<close>

definition rearm :: "u64 \<Rightarrow> u64 \<Rightarrow> addr \<Rightarrow> addr tmrs \<Rightarrow> nat \<Rightarrow> addr tmrs \<times> nat" where
  "rearm d now t s w = (the (tmr_start t d (Some t) now s), Suc w)"

definition own_timer :: "addr tmrs \<Rightarrow> nat \<Rightarrow> bool" where
  "own_timer s w \<longleftrightarrow> (\<forall>t h. tm_th s t = Some h \<longrightarrow> h = t)"

lemma rearm_leaves_due:
  assumes later: "now < d + now"
  shows "leaves_due own_timer (rearm d now) now"
  unfolding leaves_due_def
proof (intro allI impI)
  fix t ts h s w
  assume wf: "tmr_wf s (t # ts)" and own: "own_timer s w" and "tm_th s t = Some h"
  then have h: "h = t" by (simp add: own_timer_def)
  have w1: "tmr_wf (tmr_taken t s) ts" using tmr_pop [OF wf] by (simp add: tmr_taken_def)
  have tn: "t \<notin> set ts" using tmr_wfD(3) [OF wf] by simp
  obtain s' where s': "tmr_start t d (Some t) now (tmr_taken t s) = Some s'"
    "tmr_wf s' (tmr_place (tm_jfs s') t ts)" "deadline s' = (deadline (tmr_taken t s))(t \<mapsto> (d + now, t))"
    using tmr_start_spec [OF w1, of t d t now] tn by (auto simp: remove1_idem)
  have r: "rearm d now h (tmr_taken t s) w = (s', Suc w)" by (simp add: rearm_def h s'(1))
  have other: "deadline s' x = deadline s x" if "x \<noteq> t" for x
    using s'(3) that by (simp add: deadline_def tmr_taken_def)
  have self: "tm_jfs s' t = d + now" "tm_th s' t = Some t"
    using fun_cong [OF s'(3), of t] by (auto simp: deadline_def split: option.splits)
  have j: "tm_jfs s' x = tm_jfs s x" if "x \<in> set ts" for x
  proof -
    have "x \<noteq> t" using that tn by blast
    then show ?thesis using other [of x] that tmr_wfD(4) [OF wf, where t = x] by (auto simp: deadline_def)
  qed
  have "filter (\<lambda>x. tm_jfs s' x \<le> d + now \<and> tm_jfs s' x \<le> now) ts = filter (\<lambda>x. tm_jfs s' x \<le> now) ts"
    using later by (intro filter_cong) auto
  moreover have "filter (\<lambda>x. d + now < tm_jfs s' x \<and> tm_jfs s' x \<le> now) ts = []"
    using later by (auto simp: filter_empty_conv)
  ultimately have "tmr_due s' now (tmr_place (tm_jfs s') t ts) = filter (\<lambda>x. tm_jfs s' x \<le> now) ts"
    using later by (simp add: tmr_due_def tmr_place_def self(1) not_le)
  then have due: "tmr_due s' now (tmr_place (tm_jfs s') t ts) = tmr_due s now ts"
    using j by (simp add: tmr_due_def cong: filter_cong)
  have "own_timer s' (Suc w)"
    using own other self(2) unfolding own_timer_def by (metis deadline_th option.inject)
  then show "\<exists>ts'. tmr_wf (fst (rearm d now h (tmr_taken t s) w)) ts' \<and>
      own_timer (fst (rearm d now h (tmr_taken t s) w)) (snd (rearm d now h (tmr_taken t s) w)) \<and>
      tmr_due (fst (rearm d now h (tmr_taken t s) w)) now ts' = tmr_due s now ts \<and>
      (\<forall>x \<in> set (tmr_due s now ts). deadline (fst (rearm d now h (tmr_taken t s) w)) x = deadline s x)"
  proof -
    have "\<forall>x \<in> set (tmr_due s now ts). deadline s' x = deadline s x"
      using other tn by (metis filter_is_subset subsetD tmr_due_def)
    then show ?thesis unfolding r using s'(2) due \<open>own_timer s' (Suc w)\<close> by auto
  qed
qed

section \<open>The timer service its clients rely on\<close>

datatype ('t, 'h) timer_cmd = TmrStart 't u64 'h | TmrCancel 't

fun map_cmd :: "u64 \<Rightarrow> ('t, 'h) timer_cmd \<Rightarrow> ('t \<rightharpoonup> u64 \<times> 'h) \<Rightarrow> ('t \<rightharpoonup> u64 \<times> 'h)" where
  "map_cmd now (TmrStart t d h) m = m(t \<mapsto> (d + now, h))"
| "map_cmd now (TmrCancel t) m = m(t := None)"

text \<open>
  A protocol machine emits timer commands; \<open>run_cmds\<close> carries them out on any service. What the
  machine may rely on is that the service is a map of deadlines.
\<close>

fun run_cmds :: "('t \<Rightarrow> u64 \<Rightarrow> 'h \<Rightarrow> u64 \<Rightarrow> 's \<Rightarrow> 's option) \<Rightarrow> ('t \<Rightarrow> u64 \<Rightarrow> 's \<Rightarrow> 's option) \<Rightarrow>
    u64 \<Rightarrow> ('t, 'h) timer_cmd list \<Rightarrow> 's \<Rightarrow> 's option" where
  "run_cmds start cancel now [] s = Some s"
| "run_cmds start cancel now (c # cs) s =
     (case c of TmrStart t d h \<Rightarrow> start t d h now s | TmrCancel t \<Rightarrow> cancel t now s)
       \<bind> run_cmds start cancel now cs"

locale timer_service =
  fixes ok :: "'s \<Rightarrow> bool"
    and dl :: "'s \<Rightarrow> 't \<rightharpoonup> u64 \<times> 'h"
    and start :: "'t \<Rightarrow> u64 \<Rightarrow> 'h \<Rightarrow> u64 \<Rightarrow> 's \<Rightarrow> 's option"
    and cancel :: "'t \<Rightarrow> u64 \<Rightarrow> 's \<Rightarrow> 's option"
  assumes start_dl: "ok s \<Longrightarrow>
      \<exists>s'. start t d h now s = Some s' \<and> ok s' \<and> dl s' = (dl s)(t \<mapsto> (d + now, h))"
    and cancel_dl: "ok s \<Longrightarrow>
      \<exists>s'. cancel t now s = Some s' \<and> ok s' \<and> dl s' = (dl s)(t := None)"
begin

lemma run_cmds_map:
  "ok s \<Longrightarrow> \<exists>s'. run_cmds start cancel now cs s = Some s' \<and> ok s' \<and>
     dl s' = fold (map_cmd now) cs (dl s)"
proof (induction cs arbitrary: s)
  case Nil
  then show ?case by simp
next
  case (Cons c cs)
  obtain s1 where s1: "(case c of TmrStart t d h \<Rightarrow> start t d h now s
      | TmrCancel t \<Rightarrow> cancel t now s) = Some s1" "ok s1" "dl s1 = map_cmd now c (dl s)"
    using start_dl [OF Cons.prems] cancel_dl [OF Cons.prems] by (cases c) fastforce+
  with Cons.IH [OF s1(2)] show ?case by simp
qed

lemma restart:
  "ok s \<Longrightarrow> \<exists>s'. run_cmds start cancel now [TmrStart t d h, TmrStart t d' h'] s = Some s' \<and>
     dl s' = (dl s)(t \<mapsto> (d' + now, h'))"
  using run_cmds_map [of s now "[TmrStart t d h, TmrStart t d' h']"] by auto

end

interpretation tmrs: timer_service "\<lambda>s. \<exists>ts. tmr_wf s ts" deadline
  "\<lambda>t d h. tmr_start t d (Some h)" tmr_cancel
proof
  fix s :: "'h tmrs" and t d h now
  assume "\<exists>ts. tmr_wf s ts"
  then obtain ts where "tmr_wf s ts" by blast
  from tmr_start_spec [OF this, of t d h now]
  show "\<exists>s'. tmr_start t d (Some h) now s = Some s' \<and> (\<exists>ts. tmr_wf s' ts) \<and>
      deadline s' = (deadline s)(t \<mapsto> (d + now, h))" by blast
next
  fix s :: "'h tmrs" and t now
  assume "\<exists>ts. tmr_wf s ts"
  then obtain ts where "tmr_wf s ts" by blast
  from tmr_cancel_spec [OF this, of t now]
  show "\<exists>s'. tmr_cancel t now s = Some s' \<and> (\<exists>ts. tmr_wf s' ts) \<and>
      deadline s' = (deadline s)(t := None)" by blast
qed

section \<open>What the timers guarantee\<close>

definition tmrs_empty :: "nat tmrs" where
  "tmrs_empty = \<lparr>tm_heap = lheap_empty, tm_jfs = (\<lambda>_. 0), tm_th = (\<lambda>_. None)\<rparr>"

lemma tmrs_empty_wf: "tmr_wf tmrs_empty []"
  by (simp add: tmr_wf_def tmrs_empty_def lheap_empty_def list_repr_def)

text \<open>
  C28: starting and cancelling timers, in any sequence, implements a map from timers to deadlines:
  the linked list stays sorted by expiry, each armed timer is on it exactly once with its last
  deadline and handler, a cancelled timer is off it, and \<open>tmr_next_timeout\<close> is at most the time
  left to any deadline of the map that is not over yet, and not 0 (which means: no timer) while a
  timer is armed, overdue ones included.
\<close>

theorem timers_refine_deadline_map:
  assumes "tmr_wf s ts"
  shows "\<exists>s' ts'. run_cmds (\<lambda>t d h. tmr_start t d (Some h)) tmr_cancel now cs s = Some s' \<and> tmr_wf s' ts' \<and>
    deadline s' = fold (map_cmd now) cs (deadline s) \<and>
    (\<forall>t d h. deadline s' t = Some (d, h) \<longrightarrow> tmr_next_timeout now s' \<noteq> 0 \<and>
       (now < d \<longrightarrow> tmr_next_timeout now s' \<le> d - now))"
proof -
  obtain s' ts' where s': "run_cmds (\<lambda>t d h. tmr_start t d (Some h)) tmr_cancel now cs s = Some s'" "tmr_wf s' ts'"
    "deadline s' = fold (map_cmd now) cs (deadline s)"
    using tmrs.run_cmds_map [of s now cs] assms by blast
  have "tmr_next_timeout now s' \<noteq> 0 \<and> (now < d \<longrightarrow> tmr_next_timeout now s' \<le> d - now)"
    if "deadline s' t = Some (d, h)" for t d h
  proof -
    have t: "t \<in> set ts'" "tm_jfs s' t = d"
      using that tmr_wfD(4) [OF s'(2), of t] by (auto simp: deadline_def)
    then have ne: "ts' \<noteq> []" and le: "tm_jfs s' (hd ts') \<le> d" using tmr_wf_hd_least [OF s'(2) t(1)] by auto
    note n = tmr_next_timeout_spec [OF s'(2), of now]
    show ?thesis
    proof (cases "tm_jfs s' (hd ts') \<le> now")
      case True
      then show ?thesis using n ne by (auto simp: word_le_nat_alt unat_sub word_less_nat_alt)
    next
      case False
      then show ?thesis using n ne le
        by (auto simp: word_le_nat_alt unat_sub word_less_nat_alt less_imp_le)
    qed
  qed
  with s' show ?thesis by blast
qed

lemma timers_refine_deadline_map_witness:
  "\<exists>s' ts'. run_cmds (\<lambda>t d h. tmr_start t d (Some h)) tmr_cancel 10
      [TmrStart 1 500 7, TmrStart 2 100 8, TmrCancel 1] tmrs_empty = Some s' \<and> tmr_wf s' ts' \<and>
    deadline s' 1 = None \<and> deadline s' 2 = Some (110, 8)"
proof -
  let ?cs = "[TmrStart 1 500 7, TmrStart 2 100 8, TmrCancel 1]"
  obtain s' ts' where r: "run_cmds (\<lambda>t d h. tmr_start t d (Some h)) tmr_cancel 10 ?cs tmrs_empty = Some s'"
    "tmr_wf s' ts'" "deadline s' = fold (map_cmd 10) ?cs (deadline tmrs_empty)"
    using timers_refine_deadline_map [OF tmrs_empty_wf, of 10 ?cs] by blast
  have "deadline s' 1 = None" "deadline s' 2 = Some (110, 8)" unfolding r(3) by simp_all
  with r show ?thesis by blast
qed

text \<open>
  C33: In a program whose handlers leave the due timers alone (they may do anything to the others, and arm their own
  timer again for later), \<open>tmr_poll\<close> returns, having run the handler of every timer that was due exactly once, in the
  order of the list (earliest deadline first), and no timer that is still armed is due.
\<close>

theorem tmr_poll_fires_due:
  assumes "leaves_due J run now" "tmr_wf s ts" "J s w"
  shows "\<exists>s' w' ts'. tmr_poll run now s w = Some (map (\<lambda>t. (t, the (tm_th s t))) (tmr_due s now ts), s', w') \<and>
    sorted (map (tm_jfs s) (tmr_due s now ts)) \<and> distinct (tmr_due s now ts) \<and>
    tmr_wf s' ts' \<and> J s' w' \<and> (\<forall>t \<in> set ts'. now < tm_jfs s' t)"
  using tmr_poll_loop_spec [OF assms refl, of "[]"] tmr_wfD(2,3) [OF assms(2)]
  by (auto simp: tmr_poll_def tmr_due_def sorted_filter)

text \<open>A periodic timer of half a second.\<close>

lemma tmr_poll_fires_due_witness:
  "\<exists>s ts s' w' ts'. tmr_due s 10 ts = [2] \<and> tmr_poll (rearm 500 10) 10 s 0 = Some ([(2, 2)], s', w') \<and>
     tmr_wf s' ts' \<and> (\<forall>t \<in> set ts'. 10 < tm_jfs s' t)"
proof -
  have q: "leaves_due own_timer (rearm 500 10) 10" by (rule rearm_leaves_due) simp
  obtain s where s: "tmr_start 2 0 (Some 2) 10 tmrs_empty = Some s" "tmr_wf s (tmr_place (tm_jfs s) 2 [])"
    "deadline s = (deadline tmrs_empty)(2 \<mapsto> (10, 2))"
    using tmr_start_spec [OF tmrs_empty_wf, of 2 0 2 10] by auto
  have p: "tmr_place (tm_jfs s) 2 [] = [2]" by (simp add: tmr_place_def)
  have d: "tm_jfs s 2 = 10 \<and> tm_th s 2 = Some 2"
    using fun_cong [OF s(3), of 2] by (simp add: deadline_def split: option.splits)
  have o: "own_timer s 0"
    unfolding own_timer_def using tmr_wfD(4) [OF s(2) [unfolded p]] d
    by (metis empty_set insert_iff list.simps(15) option.distinct(1) option.inject singletonD)
  have "tmr_due s 10 [2] = [2]" using d by (simp add: tmr_due_def)
  with tmr_poll_fires_due [OF q s(2) [unfolded p] o] d
  have "tmr_due s 10 [2] = [2] \<and> (\<exists>s' w' ts'. tmr_poll (rearm 500 10) 10 s 0 = Some ([(2, 2)], s', w') \<and>
     tmr_wf s' ts' \<and> (\<forall>t \<in> set ts'. 10 < tm_jfs s' t))" by auto
  then show ?thesis by blast
qed

end
