(* ===== verification/Mbuf.thy ===== *)
theory Mbuf
  imports Prelude
begin

section \<open>Memory buffers (re/src/mbuf/mbuf.c, re/include/re_mbuf.h)\<close>

text \<open>
  An \<open>mbuf\<close> is a growable byte array with a read/write position and an end. Every protocol
  encoder and decoder of the stack works on one. The record has the four fields of
  \<open>struct mbuf\<close>; the block behind \<open>buf\<close> is a byte list, \<open>None\<close> for NULL. Guards that
  test the buffer argument itself for NULL have no counterpart: a modelled operation is applied to
  an object. The allocator is not part of the repository: it is the parameter \<open>env\<close>, which
  says for a request of \<open>n\<close> bytes whether it succeeds and what the fresh bytes hold.
  \<open>mbuf_alloc_ref\<close> (two buffers that share one block) and the printf front ends are not
  modelled.
\<close>

type_synonym menv = "nat \<Rightarrow> (nat \<Rightarrow> byte) option"

record mbuf =
  mb_buf :: "byte list option"
  mb_size :: nat
  mb_pos :: nat
  mb_end :: nat

definition DEFAULT_SIZE :: nat where "DEFAULT_SIZE = 512"

subsection \<open>The block of memory behind the buffer\<close>

definition mem_poke :: "byte list option \<Rightarrow> nat \<Rightarrow> byte list \<Rightarrow> byte list option option" where
  "mem_poke b off bs =
     (if bs = [] then Some b
      else case b of None \<Rightarrow> None
           | Some m \<Rightarrow>
               if off + length bs \<le> length m
               then Some (Some (take off m @ bs @ drop (off + length bs) m)) else None)"

definition mem_peek :: "byte list option \<Rightarrow> nat \<Rightarrow> nat \<Rightarrow> byte list option" where
  "mem_peek b off n =
     (if n = 0 then Some []
      else case b of None \<Rightarrow> None
           | Some m \<Rightarrow> if off + n \<le> length m then Some (take n (drop off m)) else None)"

text \<open>Like the C libraries of the supported hosts, no block of \<open>2 ^ 63\<close> bytes or more is given out.\<close>

definition mem_get :: "menv \<Rightarrow> nat \<Rightarrow> (nat \<Rightarrow> byte) option" where
  "mem_get env n = (if n < 2 ^ 63 then env n else None)"

subsection \<open>Life cycle\<close>

definition mbuf_init :: mbuf where
  "mbuf_init = \<lparr>mb_buf = None, mb_size = 0, mb_pos = 0, mb_end = 0\<rparr>"

definition mbuf_reset :: "mbuf \<Rightarrow> mbuf" where
  "mbuf_reset mb = mbuf_init"

definition mbuf_resize :: "menv \<Rightarrow> mbuf \<Rightarrow> nat \<Rightarrow> err \<times> mbuf" where
  "mbuf_resize env mb n =
     (case mem_get env n of
        None \<Rightarrow> (ENOMEM, mb)
      | Some fresh \<Rightarrow>
          let old = (case mb_buf mb of None \<Rightarrow> [] | Some m \<Rightarrow> m);
              b = take n old @ map fresh [length old..<n]
          in (0, mb\<lparr>mb_buf := Some b, mb_size := n\<rparr>))"

definition mbuf_alloc :: "menv \<Rightarrow> nat \<Rightarrow> mbuf option" where
  "mbuf_alloc env n =
     (if mem_get env 32 = None then None
      else let (e, mb) = mbuf_resize env mbuf_init (if n \<noteq> 0 then n else DEFAULT_SIZE)
           in if e \<noteq> 0 then None else Some mb)"

definition mbuf_trim :: "menv \<Rightarrow> mbuf \<Rightarrow> mbuf" where
  "mbuf_trim env mb =
     (if mb_end mb = 0 \<or> mb_end mb = mb_size mb then mb
      else snd (mbuf_resize env mb (mb_end mb)))"

subsection \<open>Positions (the inline functions of re_mbuf.h)\<close>

definition mbuf_get_left :: "mbuf \<Rightarrow> nat" where
  "mbuf_get_left mb = (if mb_end mb > mb_pos mb then mb_end mb - mb_pos mb else 0)"

definition mbuf_get_space :: "mbuf \<Rightarrow> nat" where
  "mbuf_get_space mb = (if mb_size mb > mb_pos mb then mb_size mb - mb_pos mb else 0)"

definition mbuf_set_pos :: "mbuf \<Rightarrow> nat \<Rightarrow> mbuf" where
  "mbuf_set_pos mb p = mb\<lparr>mb_pos := p\<rparr>"

definition mbuf_set_end :: "mbuf \<Rightarrow> nat \<Rightarrow> mbuf" where
  "mbuf_set_end mb e = mb\<lparr>mb_end := e\<rparr>"

definition mbuf_advance :: "mbuf \<Rightarrow> int \<Rightarrow> mbuf" where
  "mbuf_advance mb n = mb\<lparr>mb_pos := nat ((int (mb_pos mb) + n) mod 2 ^ 64)\<rparr>"

definition mbuf_rewind :: "mbuf \<Rightarrow> mbuf" where
  "mbuf_rewind mb = mb\<lparr>mb_pos := 0, mb_end := 0\<rparr>"

definition mbuf_skip_to_end :: "mbuf \<Rightarrow> mbuf" where
  "mbuf_skip_to_end mb = mb\<lparr>mb_pos := mb_end mb\<rparr>"

definition ssize :: "nat \<Rightarrow> int" where
  "ssize n = (if n < 2 ^ 63 then int n else int n - 2 ^ 64)"

definition mbuf_shift :: "menv \<Rightarrow> mbuf \<Rightarrow> int \<Rightarrow> (err \<times> mbuf) option" where
  "mbuf_shift env mb sh =
     (if ssize (mb_pos mb) + sh < 0 \<or> ssize (mb_end mb) + sh < 0 then Some (ERANGE, mb)
      else
        let rsize = nat ((int (mb_end mb) + sh) mod 2 ^ 64);
            (err, mb1) = (if rsize > mb_size mb then mbuf_resize env mb rsize else (0, mb))
        in if err \<noteq> 0 then Some (err, mb1)
           else do {
             bs \<leftarrow> mem_peek (mb_buf mb1) (mb_pos mb1) (mbuf_get_left mb1);
             b \<leftarrow> mem_poke (mb_buf mb1) (nat (int (mb_pos mb1) + sh)) bs;
             Some (0, mb1\<lparr>mb_buf := b,
                          mb_pos := nat ((int (mb_pos mb1) + sh) mod 2 ^ 64),
                          mb_end := nat ((int (mb_end mb1) + sh) mod 2 ^ 64)\<rparr>)
           })"

subsection \<open>Writing\<close>

text \<open>The growth step \<open>mbuf_write_mem\<close> and \<open>mbuf_fill\<close> both start with.\<close>

definition mbuf_grow :: "menv \<Rightarrow> mbuf \<Rightarrow> nat \<Rightarrow> err \<times> mbuf" where
  "mbuf_grow env mb n =
     (let rsize = szadd (mb_pos mb) n
      in if rsize > mb_size mb
         then let dsize = (if mb_size mb \<noteq> 0 then szmul (mb_size mb) 2 else DEFAULT_SIZE)
              in mbuf_resize env mb (max rsize dsize)
         else (0, mb))"

definition mbuf_write_mem :: "menv \<Rightarrow> mbuf \<Rightarrow> byte list \<Rightarrow> (err \<times> mbuf) option" where
  "mbuf_write_mem env mb bs =
     (let (err, mb1) = mbuf_grow env mb (length bs)
      in if err \<noteq> 0 then Some (err, mb1)
         else do {
           b \<leftarrow> mem_poke (mb_buf mb1) (mb_pos mb1) bs;
           let p = szadd (mb_pos mb1) (length bs);
           Some (0, mb1\<lparr>mb_buf := b, mb_pos := p, mb_end := max (mb_end mb1) p\<rparr>)
         })"

definition mbuf_fill :: "menv \<Rightarrow> mbuf \<Rightarrow> byte \<Rightarrow> nat \<Rightarrow> (err \<times> mbuf) option" where
  "mbuf_fill env mb c n =
     (if n = 0 then Some (EINVAL, mb)
      else let (err, mb1) = mbuf_grow env mb n
           in if err \<noteq> 0 then Some (err, mb1)
              else do {
                b \<leftarrow> mem_poke (mb_buf mb1) (mb_pos mb1) (replicate n c);
                let p = szadd (mb_pos mb1) n;
                Some (0, mb1\<lparr>mb_buf := b, mb_pos := p, mb_end := max (mb_end mb1) p\<rparr>)
              })"

definition mbuf_write_u8 :: "menv \<Rightarrow> mbuf \<Rightarrow> byte \<Rightarrow> (err \<times> mbuf) option" where
  "mbuf_write_u8 env mb v = mbuf_write_mem env mb (le_bytes 1 v)"

definition mbuf_write_u16 :: "menv \<Rightarrow> mbuf \<Rightarrow> u16 \<Rightarrow> (err \<times> mbuf) option" where
  "mbuf_write_u16 env mb v = mbuf_write_mem env mb (le_bytes 2 v)"

definition mbuf_write_u32 :: "menv \<Rightarrow> mbuf \<Rightarrow> u32 \<Rightarrow> (err \<times> mbuf) option" where
  "mbuf_write_u32 env mb v = mbuf_write_mem env mb (le_bytes 4 v)"

definition mbuf_write_u64 :: "menv \<Rightarrow> mbuf \<Rightarrow> u64 \<Rightarrow> (err \<times> mbuf) option" where
  "mbuf_write_u64 env mb v = mbuf_write_mem env mb (le_bytes 8 v)"

text \<open>A C string is the bytes before its terminator; NULL is the error \<open>EINVAL\<close>.\<close>

definition mbuf_write_str :: "menv \<Rightarrow> mbuf \<Rightarrow> byte list option \<Rightarrow> (err \<times> mbuf) option" where
  "mbuf_write_str env mb s =
     (case s of None \<Rightarrow> Some (EINVAL, mb) | Some cs \<Rightarrow> mbuf_write_mem env mb cs)"

definition mbuf_write_pl :: "menv \<Rightarrow> mbuf \<Rightarrow> byte list option \<Rightarrow> (err \<times> mbuf) option" where
  "mbuf_write_pl env mb pl =
     (case pl of None \<Rightarrow> Some (EINVAL, mb) | Some cs \<Rightarrow> mbuf_write_mem env mb cs)"

text \<open>
  \<open>pl\<close> and \<open>skip\<close> are two windows \<open>(offset, length)\<close> into the same text \<open>t\<close>.
\<close>

definition mbuf_write_pl_skip ::
  "menv \<Rightarrow> mbuf \<Rightarrow> byte list \<Rightarrow> nat \<times> nat \<Rightarrow> nat \<times> nat \<Rightarrow> (err \<times> mbuf) option" where
  "mbuf_write_pl_skip env mb t pl skip =
     (let (p, l) = pl; (sp, sl) = skip
      in if p > sp \<or> sp + sl > p + l then Some (ERANGE, mb)
         else do {
           (err, mb1) \<leftarrow> mbuf_write_mem env mb (take (sp - p) (drop p t));
           if err \<noteq> 0 then Some (err, mb1)
           else mbuf_write_mem env mb1 (take (p + l - (sp + sl)) (drop (sp + sl) t))
         })"

subsection \<open>Reading\<close>

definition mbuf_read_mem :: "mbuf \<Rightarrow> nat \<Rightarrow> (err \<times> byte list \<times> mbuf) option" where
  "mbuf_read_mem mb n =
     (if n > mbuf_get_left mb then Some (EOVERFLOW, [], mb)
      else do {
        bs \<leftarrow> mem_peek (mb_buf mb) (mb_pos mb) n;
        Some (0, bs, mb\<lparr>mb_pos := szadd (mb_pos mb) n\<rparr>)
      })"

definition mbuf_read_u8 :: "mbuf \<Rightarrow> (byte \<times> mbuf) option" where
  "mbuf_read_u8 mb = do {
     (e, bs, mb') \<leftarrow> mbuf_read_mem mb 1;
     Some (if e = 0 then of_le bs else 0, mb') }"

definition mbuf_read_u16 :: "mbuf \<Rightarrow> (u16 \<times> mbuf) option" where
  "mbuf_read_u16 mb = do {
     (e, bs, mb') \<leftarrow> mbuf_read_mem mb 2;
     Some (if e = 0 then of_le bs else 0, mb') }"

definition mbuf_read_u32 :: "mbuf \<Rightarrow> (u32 \<times> mbuf) option" where
  "mbuf_read_u32 mb = do {
     (e, bs, mb') \<leftarrow> mbuf_read_mem mb 4;
     Some (if e = 0 then of_le bs else 0, mb') }"

definition mbuf_read_u64 :: "mbuf \<Rightarrow> (u64 \<times> mbuf) option" where
  "mbuf_read_u64 mb = do {
     (e, bs, mb') \<leftarrow> mbuf_read_mem mb 8;
     Some (if e = 0 then of_le bs else 0, mb') }"

text \<open>The characters stored into the caller's array of \<open>n\<close> bytes, in order.\<close>

fun mbuf_read_str :: "mbuf \<Rightarrow> nat \<Rightarrow> (byte list \<times> mbuf) option" where
  "mbuf_read_str mb 0 = Some ([], mb)"
| "mbuf_read_str mb (Suc n) = do {
     (c, mb1) \<leftarrow> mbuf_read_u8 mb;
     if c = 0 then Some ([c], mb1)
     else do { (cs, mb2) \<leftarrow> mbuf_read_str mb1 n; Some (c # cs, mb2) } }"

definition mbuf_strdup :: "menv \<Rightarrow> mbuf \<Rightarrow> nat \<Rightarrow> (err \<times> byte list option \<times> mbuf) option" where
  "mbuf_strdup env mb len =
     (if mem_get env (szadd len 1) = None then Some (ENOMEM, None, mb)
      else do {
        (e, bs, mb1) \<leftarrow> mbuf_read_mem mb len;
        Some (e, if e \<noteq> 0 then None else Some (bs @ [0]), mb1) })"

section \<open>The contract of a memory buffer\<close>

definition mbuf_wf :: "mbuf \<Rightarrow> bool" where
  "mbuf_wf mb \<longleftrightarrow>
     (case mb_buf mb of None \<Rightarrow> mb_size mb = 0 | Some m \<Rightarrow> length m = mb_size mb) \<and>
     mb_pos mb \<le> mb_end mb \<and> mb_end mb \<le> mb_size mb \<and> mb_size mb < 2 ^ 63"

definition mbuf_block :: "mbuf \<Rightarrow> byte list" where
  "mbuf_block mb = (case mb_buf mb of None \<Rightarrow> [] | Some m \<Rightarrow> m)"

definition mbuf_data :: "mbuf \<Rightarrow> byte list" where
  "mbuf_data mb = take (mb_end mb) (mbuf_block mb)"

definition mbuf_rest :: "mbuf \<Rightarrow> byte list" where
  "mbuf_rest mb = drop (mb_pos mb) (mbuf_data mb)"

lemma mbuf_block_simps [simp]:
  "mbuf_block (mb\<lparr>mb_buf := b\<rparr>) = (case b of None \<Rightarrow> [] | Some m \<Rightarrow> m)"
  "mbuf_block (mb\<lparr>mb_size := n\<rparr>) = mbuf_block mb"
  "mbuf_block (mb\<lparr>mb_pos := n\<rparr>) = mbuf_block mb"
  "mbuf_block (mb\<lparr>mb_end := n\<rparr>) = mbuf_block mb"
  by (simp_all add: mbuf_block_def)

lemma mem_get_bound: "mem_get env n = Some f \<Longrightarrow> n < 2 ^ 63"
  by (simp add: mem_get_def split: if_splits)

lemma mbuf_wfD:
  assumes "mbuf_wf mb"
  shows "length (mbuf_block mb) = mb_size mb" "mb_pos mb \<le> mb_end mb" "mb_end mb \<le> mb_size mb"
    "mb_size mb < 2 ^ 63"
  using assms by (auto simp: mbuf_wf_def mbuf_block_def split: option.splits)

lemma length_mbuf_data [simp]: "mbuf_wf mb \<Longrightarrow> length (mbuf_data mb) = mb_end mb"
  by (simp add: mbuf_data_def mbuf_wfD)

lemma length_mbuf_rest [simp]: "mbuf_wf mb \<Longrightarrow> length (mbuf_rest mb) = mb_end mb - mb_pos mb"
  by (simp add: mbuf_rest_def)

lemma mbuf_get_left_rest: "mbuf_wf mb \<Longrightarrow> mbuf_get_left mb = length (mbuf_rest mb)"
  by (simp add: mbuf_get_left_def)

lemma mbuf_wf_init [simp]: "mbuf_wf mbuf_init"
  by (simp add: mbuf_wf_def mbuf_init_def)

lemma mbuf_resize_cases:
  assumes "mbuf_wf mb" "mb_end mb \<le> n"
  obtains "mbuf_resize env mb n = (ENOMEM, mb)"
  | mb' where "mbuf_resize env mb n = (0, mb')" "mbuf_wf mb'" "mb_size mb' = n"
      "mb_pos mb' = mb_pos mb" "mb_end mb' = mb_end mb" "mbuf_data mb' = mbuf_data mb"
      "mb_buf mb' \<noteq> None"
proof (cases "mem_get env n")
  case None
  then show ?thesis by (auto simp: mbuf_resize_def intro: that(1))
next
  case (Some f)
  let ?old = "mbuf_block mb"
  let ?b = "take n ?old @ map f [length ?old..<n]"
  let ?mb = "mb\<lparr>mb_buf := Some ?b, mb_size := n\<rparr>"
  note wf = mbuf_wfD [OF assms(1)]
  have "mbuf_resize env mb n = (0, ?mb)"
    using Some by (simp add: mbuf_resize_def mbuf_block_def Let_def)
  moreover have len: "length ?b = n" by simp
  have "mbuf_wf ?mb"
    using len wf assms(2) mem_get_bound [OF Some] by (simp add: mbuf_wf_def)
  moreover have "mbuf_data ?mb = mbuf_data mb"
    using wf assms(2) by (simp add: mbuf_data_def min_absorb1)
  ultimately show ?thesis by (intro that(2) [of ?mb]) simp_all
qed

lemma mbuf_grow_cases:
  assumes "mbuf_wf mb" "n < 2 ^ 63"
  obtains "mbuf_grow env mb n = (ENOMEM, mb)"
  | mb' where "mbuf_grow env mb n = (0, mb')" "mbuf_wf mb'" "mb_pos mb + n \<le> mb_size mb'"
      "mb_pos mb' = mb_pos mb" "mb_end mb' = mb_end mb" "mbuf_data mb' = mbuf_data mb"
proof -
  note wf = mbuf_wfD [OF assms(1)]
  have r: "szadd (mb_pos mb) n = mb_pos mb + n" using wf assms(2) by simp
  show ?thesis
  proof (cases "mb_pos mb + n > mb_size mb")
    case False
    then have "mbuf_grow env mb n = (0, mb)" by (simp add: mbuf_grow_def r)
    with False assms show ?thesis by (intro that(2)) auto
  next
    case True
    let ?d = "if mb_size mb \<noteq> 0 then szmul (mb_size mb) 2 else DEFAULT_SIZE"
    let ?n = "max (mb_pos mb + n) ?d"
    have g: "mbuf_grow env mb n = mbuf_resize env mb ?n"
      using True by (simp add: mbuf_grow_def r Let_def)
    have e: "mb_end mb \<le> ?n" using True wf by simp
    show ?thesis
      by (rule mbuf_resize_cases [OF assms(1) e]) (auto intro: that simp: g)
  qed
qed

lemma mem_poke_ok:
  assumes "mbuf_wf mb" "off + length bs \<le> mb_size mb"
  obtains b where "mem_poke (mb_buf mb) off bs = Some b"
    "mbuf_block (mb\<lparr>mb_buf := b\<rparr>) =
       take off (mbuf_block mb) @ bs @ drop (off + length bs) (mbuf_block mb)"
    "b = None \<longleftrightarrow> mb_buf mb = None"
proof (cases "mb_buf mb")
  case None
  with assms show ?thesis
    by (intro that [of None]) (auto simp: mem_poke_def mbuf_block_def mbuf_wf_def)
next
  case (Some m)
  with assms show ?thesis
    by (intro that [of "Some (take off m @ bs @ drop (off + length bs) m)"])
      (auto simp: mem_poke_def mbuf_block_def mbuf_wf_def)
qed

lemma mem_peek_ok:
  assumes "mbuf_wf mb" "off + n \<le> mb_size mb"
  shows "mem_peek (mb_buf mb) off n = Some (take n (drop off (mbuf_block mb)))"
  using assms by (cases "mb_buf mb") (auto simp: mem_peek_def mbuf_block_def mbuf_wf_def)

text \<open>
  What a write does: it never leaves the block, keeps the invariant, and either fails for want of
  memory with the buffer unchanged or overwrites from the position on.
\<close>

lemma mbuf_write_mem_cases:
  assumes "mbuf_wf mb" "length bs < 2 ^ 63"
  obtains "mbuf_write_mem env mb bs = Some (ENOMEM, mb)"
  | mb' where "mbuf_write_mem env mb bs = Some (0, mb')" "mbuf_wf mb'"
      "mb_pos mb' = mb_pos mb + length bs"
      "mbuf_data mb' = take (mb_pos mb) (mbuf_data mb) @ bs
                       @ drop (mb_pos mb + length bs) (mbuf_data mb)"
proof (rule mbuf_grow_cases [OF assms])
  assume "mbuf_grow env mb (length bs) = (ENOMEM, mb)"
  then show thesis by (intro that(1)) (simp add: mbuf_write_mem_def)
next
  fix mb1
  assume g: "mbuf_grow env mb (length bs) = (0, mb1)" and w1: "mbuf_wf mb1"
    and sz: "mb_pos mb + length bs \<le> mb_size mb1" and p1: "mb_pos mb1 = mb_pos mb"
    and e1: "mb_end mb1 = mb_end mb" and d1: "mbuf_data mb1 = mbuf_data mb"
  obtain b where b: "mem_poke (mb_buf mb1) (mb_pos mb1) bs = Some b"
    and blk: "mbuf_block (mb1\<lparr>mb_buf := b\<rparr>) =
       take (mb_pos mb1) (mbuf_block mb1) @ bs @ drop (mb_pos mb1 + length bs) (mbuf_block mb1)"
    and bn: "b = None \<longleftrightarrow> mb_buf mb1 = None"
    by (rule mem_poke_ok [OF w1, of "mb_pos mb1" bs]) (use sz p1 in auto)
  note wf1 = mbuf_wfD [OF w1]
  let ?p = "mb_pos mb + length bs"
  let ?mb = "mb1\<lparr>mb_buf := b, mb_pos := ?p, mb_end := max (mb_end mb1) ?p\<rparr>"
  have sa: "szadd (mb_pos mb1) (length bs) = ?p"
    using sz wf1 p1 by simp
  have "mbuf_write_mem env mb bs = Some (0, ?mb)"
    by (simp add: mbuf_write_mem_def g b sa Let_def)
  moreover have blk': "mbuf_block ?mb =
      take (mb_pos mb) (mbuf_block mb1) @ bs @ drop ?p (mbuf_block mb1)"
    using blk p1 by simp
  have "length (mbuf_block ?mb) = mb_size mb1"
    unfolding blk' using wf1 sz by simp
  then have "mbuf_wf ?mb"
    using wf1 w1 bn sz p1 by (auto simp: mbuf_wf_def mbuf_block_def split: option.splits)
  moreover have "mbuf_data ?mb = take (mb_pos mb) (mbuf_data mb) @ bs @ drop ?p (mbuf_data mb)"
  proof -
    have "mbuf_data ?mb = take (max (mb_end mb) ?p) (mbuf_block ?mb)"
      by (simp add: mbuf_data_def e1)
    also have "\<dots> = take (mb_pos mb) (mbuf_block mb1) @ bs
        @ take (max (mb_end mb) ?p - ?p) (drop ?p (mbuf_block mb1))"
      unfolding blk' using wf1 sz p1 e1 by (simp add: min_absorb1)
    also have "take (max (mb_end mb) ?p - ?p) (drop ?p (mbuf_block mb1)) = drop ?p (mbuf_data mb)"
      unfolding d1 [symmetric] unfolding mbuf_data_def e1 by (simp add: drop_take max_def)
    also have "take (mb_pos mb) (mbuf_block mb1) = take (mb_pos mb) (mbuf_data mb)"
      unfolding d1 [symmetric] unfolding mbuf_data_def e1 using wf1 p1 e1 by (simp add: min_absorb1)
    finally show ?thesis .
  qed
  ultimately show thesis by (intro that(2) [of ?mb]) simp_all
qed

definition overwrite :: "byte list \<Rightarrow> nat \<Rightarrow> byte list \<Rightarrow> byte list" where
  "overwrite d p bs = take p d @ bs @ drop (p + length bs) d"

lemma overwrite_Nil [simp]: "overwrite d p [] = d"
  by (simp add: overwrite_def)

lemma overwrite_end [simp]: "overwrite d (length d) bs = d @ bs"
  by (simp add: overwrite_def)

lemma length_overwrite [simp]:
  "p \<le> length d \<Longrightarrow> length (overwrite d p bs) = max (length d) (p + length bs)"
  by (simp add: overwrite_def)

lemma overwrite_overwrite [simp]:
  "p \<le> length d \<Longrightarrow>
   overwrite (overwrite d p a) (p + length a) b = overwrite d p (a @ b)"
  by (simp add: overwrite_def ac_simps)

lemma drop_overwrite:
  "p \<le> length d \<Longrightarrow> drop p (overwrite d p bs) = bs @ drop (p + length bs) d"
  by (simp add: overwrite_def)

subsection \<open>Sinks: what an encoder needs of a buffer\<close>

text \<open>
  Every encoder of the stack is a run of \<open>err |= mbuf_write_*(mb, ..)\<close>: all the writes are
  attempted, the error codes are ORed. \<open>write_all\<close> is that run over any write operation.
\<close>

fun write_all :: "('m \<Rightarrow> byte list \<Rightarrow> (err \<times> 'm) option) \<Rightarrow> 'm \<Rightarrow> byte list list \<Rightarrow> (err \<times> 'm) option" where
  "write_all put m [] = Some (0, m)"
| "write_all put m (c # cs) = do {
     (e, m1) \<leftarrow> put m c;
     (e', m2) \<leftarrow> write_all put m1 cs;
     Some (e OR e', m2) }"

locale byte_sink =
  fixes put :: "'m \<Rightarrow> byte list \<Rightarrow> (err \<times> 'm) option"
    and pos :: "'m \<Rightarrow> nat"
    and data :: "'m \<Rightarrow> byte list"
    and ok :: "'m \<Rightarrow> bool"
  assumes pos_le: "ok m \<Longrightarrow> pos m \<le> length (data m)"
    and put_cases: "ok m \<Longrightarrow> length bs < 2 ^ 63 \<Longrightarrow>
      (\<exists>e. e \<noteq> 0 \<and> put m bs = Some (e, m)) \<or>
      (\<exists>m'. put m bs = Some (0, m') \<and> ok m' \<and> pos m' = pos m + length bs \<and>
            data m' = overwrite (data m) (pos m) bs)"
begin

lemma put_total: "ok m \<Longrightarrow> length bs < 2 ^ 63 \<Longrightarrow> \<exists>e m'. put m bs = Some (e, m') \<and> ok m'"
  using put_cases [of m bs] by blast

lemma put_success:
  assumes "ok m" "length bs < 2 ^ 63" "put m bs = Some (0, m')"
  shows "ok m' \<and> pos m' = pos m + length bs \<and> data m' = overwrite (data m) (pos m) bs"
  using put_cases [OF assms(1,2)] assms(3) by auto

lemma write_all_total:
  "ok m \<Longrightarrow> \<forall>c \<in> set cs. length c < 2 ^ 63 \<Longrightarrow>
   \<exists>e m'. write_all put m cs = Some (e, m') \<and> ok m'"
proof (induction cs arbitrary: m)
  case Nil
  then show ?case by simp
next
  case (Cons c cs)
  then obtain e m1 where c: "put m c = Some (e, m1)" and m1: "ok m1"
    using put_total [of m c] by auto
  obtain e' m2 where "write_all put m1 cs = Some (e', m2)" "ok m2"
    using Cons.IH [OF m1] Cons.prems(2) by auto
  with c show ?case by simp
qed

lemma write_all_success:
  "ok m \<Longrightarrow> \<forall>c \<in> set cs. length c < 2 ^ 63 \<Longrightarrow> write_all put m cs = Some (0, m') \<Longrightarrow>
   ok m' \<and> pos m' = pos m + length (concat cs) \<and>
   data m' = overwrite (data m) (pos m) (concat cs)"
proof (induction cs arbitrary: m)
  case Nil
  then show ?case by simp
next
  case (Cons c cs)
  from Cons.prems(3) obtain m1 where p: "put m c = Some (0, m1)"
    and w: "write_all put m1 cs = Some (0, m')"
    by (auto simp: bind_eq_Some_conv)
  note s = put_success [OF Cons.prems(1) _ p]
  with Cons.prems have s': "ok m1" "pos m1 = pos m + length c"
    "data m1 = overwrite (data m) (pos m) c" by simp_all
  from Cons.IH [OF s'(1) _ w] Cons.prems s' pos_le [OF Cons.prems(1)]
  show ?case by (simp add: add.assoc)
qed

end

interpretation mbs: byte_sink "mbuf_write_mem env" mb_pos mbuf_data mbuf_wf for env
proof
  fix m assume "mbuf_wf m"
  then show "mb_pos m \<le> length (mbuf_data m)" by (simp add: mbuf_wfD)
next
  fix m :: mbuf and bs :: "byte list"
  assume "mbuf_wf m" "length bs < 2 ^ 63"
  then show "(\<exists>e. e \<noteq> 0 \<and> mbuf_write_mem env m bs = Some (e, m)) \<or>
      (\<exists>m'. mbuf_write_mem env m bs = Some (0, m') \<and> mbuf_wf m' \<and>
         mb_pos m' = mb_pos m + length bs \<and>
         mbuf_data m' = overwrite (mbuf_data m) (mb_pos m) bs)"
    by (rule mbuf_write_mem_cases [of m bs env]) (auto simp: overwrite_def)
qed


subsection \<open>Sources: what a decoder needs of a buffer\<close>

locale byte_source =
  fixes get :: "'m \<Rightarrow> nat \<Rightarrow> (err \<times> byte list \<times> 'm) option"
    and rest :: "'m \<Rightarrow> byte list"
    and skip :: "'m \<Rightarrow> nat \<Rightarrow> 'm"
    and ok :: "'m \<Rightarrow> bool"
  assumes get_enough: "ok m \<Longrightarrow> n \<le> length (rest m) \<Longrightarrow>
      get m n = Some (0, take n (rest m), skip m n)"
    and get_short: "ok m \<Longrightarrow> length (rest m) < n \<Longrightarrow> \<exists>e. e \<noteq> 0 \<and> get m n = Some (e, [], m)"
    and skip_ok: "ok m \<Longrightarrow> n \<le> length (rest m) \<Longrightarrow> ok (skip m n)"
    and skip_rest: "ok m \<Longrightarrow> n \<le> length (rest m) \<Longrightarrow> rest (skip m n) = drop n (rest m)"
begin

lemma get_total: "ok m \<Longrightarrow> \<exists>e bs m'. get m n = Some (e, bs, m') \<and> ok m'"
  using get_enough [of m n] get_short [of m n] skip_ok [of m n] by (cases "n \<le> length (rest m)") auto

lemma get_success_iff: "ok m \<Longrightarrow> (\<exists>bs m'. get m n = Some (0, bs, m')) \<longleftrightarrow> n \<le> length (rest m)"
  using get_enough [of m n] get_short [of m n] by (cases "n \<le> length (rest m)") auto

lemma get_append:
  "ok m \<Longrightarrow> rest m = a @ b \<Longrightarrow> get m (length a) = Some (0, a, skip m (length a)) \<and>
   ok (skip m (length a)) \<and> rest (skip m (length a)) = b"
  using get_enough [of m "length a"] skip_ok [of m "length a"] skip_rest [of m "length a"] by simp

end

text \<open>A reading position moved on by \<open>n\<close>; \<open>mbuf_skip\<close> is \<open>mb->pos += n\<close> within the end.\<close>

definition mbuf_skip :: "mbuf \<Rightarrow> nat \<Rightarrow> mbuf" where
  "mbuf_skip mb n = mb\<lparr>mb_pos := mb_pos mb + n\<rparr>"

lemma mbuf_data_simps [simp]:
  "mbuf_data (mb\<lparr>mb_pos := n\<rparr>) = mbuf_data mb"
  by (simp add: mbuf_data_def)

lemma mbuf_skip_skip [simp]: "mbuf_skip (mbuf_skip mb a) b = mbuf_skip mb (a + b)"
  by (simp add: mbuf_skip_def add.assoc)

lemma mbuf_skip_0 [simp]: "mbuf_skip mb 0 = mb"
  by (simp add: mbuf_skip_def)

lemma mbuf_read_mem_enough:
  assumes "mbuf_wf mb" "n \<le> length (mbuf_rest mb)"
  shows "mbuf_read_mem mb n = Some (0, take n (mbuf_rest mb), mbuf_skip mb n)"
proof -
  note wf = mbuf_wfD [OF assms(1)]
  have n: "n \<le> mb_end mb - mb_pos mb" using assms by simp
  have "mem_peek (mb_buf mb) (mb_pos mb) n = Some (take n (drop (mb_pos mb) (mbuf_block mb)))"
    using n wf by (intro mem_peek_ok [OF assms(1)]) simp
  moreover have "take n (drop (mb_pos mb) (mbuf_block mb)) = take n (mbuf_rest mb)"
    using n wf by (simp add: mbuf_rest_def mbuf_data_def drop_take min_absorb1)
  ultimately show ?thesis
    using n wf by (auto simp: mbuf_read_mem_def mbuf_skip_def mbuf_get_left_def)
qed

lemma mbuf_wf_skip: "mbuf_wf mb \<Longrightarrow> n \<le> length (mbuf_rest mb) \<Longrightarrow> mbuf_wf (mbuf_skip mb n)"
  by (auto simp: mbuf_wf_def mbuf_skip_def mbuf_rest_def mbuf_data_def mbuf_block_def
      split: option.splits)

interpretation mbr: byte_source mbuf_read_mem mbuf_rest mbuf_skip mbuf_wf
proof
  fix m n assume w: "mbuf_wf m" and n: "length (mbuf_rest m) < n"
  then show "\<exists>e. e \<noteq> 0 \<and> mbuf_read_mem m n = Some (e, [], m)"
    by (simp add: mbuf_read_mem_def mbuf_get_left_rest del: length_mbuf_rest)
next
  fix m n assume "mbuf_wf m" "n \<le> length (mbuf_rest m)"
  then show "mbuf_rest (mbuf_skip m n) = drop n (mbuf_rest m)"
    by (simp add: mbuf_rest_def mbuf_skip_def add.commute)
qed (simp_all add: mbuf_read_mem_enough mbuf_wf_skip)

text \<open>The typed reads, on a buffer known to hold enough bytes.\<close>

lemma mbuf_read_u8_Cons:
  "mbuf_wf mb \<Longrightarrow> mbuf_rest mb = b # r \<Longrightarrow> mbuf_read_u8 mb = Some (b, mbuf_skip mb 1)"
  using mbr.get_append [of mb "[b]" r] by (simp add: mbuf_read_u8_def)

lemma mbuf_read_u16_append:
  "mbuf_wf mb \<Longrightarrow> mbuf_rest mb = le_bytes 2 v @ r \<Longrightarrow>
   mbuf_read_u16 mb = Some (v, mbuf_skip mb 2)"
  using mbr.get_append [of mb "le_bytes 2 v" r] by (simp add: mbuf_read_u16_def)

lemma mbuf_read_u32_append:
  "mbuf_wf mb \<Longrightarrow> mbuf_rest mb = le_bytes 4 v @ r \<Longrightarrow>
   mbuf_read_u32 mb = Some (v, mbuf_skip mb 4)"
  using mbr.get_append [of mb "le_bytes 4 v" r] by (simp add: mbuf_read_u32_def)

lemma mbuf_read_u64_append:
  "mbuf_wf mb \<Longrightarrow> mbuf_rest mb = le_bytes 8 v @ r \<Longrightarrow>
   mbuf_read_u64 mb = Some (v, mbuf_skip mb 8)"
  using mbr.get_append [of mb "le_bytes 8 v" r] by (simp add: mbuf_read_u64_def)

lemma mbuf_read_be:
  "mbuf_wf mb \<Longrightarrow> mbuf_rest mb = be16 v @ r \<Longrightarrow> mbuf_read_u16 mb = Some (htons v, mbuf_skip mb 2)"
  "mbuf_wf mb \<Longrightarrow> mbuf_rest mb = be32 w @ r \<Longrightarrow> mbuf_read_u32 mb = Some (htonl w, mbuf_skip mb 4)"
  "mbuf_wf mb \<Longrightarrow> mbuf_rest mb = be64 x @ r \<Longrightarrow> mbuf_read_u64 mb = Some (htonll x, mbuf_skip mb 8)"
  using mbuf_read_u16_append [of mb "htons v" r] mbuf_read_u32_append [of mb "htonl w" r]
    mbuf_read_u64_append [of mb "htonll x" r] by simp_all

text \<open>No typed read leaves the buffer, whatever it holds.\<close>

lemma mbuf_read_total:
  assumes "mbuf_wf mb"
  shows "\<exists>v mb'. mbuf_read_u8 mb = Some (v, mb') \<and> mbuf_wf mb'"
    "\<exists>v mb'. mbuf_read_u16 mb = Some (v, mb') \<and> mbuf_wf mb'"
    "\<exists>v mb'. mbuf_read_u32 mb = Some (v, mb') \<and> mbuf_wf mb'"
    "\<exists>v mb'. mbuf_read_u64 mb = Some (v, mb') \<and> mbuf_wf mb'"
  using mbr.get_total [OF assms, of 1] mbr.get_total [OF assms, of 2]
    mbr.get_total [OF assms, of 4] mbr.get_total [OF assms, of 8]
  by (auto simp: mbuf_read_u8_def mbuf_read_u16_def mbuf_read_u32_def mbuf_read_u64_def)

lemma mbuf_skip_props:
  assumes "mbuf_wf mb" "mbuf_rest mb = a @ b" "length a = n"
  shows "mbuf_wf (mbuf_skip mb n)" "mbuf_rest (mbuf_skip mb n) = b"
  using mbr.get_append [OF assms(1,2)] assms(3) by simp_all


section \<open>Properties of the operations\<close>

lemma mbuf_fill_write_mem: "n \<noteq> 0 \<Longrightarrow> mbuf_fill env mb c n = mbuf_write_mem env mb (replicate n c)"
  by (cases "mbuf_grow env mb n") (simp add: mbuf_fill_def mbuf_write_mem_def Let_def)

lemma mbuf_write_then_rest:
  assumes "mbuf_wf mb" "length bs < 2 ^ 63" "mbuf_write_mem env mb bs = Some (0, mb')"
  shows "mbuf_wf (mbuf_set_pos mb' (mb_pos mb))"
    and "mbuf_rest (mbuf_set_pos mb' (mb_pos mb)) = bs @ drop (length bs) (mbuf_rest mb)"
    and "mbuf_skip (mbuf_set_pos mb' (mb_pos mb)) (length bs) = mb'"
proof -
  from mbs.put_success [OF assms] have w': "mbuf_wf mb'"
    and p': "mb_pos mb' = mb_pos mb + length bs"
    and d': "mbuf_data mb' = overwrite (mbuf_data mb) (mb_pos mb) bs" by auto
  from assms(1) have le: "mb_pos mb \<le> length (mbuf_data mb)" by (rule mbs.pos_le)
  from w' p' show "mbuf_wf (mbuf_set_pos mb' (mb_pos mb))"
    by (auto simp: mbuf_wf_def mbuf_set_pos_def split: option.splits)
  show "mbuf_rest (mbuf_set_pos mb' (mb_pos mb)) = bs @ drop (length bs) (mbuf_rest mb)"
    using drop_overwrite [OF le] by (simp add: mbuf_rest_def mbuf_set_pos_def d' add.commute)
  show "mbuf_skip (mbuf_set_pos mb' (mb_pos mb)) (length bs) = mb'"
    by (simp add: mbuf_skip_def mbuf_set_pos_def p' [symmetric])
qed

text \<open>A write that fits in the block does not ask for memory, so it cannot fail.\<close>

lemma mbuf_write_mem_fits:
  assumes "mbuf_wf mb" "mb_pos mb + length bs \<le> mb_size mb"
  obtains mb' where "mbuf_write_mem env mb bs = Some (0, mb')" "mb_size mb' = mb_size mb"
proof -
  note w = mbuf_wfD [OF assms(1)]
  have "szadd (mb_pos mb) (length bs) = mb_pos mb + length bs" using w assms(2) by simp
  then have g: "mbuf_grow env mb (length bs) = (0, mb)" using assms(2) by (simp add: mbuf_grow_def)
  obtain b where "mem_poke (mb_buf mb) (mb_pos mb) bs = Some b"
    by (rule mem_poke_ok [OF assms])
  then have "\<exists>mb'. mbuf_write_mem env mb bs = Some (0, mb') \<and> mb_size mb' = mb_size mb"
    by (simp add: mbuf_write_mem_def g Let_def)
  then show ?thesis using that by blast
qed

lemma mbuf_write_all_fits:
  "mbuf_wf mb \<Longrightarrow> mb_pos mb + length (concat cs) \<le> mb_size mb \<Longrightarrow>
   \<exists>mb'. write_all (mbuf_write_mem env) mb cs = Some (0, mb')"
proof (induction cs arbitrary: mb)
  case Nil
  then show ?case by simp
next
  case (Cons c cs)
  then have fit: "mb_pos mb + length c \<le> mb_size mb" by simp
  then obtain mb1 where p: "mbuf_write_mem env mb c = Some (0, mb1)" and s: "mb_size mb1 = mb_size mb"
    by (rule mbuf_write_mem_fits [OF Cons.prems(1)])
  have "length c < 2 ^ 63" using fit mbuf_wfD(4) [OF Cons.prems(1)] by simp
  then have "mbuf_wf mb1" "mb_pos mb1 = mb_pos mb + length c"
    using mbs.put_success [OF Cons.prems(1) _ p] by auto
  then obtain mb' where "write_all (mbuf_write_mem env) mb1 cs = Some (0, mb')"
    using Cons.IH [of mb1] Cons.prems(2) s by auto
  with p show ?case by simp
qed

lemma mbuf_rest_Nil_u8: "mbuf_wf mb \<Longrightarrow> mbuf_rest mb = [] \<Longrightarrow> mbuf_read_u8 mb = Some (0, mb)"
  using mbr.get_short [of mb 1] by (auto simp: mbuf_read_u8_def simp del: length_mbuf_rest)

lemma mbuf_read_str_aux:
  "mbuf_wf mb \<Longrightarrow>
   mbuf_read_str mb n =
     (let r = mbuf_rest mb; s = takeWhile (\<lambda>c. c \<noteq> 0) r
      in if n \<le> length s then Some (take n s, mbuf_skip mb n)
         else Some (s @ [0], mbuf_skip mb (min (Suc (length s)) (length r))))"
proof (induction n arbitrary: mb)
  case 0
  then show ?case by simp
next
  case (Suc n)
  show ?case
  proof (cases "mbuf_rest mb")
    case Nil
    with Suc.prems show ?thesis by (simp add: mbuf_rest_Nil_u8)
  next
    case (Cons c r)
    have rd: "mbuf_read_u8 mb = Some (c, mbuf_skip mb 1)"
      using Suc.prems Cons by (rule mbuf_read_u8_Cons)
    have w: "mbuf_wf (mbuf_skip mb 1)" and r: "mbuf_rest (mbuf_skip mb 1) = r"
      using mbuf_skip_props [OF Suc.prems, of "[c]" r 1] Cons by simp_all
    show ?thesis
      using Suc.IH [OF w, unfolded One_nat_def r [unfolded One_nat_def]] rd [unfolded One_nat_def]
      by (simp add: Cons Let_def del: length_mbuf_rest)
  qed
qed

lemma mbuf_shift_room:
  assumes "mbuf_wf mb"
  obtains "(if n > mb_size mb then mbuf_resize env mb n else (0, mb)) = (ENOMEM, mb)"
  | mb1 where "(if n > mb_size mb then mbuf_resize env mb n else (0, mb)) = (0, mb1)" "mbuf_wf mb1"
      "n \<le> mb_size mb1" "mb_pos mb1 = mb_pos mb" "mb_end mb1 = mb_end mb"
      "mbuf_data mb1 = mbuf_data mb"
proof (cases "n > mb_size mb")
  case True
  with assms have "mb_end mb \<le> n" by (auto simp: mbuf_wf_def)
  then show ?thesis
    by (rule mbuf_resize_cases [OF assms, of n env]) (use True in \<open>auto intro: that\<close>)
next
  case False
  with assms show ?thesis by (intro that(2) [of mb]) auto
qed

text \<open>Moving the content of a buffer inside its own block: what is left to read is unchanged.\<close>

lemma mbuf_move:
  assumes w: "mbuf_wf mb1" and p: "p + length (mbuf_rest mb1) \<le> mb_size mb1"
  obtains b where "mem_peek (mb_buf mb1) (mb_pos mb1) (mbuf_get_left mb1) = Some (mbuf_rest mb1)"
    "mem_poke (mb_buf mb1) p (mbuf_rest mb1) = Some b"
    "mbuf_wf (mb1\<lparr>mb_buf := b, mb_pos := p, mb_end := p + length (mbuf_rest mb1)\<rparr>)"
    "mbuf_rest (mb1\<lparr>mb_buf := b, mb_pos := p, mb_end := p + length (mbuf_rest mb1)\<rparr>) =
       mbuf_rest mb1"
proof -
  note wf = mbuf_wfD [OF w]
  let ?r = "mbuf_rest mb1"
  have peek: "mem_peek (mb_buf mb1) (mb_pos mb1) (mbuf_get_left mb1) = Some ?r"
    using wf by (subst mem_peek_ok [OF w])
      (auto simp: mbuf_get_left_def mbuf_rest_def mbuf_data_def drop_take)
  obtain b where poke: "mem_poke (mb_buf mb1) p ?r = Some b"
    and blk: "mbuf_block (mb1\<lparr>mb_buf := b\<rparr>) =
       take p (mbuf_block mb1) @ ?r @ drop (p + length ?r) (mbuf_block mb1)"
    and bn: "b = None \<longleftrightarrow> mb_buf mb1 = None"
    by (rule mem_poke_ok [OF w p])
  have len: "length (mbuf_block (mb1\<lparr>mb_buf := b\<rparr>)) = mb_size mb1"
    unfolding blk using wf p by simp
  let ?mb = "mb1\<lparr>mb_buf := b, mb_pos := p, mb_end := p + length ?r\<rparr>"
  have "mbuf_wf ?mb"
    using len bn w p by (auto simp: mbuf_wf_def simp del: length_mbuf_rest split: option.splits)
  moreover have "mbuf_rest ?mb = ?r"
  proof -
    have "mbuf_block ?mb = mbuf_block (mb1\<lparr>mb_buf := b\<rparr>)" by simp
    then show ?thesis
      unfolding mbuf_rest_def [of ?mb] mbuf_data_def [of ?mb] using blk wf p
      by (simp add: min_absorb1 del: length_mbuf_rest mbuf_block_simps)
  qed
  ultimately show thesis using peek poke by (intro that)
qed

text \<open>
  \<open>mbuf_shift\<close> (made for prepending and dropping headers in place) moves the unread bytes
  without changing any of them, never touches memory outside the block, keeps the buffer's
  invariant, refuses exactly the shifts that would leave the block at its start, and changes nothing
  when it fails.
\<close>

theorem mbuf_shift_keeps_data:
  assumes w: "mbuf_wf mb" and sh: "\<bar>sh\<bar> < 2 ^ 63"
  shows "\<exists>e mb'. mbuf_shift env mb sh = Some (e, mb') \<and> mbuf_wf mb' \<and>
     mbuf_rest mb' = mbuf_rest mb \<and>
     (e = 0 \<longrightarrow> int (mb_pos mb') = int (mb_pos mb) + sh) \<and>
     (e = ERANGE \<longleftrightarrow> int (mb_pos mb) + sh < 0) \<and> (e \<noteq> 0 \<longrightarrow> mb' = mb)"
proof (cases "int (mb_pos mb) + sh < 0")
  case True
  then have "mbuf_shift env mb sh = Some (ERANGE, mb)"
    using mbuf_wfD [OF w] by (simp add: mbuf_shift_def ssize_def)
  with True w show ?thesis by simp
next
  case False
  note wf = mbuf_wfD [OF w]
  let ?n = "nat (int (mb_end mb) + sh)" and ?p = "nat (int (mb_pos mb) + sh)"
  have mods: "nat ((int (mb_end mb) + sh) mod 2 ^ 64) = ?n"
    "nat ((int (mb_pos mb) + sh) mod 2 ^ 64) = ?p"
    using False wf sh by simp_all
  have "\<not> (ssize (mb_pos mb) + sh < 0 \<or> ssize (mb_end mb) + sh < 0)"
    using False wf by (simp add: ssize_def)
  note unf = mbuf_shift_def [of env mb sh, unfolded if_not_P [OF this] mods]
  show ?thesis
  proof (rule mbuf_shift_room [OF w, of ?n env])
    assume "(if ?n > mb_size mb then mbuf_resize env mb ?n else (0, mb)) = (ENOMEM, mb)"
    then show ?thesis using False w by (simp add: unf)
  next
    fix mb1 assume r: "(if ?n > mb_size mb then mbuf_resize env mb ?n else (0, mb)) = (0, mb1)"
      and w1: "mbuf_wf mb1" and n: "?n \<le> mb_size mb1" and p1: "mb_pos mb1 = mb_pos mb"
      and e1: "mb_end mb1 = mb_end mb" and d1: "mbuf_data mb1 = mbuf_data mb"
    have rest: "mbuf_rest mb1 = mbuf_rest mb" by (simp add: mbuf_rest_def p1 d1)
    have pn: "?p + length (mbuf_rest mb1) = ?n"
      using False wf rest w by simp
    show ?thesis
      by (rule mbuf_move [OF w1, of ?p]) (use pn n False mods r p1 e1 rest in \<open>auto simp: unf\<close>)
  qed
qed

text \<open>An allocator that always succeeds.\<close>

definition env_ok :: menv where "env_ok n = Some (\<lambda>_. 0)"

definition mbuf_example :: mbuf where
  "mbuf_example = \<lparr>mb_buf = Some [1, 2, 3, 4], mb_size = 4, mb_pos = 1, mb_end = 3\<rparr>"

lemma mbuf_example_wf [simp]: "mbuf_wf mbuf_example"
  by (simp add: mbuf_example_def mbuf_wf_def)

lemma mbuf_example_rest: "mbuf_rest mbuf_example = [2, 3]"
  by (simp add: mbuf_example_def mbuf_rest_def mbuf_data_def mbuf_block_def)

lemma mbuf_shift_keeps_data_witness:
  "\<exists>e mb'. mbuf_shift env_ok mbuf_example 5 = Some (e, mb') \<and> mbuf_wf mb' \<and> mbuf_rest mb' = [2, 3] \<and>
     (e \<noteq> 0 \<longrightarrow> mb' = mbuf_example)"
  using mbuf_shift_keeps_data [OF mbuf_example_wf, of 5 env_ok] unfolding mbuf_example_rest by auto

text \<open>
  The four typed writers and readers agree: whatever values are written with them, one after the
  other, at any position of any valid buffer, with no error reported, are the values read back from
  that position, and reading ends where writing ended.
\<close>

theorem mbuf_write_read_typed:
  assumes wf: "mbuf_wf mb"
    and w8: "mbuf_write_u8 env mb a = Some (0, m1)" and w16: "mbuf_write_u16 env m1 b = Some (0, m2)"
    and w32: "mbuf_write_u32 env m2 c = Some (0, m3)" and w64: "mbuf_write_u64 env m3 d = Some (0, mb')"
  shows "do { (x, m) \<leftarrow> mbuf_read_u8 (mbuf_set_pos mb' (mb_pos mb));
              (y, m) \<leftarrow> mbuf_read_u16 m; (z, m) \<leftarrow> mbuf_read_u32 m; (w, m) \<leftarrow> mbuf_read_u64 m;
              Some (x, y, z, w, m) } = Some (a, b, c, d, mb')"
proof -
  let ?cs = "[[a], le_bytes 2 b, le_bytes 4 c, le_bytes 8 d]"
  have "write_all (mbuf_write_mem env) mb ?cs = Some (0, mb')"
    using w8 w16 w32 w64
    by (simp add: mbuf_write_u8_def mbuf_write_u16_def mbuf_write_u32_def mbuf_write_u64_def)
  from mbs.write_all_success [OF wf _ this] have s: "mbuf_wf mb'" "mb_pos mb' = mb_pos mb + 15"
    "mbuf_data mb' = overwrite (mbuf_data mb) (mb_pos mb) (concat ?cs)" by auto
  let ?m = "mbuf_set_pos mb' (mb_pos mb)"
  have wf0: "mbuf_wf ?m" using s by (auto simp: mbuf_wf_def mbuf_set_pos_def split: option.splits)
  have pos: "mb_pos mb \<le> length (mbuf_data mb)" by (rule mbs.pos_le [OF wf])
  have r0: "mbuf_rest ?m = a # (le_bytes 2 b @ (le_bytes 4 c @ (le_bytes 8 d @ drop 15 (mbuf_rest mb))))"
    using drop_overwrite [OF pos, of "concat ?cs"] s(3)
    by (simp add: mbuf_rest_def mbuf_set_pos_def add.commute)
  have r0': "mbuf_rest ?m = [a] @ (le_bytes 2 b @ (le_bytes 4 c @ (le_bytes 8 d @ drop 15 (mbuf_rest mb))))"
    using r0 by simp
  note s1 = mbuf_skip_props [OF wf0 r0', of 1, simplified]
  note s2 = mbuf_skip_props [OF s1, of 2, simplified]
  note s3 = mbuf_skip_props [OF s2, of 4, simplified]
  have "mbuf_skip ?m 15 = mb'" using s(2) by (simp add: mbuf_skip_def mbuf_set_pos_def)
  then show ?thesis
    using mbuf_read_u8_Cons [OF wf0 r0] mbuf_read_u16_append [OF s1] mbuf_read_u32_append [OF s2]
      mbuf_read_u64_append [OF s3] by simp
qed

definition mbuf_wide :: mbuf where
  "mbuf_wide = \<lparr>mb_buf = Some (replicate 20 0), mb_size = 20, mb_pos = 0, mb_end = 0\<rparr>"

lemma mbuf_wide_wf: "mbuf_wf mbuf_wide"
  by (simp add: mbuf_wide_def mbuf_wf_def)

lemma mbuf_write_read_typed_witness:
  "\<exists>mb'. do { (x, m) \<leftarrow> mbuf_read_u8 (mbuf_set_pos mb' (mb_pos mbuf_wide));
       (y, m) \<leftarrow> mbuf_read_u16 m; (z, m) \<leftarrow> mbuf_read_u32 m; (w, m) \<leftarrow> mbuf_read_u64 m;
       Some (x, y, z, w, m) } = Some (1, 2, 3, 4, mb')"
proof -
  obtain mb' where "write_all (mbuf_write_mem env_ok) mbuf_wide
      [le_bytes 1 (1 :: byte), le_bytes 2 (2 :: u16), le_bytes 4 (3 :: u32), le_bytes 8 (4 :: u64)] = Some (0, mb')"
    using mbuf_write_all_fits [OF mbuf_wide_wf, of "[le_bytes 1 (1 :: byte), le_bytes 2 (2 :: u16), le_bytes 4 (3 :: u32), le_bytes 8 (4 :: u64)]" env_ok]
    by (auto simp: mbuf_wide_def)
  then obtain m1 m2 m3 where "mbuf_write_u8 env_ok mbuf_wide 1 = Some (0, m1)" "mbuf_write_u16 env_ok m1 2 = Some (0, m2)"
    "mbuf_write_u32 env_ok m2 3 = Some (0, m3)" "mbuf_write_u64 env_ok m3 4 = Some (0, mb')"
    by (auto simp: mbuf_write_u8_def mbuf_write_u16_def mbuf_write_u32_def mbuf_write_u64_def
        bind_eq_Some_conv simp del: le_bytes.simps)
  from mbuf_write_read_typed [OF mbuf_wide_wf this] show ?thesis by blast
qed

text \<open>
  \<open>mbuf_read_str\<close> for a buffer of \<open>n\<close> bytes at the destination writes at most \<open>n\<close>
  bytes: the bytes up to and including the first NUL if it comes within \<open>n\<close>, a NUL-terminated
  string when the buffer ends first, and exactly \<open>n\<close> bytes with no terminator otherwise.
\<close>

theorem mbuf_read_str_bounded:
  assumes "mbuf_wf mb"
  shows "\<exists>s mb'. mbuf_read_str mb n = Some (s, mb') \<and> mbuf_wf mb' \<and> length s \<le> n \<and>
    (0 \<in> set s \<longleftrightarrow> length (takeWhile (\<lambda>c. c \<noteq> 0) (mbuf_rest mb)) < n) \<and>
    takeWhile (\<lambda>c. c \<noteq> 0) s = take n (takeWhile (\<lambda>c. c \<noteq> 0) (mbuf_rest mb))"
proof -
  define s where "s = takeWhile (\<lambda>c. c \<noteq> 0) (mbuf_rest mb)"
  have nz: "0 \<notin> set s" by (auto simp: s_def dest: set_takeWhileD)
  have le: "length s \<le> length (mbuf_rest mb)" unfolding s_def by (rule length_takeWhile_le)
  note rd = mbuf_read_str_aux [OF assms, of n, unfolded Let_def, folded s_def]
  have tw: "takeWhile (\<lambda>c. c \<noteq> 0) (take k s) = take k s" for k
    using nz by (auto simp: takeWhile_eq_all_conv dest: in_set_takeD)
  show ?thesis
  proof (cases "n \<le> length s")
    case True
    have "mbuf_wf (mbuf_skip mb n)" by (rule mbuf_wf_skip [OF assms]) (use True le in simp)
    moreover have "0 \<notin> set (take n s)" using nz by (auto dest: in_set_takeD)
    moreover have "mbuf_read_str mb n = Some (take n s, mbuf_skip mb n)" using rd True by simp
    ultimately show ?thesis using True tw [of n] unfolding s_def [symmetric] by auto
  next
    case False
    have "mbuf_wf (mbuf_skip mb (min (Suc (length s)) (length (mbuf_rest mb))))"
      by (rule mbuf_wf_skip [OF assms]) simp
    moreover have "takeWhile (\<lambda>c. c \<noteq> 0) (s @ [0]) = s"
      using nz by (subst takeWhile_append2) auto
    moreover have "mbuf_read_str mb n =
        Some (s @ [0], mbuf_skip mb (min (Suc (length s)) (length (mbuf_rest mb))))"
      using rd False by simp
    ultimately show ?thesis using False unfolding s_def [symmetric]
      by (intro exI [of _ "s @ [0]"] exI conjI) (assumption | simp)+
  qed
qed

lemma mbuf_read_str_bounded_witness:
  "\<exists>s mb'. mbuf_read_str mbuf_example 2 = Some (s, mb') \<and> mbuf_wf mb' \<and> length s \<le> 2 \<and> 0 \<notin> set s"
proof -
  have "length (takeWhile (\<lambda>c. c \<noteq> 0) (mbuf_rest mbuf_example)) = 2"
    by (simp add: mbuf_example_rest)
  then show ?thesis using mbuf_read_str_bounded [OF mbuf_example_wf, of 2] by auto
qed

end
