(* ===== verification/Rtp.thy ===== *)
theory Rtp
  imports Mbuf "HOL-Library.Signed_Division"
begin

section \<open>RTP (re/src/rtp/rtp.c, re/src/rtp/source.c)\<close>

text \<open>
  The RTP header of \<open>re_rtp.h\<close>, its encoder and decoder over an \<open>mbuf\<close>, the socket's packet
  functions, and the per-source state that validates sequence numbers and computes the loss figures
  of RTCP. \<open>csrc\<close> is the array of 16 words: reading or writing it out of range is undefined
  behaviour. Sockets are not modelled: \<open>udp_send\<close> is a parameter.
\<close>

record rtp_header =
  h_ver :: byte
  h_pad :: bool
  h_ext :: bool
  h_cc :: byte
  h_m :: bool
  h_pt :: byte
  h_seq :: u16
  h_ts :: u32
  h_ssrc :: u32
  h_csrc :: "u32 list"
  x_type :: u16
  x_len :: u16

definition RTP_VERSION :: byte where "RTP_VERSION = 2"
definition RTP_HEADER_SIZE :: nat where "RTP_HEADER_SIZE = 12"

subsection \<open>Header encoder and decoder\<close>

definition rtp_hdr_byte0 :: "rtp_header \<Rightarrow> byte" where
  "rtp_hdr_byte0 h = push_bit 6 (h_ver h AND 2) OR push_bit 5 (of_bool (h_pad h) AND 1)
                  OR push_bit 4 (of_bool (h_ext h) AND 1) OR push_bit 0 (h_cc h AND 15)"

definition rtp_hdr_byte1 :: "rtp_header \<Rightarrow> byte" where
  "rtp_hdr_byte1 h = push_bit 7 (of_bool (h_m h) AND 1) OR push_bit 0 (h_pt h AND 127)"

definition rtp_hdr_encode :: "menv \<Rightarrow> mbuf \<Rightarrow> rtp_header \<Rightarrow> (err \<times> mbuf) option" where
  "rtp_hdr_encode env mb h =
     (if unat (h_cc h) > length (h_csrc h) then None
      else write_all (mbuf_write_mem env) mb
        ([[rtp_hdr_byte0 h, rtp_hdr_byte1 h],
          le_bytes 2 (htons (h_seq h)), le_bytes 4 (htonl (h_ts h)), le_bytes 4 (htonl (h_ssrc h))]
         @ map (\<lambda>i. le_bytes 4 (htonl (h_csrc h ! i))) [0..<unat (h_cc h)]))"

text \<open>The loop that fills \<open>csrc[i]\<close> for \<open>i < n\<close>.\<close>

fun rtp_read_csrc :: "nat \<Rightarrow> nat \<Rightarrow> u32 list \<Rightarrow> mbuf \<Rightarrow> (u32 list \<times> mbuf) option" where
  "rtp_read_csrc i 0 cs mb = Some (cs, mb)"
| "rtp_read_csrc i (Suc n) cs mb =
     (if i < length cs then do {
        (v, mb1) \<leftarrow> mbuf_read_u32 mb;
        rtp_read_csrc (Suc i) n (cs[i := ntohl v]) mb1 }
      else None)"

definition rtp_hdr_decode :: "rtp_header \<Rightarrow> mbuf \<Rightarrow> (err \<times> rtp_header \<times> mbuf) option" where
  "rtp_hdr_decode h mb =
     (if mbuf_get_left mb < RTP_HEADER_SIZE then Some (EBADMSG, h, mb)
      else do {
        (err, buf, mb) \<leftarrow> mbuf_read_mem mb 2;
        if err \<noteq> 0 then Some (err, h, mb)
        else do {
          let h = h\<lparr>h_ver := drop_bit 6 (buf ! 0) AND 3,
                    h_pad := (drop_bit 5 (buf ! 0) AND 1 \<noteq> 0),
                    h_ext := (drop_bit 4 (buf ! 0) AND 1 \<noteq> 0),
                    h_cc := drop_bit 0 (buf ! 0) AND 15,
                    h_m := (drop_bit 7 (buf ! 1) AND 1 \<noteq> 0),
                    h_pt := drop_bit 0 (buf ! 1) AND 127\<rparr>;
          (sq, mb) \<leftarrow> mbuf_read_u16 mb;
          (t, mb) \<leftarrow> mbuf_read_u32 mb;
          (sr, mb) \<leftarrow> mbuf_read_u32 mb;
          let h = h\<lparr>h_seq := ntohs sq, h_ts := ntohl t, h_ssrc := ntohl sr\<rparr>;
          if mbuf_get_left mb < unat (h_cc h) * 4 then Some (EBADMSG, h, mb)
          else do {
            (cs, mb) \<leftarrow> rtp_read_csrc 0 (unat (h_cc h)) (h_csrc h) mb;
            let h = h\<lparr>h_csrc := cs\<rparr>;
            if \<not> h_ext h then Some (0, h, mb)
            else if mbuf_get_left mb < 4 then Some (EBADMSG, h, mb)
            else do {
              (xt, mb) \<leftarrow> mbuf_read_u16 mb;
              (xl, mb) \<leftarrow> mbuf_read_u16 mb;
              let h = h\<lparr>x_type := ntohs xt, x_len := ntohs xl\<rparr>;
              if mbuf_get_left mb < unat (x_len h) * 4 then Some (EBADMSG, h, mb)
              else Some (0, h, mb\<lparr>mb_pos := szadd (mb_pos mb) (unat (x_len h) * 4)\<rparr>) } } } })"

subsection \<open>The socket's packet functions\<close>

record rtp_sock =
  enc_seq :: u16
  enc_ssrc :: u32

text \<open>\<open>rtp_alloc\<close> draws the first sequence number and the source identifier at random.\<close>

definition rtp_alloc :: "u16 \<Rightarrow> u32 \<Rightarrow> rtp_sock" where
  "rtp_alloc r16 r32 = \<lparr>enc_seq = r16 AND 0x7fff, enc_ssrc = r32\<rparr>"

definition rtp_header_zero :: rtp_header where
  "rtp_header_zero = \<lparr>h_ver = 0, h_pad = False, h_ext = False, h_cc = 0, h_m = False, h_pt = 0, h_seq = 0, h_ts = 0,
     h_ssrc = 0, h_csrc = replicate 16 0, x_type = 0, x_len = 0\<rparr>"

definition rtp_encode ::
  "menv \<Rightarrow> rtp_sock \<Rightarrow> bool \<Rightarrow> bool \<Rightarrow> byte \<Rightarrow> u32 \<Rightarrow> mbuf \<Rightarrow> (err \<times> rtp_sock \<times> mbuf) option" where
  "rtp_encode env rs e marker p t mb =
     (if p AND NOT 0x7f \<noteq> 0 then Some (EINVAL, rs, mb)
      else do {
        let h = rtp_header_zero\<lparr>h_ver := RTP_VERSION, h_pad := False, h_ext := e, h_cc := 0, h_m := marker,
                  h_pt := p, h_seq := enc_seq rs, h_ts := t, h_ssrc := enc_ssrc rs\<rparr>;
        (err, mb1) \<leftarrow> rtp_hdr_encode env mb h;
        Some (err, rs\<lparr>enc_seq := enc_seq rs + 1\<rparr>, mb1) })"

definition rtp_decode :: "mbuf \<Rightarrow> (err \<times> rtp_header \<times> mbuf) option" where
  "rtp_decode mb = do {
     (err, h, mb1) \<leftarrow> rtp_hdr_decode rtp_header_zero mb;
     if err \<noteq> 0 then Some (err, h, mb1)
     else if RTP_VERSION \<noteq> h_ver h then Some (EBADMSG, h, mb1)
     else Some (0, h, mb1) }"

text \<open>
  \<open>rtp_send\<close> puts the header in the 12 bytes before the payload and hands the packet to
  \<open>udp_send\<close>, a parameter that returns its error code.
\<close>

definition rtp_send ::
  "menv \<Rightarrow> (mbuf \<Rightarrow> err) \<Rightarrow> rtp_sock \<Rightarrow> bool \<Rightarrow> bool \<Rightarrow> byte \<Rightarrow> u32 \<Rightarrow> mbuf
   \<Rightarrow> (err \<times> rtp_sock \<times> mbuf) option" where
  "rtp_send env udp_send rs e marker p t mb =
     (if mb_pos mb < RTP_HEADER_SIZE then Some (EBADMSG, rs, mb)
      else do {
        let mb1 = mbuf_advance mb (- int RTP_HEADER_SIZE);
        let pos = mb_pos mb1;
        (err, rs1, mb2) \<leftarrow> rtp_encode env rs e marker p t mb1;
        if err \<noteq> 0 then Some (err, rs1, mb2)
        else let mb3 = mb2\<lparr>mb_pos := pos\<rparr> in Some (udp_send mb3, rs1, mb3) })"

section \<open>Sources: sequence number validation and loss (RFC 3550, appendix A)\<close>

record rtp_source =
  max_seq :: u16
  cycles :: u32
  base_seq :: u32
  bad_seq :: u32
  probation :: u32
  received :: u32
  expected_prior :: u32
  received_prior :: u32
  src_transit :: "32 word"
  src_jitter :: u32

definition RTP_SEQ_MOD :: nat where "RTP_SEQ_MOD = 65536"
definition MAX_DROPOUT :: nat where "MAX_DROPOUT = 3000"
definition MAX_MISORDER :: nat where "MAX_MISORDER = 100"
definition MIN_SEQUENTIAL :: nat where "MIN_SEQUENTIAL = 2"

definition source_init_seq :: "u16 \<Rightarrow> rtp_source \<Rightarrow> rtp_source" where
  "source_init_seq sq s = s\<lparr>base_seq := ucast sq, max_seq := sq,
     bad_seq := of_nat (RTP_SEQ_MOD + 1), cycles := 0, received := 0, received_prior := 0,
     expected_prior := 0\<rparr>"

text \<open>
  Comparisons of \<open>uint16_t\<close> values with \<open>int\<close> constants and sums are made at \<open>int\<close>: in
  particular \<open>s->max_seq + 1\<close> does not wrap.
\<close>

definition source_update_seq :: "u16 \<Rightarrow> rtp_source \<Rightarrow> int \<times> rtp_source" where
  "source_update_seq sq s =
     (let udelta = sq - max_seq s
      in if probation s \<noteq> 0 then
           (if unat sq = unat (max_seq s) + 1 then
              let s1 = s\<lparr>probation := probation s - 1, max_seq := sq\<rparr>
              in if probation s1 = 0
                 then let s2 = source_init_seq sq s1
                      in (1, s2\<lparr>received := received s2 + 1\<rparr>)
                 else (0, s1)
            else (0, s\<lparr>probation := of_nat (MIN_SEQUENTIAL - 1), max_seq := sq\<rparr>))
         else if unat udelta < MAX_DROPOUT then
           let s1 = (if sq < max_seq s then s\<lparr>cycles := cycles s + of_nat RTP_SEQ_MOD\<rparr> else s);
               s2 = s1\<lparr>max_seq := sq\<rparr>
           in (1, s2\<lparr>received := received s2 + 1\<rparr>)
         else if unat udelta \<le> RTP_SEQ_MOD - MAX_MISORDER then
           (if ucast sq = bad_seq s then
              let s1 = source_init_seq sq s in (1, s1\<lparr>received := received s1 + 1\<rparr>)
            else (0, s\<lparr>bad_seq := (ucast sq + 1) AND of_nat (RTP_SEQ_MOD - 1)\<rparr>))
         else (1, s\<lparr>received := received s + 1\<rparr>))"

definition source_calc_jitter :: "u32 \<Rightarrow> u32 \<Rightarrow> rtp_source \<Rightarrow> rtp_source" where
  "source_calc_jitter rtp_t arrival s =
     (let tr = arrival - rtp_t; d = tr - src_transit s
      in if src_transit s = 0 then s\<lparr>src_transit := tr\<rparr>
         else let d = (if sint d < 0 then - d else d)
              in s\<lparr>src_transit := tr, src_jitter := src_jitter s + (d - drop_bit 4 (src_jitter s + 8))\<rparr>)"

definition source_calc_lost :: "rtp_source \<Rightarrow> int" where
  "source_calc_lost s =
     (let extended_max = cycles s + ucast (max_seq s);
          expected = extended_max - base_seq s + 1;
          lost = sint (expected - received s)
      in if lost > 0x7fffff then 0x7fffff else if lost < - 0x7fffff then - 0x7fffff else lost)"

definition source_calc_fraction_lost :: "rtp_source \<Rightarrow> byte \<times> rtp_source" where
  "source_calc_fraction_lost s =
     (let extended_max = cycles s + ucast (max_seq s);
          expected = extended_max - base_seq s + 1;
          expected_interval = sint (expected - expected_prior s);
          received_interval = sint (received s - received_prior s);
          s1 = s\<lparr>expected_prior := expected, received_prior := received s\<rparr>;
          lost_interval = sint (expected - expected_prior s - (received s - received_prior s));
          fraction = (if expected_interval = 0 \<or> lost_interval \<le> 0 then 0
            else of_int (sint (push_bit 8 (word_of_int lost_interval :: u32)) sdiv expected_interval))
      in (fraction, s1))"


section \<open>Properties of the packet functions\<close>

definition rtp_hdr_bytes :: "rtp_header \<Rightarrow> byte list" where
  "rtp_hdr_bytes h = [rtp_hdr_byte0 h, rtp_hdr_byte1 h] @ be16 (h_seq h) @ be32 (h_ts h)
     @ be32 (h_ssrc h) @ concat (map be32 (take (unat (h_cc h)) (h_csrc h)))"

lemma concat_be32: "length (concat (map be32 vs)) = 4 * length vs"
  by (induction vs) auto

lemma length_rtp_hdr_bytes:
  "unat (h_cc h) \<le> length (h_csrc h) \<Longrightarrow> length (rtp_hdr_bytes h) = 12 + 4 * unat (h_cc h)"
  by (simp add: rtp_hdr_bytes_def concat_be32 min_absorb2)

lemma rtp_hdr_encode_bytes:
  assumes "mbuf_wf mb" "rtp_hdr_encode env mb h = Some (0, mb')"
  shows "mbuf_wf mb' \<and> mb_pos mb' = mb_pos mb + length (rtp_hdr_bytes h) \<and>
    mbuf_data mb' = overwrite (mbuf_data mb) (mb_pos mb) (rtp_hdr_bytes h)"
proof -
  let ?cs = "[[rtp_hdr_byte0 h, rtp_hdr_byte1 h],
      le_bytes 2 (htons (h_seq h)), le_bytes 4 (htonl (h_ts h)), le_bytes 4 (htonl (h_ssrc h))]
      @ map (\<lambda>i. le_bytes 4 (htonl (h_csrc h ! i))) [0..<unat (h_cc h)]"
  from assms(2) have cc: "unat (h_cc h) \<le> length (h_csrc h)"
    and w: "write_all (mbuf_write_mem env) mb ?cs = Some (0, mb')"
    by (auto simp: rtp_hdr_encode_def split: if_splits)
  have "map (\<lambda>i. be32 (h_csrc h ! i)) [0..<unat (h_cc h)] = map be32 (take (unat (h_cc h)) (h_csrc h))"
    using cc by (intro nth_equalityI) auto
  then have c: "concat ?cs = rtp_hdr_bytes h" by (simp add: rtp_hdr_bytes_def)
  have "\<forall>c \<in> set ?cs. length c < 2 ^ 63" by auto
  from mbs.write_all_success [OF assms(1) this w] show ?thesis unfolding c by blast
qed

text \<open>The encoder never leaves the buffer, nor the array of contributing sources.\<close>

lemma rtp_hdr_encode_total:
  assumes "mbuf_wf mb" "unat (h_cc h) \<le> length (h_csrc h)"
  shows "\<exists>e mb'. rtp_hdr_encode env mb h = Some (e, mb') \<and> mbuf_wf mb'"
proof -
  from assms(2) have n: "\<not> length (h_csrc h) < unat (h_cc h)" by simp
  show ?thesis
    unfolding rtp_hdr_encode_def if_not_P [OF n] by (rule mbs.write_all_total [OF assms(1)]) auto
qed

lemma rtp_read_csrc_append:
  "mbuf_wf mb \<Longrightarrow> mbuf_rest mb = concat (map be32 vs) @ r \<Longrightarrow> i + length vs \<le> length cs \<Longrightarrow>
   rtp_read_csrc i (length vs) cs mb =
     Some (take i cs @ vs @ drop (i + length vs) cs, mbuf_skip mb (4 * length vs))"
proof (induction vs arbitrary: i cs mb)
  case Nil
  then show ?case by simp
next
  case (Cons v vs)
  have r: "mbuf_rest mb = be32 v @ (concat (map be32 vs) @ r)" using Cons.prems(2) by simp
  note sk = mbuf_skip_props [OF Cons.prems(1) r, of 4, simplified]
  have "rtp_read_csrc (Suc i) (length vs) (cs[i := v]) (mbuf_skip mb 4) =
      Some (take (Suc i) (cs[i := v]) @ vs @ drop (Suc i + length vs) (cs[i := v]),
            mbuf_skip (mbuf_skip mb 4) (4 * length vs))"
    using Cons.prems(3) by (intro Cons.IH sk) simp
  then show ?case
    using mbuf_read_be(2) [OF Cons.prems(1) r] Cons.prems(3)
    by (simp add: take_Suc_conv_app_nth)
qed

lemma rtp_read_csrc_total:
  "mbuf_wf mb \<Longrightarrow> i + n \<le> length cs \<Longrightarrow>
   \<exists>cs' mb'. rtp_read_csrc i n cs mb = Some (cs', mb') \<and> mbuf_wf mb' \<and> length cs' = length cs"
proof (induction n arbitrary: i cs mb)
  case 0
  then show ?case by simp
next
  case (Suc n)
  obtain v mb1 where "mbuf_read_u32 mb = Some (v, mb1)" "mbuf_wf mb1"
    using mbuf_read_total(3) [OF Suc.prems(1)] by blast
  with Suc.IH [of mb1 "Suc i" "cs[i := ntohl v]"] Suc.prems(2) show ?case by auto
qed

lemma masks:
  "(1 :: 'a::len word) = mask 1" "(3 :: 'a::len word) = mask 2" "(15 :: 'a::len word) = mask 4"
  "(127 :: 'a::len word) = mask 7"
  by (simp_all add: mask_eq_exp_minus_1)

lemma bit_small: "w < 2 ^ k \<Longrightarrow> bit w n \<Longrightarrow> n < k" for w :: "'a::len word"
  using less_mask_eq [of w k] by (metis bit_and_iff bit_mask_iff)

lemma rtp_hdr_bits:
  assumes "h_ver h = RTP_VERSION" "h_cc h < 16" "h_pt h < 128"
  shows "drop_bit 6 (rtp_hdr_byte0 h) AND 3 = RTP_VERSION"
    "(drop_bit 5 (rtp_hdr_byte0 h) AND 1 \<noteq> 0) = h_pad h"
    "(drop_bit 4 (rtp_hdr_byte0 h) AND 1 \<noteq> 0) = h_ext h"
    "drop_bit 0 (rtp_hdr_byte0 h) AND 15 = h_cc h"
    "(drop_bit 7 (rtp_hdr_byte1 h) AND 1 \<noteq> 0) = h_m h"
    "drop_bit 0 (rtp_hdr_byte1 h) AND 127 = h_pt h"
proof -
  have cc: "bit (h_cc h) n \<Longrightarrow> n < 4" and pt: "bit (h_pt h) n \<Longrightarrow> n < 7" for n
    using bit_small [of "h_cc h" 4 n] bit_small [of "h_pt h" 7 n] assms(2,3) by simp_all
  have v: "(2 :: byte) = push_bit 1 1" by simp
  show "drop_bit 0 (rtp_hdr_byte0 h) AND 15 = h_cc h"
    unfolding masks rtp_hdr_byte0_def by (rule bit_word_eqI) (auto simp: bit_simps dest: cc)
  show "drop_bit 0 (rtp_hdr_byte1 h) AND 127 = h_pt h"
    unfolding masks rtp_hdr_byte1_def by (rule bit_word_eqI) (auto simp: bit_simps dest: pt)
  show "drop_bit 6 (rtp_hdr_byte0 h) AND 3 = RTP_VERSION"
    unfolding masks rtp_hdr_byte0_def assms(1) RTP_VERSION_def v
    by (rule bit_word_eqI) (auto simp: bit_simps dest: cc)
  have one: "(w AND 1 \<noteq> 0) = bit w 0" for w :: byte
    by (simp add: and_one_eq odd_iff_mod_2_eq_one bit_0)
  show "(drop_bit 5 (rtp_hdr_byte0 h) AND 1 \<noteq> 0) = h_pad h"
    unfolding one rtp_hdr_byte0_def by (auto simp: bit_simps dest: cc)
  show "(drop_bit 4 (rtp_hdr_byte0 h) AND 1 \<noteq> 0) = h_ext h"
    unfolding one rtp_hdr_byte0_def by (auto simp: bit_simps dest: cc)
  show "(drop_bit 7 (rtp_hdr_byte1 h) AND 1 \<noteq> 0) = h_m h"
    unfolding one rtp_hdr_byte1_def by (auto simp: bit_simps dest: pt)
qed

definition rtp_hdr_ok :: "rtp_header \<Rightarrow> bool" where
  "rtp_hdr_ok h \<longleftrightarrow> h_ver h = RTP_VERSION \<and> h_cc h < 16 \<and> h_pt h < 128 \<and> length (h_csrc h) = 16"

text \<open>What follows the fixed header and the contributing sources when the extension bit is set.\<close>

definition rtp_ext_bytes :: "rtp_header \<Rightarrow> byte list \<Rightarrow> byte list" where
  "rtp_ext_bytes h body = (if h_ext h then be16 (x_type h) @ be16 (x_len h) @ body else [])"

definition rtp_hdr_merge :: "rtp_header \<Rightarrow> rtp_header \<Rightarrow> rtp_header" where
  "rtp_hdr_merge h0 h =
     h\<lparr>h_csrc := take (unat (h_cc h)) (h_csrc h) @ drop (unat (h_cc h)) (h_csrc h0),
       x_type := (if h_ext h then x_type h else x_type h0),
       x_len := (if h_ext h then x_len h else x_len h0)\<rparr>"

text \<open>The header before its extension is read, and what the decoder does with the rest.\<close>

definition rtp_hdr_base :: "rtp_header \<Rightarrow> rtp_header \<Rightarrow> rtp_header" where
  "rtp_hdr_base h0 h = h\<lparr>h_csrc := take (unat (h_cc h)) (h_csrc h) @ drop (unat (h_cc h)) (h_csrc h0),
     x_type := x_type h0, x_len := x_len h0\<rparr>"

definition rtp_ext_decode :: "rtp_header \<Rightarrow> mbuf \<Rightarrow> (err \<times> rtp_header \<times> mbuf) option" where
  "rtp_ext_decode h mb =
     (if mbuf_get_left mb < 4 then Some (EBADMSG, h, mb)
      else do {
        (xt, mb) \<leftarrow> mbuf_read_u16 mb;
        (xl, mb) \<leftarrow> mbuf_read_u16 mb;
        let h = h\<lparr>x_type := ntohs xt, x_len := ntohs xl\<rparr>;
        if mbuf_get_left mb < unat (x_len h) * 4 then Some (EBADMSG, h, mb)
        else Some (0, h, mb\<lparr>mb_pos := szadd (mb_pos mb) (unat (x_len h) * 4)\<rparr>) })"

lemma rtp_hdr_decode_prefix:
  assumes ok: "rtp_hdr_ok h" "length (h_csrc h0) = 16"
    and wf: "mbuf_wf mb" and rest: "mbuf_rest mb = rtp_hdr_bytes h @ ts"
  shows "rtp_hdr_decode h0 mb = (let m = mbuf_skip mb (length (rtp_hdr_bytes h))
      in if h_ext h then rtp_ext_decode (rtp_hdr_base h0 h) m else Some (0, rtp_hdr_base h0 h, m))"
    and "mbuf_wf (mbuf_skip mb (length (rtp_hdr_bytes h)))" "mbuf_rest (mbuf_skip mb (length (rtp_hdr_bytes h))) = ts"
proof -
  let ?cs = "concat (map be32 (take (unat (h_cc h)) (h_csrc h)))"
  have cc: "unat (h_cc h) < 16" using ok by (simp add: rtp_hdr_ok_def word_less_nat_alt)
  then have len: "length (take (unat (h_cc h)) (h_csrc h)) = unat (h_cc h)"
    using ok by (simp add: rtp_hdr_ok_def)
  have bits: "h_ver h = RTP_VERSION" "h_cc h < 16" "h_pt h < 128" using ok by (simp_all add: rtp_hdr_ok_def)
  have r0: "mbuf_rest mb = [rtp_hdr_byte0 h, rtp_hdr_byte1 h] @
      (be16 (h_seq h) @ be32 (h_ts h) @ be32 (h_ssrc h) @ ?cs @ ts)"
    using rest by (simp add: rtp_hdr_bytes_def)
  note s2 = mbuf_skip_props [OF wf r0, of 2, simplified]
  note s4 = mbuf_skip_props [OF s2, of 2, simplified]
  note s8 = mbuf_skip_props [OF s4, of 4, simplified]
  note s12 = mbuf_skip_props [OF s8, of 4, simplified]
  note s16 = mbuf_skip_props [OF s12 concat_be32, simplified len]
  have left: "mbuf_get_left mb \<ge> RTP_HEADER_SIZE"
    unfolding mbuf_get_left_rest [OF wf] r0 by (simp add: RTP_HEADER_SIZE_def del: length_mbuf_rest)
  have left2: "mbuf_get_left (mbuf_skip mb 12) \<ge> unat (h_cc h) * 4"
  proof -
    have "length ?cs = 4 * unat (h_cc h)" using concat_be32 [of "take (unat (h_cc h)) (h_csrc h)"] len by simp
    then show ?thesis unfolding mbuf_get_left_rest [OF s12(1)] s12(2)
      by (simp del: length_mbuf_rest length_concat)
  qed
  have rd2: "mbuf_read_mem mb 2 = Some (0, [rtp_hdr_byte0 h, rtp_hdr_byte1 h], mbuf_skip mb 2)"
    using mbr.get_append [OF wf r0] by (simp add: numeral_2_eq_2)
  have csr: "rtp_read_csrc 0 (unat (h_cc h)) (h_csrc h0) (mbuf_skip mb 12) =
      Some (take (unat (h_cc h)) (h_csrc h) @ drop (unat (h_cc h)) (h_csrc h0),
        mbuf_skip mb (12 + 4 * unat (h_cc h)))"
    using rtp_read_csrc_append [OF s12, of 0 "h_csrc h0"] cc ok(2) len by simp
  note rds = rd2 mbuf_read_be(1) [OF s2] mbuf_read_be(2) [OF s4] mbuf_read_be(2) [OF s8]
  note bits' = rtp_hdr_bits [OF bits, unfolded drop_bit_0 id_apply]
  let ?c = "take (unat (h_cc h)) (h_csrc h) @ drop (unat (h_cc h)) (h_csrc h0)"
  have n: "length (rtp_hdr_bytes h) = 12 + 4 * unat (h_cc h)"
    using ok cc by (intro length_rtp_hdr_bytes) (simp add: rtp_hdr_ok_def)
  show "mbuf_wf (mbuf_skip mb (length (rtp_hdr_bytes h)))" "mbuf_rest (mbuf_skip mb (length (rtp_hdr_bytes h))) = ts"
    using s16 by (simp_all add: n)
  have upd: "h0\<lparr>h_ver := RTP_VERSION, h_pad := h_pad h, h_ext := x, h_cc := h_cc h, h_m := h_m h,
      h_pt := h_pt h, h_seq := h_seq h, h_ts := h_ts h, h_ssrc := h_ssrc h, h_csrc := ?c\<rparr> = rtp_hdr_base h0 h"
    if "h_ext h = x" for x
    using bits that by (intro rtp_header.equality) (simp_all add: rtp_hdr_base_def)
  show "rtp_hdr_decode h0 mb = (let m = mbuf_skip mb (length (rtp_hdr_bytes h))
      in if h_ext h then rtp_ext_decode (rtp_hdr_base h0 h) m else Some (0, rtp_hdr_base h0 h, m))"
  proof (cases "h_ext h")
    case False
    show ?thesis
      unfolding rtp_hdr_decode_def using left left2 False
      by (simp add: rds bits' csr upd [of False] n Let_def)
  next
    case True
    show ?thesis
      unfolding rtp_hdr_decode_def rtp_ext_decode_def using left left2 True
      by (simp add: rds bits' csr n Let_def flip: upd)
  qed
qed

text \<open>The extension is there, or it is not.\<close>

lemma two_bytes: "2 \<le> length bs \<Longrightarrow> \<exists>w. bs = be16 w @ drop 2 bs"
proof -
  assume "2 \<le> length bs"
  then have l: "length (rev (take 2 bs)) = 2" by simp
  have "le_bytes 2 (of_le (rev (take 2 bs)) :: u16) = rev (take 2 bs)"
    using le_bytes_of_le [of "rev (take 2 bs)", where 'a = 16] unfolding l by simp
  then have "bs = be16 (of_le (rev (take 2 bs))) @ drop 2 bs" by simp
  then show ?thesis by blast
qed

lemma rtp_ext_decode_cases:
  assumes wf: "mbuf_wf m"
  shows "mbuf_rest m = be16 xt @ be16 xl @ body @ r \<Longrightarrow> length body = 4 * unat xl \<Longrightarrow>
      rtp_ext_decode h m = Some (0, h\<lparr>x_type := xt, x_len := xl\<rparr>, mbuf_skip m (4 + 4 * unat xl))"
    and "\<nexists>xt xl body r. mbuf_rest m = be16 xt @ be16 xl @ body @ r \<and> length body = 4 * unat xl \<Longrightarrow>
      \<exists>h' m'. rtp_ext_decode h m = Some (EBADMSG, h', m')"
proof -
  assume x: "mbuf_rest m = be16 xt @ be16 xl @ body @ r" and body: "length body = 4 * unat xl"
  note x2 = mbuf_skip_props [OF wf x, of 2, simplified]
  note x4 = mbuf_skip_props [OF x2, of 2, simplified]
  have l: "4 \<le> mbuf_get_left m" unfolding mbuf_get_left_rest [OF wf] x by simp
  have l4: "unat xl * 4 \<le> mbuf_get_left (mbuf_skip m 4)"
    unfolding mbuf_get_left_rest [OF x4(1)] x4(2) using body by simp
  have "mbuf_wf (mbuf_skip (mbuf_skip m 4) (4 * unat xl))" using mbuf_skip_props(1) [OF x4 body] by simp
  then have "mb_pos m + 4 + 4 * unat xl < 2 ^ 63" using mbuf_wfD(2-4) by (fastforce simp: mbuf_skip_def)
  then have "mbuf_skip m 4\<lparr>mb_pos := szadd (mb_pos (mbuf_skip m 4)) (unat xl * 4)\<rparr> = mbuf_skip m (4 + 4 * unat xl)"
    by (simp add: mbuf_skip_def)
  then show "rtp_ext_decode h m = Some (0, h\<lparr>x_type := xt, x_len := xl\<rparr>, mbuf_skip m (4 + 4 * unat xl))"
    unfolding rtp_ext_decode_def using l l4 by (simp add: mbuf_read_be(1) [OF wf x] mbuf_read_be(1) [OF x2])
next
  assume no: "\<nexists>xt xl body r. mbuf_rest m = be16 xt @ be16 xl @ body @ r \<and> length body = 4 * unat xl"
  show "\<exists>h' m'. rtp_ext_decode h m = Some (EBADMSG, h', m')"
  proof (cases "mbuf_get_left m < 4")
    case False
    then have l: "4 \<le> length (mbuf_rest m)" by (simp add: mbuf_get_left_rest [OF wf])
    obtain xt where xt: "mbuf_rest m = be16 xt @ drop 2 (mbuf_rest m)" using two_bytes [of "mbuf_rest m"] l by fastforce
    obtain xl where xl: "drop 2 (mbuf_rest m) = be16 xl @ drop 2 (drop 2 (mbuf_rest m))"
      using two_bytes [of "drop 2 (mbuf_rest m)"] l by fastforce
    note x2 = mbuf_skip_props [OF wf xt, of 2, simplified]
    have x2': "mbuf_rest (mbuf_skip m 2) = be16 xl @ drop 4 (mbuf_rest m)" using x2(2) xl by simp
    note x4 = mbuf_skip_props [OF x2(1) x2', of 2, simplified]
    have "length (drop 4 (mbuf_rest m)) < 4 * unat xl"
    proof (rule ccontr)
      assume "\<not> ?thesis"
      then have "length (take (4 * unat xl) (drop 4 (mbuf_rest m))) = 4 * unat xl" by simp
      moreover have "mbuf_rest m = be16 xt @ be16 xl @ take (4 * unat xl) (drop 4 (mbuf_rest m)) @ drop (4 * unat xl) (drop 4 (mbuf_rest m))"
        using xt xl unfolding append_take_drop_id by simp
      ultimately show False using no by blast
    qed
    then have "mbuf_get_left (mbuf_skip m 4) < unat xl * 4"
      unfolding mbuf_get_left_rest [OF x4(1)] x4(2) by simp
    then show ?thesis unfolding rtp_ext_decode_def using False
      by (simp add: mbuf_read_be(1) [OF wf xt] mbuf_read_be(1) [OF x2(1) x2'])
  qed (simp add: rtp_ext_decode_def)
qed

lemma rtp_hdr_decode_append:
  assumes ok: "rtp_hdr_ok h" "length (h_csrc h0) = 16" and body: "length body = 4 * unat (x_len h)"
    and wf: "mbuf_wf mb" and rest: "mbuf_rest mb = rtp_hdr_bytes h @ rtp_ext_bytes h body @ r"
  shows "rtp_hdr_decode h0 mb = Some (0, rtp_hdr_merge h0 h,
           mbuf_skip mb (length (rtp_hdr_bytes h) + length (rtp_ext_bytes h body)))"
proof -
  note p = rtp_hdr_decode_prefix [OF ok wf rest]
  show ?thesis
  proof (cases "h_ext h")
    case True
    have "mbuf_rest (mbuf_skip mb (length (rtp_hdr_bytes h))) = be16 (x_type h) @ be16 (x_len h) @ body @ r"
      using p(3) True by (simp add: rtp_ext_bytes_def)
    note x = rtp_ext_decode_cases(1) [OF p(2) this body]
    have "length (rtp_ext_bytes h body) = 4 + 4 * unat (x_len h)" using True body by (simp add: rtp_ext_bytes_def)
    then show ?thesis unfolding p(1) Let_def using True by (simp add: x rtp_hdr_base_def rtp_hdr_merge_def del: add_Suc_right)
  qed (simp add: p(1) rtp_ext_bytes_def rtp_hdr_base_def rtp_hdr_merge_def)
qed

text \<open>
  The decoder is total on any buffer: it never reads past the end, nor past the 16 words of
  \<open>csrc\<close>, and on success the position is still inside the buffer.
\<close>

lemma rtp_hdr_decode_total:
  assumes wf: "mbuf_wf mb" and len: "length (h_csrc h0) = 16"
  shows "\<exists>e h mb'. rtp_hdr_decode h0 mb = Some (e, h, mb') \<and> mbuf_wf mb' \<and> length (h_csrc h) = 16 \<and>
    e \<in> {0, EBADMSG}"
proof (cases "mbuf_get_left mb < RTP_HEADER_SIZE")
  case True
  then show ?thesis using wf len by (simp add: rtp_hdr_decode_def)
next
  case False
  then have "2 \<le> length (mbuf_rest mb)" by (simp add: mbuf_get_left_rest [OF wf] RTP_HEADER_SIZE_def)
  then obtain buf where rd: "mbuf_read_mem mb 2 = Some (0, buf, mbuf_skip mb 2)" and w1: "mbuf_wf (mbuf_skip mb 2)"
    using mbuf_read_mem_enough [OF wf, of 2] mbuf_wf_skip [OF wf, of 2] by blast
  obtain sq mb2 where r2: "mbuf_read_u16 (mbuf_skip mb 2) = Some (sq, mb2)" and w2: "mbuf_wf mb2"
    using mbuf_read_total(2) [OF w1] by blast
  obtain t mb3 where r3: "mbuf_read_u32 mb2 = Some (t, mb3)" and w3: "mbuf_wf mb3"
    using mbuf_read_total(3) [OF w2] by blast
  obtain sr mb4 where r4: "mbuf_read_u32 mb3 = Some (sr, mb4)" and w4: "mbuf_wf mb4"
    using mbuf_read_total(3) [OF w3] by blast
  have "drop_bit 0 (buf ! 0) AND 15 \<le> (15 :: byte)" by (rule word_and_le1)
  then have cc: "0 + unat (drop_bit 0 (buf ! 0) AND 15) \<le> length (h_csrc h0)"
    using len by (simp add: word_le_nat_alt)
  then obtain cs mb5 where r5: "rtp_read_csrc 0 (unat (drop_bit 0 (buf ! 0) AND 15)) (h_csrc h0) mb4 = Some (cs, mb5)"
    and w5: "mbuf_wf mb5" and l5: "length cs = 16"
    using rtp_read_csrc_total [OF w4 cc] len by auto
  obtain xt mb6 where r6: "mbuf_read_u16 mb5 = Some (xt, mb6)" and w6: "mbuf_wf mb6"
    using mbuf_read_total(2) [OF w5] by blast
  obtain xl mb7 where r7: "mbuf_read_u16 mb6 = Some (xl, mb7)" and w7: "mbuf_wf mb7"
    using mbuf_read_total(2) [OF w6] by blast
  have w8: "mbuf_wf (mb7\<lparr>mb_pos := szadd (mb_pos mb7) (k * 4)\<rparr>)" if "\<not> mbuf_get_left mb7 < k * 4" for k
  proof -
    have "mbuf_wf (mbuf_skip mb7 (k * 4))"
      by (rule mbuf_wf_skip [OF w7]) (use that in \<open>simp add: mbuf_get_left_rest [OF w7]\<close>)
    moreover have "mb_pos mb7 + k * 4 < 2 ^ 63"
      using mbuf_wfD(2-4) [OF calculation] by (simp add: mbuf_skip_def)
    ultimately show ?thesis by (simp add: mbuf_skip_def)
  qed
  show ?thesis
    unfolding rtp_hdr_decode_def using False rd r2 r3 r4 r5 r6 r7 w8 w7 w6 w5 w4 w3 l5 len
    by (simp add: Let_def)
qed

lemma rtp_header_zero_csrc [simp]: "length (h_csrc rtp_header_zero) = 16"
  by (simp add: rtp_header_zero_def)

lemma rtp_decode_total:
  assumes "mbuf_wf mb"
  shows "\<exists>e h mb'. rtp_decode mb = Some (e, h, mb') \<and> mbuf_wf mb' \<and> e \<in> {0, EBADMSG} \<and>
    (e = 0 \<longrightarrow> h_ver h = RTP_VERSION)"
  using rtp_hdr_decode_total [OF assms rtp_header_zero_csrc] by (auto simp: rtp_decode_def)

text \<open>What \<open>rtp_encode\<close> writes, \<open>rtp_decode\<close> reads back from the same buffer.\<close>

lemma overwrite_rest:
  assumes "mbuf_wf mb'" "mb_pos mb \<le> length (mbuf_data mb)"
    "mb_pos mb' = mb_pos mb + length bs" "mbuf_data mb' = overwrite (mbuf_data mb) (mb_pos mb) bs"
  shows "mbuf_wf (mbuf_set_pos mb' (mb_pos mb))"
    "mbuf_rest (mbuf_set_pos mb' (mb_pos mb)) = bs @ drop (length bs) (mbuf_rest mb)"
    "mbuf_skip (mbuf_set_pos mb' (mb_pos mb)) (length bs) = mb'"
proof -
  from assms(1,3) show "mbuf_wf (mbuf_set_pos mb' (mb_pos mb))"
    by (auto simp: mbuf_wf_def mbuf_set_pos_def split: option.splits)
  show "mbuf_rest (mbuf_set_pos mb' (mb_pos mb)) = bs @ drop (length bs) (mbuf_rest mb)"
    using drop_overwrite [OF assms(2)] by (simp add: mbuf_rest_def mbuf_set_pos_def assms(4) add.commute)
  show "mbuf_skip (mbuf_set_pos mb' (mb_pos mb)) (length bs) = mb'"
    by (simp add: mbuf_skip_def mbuf_set_pos_def assms(3) [symmetric])
qed

text \<open>The header \<open>rtp_encode\<close> writes, and an extension with the body \<open>body\<close> in front of the payload.\<close>

definition sent_header :: "rtp_sock \<Rightarrow> bool \<Rightarrow> bool \<Rightarrow> byte \<Rightarrow> u32 \<Rightarrow> rtp_header" where
  "sent_header rs e marker p t = rtp_header_zero\<lparr>h_ver := RTP_VERSION, h_ext := e, h_m := marker, h_pt := p,
     h_seq := enc_seq rs, h_ts := t, h_ssrc := enc_ssrc rs\<rparr>"

definition has_ext :: "byte list \<Rightarrow> u16 \<Rightarrow> u16 \<Rightarrow> bool" where
  "has_ext bs xt xl \<longleftrightarrow> (\<exists>body r. bs = be16 xt @ be16 xl @ body @ r \<and> length body = 4 * unat xl)"

lemma rtp_encode_decode:
  assumes wf: "mbuf_wf mb" and enc: "rtp_encode env rs e marker p t mb = Some (0, rs', mb')"
  shows "enc_seq rs' = enc_seq rs + 1" "enc_ssrc rs' = enc_ssrc rs" "mbuf_wf mb'"
    "rtp_hdr_decode rtp_header_zero (mbuf_set_pos mb' (mb_pos mb)) =
      (if e then rtp_ext_decode (sent_header rs e marker p t) mb' else Some (0, sent_header rs e marker p t, mb'))"
proof -
  let ?h = "sent_header rs e marker p t"
  have h: "rtp_header_zero\<lparr>h_ver := RTP_VERSION, h_pad := False, h_ext := e, h_cc := 0, h_m := marker,
    h_pt := p, h_seq := enc_seq rs, h_ts := t, h_ssrc := enc_ssrc rs\<rparr> = ?h"
    by (simp add: sent_header_def rtp_header_zero_def)
  from enc have p: "p AND NOT 0x7f = 0" and e: "rtp_hdr_encode env mb ?h = Some (0, mb')"
    and rs': "rs' = rs\<lparr>enc_seq := enc_seq rs + 1\<rparr>"
    by (auto simp: rtp_encode_def h Let_def split: if_splits option.splits bind_splits)
  have "p = p AND mask 7"
  proof (rule bit_word_eqI)
    fix n assume "n < LENGTH(8)"
    have "\<not> bit (p AND NOT 0x7f) n" unfolding p by simp
    then show "bit p n = bit (p AND mask 7) n"
      using \<open>n < LENGTH(8)\<close> unfolding masks by (auto simp: bit_simps)
  qed
  then have pt: "p < 128" using and_mask_less' [of 7 p] by simp
  have ok: "rtp_hdr_ok ?h" using pt by (simp add: sent_header_def rtp_hdr_ok_def rtp_header_zero_def)
  note b = rtp_hdr_encode_bytes [OF wf e]
  have o: "mbuf_wf (mbuf_set_pos mb' (mb_pos mb))"
    "mbuf_rest (mbuf_set_pos mb' (mb_pos mb)) = rtp_hdr_bytes ?h @ drop (length (rtp_hdr_bytes ?h)) (mbuf_rest mb)"
    "mbuf_skip (mbuf_set_pos mb' (mb_pos mb)) (length (rtp_hdr_bytes ?h)) = mb'"
    using overwrite_rest [of mb' mb "rtp_hdr_bytes ?h"] b mbs.pos_le [OF wf] by simp_all
  have base: "rtp_hdr_base rtp_header_zero ?h = ?h" by (simp add: rtp_hdr_base_def sent_header_def rtp_header_zero_def)
  show "rtp_hdr_decode rtp_header_zero (mbuf_set_pos mb' (mb_pos mb)) =
      (if e then rtp_ext_decode ?h mb' else Some (0, ?h, mb'))"
    using rtp_hdr_decode_prefix(1) [OF ok rtp_header_zero_csrc o(1,2)]
    unfolding o(3) base Let_def by (simp add: sent_header_def)
  show "enc_seq rs' = enc_seq rs + 1" "enc_ssrc rs' = enc_ssrc rs" "mbuf_wf mb'" using rs' b by simp_all
qed

text \<open>
  \<open>rtp_send\<close>: with room for the header before the payload the packet is always built, in place,
  and it is the header followed by the untouched payload.
\<close>

lemma rtp_send_packet:
  assumes wf: "mbuf_wf mb" and room: "RTP_HEADER_SIZE \<le> mb_pos mb" and p: "p AND NOT 0x7f = 0"
  shows "\<exists>mb'. rtp_send env udp_send rs e marker p t mb =
      Some (udp_send mb', rs\<lparr>enc_seq := enc_seq rs + 1\<rparr>, mb') \<and> mbuf_wf mb' \<and>
    mb_pos mb' = mb_pos mb - RTP_HEADER_SIZE \<and>
    mbuf_rest mb' = rtp_hdr_bytes (rtp_header_zero\<lparr>h_ver := RTP_VERSION, h_ext := e, h_m := marker,
        h_pt := p, h_seq := enc_seq rs, h_ts := t, h_ssrc := enc_ssrc rs\<rparr>) @ mbuf_rest mb"
proof -
  let ?h = "rtp_header_zero\<lparr>h_ver := RTP_VERSION, h_pad := False, h_ext := e, h_cc := 0, h_m := marker,
    h_pt := p, h_seq := enc_seq rs, h_ts := t, h_ssrc := enc_ssrc rs\<rparr>"
  let ?q = "mb_pos mb - 12"
  note w = mbuf_wfD [OF wf]
  have adv: "mbuf_advance mb (- int RTP_HEADER_SIZE) = mb\<lparr>mb_pos := ?q\<rparr>"
    using room w by (simp add: mbuf_advance_def RTP_HEADER_SIZE_def nat_diff_distrib)
  let ?mb1 = "mb\<lparr>mb_pos := ?q\<rparr>"
  have wf1: "mbuf_wf ?mb1" using wf by (auto simp: mbuf_wf_def split: option.splits)
  have c: "concat [[rtp_hdr_byte0 ?h, rtp_hdr_byte1 ?h], be16 (h_seq ?h), be32 (h_ts ?h), be32 (h_ssrc ?h)]
      = rtp_hdr_bytes ?h"
    by (simp add: rtp_hdr_bytes_def rtp_header_zero_def)
  have len: "length (rtp_hdr_bytes ?h) = 12" by (simp add: length_rtp_hdr_bytes rtp_header_zero_def)
  obtain mb2 where e: "rtp_hdr_encode env ?mb1 ?h = Some (0, mb2)"
    using mbuf_write_all_fits [OF wf1, of "[[rtp_hdr_byte0 ?h, rtp_hdr_byte1 ?h], be16 (h_seq ?h), be32 (h_ts ?h), be32 (h_ssrc ?h)]" env]
      w room c len by (auto simp: rtp_hdr_encode_def RTP_HEADER_SIZE_def)
  note b = rtp_hdr_encode_bytes [OF wf1 e]
  have pos: "mb_pos ?mb1 \<le> length (mbuf_data ?mb1)" by (rule mbs.pos_le [OF wf1])
  note o = overwrite_rest [OF _ pos, of mb2 "rtp_hdr_bytes ?h"]
  have "drop 12 (mbuf_rest ?mb1) = mbuf_rest mb"
    using room by (simp add: mbuf_rest_def mbuf_data_def RTP_HEADER_SIZE_def)
  then have r: "mbuf_wf (mb2\<lparr>mb_pos := ?q\<rparr>)" "mbuf_rest (mb2\<lparr>mb_pos := ?q\<rparr>) = rtp_hdr_bytes ?h @ mbuf_rest mb"
    using o b len by (simp_all add: mbuf_set_pos_def)
  have enc: "rtp_encode env rs e marker p t ?mb1 = Some (0, rs\<lparr>enc_seq := enc_seq rs + 1\<rparr>, mb2)"
    using p by (simp add: rtp_encode_def Let_def e)
  have nr: "\<not> mb_pos mb < RTP_HEADER_SIZE" using room by simp
  have "rtp_send env udp_send rs e marker p t mb =
      Some (udp_send (mb2\<lparr>mb_pos := ?q\<rparr>), rs\<lparr>enc_seq := enc_seq rs + 1\<rparr>, mb2\<lparr>mb_pos := ?q\<rparr>)"
    unfolding rtp_send_def adv if_not_P [OF nr] Let_def enc by simp
  moreover have "?h = rtp_header_zero\<lparr>h_ver := RTP_VERSION, h_ext := e, h_m := marker, h_pt := p,
      h_seq := enc_seq rs, h_ts := t, h_ssrc := enc_ssrc rs\<rparr>"
    by (simp add: rtp_header_zero_def)
  moreover have "mb_pos (mb2\<lparr>mb_pos := ?q\<rparr>) = mb_pos mb - RTP_HEADER_SIZE" by (simp add: RTP_HEADER_SIZE_def)
  ultimately show ?thesis using r by metis
qed

section \<open>Properties of the sources\<close>

text \<open>The extended highest sequence number, and the packets expected so far.\<close>

definition ext_max :: "rtp_source \<Rightarrow> u32" where
  "ext_max s = cycles s + ucast (max_seq s)"

lemma ucast_wrap:
  "(if a < b then 65536 else 0) + ucast a = ucast b + (ucast (a - b) :: u32)" for a b :: u16
proof -
  have b: "uint a < 65536" "uint b < 65536" "0 \<le> uint a" "0 \<le> uint b"
    using uint_lt2p [of a] uint_lt2p [of b] by simp_all
  have m: "uint (a - b) = (uint a - uint b) mod 65536" using uint_word_ariths(2) [of a b] by simp
  have "uint (a - b) = (if a < b then uint a - uint b + 65536 else uint a - uint b)"
  proof (cases "a < b")
    case True
    then have "(uint a - uint b + 65536) mod 65536 = uint a - uint b + 65536"
      using b unfolding word_less_def by (intro mod_pos_pos_trivial) linarith+
    then show ?thesis using True m by simp
  next
    case False
    then have "(uint a - uint b) mod 65536 = uint a - uint b"
      using b unfolding word_less_def by (intro mod_pos_pos_trivial) linarith+
    then show ?thesis using False m by simp
  qed
  then have "uint b + uint (a - b) = (if a < b then uint a + 65536 else uint a)" by simp
  moreover have u: "(ucast w :: u32) = word_of_int (uint w)" for w :: u16 by simp
  have "(word_of_int (uint b + uint (a - b)) :: u32) = ucast b + ucast (a - b)"
    by (simp only: u wi_hom_add)
  moreover have "(word_of_int (uint a + 65536) :: u32) = 65536 + ucast a"
    by (simp only: u wi_hom_add [symmetric]) (simp add: add.commute)
  ultimately show ?thesis by (auto simp: add.commute [of 65536] split: if_splits)
qed

lemma source_update_seq_in_order:
  assumes "probation s = 0" "unat (sq - max_seq s) < MAX_DROPOUT"
  shows "fst (source_update_seq sq s) = 1"
    "max_seq (snd (source_update_seq sq s)) = sq"
    "ext_max (snd (source_update_seq sq s)) = ext_max s + ucast (sq - max_seq s)"
    "received (snd (source_update_seq sq s)) = received s + 1"
    "base_seq (snd (source_update_seq sq s)) = base_seq s"
    "probation (snd (source_update_seq sq s)) = 0"
  using assms ucast_wrap [of sq "max_seq s"]
  by (auto simp: source_update_seq_def Let_def ext_max_def RTP_SEQ_MOD_def add.assoc split: if_splits)

text \<open>
  A stream without reordering: consecutive numbers differ by less than \<open>MAX_DROPOUT\<close> modulo
  65536. \<open>stream_gaps\<close> counts the numbers that were skipped.
\<close>

fun stream_ok :: "u16 \<Rightarrow> u16 list \<Rightarrow> bool" where
  "stream_ok m [] \<longleftrightarrow> True"
| "stream_ok m (sq # sqs) \<longleftrightarrow> 0 < unat (sq - m) \<and> unat (sq - m) < MAX_DROPOUT \<and> stream_ok sq sqs"

fun stream_gaps :: "u16 \<Rightarrow> u16 list \<Rightarrow> nat" where
  "stream_gaps m [] = 0"
| "stream_gaps m (sq # sqs) = unat (sq - m) - 1 + stream_gaps sq sqs"

definition source_run :: "u16 list \<Rightarrow> rtp_source \<Rightarrow> rtp_source" where
  "source_run sqs s = fold (\<lambda>sq s. snd (source_update_seq sq s)) sqs s"

definition lost_word :: "rtp_source \<Rightarrow> u32" where
  "lost_word s = ext_max s - base_seq s + 1 - received s"

lemma source_calc_lost_word:
  "source_calc_lost s = max (- 0x7fffff) (min 0x7fffff (sint (lost_word s)))"
  by (simp add: source_calc_lost_def lost_word_def ext_max_def Let_def)

lemma source_run_lost:
  "probation s = 0 \<Longrightarrow> stream_ok (max_seq s) sqs \<Longrightarrow>
   lost_word (source_run sqs s) = lost_word s + of_nat (stream_gaps (max_seq s) sqs) \<and>
   probation (source_run sqs s) = 0"
proof (induction sqs arbitrary: s)
  case Nil
  then show ?case by (simp add: source_run_def)
next
  case (Cons sq sqs)
  let ?s = "snd (source_update_seq sq s)"
  from Cons.prems have d: "unat (sq - max_seq s) < MAX_DROPOUT" "0 < unat (sq - max_seq s)" by simp_all
  note u = source_update_seq_in_order [OF Cons.prems(1) d(1)]
  have "(of_nat (unat (sq - max_seq s) - 1) :: u32) = ucast (sq - max_seq s) - 1"
    using d(2) by (simp add: of_nat_diff unsigned_def)
  then have "lost_word ?s = lost_word s + of_nat (unat (sq - max_seq s) - 1)"
    by (simp add: lost_word_def u)
  with Cons.IH [of ?s] Cons.prems u show ?case
    by (simp add: source_run_def)
qed

lemma sint_of_nat_small: "n < 2 ^ 31 \<Longrightarrow> sint (of_nat n :: u32) = int n"
  by (simp add: signed_of_nat signed_take_bit_int_eq_self)

lemma source_init_seq_lost: "lost_word ((source_init_seq sq s)\<lparr>received := 1\<rparr>) = 0"
  by (simp add: lost_word_def ext_max_def source_init_seq_def)

text \<open>After a jump out of the window, two consecutive numbers resynchronise the source.\<close>

lemma source_resync:
  assumes "probation s = 0" "MAX_DROPOUT \<le> unat (sq - max_seq s)"
    "unat (sq - max_seq s) \<le> RTP_SEQ_MOD - MAX_MISORDER - 1" "ucast sq \<noteq> bad_seq s"
  shows "source_update_seq sq s = (0, s\<lparr>bad_seq := ucast (sq + 1)\<rparr>)"
    and "source_update_seq (sq + 1) (s\<lparr>bad_seq := ucast (sq + 1)\<rparr>) =
      (1, (source_init_seq (sq + 1) s)\<lparr>received := 1\<rparr>)"
proof -
  have m: "(ucast sq + 1) AND 65535 = (ucast (sq + 1) :: u32)"
  proof -
    have "(65535 :: u32) = mask 16" by (simp add: mask_eq_exp_minus_1)
    then have "(ucast sq + 1) AND 65535 = take_bit 16 (ucast sq + 1 :: u32)"
      by (simp add: take_bit_eq_mask)
    also have "\<dots> = ucast (sq + 1)"
    proof (rule word_uint_eqI)
      have "uint sq + 1 < 2 ^ 32" using uint_lt2p [of sq] by simp
      then have "uint (ucast sq + 1 :: u32) = uint sq + 1"
        by (simp add: uint_word_ariths(1) unsigned_ucast_eq take_bit_int_eq_self)
      moreover have "uint (sq + 1) = take_bit 16 (uint sq + 1)"
        by (simp add: uint_word_ariths(1) take_bit_eq_mod)
      moreover have "uint (ucast (sq + 1) :: u32) = uint (sq + 1)"
        using uint_lt2p [of "sq + 1"] by (simp add: unsigned_ucast_eq take_bit_int_eq_self)
      ultimately show "uint (take_bit 16 (ucast sq + 1 :: u32)) = uint (ucast (sq + 1) :: u32)"
        by (simp only: unsigned_take_bit_eq)
    qed
    finally show ?thesis .
  qed
  show "source_update_seq sq s = (0, s\<lparr>bad_seq := ucast (sq + 1)\<rparr>)"
    using assms m by (simp add: source_update_seq_def Let_def RTP_SEQ_MOD_def MAX_DROPOUT_def MAX_MISORDER_def)
  have "unat (sq + 1 - max_seq s) = unat (sq - max_seq s) + 1"
  proof -
    have "sq + 1 - max_seq s = (sq - max_seq s) + 1" by simp
    then have "unat (sq + 1 - max_seq s) = (unat (sq - max_seq s) + 1) mod 65536"
      by (simp only: unat_word_ariths(1)) simp
    then show ?thesis using assms(3) by (simp add: RTP_SEQ_MOD_def MAX_MISORDER_def)
  qed
  then show "source_update_seq (sq + 1) (s\<lparr>bad_seq := ucast (sq + 1)\<rparr>) =
      (1, (source_init_seq (sq + 1) s)\<lparr>received := 1\<rparr>)"
    using assms by (simp add: source_update_seq_def Let_def RTP_SEQ_MOD_def MAX_DROPOUT_def MAX_MISORDER_def
      source_init_seq_def)
qed

section \<open>What the RTP layer guarantees\<close>

text \<open>
  C31: \<open>rtp_decode\<close> on any received bytes: it never reads outside the packet or writes outside the
  16 contributing sources, reports only \<open>EBADMSG\<close>, leaves the position inside the packet, and
  accepts only version 2.
\<close>

theorem rtp_decode_safe:
  assumes "mbuf_wf mb"
  shows "\<exists>e h mb'. rtp_decode mb = Some (e, h, mb') \<and> mbuf_wf mb' \<and> e \<in> {0, EBADMSG} \<and>
    (e = 0 \<longrightarrow> h_ver h = RTP_VERSION)"
  by (rule rtp_decode_total [OF assms])

lemma rtp_decode_safe_witness:
  "\<exists>e h mb'. rtp_decode mbuf_example = Some (e, h, mb') \<and> mbuf_wf mb' \<and> e \<in> {0, EBADMSG}"
  using rtp_decode_safe [OF mbuf_example_wf] by auto

text \<open>
  C39: What \<open>rtp_encode\<close> writes, \<open>rtp_decode\<close> reads back: marker, payload type, timestamp and source as given, the
  socket's sequence number, which then advances by one (modulo \<open>2 ^ 16\<close>). Without the extension bit the decoder stops
  right after the 12 bytes. With it, the words of the extension must follow, as \<open>rtp_encode\<close> does not write them: then
  the decoder also returns their type and length and stops after them, and otherwise it reports EBADMSG.
\<close>

theorem rtp_encode_decode_roundtrip:
  assumes "mbuf_wf mb" "rtp_encode env rs e marker p t mb = Some (0, rs', mb')"
  shows "enc_seq rs' = enc_seq rs + 1 \<and> enc_ssrc rs' = enc_ssrc rs \<and>
    (\<not> e \<longrightarrow> rtp_decode (mbuf_set_pos mb' (mb_pos mb)) = Some (0, sent_header rs e marker p t, mb')) \<and>
    (\<forall>xt xl. e \<and> has_ext (mbuf_rest mb') xt xl \<longrightarrow> rtp_decode (mbuf_set_pos mb' (mb_pos mb)) =
       Some (0, (sent_header rs e marker p t)\<lparr>x_type := xt, x_len := xl\<rparr>, mbuf_skip mb' (4 + 4 * unat xl))) \<and>
    (e \<and> (\<nexists>xt xl. has_ext (mbuf_rest mb') xt xl) \<longrightarrow>
       (\<exists>h mb''. rtp_decode (mbuf_set_pos mb' (mb_pos mb)) = Some (EBADMSG, h, mb'')))"
proof -
  note d = rtp_encode_decode [OF assms]
  have v: "h_ver (sent_header rs e marker p t) = RTP_VERSION" by (simp add: sent_header_def)
  have bad: "\<exists>h mb''. rtp_decode (mbuf_set_pos mb' (mb_pos mb)) = Some (EBADMSG, h, mb'')"
    if "e" "\<nexists>xt xl. has_ext (mbuf_rest mb') xt xl"
    using rtp_ext_decode_cases(2) [OF d(3), of "sent_header rs e marker p t"] that
    by (fastforce simp: rtp_decode_def d(4) has_ext_def)
  have good: "rtp_decode (mbuf_set_pos mb' (mb_pos mb)) =
      Some (0, (sent_header rs e marker p t)\<lparr>x_type := xt, x_len := xl\<rparr>, mbuf_skip mb' (4 + 4 * unat xl))"
    if "e" "has_ext (mbuf_rest mb') xt xl" for xt xl
    using rtp_ext_decode_cases(1) [OF d(3), of xt xl _ _ "sent_header rs e marker p t"] that v
    by (auto simp: rtp_decode_def d(4) has_ext_def)
  have "rtp_decode (mbuf_set_pos mb' (mb_pos mb)) = Some (0, sent_header rs e marker p t, mb')" if "\<not> e"
    using that v by (simp add: rtp_decode_def d(4))
  then show ?thesis using d(1,2) bad good by blast
qed

text \<open>A header without an extension, and one in front of an extension of one word.\<close>

definition mbuf_ext :: mbuf where
  "mbuf_ext = \<lparr>mb_buf = Some (replicate 12 0 @ [0xbe, 0xde, 0, 1, 0x10, 0x55, 0, 0, 7]), mb_size = 21, mb_pos = 0, mb_end = 21\<rparr>"

lemma mbuf_ext_wf: "mbuf_wf mbuf_ext"
  by (simp add: mbuf_ext_def mbuf_wf_def)

lemma mbuf_ext_rest: "drop 12 (mbuf_rest mbuf_ext) = be16 0xbede @ be16 1 @ [0x10, 0x55, 0, 0] @ [7]"
  by code_simp

lemma rtp_encode_fits:
  assumes "mbuf_wf mb" "mb_pos mb + 12 \<le> mb_size mb" "p AND NOT 0x7f = 0"
  shows "\<exists>mb'. rtp_encode env rs e marker p t mb = Some (0, rs\<lparr>enc_seq := enc_seq rs + 1\<rparr>, mb') \<and>
    mb_pos mb' = mb_pos mb + 12 \<and> mbuf_rest mb' = drop 12 (mbuf_rest mb)"
proof -
  let ?h = "rtp_header_zero\<lparr>h_ver := RTP_VERSION, h_pad := False, h_ext := e, h_cc := 0, h_m := marker,
    h_pt := p, h_seq := enc_seq rs, h_ts := t, h_ssrc := enc_ssrc rs\<rparr>"
  have z: "h_cc ?h = 0" by simp
  obtain mb' where m: "rtp_hdr_encode env mb ?h = Some (0, mb')"
    using mbuf_write_all_fits [OF assms(1), of "[[rtp_hdr_byte0 ?h, rtp_hdr_byte1 ?h],
          le_bytes 2 (htons (h_seq ?h)), le_bytes 4 (htonl (h_ts ?h)), le_bytes 4 (htonl (h_ssrc ?h))]" env] assms(2)
    by (auto simp: rtp_hdr_encode_def z)
  note b = rtp_hdr_encode_bytes [OF assms(1) m]
  have len: "length (rtp_hdr_bytes ?h) = 12" by (simp add: length_rtp_hdr_bytes rtp_header_zero_def)
  have o: "mbuf_wf (mbuf_set_pos mb' (mb_pos mb))"
    "mbuf_rest (mbuf_set_pos mb' (mb_pos mb)) = rtp_hdr_bytes ?h @ drop 12 (mbuf_rest mb)"
    "mbuf_skip (mbuf_set_pos mb' (mb_pos mb)) 12 = mb'"
    using overwrite_rest [of mb' mb "rtp_hdr_bytes ?h"] b mbs.pos_le [OF assms(1)] len by simp_all
  have "mbuf_rest mb' = drop 12 (mbuf_rest mb)" using mbuf_skip_props(2) [OF o(1,2) len] o(3) by simp
  then show ?thesis using m b len assms(3) by (simp add: rtp_encode_def Let_def)
qed

lemma rtp_encode_decode_roundtrip_witness:
  "(\<exists>rs' mb'. rtp_encode env_ok \<lparr>enc_seq = 65535, enc_ssrc = 9\<rparr> False True 8 160 mbuf_wide = Some (0, rs', mb') \<and>
      enc_seq rs' = 0 \<and> (\<exists>h. rtp_decode (mbuf_set_pos mb' 0) = Some (0, h, mb') \<and> h_seq h = 65535 \<and> h_pt h = 8)) \<and>
   (\<exists>rs' mb' h mb''. rtp_encode env_ok \<lparr>enc_seq = 65535, enc_ssrc = 9\<rparr> True True 8 160 mbuf_ext = Some (0, rs', mb') \<and>
      rtp_decode (mbuf_set_pos mb' 0) = Some (0, h, mb'') \<and> h_ext h \<and> x_type h = 0xbede \<and> x_len h = 1 \<and> mb_pos mb'' = 20)"
proof
  let ?rs = "\<lparr>enc_seq = 65535, enc_ssrc = 9\<rparr>"
  have p: "(8 :: byte) AND NOT 0x7f = 0" by simp
  have pos: "mb_pos mbuf_wide = 0" "mb_pos mbuf_ext = 0" by (simp_all add: mbuf_wide_def mbuf_ext_def)
  obtain m1 where m1: "rtp_encode env_ok ?rs False True 8 160 mbuf_wide = Some (0, ?rs\<lparr>enc_seq := 0\<rparr>, m1)"
    using rtp_encode_fits [OF mbuf_wide_wf _ p, of env_ok ?rs False True 160] by (auto simp: mbuf_wide_def)
  show "\<exists>rs' mb'. rtp_encode env_ok ?rs False True 8 160 mbuf_wide = Some (0, rs', mb') \<and>
      enc_seq rs' = 0 \<and> (\<exists>h. rtp_decode (mbuf_set_pos mb' 0) = Some (0, h, mb') \<and> h_seq h = 65535 \<and> h_pt h = 8)"
    using rtp_encode_decode_roundtrip [OF mbuf_wide_wf m1] m1 pos by (auto simp: sent_header_def)
  obtain m2 where m2: "rtp_encode env_ok ?rs True True 8 160 mbuf_ext = Some (0, ?rs\<lparr>enc_seq := 0\<rparr>, m2)"
    "mb_pos m2 = 12" "mbuf_rest m2 = drop 12 (mbuf_rest mbuf_ext)"
    using rtp_encode_fits [OF mbuf_ext_wf _ p, of env_ok ?rs True True 160] by (auto simp: mbuf_ext_def)
  have "mbuf_rest m2 = be16 0xbede @ be16 1 @ [0x10, 0x55, 0, 0] @ [7]" unfolding m2(3) by (rule mbuf_ext_rest)
  moreover have "length [0x10, 0x55, 0, 0 :: byte] = 4 * unat (1 :: u16)" by simp
  ultimately have "has_ext (mbuf_rest m2) 0xbede 1" unfolding has_ext_def by blast
  then show "\<exists>rs' mb' h mb''. rtp_encode env_ok ?rs True True 8 160 mbuf_ext = Some (0, rs', mb') \<and>
      rtp_decode (mbuf_set_pos mb' 0) = Some (0, h, mb'') \<and> h_ext h \<and> x_type h = 0xbede \<and> x_len h = 1 \<and> mb_pos mb'' = 20"
    using rtp_encode_decode_roundtrip [OF mbuf_ext_wf m2(1)] m2(1,2) pos
    by (auto simp: sent_header_def mbuf_skip_def)
qed

text \<open>
  \<open>rtp_send\<close> frames a packet in place: given at least 12 bytes before the payload it cannot fail
  for want of memory, and what it hands to \<open>udp_send\<close> is the 12-byte header followed by the
  unchanged payload; the sequence number is used up whatever \<open>udp_send\<close> returns.
\<close>

theorem rtp_send_frames_payload:
  assumes "mbuf_wf mb" "RTP_HEADER_SIZE \<le> mb_pos mb" "p AND NOT 0x7f = 0"
  shows "\<exists>mb'. rtp_send env udp_send rs e marker p t mb =
      Some (udp_send mb', rs\<lparr>enc_seq := enc_seq rs + 1\<rparr>, mb') \<and>
    mbuf_rest mb' = rtp_hdr_bytes (rtp_header_zero\<lparr>h_ver := RTP_VERSION, h_ext := e, h_m := marker,
        h_pt := p, h_seq := enc_seq rs, h_ts := t, h_ssrc := enc_ssrc rs\<rparr>) @ mbuf_rest mb"
  using rtp_send_packet [OF assms, of env udp_send rs e marker t] by blast

lemma rtp_send_frames_payload_witness:
  "\<exists>mb'. rtp_send env_ok (\<lambda>_. 0) \<lparr>enc_seq = 7, enc_ssrc = 9\<rparr> False True 8 160
       \<lparr>mb_buf = Some (replicate 12 0 @ [1, 2]), mb_size = 14, mb_pos = 12, mb_end = 14\<rparr> =
      Some (0, \<lparr>enc_seq = 8, enc_ssrc = 9\<rparr>, mb') \<and> length (mbuf_rest mb') = 14"
proof -
  let ?mb = "\<lparr>mb_buf = Some (replicate 12 0 @ [1, 2]), mb_size = 14, mb_pos = 12, mb_end = 14\<rparr>"
  have 1: "mbuf_wf ?mb" "RTP_HEADER_SIZE \<le> mb_pos ?mb" by (simp_all add: mbuf_wf_def RTP_HEADER_SIZE_def)
  have 2: "(8 :: byte) AND NOT 0x7f = 0" by simp
  have 3: "mbuf_rest ?mb = [1, 2]" by (simp add: mbuf_rest_def mbuf_data_def mbuf_block_def)
  show ?thesis
    using rtp_send_frames_payload [OF 1 2, of env_ok "\<lambda>_. 0" "\<lparr>enc_seq = 7, enc_ssrc = 9\<rparr>" False True 160]
    unfolding 3 by (auto simp: length_rtp_hdr_bytes rtp_header_zero_def)
qed

text \<open>
  the loss reported for a validated source that receives a stream without reordering, with gaps
  below \<open>MAX_DROPOUT\<close> and across any number of wrap-arounds of the 16-bit number, is exactly the
  number of sequence numbers that were skipped, clamped to 24 bits.
\<close>

theorem source_lost_counts_gaps:
  assumes "probation s = 0" "lost_word s = 0" "stream_ok (max_seq s) sqs" "stream_gaps (max_seq s) sqs < 2 ^ 31"
  shows "source_calc_lost (source_run sqs s) = min 0x7fffff (int (stream_gaps (max_seq s) sqs))"
  using source_run_lost [OF assms(1,3)] assms(2,4)
  by (simp add: source_calc_lost_word sint_of_nat_small)

definition source_example :: rtp_source where
  "source_example = \<lparr>max_seq = 65534, cycles = 0, base_seq = 65534, bad_seq = 0, probation = 0,
     received = 1, expected_prior = 0, received_prior = 0, src_transit = 0, src_jitter = 0\<rparr>"

lemma source_lost_counts_gaps_witness:
  "source_calc_lost (source_run [65535, 2, 3] source_example) = 2"
proof -
  have "probation source_example = 0" "lost_word source_example = 0" "max_seq source_example = 65534"
    by (simp_all add: source_example_def lost_word_def ext_max_def)
  then show ?thesis
    using source_lost_counts_gaps [of source_example "[65535, 2, 3]"] by (simp add: MAX_DROPOUT_def)
qed

text \<open>
  A source whose numbers jump out of the window is believed again after two consecutive packets:
  the first is refused, the second restarts the statistics from its own number.
\<close>

theorem source_resyncs_after_jump:
  assumes "probation s = 0" "MAX_DROPOUT \<le> unat (sq - max_seq s)"
    "unat (sq - max_seq s) \<le> RTP_SEQ_MOD - MAX_MISORDER - 1" "ucast sq \<noteq> bad_seq s"
  shows "\<exists>s1. source_update_seq sq s = (0, s1) \<and>
    source_update_seq (sq + 1) s1 = (1, (source_init_seq (sq + 1) s)\<lparr>received := 1\<rparr>) \<and>
    lost_word ((source_init_seq (sq + 1) s)\<lparr>received := 1\<rparr>) = 0"
  using source_resync [OF assms] source_init_seq_lost by blast

lemma source_resyncs_after_jump_witness:
  "\<exists>s1. source_update_seq 5000 source_example = (0, s1) \<and> fst (source_update_seq 5001 s1) = 1"
proof -
  have "\<exists>s1. source_update_seq 5000 source_example = (0, s1) \<and>
      source_update_seq (5000 + 1) s1 = (1, (source_init_seq (5000 + 1) source_example)\<lparr>received := 1\<rparr>) \<and>
      lost_word ((source_init_seq (5000 + 1) source_example)\<lparr>received := 1\<rparr>) = 0"
    by (rule source_resyncs_after_jump)
      (simp_all add: source_example_def MAX_DROPOUT_def RTP_SEQ_MOD_def MAX_MISORDER_def)
  then show ?thesis by auto
qed

text \<open>
  During probation the code compares \<open>seq\<close> with \<open>max_seq + 1\<close> as \<open>int\<close>: after 65535 no
  number counts as the next one, so a source whose number wraps during probation starts it over.
\<close>

theorem source_probation_wrap_restarts:
  assumes "probation s \<noteq> 0" "max_seq s = 65535"
  shows "source_update_seq sq s = (0, s\<lparr>probation := 1, max_seq := sq\<rparr>)"
proof -
  have "unat sq < 65536" using unsigned_less [where 'a = nat and w = sq] by simp
  then show ?thesis using assms by (simp add: source_update_seq_def Let_def MIN_SEQUENTIAL_def)
qed

lemma source_probation_wrap_restarts_witness:
  "source_update_seq 0 (source_example\<lparr>probation := 1, max_seq := 65535\<rparr>) =
     (0, source_example\<lparr>probation := 1, max_seq := 0\<rparr>)"
  using source_probation_wrap_restarts [of "source_example\<lparr>probation := 1, max_seq := 65535\<rparr>" 0]
  by (simp add: source_example_def)

end
