(* ===== verification/Jbuf.thy ===== *)
theory Jbuf
  imports Rtp
begin

section \<open>The jitter buffer (re/src/jbuf/jbuf.c)\<close>

text \<open>
  The two intrusive lists are lists of frames (the operations of \<open>list.c\<close> on them are those that
  theory \<open>LinkedList\<close> proves of the pointer code); taking the \<open>data\<close> of a NULL head is
  undefined behaviour, hence \<open>None\<close>. Packets are reference counted objects of a type \<open>'m\<close>:
  every operation also returns the sequence of \<open>mem_ref\<close> and \<open>mem_deref\<close> calls it made. Signed
  32-bit arithmetic is two's complement. The lock is not modelled (one thread at a time), and
  statistics are compiled in (\<open>JBUF_STAT\<close>).
\<close>

record 'm frame =
  f_hdr :: rtp_header
  f_mem :: "'m option"

datatype jb_state = JS_GOOD | JS_EMPTY | JS_LOW | JS_HIGH

datatype jbuf_type = JBUF_OFF | JBUF_FIXED | JBUF_ADAPTIVE

record jitter_stat =
  jst_jitter :: u32
  jst_ts0 :: u32
  jst_tr0 :: u64
  jst_st :: jb_state
  jst_avbuftime :: u32
  jst_jtime :: u32
  jst_mintime :: u32

record jbuf_stat =
  n_put :: u32
  n_get :: u32
  n_oos :: u32
  n_dups :: u32
  n_late :: u32
  n_lost :: u32
  n_overflow :: u32
  n_underflow :: u32
  n_flush :: u32

record 'm jbuf =
  jb_pooll :: "'m frame list"
  jb_framel :: "'m frame list"
  jb_n :: u32
  jb_min :: u32
  jb_max :: u32
  jb_wish :: u32
  jb_ptime :: u32
  jb_seq_put :: u16
  jb_seq_get :: u16
  jb_ssrc :: u32
  jb_started :: bool
  jb_running :: bool
  jb_silence :: bool
  jb_jitst :: jitter_stat
  jb_jbtype :: jbuf_type
  jb_stat :: jbuf_stat

datatype 'm mem_ev = MemRef 'm | MemDeref 'm

definition ev_ref :: "'m option \<Rightarrow> 'm mem_ev list" where
  "ev_ref m = (case m of None \<Rightarrow> [] | Some x \<Rightarrow> [MemRef x])"

definition ev_deref :: "'m option \<Rightarrow> 'm mem_ev list" where
  "ev_deref m = (case m of None \<Rightarrow> [] | Some x \<Rightarrow> [MemDeref x])"

definition JBUF_JITTER_PERIOD :: u32 where "JBUF_JITTER_PERIOD = 512"
definition JBUF_JITTER_UP_SPEED :: u32 where "JBUF_JITTER_UP_SPEED = 64"
definition JBUF_BUFTIME_PERIOD :: u32 where "JBUF_BUFTIME_PERIOD = 128"
definition JBUF_LO_BOUND :: u32 where "JBUF_LO_BOUND = 125"
definition JBUF_HI_BOUND :: u32 where "JBUF_HI_BOUND = 200"

definition stat_zero :: jbuf_stat where
  "stat_zero = \<lparr>n_put = 0, n_get = 0, n_oos = 0, n_dups = 0, n_late = 0, n_lost = 0, n_overflow = 0,
     n_underflow = 0, n_flush = 0\<rparr>"

definition jitst_zero :: jitter_stat where
  "jitst_zero = \<lparr>jst_jitter = 0, jst_ts0 = 0, jst_tr0 = 0, jst_st = JS_GOOD, jst_avbuftime = 0,
     jst_jtime = 0, jst_mintime = 0\<rparr>"

text \<open>Signed division and comparison of \<open>int32_t\<close> values.\<close>

definition idiv :: "u32 \<Rightarrow> u32 \<Rightarrow> u32" where
  "idiv a b = word_of_int (sint a sdiv sint b)"

definition imax :: "u32 \<Rightarrow> u32 \<Rightarrow> u32" where
  "imax a b = (if sint a > sint b then a else b)"

definition seq_less :: "u16 \<Rightarrow> u16 \<Rightarrow> bool" where
  "seq_less x y \<longleftrightarrow> sint (x - y) < 0"

definition f_seq :: "'m frame \<Rightarrow> u16" where "f_seq f = h_seq (f_hdr f)"

subsection \<open>Frames and the pool\<close>

definition frame_alloc :: "'m jbuf \<Rightarrow> ('m mem_ev list \<times> 'm frame \<times> 'm jbuf) option" where
  "frame_alloc jb =
     (case jb_pooll jb of
        f # ps \<Rightarrow> Some ([], f, jb\<lparr>jb_pooll := ps, jb_n := jb_n jb + 1\<rparr>)
      | [] \<Rightarrow>
          (case jb_framel jb of
             [] \<Rightarrow> None
           | f0 # fs \<Rightarrow>
               Some (ev_deref (f_mem f0), f0\<lparr>f_mem := None\<rparr>,
                     jb\<lparr>jb_framel := fs,
                        jb_stat := (jb_stat jb)\<lparr>n_overflow := n_overflow (jb_stat jb) + 1\<rparr>\<rparr>)))"

text \<open>\<open>frame_deref\<close> of the frame at index \<open>i\<close> of the frame list.\<close>

definition frame_deref :: "nat \<Rightarrow> 'm jbuf \<Rightarrow> 'm mem_ev list \<times> 'm jbuf" where
  "frame_deref i jb =
     (let f = jb_framel jb ! i
      in (ev_deref (f_mem f),
          jb\<lparr>jb_framel := take i (jb_framel jb) @ drop (Suc i) (jb_framel jb),
             jb_pooll := jb_pooll jb @ [f\<lparr>f_mem := None\<rparr>],
             jb_n := jb_n jb - 1\<rparr>))"

subsection \<open>Timing\<close>

definition calc_ptime :: "'m jbuf \<Rightarrow> u32" where
  "calc_ptime jb =
     (case rev (jb_framel jb) of
        ft # ftt # _ \<Rightarrow>
          let seqd = int (unat (f_seq ft)) - int (unat (f_seq ftt))
          in if seqd > 0 then (h_ts (f_hdr ft) - h_ts (f_hdr ftt)) div word_of_int (8 * seqd)
             else jb_ptime jb
      | _ \<Rightarrow> jb_ptime jb)"

definition init_jitst :: "'m jbuf \<Rightarrow> 'm jbuf" where
  "init_jitst jb =
     (let pt = calc_ptime jb;
          jt = pt * JBUF_JITTER_PERIOD;
          av = jb_wish jb * jt;
          ji = idiv (av * 100 * 2) (JBUF_LO_BOUND + JBUF_HI_BOUND);
          mt = jb_min jb * jt - idiv jt 3
      in jb\<lparr>jb_ptime := pt,
            jb_jitst := jitst_zero\<lparr>jst_jtime := jt, jst_avbuftime := av, jst_jitter := ji,
              jst_mintime := mt\<rparr>\<rparr>)"

definition calc_bufftime :: "'m jbuf \<Rightarrow> (u32 \<times> 'm jbuf) option" where
  "calc_bufftime jb =
     (let pt = calc_ptime jb; jb1 = jb\<lparr>jb_ptime := pt\<rparr>
      in if jb_n jb \<noteq> 0 then
           (if jb_framel jb = [] then None
            else Some ((h_ts (f_hdr (last (jb_framel jb))) - h_ts (f_hdr (hd (jb_framel jb)))) div 8 + pt, jb1))
         else Some (pt, jb1))"

definition jbuf_jitter_calc :: "u64 \<Rightarrow> 'm jbuf \<Rightarrow> u32 \<Rightarrow> 'm jbuf option" where
  "jbuf_jitter_calc tr jb ts =
     (let st = jb_jitst jb
      in if jst_ts0 st = 0 then Some (jb\<lparr>jb_jitst := st\<lparr>jst_ts0 := ts, jst_tr0 := tr\<rparr>\<rparr>)
         else do {
           (bt, jb1) \<leftarrow> calc_bufftime jb;
           let buftime = bt * JBUF_JITTER_PERIOD;
           let d = (word_of_int ((sint tr - sint (jst_tr0 st)) - (uint ts - uint (jst_ts0 st)) sdiv 8) :: u32);
           let da = (if sint d < 0 then - d else d) * JBUF_JITTER_PERIOD;
           let s = (if sint da > sint (jst_jitter st) then JBUF_JITTER_UP_SPEED else 1);
           let djit = idiv ((da - jst_jitter st) * s) JBUF_JITTER_PERIOD;
           let ji = jst_jitter st + djit;
           let ji = (if sint ji < 0 then 0 else ji);
           let av = (if jst_avbuftime st \<noteq> 0
                     then jst_avbuftime st + idiv (buftime - jst_avbuftime st) JBUF_BUFTIME_PERIOD
                     else buftime);
           let bufmin = imax (idiv (ji * JBUF_LO_BOUND) 100) (jst_mintime st);
           let bufmax = imax (idiv (ji * JBUF_HI_BOUND) 100) (bufmin + idiv (4 * jst_jtime st) 3);
           let low = (jb_n jb < jb_max jb \<and> sint av < sint bufmin);
           let high = (jb_n jb > jb_min jb \<and> sint av > sint bufmax);
           Some (jb1\<lparr>jb_jitst := st\<lparr>jst_jitter := ji,
              jst_avbuftime := (if low then av + jst_jtime st else av),
              jst_st := (if low then JS_LOW else if high then JS_HIGH else JS_GOOD),
              jst_ts0 := ts, jst_tr0 := tr\<rparr>\<rparr>) })"

subsection \<open>Allocation and configuration\<close>

text \<open>
  \<open>mem_ok i\<close> says whether the \<open>i\<close>-th frame can be allocated, \<open>jb_ok\<close> whether the buffer
  itself can, and \<open>lock_err\<close> is what \<open>lock_alloc\<close> returns. A fresh frame is all zero.
\<close>

definition frame_zero :: "'m frame" where
  "frame_zero = \<lparr>f_hdr = rtp_header_zero, f_mem = None\<rparr>"

definition jbuf_alloc :: "bool \<Rightarrow> err \<Rightarrow> (nat \<Rightarrow> bool) \<Rightarrow> u32 \<Rightarrow> u32 \<Rightarrow> err \<times> 'm jbuf option" where
  "jbuf_alloc jb_ok lock_err mem_ok mn mx =
     (if mn > mx then (EINVAL, None)
      else if \<not> seq_less 10 20 \<or> seq_less 20 10 \<or> \<not> seq_less 65535 0 then (ENOSYS, None)
      else if \<not> jb_ok then (ENOMEM, None)
      else if lock_err \<noteq> 0 then (lock_err, None)
      else if list_all mem_ok [0..<unat mx] then
        (0, Some \<lparr>jb_pooll = replicate (unat mx) frame_zero, jb_framel = [], jb_n = 0, jb_min = mn,
           jb_max = mx, jb_wish = 0, jb_ptime = 20, jb_seq_put = 0, jb_seq_get = 0, jb_ssrc = 0,
           jb_started = False, jb_running = False, jb_silence = True, jb_jitst = jitst_zero,
           jb_jbtype = JBUF_FIXED, jb_stat = stat_zero\<rparr>)
      else (ENOMEM, None))"

definition jbuf_set_type :: "'m jbuf \<Rightarrow> jbuf_type \<Rightarrow> 'm jbuf" where
  "jbuf_set_type jb ty =
     (let jb1 = jb\<lparr>jb_jbtype := ty\<rparr>
      in if ty = JBUF_ADAPTIVE then
           let mn = max (jb_min jb1) 1;
               mx = max (jb_max jb1) (mn + 3);
               mx = max mx (mn * JBUF_HI_BOUND div JBUF_LO_BOUND);
               w = max mn (min (mx - 1) (jb_wish jb1))
           in jb1\<lparr>jb_min := mn, jb_max := mx, jb_wish := w\<rparr>
         else jb1)"

definition jbuf_set_wish :: "'m jbuf \<Rightarrow> u32 \<Rightarrow> 'm jbuf" where
  "jbuf_set_wish jb w = jb\<lparr>jb_wish := max (jb_min jb) (min (jb_max jb - 1) w)\<rparr>"

definition jbuf_set_silence :: "'m jbuf \<Rightarrow> bool \<Rightarrow> 'm jbuf" where
  "jbuf_set_silence jb on = jb\<lparr>jb_silence := on\<rparr>"

subsection \<open>Flush\<close>

text \<open>The loop of \<open>jbuf_flush\<close>: the head is given back until the list is empty.\<close>

function flush_frames :: "'m jbuf \<Rightarrow> 'm mem_ev list \<times> 'm jbuf" where
  "flush_frames jb =
     (if jb_framel jb = [] then ([], jb)
      else let (ev, jb1) = frame_deref 0 jb; (ev', jb2) = flush_frames jb1 in (ev @ ev', jb2))"
  by pat_completeness auto
termination
  by (relation "measure (\<lambda>jb. length (jb_framel jb))") (auto simp: frame_deref_def Let_def)

declare flush_frames.simps [simp del]

definition jbuf_flush :: "'m jbuf \<Rightarrow> 'm mem_ev list \<times> 'm jbuf" where
  "jbuf_flush jb =
     (let (ev, jb1) = flush_frames jb;
          jb2 = jb1\<lparr>jb_n := 0, jb_running := False, jb_seq_get := 0,
                    jb_stat := stat_zero\<lparr>n_flush := n_flush (jb_stat jb1) + 1\<rparr>\<rparr>
      in (ev, (init_jitst jb2)\<lparr>jb_started := False\<rparr>))"

text \<open>\<open>jbuf_destructor\<close>: the frames are flushed into the pool, then the pool is freed.\<close>

definition jbuf_destructor :: "'m jbuf \<Rightarrow> 'm mem_ev list \<times> 'm jbuf" where
  "jbuf_destructor jb = (let (ev, jb1) = jbuf_flush jb in (ev, jb1\<lparr>jb_pooll := []\<rparr>))"

subsection \<open>Put\<close>

datatype put_place = PutAfter nat | PutDup nat | PutHead

text \<open>
  The search from the tail towards the head: its argument is the reversed list, so the frame at the
  front has index \<open>length fs\<close>.
\<close>

fun find_place :: "u16 \<Rightarrow> 'm frame list \<Rightarrow> put_place" where
  "find_place sq [] = PutHead"
| "find_place sq (f # fs) =
     (if seq_less (f_seq f) sq then PutAfter (length fs)
      else if sq = f_seq f then PutDup (length fs)
      else find_place sq fs)"

definition insert_at :: "nat \<Rightarrow> 'a \<Rightarrow> 'a list \<Rightarrow> 'a list" where
  "insert_at i x xs = take i xs @ x # drop i xs"

definition stat_inc :: "((u32 \<Rightarrow> u32) \<Rightarrow> jbuf_stat \<Rightarrow> jbuf_stat) \<Rightarrow> 'm jbuf \<Rightarrow> 'm jbuf" where
  "stat_inc upd jb = jb\<lparr>jb_stat := upd (\<lambda>x. x + 1) (jb_stat jb)\<rparr>"

text \<open>The code under the label \<open>success\<close>, for the new frame at index \<open>i\<close>.\<close>

definition put_success ::
  "u64 \<Rightarrow> rtp_header \<Rightarrow> 'm option \<Rightarrow> nat \<Rightarrow> 'm jbuf \<Rightarrow> (err \<times> 'm mem_ev list \<times> 'm jbuf) option" where
  "put_success now hdr mem i jb =
     (let jb1 = jb\<lparr>jb_running := True, jb_seq_put := h_seq hdr,
                   jb_framel := (jb_framel jb)[i := \<lparr>f_hdr = hdr, f_mem = mem\<rparr>]\<rparr>
      in if jb_jbtype jb1 = JBUF_ADAPTIVE \<and> jb_started jb1
         then do { jb2 \<leftarrow> jbuf_jitter_calc now jb1 (h_ts hdr); Some (0, ev_ref mem, jb2) }
         else Some (0, ev_ref mem, jb1))"

definition put_frame ::
  "u64 \<Rightarrow> 'm jbuf \<Rightarrow> rtp_header \<Rightarrow> 'm option \<Rightarrow> (err \<times> 'm mem_ev list \<times> 'm jbuf) option" where
  "put_frame now jb hdr mem = do {
     (ev, f, jb) \<leftarrow> frame_alloc (stat_inc n_put_update jb);
     let fs = jb_framel jb;
     let place = find_place (h_seq hdr) (rev fs);
     if fs = [] \<or> seq_less (f_seq (last fs)) (h_seq hdr) then do {
       (e, ev', jb) \<leftarrow> put_success now hdr mem (length fs) (jb\<lparr>jb_framel := fs @ [f]\<rparr>);
       Some (e, ev @ ev', jb) }
     else case place of
       PutAfter i \<Rightarrow> do {
         (e, ev', jb) \<leftarrow> put_success now hdr mem (Suc i)
           (stat_inc n_oos_update (jb\<lparr>jb_framel := insert_at (Suc i) f fs\<rparr>));
         Some (e, ev @ ev', jb) }
     | PutDup i \<Rightarrow>
         let (ev', jb) = frame_deref (Suc i)
               (stat_inc n_dups_update (jb\<lparr>jb_framel := insert_at (Suc i) f fs\<rparr>))
         in Some (EALREADY, ev @ ev', jb)
     | PutHead \<Rightarrow> do {
         (e, ev', jb) \<leftarrow> put_success now hdr mem 0
           (stat_inc n_oos_update (jb\<lparr>jb_framel := f # fs\<rparr>));
         Some (e, ev @ ev', jb) } }"

definition jbuf_put ::
  "u64 \<Rightarrow> 'm jbuf \<Rightarrow> rtp_header \<Rightarrow> 'm option \<Rightarrow> (err \<times> 'm mem_ev list \<times> 'm jbuf) option" where
  "jbuf_put now jb hdr mem =
     (let (ev0, jb) = (if jb_ssrc jb \<noteq> 0 \<and> jb_ssrc jb \<noteq> h_ssrc hdr then jbuf_flush jb else ([], jb));
          jb = jb\<lparr>jb_ssrc := h_ssrc hdr\<rparr>
      in if jb_running jb \<and> jb_seq_get jb \<noteq> 0 \<and> seq_less (h_seq hdr) (jb_seq_get jb + 1)
         then Some (ETIMEDOUT, ev0, stat_inc n_late_update jb)
         else do {
           (e, ev, jb) \<leftarrow> put_frame now jb hdr mem;
           Some (e, ev0 @ ev, jb) })"

subsection \<open>Get\<close>

text \<open>The part of \<open>jbuf_get\<close> before a frame is taken: \<open>Inl\<close> when the function returns.\<close>

definition get_ready :: "'m jbuf \<Rightarrow> 'm jbuf + 'm jbuf" where
  "get_ready jb =
     (if jb_jbtype jb = JBUF_ADAPTIVE then
        (if \<not> jb_started jb \<and> jb_n jb < jb_wish jb then Inl jb
         else if jb_started jb \<and> jb_framel jb = [] then
           Inl ((stat_inc n_underflow_update jb)\<lparr>jb_jitst := (jb_jitst jb)\<lparr>jst_st := JS_EMPTY\<rparr>\<rparr>)
         else
           let jb1 = (if jb_started jb then jb else init_jitst (jb\<lparr>jb_started := True\<rparr>))
           in if jb_silence jb1 \<and> jb_n jb1 < jb_max jb1 - 1 \<and> jst_st (jb_jitst jb1) = JS_LOW
              then Inl jb1 else Inr jb1)
      else if jb_n jb \<le> jb_min jb \<or> jb_framel jb = [] then Inl (stat_inc n_underflow_update jb)
      else Inr jb)"

text \<open>The frame handed out is the returned packet; \<open>None\<close> in its place when there is none.\<close>

definition jbuf_get ::
  "'m jbuf \<Rightarrow> (err \<times> (rtp_header \<times> 'm option) option \<times> 'm mem_ev list \<times> 'm jbuf) option" where
  "jbuf_get jb =
     (case get_ready (stat_inc n_get_update jb) of
        Inl jb1 \<Rightarrow> Some (ENOENT, None, [], jb1)
      | Inr jb1 \<Rightarrow>
          (case jb_framel jb1 of
             [] \<Rightarrow> None
           | f # _ \<Rightarrow>
               let lost = (jb_seq_get jb1 \<noteq> 0 \<and> \<not> seq_less (f_seq f) (jb_seq_get jb1)
                           \<and> sint (f_seq f - jb_seq_get jb1) > 1);
                   jb2 = (if lost then stat_inc n_lost_update jb1 else jb1);
                   (ev, jb3) = frame_deref 0 (jb2\<lparr>jb_seq_get := f_seq f\<rparr>);
                   out = Some (f_hdr f, f_mem f)
               in if jb_jbtype jb3 = JBUF_ADAPTIVE \<and>
                     (jb_n jb3 > jb_min jb3 \<and> jst_st (jb_jitst jb3) = JS_HIGH \<or> jb_n jb3 = jb_max jb3)
                  then Some (EAGAIN, out, ev_ref (f_mem f) @ ev,
                         jb3\<lparr>jb_jitst := (jb_jitst jb3)\<lparr>
                               jst_avbuftime := jst_avbuftime (jb_jitst jb3) - jst_jtime (jb_jitst jb3),
                               jst_st := JS_GOOD\<rparr>\<rparr>)
                  else Some (0, out, ev_ref (f_mem f) @ ev, jb3)))"

definition jbuf_stats :: "'m jbuf \<Rightarrow> err \<times> jbuf_stat" where
  "jbuf_stats jb = (0, jb_stat jb)"

section \<open>The contract of a jitter buffer\<close>

definition seq_sorted :: "'m frame list \<Rightarrow> bool" where
  "seq_sorted fs \<longleftrightarrow> successively (\<lambda>a b. seq_less (f_seq a) (f_seq b)) fs"

definition jb_wf :: "nat \<Rightarrow> 'm jbuf \<Rightarrow> bool" where
  "jb_wf cap jb \<longleftrightarrow>
     length (jb_framel jb) + length (jb_pooll jb) = cap \<and> 0 < cap \<and> cap < 2 ^ 32 \<and>
     jb_n jb = of_nat (length (jb_framel jb)) \<and> (\<forall>f \<in> set (jb_pooll jb). f_mem f = None) \<and>
     seq_sorted (jb_framel jb) \<and>
     (jb_jbtype jb = JBUF_ADAPTIVE \<longrightarrow> 1 \<le> jb_min jb \<and> 1 \<le> jb_wish jb)"

text \<open>References to a packet: those the buffer holds, and the balance of a run of events.\<close>

definition held :: "'m frame list \<Rightarrow> 'm \<Rightarrow> int" where
  "held fs m = (\<Sum>f\<leftarrow>fs. of_bool (f_mem f = Some m))"

definition ref_balance :: "'m mem_ev list \<Rightarrow> 'm \<Rightarrow> int" where
  "ref_balance evs m = (\<Sum>e\<leftarrow>evs. (case e of MemRef x \<Rightarrow> of_bool (x = m) | MemDeref x \<Rightarrow> - of_bool (x = m)))"

lemma held_simps [simp]:
  "held [] m = 0" "held (f # fs) m = of_bool (f_mem f = Some m) + held fs m"
  "held (fs @ gs) m = held fs m + held gs m"
  by (simp_all add: held_def)

lemma ref_balance_simps [simp]:
  "ref_balance [] m = 0" "ref_balance (es @ es') m = ref_balance es m + ref_balance es' m"
  "ref_balance (ev_ref r) m = of_bool (r = Some m)" "ref_balance (ev_deref r) m = - of_bool (r = Some m)"
  by (auto simp: ref_balance_def ev_ref_def ev_deref_def split: option.splits)

lemma stat_inc_simps [simp]:
  "jb_pooll (stat_inc u jb) = jb_pooll jb" "jb_framel (stat_inc u jb) = jb_framel jb"
  "jb_n (stat_inc u jb) = jb_n jb" "jb_min (stat_inc u jb) = jb_min jb" "jb_max (stat_inc u jb) = jb_max jb"
  "jb_wish (stat_inc u jb) = jb_wish jb" "jb_jbtype (stat_inc u jb) = jb_jbtype jb"
  "jb_seq_get (stat_inc u jb) = jb_seq_get jb" "jb_running (stat_inc u jb) = jb_running jb"
  "jb_started (stat_inc u jb) = jb_started jb" "jb_ssrc (stat_inc u jb) = jb_ssrc jb"
  "jb_silence (stat_inc u jb) = jb_silence jb" "jb_jitst (stat_inc u jb) = jb_jitst jb"
  "jb_seq_put (stat_inc u jb) = jb_seq_put jb"
  by (simp_all add: stat_inc_def)

lemma jb_wf_cong:
  assumes "jb_framel jb' = jb_framel jb" "jb_pooll jb' = jb_pooll jb" "jb_n jb' = jb_n jb"
    "jb_min jb' = jb_min jb" "jb_wish jb' = jb_wish jb" "jb_jbtype jb' = jb_jbtype jb"
  shows "jb_wf cap jb' = jb_wf cap jb"
  using assms by (simp add: jb_wf_def)

lemma jb_wf_stat_inc [simp]: "jb_wf cap (stat_inc u jb) = jb_wf cap jb"
  by (rule jb_wf_cong) simp_all

lemma unat_jb_n: "jb_wf cap jb \<Longrightarrow> unat (jb_n jb) = length (jb_framel jb)"
  by (auto simp: jb_wf_def unat_of_nat take_bit_nat_eq_self_iff)

lemma jb_n_eq_0: "jb_wf cap jb \<Longrightarrow> jb_n jb = 0 \<longleftrightarrow> jb_framel jb = []"
  using unat_jb_n [of cap jb] by (auto simp: unat_eq_0)

subsection \<open>Serial number order\<close>

lemma seq_less_asym_cases: "\<not> seq_less x y \<Longrightarrow> x \<noteq> y \<Longrightarrow> seq_less y x"
proof -
  assume a: "\<not> seq_less x y" "x \<noteq> y"
  have m: "sint (- w) < 0" if "0 \<le> sint w" "w \<noteq> 0" for w :: u16
  proof -
    have "0 < sint w" using that by (metis le_less sint_0 signed_eq_0_iff)
    moreover have "sint w < 2 ^ 15" using sint_lt [of w] by simp
    ultimately have "signed_take_bit 15 (- sint w) = - sint w"
      by (intro signed_take_bit_int_eq_self) simp_all
    moreover have "sint (- w) = signed_take_bit 15 (- sint w)"
      using sint_word_ariths(4) [of w] by simp
    ultimately show ?thesis using \<open>0 < sint w\<close> by simp
  qed
  from a m [of "x - y"] show ?thesis by (simp add: seq_less_def)
qed

text \<open>Where the search stops.\<close>

lemma find_place_spec:
  "case find_place sq (rev fs) of
     PutAfter i \<Rightarrow> i < length fs \<and> seq_less (f_seq (fs ! i)) sq \<and>
       (\<forall>f \<in> set (drop (Suc i) fs). \<not> seq_less (f_seq f) sq \<and> f_seq f \<noteq> sq)
   | PutDup i \<Rightarrow> i < length fs \<and> f_seq (fs ! i) = sq
   | PutHead \<Rightarrow> (\<forall>f \<in> set fs. \<not> seq_less (f_seq f) sq \<and> f_seq f \<noteq> sq)"
proof (induction fs rule: rev_induct)
  case Nil
  then show ?case by simp
next
  case (snoc f fs)
  then show ?case
    by (auto simp: nth_append less_Suc_eq split: put_place.splits)
qed

lemma seq_sorted_insert:
  assumes "seq_sorted (xs @ ys)" "xs = [] \<or> seq_less (f_seq (last xs)) (f_seq f)"
    "\<forall>g \<in> set ys. \<not> seq_less (f_seq g) (f_seq f) \<and> f_seq g \<noteq> f_seq f"
  shows "seq_sorted (xs @ f # ys)"
  using assms by (cases ys) (auto simp: seq_sorted_def successively_append_iff seq_less_asym_cases)

lemma seq_sorted_tl: "seq_sorted (f # fs) \<Longrightarrow> seq_sorted fs"
  by (cases fs) (simp_all add: seq_sorted_def)

lemma seq_sorted_Nil [simp]: "seq_sorted []"
  by (simp add: seq_sorted_def)

subsection \<open>The building blocks\<close>

text \<open>What storing and removing frames leaves alone.\<close>

definition jb_cfg :: "'m jbuf \<Rightarrow> u32 \<times> u32 \<times> jbuf_type \<times> u16 \<times> u32 \<times> bool" where
  "jb_cfg jb = (jb_min jb, jb_wish jb, jb_jbtype jb, jb_seq_get jb, jb_ssrc jb, jb_started jb)"

lemma jb_cfg_stat_inc [simp]: "jb_cfg (stat_inc u jb) = jb_cfg jb"
  by (simp add: jb_cfg_def)

text \<open>The buffered frames once a frame is at hand for the new packet.\<close>

definition put_base :: "'m jbuf \<Rightarrow> 'm frame list" where
  "put_base jb = (if jb_pooll jb = [] then tl (jb_framel jb) else jb_framel jb)"

lemma put_base_stat_inc [simp]: "put_base (stat_inc u jb) = put_base jb"
  by (simp add: put_base_def)

lemma frame_alloc_spec:
  assumes "jb_wf cap jb"
  obtains ev f jb' where "frame_alloc jb = Some (ev, f, jb')"
    "jb_framel jb' = put_base jb" "f_mem f = None" "\<forall>m. held (jb_framel jb') m = held (jb_framel jb) m + ref_balance ev m"
    "length (jb_framel jb') + length (jb_pooll jb') = cap - 1"
    "jb_n jb' = of_nat (Suc (length (jb_framel jb')))" "seq_sorted (jb_framel jb')"
    "\<forall>f \<in> set (jb_pooll jb'). f_mem f = None"
    "jb_cfg jb' = jb_cfg jb" "jb_running jb' = jb_running jb"
proof (cases "jb_pooll jb")
  case Nil
  with assms obtain f0 fs where f: "jb_framel jb = f0 # fs"
    by (cases "jb_framel jb") (auto simp: jb_wf_def)
  show ?thesis
    by (rule that [of "ev_deref (f_mem f0)" "f0\<lparr>f_mem := None\<rparr>" "jb\<lparr>jb_framel := fs,
        jb_stat := (jb_stat jb)\<lparr>n_overflow := n_overflow (jb_stat jb) + 1\<rparr>\<rparr>"])
      (use assms f Nil in \<open>auto simp: frame_alloc_def jb_wf_def put_base_def jb_cfg_def intro: seq_sorted_tl\<close>)
next
  case (Cons f ps)
  show ?thesis
    by (rule that [of "[]" f "jb\<lparr>jb_pooll := ps, jb_n := jb_n jb + 1\<rparr>"]) (use assms Cons in \<open>auto simp: frame_alloc_def jb_wf_def put_base_def jb_cfg_def\<close>)
qed

lemma frame_deref_0:
  "jb_framel jb = f # fs \<Longrightarrow> frame_deref 0 jb = (ev_deref (f_mem f),
     jb\<lparr>jb_framel := fs, jb_pooll := jb_pooll jb @ [f\<lparr>f_mem := None\<rparr>], jb_n := jb_n jb - 1\<rparr>)"
  by (simp add: frame_deref_def)

lemma flush_frames_eq:
  "flush_frames jb = (concat (map (\<lambda>f. ev_deref (f_mem f)) (jb_framel jb)),
     jb\<lparr>jb_framel := [], jb_pooll := jb_pooll jb @ map (\<lambda>f. f\<lparr>f_mem := None\<rparr>) (jb_framel jb),
        jb_n := jb_n jb - of_nat (length (jb_framel jb))\<rparr>)"
proof (induction "jb_framel jb" arbitrary: jb)
  case Nil
  then show ?case by (simp add: flush_frames.simps [of jb])
next
  case (Cons f fs)
  from Cons(2) [symmetric] show ?case
    using Cons(1) [of "jb\<lparr>jb_framel := fs, jb_pooll := jb_pooll jb @ [f\<lparr>f_mem := None\<rparr>], jb_n := jb_n jb - 1\<rparr>"]
    by (simp add: flush_frames.simps [of jb] frame_deref_0)
qed

lemma jbuf_jitter_calc_frame:
  assumes "jb_n jb \<noteq> 0 \<longrightarrow> jb_framel jb \<noteq> []"
  shows "\<exists>pt st. jbuf_jitter_calc tr jb ts = Some (jb\<lparr>jb_ptime := pt, jb_jitst := st\<rparr>)"
proof -
  have u: "jbuf_jitter_calc tr jb ts = Some (jb\<lparr>jb_ptime := jb_ptime jb, jb_jitst := st\<rparr>)"
    if "jbuf_jitter_calc tr jb ts = Some (jb\<lparr>jb_jitst := st\<rparr>)" for st
    using that by simp
  show ?thesis
  proof (cases "jst_ts0 (jb_jitst jb) = 0")
    case True
    then show ?thesis
      by (intro exI) (rule u, unfold jbuf_jitter_calc_def Let_def if_P [OF True], rule refl)
  next
    case False
    have "\<exists>bt. calc_bufftime jb = Some (bt, jb\<lparr>jb_ptime := calc_ptime jb\<rparr>)"
      using assms by (cases "jb_n jb = 0") (simp_all add: calc_bufftime_def Let_def)
    then obtain bt where bt: "calc_bufftime jb = Some (bt, jb\<lparr>jb_ptime := calc_ptime jb\<rparr>)" by blast
    show ?thesis
      by (intro exI) (unfold jbuf_jitter_calc_def Let_def if_not_P [OF False] bt, simp, (intro conjI refl)?)
  qed
qed

lemma put_success_spec:
  assumes "jb_framel jb \<noteq> []"
  obtains jb' where "put_success now hdr mem i jb = Some (0, ev_ref mem, jb')"
    "jb_framel jb' = (jb_framel jb)[i := \<lparr>f_hdr = hdr, f_mem = mem\<rparr>]"
    "jb_pooll jb' = jb_pooll jb" "jb_n jb' = jb_n jb" "jb_cfg jb' = jb_cfg jb" "jb_running jb'"
proof -
  let ?jb = "jb\<lparr>jb_running := True, jb_seq_put := h_seq hdr,
                   jb_framel := (jb_framel jb)[i := \<lparr>f_hdr = hdr, f_mem = mem\<rparr>]\<rparr>"
  show ?thesis
  proof (cases "jb_jbtype jb = JBUF_ADAPTIVE \<and> jb_started jb")
    case True
    obtain pt st where c: "jbuf_jitter_calc now ?jb (h_ts hdr) = Some (?jb\<lparr>jb_ptime := pt, jb_jitst := st\<rparr>)"
      using jbuf_jitter_calc_frame [of ?jb now "h_ts hdr"] assms by auto
    have "put_success now hdr mem i jb = Some (0, ev_ref mem, ?jb\<lparr>jb_ptime := pt, jb_jitst := st\<rparr>)"
      unfolding put_success_def Let_def c using True by simp
    then show ?thesis by (rule that) (simp_all add: jb_cfg_def)
  next
    case False
    then have c: "\<not> (jb_jbtype ?jb = JBUF_ADAPTIVE \<and> jb_started ?jb)" by simp
    have "put_success now hdr mem i jb = Some (0, ev_ref mem, ?jb)"
      unfolding put_success_def Let_def if_not_P [OF c] ..
    then show ?thesis by (rule that) (simp_all add: jb_cfg_def)
  qed
qed

text \<open>
  Where \<open>jbuf_put\<close> puts a packet: the frames after it are those the search passed over, the
  frame before it precedes it in serial number order.
\<close>

definition put_between :: "u16 \<Rightarrow> 'm frame list \<Rightarrow> 'm frame list \<Rightarrow> bool" where
  "put_between sq xs ys \<longleftrightarrow> (xs = [] \<or> seq_less (f_seq (last xs)) sq) \<and>
     (\<forall>g \<in> set ys. \<not> seq_less (f_seq g) sq \<and> f_seq g \<noteq> sq)"

lemma put_frame_spec:
  assumes "jb_wf cap jb"
  obtains (dup) ev jb' where "put_frame now jb hdr mem = Some (EALREADY, ev, jb')" "jb_wf cap jb'"
      "jb_framel jb' = put_base jb" "\<exists>f \<in> set (put_base jb). f_seq f = h_seq hdr"
      "\<forall>m. held (jb_framel jb') m = held (jb_framel jb) m + ref_balance ev m"
      "jb_cfg jb' = jb_cfg jb" "jb_running jb' = jb_running jb"
  | (ok) ev jb' xs ys where "put_frame now jb hdr mem = Some (0, ev, jb')" "jb_wf cap jb'"
      "put_base jb = xs @ ys" "jb_framel jb' = xs @ \<lparr>f_hdr = hdr, f_mem = mem\<rparr> # ys"
      "put_between (h_seq hdr) xs ys"
      "\<forall>m. held (jb_framel jb') m = held (jb_framel jb) m + ref_balance ev m"
      "jb_cfg jb' = jb_cfg jb" "jb_running jb'"
proof -
  let ?new = "\<lparr>f_hdr = hdr, f_mem = mem\<rparr>"
  let ?sq = "h_seq hdr"
  let ?jb = "stat_inc n_put_update jb"
  have "jb_wf cap ?jb" using assms by simp
  then obtain ev f jb1 where fa: "frame_alloc ?jb = Some (ev, f, jb1)"
    and raw: "jb_framel jb1 = put_base ?jb" "f_mem f = None"
      "\<forall>m. held (jb_framel jb1) m = held (jb_framel ?jb) m + ref_balance ev m"
    and ln: "length (jb_framel jb1) + length (jb_pooll jb1) = cap - 1"
    and n1: "jb_n jb1 = of_nat (Suc (length (jb_framel jb1)))" and so: "seq_sorted (jb_framel jb1)"
    and pm: "\<forall>f \<in> set (jb_pooll jb1). f_mem f = None"
    and raw2: "jb_cfg jb1 = jb_cfg ?jb" "jb_running jb1 = jb_running ?jb"
    by (rule frame_alloc_spec)
  note fr = raw(1) [unfolded put_base_stat_inc] and fm = raw(2) and hd = raw(3) [unfolded stat_inc_simps, rule_format]
    and same = raw2 [unfolded stat_inc_simps jb_cfg_stat_inc]
  let ?fs = "jb_framel jb1"
  have fsq [simp]: "f_seq ?new = ?sq" by (simp add: f_seq_def)
  \<comment> \<open>a successful insertion of the new frame between \<open>xs\<close> and \<open>ys\<close>\<close>
  have ins: thesis
    if split: "?fs = xs @ ys" and bet: "put_between ?sq xs ys" and jb2: "jb_framel jb2 = xs @ f # ys"
      and rest: "jb_pooll jb2 = jb_pooll jb1" "jb_n jb2 = jb_n jb1" "jb_cfg jb2 = jb_cfg jb1"
      and eq: "put_frame now jb hdr mem = do {
        (e, ev', jb) \<leftarrow> put_success now hdr mem (length xs) jb2; Some (e, ev @ ev', jb) }"
    for xs ys jb2
  proof -
    obtain jb3 where ps: "put_success now hdr mem (length xs) jb2 = Some (0, ev_ref mem, jb3)"
      and j3: "jb_framel jb3 = (jb_framel jb2)[length xs := ?new]"
      "jb_pooll jb3 = jb_pooll jb2" "jb_n jb3 = jb_n jb2" "jb_cfg jb3 = jb_cfg jb2" "jb_running jb3"
      by (rule put_success_spec [of jb2 now hdr mem "length xs"]) (use jb2 in simp)
    have fr3: "jb_framel jb3 = xs @ ?new # ys" by (simp add: j3 jb2)
    have "seq_sorted (xs @ ?new # ys)"
      by (rule seq_sorted_insert) (use so split bet in \<open>auto simp: put_between_def\<close>)
    then have "jb_wf cap jb3"
      using assms n1 ln pm j3(4) rest(3) same by (simp add: jb_wf_def fr3 j3(2,3) rest(1,2) split jb_cfg_def)
    moreover have "put_frame now jb hdr mem = Some (0, ev @ ev_ref mem, jb3)" by (simp add: eq ps)
    ultimately show thesis
      using split bet fr3 by (intro ok [of "ev @ ev_ref mem" jb3 xs ys])
        (use hd fm fr in \<open>simp_all add: j3 rest same split\<close>)
  qed
  let ?p = "find_place ?sq (rev ?fs)"
  note spec = find_place_spec [where sq = ?sq and fs = ?fs]
  show thesis
  proof (cases "?fs = [] \<or> seq_less (f_seq (last ?fs)) ?sq")
    case True
    show thesis
      by (rule ins [of ?fs "[]" "jb1\<lparr>jb_framel := ?fs @ [f]\<rparr>"])
        (use True in \<open>auto simp: put_between_def put_frame_def fa Let_def jb_cfg_def\<close>)
  next
    case False
    show thesis
    proof (cases ?p)
      case (PutAfter i)
      with spec have i: "i < length ?fs" by simp
      let ?jb2 = "stat_inc n_oos_update (jb1\<lparr>jb_framel := insert_at (Suc i) f ?fs\<rparr>)"
      show thesis
      proof (rule ins [of "take (Suc i) ?fs" "drop (Suc i) ?fs" ?jb2])
        show "put_between ?sq (take (Suc i) ?fs) (drop (Suc i) ?fs)"
          using spec i by (simp add: PutAfter put_between_def take_Suc_conv_app_nth)
        show "put_frame now jb hdr mem = do {
            (e, ev', jb) \<leftarrow> put_success now hdr mem (length (take (Suc i) ?fs)) ?jb2; Some (e, ev @ ev', jb) }"
          using False i by (simp add: put_frame_def fa Let_def PutAfter min_absorb2)
      qed (simp_all add: insert_at_def jb_cfg_def)
    next
      case (PutDup i)
      with spec have i: "i < length ?fs" "f_seq (?fs ! i) = ?sq" by simp_all
      let ?jb2 = "stat_inc n_dups_update (jb1\<lparr>jb_framel := insert_at (Suc i) f ?fs\<rparr>)"
      obtain ev' jb3 where d: "frame_deref (Suc i) ?jb2 = (ev', jb3)" by fastforce
      have nth: "insert_at (Suc i) f ?fs ! Suc i = f"
        using i by (simp add: insert_at_def nth_append min_absorb2)
      have tk: "take (Suc i) (insert_at (Suc i) f ?fs) @ drop (Suc (Suc i)) (insert_at (Suc i) f ?fs) = ?fs"
        using i by (simp add: insert_at_def min_absorb2)
      have j3: "ev' = []" "jb3 = ?jb2\<lparr>jb_framel := ?fs, jb_pooll := jb_pooll jb1 @ [f\<lparr>f_mem := None\<rparr>], jb_n := jb_n jb1 - 1\<rparr>"
        using d fm by (simp_all add: frame_deref_def nth tk ev_deref_def Let_def)
      show thesis
      proof (rule dup [of ev jb3])
        show "put_frame now jb hdr mem = Some (EALREADY, ev, jb3)"
          using False j3(1) by (simp add: put_frame_def fa Let_def PutDup d)
        show "jb_wf cap jb3"
          using assms n1 ln pm so same by (auto simp: jb_wf_def j3 jb_cfg_def)
        show "\<exists>f \<in> set (put_base jb). f_seq f = ?sq"
          unfolding fr [symmetric] using i by (auto intro: bexI [of _ "?fs ! i"])
        show "jb_cfg jb3 = jb_cfg jb" using same by (simp add: j3 jb_cfg_def)
      qed (simp_all add: j3 fr [symmetric] hd same)
    next
      case PutHead
      let ?jb2 = "stat_inc n_oos_update (jb1\<lparr>jb_framel := f # ?fs\<rparr>)"
      show thesis
      proof (rule ins [of "[]" ?fs ?jb2])
        show "put_between ?sq [] ?fs" using spec by (simp add: PutHead put_between_def)
        show "put_frame now jb hdr mem = do {
            (e, ev', jb) \<leftarrow> put_success now hdr mem (length []) ?jb2; Some (e, ev @ ev', jb) }"
          using False by (simp add: put_frame_def fa Let_def PutHead)
      qed (simp_all add: jb_cfg_def)
    qed
  qed
qed

lemma jbuf_flush_spec:
  assumes "jb_wf cap jb" "jbuf_flush jb = (ev, jb')"
  shows "jb_wf cap jb' \<and> jb_framel jb' = [] \<and> jb_seq_get jb' = 0 \<and> \<not> jb_running jb' \<and>
    (\<forall>m. held (jb_framel jb) m + ref_balance ev m = 0)"
proof -
  have "held fs m + ref_balance (concat (map (\<lambda>f. ev_deref (f_mem f)) fs)) m = 0" for fs :: "'a frame list" and m
    by (induction fs) simp_all
  then show ?thesis
    using assms by (auto simp: jbuf_flush_def flush_frames_eq Let_def init_jitst_def jb_wf_def)
qed

lemma get_ready_spec:
  "case get_ready jb of
     Inl jb1 \<Rightarrow> jb_framel jb1 = jb_framel jb \<and> jb_pooll jb1 = jb_pooll jb \<and> jb_n jb1 = jb_n jb \<and>
       jb_min jb1 = jb_min jb \<and> jb_wish jb1 = jb_wish jb \<and> jb_jbtype jb1 = jb_jbtype jb \<and>
       jb_seq_get jb1 = jb_seq_get jb \<and> jb_running jb1 = jb_running jb \<and> jb_ssrc jb1 = jb_ssrc jb
   | Inr jb1 \<Rightarrow> jb_framel jb1 = jb_framel jb \<and> jb_pooll jb1 = jb_pooll jb \<and> jb_n jb1 = jb_n jb \<and>
       jb_min jb1 = jb_min jb \<and> jb_wish jb1 = jb_wish jb \<and> jb_jbtype jb1 = jb_jbtype jb \<and>
       jb_seq_get jb1 = jb_seq_get jb \<and> jb_running jb1 = jb_running jb \<and> jb_ssrc jb1 = jb_ssrc jb \<and>
       (jb_wf cap jb \<longrightarrow> jb_framel jb \<noteq> [])"
proof -
  have ne: "jb_framel jb \<noteq> []" if "jb_wf cap jb" "jb_jbtype jb = JBUF_ADAPTIVE" "\<not> jb_n jb < jb_wish jb"
    using that jb_n_eq_0 [OF that(1)] by (auto simp: jb_wf_def word_le_nat_alt word_less_nat_alt)
  show ?thesis
    by (auto simp: get_ready_def init_jitst_def Let_def dest: ne)
qed

lemma jbuf_get_spec:
  assumes "jb_wf cap jb"
  obtains (none) jb' where "jbuf_get jb = Some (ENOENT, None, [], jb')" "jb_wf cap jb'"
      "jb_framel jb' = jb_framel jb" "jb_seq_get jb' = jb_seq_get jb" "jb_running jb' = jb_running jb"
      "jb_ssrc jb' = jb_ssrc jb"
  | (some) e f jb' where "jbuf_get jb = Some (e, Some (f_hdr f, f_mem f), ev_ref (f_mem f) @ ev_deref (f_mem f), jb')"
      "e = 0 \<or> e = EAGAIN" "jb_wf cap jb'" "jb_framel jb = f # jb_framel jb'"
      "jb_seq_get jb' = f_seq f" "jb_running jb' = jb_running jb" "jb_ssrc jb' = jb_ssrc jb"
proof (cases "get_ready (stat_inc n_get_update jb)")
  case (Inl jb1)
  note r = get_ready_spec [of "stat_inc n_get_update jb" cap, unfolded Inl, simplified]
  then have "jb_wf cap jb1" using assms by (subst jb_wf_cong [of _ jb]) simp_all
  then show ?thesis
    using r by (intro none [of jb1]) (simp_all add: jbuf_get_def Inl)
next
  case (Inr jb1)
  note r = get_ready_spec [of "stat_inc n_get_update jb" cap, unfolded Inr, simplified]
  with assms have "jb_framel jb \<noteq> []" by simp
  then obtain f fs where f: "jb_framel jb = f # fs" by (cases "jb_framel jb") auto
  let ?lost = "jb_seq_get jb1 \<noteq> 0 \<and> \<not> seq_less (f_seq f) (jb_seq_get jb1) \<and> sint (f_seq f - jb_seq_get jb1) > 1"
  define jb2 where "jb2 = (if ?lost then stat_inc n_lost_update jb1 else jb1)"
  have same: "jb_framel jb2 = f # fs" "jb_pooll jb2 = jb_pooll jb" "jb_n jb2 = jb_n jb"
    "jb_min jb2 = jb_min jb" "jb_wish jb2 = jb_wish jb" "jb_jbtype jb2 = jb_jbtype jb"
    "jb_running jb2 = jb_running jb" "jb_ssrc jb2 = jb_ssrc jb"
    using r f by (simp_all add: jb2_def)
  define jb3 where "jb3 = jb2\<lparr>jb_seq_get := f_seq f, jb_framel := fs,
      jb_pooll := jb_pooll jb @ [f\<lparr>f_mem := None\<rparr>], jb_n := jb_n jb - 1\<rparr>"
  have d: "frame_deref 0 (jb2\<lparr>jb_seq_get := f_seq f\<rparr>) = (ev_deref (f_mem f), jb3)"
    by (simp add: frame_deref_0 same jb3_def)
  have wf3: "jb_wf cap jb3"
    using assms f by (auto simp: jb_wf_def jb3_def same intro: seq_sorted_tl)
  define jb4 where "jb4 = jb3\<lparr>jb_jitst := (jb_jitst jb3)\<lparr>
      jst_avbuftime := jst_avbuftime (jb_jitst jb3) - jst_jtime (jb_jitst jb3), jst_st := JS_GOOD\<rparr>\<rparr>"
  have wf4: "jb_wf cap jb4" using wf3 by (subst jb_wf_cong [of _ jb3]) (simp_all add: jb4_def)
  have get: "jbuf_get jb = (if jb_jbtype jb3 = JBUF_ADAPTIVE \<and>
        (jb_n jb3 > jb_min jb3 \<and> jst_st (jb_jitst jb3) = JS_HIGH \<or> jb_n jb3 = jb_max jb3)
      then Some (EAGAIN, Some (f_hdr f, f_mem f), ev_ref (f_mem f) @ ev_deref (f_mem f), jb4)
      else Some (0, Some (f_hdr f, f_mem f), ev_ref (f_mem f) @ ev_deref (f_mem f), jb3))"
  proof -
    have jf: "jb_framel jb1 = f # fs" using r f by simp
    show ?thesis
      by (simp only: jbuf_get_def Inr sum.case jf list.case Let_def jb2_def [symmetric] d prod.case
          jb4_def [symmetric])
  qed
  show ?thesis
  proof (cases "jb_jbtype jb3 = JBUF_ADAPTIVE \<and>
        (jb_n jb3 > jb_min jb3 \<and> jst_st (jb_jitst jb3) = JS_HIGH \<or> jb_n jb3 = jb_max jb3)")
    case True
    show ?thesis
      by (rule some [of EAGAIN f jb4]) (use f wf4 in \<open>simp_all only: get if_P [OF True], simp_all add: jb4_def jb3_def same\<close>)
  next
    case False
    show ?thesis
      by (rule some [of 0 f jb3]) (use f wf3 in \<open>simp_all only: get if_not_P [OF False], simp_all add: jb3_def same\<close>)
  qed
qed

lemma jbuf_put_spec:
  assumes "jb_wf cap jb"
  obtains e ev jb' where "jbuf_put now jb hdr mem = Some (e, ev, jb')" "e \<in> {0, ETIMEDOUT, EALREADY}"
    "jb_wf cap jb'" "\<forall>m. held (jb_framel jb') m = held (jb_framel jb) m + ref_balance ev m"
proof -
  obtain ev0 jb0 where f: "(if jb_ssrc jb \<noteq> 0 \<and> jb_ssrc jb \<noteq> h_ssrc hdr then jbuf_flush jb else ([], jb)) = (ev0, jb0)"
    by fastforce
  have f': "jb_wf cap jb0 \<and> (\<forall>m. held (jb_framel jb0) m = held (jb_framel jb) m + ref_balance ev0 m)"
    using jbuf_flush_spec [OF assms, of ev0 jb0] f assms by (auto split: if_splits)
  let ?jb = "jb0\<lparr>jb_ssrc := h_ssrc hdr\<rparr>"
  have wf: "jb_wf cap ?jb" using f' by (subst jb_wf_cong [of _ jb0]) simp_all
  show thesis
  proof (cases "jb_running ?jb \<and> jb_seq_get ?jb \<noteq> 0 \<and> seq_less (h_seq hdr) (jb_seq_get ?jb + 1)")
    case True
    then show thesis
      using f' wf by (intro that [of ETIMEDOUT ev0 "stat_inc n_late_update ?jb"]) (simp_all add: jbuf_put_def f)
  next
    case False
    then have p: "jbuf_put now jb hdr mem = do {
        (e, ev, jb) \<leftarrow> put_frame now ?jb hdr mem; Some (e, ev0 @ ev, jb) }"
      by (simp only: jbuf_put_def f Let_def prod.case False if_False)
    show thesis
      by (rule put_frame_spec [OF wf, of now hdr mem]) (use f' in \<open>auto simp: p intro!: that\<close>)
  qed
qed

subsection \<open>Windows of sequence numbers\<close>

text \<open>
  The numbers that lie in the half of the number circle after \<open>b\<close>: between two of them the
  circular comparison is the comparison of their distances from \<open>b\<close>.
\<close>

definition after :: "u16 \<Rightarrow> u16 \<Rightarrow> bool" where
  "after b x \<longleftrightarrow> 0 < unat (x - b) \<and> unat (x - b) \<le> 2 ^ 15"




subsection \<open>Playing in order\<close>

text \<open>
  While playing (a frame with a number other than 0 has been handed out), everything buffered comes
  after the frame last played.
\<close>

definition playing :: "u32 \<Rightarrow> 'm jbuf \<Rightarrow> bool" where
  "playing ssrc jb \<longleftrightarrow> jb_running jb \<and> jb_seq_get jb \<noteq> 0 \<and> jb_ssrc jb = ssrc \<and>
     (\<forall>f \<in> set (jb_framel jb). after (jb_seq_get jb) (f_seq f) \<and> f_seq f \<noteq> 0)"






text \<open>A run of the buffer's operations, and the packets it hands out.\<close>

datatype 'm jb_op = JbPut u64 rtp_header "'m option" | JbGet | JbSilence bool | JbFlush
  | JbType jbuf_type | JbWish u32

fun jb_step :: "'m jb_op \<Rightarrow> 'm jbuf \<Rightarrow> ((rtp_header \<times> 'm option) option \<times> 'm mem_ev list \<times> 'm jbuf) option" where
  "jb_step (JbPut now hdr mem) jb = do { (e, ev, jb) \<leftarrow> jbuf_put now jb hdr mem; Some (None, ev, jb) }"
| "jb_step JbGet jb = do { (e, out, ev, jb) \<leftarrow> jbuf_get jb; Some (out, ev, jb) }"
| "jb_step (JbSilence on) jb = Some (None, [], jbuf_set_silence jb on)"
| "jb_step JbFlush jb = (let (ev, jb) = jbuf_flush jb in Some (None, ev, jb))"
| "jb_step (JbType ty) jb = Some (None, [], jbuf_set_type jb ty)"
| "jb_step (JbWish w) jb = Some (None, [], jbuf_set_wish jb w)"

fun jb_run :: "'m jb_op list \<Rightarrow> 'm jbuf \<Rightarrow> ((rtp_header \<times> 'm option) list \<times> 'm mem_ev list \<times> 'm jbuf) option" where
  "jb_run [] jb = Some ([], [], jb)"
| "jb_run (c # cs) jb = do {
     (out, ev, jb) \<leftarrow> jb_step c jb;
     (outs, evs, jb) \<leftarrow> jb_run cs jb;
     Some ((case out of None \<Rightarrow> outs | Some p \<Rightarrow> p # outs), ev @ evs, jb) }"


definition handed :: "(rtp_header \<times> 'm option) list \<Rightarrow> 'm \<Rightarrow> int" where
  "handed outs m = (\<Sum>p\<leftarrow>outs. of_bool (snd p = Some m))"

lemma handed_simps [simp]:
  "handed [] m = 0" "handed (p # ps) m = of_bool (snd p = Some m) + handed ps m"
  by (simp_all add: handed_def)

lemma jb_wf_silence [simp]: "jb_wf cap (jbuf_set_silence jb on) = jb_wf cap jb"
  by (rule jb_wf_cong) (simp_all add: jbuf_set_silence_def)

lemma jbuf_set_silence_simps [simp]:
  "jb_framel (jbuf_set_silence jb on) = jb_framel jb" "jb_jbtype (jbuf_set_silence jb on) = jb_jbtype jb"
  "jb_started (jbuf_set_silence jb on) = jb_started jb" "jb_wish (jbuf_set_silence jb on) = jb_wish jb"
  by (simp_all add: jbuf_set_silence_def)

lemma jbuf_config_simps [simp]:
  "jb_framel (jbuf_set_type jb ty) = jb_framel jb" "jb_framel (jbuf_set_wish jb w) = jb_framel jb"
  by (simp_all add: jbuf_set_type_def jbuf_set_wish_def Let_def)

lemma jb_wf_type: "jb_wf cap jb \<Longrightarrow> jb_wf cap (jbuf_set_type jb ty)"
  by (auto simp: jb_wf_def jbuf_set_type_def Let_def le_max_iff_disj)

lemma jb_wf_wish: "jb_wf cap jb \<Longrightarrow> jb_wf cap (jbuf_set_wish jb w)"
  by (auto simp: jb_wf_def jbuf_set_wish_def le_max_iff_disj)

lemma playing_config [simp]:
  "playing ssrc (jbuf_set_type jb ty) = playing ssrc jb" "playing ssrc (jbuf_set_wish jb w) = playing ssrc jb"
  "jb_seq_get (jbuf_set_type jb ty) = jb_seq_get jb" "jb_seq_get (jbuf_set_wish jb w) = jb_seq_get jb"
  by (simp_all add: playing_def jbuf_set_type_def jbuf_set_wish_def Let_def)

lemma jb_step_total:
  assumes "jb_wf cap jb"
  obtains out ev jb' where "jb_step c jb = Some (out, ev, jb')" "jb_wf cap jb'"
    "\<forall>m. held (jb_framel jb') m = held (jb_framel jb) m + ref_balance ev m - handed (case out of None \<Rightarrow> [] | Some p \<Rightarrow> [p]) m"
proof (cases c)
  case (JbPut now hdr mem)
  then show thesis using that by (cases rule: jbuf_put_spec [OF assms, of now hdr mem]) auto
next
  case JbGet
  then show thesis using that by (cases rule: jbuf_get_spec [OF assms]) auto
next
  case (JbSilence on)
  then show thesis using assms by (intro that [of None "[]" "jbuf_set_silence jb on"]) simp_all
next
  case JbFlush
  obtain ev jb' where "jbuf_flush jb = (ev, jb')" by fastforce
  then show thesis using jbuf_flush_spec [OF assms] JbFlush by (intro that [of None ev jb']) auto
next
  case (JbType ty)
  then show thesis using assms by (intro that [of None "[]" "jbuf_set_type jb ty"]) (simp_all add: jb_wf_type)
next
  case (JbWish w)
  then show thesis using assms by (intro that [of None "[]" "jbuf_set_wish jb w"]) (simp_all add: jb_wf_wish)
qed


lemma jb_run_total_aux:
  "jb_wf cap jb \<Longrightarrow>
   \<exists>outs ev jb'. jb_run cs jb = Some (outs, ev, jb') \<and> jb_wf cap jb' \<and>
     (\<forall>m. held (jb_framel jb') m + handed outs m = held (jb_framel jb) m + ref_balance ev m)"
proof (induction cs arbitrary: jb)
  case Nil
  then show ?case by simp
next
  case (Cons c cs)
  obtain out ev jb1 where s: "jb_step c jb = Some (out, ev, jb1)" and w: "jb_wf cap jb1"
    and h: "\<forall>m. held (jb_framel jb1) m = held (jb_framel jb) m + ref_balance ev m
      - handed (case out of None \<Rightarrow> [] | Some p \<Rightarrow> [p]) m"
    by (rule jb_step_total [OF Cons.prems])
  with Cons.IH [OF w] show ?case by (auto simp: algebra_simps split: option.splits)
qed




definition waiting :: "u16 \<Rightarrow> u32 \<Rightarrow> 'm jbuf \<Rightarrow> bool" where
  "waiting b ssrc jb \<longleftrightarrow> jb_seq_get jb = 0 \<and> (jb_ssrc jb = 0 \<or> jb_ssrc jb = ssrc) \<and>
     (\<forall>f \<in> set (jb_framel jb). after b (f_seq f) \<and> f_seq f \<noteq> 0) \<and>
     (jb_framel jb \<noteq> [] \<longrightarrow> jb_running jb \<and> jb_ssrc jb = ssrc)"



lemma waiting_config [simp]:
  "waiting b ssrc (jbuf_set_type jb ty) = waiting b ssrc jb" "waiting b ssrc (jbuf_set_wish jb w) = waiting b ssrc jb"
  by (simp_all add: waiting_def jbuf_set_type_def jbuf_set_wish_def Let_def)



subsection \<open>Starvation\<close>








section \<open>What the jitter buffer guarantees\<close>

lemma jbuf_alloc_wf:
  "jbuf_alloc ok le mem_ok mn mx = (e, Some jb) \<Longrightarrow> 0 < mx \<Longrightarrow>
   e = 0 \<and> jb_wf (unat mx) jb \<and> jb_framel jb = []"
  using unsigned_less [where 'a = nat and w = mx]
  by (auto simp: jbuf_alloc_def jb_wf_def frame_zero_def unat_gt_0 split: if_splits)

text \<open>
  C13: whatever sequence of packets arrives, and however \<open>jbuf_get\<close>, flushes and changes of
  type and wish are interleaved with it, a jitter buffer allocated with at least one frame never
  dereferences a NULL pointer, keeps its invariant (frame counts, order of the frames), and holds
  exactly the packet references it has taken: destroying it gives back every reference except those
  handed to the caller.
\<close>

theorem jbuf_safe_no_leak:
  assumes "jbuf_alloc jb_ok lock_err mem_ok mn mx = (e, Some jb)" "0 < mx"
  shows "\<exists>outs evs jb'. jb_run cs jb = Some (outs, evs, jb') \<and> jb_wf (unat mx) jb' \<and>
    (\<forall>m. ref_balance (evs @ fst (jbuf_destructor jb')) m = handed outs m)"
proof -
  note a = jbuf_alloc_wf [OF assms]
  obtain outs evs jb' where r: "jb_run cs jb = Some (outs, evs, jb')" "jb_wf (unat mx) jb'"
    "\<forall>m. held (jb_framel jb') m + handed outs m = held (jb_framel jb) m + ref_balance evs m"
    using jb_run_total_aux [of "unat mx" jb cs] a by blast
  obtain ev jb'' where "jbuf_flush jb' = (ev, jb'')" by fastforce
  then have "fst (jbuf_destructor jb') = ev" "\<forall>m. held (jb_framel jb') m + ref_balance ev m = 0"
    using jbuf_flush_spec [OF r(2)] by (simp_all add: jbuf_destructor_def)
  moreover have "ref_balance (evs @ ev) m = handed outs m" for m
    using calculation(2) r(3) [rule_format, of m] a by (simp add: eq_neg_iff_add_eq_0 [symmetric])
  ultimately show ?thesis using r(1,2) by simp
qed

definition pkt :: "u16 \<Rightarrow> rtp_header" where
  "pkt sq = rtp_header_zero\<lparr>h_seq := sq, h_ssrc := 7\<rparr>"

definition jb_example :: "nat jbuf" where
  "jb_example = the (snd (jbuf_alloc True 0 (\<lambda>_. True) 0 2))"

lemma jb_example_alloc: "jbuf_alloc True 0 (\<lambda>_. True) 0 2 = (0, Some jb_example)"
  by (simp add: jb_example_def jbuf_alloc_def seq_less_def list_all_iff)

lemma jbuf_safe_no_leak_witness:
  "\<exists>outs evs jb'. jb_run [JbPut 0 (pkt 5) (Some 1), JbPut 0 (pkt 4) (Some 2), JbGet] jb_example = Some (outs, evs, jb') \<and>
    jb_wf (unat (2 :: u32)) jb' \<and> (\<forall>m. ref_balance (evs @ fst (jbuf_destructor jb')) m = handed outs m)"
  by (rule jbuf_safe_no_leak [OF jb_example_alloc]) simp



definition jb_playing :: "nat jbuf" where
  "jb_playing = jb_example\<lparr>jb_running := True, jb_seq_get := 65534, jb_ssrc := 7\<rparr>"

text \<open>
  Number 0 is also the mark for "nothing played yet": after the frame numbered 0 has been
  handed out, the check for late packets is off, and a packet of the same source is never refused
  as late, whatever its number.
\<close>

theorem jbuf_zero_disables_late_check:
  assumes "jb_wf cap jb" "jbuf_get jb = Some (e, Some (h, m), ev, jb')" "h_seq h = 0"
  shows "\<exists>e' ev' jb''. jbuf_put now jb' hdr mem = Some (e', ev', jb'') \<and> e' \<noteq> ETIMEDOUT"
proof -
  have wf: "jb_wf cap jb'" and z: "jb_seq_get jb' = 0"
    using assms(2,3) by (cases rule: jbuf_get_spec [OF assms(1), case_names none some]; auto simp: f_seq_def)+
  obtain ev0 jb0 where f: "(if jb_ssrc jb' \<noteq> 0 \<and> jb_ssrc jb' \<noteq> h_ssrc hdr then jbuf_flush jb' else ([], jb')) = (ev0, jb0)"
    by fastforce
  have "jb_wf cap jb0 \<and> jb_seq_get jb0 = 0"
    using jbuf_flush_spec [OF wf, of ev0 jb0] f wf z by (auto split: if_splits)
  then have w: "jb_wf cap (jb0\<lparr>jb_ssrc := h_ssrc hdr\<rparr>)" and z0: "jb_seq_get jb0 = 0"
    by (simp_all add: jb_wf_def)
  show ?thesis
    by (cases rule: put_frame_spec [OF w, of now hdr mem, case_names dup ok]) (auto simp: jbuf_put_def f z0)
qed

definition jb_zero :: "nat jbuf" where
  "jb_zero = jb_playing\<lparr>jb_framel := [\<lparr>f_hdr = pkt 0, f_mem = Some 3\<rparr>],
     jb_pooll := [frame_zero], jb_n := 1\<rparr>"

lemma jbuf_zero_disables_late_check_witness:
  "\<exists>jb' e' ev' jb''. jbuf_get jb_zero = Some (0, Some (pkt 0, Some 3), [MemRef 3, MemDeref 3], jb') \<and>
    jbuf_put 0 jb' (pkt 65534) (Some 4) = Some (e', ev', jb'') \<and> e' \<noteq> ETIMEDOUT"
proof -
  have wf: "jb_wf 2 jb_zero"
    by (simp add: jb_zero_def jb_wf_def frame_zero_def seq_sorted_def jb_playing_def jb_example_def
        jbuf_alloc_def seq_less_def list_all_iff)
  obtain jb' where g: "jbuf_get jb_zero = Some (0, Some (pkt 0, Some 3), [MemRef 3, MemDeref 3], jb')"
    by (simp add: jbuf_get_def get_ready_def jb_zero_def jb_playing_def jb_example_def jbuf_alloc_def
        seq_less_def list_all_iff frame_deref_def stat_inc_def f_seq_def pkt_def rtp_header_zero_def
        ev_ref_def ev_deref_def Let_def)
  show ?thesis
    using jbuf_zero_disables_late_check [OF wf g, of 0 "pkt 65534" "Some 4"] g
    by (auto simp: pkt_def rtp_header_zero_def)
qed




end
