(* ===== verification/Ctrans.thy ===== *)
theory Ctrans
  imports Tmr
begin

section \<open>SIP client transactions (re/src/sip/ctrans.c)\<close>

text \<open>
  A handler of the transaction takes the transaction's record and returns the effects it has, in the
  order of the code, with the new record, or \<open>None\<close> once \<open>mem_deref(ct)\<close> has run the destructor
  (the hash table holds the only reference). What the transaction calls is a parameter:
  \<open>send_err\<close> is the value \<open>sip_transp_send\<close> returns and \<open>ack_ok\<close> says whether
  \<open>request_copy\<close> could build the ACK. Timers are the service of theory \<open>Tmr\<close>: \<open>tmr\<close> and
  \<open>tmre\<close> are the transaction's two timers.
\<close>

definition SIP_T1 :: u64 where "SIP_T1 = 500"
definition SIP_T2 :: u64 where "SIP_T2 = 4000"
definition SIP_T4 :: u64 where "SIP_T4 = 5000"
definition COMPLETE_WAIT :: u64 where "COMPLETE_WAIT = 32000"

datatype sip_transp = SIP_TRANSP_UDP | SIP_TRANSP_TCP | SIP_TRANSP_TLS | SIP_TRANSP_WS | SIP_TRANSP_WSS
  | SIP_TRANSP_OTHER

fun sip_transp_reliable :: "sip_transp \<Rightarrow> bool" where
  "sip_transp_reliable SIP_TRANSP_UDP = False"
| "sip_transp_reliable SIP_TRANSP_TCP = True"
| "sip_transp_reliable SIP_TRANSP_TLS = True"
| "sip_transp_reliable SIP_TRANSP_WS = True"
| "sip_transp_reliable SIP_TRANSP_WSS = True"
| "sip_transp_reliable SIP_TRANSP_OTHER = False"

datatype cstate = C_TRYING | C_CALLING | C_PROCEEDING | C_COMPLETED

record ctrans =
  ct_met :: string
  ct_branch :: string
  ct_tp :: sip_transp
  ct_state :: cstate
  ct_txc :: nat
  ct_invite :: bool
  ct_ack :: bool

datatype ctimer = CT_tmr | CT_tmre
datatype chandler = CH_tmr | CH_retransmit

text \<open>
  Effects: the request on the wire, the ACK (\<open>False\<close> when there is none to send, as
  \<open>sip_send\<close> then returns an error that the code ignores), a call of the response handler with an
  error code and the status of the response, a timer command, and the end of the transaction.
\<close>

datatype ceff = C_Send | C_Ack bool | C_Resp err "nat option" | C_Timer "(ctimer, chandler) timer_cmd" | C_Free

type_synonym cresult = "ceff list \<times> ctrans option"

definition ct_destructor :: "ceff list" where
  "ct_destructor = [C_Timer (TmrCancel CT_tmr), C_Timer (TmrCancel CT_tmre), C_Free]"

definition ct_deref :: "ceff list \<Rightarrow> cresult" where
  "ct_deref es = (es @ ct_destructor, None)"

definition ct_terminate :: "ctrans \<Rightarrow> err \<Rightarrow> ceff list" where
  "ct_terminate ct e =
     (case ct_state ct of
        C_TRYING \<Rightarrow> [C_Resp e None]
      | C_CALLING \<Rightarrow> [C_Resp e None]
      | C_PROCEEDING \<Rightarrow> [C_Resp e None]
      | C_COMPLETED \<Rightarrow> [])"

definition ct_transport_handler :: "err \<Rightarrow> ctrans \<Rightarrow> cresult" where
  "ct_transport_handler e ct = ct_deref (ct_terminate ct e)"

definition ct_tmr_handler :: "ctrans \<Rightarrow> cresult" where
  "ct_tmr_handler ct = ct_deref (ct_terminate ct ETIMEDOUT)"

text \<open>
  \<open>SIP_T1 << txc\<close> is computed at \<open>int\<close>: it is undefined for a shift of 32 or a result that
  does not fit, hence \<open>None\<close>.
\<close>

definition t1_shift :: "nat \<Rightarrow> u64 option" where
  "t1_shift k = (if k < 32 \<and> 500 * 2 ^ k < (2 ^ 31 :: nat) then Some (of_nat (500 * 2 ^ k)) else None)"

definition ct_retransmit_handler :: "err \<Rightarrow> ctrans \<Rightarrow> cresult option" where
  "ct_retransmit_handler send_err ct =
     (let ct = ct\<lparr>ct_txc := (ct_txc ct + 1) mod 2 ^ 32\<rparr>;
          resend = (\<lambda>timeout.
            let es = [C_Timer (TmrStart CT_tmre timeout CH_retransmit), C_Send]
            in if send_err \<noteq> 0 then ct_deref (es @ ct_terminate ct send_err) else (es, Some ct))
      in case ct_state ct of
           C_TRYING \<Rightarrow> map_option (\<lambda>t. resend (min t SIP_T2)) (t1_shift (ct_txc ct))
         | C_CALLING \<Rightarrow> map_option resend (t1_shift (ct_txc ct))
         | C_PROCEEDING \<Rightarrow> Some (resend SIP_T2)
         | C_COMPLETED \<Rightarrow> Some ([], Some ct))"

definition invite_response :: "bool \<Rightarrow> nat \<Rightarrow> ctrans \<Rightarrow> cresult" where
  "invite_response ack_ok scode ct =
     (let proceed = (\<lambda>es.
        if scode < 200 then (es @ [C_Resp 0 (Some scode)], Some (ct\<lparr>ct_state := C_PROCEEDING\<rparr>))
        else if scode < 300 then ct_deref (es @ [C_Resp 0 (Some scode)])
        else
          let ct = ct\<lparr>ct_state := C_COMPLETED, ct_ack := ack_ok\<rparr>;
              es = es @ [C_Ack ack_ok, C_Resp 0 (Some scode)]
          in if sip_transp_reliable (ct_tp ct) then ct_deref es
             else (es @ [C_Timer (TmrStart CT_tmr COMPLETE_WAIT CH_tmr)], Some ct))
      in case ct_state ct of
           C_CALLING \<Rightarrow> proceed [C_Timer (TmrCancel CT_tmr), C_Timer (TmrCancel CT_tmre)]
         | C_PROCEEDING \<Rightarrow> proceed []
         | C_COMPLETED \<Rightarrow> (if scode < 300 then [] else [C_Ack (ct_ack ct)], Some ct)
         | C_TRYING \<Rightarrow> ([], Some ct))"

definition ct_response :: "bool \<Rightarrow> nat \<Rightarrow> ctrans \<Rightarrow> cresult" where
  "ct_response ack_ok scode ct =
     (if ct_invite ct then invite_response ack_ok scode ct
      else if ct_state ct = C_TRYING \<or> ct_state ct = C_PROCEEDING then
        (if scode < 200 then ([C_Resp 0 (Some scode)], Some (ct\<lparr>ct_state := C_PROCEEDING\<rparr>))
         else if sip_transp_reliable (ct_tp ct) then ct_deref [C_Resp 0 (Some scode)]
         else ([C_Resp 0 (Some scode), C_Timer (TmrStart CT_tmr SIP_T4 CH_tmr),
                C_Timer (TmrCancel CT_tmre)], Some (ct\<lparr>ct_state := C_COMPLETED\<rparr>)))
      else ([], Some ct))"

definition ct_request :: "err \<Rightarrow> sip_transp \<Rightarrow> string \<Rightarrow> string \<Rightarrow> err \<times> cresult" where
  "ct_request send_err tp met branch =
     (let inv = (met = ''INVITE'');
          ct = \<lparr>ct_met = met, ct_branch = branch, ct_tp = tp,
                ct_state = (if inv then C_CALLING else C_TRYING), ct_txc = 0, ct_invite = inv,
                ct_ack = False\<rparr>
      in if send_err \<noteq> 0 then (send_err, ct_deref [C_Send])
         else (0, C_Send # C_Timer (TmrStart CT_tmr (64 * SIP_T1) CH_tmr)
                  # (if sip_transp_reliable tp then []
                     else [C_Timer (TmrStart CT_tmre SIP_T1 CH_retransmit)]), Some ct))"

text \<open>
  The part of \<open>sip_ctrans_cancel\<close> that concerns the cancelled transaction: \<open>Inl\<close> the error
  returned at once, \<open>Inr\<close> the timer command after which the CANCEL request is built and sent.
\<close>

definition ct_cancel_start :: "ctrans \<Rightarrow> err + ceff list" where
  "ct_cancel_start ct =
     (if \<not> ct_invite ct then Inl 0
      else if ct_state ct = C_PROCEEDING then Inr [C_Timer (TmrStart CT_tmr (64 * SIP_T1) CH_tmr)]
      else Inl EPROTO)"

subsection \<open>The transaction layer\<close>

text \<open>
  The hash table \<open>ht_ctrans\<close> is the list of its transactions in the order of insertion; a lookup
  takes the first one of the bucket that \<open>cmp_handler\<close> accepts, and as \<open>cmp_handler\<close> compares
  the hashed branch, the buckets do not show. Each transaction has an identity, its address.
\<close>

type_synonym ctl = "(nat \<times> ctrans) list"

definition ct_cmp_handler :: "string \<Rightarrow> string \<Rightarrow> nat \<times> ctrans \<Rightarrow> bool" where
  "ct_cmp_handler branch met e \<longleftrightarrow> ct_branch (snd e) = branch \<and> ct_met (snd e) = met"

definition ctl_update :: "nat \<Rightarrow> ctrans option \<Rightarrow> ctl \<Rightarrow> ctl" where
  "ctl_update i r L = (case r of None \<Rightarrow> filter (\<lambda>e. fst e \<noteq> i) L
     | Some ct \<Rightarrow> map (\<lambda>e. if fst e = i then (i, ct) else e) L)"

definition response_handler ::
  "bool \<Rightarrow> string \<Rightarrow> string \<Rightarrow> nat \<Rightarrow> ctl \<Rightarrow> bool \<times> (nat \<times> ceff list) list \<times> ctl" where
  "response_handler ack_ok branch met scode L =
     (case List.find (ct_cmp_handler branch met) L of
        None \<Rightarrow> (False, [], L)
      | Some (i, ct) \<Rightarrow>
          let (es, r) = ct_response ack_ok scode ct in (True, [(i, es)], ctl_update i r L))"

definition sip_ctrans_request ::
  "bool \<Rightarrow> err \<Rightarrow> nat \<Rightarrow> sip_transp \<Rightarrow> string \<Rightarrow> string \<Rightarrow> ctl \<Rightarrow> err \<times> (nat \<times> ceff list) list \<times> ctl" where
  "sip_ctrans_request mem_ok send_err i tp met branch L =
     (if \<not> mem_ok then (ENOMEM, [], L)
      else let (e, es, r) = ct_request send_err tp met branch
           in (e, [(i, es)], case r of None \<Rightarrow> L | Some ct \<Rightarrow> L @ [(i, ct)]))"

text \<open>
  \<open>copy_err\<close> is the error of \<open>str_dup\<close> or \<open>request_copy\<close>. The CANCEL is sent by a new
  transaction \<open>j\<close> with the branch of the cancelled one.
\<close>

definition sip_ctrans_cancel ::
  "err \<Rightarrow> bool \<Rightarrow> err \<Rightarrow> nat \<Rightarrow> nat \<times> ctrans \<Rightarrow> ctl \<Rightarrow> err \<times> (nat \<times> ceff list) list \<times> ctl" where
  "sip_ctrans_cancel copy_err mem_ok send_err j e L =
     (case ct_cancel_start (snd e) of
        Inl err \<Rightarrow> (err, [], L)
      | Inr es \<Rightarrow>
          if copy_err \<noteq> 0 then (copy_err, [(fst e, es)], L)
          else let (err, es', L') = sip_ctrans_request mem_ok send_err j (ct_tp (snd e)) ''CANCEL''
                     (ct_branch (snd e)) L
               in (err, (fst e, es) # es', L'))"

section \<open>One transaction against time and the network\<close>

text \<open>
  A transaction together with its timers (the deadline map that theory \<open>Tmr\<close> proves of the timer
  list), the clock and the log of its effects. Time passes; responses, transport errors and
  cancellations come at any moment; a due timer fires if no other has an earlier deadline, as
  \<open>tmr_poll\<close> does.
\<close>

record cmach =
  cm_ct :: "ctrans option"
  cm_tm :: "ctimer \<rightharpoonup> u64 \<times> chandler"
  cm_now :: u64
  cm_log :: "ceff list"

fun ct_cmds :: "ceff list \<Rightarrow> (ctimer, chandler) timer_cmd list" where
  "ct_cmds [] = []"
| "ct_cmds (C_Timer c # es) = c # ct_cmds es"
| "ct_cmds (_ # es) = ct_cmds es"

definition cm_apply :: "cresult \<Rightarrow> cmach \<Rightarrow> cmach" where
  "cm_apply r m = m\<lparr>cm_ct := snd r, cm_tm := fold (map_cmd (cm_now m)) (ct_cmds (fst r)) (cm_tm m),
     cm_log := cm_log m @ fst r\<rparr>"

definition cm_start :: "u64 \<Rightarrow> sip_transp \<Rightarrow> string \<Rightarrow> string \<Rightarrow> cmach" where
  "cm_start now tp met branch = cm_apply (snd (ct_request 0 tp met branch))
     \<lparr>cm_ct = None, cm_tm = Map.empty, cm_now = now, cm_log = []\<rparr>"

definition ct_fired :: "chandler \<Rightarrow> err \<Rightarrow> ctrans \<Rightarrow> cresult option" where
  "ct_fired h send_err ct = (case h of CH_tmr \<Rightarrow> Some (ct_tmr_handler ct)
     | CH_retransmit \<Rightarrow> ct_retransmit_handler send_err ct)"

definition ct_due :: "cmach \<Rightarrow> ctimer \<Rightarrow> chandler \<Rightarrow> bool" where
  "ct_due m t h \<longleftrightarrow> (\<exists>d. cm_tm m t = Some (d, h) \<and> d \<le> cm_now m \<and>
     (\<forall>t' d' h'. cm_tm m t' = Some (d', h') \<longrightarrow> d \<le> d'))"

inductive ctrans_step :: "cmach \<Rightarrow> cmach \<Rightarrow> bool" where
  tick: "cm_now m \<le> now' \<Longrightarrow> unat now' < 2 ^ 63 \<Longrightarrow> ctrans_step m (m\<lparr>cm_now := now'\<rparr>)"
| response: "cm_ct m = Some ct \<Longrightarrow> ctrans_step m (cm_apply (ct_response ack_ok scode ct) m)"
| transport: "cm_ct m = Some ct \<Longrightarrow> e \<noteq> 0 \<Longrightarrow> ctrans_step m (cm_apply (ct_transport_handler e ct) m)"
| cancel: "cm_ct m = Some ct \<Longrightarrow> ct_cancel_start ct = Inr es \<Longrightarrow> ctrans_step m (cm_apply (es, Some ct) m)"
| fire: "ct_due m t h \<Longrightarrow> cm_ct m = Some ct \<Longrightarrow> ct_fired h send_err ct = Some r \<Longrightarrow>
    ctrans_step m (cm_apply r (m\<lparr>cm_tm := (cm_tm m)(t := None)\<rparr>))"

inductive_cases ctrans_stepE: "ctrans_step m m'"

fun is_final :: "ceff \<Rightarrow> bool" where
  "is_final (C_Resp e sc) \<longleftrightarrow> e \<noteq> 0 \<or> (case sc of None \<Rightarrow> False | Some c \<Rightarrow> 200 \<le> c)"
| "is_final _ \<longleftrightarrow> False"

definition finals :: "ceff list \<Rightarrow> nat" where
  "finals es = length (filter is_final es)"

definition sends :: "ceff list \<Rightarrow> nat" where
  "sends es = length (filter (\<lambda>e. e = C_Send) es)"

lemma log_counts [simp]:
  "finals [] = 0" "finals (e # es) = of_bool (is_final e) + finals es" "finals (es @ es') = finals es + finals es'"
  "sends [] = 0" "sends (e # es) = of_bool (e = C_Send) + sends es" "sends (es @ es') = sends es + sends es'"
  by (simp_all add: finals_def sends_def)

lemma ct_cmds_append [simp]: "ct_cmds (es @ es') = ct_cmds es @ ct_cmds es'"
  by (induction es rule: ct_cmds.induct) simp_all

lemma cm_apply_simps [simp]:
  "cm_ct (cm_apply r m) = snd r" "cm_now (cm_apply r m) = cm_now m"
  "cm_log (cm_apply r m) = cm_log m @ fst r"
  "cm_tm (cm_apply r m) = fold (map_cmd (cm_now m)) (ct_cmds (fst r)) (cm_tm m)"
  by (simp_all add: cm_apply_def)

text \<open>
  The earliest time, after the first transmission, of the \<open>k\<close>-th retransmission: the intervals
  double, and for requests other than INVITE are capped at \<open>SIP_T2\<close>.
\<close>

definition backoff :: "bool \<Rightarrow> nat \<Rightarrow> nat" where
  "backoff invite k = (if invite \<or> k \<le> 3 then 500 * (2 ^ k - 1) else 3500 + 4000 * (k - 3))"

definition max_txc :: "bool \<Rightarrow> nat" where
  "max_txc invite = (if invite then 6 else 10)"

text \<open>The retransmission timer: armed only over unreliable transports, never early.\<close>

definition tmre_ok :: "nat \<Rightarrow> ctrans \<Rightarrow> (ctimer \<rightharpoonup> u64 \<times> chandler) \<Rightarrow> bool" where
  "tmre_ok s ct tm \<longleftrightarrow> (if sip_transp_reliable (ct_tp ct) then tm CT_tmre = None
     else \<exists>e. tm CT_tmre = Some (e, CH_retransmit) \<and> s + backoff (ct_invite ct) (Suc (ct_txc ct)) \<le> unat e)"

definition ct_inv :: "nat \<Rightarrow> cmach \<Rightarrow> ctrans \<Rightarrow> bool" where
  "ct_inv s m ct \<longleftrightarrow> (case ct_state ct of
     C_COMPLETED \<Rightarrow> finals (cm_log m) = 1 \<and> \<not> sip_transp_reliable (ct_tp ct) \<and>
       (\<exists>d. cm_tm m CT_tmr = Some (d, CH_tmr)) \<and> cm_tm m CT_tmre = None
   | C_PROCEEDING \<Rightarrow> finals (cm_log m) = 0 \<and>
       (if ct_invite ct then cm_tm m CT_tmre = None \<and> (\<forall>d h. cm_tm m CT_tmr = Some (d, h) \<longrightarrow> h = CH_tmr)
        else cm_tm m CT_tmr = Some (of_nat (s + 32000), CH_tmr) \<and> tmre_ok s ct (cm_tm m))
   | _ \<Rightarrow> finals (cm_log m) = 0 \<and> ct_invite ct = (ct_state ct = C_CALLING) \<and>
       cm_tm m CT_tmr = Some (of_nat (s + 32000), CH_tmr) \<and> tmre_ok s ct (cm_tm m))"

lemma deadline_sum: "unat (a :: u64) \<le> 32000 \<Longrightarrow> unat b < 2 ^ 63 \<Longrightarrow> unat (a + b) = unat a + unat b"
  by (subst unat_plus_simple [THEN iffD1]) (simp_all add: unat_plus_simple [symmetric] word_le_nat_alt unat_word_ariths)

text \<open>Deadlines are at most 32 s away.\<close>

definition cmds_bounded :: "('t, 'h) timer_cmd list \<Rightarrow> bool" where
  "cmds_bounded cs \<longleftrightarrow> list_all (\<lambda>c. case c of TmrStart t d h \<Rightarrow> unat d \<le> 32000 | TmrCancel t \<Rightarrow> True) cs"

definition deadlines_near :: "u64 \<Rightarrow> ('t \<rightharpoonup> u64 \<times> 'h) \<Rightarrow> bool" where
  "deadlines_near now m \<longleftrightarrow> (\<forall>t d h. m t = Some (d, h) \<longrightarrow> unat d \<le> unat now + 32000)"

lemma cmds_bounded_simps [simp]:
  "cmds_bounded []" "cmds_bounded (TmrStart t d h # cs) \<longleftrightarrow> unat d \<le> 32000 \<and> cmds_bounded cs"
  "cmds_bounded (TmrCancel t # cs) \<longleftrightarrow> cmds_bounded cs"
  "cmds_bounded (cs @ cs') \<longleftrightarrow> cmds_bounded cs \<and> cmds_bounded cs'"
  by (simp_all add: cmds_bounded_def)

lemma deadlines_near_fold:
  "cmds_bounded cs \<Longrightarrow> deadlines_near now m \<Longrightarrow> unat now < 2 ^ 63 \<Longrightarrow> deadlines_near now (fold (map_cmd now) cs m)"
proof (induction cs arbitrary: m)
  case Nil
  then show ?case by simp
next
  case (Cons c cs)
  have "deadlines_near now (map_cmd now c m)"
    using Cons.prems by (cases c) (auto simp: deadlines_near_def deadline_sum split: if_splits)
  with Cons show ?case by (cases c) auto
qed

lemma deadlines_near_upd: "deadlines_near now m \<Longrightarrow> deadlines_near now (m(t := None))"
  by (auto simp: deadlines_near_def)

lemma deadlines_near_mono: "deadlines_near now m \<Longrightarrow> now \<le> now' \<Longrightarrow> deadlines_near now' m"
  by (fastforce simp: deadlines_near_def word_le_nat_alt)

definition cm_inv :: "nat \<Rightarrow> cmach \<Rightarrow> bool" where
  "cm_inv s m \<longleftrightarrow> s < 2 ^ 63 \<and> unat (cm_now m) < 2 ^ 63 \<and> deadlines_near (cm_now m) (cm_tm m) \<and>
     (case cm_ct m of
        None \<Rightarrow> cm_tm m = Map.empty \<and> finals (cm_log m) = 1 \<and> sends (cm_log m) \<le> 11
      | Some ct \<Rightarrow> ct_inv s m ct \<and> sends (cm_log m) = Suc (ct_txc ct) \<and> ct_txc ct \<le> max_txc (ct_invite ct))"

lemma timer_all: "(\<forall>t. P t) \<longleftrightarrow> P CT_tmr \<and> P CT_tmre"
  by (metis ctimer.exhaust)

lemma ctimer_map_empty: "m CT_tmr = None \<Longrightarrow> m CT_tmre = None \<Longrightarrow> m = Map.empty"
  by (rule ext) (metis ctimer.exhaust)

lemma ct_deref_inv:
  assumes "s < 2 ^ 63" "unat (cm_now m) < 2 ^ 63" "finals (cm_log m @ es) = 1" "sends (cm_log m @ es) \<le> 11"
    "cmds_bounded (ct_cmds es)"
  shows "cm_inv s (cm_apply (ct_deref es) m)"
proof -
  have "fold (map_cmd (cm_now m)) (ct_cmds (es @ ct_destructor)) (cm_tm m) = Map.empty"
    by (rule ctimer_map_empty) (simp_all add: ct_destructor_def)
  then show ?thesis
    using assms by (simp add: cm_inv_def ct_deref_def deadlines_near_def ct_destructor_def)
qed

lemma max_txc_le: "max_txc i \<le> 10"
  by (simp add: max_txc_def)

lemma cm_start_inv:
  assumes "unat now < 2 ^ 63"
  shows "cm_inv (unat now) (cm_start now tp met branch)"
proof -
  have near: "deadlines_near now (fold (map_cmd now) cs Map.empty)" if "cmds_bounded cs" for cs :: "(ctimer, chandler) timer_cmd list"
    by (rule deadlines_near_fold [OF that _ assms]) (simp add: deadlines_near_def)
  have u: "of_nat (unat now + 32000) = 32000 + now" by simp
  have t: "unat (500 + now) = 500 + unat now" using assms by (intro deadline_sum [THEN trans]) simp_all
  show ?thesis
    using near [of "ct_cmds (fst (snd (ct_request 0 tp met branch)))"] assms
    by (cases "met = ''INVITE''"; cases "sip_transp_reliable tp")
      (simp_all add: cm_inv_def cm_start_def ct_request_def ct_inv_def tmre_ok_def backoff_def SIP_T1_def
        max_txc_def u t Let_def)
qed

lemma ct_response_inv:
  assumes inv: "cm_inv s m" and ct: "cm_ct m = Some ct"
  shows "cm_inv s (cm_apply (ct_response ack_ok scode ct) m)"
proof -
  have i: "ct_inv s m ct" "sends (cm_log m) = Suc (ct_txc ct)" "ct_txc ct \<le> max_txc (ct_invite ct)"
    "deadlines_near (cm_now m) (cm_tm m)" "unat (cm_now m) < 2 ^ 63" "s < 2 ^ 63"
    using inv ct by (simp_all add: cm_inv_def)
  have sb: "sends (cm_log m) \<le> 11" using i(2,3) max_txc_le [of "ct_invite ct"] by simp
  have near: "deadlines_near (cm_now m) (fold (map_cmd (cm_now m)) (ct_cmds (fst (ct_response ack_ok scode ct))) (cm_tm m))"
    by (rule deadlines_near_fold [OF _ i(4,5)])
      (auto simp: ct_response_def invite_response_def ct_deref_def ct_destructor_def SIP_T4_def
        COMPLETE_WAIT_def Let_def split: cstate.splits)
  show ?thesis
    using i near sb inv
    by (cases "ct_invite ct"; cases "ct_state ct"; cases "scode < 200"; cases "scode < 300"; cases "sip_transp_reliable (ct_tp ct)")
      (simp_all add: cm_inv_def ct_response_def invite_response_def ct_deref_def ct_destructor_def ct_inv_def
        tmre_ok_def Let_def ct ctimer_map_empty)
qed

text \<open>The intervals of the retransmission timer add up to the backoff schedule.\<close>

lemma backoff_limit: "backoff i k \<le> 32000 \<Longrightarrow> k \<le> max_txc i"
proof (rule ccontr)
  assume b: "backoff i k \<le> 32000" and "\<not> k \<le> max_txc i"
  then have k: "Suc (max_txc i) \<le> k" by simp
  have "(2 :: nat) ^ Suc (max_txc i) \<le> 2 ^ k" using k by (intro power_increasing) auto
  with b k show False by (auto simp: backoff_def max_txc_def split: if_splits)
qed

lemma backoff_double: "backoff True (Suc k) = 500 * 2 ^ k + backoff True k"
  by (simp add: backoff_def diff_mult_distrib2 one_le_power)

lemma backoff_capped: "backoff False (Suc k) \<le> min (500 * 2 ^ k) 4000 + backoff False k"
proof (cases "k \<le> 3")
  case True
  then have "k \<in> {0, 1, 2, 3}" by auto
  then show ?thesis by (auto simp: backoff_def)
next
  case False
  then have "(2 :: nat) ^ 3 \<le> 2 ^ k" by (intro power_increasing) auto
  with False show ?thesis by (simp add: backoff_def)
qed

lemma unat_of_nat_small: "n < 2 ^ 64 \<Longrightarrow> unat (of_nat n :: u64) = n"
  by (simp add: unat_of_nat take_bit_nat_eq_self_iff)

lemma t1_shift_small: "k \<le> 10 \<Longrightarrow> t1_shift k = Some (of_nat (500 * 2 ^ k)) \<and> unat (of_nat (500 * 2 ^ k) :: u64) = 500 * 2 ^ k"
proof -
  assume k: "k \<le> 10"
  then have "(2 :: nat) ^ k \<le> 2 ^ 10" by (intro power_increasing) auto
  then have "500 * 2 ^ k \<le> (512000 :: nat)" by simp
  then show ?thesis using k unat_of_nat_small [of "500 * 2 ^ k"] unfolding t1_shift_def by simp
qed

lemma ct_terminate_finals:
  "e \<noteq> 0 \<Longrightarrow> finals (ct_terminate ct e) = of_bool (ct_state ct \<noteq> C_COMPLETED)"
  "sends (ct_terminate ct e) = 0" "ct_cmds (ct_terminate ct e) = []"
  by (simp_all add: ct_terminate_def split: cstate.splits)

lemma ct_inv_finals: "ct_inv s m ct \<Longrightarrow> finals (cm_log m) = of_bool (ct_state ct = C_COMPLETED)"
  by (simp add: ct_inv_def split: cstate.splits)

lemma ct_terminate_inv:
  assumes "cm_inv s m" "cm_ct m = Some ct" "e \<noteq> 0" "cm_now m' = cm_now m" "cm_log m' = cm_log m"
    "sends es + ct_txc ct \<le> 10" "finals es = 0" "cmds_bounded (ct_cmds es)"
  shows "cm_inv s (cm_apply (ct_deref (es @ ct_terminate ct e)) m')"
  by (rule ct_deref_inv)
    (use assms ct_inv_finals [of s m ct] in \<open>auto simp: cm_inv_def ct_terminate_finals\<close>)

text \<open>The retransmission timer of a transaction that is due.\<close>

lemma ct_retransmit_inv:
  assumes inv: "cm_inv s m" and ct: "cm_ct m = Some ct" and due: "ct_due m t CH_retransmit"
  shows "\<exists>r. ct_retransmit_handler send_err ct = Some r \<and> cm_inv s (cm_apply r (m\<lparr>cm_tm := (cm_tm m)(t := None)\<rparr>))"
proof -
  have i: "ct_inv s m ct" "sends (cm_log m) = Suc (ct_txc ct)" "ct_txc ct \<le> max_txc (ct_invite ct)"
    "deadlines_near (cm_now m) (cm_tm m)" "unat (cm_now m) < 2 ^ 63" "s < 2 ^ 63"
    using inv ct by (simp_all add: cm_inv_def)
  from due obtain d where d: "cm_tm m t = Some (d, CH_retransmit)" "d \<le> cm_now m"
    "\<And>t' d' h'. cm_tm m t' = Some (d', h') \<Longrightarrow> d \<le> d'"
    by (auto simp: ct_due_def)
  have st: "ct_state ct \<noteq> C_COMPLETED" "ct_invite ct \<longrightarrow> ct_state ct = C_CALLING"
    "ct_state ct = C_CALLING \<longrightarrow> ct_invite ct"
    "t = CT_tmre" "cm_tm m CT_tmr = Some (of_nat (s + 32000), CH_tmr)" "\<not> sip_transp_reliable (ct_tp ct)"
    "s + backoff (ct_invite ct) (Suc (ct_txc ct)) \<le> unat d" "finals (cm_log m) = 0"
    using i(1) d(1) by (cases t; cases "ct_state ct"; auto simp: ct_inv_def tmre_ok_def split: if_splits)+
  have "unat (of_nat (s + 32000) :: u64) = s + 32000" using i(6) by (intro unat_of_nat_small) simp
  then have "unat d \<le> s + 32000" using d(3) [OF st(5)] by (simp add: word_le_nat_alt)
  then have k: "Suc (ct_txc ct) \<le> max_txc (ct_invite ct)" using st(7) by (intro backoff_limit) simp
  then have k10: "Suc (ct_txc ct) \<le> 10" using max_txc_le [of "ct_invite ct"] by simp
  note t1 = t1_shift_small [OF k10]
  have now: "s + backoff (ct_invite ct) (Suc (ct_txc ct)) \<le> unat (cm_now m)"
    using st(7) d(2) by (simp add: word_le_nat_alt)
  define dl where "dl = (case ct_state ct of C_TRYING \<Rightarrow> min (of_nat (500 * 2 ^ Suc (ct_txc ct))) SIP_T2
    | C_CALLING \<Rightarrow> of_nat (500 * 2 ^ Suc (ct_txc ct)) | _ \<Rightarrow> SIP_T2)"
  define ct' where "ct' = ct\<lparr>ct_txc := Suc (ct_txc ct)\<rparr>"
  let ?es = "[C_Timer (TmrStart CT_tmre dl CH_retransmit), C_Send]"
  have md: "Suc (ct_txc ct) mod 2 ^ 32 = Suc (ct_txc ct)" using k10 by simp
  have r: "ct_retransmit_handler send_err ct =
      Some (if send_err \<noteq> 0 then ct_deref (?es @ ct_terminate ct' send_err) else (?es, Some ct'))"
    using st(1) t1 md by (cases "ct_state ct") (simp_all add: ct_retransmit_handler_def dl_def ct'_def Let_def)
  have udl: "unat dl \<le> 32000 \<and> unat dl + backoff (ct_invite ct) (Suc (ct_txc ct)) \<ge> backoff (ct_invite ct) (Suc (Suc (ct_txc ct)))"
  proof (cases "ct_invite ct")
    case True
    then have "(2 :: nat) ^ Suc (ct_txc ct) \<le> 2 ^ 6" using k by (intro power_increasing) (simp_all add: max_txc_def)
    then show ?thesis using True st(2) t1 backoff_double [of "Suc (ct_txc ct)"] by (simp add: dl_def)
  next
    case False
    then have "unat dl = min (500 * 2 ^ Suc (ct_txc ct)) 4000 \<or> unat dl = 4000"
      using st(1,3) t1 by (cases "ct_state ct") (simp_all add: dl_def SIP_T2_def min_def word_le_nat_alt)
    then show ?thesis using backoff_capped [of "Suc (ct_txc ct)"] False by auto
  qed
  show ?thesis
  proof (cases "send_err = 0")
    case True
    let ?tm = "(cm_tm m)(t := None, CT_tmre \<mapsto> (dl + cm_now m, CH_retransmit))"
    have "tmre_ok s ct' ?tm"
      using udl now i(5) st(6) by (simp add: tmre_ok_def ct'_def deadline_sum)
    moreover have "?tm CT_tmr = Some (of_nat (s + 32000), CH_tmr)" using st(4,5) by simp
    ultimately have inv': "ct_inv s (cm_apply (?es, Some ct') (m\<lparr>cm_tm := (cm_tm m)(t := None)\<rparr>)) ct'"
      using st(1-3,8) i(1) by (cases "ct_state ct") (auto simp: ct_inv_def ct'_def)
    have "deadlines_near (cm_now m) (fold (map_cmd (cm_now m)) (ct_cmds ?es) ((cm_tm m)(t := None)))"
      using udl by (intro deadlines_near_fold deadlines_near_upd i(4,5)) simp
    then have "cm_inv s (cm_apply (?es, Some ct') (m\<lparr>cm_tm := (cm_tm m)(t := None)\<rparr>))"
      using inv' i k by (simp add: cm_inv_def ct'_def)
    then show ?thesis using r True by simp
  next
    case False
    have "cm_inv s (cm_apply (ct_deref (?es @ ct_terminate ct' send_err)) (m\<lparr>cm_tm := (cm_tm m)(t := None)\<rparr>))"
    proof (rule ct_deref_inv)
      show "finals (cm_log (m\<lparr>cm_tm := (cm_tm m)(t := None)\<rparr>) @ ?es @ ct_terminate ct' send_err) = 1"
        using st(1,8) False by (simp add: ct_terminate_finals ct'_def)
      show "sends (cm_log (m\<lparr>cm_tm := (cm_tm m)(t := None)\<rparr>) @ ?es @ ct_terminate ct' send_err) \<le> 11"
        using i(2) k10 by (simp add: ct_terminate_finals)
    qed (use i udl in \<open>simp_all add: ct_terminate_finals\<close>)
    then show ?thesis using r False by simp
  qed
qed

lemma ctrans_step_inv:
  assumes "ctrans_step m m'" "cm_inv s m"
  shows "cm_inv s m'"
  using assms
proof (induction rule: ctrans_step.induct)
  case (tick m now')
  then show ?case
    by (auto simp: cm_inv_def ct_inv_def intro: deadlines_near_mono split: option.splits cstate.splits)
next
  case (response m ct ack_ok scode)
  then show ?case by (simp add: ct_response_inv)
next
  case (transport m ct e)
  then show ?case
    using ct_terminate_inv [of s m ct e m "[]"] max_txc_le [of "ct_invite ct"]
    by (simp add: ct_transport_handler_def cm_inv_def)
next
  case (cancel m ct es)
  then have c: "ct_invite ct" "ct_state ct = C_PROCEEDING" "es = [C_Timer (TmrStart CT_tmr 32000 CH_tmr)]"
    by (auto simp: ct_cancel_start_def SIP_T1_def split: if_splits)
  have "deadlines_near (cm_now m) (fold (map_cmd (cm_now m)) (ct_cmds es) (cm_tm m))"
    using cancel c by (intro deadlines_near_fold) (simp_all add: cm_inv_def)
  then show ?case using cancel c by (simp add: cm_inv_def ct_inv_def)
next
  case (fire m t h ct send_err r)
  show ?case
  proof (cases h)
    case CH_tmr
    then show ?thesis
      using fire ct_terminate_inv [of s m ct ETIMEDOUT "m\<lparr>cm_tm := (cm_tm m)(t := None)\<rparr>" "[]"] max_txc_le [of "ct_invite ct"]
      by (simp add: ct_fired_def ct_tmr_handler_def cm_inv_def)
  next
    case CH_retransmit
    then show ?thesis using fire ct_retransmit_inv [of s m ct t send_err] by (simp add: ct_fired_def)
  qed
qed

lemma ctrans_reachable_inv:
  assumes "ctrans_step\<^sup>*\<^sup>* (cm_start now tp met branch) m" "unat now < 2 ^ 63"
  shows "cm_inv (unat now) m"
  using assms(1) by (induction rule: rtranclp_induct) (auto intro: cm_start_inv [OF assms(2)] ctrans_step_inv)

subsection \<open>The timers of the machine on the timer list\<close>

fun rename_cmd :: "('t \<Rightarrow> 'u) \<Rightarrow> ('t, 'h) timer_cmd \<Rightarrow> ('u, 'h) timer_cmd" where
  "rename_cmd a (TmrStart t d h) = TmrStart (a t) d h"
| "rename_cmd a (TmrCancel t) = TmrCancel (a t)"

lemma fold_rename_cmd:
  "inj a \<Longrightarrow> fold (map_cmd now) (map (rename_cmd a) cs) dl (a t) = fold (map_cmd now) cs (\<lambda>t. dl (a t)) t"
proof (induction cs arbitrary: dl)
  case Nil
  then show ?case by simp
next
  case (Cons c cs)
  have "(\<lambda>t. map_cmd now (rename_cmd a c) dl (a t)) = map_cmd now c (\<lambda>t. dl (a t))"
    using Cons.prems by (cases c) (auto simp: fun_eq_iff inj_eq)
  with Cons show ?case by simp
qed

section \<open>What the client transactions guarantee\<close>

text \<open>
  C29: one outcome per request. Whatever responses, transport errors, retransmissions and
  cancellations happen in whatever order, a client transaction reports a final result (a response of
  200 or above, or an error) at most once, has reported exactly one when it is destroyed, none while
  it waits, and leaves no timer armed behind it.
\<close>

theorem ctrans_reports_once:
  assumes "ctrans_step\<^sup>*\<^sup>* (cm_start now tp met branch) m" "unat now < 2 ^ 63"
  shows "case cm_ct m of None \<Rightarrow> finals (cm_log m) = 1 \<and> cm_tm m = Map.empty
    | Some ct \<Rightarrow> finals (cm_log m) = (if ct_state ct = C_COMPLETED then 1 else 0)"
  using ctrans_reachable_inv [OF assms]
  by (auto simp: cm_inv_def dest: ct_inv_finals split: option.splits)

text \<open>An INVITE over UDP that is retransmitted, rejected with 486, and left to its last timer.\<close>

definition cm_busy :: cmach where
  "cm_busy = cm_apply (ct_response True 486 (the (cm_ct (cm_start 0 SIP_TRANSP_UDP ''INVITE'' ''z9''))))
     (cm_start 0 SIP_TRANSP_UDP ''INVITE'' ''z9'')"

lemma cm_busy_reachable: "ctrans_step\<^sup>*\<^sup>* (cm_start 0 SIP_TRANSP_UDP ''INVITE'' ''z9'') cm_busy"
proof -
  obtain ct where ct: "cm_ct (cm_start 0 SIP_TRANSP_UDP ''INVITE'' ''z9'') = Some ct"
    by (simp add: cm_start_def ct_request_def)
  from ctrans_step.response [OF this, of True 486] show ?thesis
    by (simp add: cm_busy_def ct r_into_rtranclp)
qed

lemma ctrans_reports_once_witness:
  "\<exists>ct. cm_ct cm_busy = Some ct \<and> ct_state ct = C_COMPLETED \<and> finals (cm_log cm_busy) = 1"
  using ctrans_reports_once [OF cm_busy_reachable]
  by (simp add: cm_busy_def cm_start_def ct_request_def ct_response_def invite_response_def Let_def)

text \<open>
  retransmissions are bounded: the request is sent at most 11 times (7 times for an INVITE), the
  deadline of 64 \<open>SIP_T1\<close> stops the doubling long before \<open>SIP_T1 << txc\<close> could overflow, so a
  due retransmission always has a defined result.
\<close>

theorem ctrans_retransmissions_bounded:
  assumes "ctrans_step\<^sup>*\<^sup>* (cm_start now tp met branch) m" "unat now < 2 ^ 63"
  shows "sends (cm_log m) \<le> 11 \<and> (\<forall>ct. cm_ct m = Some ct \<longrightarrow> (ct_invite ct \<longrightarrow> sends (cm_log m) \<le> 7) \<and>
    (\<forall>t h send_err. ct_due m t h \<longrightarrow> (\<exists>r. ct_fired h send_err ct = Some r)))"
proof -
  have inv: "cm_inv (unat now) m" by (rule ctrans_reachable_inv [OF assms])
  have "sends (cm_log m) \<le> 11"
    using inv max_txc_le [of "ct_invite (the (cm_ct m))"] by (auto simp: cm_inv_def split: option.splits)
  moreover have "\<exists>r. ct_fired h send_err ct = Some r" if "cm_ct m = Some ct" "ct_due m t h" for ct t h send_err
    using ct_retransmit_inv [OF inv that(1), of t send_err] that by (cases h) (auto simp: ct_fired_def)
  ultimately show ?thesis using inv by (auto simp: cm_inv_def max_txc_def)
qed

lemma ctrans_retransmissions_bounded_witness: "sends (cm_log cm_busy) \<le> 11"
  using ctrans_retransmissions_bounded [OF cm_busy_reachable] by simp

text \<open>
  C35: no transaction lives for ever, an INVITE that has a provisional response apart: in every
  reachable state the transaction's timer is armed, to fire within 32 s, and when it fires the
  transaction is destroyed, with a timeout reported if no final response came. Cancelling an INVITE
  in that one state arms the timer as well.
\<close>

theorem ctrans_terminates:
  assumes "ctrans_step\<^sup>*\<^sup>* (cm_start now tp met branch) m" "unat now < 2 ^ 63" "cm_ct m = Some ct"
    "\<not> (ct_invite ct \<and> ct_state ct = C_PROCEEDING)"
  shows "\<exists>d. cm_tm m CT_tmr = Some (d, CH_tmr) \<and> unat d \<le> unat (cm_now m) + 32000 \<and>
    ct_fired CH_tmr send_err ct = Some (ct_deref (if ct_state ct = C_COMPLETED then [] else [C_Resp ETIMEDOUT None]))"
proof -
  have inv: "cm_inv (unat now) m" by (rule ctrans_reachable_inv [OF assms(1,2)])
  then have "\<exists>d. cm_tm m CT_tmr = Some (d, CH_tmr)"
    using assms(3,4) by (auto simp: cm_inv_def ct_inv_def split: cstate.splits if_splits)
  then show ?thesis
    using inv by (auto simp: cm_inv_def deadlines_near_def ct_fired_def ct_tmr_handler_def ct_terminate_def split: cstate.splits)
qed

lemma ctrans_terminates_witness:
  "\<exists>d. cm_tm cm_busy CT_tmr = Some (d, CH_tmr) \<and> unat d \<le> 32000"
proof -
  obtain ct where ct: "cm_ct cm_busy = Some ct" "ct_state ct = C_COMPLETED"
    by (simp add: cm_busy_def cm_start_def ct_request_def ct_response_def invite_response_def Let_def)
  have "cm_now cm_busy = 0" by (simp add: cm_busy_def cm_start_def)
  with ctrans_terminates [OF cm_busy_reachable _ ct(1), of 0] ct(2) show ?thesis by auto
qed

text \<open>
  The timers of a transaction on the pointer-based timer list of theory \<open>Tmr\<close>: executing the
  timer commands of any handler, in order, with \<open>tmr_start\<close> and \<open>tmr_cancel\<close> on the
  transaction's two \<open>struct tmr\<close> at different addresses, leaves exactly the deadlines of the machine.
\<close>

lemma ctrans_timers_implemented:
  assumes "tmr_wf s ts" "inj a" "\<forall>t. deadline s (a t) = cm_tm m t"
  shows "\<exists>s' ts'. run_cmds (\<lambda>t d h. tmr_start t d (Some h)) tmr_cancel (cm_now m)
      (map (rename_cmd a) (ct_cmds (fst r))) s = Some s' \<and> tmr_wf s' ts' \<and>
    (\<forall>t. deadline s' (a t) = cm_tm (cm_apply r m) t)"
proof -
  have "(\<lambda>t. deadline s (a t)) = cm_tm m" using assms(3) by auto
  note d = this
  from tmrs.run_cmds_map [of s "cm_now m" "map (rename_cmd a) (ct_cmds (fst r))"] assms(1)
  obtain s' ts' where s': "run_cmds (\<lambda>t d h. tmr_start t d (Some h)) tmr_cancel (cm_now m)
      (map (rename_cmd a) (ct_cmds (fst r))) s = Some s'" "tmr_wf s' ts'"
    "deadline s' = fold (map_cmd (cm_now m)) (map (rename_cmd a) (ct_cmds (fst r))) (deadline s)"
    by blast
  have "deadline s' (a t) = cm_tm (cm_apply r m) t" for t
    unfolding s'(3) fold_rename_cmd [OF assms(2)] d by simp
  with s' show ?thesis by blast
qed

text \<open>
  Responses reach the right transaction: a response is consumed exactly when some transaction has
  its branch and its CSeq method (so an INVITE and the CANCEL that shares its branch are told
  apart), only that transaction acts on it, and every other one is left as it was.
\<close>

theorem response_dispatch:
  assumes "distinct (map fst L)" "response_handler ack_ok branch met scode L = (handled, effs, L')"
  shows "(handled \<longleftrightarrow> (\<exists>e \<in> set L. ct_cmp_handler branch met e)) \<and>
    (\<forall>(i, es) \<in> set effs. \<exists>ct. (i, ct) \<in> set L \<and> ct_cmp_handler branch met (i, ct) \<and>
       es = fst (ct_response ack_ok scode ct)) \<and>
    (\<forall>e \<in> set L. \<not> ct_cmp_handler branch met e \<longrightarrow> e \<in> set L')"
proof (intro conjI)
  show "handled \<longleftrightarrow> (\<exists>e \<in> set L. ct_cmp_handler branch met e)"
    using assms(2) by (auto simp: response_handler_def split: option.splits prod.splits dest: find_SomeD find_NoneD)
  show "\<forall>(i, es) \<in> set effs. \<exists>ct. (i, ct) \<in> set L \<and> ct_cmp_handler branch met (i, ct) \<and>
       es = fst (ct_response ack_ok scode ct)"
    using assms(2) by (auto simp: response_handler_def split: option.splits prod.splits dest!: find_SomeD)
  show "\<forall>e \<in> set L. \<not> ct_cmp_handler branch met e \<longrightarrow> e \<in> set L'"
  proof (cases "List.find (ct_cmp_handler branch met) L")
    case None
    then show ?thesis using assms(2) by (simp add: response_handler_def)
  next
    case (Some x)
    obtain i ct where x: "x = (i, ct)" by fastforce
    have m: "(i, ct) \<in> set L" "ct_cmp_handler branch met (i, ct)"
      using find_SomeD [OF Some] x by simp_all
    have L': "L' = ctl_update i (snd (ct_response ack_ok scode ct)) L"
      using assms(2) Some x by (auto simp: response_handler_def split: prod.splits)
    have "e \<in> set L'" if e: "e \<in> set L" "\<not> ct_cmp_handler branch met e" for e
    proof -
      have "fst e \<noteq> i"
        using assms(1) e m by (metis eq_key_imp_eq_value prod.collapse)
      then show ?thesis using e(1) by (auto simp: L' ctl_update_def image_iff split: option.splits)
    qed
    then show ?thesis by blast
  qed
qed

lemma response_dispatch_witness:
  "\<exists>effs L'. response_handler True ''b'' ''CANCEL'' 200
      [(1, the (snd (snd (ct_request 0 SIP_TRANSP_UDP ''INVITE'' ''b'')))),
       (2, the (snd (snd (ct_request 0 SIP_TRANSP_UDP ''CANCEL'' ''b''))))] = (True, effs, L') \<and>
    (1, the (snd (snd (ct_request 0 SIP_TRANSP_UDP ''INVITE'' ''b'')))) \<in> set L'"
proof -
  let ?L = "[(1 :: nat, the (snd (snd (ct_request 0 SIP_TRANSP_UDP ''INVITE'' ''b'')))),
       (2, the (snd (snd (ct_request 0 SIP_TRANSP_UDP ''CANCEL'' ''b''))))]"
  obtain h effs L' where r: "response_handler True ''b'' ''CANCEL'' 200 ?L = (h, effs, L')"
    by (metis prod.collapse)
  have d: "distinct (map fst ?L)" by simp
  have m: "ct_cmp_handler ''b'' ''CANCEL'' (?L ! 1)" "\<not> ct_cmp_handler ''b'' ''CANCEL'' (?L ! 0)"
    by (simp_all add: ct_cmp_handler_def ct_request_def)
  have "h" using response_dispatch [OF d r] m(1) by auto
  moreover have "?L ! 0 \<in> set L'" using response_dispatch [OF d r] m(2) by auto
  ultimately show ?thesis using r by auto
qed

text \<open>
  \<open>sip_ctrans_cancel\<close> does nothing for requests other than INVITE, refuses with \<open>EPROTO\<close> an
  INVITE that has not been answered provisionally, or already finally, and otherwise re-arms the
  INVITE's timer to 64 \<open>SIP_T1\<close> before it sends a CANCEL with the same branch in a transaction of
  its own.
\<close>

theorem ctrans_cancel_cases:
  assumes "sip_ctrans_cancel copy_err True send_err j (i, ct) L = (e, effs, L')"
  shows "if \<not> ct_invite ct then e = 0 \<and> effs = [] \<and> L' = L
    else if ct_state ct \<noteq> C_PROCEEDING then e = EPROTO \<and> effs = [] \<and> L' = L
    else (i, [C_Timer (TmrStart CT_tmr 32000 CH_tmr)]) \<in> set effs \<and>
      (e = 0 \<longleftrightarrow> copy_err = 0 \<and> send_err = 0) \<and>
      (e = 0 \<longrightarrow> (\<exists>c. L' = L @ [(j, c)] \<and> ct_met c = ''CANCEL'' \<and> ct_branch c = ct_branch ct \<and>
         ct_tp c = ct_tp ct \<and> \<not> ct_invite c)) \<and>
      (e \<noteq> 0 \<longrightarrow> L' = L)"
  using assms
  by (auto simp: sip_ctrans_cancel_def ct_cancel_start_def sip_ctrans_request_def ct_request_def
      ct_deref_def SIP_T1_def Let_def split: if_splits)

lemma ctrans_cancel_cases_witness:
  "\<exists>effs c. sip_ctrans_cancel 0 True 0 2 (1, \<lparr>ct_met = ''INVITE'', ct_branch = ''b'', ct_tp = SIP_TRANSP_UDP,
       ct_state = C_PROCEEDING, ct_txc = 0, ct_invite = True, ct_ack = False\<rparr>) [] = (0, effs, [(2, c)]) \<and>
     ct_met c = ''CANCEL'' \<and> ct_branch c = ''b''"
proof -
  let ?ct = "\<lparr>ct_met = ''INVITE'', ct_branch = ''b'', ct_tp = SIP_TRANSP_UDP,
       ct_state = C_PROCEEDING, ct_txc = 0, ct_invite = True, ct_ack = False\<rparr>"
  obtain e effs L' where r: "sip_ctrans_cancel 0 True 0 2 (1, ?ct) [] = (e, effs, L')"
    by (metis prod.collapse)
  show ?thesis using ctrans_cancel_cases [OF r] r by auto
qed

end
