(* ===== verification/Strans.thy ===== *)
theory Strans
  imports Ctrans
begin

section \<open>SIP server transactions (re/src/sip/strans.c)\<close>

text \<open>
  As in theory \<open>Ctrans\<close>: a handler returns its effects and the new transaction, \<open>None\<close> once it is
  destroyed. Of a message only the fields the transaction layer looks at are kept. The two hash
  tables hold the same transactions in the same order, so one list stands for both. A response
  buffer is a name (a \<open>nat\<close>); \<open>send_err\<close> is what \<open>sip_send\<close> returns.
\<close>

record smsg =
  m_met :: string
  m_branch :: string
  m_sentby :: string
  m_cseq_met :: string
  m_cseq_num :: u32
  m_callid :: string
  m_from_tag :: string
  m_ruri :: string
  m_to_tag_set :: bool
  m_tag :: u64
  m_tp :: sip_transp

datatype sstate = S_TRYING | S_PROCEEDING | S_ACCEPTED | S_COMPLETED | S_CONFIRMED

record strans =
  st_msg :: smsg
  st_mb :: "nat option"
  st_state :: sstate
  st_txc :: nat
  st_invite :: bool

datatype stimer = ST_tmr | ST_tmrg
datatype shandler = SH_tmr | SH_retransmit

text \<open>
  Effects: a response sent for the first time (with its status), the last response sent again, a
  stateless reply (\<open>sip_reply\<close>) with its status and tag, the user's cancel handler, a timer command,
  and the end of the transaction.
\<close>

datatype seff = S_Respond nat nat | S_Resend "nat option" | S_Stateless nat u64 | S_Cancelh
  | S_Timer "(stimer, shandler) timer_cmd" | S_Free

type_synonym sresult = "seff list \<times> strans option"

definition st_destructor :: "seff list" where
  "st_destructor = [S_Timer (TmrCancel ST_tmr), S_Timer (TmrCancel ST_tmrg), S_Free]"

definition st_deref :: "seff list \<Rightarrow> sresult" where
  "st_deref es = (es @ st_destructor, None)"

subsection \<open>Matching\<close>

definition strans_cmp :: "smsg \<Rightarrow> smsg \<Rightarrow> bool" where
  "strans_cmp m1 m2 \<longleftrightarrow> m_branch m1 = m_branch m2 \<and> m_sentby m1 = m_sentby m2"

definition st_cmp_handler :: "smsg \<Rightarrow> nat \<times> strans \<Rightarrow> bool" where
  "st_cmp_handler msg e \<longleftrightarrow> strans_cmp (st_msg (snd e)) msg \<and> m_cseq_met (st_msg (snd e)) = m_cseq_met msg"

definition cmp_ack_handler :: "smsg \<Rightarrow> nat \<times> strans \<Rightarrow> bool" where
  "cmp_ack_handler msg e \<longleftrightarrow> strans_cmp (st_msg (snd e)) msg \<and> m_cseq_met (st_msg (snd e)) = ''INVITE''"

definition cmp_cancel_handler :: "smsg \<Rightarrow> nat \<times> strans \<Rightarrow> bool" where
  "cmp_cancel_handler msg e \<longleftrightarrow> strans_cmp (st_msg (snd e)) msg \<and> m_cseq_met (st_msg (snd e)) \<noteq> ''CANCEL''"

definition cmp_merge_handler :: "smsg \<Rightarrow> nat \<times> strans \<Rightarrow> bool" where
  "cmp_merge_handler msg e \<longleftrightarrow>
     m_cseq_met (st_msg (snd e)) = m_cseq_met msg \<and> m_cseq_num (st_msg (snd e)) = m_cseq_num msg \<and>
     m_callid (st_msg (snd e)) = m_callid msg \<and> m_from_tag (st_msg (snd e)) = m_from_tag msg \<and>
     m_ruri (st_msg (snd e)) = m_ruri msg"

subsection \<open>Handlers of one transaction\<close>

definition st_tmr_handler :: "strans \<Rightarrow> sresult" where
  "st_tmr_handler st = st_deref []"

definition st_retransmit_handler :: "strans \<Rightarrow> sresult option" where
  "st_retransmit_handler st =
     (let st' = st\<lparr>st_txc := (st_txc st + 1) mod 2 ^ 32\<rparr>
      in map_option (\<lambda>t. ([S_Resend (st_mb st), S_Timer (TmrStart ST_tmrg (min t SIP_T2) SH_retransmit)], Some st'))
           (t1_shift (st_txc st')))"

text \<open>\<open>False\<close>: the message is passed on to the application.\<close>

definition st_ack :: "strans \<Rightarrow> bool \<times> sresult" where
  "st_ack st =
     (case st_state st of
        S_ACCEPTED \<Rightarrow> (False, [], Some st)
      | S_COMPLETED \<Rightarrow>
          if sip_transp_reliable (m_tp (st_msg st)) then (True, st_deref [])
          else (True, [S_Timer (TmrStart ST_tmr SIP_T4 SH_tmr), S_Timer (TmrCancel ST_tmrg)],
                Some (st\<lparr>st_state := S_CONFIRMED\<rparr>))
      | _ \<Rightarrow> (True, [], Some st))"

definition st_cancel :: "smsg \<Rightarrow> strans \<Rightarrow> seff list" where
  "st_cancel msg st = S_Stateless 200 (m_tag (st_msg st)) #
     (if st_state st = S_TRYING \<or> st_state st = S_PROCEEDING then [S_Cancelh] else [])"

definition st_request :: "strans \<Rightarrow> seff list" where
  "st_request st =
     (if st_state st = S_PROCEEDING \<or> st_state st = S_COMPLETED then [S_Resend (st_mb st)] else [])"

definition st_alloc :: "smsg \<Rightarrow> strans" where
  "st_alloc msg = \<lparr>st_msg = msg, st_mb = None, st_state = S_TRYING, st_txc = 0,
     st_invite = (m_met msg = ''INVITE'')\<rparr>"

definition st_reply :: "err \<Rightarrow> nat \<Rightarrow> nat \<Rightarrow> strans \<Rightarrow> err \<times> sresult" where
  "st_reply send_err scode mb st =
     (let st = st\<lparr>st_mb := Some mb\<rparr>; rel = sip_transp_reliable (m_tp (st_msg st));
          es = [S_Respond scode mb];
          wait = S_Timer (TmrStart ST_tmr (64 * SIP_T1) SH_tmr)
      in if send_err \<noteq> 0 then (send_err, st_deref es)
         else if st_invite st then
           (if scode < 200 then (0, es, Some (st\<lparr>st_state := S_PROCEEDING\<rparr>))
            else if scode < 300 then (0, es @ [wait], Some (st\<lparr>st_state := S_ACCEPTED\<rparr>))
            else (0, es @ [wait] @ (if rel then [] else [S_Timer (TmrStart ST_tmrg SIP_T1 SH_retransmit)]),
                  Some (st\<lparr>st_state := S_COMPLETED\<rparr>)))
         else
           (if scode < 200 then (0, es, Some (st\<lparr>st_state := S_PROCEEDING\<rparr>))
            else if \<not> rel then (0, es @ [wait], Some (st\<lparr>st_state := S_COMPLETED\<rparr>))
            else (0, st_deref es)))"

subsection \<open>The transaction layer\<close>

type_synonym stl = "(nat \<times> strans) list"

definition stl_update :: "nat \<Rightarrow> strans option \<Rightarrow> stl \<Rightarrow> stl" where
  "stl_update i r L = (case r of None \<Rightarrow> filter (\<lambda>e. fst e \<noteq> i) L
     | Some st \<Rightarrow> map (\<lambda>e. if fst e = i then (i, st) else e) L)"

definition ack_handler :: "smsg \<Rightarrow> stl \<Rightarrow> bool \<times> seff list \<times> stl" where
  "ack_handler msg L =
     (case List.find (cmp_ack_handler msg) L of
        None \<Rightarrow> (False, [], L)
      | Some (i, st) \<Rightarrow> let (h, es, r) = st_ack st in (h, es, stl_update i r L))"

definition cancel_handler :: "smsg \<Rightarrow> stl \<Rightarrow> bool \<times> seff list \<times> stl" where
  "cancel_handler msg L =
     (case List.find (cmp_cancel_handler msg) L of
        None \<Rightarrow> (False, [], L)
      | Some (i, st) \<Rightarrow> (True, st_cancel msg st, L))"

definition request_handler :: "smsg \<Rightarrow> stl \<Rightarrow> bool \<times> seff list \<times> stl" where
  "request_handler msg L =
     (if m_met msg = ''ACK'' then ack_handler msg L
      else case List.find (st_cmp_handler msg) L of
        Some (i, st) \<Rightarrow> (True, st_request st, L)
      | None \<Rightarrow>
          if \<not> m_to_tag_set msg \<and> List.find (cmp_merge_handler msg) L \<noteq> None
          then (True, [S_Stateless 482 (m_tag msg)], L)
          else if m_met msg = ''CANCEL'' then cancel_handler msg L
          else (False, [], L))"

definition sip_strans_alloc :: "bool \<Rightarrow> nat \<Rightarrow> smsg \<Rightarrow> stl \<Rightarrow> err \<times> stl" where
  "sip_strans_alloc mem_ok i msg L = (if mem_ok then (0, L @ [(i, st_alloc msg)]) else (ENOMEM, L))"

text \<open>
  \<open>stp\<close>: \<open>None\<close> a NULL argument, \<open>Some None\<close> a pointer to NULL, \<open>Some (Some i)\<close> a pointer
  to transaction \<open>i\<close>. The last component of the result is \<open>*stp\<close> afterwards. Replying through a
  pointer to a transaction that is gone is undefined.
\<close>

definition reply_known ::
  "err \<Rightarrow> nat option option \<Rightarrow> nat \<Rightarrow> nat \<Rightarrow> nat \<Rightarrow> stl \<Rightarrow> (err \<times> seff list \<times> stl \<times> nat option) option" where
  "reply_known send_err stp i scode mb L =
     (case map_of L i of
        None \<Rightarrow> None
      | Some st \<Rightarrow>
          let (e, es, r) = st_reply send_err scode mb st
          in Some (e, es, stl_update i r L,
               if stp = None then None else if e \<noteq> 0 \<or> scode \<ge> 200 then None else Some i))"

definition sip_strans_reply ::
  "bool \<Rightarrow> err \<Rightarrow> nat \<Rightarrow> nat option option \<Rightarrow> smsg \<Rightarrow> nat \<Rightarrow> nat \<Rightarrow> stl
   \<Rightarrow> (err \<times> seff list \<times> stl \<times> nat option) option" where
  "sip_strans_reply mem_ok send_err j stp msg scode mb L =
     (if scode < 200 \<and> stp = None then Some (EINVAL, [], L, None)
      else
        let (i, err, L1) = (case stp of Some (Some i) \<Rightarrow> (i, 0, L)
              | _ \<Rightarrow> let (e, L1) = sip_strans_alloc mem_ok j msg L in (j, e, L1))
        in if err \<noteq> 0 then Some (err, [], L1, case stp of Some p \<Rightarrow> p | None \<Rightarrow> None)
           else reply_known send_err stp i scode mb L1)"

section \<open>One transaction against time, the network and its user\<close>

text \<open>
  \<open>sm_tu\<close> says whether the user of the transaction (the application's \<open>struct sip_strans *\<close>)
  still points to it. The user may reply through the pointer, which \<open>sip_strans_reply\<close> resets on a
  final response or an error, or drop it (\<open>mem_deref\<close>).
\<close>

record smach =
  sm_st :: "strans option"
  sm_tu :: bool
  sm_tm :: "stimer \<rightharpoonup> u64 \<times> shandler"
  sm_now :: u64
  sm_log :: "seff list"

fun st_cmds :: "seff list \<Rightarrow> (stimer, shandler) timer_cmd list" where
  "st_cmds [] = []"
| "st_cmds (S_Timer c # es) = c # st_cmds es"
| "st_cmds (_ # es) = st_cmds es"

definition sm_apply :: "sresult \<Rightarrow> smach \<Rightarrow> smach" where
  "sm_apply r m = m\<lparr>sm_st := snd r, sm_tm := fold (map_cmd (sm_now m)) (st_cmds (fst r)) (sm_tm m),
     sm_log := sm_log m @ fst r\<rparr>"

definition sm_start :: "u64 \<Rightarrow> smsg \<Rightarrow> smach" where
  "sm_start now msg = \<lparr>sm_st = Some (st_alloc msg), sm_tu = True, sm_tm = Map.empty, sm_now = now, sm_log = []\<rparr>"

definition st_fired :: "shandler \<Rightarrow> strans \<Rightarrow> sresult option" where
  "st_fired h st = (case h of SH_tmr \<Rightarrow> Some (st_tmr_handler st) | SH_retransmit \<Rightarrow> st_retransmit_handler st)"

definition st_due :: "smach \<Rightarrow> stimer \<Rightarrow> shandler \<Rightarrow> bool" where
  "st_due m t h \<longleftrightarrow> (\<exists>d. sm_tm m t = Some (d, h) \<and> d \<le> sm_now m \<and>
     (\<forall>t' d' h'. sm_tm m t' = Some (d', h') \<longrightarrow> d \<le> d'))"

inductive strans_step :: "smach \<Rightarrow> smach \<Rightarrow> bool" where
  tick: "sm_now m \<le> now' \<Longrightarrow> unat now' < 2 ^ 62 \<Longrightarrow> strans_step m (m\<lparr>sm_now := now'\<rparr>)"
| request: "sm_st m = Some st \<Longrightarrow> strans_step m (sm_apply (st_request st, Some st) m)"
| ack: "sm_st m = Some st \<Longrightarrow> st_invite st \<Longrightarrow> strans_step m (sm_apply (snd (st_ack st)) m)"
| cancel: "sm_st m = Some st \<Longrightarrow> strans_step m (sm_apply (st_cancel msg st, Some st) m)"
| reply: "sm_st m = Some st \<Longrightarrow> sm_tu m \<Longrightarrow> st_reply send_err scode mb st = (e, r) \<Longrightarrow>
    strans_step m ((sm_apply r m)\<lparr>sm_tu := (e = 0 \<and> scode < 200)\<rparr>)"
| drop: "sm_st m = Some st \<Longrightarrow> sm_tu m \<Longrightarrow> strans_step m ((sm_apply (st_deref []) m)\<lparr>sm_tu := False\<rparr>)"
| fire: "st_due m t h \<Longrightarrow> sm_st m = Some st \<Longrightarrow> st_fired h st = Some r \<Longrightarrow>
    strans_step m (sm_apply r (m\<lparr>sm_tm := (sm_tm m)(t := None)\<rparr>))"

fun is_final_resp :: "seff \<Rightarrow> bool" where
  "is_final_resp (S_Respond sc mb) \<longleftrightarrow> 200 \<le> sc"
| "is_final_resp _ \<longleftrightarrow> False"

definition final_resps :: "seff list \<Rightarrow> nat" where
  "final_resps es = length (filter is_final_resp es)"

lemma final_resps_simps [simp]:
  "final_resps [] = 0" "final_resps (e # es) = of_bool (is_final_resp e) + final_resps es"
  "final_resps (es @ es') = final_resps es + final_resps es'"
  by (simp_all add: final_resps_def)

lemma st_cmds_append [simp]: "st_cmds (es @ es') = st_cmds es @ st_cmds es'"
  by (induction es rule: st_cmds.induct) simp_all

lemma sm_apply_simps [simp]:
  "sm_st (sm_apply r m) = snd r" "sm_now (sm_apply r m) = sm_now m" "sm_tu (sm_apply r m) = sm_tu m"
  "sm_log (sm_apply r m) = sm_log m @ fst r"
  "sm_tm (sm_apply r m) = fold (map_cmd (sm_now m)) (st_cmds (fst r)) (sm_tm m)"
  by (simp_all add: sm_apply_def)

text \<open>The wait after a final response that began at \<open>s\<close>, with its retransmissions.\<close>

definition wait_ok :: "strans \<Rightarrow> (stimer \<rightharpoonup> u64 \<times> shandler) \<Rightarrow> bool" where
  "wait_ok st tm \<longleftrightarrow> (\<exists>s. s < 2 ^ 63 \<and> tm ST_tmr = Some (of_nat (s + 32000), SH_tmr) \<and>
     (if st_invite st \<and> st_state st = S_COMPLETED \<and> \<not> sip_transp_reliable (m_tp (st_msg st))
      then \<exists>e. tm ST_tmrg = Some (e, SH_retransmit) \<and> s + backoff False (Suc (st_txc st)) \<le> unat e
      else tm ST_tmrg = None))"

definition st_inv :: "smach \<Rightarrow> strans \<Rightarrow> bool" where
  "st_inv m st \<longleftrightarrow> (case st_state st of
     S_TRYING \<Rightarrow> sm_tu m \<and> final_resps (sm_log m) = 0 \<and> sm_tm m = Map.empty \<and> st_txc st = 0
   | S_PROCEEDING \<Rightarrow> sm_tu m \<and> final_resps (sm_log m) = 0 \<and> sm_tm m = Map.empty \<and> st_txc st = 0 \<and> st_mb st \<noteq> None
   | S_ACCEPTED \<Rightarrow> \<not> sm_tu m \<and> final_resps (sm_log m) = 1 \<and> st_invite st \<and> wait_ok st (sm_tm m)
   | S_COMPLETED \<Rightarrow> \<not> sm_tu m \<and> final_resps (sm_log m) = 1 \<and> wait_ok st (sm_tm m) \<and> st_mb st \<noteq> None
   | S_CONFIRMED \<Rightarrow> \<not> sm_tu m \<and> final_resps (sm_log m) = 1 \<and> sm_tm m ST_tmrg = None \<and>
       (\<exists>d. sm_tm m ST_tmr = Some (d, SH_tmr)))"

definition sm_inv :: "smach \<Rightarrow> bool" where
  "sm_inv m \<longleftrightarrow> unat (sm_now m) < 2 ^ 62 \<and> deadlines_near (sm_now m) (sm_tm m) \<and>
     (case sm_st m of
        None \<Rightarrow> \<not> sm_tu m \<and> sm_tm m = Map.empty \<and> final_resps (sm_log m) \<le> 1
      | Some st \<Rightarrow> st_inv m st \<and> st_txc st \<le> 10)"

lemma stimer_map_empty: "m ST_tmr = None \<Longrightarrow> m ST_tmrg = None \<Longrightarrow> m = Map.empty"
  by (rule ext) (metis stimer.exhaust)

lemma sm_start_inv: "unat now < 2 ^ 62 \<Longrightarrow> sm_inv (sm_start now msg)"
  by (simp add: sm_inv_def sm_start_def st_alloc_def st_inv_def deadlines_near_def)

lemma st_deref_inv:
  assumes "unat (sm_now m) < 2 ^ 62" "final_resps (sm_log m @ es) \<le> 1" "\<not> tu"
  shows "sm_inv ((sm_apply (st_deref es) m)\<lparr>sm_tu := tu\<rparr>)"
proof -
  have "fold (map_cmd (sm_now m)) (st_cmds (es @ st_destructor)) (sm_tm m) = Map.empty"
    by (rule stimer_map_empty) (simp_all add: st_destructor_def)
  then show ?thesis
    using assms by (simp add: sm_inv_def st_deref_def deadlines_near_def st_destructor_def)
qed

lemma st_deref_inv_same:
  assumes "unat (sm_now m) < 2 ^ 62" "final_resps (sm_log m @ es) \<le> 1" "\<not> sm_tu m"
  shows "sm_inv (sm_apply (st_deref es) m)"
  using st_deref_inv [OF assms] assms(3) by (simp add: sm_inv_def st_deref_def deadlines_near_def)

lemma st_inv_finals: "st_inv m st \<Longrightarrow> final_resps (sm_log m) \<le> 1"
  by (simp add: st_inv_def split: sstate.splits)

lemma st_tmr_fire_inv:
  assumes "sm_inv m" "sm_st m = Some st" "st_due m t SH_tmr"
  shows "sm_inv (sm_apply (st_deref []) (m\<lparr>sm_tm := (sm_tm m)(t := None)\<rparr>))"
proof -
  have i: "st_inv m st" "unat (sm_now m) < 2 ^ 62" using assms by (simp_all add: sm_inv_def)
  have "\<not> sm_tu m"
    using i(1) assms(3) by (auto simp: st_inv_def st_due_def split: sstate.splits)
  then show ?thesis
    using st_deref_inv_same [of "m\<lparr>sm_tm := (sm_tm m)(t := None)\<rparr>" "[]"] i st_inv_finals [OF i(1)] by simp
qed

lemma st_retransmit_inv:
  assumes inv: "sm_inv m" and st: "sm_st m = Some st" and due: "st_due m t SH_retransmit"
  shows "\<exists>r. st_retransmit_handler st = Some r \<and> sm_inv (sm_apply r (m\<lparr>sm_tm := (sm_tm m)(t := None)\<rparr>))"
proof -
  have i: "st_inv m st" "unat (sm_now m) < 2 ^ 62" "deadlines_near (sm_now m) (sm_tm m)"
    using inv st by (simp_all add: sm_inv_def)
  from due obtain d where d: "sm_tm m t = Some (d, SH_retransmit)" "d \<le> sm_now m"
    "\<And>t' d' h'. sm_tm m t' = Some (d', h') \<Longrightarrow> d \<le> d'"
    by (auto simp: st_due_def)
  have c: "t = ST_tmrg \<and> st_state st = S_COMPLETED \<and> st_invite st \<and> \<not> sip_transp_reliable (m_tp (st_msg st)) \<and> wait_ok st (sm_tm m)"
    using i(1) d(1) by (cases t; cases "st_state st") (auto simp: st_inv_def wait_ok_def split: if_splits)
  then obtain s where s: "s < 2 ^ 63" "sm_tm m ST_tmr = Some (of_nat (s + 32000), SH_tmr)"
    "s + backoff False (Suc (st_txc st)) \<le> unat d"
    using d(1) by (auto simp: wait_ok_def)
  have "unat (of_nat (s + 32000) :: u64) = s + 32000" using s(1) by (intro unat_of_nat_small) simp
  then have "unat d \<le> s + 32000" using d(3) [OF s(2)] by (simp add: word_le_nat_alt)
  then have k: "Suc (st_txc st) \<le> 10" using s(3) backoff_limit [of False "Suc (st_txc st)"] by (simp add: max_txc_def)
  note t1 = t1_shift_small [OF k]
  let ?dl = "min (of_nat (500 * 2 ^ Suc (st_txc st))) SIP_T2 :: u64"
  let ?st = "st\<lparr>st_txc := Suc (st_txc st)\<rparr>"
  let ?es = "[S_Resend (st_mb st), S_Timer (TmrStart ST_tmrg ?dl SH_retransmit)]"
  have md: "Suc (st_txc st) mod 2 ^ 32 = Suc (st_txc st)" using k by simp
  have r: "st_retransmit_handler st = Some (?es, Some ?st)"
    using t1 md by (simp add: st_retransmit_handler_def Let_def)
  have dl: "unat ?dl = min (500 * 2 ^ Suc (st_txc st)) 4000"
    using t1 by (simp add: SIP_T2_def min_def word_le_nat_alt)
  have now: "s + backoff False (Suc (st_txc st)) \<le> unat (sm_now m)"
    using s(3) d(2) by (simp add: word_le_nat_alt)
  let ?tm = "(sm_tm m)(t := None, ST_tmrg \<mapsto> (?dl + sm_now m, SH_retransmit))"
  have u: "unat (?dl + sm_now m) = unat ?dl + unat (sm_now m)"
    using dl i(2) by (intro deadline_sum) simp_all
  have w: "wait_ok ?st ?tm"
    unfolding wait_ok_def
    using s(1,2) c u dl now backoff_capped [of "Suc (st_txc st)"] by (intro exI [of _ s]) simp
  have "deadlines_near (sm_now m) (fold (map_cmd (sm_now m)) (st_cmds ?es) ((sm_tm m)(t := None)))"
    using dl i(2,3) by (intro deadlines_near_fold deadlines_near_upd) simp_all
  then have "sm_inv (sm_apply (?es, Some ?st) (m\<lparr>sm_tm := (sm_tm m)(t := None)\<rparr>))"
    using i w c k by (simp add: sm_inv_def st_inv_def)
  with r show ?thesis by blast
qed

lemma st_reply_inv:
  assumes inv: "sm_inv m" and st: "sm_st m = Some st" and tu: "sm_tu m"
    and r: "st_reply send_err scode mb st = (e, r)"
  shows "sm_inv ((sm_apply r m)\<lparr>sm_tu := (e = 0 \<and> scode < 200)\<rparr>)"
proof -
  have i: "st_inv m st" "unat (sm_now m) < 2 ^ 62" "deadlines_near (sm_now m) (sm_tm m)"
    using inv st by (simp_all add: sm_inv_def)
  have live: "final_resps (sm_log m) = 0" "sm_tm m = Map.empty" "st_txc st = 0"
    using i(1) tu by (auto simp: st_inv_def split: sstate.splits)
  have near: "deadlines_near (sm_now m) (fold (map_cmd (sm_now m)) (st_cmds (fst r)) (sm_tm m))"
    using r i(2,3) by (intro deadlines_near_fold)
      (auto simp: st_reply_def SIP_T1_def st_deref_def st_destructor_def Let_def split: if_splits)
  have s32: "of_nat (unat (sm_now m) + 32000) = 32000 + sm_now m" by simp
  have u: "unat (500 + sm_now m) = 500 + unat (sm_now m)"
    using i(2) by (intro deadline_sum [THEN trans]) simp_all
  have w: "wait_ok (st\<lparr>st_mb := Some mb, st_state := x\<rparr>) tm"
    if "tm ST_tmr = Some (32000 + sm_now m, SH_tmr)"
      "tm ST_tmrg = (if st_invite st \<and> x = S_COMPLETED \<and> \<not> sip_transp_reliable (m_tp (st_msg st))
         then Some (500 + sm_now m, SH_retransmit) else None)" for x tm
    unfolding wait_ok_def using that i(2) live(3) s32 u
    by (intro exI [of _ "unat (sm_now m)"]) (simp add: backoff_def)
  show ?thesis
  proof (cases "snd r")
    case None
    have "r = st_deref [S_Respond scode mb] \<and> \<not> (e = 0 \<and> scode < 200)"
      using r None by (auto simp: st_reply_def st_deref_def Let_def split: if_splits)
    then show ?thesis
      using st_deref_inv [of m "[S_Respond scode mb]" "e = 0 \<and> scode < 200"] i(2) live(1) by simp
  next
    case (Some st')
    have wa: "wait_ok (st\<lparr>st_mb := Some mb, st_state := S_ACCEPTED\<rparr>) [ST_tmr \<mapsto> (32000 + sm_now m, SH_tmr)]"
      by (rule w) simp_all
    have wr: "wait_ok (st\<lparr>st_mb := Some mb, st_state := S_COMPLETED\<rparr>) [ST_tmr \<mapsto> (32000 + sm_now m, SH_tmr)]"
      if "sip_transp_reliable (m_tp (st_msg st)) \<or> \<not> st_invite st"
      by (rule w) (use that in auto)
    have wc: "wait_ok (st\<lparr>st_mb := Some mb, st_state := S_COMPLETED\<rparr>)
        [ST_tmr \<mapsto> (32000 + sm_now m, SH_tmr), ST_tmrg \<mapsto> (500 + sm_now m, SH_retransmit)]"
      if "\<not> sip_transp_reliable (m_tp (st_msg st))" "st_invite st"
      by (rule w) (use that in auto)
    have e: "send_err = 0" "e = 0" using r Some by (auto simp: st_reply_def st_deref_def Let_def split: if_splits)
    note rr = r [unfolded st_reply_def Let_def]
    show ?thesis
    proof (cases "scode < 200")
      case True
      then have "r = ([S_Respond scode mb], Some (st\<lparr>st_mb := Some mb, st_state := S_PROCEEDING\<rparr>))"
        using rr e by (simp split: if_splits)
      then show ?thesis using True near live i(2) e by (simp add: sm_inv_def st_inv_def)
    next
      case False
      consider (acc) "st_invite st" "scode < 300" | (inv) "st_invite st" "\<not> scode < 300"
        | (non) "\<not> st_invite st" by blast
      then show ?thesis
      proof cases
        case acc
        then have "r = ([S_Respond scode mb, S_Timer (TmrStart ST_tmr 32000 SH_tmr)], Some (st\<lparr>st_mb := Some mb, st_state := S_ACCEPTED\<rparr>))"
          using rr e False by (simp add: SIP_T1_def)
        then show ?thesis using False near live i(2) e wa acc by (simp add: sm_inv_def st_inv_def)
      next
        case inv
        then have "r = ([S_Respond scode mb, S_Timer (TmrStart ST_tmr 32000 SH_tmr)] @
            (if sip_transp_reliable (m_tp (st_msg st)) then [] else [S_Timer (TmrStart ST_tmrg 500 SH_retransmit)]),
            Some (st\<lparr>st_mb := Some mb, st_state := S_COMPLETED\<rparr>))"
          using rr e False by (auto simp: SIP_T1_def)
        then show ?thesis using False near live i(2) e wr wc inv
          by (cases "sip_transp_reliable (m_tp (st_msg st))") (simp_all add: sm_inv_def st_inv_def)
      next
        case non
        then have "r = ([S_Respond scode mb, S_Timer (TmrStart ST_tmr 32000 SH_tmr)], Some (st\<lparr>st_mb := Some mb, st_state := S_COMPLETED\<rparr>))"
          using rr e False Some by (auto simp: SIP_T1_def st_deref_def split: if_splits)
        then show ?thesis using False near live i(2) e wr non by (simp add: sm_inv_def st_inv_def)
      qed
    qed
  qed
qed

lemma strans_step_inv:
  assumes "strans_step m m'" "sm_inv m"
  shows "sm_inv m'"
  using assms
proof (induction rule: strans_step.induct)
  case (tick m now')
  then show ?case
    by (auto simp: sm_inv_def st_inv_def intro: deadlines_near_mono split: option.splits sstate.splits)
next
  case (request m st)
  then show ?case by (auto simp: sm_inv_def st_inv_def st_request_def split: sstate.splits)
next
  case (ack m st)
  show ?case
  proof (cases "st_state st = S_COMPLETED \<and> sip_transp_reliable (m_tp (st_msg st))")
    case True
    have "\<not> sm_tu m" using ack True by (auto simp: sm_inv_def st_inv_def)
    then show ?thesis
      using ack True st_deref_inv_same [of m "[]"] st_inv_finals [of m st]
      by (simp add: sm_inv_def [of m] st_ack_def)
  next
    case False
    have "deadlines_near (sm_now m) (fold (map_cmd (sm_now m)) (st_cmds (fst (snd (st_ack st)))) (sm_tm m))"
      using ack by (intro deadlines_near_fold) (auto simp: sm_inv_def st_ack_def st_deref_def st_destructor_def SIP_T4_def split: sstate.splits)
    then show ?thesis using ack False by (auto simp: sm_inv_def st_inv_def st_ack_def split: sstate.splits)
  qed
next
  case (cancel m st msg)
  then show ?case by (auto simp: sm_inv_def st_inv_def st_cancel_def split: sstate.splits)
next
  case (reply m st send_err scode mb e r)
  then show ?case by (intro st_reply_inv)
next
  case (drop m st)
  then show ?case using st_deref_inv [of m "[]" False] st_inv_finals [of m st] by (simp add: sm_inv_def)
next
  case (fire m t h st r)
  show ?case
  proof (cases h)
    case SH_tmr
    then show ?thesis using fire st_tmr_fire_inv [of m st t] by (simp add: st_fired_def st_tmr_handler_def)
  next
    case SH_retransmit
    then show ?thesis using fire st_retransmit_inv [of m st t] by (simp add: st_fired_def)
  qed
qed

lemma strans_reachable_inv:
  assumes "strans_step\<^sup>*\<^sup>* (sm_start now msg) m" "unat now < 2 ^ 62"
  shows "sm_inv m"
  using assms(1) by (induction rule: rtranclp_induct) (auto intro: sm_start_inv [OF assms(2)] strans_step_inv)

subsection \<open>Retransmissions carry the response last sent\<close>

text \<open>\<open>resends_ok b es\<close>: after \<open>b\<close> was sent last, every retransmission of \<open>es\<close> is the latest response.\<close>

fun resends_ok :: "nat option \<Rightarrow> seff list \<Rightarrow> bool" where
  "resends_ok b [] \<longleftrightarrow> True"
| "resends_ok b (S_Respond sc mb # es) \<longleftrightarrow> resends_ok (Some mb) es"
| "resends_ok b (S_Resend mb # es) \<longleftrightarrow> b \<noteq> None \<and> mb = b \<and> resends_ok b es"
| "resends_ok b (_ # es) \<longleftrightarrow> resends_ok b es"

fun last_response :: "nat option \<Rightarrow> seff list \<Rightarrow> nat option" where
  "last_response b [] = b"
| "last_response b (S_Respond sc mb # es) = last_response (Some mb) es"
| "last_response b (_ # es) = last_response b es"

lemma resends_ok_append [simp]:
  "resends_ok b (es @ es') \<longleftrightarrow> resends_ok b es \<and> resends_ok (last_response b es) es'"
  by (induction b es rule: resends_ok.induct) auto

lemma last_response_append [simp]: "last_response b (es @ es') = last_response (last_response b es) es'"
  by (induction b es rule: last_response.induct) auto

definition resend_inv :: "smach \<Rightarrow> bool" where
  "resend_inv m \<longleftrightarrow> resends_ok None (sm_log m) \<and>
     (case sm_st m of None \<Rightarrow> True | Some st \<Rightarrow> st_mb st = last_response None (sm_log m))"

lemma resend_inv_step:
  assumes "strans_step m m'" "sm_inv m" "resend_inv m"
  shows "resend_inv m'"
  using assms
proof (induction rule: strans_step.induct)
  case (tick m now')
  then show ?case by (simp add: resend_inv_def split: option.splits)
next
  case (request m st)
  then show ?case by (auto simp: resend_inv_def st_request_def sm_inv_def st_inv_def)
next
  case (ack m st)
  then show ?case
    by (auto simp: resend_inv_def st_ack_def st_deref_def st_destructor_def split: sstate.splits)
next
  case (cancel m st msg)
  then show ?case by (auto simp: resend_inv_def st_cancel_def)
next
  case (reply m st send_err scode mb e r)
  from reply(3) show ?case
    using reply(1,2,5) by (auto simp: resend_inv_def st_reply_def st_deref_def st_destructor_def Let_def split: if_splits)
next
  case (drop m st)
  then show ?case by (auto simp: resend_inv_def st_deref_def st_destructor_def)
next
  case (fire m t h st r)
  have "st_mb st \<noteq> None" if "h = SH_retransmit"
    using fire that by (cases t) (auto simp: sm_inv_def st_inv_def st_due_def wait_ok_def split: sstate.splits if_splits)
  then show ?case
    using fire by (cases h) (auto simp: resend_inv_def st_fired_def st_tmr_handler_def st_deref_def
        st_destructor_def st_retransmit_handler_def Let_def)
qed

lemma resend_reachable:
  assumes "strans_step\<^sup>*\<^sup>* (sm_start now msg) m" "unat now < 2 ^ 62"
  shows "resend_inv m"
  using assms(1)
proof (induction rule: rtranclp_induct)
  case base
  show ?case by (simp add: resend_inv_def sm_start_def st_alloc_def)
next
  case (step y z)
  then show ?case using resend_inv_step strans_reachable_inv [OF step(1) assms(2)] by blast
qed

subsection \<open>The properties of the machine\<close>

text \<open>
  C30: one final response. Whatever retransmitted requests, ACKs, CANCELs, timers and replies happen in
  whatever order, a server transaction sends at most one final response of its own; while the
  application still has its pointer the transaction exists and has sent none, and a transaction that
  is gone leaves no timer armed.
\<close>

theorem strans_final_once:
  assumes "strans_step\<^sup>*\<^sup>* (sm_start now msg) m" "unat now < 2 ^ 62"
  shows "final_resps (sm_log m) \<le> 1 \<and>
    (sm_tu m \<longrightarrow> final_resps (sm_log m) = 0 \<and>
       (\<exists>st. sm_st m = Some st \<and> (st_state st = S_TRYING \<or> st_state st = S_PROCEEDING))) \<and>
    (sm_st m = None \<longrightarrow> sm_tm m = Map.empty)"
  using strans_reachable_inv [OF assms]
  by (auto simp: sm_inv_def st_inv_def split: option.splits sstate.splits)

text \<open>An INVITE over UDP, ringing and then rejected.\<close>

definition invite_msg :: smsg where
  "invite_msg = \<lparr>m_met = ''INVITE'', m_branch = ''z9'', m_sentby = ''h'', m_cseq_met = ''INVITE'', m_cseq_num = 1,
     m_callid = ''c'', m_from_tag = ''f'', m_ruri = ''sip:b'', m_to_tag_set = False, m_tag = 7, m_tp = SIP_TRANSP_UDP\<rparr>"

definition sm_busy :: smach where
  "sm_busy = (sm_apply (snd (st_reply 0 486 3 (st_alloc invite_msg))) (sm_start 0 invite_msg))\<lparr>sm_tu := False\<rparr>"

lemma sm_busy_reachable: "strans_step\<^sup>*\<^sup>* (sm_start 0 invite_msg) sm_busy"
proof -
  obtain e r where r: "st_reply 0 486 3 (st_alloc invite_msg) = (e, r)" by (rule prod.exhaust)
  from strans_step.reply [OF _ _ r, of "sm_start 0 invite_msg"] show ?thesis
    by (simp add: sm_busy_def r sm_start_def r_into_rtranclp)
qed

lemma sm_busy_state: "sm_st sm_busy = Some ((st_alloc invite_msg)\<lparr>st_mb := Some 3, st_state := S_COMPLETED\<rparr>)"
  by (simp add: sm_busy_def st_reply_def st_alloc_def invite_msg_def)

lemma strans_final_once_witness: "final_resps (sm_log sm_busy) \<le> 1"
  using strans_final_once [OF sm_busy_reachable] by simp

text \<open>
  retransmissions. Every retransmission, prompted by the timer or by a repeated request, carries
  the response sent last, and none is sent before there is one; the timer doubles at most ten times,
  so \<open>SIP_T1 << txc\<close> never overflows and a due timer always has a defined result.
\<close>

theorem strans_retransmits_last:
  assumes "strans_step\<^sup>*\<^sup>* (sm_start now msg) m" "unat now < 2 ^ 62"
  shows "resends_ok None (sm_log m) \<and>
    (\<forall>st. sm_st m = Some st \<longrightarrow> st_txc st \<le> 10 \<and> (\<forall>t h. st_due m t h \<longrightarrow> (\<exists>r. st_fired h st = Some r)))"
proof -
  have inv: "sm_inv m" by (rule strans_reachable_inv [OF assms])
  have "\<exists>r. st_fired h st = Some r" if "sm_st m = Some st" "st_due m t h" for st t h
    using st_retransmit_inv [OF inv that(1), of t] that by (cases h) (auto simp: st_fired_def)
  then show ?thesis
    using inv resend_reachable [OF assms] by (auto simp: sm_inv_def resend_inv_def)
qed

lemma strans_retransmits_last_witness: "resends_ok None (sm_log sm_busy)"
  using strans_retransmits_last [OF sm_busy_reachable] by simp

text \<open>
  C36: no server transaction outlives its final response: once it has answered, its timer is armed to
  fire within 32 s, and when it fires the transaction is destroyed.
\<close>

theorem strans_terminates:
  assumes "strans_step\<^sup>*\<^sup>* (sm_start now msg) m" "unat now < 2 ^ 62" "sm_st m = Some st" "final_resps (sm_log m) \<noteq> 0"
  shows "\<exists>d. sm_tm m ST_tmr = Some (d, SH_tmr) \<and> unat d \<le> unat (sm_now m) + 32000 \<and>
    st_fired SH_tmr st = Some (st_deref [])"
proof -
  have inv: "sm_inv m" by (rule strans_reachable_inv [OF assms(1,2)])
  then have "\<exists>d. sm_tm m ST_tmr = Some (d, SH_tmr)"
    using assms(3,4) by (auto simp: sm_inv_def st_inv_def wait_ok_def split: sstate.splits)
  then show ?thesis
    using inv by (auto simp: sm_inv_def deadlines_near_def st_fired_def st_tmr_handler_def)
qed

lemma strans_terminates_witness: "\<exists>d. sm_tm sm_busy ST_tmr = Some (d, SH_tmr) \<and> unat d \<le> 32000"
proof -
  have "sm_now sm_busy = 0" "final_resps (sm_log sm_busy) \<noteq> 0"
    by (simp_all add: sm_busy_def sm_start_def st_reply_def st_alloc_def invite_msg_def)
  then show ?thesis using strans_terminates [OF sm_busy_reachable _ sm_busy_state] by auto
qed

subsection \<open>The properties of the layer\<close>

lemma find_not_None: "x \<in> set xs \<Longrightarrow> P x \<Longrightarrow> List.find P xs \<noteq> None"
  by (metis find_NoneD)

text \<open>A transaction keeps the request it was made for, and has a response once it was answered.\<close>

definition origin_inv :: "smsg \<Rightarrow> smach \<Rightarrow> bool" where
  "origin_inv msg m \<longleftrightarrow> (case sm_st m of None \<Rightarrow> True
     | Some st \<Rightarrow> st_msg st = msg \<and> (st_state st = S_TRYING \<longleftrightarrow> st_mb st = None))"

lemma origin_inv_step: "strans_step m m' \<Longrightarrow> sm_inv m \<Longrightarrow> origin_inv msg m \<Longrightarrow> origin_inv msg m'"
proof (induction rule: strans_step.induct)
  case (ack m st)
  then show ?case by (auto simp: origin_inv_def st_ack_def st_deref_def split: sstate.splits)
next
  case (reply m st send_err scode mb e r)
  then show ?case by (auto simp: origin_inv_def st_reply_def st_deref_def Let_def split: if_splits)
next
  case (fire m t h st r)
  then show ?case
    by (cases h) (auto simp: origin_inv_def st_fired_def st_tmr_handler_def st_deref_def st_retransmit_handler_def Let_def)
qed (auto simp: origin_inv_def st_deref_def)

lemma origin_reachable:
  assumes "strans_step\<^sup>*\<^sup>* (sm_start now msg) m" "unat now < 2 ^ 62"
  shows "origin_inv msg m"
  using assms(1)
proof (induction rule: rtranclp_induct)
  case base
  show ?case by (simp add: origin_inv_def sm_start_def st_alloc_def)
next
  case (step y z)
  then show ?case using origin_inv_step strans_reachable_inv [OF step(1) assms(2)] by blast
qed

text \<open>
  C34: A request reaches the application once. Let a transaction be in any state its replies, ACKs, CANCELs,
  retransmissions and timers can bring it to, and on the list of the layer. A retransmission of its request (same branch,
  sender and CSeq method, and of no other transaction's request) is consumed by the layer: while the transaction is in
  PROCEEDING or COMPLETED it is answered with the response sent last, and there is one; before the first response, after
  a 2xx and after the ACK nothing is sent. A copy that came another way (a retransmission of nothing; same CSeq, Call-ID,
  From tag and request URI, no To tag) is answered 482.
\<close>

theorem strans_absorbs_copies:
  assumes "strans_step\<^sup>*\<^sup>* (sm_start now msg) m" "unat now < 2 ^ 62" "sm_st m = Some st" "(i, st) \<in> set L"
    "m_met copy \<noteq> ''ACK''" "m_cseq_met copy = m_cseq_met msg"
  shows "(strans_cmp msg copy \<and> list_all (\<lambda>e. st_cmp_handler copy e \<longrightarrow> e = (i, st)) L \<longrightarrow>
      request_handler copy L = (True, if st_state st = S_PROCEEDING \<or> st_state st = S_COMPLETED
        then [S_Resend (last_response None (sm_log m))] else [], L)) \<and>
    (last_response None (sm_log m) = None \<longleftrightarrow> st_state st = S_TRYING) \<and>
    (List.find (st_cmp_handler copy) L = None \<and> m_cseq_num copy = m_cseq_num msg \<and> m_callid copy = m_callid msg \<and>
     m_from_tag copy = m_from_tag msg \<and> m_ruri copy = m_ruri msg \<and> \<not> m_to_tag_set copy \<longrightarrow>
       request_handler copy L = (True, [S_Stateless 482 (m_tag copy)], L))"
proof -
  have st: "st_msg st = msg" "st_state st = S_TRYING \<longleftrightarrow> st_mb st = None" "st_mb st = last_response None (sm_log m)"
    using origin_reachable [OF assms(1,2)] resend_reachable [OF assms(1,2)] assms(3)
    by (simp_all add: origin_inv_def resend_inv_def)
  have "request_handler copy L = (True, st_request st, L)"
    if "strans_cmp msg copy" "list_all (\<lambda>e. st_cmp_handler copy e \<longrightarrow> e = (i, st)) L"
  proof -
    have "st_cmp_handler copy (i, st)" using that(1) assms(6) st(1) by (simp add: st_cmp_handler_def)
    then obtain e where e: "List.find (st_cmp_handler copy) L = Some e"
      using find_not_None [OF assms(4)] by blast
    then have "e = (i, st)" using that(2) by (auto simp: find_Some_iff list_all_iff)
    then show ?thesis using e assms(5) by (simp add: request_handler_def)
  qed
  moreover have "request_handler copy L = (True, [S_Stateless 482 (m_tag copy)], L)"
    if "List.find (st_cmp_handler copy) L = None" "m_cseq_num copy = m_cseq_num msg" "m_callid copy = m_callid msg"
      "m_from_tag copy = m_from_tag msg" "m_ruri copy = m_ruri msg" "\<not> m_to_tag_set copy"
    using that assms(5,6) st(1) find_not_None [OF assms(4), of "cmp_merge_handler copy"]
    by (simp add: request_handler_def cmp_merge_handler_def)
  ultimately show ?thesis using st by (auto simp: st_request_def)
qed

text \<open>An INVITE that was rejected and comes again; the same INVITE by another branch.\<close>

lemma strans_absorbs_copies_witness:
  "\<exists>st. sm_st sm_busy = Some st \<and> request_handler invite_msg [(1, st)] = (True, [S_Resend (Some 3)], [(1, st)]) \<and>
     request_handler (invite_msg\<lparr>m_branch := ''z8''\<rparr>) [(1, st)] = (True, [S_Stateless 482 7], [(1, st)])"
proof -
  let ?st = "(st_alloc invite_msg)\<lparr>st_mb := Some 3, st_state := S_COMPLETED\<rparr>"
  have "last_response None (sm_log sm_busy) = Some 3"
    by (simp add: sm_busy_def sm_start_def st_reply_def st_alloc_def invite_msg_def)
  then show ?thesis
    using strans_absorbs_copies [OF sm_busy_reachable _ sm_busy_state, of 1 "[(1, ?st)]" invite_msg]
      strans_absorbs_copies [OF sm_busy_reachable _ sm_busy_state, of 1 "[(1, ?st)]" "invite_msg\<lparr>m_branch := ''z8''\<rparr>"]
      sm_busy_state
    by (simp add: invite_msg_def strans_cmp_def st_cmp_handler_def st_alloc_def)
qed

text \<open>
  ACK and CANCEL. An ACK is passed up exactly when it matches no INVITE transaction or one that
  was accepted with 2xx, and otherwise stops the retransmissions of the rejection it acknowledges; a
  CANCEL that is no retransmission and matches a request is answered 200 with that transaction's tag
  and calls the cancel handler exactly when no final response was sent.
\<close>

theorem strans_ack_cancel:
  assumes "List.find (cmp_ack_handler ack) L = Some (i, st)" "m_met ack = ''ACK''"
    "List.find (cmp_cancel_handler cncl) L = Some (j, st')" "List.find (st_cmp_handler cncl) L = None"
    "m_met cncl = ''CANCEL''" "List.find (cmp_merge_handler cncl) L = None"
  shows "request_handler ack L = (case st_state st of
       S_ACCEPTED \<Rightarrow> (False, [], stl_update i (Some st) L)
     | S_COMPLETED \<Rightarrow> (if sip_transp_reliable (m_tp (st_msg st)) then (True, st_destructor, stl_update i None L)
         else (True, [S_Timer (TmrStart ST_tmr SIP_T4 SH_tmr), S_Timer (TmrCancel ST_tmrg)],
               stl_update i (Some (st\<lparr>st_state := S_CONFIRMED\<rparr>)) L))
     | _ \<Rightarrow> (True, [], stl_update i (Some st) L)) \<and>
   (\<exists>es. request_handler cncl L = (True, S_Stateless 200 (m_tag (st_msg st')) # es, L) \<and>
     (es = [S_Cancelh] \<longleftrightarrow> st_state st' = S_TRYING \<or> st_state st' = S_PROCEEDING) \<and> set es \<subseteq> {S_Cancelh})"
  using assms
  by (auto simp: request_handler_def ack_handler_def cancel_handler_def st_ack_def st_cancel_def st_deref_def
      split: sstate.splits)

lemma strans_ack_cancel_witness:
  "\<exists>es. request_handler (invite_msg\<lparr>m_met := ''CANCEL'', m_cseq_met := ''CANCEL''\<rparr>) [(1, st_alloc invite_msg)]
     = (True, S_Stateless 200 7 # es, [(1, st_alloc invite_msg)]) \<and> set es \<subseteq> {S_Cancelh}"
  using strans_ack_cancel [of "invite_msg\<lparr>m_met := ''ACK''\<rparr>" "[(1, st_alloc invite_msg)]" 1 "st_alloc invite_msg"
      "invite_msg\<lparr>m_met := ''CANCEL'', m_cseq_met := ''CANCEL''\<rparr>" 1 "st_alloc invite_msg"]
  by (auto simp: cmp_ack_handler_def cmp_cancel_handler_def st_cmp_handler_def cmp_merge_handler_def strans_cmp_def
      st_alloc_def invite_msg_def)

lemma st_reply_pending:
  assumes "st_reply send_err scode mb st = (e, es, r)" "e = 0" "scode < 200"
  shows "\<exists>st'. r = Some st' \<and> st_state st' = S_PROCEEDING"
  using assms by (auto simp: st_reply_def Let_def split: if_splits)

lemma stl_update_other: "x \<in> set L \<Longrightarrow> fst x \<noteq> i \<Longrightarrow> x \<in> set (stl_update i r L)"
  by (force simp: stl_update_def split: option.split)

lemma stl_update_here: "i \<in> fst ` set L \<Longrightarrow> (i, st) \<in> set (stl_update i (Some st) L)"
  by (force simp: stl_update_def)

definition reply_post :: "nat \<Rightarrow> nat set \<Rightarrow> stl \<Rightarrow> err \<times> seff list \<times> stl \<times> nat option \<Rightarrow> bool" where
  "reply_post scode touched L = (\<lambda>(e, es, L', p).
    (case p of None \<Rightarrow> e \<noteq> 0 \<or> scode \<ge> 200
     | Some i \<Rightarrow> \<exists>st. (i, st) \<in> set L' \<and> st_state st = S_PROCEEDING) \<and>
    (\<forall>x \<in> set L. fst x \<notin> touched \<longrightarrow> x \<in> set L'))"

lemma reply_known_post:
  assumes "(i, st) \<in> set L" "distinct (map fst L)" "stp = None \<longrightarrow> 200 \<le> scode"
  shows "\<exists>r. reply_known send_err stp i scode mb L = Some r \<and> reply_post scode {i} L r"
proof -
  obtain e es r where r: "st_reply send_err scode mb st = (e, es, r)" by (metis prod_cases3)
  have m: "map_of L i = Some st" using assms(1,2) by simp
  have "i \<in> fst ` set L" using assms(1) by force
  note here = stl_update_here [OF this]
  have "\<exists>st. (i, st) \<in> set (stl_update i r L) \<and> st_state st = S_PROCEEDING" if "e = 0" "\<not> 200 \<le> scode"
    using st_reply_pending [OF r] that here by fastforce
  then show ?thesis
    using assms(3) by (auto simp: reply_known_def m r reply_post_def intro: stl_update_other)
qed

text \<open>
  The application's pointer never dangles. If \<open>*stp\<close> is NULL or points to a transaction of the
  layer, \<open>sip_strans_reply\<close> is defined, and afterwards \<open>*stp\<close> is NULL, after an error or a final
  response, or points to a transaction of the layer in state PROCEEDING; no other transaction is touched.
\<close>

theorem strans_reply_pointer:
  assumes "distinct (map fst L)" "j \<notin> fst ` set L" "\<forall>i. stp = Some (Some i) \<longrightarrow> i \<in> fst ` set L"
  shows "\<exists>e es L' p. sip_strans_reply mem_ok send_err j stp msg scode mb L = Some (e, es, L', p) \<and>
    (case p of None \<Rightarrow> e \<noteq> 0 \<or> scode \<ge> 200
     | Some i \<Rightarrow> \<exists>st. (i, st) \<in> set L' \<and> st_state st = S_PROCEEDING) \<and>
    (\<forall>x \<in> set L. stp \<noteq> Some (Some (fst x)) \<longrightarrow> x \<in> set L')"
proof -
  have "\<exists>r. sip_strans_reply mem_ok send_err j stp msg scode mb L = Some r \<and>
      reply_post scode {i. stp = Some (Some i)} L r"
  proof -
    consider (bad) "scode < 200" "stp = None" | (nomem) "\<not> mem_ok" "\<nexists>i. stp = Some (Some i)" "\<not> (scode < 200 \<and> stp = None)"
      | (new) "mem_ok" "\<nexists>i. stp = Some (Some i)" "\<not> (scode < 200 \<and> stp = None)"
      | (old) i where "stp = Some (Some i)" by blast
    then show ?thesis
    proof cases
      case bad
      then show ?thesis by (simp add: sip_strans_reply_def reply_post_def)
    next
      case nomem
      then show ?thesis
        by (cases stp; cases "the stp") (auto simp: sip_strans_reply_def reply_post_def sip_strans_alloc_def)
    next
      case new
      let ?L = "L @ [(j, st_alloc msg)]"
      have "distinct (map fst ?L)" using assms(1,2) by auto
      from reply_known_post [OF _ this, of j "st_alloc msg" stp scode send_err mb] new(3)
      obtain r where r: "reply_known send_err stp j scode mb ?L = Some r" "reply_post scode {j} ?L r" by auto
      have "reply_post scode {i. stp = Some (Some i)} L r"
        using r(2) assms(2) by (auto simp: reply_post_def)
      with r(1) new show ?thesis
        by (cases stp; cases "the stp") (auto simp: sip_strans_reply_def sip_strans_alloc_def)
    next
      case old
      then obtain st where "(i, st) \<in> set L" using assms(3) by force
      from reply_known_post [OF this assms(1), of stp scode send_err mb] old show ?thesis
        by (simp add: sip_strans_reply_def)
    qed
  qed
  then show ?thesis by (auto simp: reply_post_def)
qed

lemma strans_reply_pointer_witness:
  "\<exists>e es L' p. sip_strans_reply True 0 2 (Some None) invite_msg 180 5 [(1, st_alloc invite_msg)] = Some (e, es, L', p)"
  using strans_reply_pointer [of "[(1, st_alloc invite_msg)]" 2 "Some None" True 0 invite_msg 180 5] by auto

end
