(* ===== verification/Sipreg.thy ===== *)
theory Sipreg
  imports Prelude
begin

section \<open>SIP registration (re/src/sipreg/reg.c)\<close>

text \<open>
  The registration client: it sends REGISTER requests, answers challenges, refreshes the binding before it expires and
  removes it when the owner drops the client. A handler returns its effects in the order of the code and the client,
  or \<open>None\<close> once it is freed. Sending (\<open>sip_drequestf\<close>), authentication and randomness are parameters; a response
  is what the handlers read of it.
\<close>

definition EAUTH :: err where "EAUTH = 217"
definition DEFAULT_EXPIRES :: u32 where "DEFAULT_EXPIRES = 3600"

text \<open>Of the timer and of the pointers to keep-alive and request: whether they are set; \<open>sr_resph\<close>: whether the response
  handler is the owner's, and not \<open>dummy_handler\<close>.\<close>

record sipreg =
  sr_ls_failc :: u32
  sr_ls_last :: u16
  sr_tmr :: bool
  sr_ka :: bool
  sr_req :: bool
  sr_resph :: bool
  sr_expires :: u32
  sr_pexpires :: u32
  sr_failc :: u32
  sr_rwait :: u32
  sr_wait :: u32
  sr_fbregint :: u32
  sr_registered :: bool
  sr_terminated :: bool
  sr_regid :: int

text \<open>A response: its status, the contacts (whether the address is our own, the parameter \<open>expires\<close>), the headers
  Expires and Min-Expires, whether outbound is required and the header Flow-Timer.\<close>

record response =
  rp_scode :: u16
  rp_contacts :: "(bool \<times> u32 option) list"
  rp_expires :: "u32 option"
  rp_min_expires :: "u32 option"
  rp_outbound :: bool
  rp_flow_timer :: "u32 option"

record renv =
  re_send :: err
  re_auth :: err
  re_ka :: bool
  re_rand :: u16

text \<open>Effects: a REGISTER request with its expiry, the timer in ms, a call of the owner's handler.\<close>

datatype reff = R_Request u32 | R_Timer u64 | R_TimerCancel | R_Resp err "response option" | R_Keepalive u32 | R_AuthReset | R_Free

type_synonym rresult = "reff list \<times> sipreg option"

text \<open>\<open>reg->resph(err, msg, reg->arg)\<close>: the owner hears of it, unless the handler is \<open>dummy_handler\<close>.\<close>

definition call_resph :: "err \<Rightarrow> response option \<Rightarrow> sipreg \<Rightarrow> reff list" where
  "call_resph e msg reg = (if sr_resph reg then [R_Resp e msg] else [])"

text \<open>\<open>sip_request_loops\<close> and \<open>sip_loopstate_reset\<close> of \<open>sip/request.c\<close>.\<close>

definition sip_request_loops :: "sipreg \<Rightarrow> u16 \<Rightarrow> bool \<times> sipreg" where
  "sip_request_loops reg scode =
     (if scode < 200 then (False, reg)
      else if scode < 300 then (False, reg\<lparr>sr_ls_failc := 0, sr_ls_last := scode\<rparr>)
      else if scode < 400 then
        let f = sr_ls_failc reg + 1 in (f \<ge> 16, reg\<lparr>sr_ls_failc := f, sr_ls_last := scode\<rparr>)
      else
        let loop = (scode \<noteq> 401 \<and> scode \<noteq> 407 \<and> scode \<noteq> 491 \<and> sr_ls_last reg = scode); f = sr_ls_failc reg + 1
        in (loop \<or> f \<ge> 16, reg\<lparr>sr_ls_failc := f, sr_ls_last := scode\<rparr>))"

definition sip_loopstate_reset :: "sipreg \<Rightarrow> sipreg" where
  "sip_loopstate_reset reg = reg\<lparr>sr_ls_last := 0, sr_ls_failc := 0\<rparr>"

definition request :: "renv \<Rightarrow> bool \<Rightarrow> sipreg \<Rightarrow> err \<times> reff list \<times> sipreg" where
  "request env reset_ls reg = (let
     reg = (if sr_terminated reg then reg\<lparr>sr_expires := 0\<rparr> else reg);
     reg = (if reset_ls then sip_loopstate_reset reg else reg)
   in if re_send env \<noteq> 0 then (re_send env, [], reg) else (0, [R_Request (sr_expires reg)], reg\<lparr>sr_req := True\<rparr>))"

text \<open>What \<open>mem_deref(reg)\<close> does with the last reference: the destructor may keep the client.\<close>

definition destructor :: "renv \<Rightarrow> sipreg \<Rightarrow> rresult" where
  "destructor env reg = (let reg = reg\<lparr>sr_tmr := False\<rparr> in
     if sr_terminated reg then ([R_TimerCancel, R_Free], None)
     else let reg = reg\<lparr>sr_resph := False, sr_terminated := True\<rparr> in
       if sr_req reg then ([R_TimerCancel], Some reg)
       else if sr_registered reg then
         let (e, es, reg) = request env True reg
         in if e = 0 then (R_TimerCancel # es, Some reg) else (R_TimerCancel # es @ [R_Free], None)
       else ([R_TimerCancel, R_Free], None))"

text \<open>Seconds doubling from 30 to 1800, times 500 to 1000: a delay in ms.\<close>

definition failwait :: "u16 \<Rightarrow> u32 \<Rightarrow> u32" where
  "failwait rand failc = min 1800 (30 * push_bit (unat (min failc 6)) 1) * (500 + ucast rand mod 501)"

definition start_timer :: "u32 \<Rightarrow> sipreg \<Rightarrow> reff list \<times> sipreg" where
  "start_timer delay reg = ([R_Timer (ucast delay)], reg\<lparr>sr_tmr := True\<rparr>)"

text \<open>The timer has fired.\<close>

definition tmr_handler :: "renv \<Rightarrow> sipreg \<Rightarrow> rresult" where
  "tmr_handler env reg = (let (e, es, reg) = request env True reg in
     if e = 0 then (es, Some reg)
     else let reg = reg\<lparr>sr_failc := sr_failc reg + 1\<rparr>; (ts, reg) = start_timer (failwait (re_rand env) (sr_failc reg)) reg
       in (es @ ts @ call_resph e None reg, Some reg))"

definition keepalive_handler :: "renv \<Rightarrow> err \<Rightarrow> sipreg \<Rightarrow> rresult" where
  "keepalive_handler env e reg =
     (if sr_req reg \<or> sr_terminated reg then ([], Some reg)
      else let reg = reg\<lparr>sr_failc := sr_failc reg + 1\<rparr>; (ts, reg) = start_timer (failwait (re_rand env) (sr_failc reg)) reg
        in (ts @ call_resph e None reg, Some reg))"

definition start_outbound :: "renv \<Rightarrow> response \<Rightarrow> sipreg \<Rightarrow> reff list \<times> sipreg" where
  "start_outbound env msg reg =
     (if \<not> rp_outbound msg then ([], reg)
      else ([R_Keepalive (case rp_flow_timer msg of Some t \<Rightarrow> t | None \<Rightarrow> 0)], reg\<lparr>sr_ka := re_ka env\<rparr>))"

text \<open>\<open>sip_msg_hdr_apply\<close> with \<open>contact_handler\<close>: the first contact of ours sets the time.\<close>

fun contacts_wait :: "(bool \<times> u32 option) list \<Rightarrow> u32 option \<Rightarrow> u32 \<Rightarrow> u32" where
  "contacts_wait [] ex wait = wait"
| "contacts_wait ((mine, param) # cs) ex wait =
     (if mine then (case param of Some v \<Rightarrow> v | None \<Rightarrow> (case ex of Some v \<Rightarrow> v | None \<Rightarrow> DEFAULT_EXPIRES))
      else contacts_wait cs ex wait)"

text \<open>The code after the label \<open>out\<close>; \<open>mem_deref(reg)\<close> there drops the reference the client has to itself.\<close>

definition response_out :: "renv \<Rightarrow> err \<Rightarrow> response option \<Rightarrow> sipreg \<Rightarrow> rresult" where
  "response_out env e msg reg =
     (if sr_expires reg = 0 then
        let reg = (case msg of Some m \<Rightarrow> if rp_scode m \<ge> 400 \<and> rp_scode m < 500 then reg\<lparr>sr_fbregint := 0\<rparr> else reg | None \<Rightarrow> reg)
        in if \<not> sr_terminated reg \<and> sr_fbregint reg \<noteq> 0 then
             let (ts, reg) = start_timer (sr_fbregint reg * 1000) reg in (ts @ call_resph e msg reg, Some reg)
           else if sr_terminated reg then destructor env reg
           else ([], Some reg)
      else if sr_terminated reg then
        if \<not> sr_registered reg then destructor env reg
        else let (e', es, reg) = request env True reg
          in if e' = 0 then (es, Some reg) else let (fs, r) = destructor env reg in (es @ fs, r)
      else let (ts, reg) = start_timer (sr_wait reg) reg in (ts @ call_resph e msg reg, Some reg))"

definition bump_failc :: "sipreg \<Rightarrow> sipreg" where
  "bump_failc reg = reg\<lparr>sr_failc := sr_failc reg + 1\<rparr>"

text \<open>A successful response, and the answers to a failed one: the request is sent again or given up.\<close>

definition response_ok :: "renv \<Rightarrow> response \<Rightarrow> sipreg \<Rightarrow> reff list \<times> sipreg" where
  "response_ok env m reg = (let
     wait = contacts_wait (rp_contacts m) (rp_expires m) (sr_expires reg);
     reg = reg\<lparr>sr_wait := wait * (sr_rwait reg * (1000 div 100)), sr_registered := wait > 0, sr_pexpires := wait, sr_failc := 0\<rparr>
   in if sr_regid reg > 0 \<and> \<not> sr_terminated reg \<and> \<not> sr_ka reg then start_outbound env m reg else ([], reg))"

definition request_again :: "renv \<Rightarrow> response \<Rightarrow> sipreg \<Rightarrow> rresult" where
  "request_again env m reg = (let (e, es, reg) = request env False reg in
     if e = 0 then (es, Some reg) else let (os, r) = response_out env e (Some m) (bump_failc reg) in (es @ os, r))"

definition response_fail :: "renv \<Rightarrow> response \<Rightarrow> sipreg \<Rightarrow> rresult" where
  "response_fail env m reg = (let give_up = (\<lambda>e. response_out env e (Some m) (bump_failc reg)) in
     if sr_terminated reg \<and> \<not> sr_registered reg then response_out env 0 (Some m) reg
     else if rp_scode m = 401 \<or> rp_scode m = 407 then
       let (os, r) = (if re_auth env \<noteq> 0 then give_up (if re_auth env = EAUTH then 0 else re_auth env) else request_again env m reg)
       in (R_AuthReset # os, r)
     else if rp_scode m = 403 then let (os, r) = give_up 0 in (R_AuthReset # os, r)
     else if rp_scode m = 423 then
       (case rp_min_expires m of None \<Rightarrow> give_up 0
        | Some x \<Rightarrow> if x = 0 \<or> sr_expires reg = 0 then give_up 0 else request_again env m (reg\<lparr>sr_expires := x\<rparr>))
     else give_up 0)"

definition reg_response_handler :: "renv \<Rightarrow> err \<Rightarrow> response option \<Rightarrow> sipreg \<Rightarrow> rresult" where
  "reg_response_handler env e msg reg = (let reg = reg\<lparr>sr_wait := failwait (re_rand env) (sr_failc reg + 1)\<rparr> in
     case msg of None \<Rightarrow> response_out env e msg (bump_failc reg)
     | Some m \<Rightarrow>
         if e \<noteq> 0 then response_out env e msg (bump_failc reg)
         else let (loop, reg) = sip_request_loops reg (rp_scode m) in
           if loop then response_out env e msg (bump_failc reg)
           else if rp_scode m < 200 then ([], Some reg)
           else if rp_scode m < 300 then
             let (ks, reg) = response_ok env m reg; (os, r) = response_out env e msg reg in (ks @ os, r)
           else response_fail env m reg)"

text \<open>Allocation: \<open>e_alloc\<close> is the error of the allocations before the first request.\<close>

definition sipreg_register :: "err \<Rightarrow> renv \<Rightarrow> u32 \<Rightarrow> int \<Rightarrow> err \<times> reff list \<times> sipreg option" where
  "sipreg_register e_alloc env expires regid = (let
     reg = \<lparr>sr_ls_failc = 0, sr_ls_last = 0, sr_tmr = False, sr_ka = False, sr_req = False, sr_resph = False, sr_expires = 0, sr_pexpires = 0,
       sr_failc = 0, sr_rwait = 0, sr_wait = 0, sr_fbregint = 0, sr_registered = False, sr_terminated = False, sr_regid = 0\<rparr>
   in if e_alloc \<noteq> 0 then let (es, r) = destructor env reg in (e_alloc, es, r)
      else let (e, es, reg) = request env True (reg\<lparr>sr_expires := expires, sr_rwait := 90, sr_resph := True, sr_regid := regid\<rparr>)
        in if e \<noteq> 0 then let (fs, r) = destructor env reg in (e, es @ fs, r) else (0, es, Some reg))"

definition sipreg_set_rwait :: "u32 \<Rightarrow> sipreg \<Rightarrow> err \<times> sipreg" where
  "sipreg_set_rwait rwait reg = (if rwait < 5 \<or> rwait > 95 then (EINVAL, reg) else (0, reg\<lparr>sr_rwait := rwait\<rparr>))"

definition sipreg_proxy_expires :: "sipreg option \<Rightarrow> u32" where
  "sipreg_proxy_expires reg = (case reg of None \<Rightarrow> 0 | Some r \<Rightarrow> sr_pexpires r)"

definition sipreg_registered :: "sipreg option \<Rightarrow> bool" where
  "sipreg_registered reg = (case reg of None \<Rightarrow> False | Some r \<Rightarrow> sr_registered r)"

definition sipreg_failed :: "sipreg option \<Rightarrow> bool" where
  "sipreg_failed reg = (case reg of None \<Rightarrow> False | Some r \<Rightarrow> sr_failc r > 0)"

definition sipreg_incfailc :: "sipreg \<Rightarrow> sipreg" where
  "sipreg_incfailc reg = reg\<lparr>sr_failc := sr_failc reg + 1\<rparr>"

definition sipreg_set_fbregint :: "u32 \<Rightarrow> sipreg \<Rightarrow> err \<times> sipreg" where
  "sipreg_set_fbregint fbregint reg = (0, reg\<lparr>sr_fbregint := fbregint\<rparr>)"


subsection \<open>Runs of a client\<close>

text \<open>
  What can happen to a client. The request layer clears the client's pointer to the request before it reports a final
  result, not for a provisional response (\<open>terminate\<close> in \<open>sip/request.c\<close>). The handlers call the owner last, so
  what the owner does in there, dropping the client included, is the event that follows.
\<close>

datatype revent = E_Response renv err "response option" | E_Timer renv | E_KeepaliveFail renv err | E_Drop renv
  | E_SetRwait u32 | E_SetFbregint u32 | E_Incfailc

definition provisional :: "response option \<Rightarrow> bool" where
  "provisional msg = (case msg of Some m \<Rightarrow> rp_scode m < 200 | None \<Rightarrow> False)"

definition possible :: "sipreg \<Rightarrow> revent \<Rightarrow> bool" where
  "possible reg ev = (case ev of
     E_Response env e msg \<Rightarrow> sr_req reg \<and> (provisional msg \<longrightarrow> e = 0)
   | E_Timer env \<Rightarrow> sr_tmr reg
   | E_KeepaliveFail env e \<Rightarrow> sr_ka reg
   | _ \<Rightarrow> \<not> sr_terminated reg)"

definition reg_step :: "sipreg \<Rightarrow> revent \<Rightarrow> rresult" where
  "reg_step reg ev = (case ev of
     E_Response env e msg \<Rightarrow> reg_response_handler env e msg (if provisional msg then reg else reg\<lparr>sr_req := False\<rparr>)
   | E_Timer env \<Rightarrow> tmr_handler env (reg\<lparr>sr_tmr := False\<rparr>)
   | E_KeepaliveFail env e \<Rightarrow> keepalive_handler env e (reg\<lparr>sr_ka := False\<rparr>)
   | E_Drop env \<Rightarrow> destructor env reg
   | E_SetRwait w \<Rightarrow> ([], Some (snd (sipreg_set_rwait w reg)))
   | E_SetFbregint w \<Rightarrow> ([], Some (snd (sipreg_set_fbregint w reg)))
   | E_Incfailc \<Rightarrow> ([], Some (sipreg_incfailc reg)))"

text \<open>A run: events that cannot happen in the state they meet are skipped; the effects are collected.\<close>

fun reg_run :: "rresult \<Rightarrow> revent list \<Rightarrow> rresult" where
  "reg_run (es, r) [] = (es, r)"
| "reg_run (es, None) (ev # evs) = (es, None)"
| "reg_run (es, Some reg) (ev # evs) =
     (if possible reg ev then reg_run (es @ fst (reg_step reg ev), snd (reg_step reg ev)) evs
      else reg_run (es, Some reg) evs)"

text \<open>The expiry in the last REGISTER among the effects.\<close>

fun last_request :: "reff list \<Rightarrow> u32 option" where
  "last_request [] = None"
| "last_request (e # es) = (case last_request es of Some x \<Rightarrow> Some x
     | None \<Rightarrow> (case e of R_Request x \<Rightarrow> Some x | _ \<Rightarrow> None))"

lemma last_request_append [simp]:
  "last_request (xs @ ys) = (case last_request ys of Some x \<Rightarrow> Some x | None \<Rightarrow> last_request xs)"
  by (induction xs) (auto split: option.splits)

subsection \<open>The invariant\<close>

text \<open>
  \<open>x\<close> is whether the client was started with an expiry, \<open>tr\<close> the effects so far. A dropped client waits for a
  response; a client in use that has an expiry waits for a response or for its timer, never for both.
\<close>

definition reg_ok :: "bool \<Rightarrow> reff list \<Rightarrow> sipreg \<Rightarrow> bool" where
  "reg_ok x tr r =
     ((sr_terminated r \<longrightarrow> sr_req r) \<and> (sr_tmr r \<longrightarrow> \<not> sr_terminated r \<and> \<not> sr_req r)
      \<and> (\<not> sr_terminated r \<longrightarrow> (sr_expires r \<noteq> 0) = x \<and> (x \<longrightarrow> sr_req r \<or> sr_tmr r))
      \<and> (sr_req r \<longrightarrow> sr_ls_failc r < 16 \<and> last_request tr = Some (sr_expires r))
      \<and> sr_resph r = (\<not> sr_terminated r) \<and> 5 \<le> sr_rwait r \<and> sr_rwait r \<le> 95)"

text \<open>Between the response and the next request: nothing is pending.\<close>

definition reg_idle :: "bool \<Rightarrow> sipreg \<Rightarrow> bool" where
  "reg_idle x r = (\<not> sr_req r \<and> \<not> sr_tmr r \<and> (\<not> sr_terminated r \<longrightarrow> (sr_expires r \<noteq> 0) = x)
     \<and> sr_resph r = (\<not> sr_terminated r) \<and> 5 \<le> sr_rwait r \<and> sr_rwait r \<le> 95)"

definition result_ok :: "bool \<Rightarrow> reff list \<Rightarrow> rresult \<Rightarrow> bool" where
  "result_ok x tr res = (case snd res of None \<Rightarrow> True | Some r \<Rightarrow> reg_ok x (tr @ fst res) r)"

lemmas reg_defs = request_def start_timer_def call_resph_def sip_loopstate_reset_def Let_def

lemma response_out_ok:
  assumes "reg_idle x r"
  shows "result_ok x tr (response_out env e msg r)"
  using assms
  by (auto simp: result_ok_def response_out_def destructor_def reg_defs reg_idle_def reg_ok_def
      split: option.splits prod.splits if_splits)


lemma request_loops_state:
  "sip_request_loops r c = (l, r') \<Longrightarrow>
     r' = r\<lparr>sr_ls_failc := sr_ls_failc r', sr_ls_last := sr_ls_last r'\<rparr> \<and> (200 \<le> c \<longrightarrow> l \<or> sr_ls_failc r' < 16)"
  by (auto simp: sip_request_loops_def Let_def not_le split: if_splits)

lemma request_loops_idle: "sip_request_loops r c = (l, r') \<Longrightarrow> reg_idle x r \<Longrightarrow> reg_idle x r'"
  by (auto simp: sip_request_loops_def reg_idle_def Let_def split: if_splits)

lemma request_loops_terminated: "sip_request_loops r c = (l, r') \<Longrightarrow> sr_terminated r' = sr_terminated r"
  by (auto simp: sip_request_loops_def Let_def split: if_splits)

lemma bump_idle [simp]: "reg_idle x (bump_failc r) = reg_idle x r"
  by (simp add: bump_failc_def reg_idle_def)

lemma result_ok_app: "result_ok x (tr @ es) (os, r) \<Longrightarrow> result_ok x tr (es @ os, r)"
  by (simp add: result_ok_def split: option.splits)

lemma result_ok_shift:
  "result_ok x tr (os, r) \<Longrightarrow> last_request es = None \<Longrightarrow> result_ok x tr (es @ os, r)"
  by (auto simp: result_ok_def reg_ok_def split: option.splits)

lemma response_ok_idle:
  "response_ok env m r = (es, r') \<Longrightarrow> reg_idle x r \<Longrightarrow> reg_idle x r' \<and> last_request es = None"
  by (auto simp: response_ok_def start_outbound_def reg_idle_def Let_def split: if_splits)

lemma request_again_ok:
  assumes "reg_idle x r" and "sr_ls_failc r < 16"
  shows "result_ok x tr (request_again env m r)"
proof (cases "re_send env = 0")
  case True
  then show ?thesis
    using assms by (auto simp: request_again_def result_ok_def reg_defs reg_idle_def reg_ok_def)
next
  case False
  define q where "q = (if sr_terminated r then r\<lparr>sr_expires := 0\<rparr> else r)"
  have "reg_idle x q" using assms(1) by (auto simp: q_def reg_idle_def)
  then have "result_ok x tr (response_out env (re_send env) (Some m) (bump_failc q))" by (simp add: response_out_ok)
  then show ?thesis using False by (simp add: request_again_def reg_defs q_def split: prod.split)
qed

text \<open>A property of results that every answer to a failed response has.\<close>

lemma response_fail_rule:
  assumes out: "\<And>e. P (response_out env e (Some m) (bump_failc r))" "P (response_out env 0 (Some m) r)"
    and again: "P (request_again env m r)"
      "\<And>w. w \<noteq> 0 \<Longrightarrow> sr_expires r \<noteq> 0 \<Longrightarrow> P (request_again env m (r\<lparr>sr_expires := w\<rparr>))"
    and auth: "\<And>res. P res \<Longrightarrow> P (R_AuthReset # fst res, snd res)"
  shows "P (response_fail env m r)"
proof -
  have "P (case res of (os, s) \<Rightarrow> (R_AuthReset # os, s))" if "P res" for res
    using auth[OF that] by (cases res) simp
  note auth' = this[OF out(1)] this[OF again(1)]
  show ?thesis
    unfolding response_fail_def Let_def
    by (simp add: out again auth' split: option.split)
qed

lemma response_fail_ok:
  assumes r: "reg_idle x r" and f: "sr_ls_failc r < 16"
  shows "result_ok x tr (response_fail env m r)"
proof (rule response_fail_rule)
  fix w :: u32 assume "w \<noteq> 0" "sr_expires r \<noteq> 0"
  then have "reg_idle x (r\<lparr>sr_expires := w\<rparr>)" using r by (auto simp: reg_idle_def)
  then show "result_ok x tr (request_again env m (r\<lparr>sr_expires := w\<rparr>))" using f by (simp add: request_again_ok)
next
  fix res assume "result_ok x tr res"
  then show "result_ok x tr (R_AuthReset # fst res, snd res)"
    using result_ok_shift[of x tr "fst res" "snd res" "[R_AuthReset]"] by simp
qed (use r f in \<open>simp_all add: response_out_ok request_again_ok\<close>)

lemma reg_response_handler_ok:
  assumes "reg_idle x r" and "\<not> provisional msg"
  shows "result_ok x tr (reg_response_handler env e msg r)"
proof -
  define q where "q = r\<lparr>sr_wait := failwait (re_rand env) (sr_failc r + 1)\<rparr>"
  have q: "reg_idle x q" using assms(1) by (simp add: q_def reg_idle_def)
  have out: "result_ok x tr (response_out env e' msg (bump_failc q))" for e'
    using q by (simp add: response_out_ok)
  show ?thesis
  proof (cases "msg = None \<or> e \<noteq> 0")
    case True
    then show ?thesis using out by (auto simp: reg_response_handler_def Let_def q_def split: option.split)
  next
    case False
    then obtain m where m: "msg = Some m" "e = 0" "200 \<le> rp_scode m"
      using assms(2) by (auto simp: provisional_def not_less split: option.splits)
    obtain l q' where l: "sip_request_loops q (rp_scode m) = (l, q')" by fastforce
    have q': "reg_idle x q'" using request_loops_idle[OF l q] .
    have eq: "reg_response_handler env e msg r = (if l then response_out env e msg (bump_failc q')
        else if rp_scode m < 300 then (let (ks, s) = response_ok env m q'; (os, s) = response_out env e msg s in (ks @ os, s))
        else response_fail env m q')"
      using m l leD[OF m(3)] by (simp add: reg_response_handler_def Let_def q_def)
    obtain ks s where s: "response_ok env m q' = (ks, s)" by fastforce
    have "reg_idle x s" and ks: "last_request ks = None" using response_ok_idle[OF s q'] by auto
    then have "result_ok x tr (response_out env e msg s)" by (simp add: response_out_ok)
    then have "result_ok x tr (let (os, s) = response_out env e msg s in (ks @ os, s))"
      using result_ok_shift[OF _ ks] by (auto split: prod.split)
    moreover have "l \<or> sr_ls_failc q' < 16" using request_loops_state[OF l] m by blast
    ultimately show ?thesis
      unfolding eq using q' by (auto simp: s response_out_ok response_fail_ok)
  qed
qed

lemma provisional_nothing:
  assumes "provisional msg"
  shows "reg_response_handler env 0 msg r = ([], Some (r\<lparr>sr_wait := failwait (re_rand env) (sr_failc r + 1)\<rparr>))"
  using assms by (auto simp: provisional_def reg_response_handler_def sip_request_loops_def Let_def split: option.splits)

lemma reg_step_ok:
  assumes "reg_ok x tr r" and "possible r ev"
  shows "result_ok x tr (reg_step r ev)"
proof (cases ev)
  case (E_Response env e msg)
  show ?thesis
  proof (cases "provisional msg")
    case True
    then have "reg_step r ev = ([], Some (r\<lparr>sr_wait := failwait (re_rand env) (sr_failc r + 1)\<rparr>))"
      using assms(2) by (simp add: E_Response reg_step_def possible_def provisional_nothing)
    then show ?thesis using assms(1) by (simp add: result_ok_def reg_ok_def)
  next
    case False
    have "reg_idle x (r\<lparr>sr_req := False\<rparr>)"
      using assms by (auto simp: E_Response possible_def reg_ok_def reg_idle_def)
    then show ?thesis using False by (simp add: E_Response reg_step_def reg_response_handler_ok)
  qed
qed (use assms in \<open>auto simp: possible_def reg_step_def result_ok_def tmr_handler_def keepalive_handler_def destructor_def
       sipreg_set_rwait_def sipreg_set_fbregint_def sipreg_incfailc_def reg_defs reg_ok_def not_less
       split: if_splits option.splits\<close>)

lemma reg_run_ok:
  "(\<forall>q. r = Some q \<longrightarrow> reg_ok x tr q) \<Longrightarrow> result_ok x [] (reg_run (tr, r) evs)"
proof (induction "(tr, r)" evs arbitrary: tr r rule: reg_run.induct)
  case (3 es reg ev evs)
  show ?case
  proof (cases "possible reg ev")
    case True
    have "result_ok x es (reg_step reg ev)" using reg_step_ok 3(3) True by blast
    then have "\<forall>q. snd (reg_step reg ev) = Some q \<longrightarrow> reg_ok x (es @ fst (reg_step reg ev)) q"
      by (simp add: result_ok_def split: option.splits)
    from 3(1)[OF True this] show ?thesis using True by simp
  qed (use 3 in simp)
qed (auto simp: result_ok_def split: option.split)

lemma sipreg_register_ok:
  assumes "sipreg_register e_alloc env expires regid = (e, es, Some r)"
  shows "reg_ok (expires \<noteq> 0) es r \<and> \<not> sr_terminated r"
  using assms by (auto simp: sipreg_register_def destructor_def reg_defs reg_ok_def split: if_splits)


subsection \<open>Delays\<close>

lemma failwait_factor: "30 \<le> (min 1800 (30 * push_bit (unat (min (failc :: u32) 6)) 1) :: u32)" (is "_ \<le> ?f")
  and failwait_factor': "(min 1800 (30 * push_bit (unat (min failc 6)) 1) :: u32) \<le> 1800"
proof -
  have "min failc 6 \<le> (6 :: u32)" by (rule min.cobounded2)
  then have "unat (min failc 6) \<le> 6" by (simp only: word_le_nat_alt) simp
  then have "unat (min failc 6) \<in> {0, 1, 2, 3, 4, 5, 6}" unfolding insert_iff empty_iff by linarith
  then show "30 \<le> ?f" by (auto simp: min_def)
  show "?f \<le> 1800" by simp
qed

lemma failwait_range: "15000 \<le> uint (failwait rand failc) \<and> uint (failwait rand failc) \<le> 1800000"
proof -
  define f where "f = (min 1800 (30 * push_bit (unat (min failc 6)) 1) :: u32)"
  define g where "g = (500 + ucast rand mod 501 :: u32)"
  have f: "30 \<le> uint f" "uint f \<le> 1800"
    using failwait_factor[of failc] failwait_factor'[of failc] by (simp_all add: f_def word_le_def)
  have g: "500 \<le> uint g" "uint g \<le> 1000"
  proof -
    define a where "a = (ucast rand mod 501 :: u32)"
    have a: "0 \<le> uint a" "uint a \<le> 500"
      using pos_mod_bound[of 501 "uint (ucast rand :: u32)"] by (simp_all add: a_def uint_mod)
    have "uint (500 + a) = 500 + uint a"
      using a by (simp add: uint_word_ariths)
    then show "500 \<le> uint g" "uint g \<le> 1000" using a by (simp_all add: g_def a_def)
  qed
  have "uint f * uint g \<le> 1800 * 1000" by (rule mult_mono) (use f g in auto)
  moreover have "30 * 500 \<le> uint f * uint g" by (rule mult_mono) (use f g in auto)
  moreover have "failwait rand failc = f * g" by (simp add: failwait_def f_def g_def)
  moreover have "uint (f * g) = uint f * uint g"
    using \<open>uint f * uint g \<le> 1800 * 1000\<close> f g by (simp add: uint_word_ariths)
  ultimately show ?thesis by simp
qed

lemma response_out_timers:
  "R_Timer t \<in> set (fst (response_out env e msg r)) \<Longrightarrow> \<not> sr_terminated r \<and>
     t = (if sr_expires r = 0 then ucast (sr_fbregint r * 1000) else ucast (sr_wait r))"
  by (auto simp: response_out_def destructor_def reg_defs split: if_splits option.splits)

lemma request_again_timers:
  "R_Timer t \<in> set (fst (request_again env m r)) \<Longrightarrow> \<not> sr_terminated r \<and>
     t = (if sr_expires r = 0 then ucast (sr_fbregint r * 1000) else ucast (sr_wait r))"
  by (auto simp: request_again_def reg_defs bump_failc_def dest!: response_out_timers split: if_splits prod.splits)


subsection \<open>A client that was dropped\<close>

definition quiet :: "rresult \<Rightarrow> bool" where
  "quiet res = ((\<forall>ef \<in> set (fst res). case ef of R_Resp e m \<Rightarrow> False | R_Timer t \<Rightarrow> False | _ \<Rightarrow> True)
     \<and> count_list (fst res) R_Free = (if snd res = None then 1 else 0)
     \<and> (case snd res of None \<Rightarrow> True | Some r \<Rightarrow> sr_terminated r))"

lemma count_list_app [simp]: "count_list (xs @ ys) a = count_list xs a + count_list ys a"
  by (induction xs) auto

lemma quiet_app: "quiet (es, Some r) \<Longrightarrow> quiet (os, s) \<Longrightarrow> quiet (es @ os, s)"
  by (auto simp: quiet_def)

lemma destructor_quiet: "quiet (destructor env r)"
  by (auto simp: quiet_def destructor_def reg_defs split: if_splits)

lemma response_out_quiet: "sr_terminated r \<Longrightarrow> quiet (response_out env e msg r)"
  by (auto simp: quiet_def response_out_def destructor_def reg_defs split: if_splits option.splits)

lemma bump_terminated [simp]: "sr_terminated (bump_failc r) = sr_terminated r"
  by (simp add: bump_failc_def)

lemma request_again_quiet: "sr_terminated r \<Longrightarrow> quiet (request_again env m r)"
  using response_out_quiet[of "bump_failc (r\<lparr>sr_expires := 0\<rparr>)" env "re_send env" "Some m"]
  by (auto simp: request_again_def reg_defs quiet_def split: prod.split)

lemma response_fail_quiet: "sr_terminated r \<Longrightarrow> quiet (response_fail env m r)"
  by (rule response_fail_rule) (auto simp: response_out_quiet request_again_quiet quiet_def[of "(R_AuthReset # _, _)"] quiet_def[of "(_, _)"] dest: quiet_def[THEN iffD1])

lemma response_ok_quiet: "response_ok env m r = (ks, s) \<Longrightarrow> sr_terminated r \<Longrightarrow> ks = [] \<and> sr_terminated s"
  by (auto simp: response_ok_def Let_def)

lemma reg_response_handler_quiet: "sr_terminated r \<Longrightarrow> quiet (reg_response_handler env e msg r)"
proof -
  assume t: "sr_terminated r"
  define q where "q = r\<lparr>sr_wait := failwait (re_rand env) (sr_failc r + 1)\<rparr>"
  have out: "quiet (response_out env e msg (bump_failc q))" using t by (simp add: q_def response_out_quiet)
  show ?thesis
  proof (cases "msg = None \<or> e \<noteq> 0")
    case True
    then show ?thesis using out by (auto simp: reg_response_handler_def Let_def q_def split: option.split)
  next
    case False
    then obtain m where m: "msg = Some m" "e = 0" by auto
    obtain l q' where l: "sip_request_loops q (rp_scode m) = (l, q')" by fastforce
    have t': "sr_terminated q'" using request_loops_terminated[OF l] t by (simp add: q_def)
    obtain ks s where s: "response_ok env m q' = (ks, s)" by fastforce
    have "ks = []" "sr_terminated s" using response_ok_quiet[OF s t'] by auto
    then have "quiet (case response_out env e msg s of (os, r) \<Rightarrow> (ks @ os, r))"
      using response_out_quiet[of s env e msg] by (simp split: prod.split)
    moreover have "quiet ([], Some q')" using t' by (simp add: quiet_def)
    ultimately show ?thesis
      using m l s t' response_out_quiet[of "bump_failc q'" env e msg]
      by (simp add: reg_response_handler_def Let_def flip: q_def) (simp add: response_fail_quiet)
  qed
qed

lemma keepalive_terminated: "sr_terminated r \<Longrightarrow> keepalive_handler env e r = ([], Some r)"
  by (simp add: keepalive_handler_def)

lemma reg_step_quiet:
  assumes "sr_terminated r" and "\<not> sr_tmr r" and "possible r ev"
  shows "quiet (reg_step r ev)"
proof (cases ev)
  case (E_Response env e msg)
  then show ?thesis using assms(1) by (simp add: reg_step_def reg_response_handler_quiet)
next
  case (E_KeepaliveFail env e)
  then show ?thesis using assms(1) by (simp add: reg_step_def keepalive_terminated quiet_def)
qed (use assms in \<open>simp_all add: possible_def\<close>)

lemma reg_run_quiet:
  "r = Some q \<Longrightarrow> sr_terminated q \<Longrightarrow> reg_ok x tr q \<Longrightarrow> reg_run (tr, r) evs = (tr', r') \<Longrightarrow>
     \<exists>es. tr' = tr @ es \<and> quiet (es, r')"
proof (induction "(tr, r)" evs arbitrary: tr r q rule: reg_run.induct)
  case (3 es reg ev evs)
  note IH = 3(1) and run = 3(6)
  from 3(3) have [simp]: "q = reg" by simp
  have t: "sr_terminated reg" and ok: "reg_ok x es reg" using 3(4,5) by simp_all
  show ?case
  proof (cases "possible reg ev")
    case True
    define st where "st = reg_step reg ev"
    have q: "quiet st" using reg_step_quiet[OF t _ True] t ok by (simp add: reg_ok_def st_def)
    have ok': "result_ok x es st" using reg_step_ok[OF ok True] by (simp add: st_def)
    have run': "reg_run (es @ fst st, snd st) evs = (tr', r')" using run True by (simp add: st_def)
    show ?thesis
    proof (cases "snd st")
      case None
      then have "tr' = es @ fst st \<and> r' = None" using run' by (cases evs) auto
      then show ?thesis using q None by (metis prod.collapse)
    next
      case (Some s)
      have s: "sr_terminated s" "reg_ok x (es @ fst st) s" using q ok' Some by (simp_all add: quiet_def result_ok_def)
      obtain os where os: "tr' = (es @ fst st) @ os" "quiet (os, r')"
        using IH[folded st_def, OF True Some s run'] by blast
      have "quiet (fst st, Some s)" using q Some by (metis prod.collapse)
      from quiet_app[OF this os(2)] show ?thesis using os(1) by auto
    qed
  qed (use 3(2)[of reg] run t ok in auto)
qed (auto simp: quiet_def)


text \<open>What the client believes of its binding after a final response: the last granting response counts.\<close>

definition bound_after :: "sipreg \<Rightarrow> revent \<Rightarrow> bool" where
  "bound_after r ev = (case ev of
     E_Response env e (Some m) \<Rightarrow>
       if e = 0 \<and> 200 \<le> rp_scode m \<and> rp_scode m < 300 then contacts_wait (rp_contacts m) (rp_expires m) (sr_expires r) > 0
       else sr_registered r
   | _ \<Rightarrow> sr_registered r)"

definition sends_ok :: "revent \<Rightarrow> bool" where
  "sends_ok ev = (case ev of E_Response env e msg \<Rightarrow> re_send env = 0 | E_Timer env \<Rightarrow> re_send env = 0
     | E_Drop env \<Rightarrow> re_send env = 0 | _ \<Rightarrow> True)"

lemma response_out_frees:
  "snd (response_out env e msg r) = None \<Longrightarrow> re_send env = 0 \<Longrightarrow> sr_terminated r \<and> (sr_expires r = 0 \<or> \<not> sr_registered r)"
  by (auto simp: response_out_def reg_defs split: if_splits option.splits)

lemma response_fail_frees:
  "snd (response_fail env m r) = None \<Longrightarrow> re_send env = 0 \<Longrightarrow> sr_terminated r \<and> (sr_expires r = 0 \<or> \<not> sr_registered r)"
  using response_out_frees[of env _ "Some m" "bump_failc r"] response_out_frees[of env 0 "Some m" r]
  by (auto simp: response_fail_def request_again_def reg_defs bump_failc_def split: if_splits option.splits prod.splits)
    (metis snd_conv)+

lemma response_ok_bound:
  "response_ok env m r = (ks, s) \<Longrightarrow>
     sr_registered s = (contacts_wait (rp_contacts m) (rp_expires m) (sr_expires r) > 0) \<and> sr_expires s = sr_expires r
     \<and> sr_terminated s = sr_terminated r"
  by (auto simp: response_ok_def start_outbound_def Let_def split: if_splits)

lemma reg_response_handler_frees:
  assumes n: "snd (reg_response_handler env e msg r) = None" and ok: "re_send env = 0" and p: "\<not> provisional msg"
  shows "sr_terminated r \<and> (sr_expires r = 0 \<or> \<not> bound_after r (E_Response env e msg))"
proof -
  define q where "q = r\<lparr>sr_wait := failwait (re_rand env) (sr_failc r + 1)\<rparr>"
  show ?thesis
  proof (cases "msg = None \<or> e \<noteq> 0")
    case True
    then have "snd (response_out env e msg (bump_failc q)) = None"
      using n by (auto simp: reg_response_handler_def Let_def q_def split: option.splits)
    from response_out_frees[OF this ok] show ?thesis
      using True by (auto simp: bump_failc_def q_def bound_after_def split: option.split)
  next
    case False
    then obtain m where m: "msg = Some m" "e = 0" "\<not> rp_scode m < 200"
      using p by (auto simp: provisional_def split: option.splits)
    obtain l q' where l: "sip_request_loops q (rp_scode m) = (l, q')" by fastforce
    have q': "sr_expires q' = sr_expires r" "sr_registered q' = sr_registered r" "sr_terminated q' = sr_terminated r"
      using l by (auto simp: sip_request_loops_def q_def Let_def split: if_splits)
    have loop: "\<not> l" if "rp_scode m < 300"
      using l that m(3) by (auto simp: sip_request_loops_def split: if_splits)
    obtain ks s where s: "response_ok env m q' = (ks, s)" by fastforce
    have eq: "snd (if l then response_out env e msg (bump_failc q')
        else if rp_scode m < 300 then (let (os, r) = response_out env e msg s in (ks @ os, r)) else response_fail env m q') = None"
      using n m l s by (cases l) (auto simp: reg_response_handler_def Let_def simp flip: q_def)
    consider "l" | "\<not> l" "rp_scode m < 300" | "\<not> l" "\<not> rp_scode m < 300" by blast
    then show ?thesis
    proof cases
      case 1
      then have "snd (response_out env e msg (bump_failc q')) = None" using eq by simp
      from response_out_frees[OF this ok] show ?thesis
        using 1 loop q' m by (auto simp: bump_failc_def bound_after_def)
    next
      case 2
      then have "snd (response_out env e msg s) = None" using eq by (auto split: prod.splits)
      from response_out_frees[OF this ok] show ?thesis
        using response_ok_bound[OF s] q' 2 m by (auto simp: bound_after_def)
    next
      case 3
      then have "snd (response_fail env m q') = None" using eq by simp
      from response_fail_frees[OF this ok] show ?thesis using q' 3 m by (auto simp: bound_after_def)
    qed
  qed
qed


text \<open>How many final responses a dropped client can still wait for.\<close>

definition patience :: "sipreg \<Rightarrow> nat" where
  "patience r = (if sr_expires r = 0 then 0 else 16) + (16 - unat (sr_ls_failc r))"

definition final :: "revent \<Rightarrow> bool" where
  "final ev = (case ev of E_Response env e msg \<Rightarrow> \<not> provisional msg | _ \<Rightarrow> False)"

lemma response_out_patience:
  "snd (response_out env e msg r) = Some r' \<Longrightarrow> sr_terminated r \<Longrightarrow> sr_expires r \<noteq> 0 \<and> patience r' = 16"
  by (auto simp: response_out_def destructor_def reg_defs patience_def split: if_splits option.splits)

lemma response_fail_patience:
  assumes t: "sr_terminated r"
  shows "snd (response_fail env m r) = Some r' \<Longrightarrow> patience r' \<le> patience r \<or> sr_expires r \<noteq> 0 \<and> patience r' = 16"
proof (rule response_fail_rule[where P = "\<lambda>res. snd res = Some r' \<longrightarrow>
    patience r' \<le> patience r \<or> sr_expires r \<noteq> 0 \<and> patience r' = 16", rule_format])
  fix e assume "snd (response_out env e (Some m) (bump_failc r)) = Some r'"
  from response_out_patience[OF this] t show "patience r' \<le> patience r \<or> sr_expires r \<noteq> 0 \<and> patience r' = 16"
    by (simp add: bump_failc_def)
next
  assume "snd (response_out env 0 (Some m) r) = Some r'"
  from response_out_patience[OF this] t show "patience r' \<le> patience r \<or> sr_expires r \<noteq> 0 \<and> patience r' = 16"
    by simp
qed (use t response_out_patience[of env "re_send env" "Some m" "bump_failc (r\<lparr>sr_expires := 0\<rparr>)" r'] in
      \<open>auto simp: request_again_def reg_defs patience_def bump_failc_def split: prod.splits if_splits\<close>)

lemma reg_response_handler_patience:
  assumes t: "sr_terminated r" and f: "sr_ls_failc r < 16" and p: "\<not> provisional msg"
    and n: "snd (reg_response_handler env e msg r) = Some r'"
  shows "patience r' < patience r"
proof -
  define q where "q = r\<lparr>sr_wait := failwait (re_rand env) (sr_failc r + 1)\<rparr>"
  have f': "unat (sr_ls_failc r) < 16" using f by (simp add: word_less_nat_alt)
  have up: "unat (sr_ls_failc r + 1) = unat (sr_ls_failc r) + 1" using f' by (simp add: unat_word_ariths)
  have out: "patience r' < patience r"
    if "snd (response_out env e msg s) = Some r'" "sr_expires s = sr_expires r" "sr_terminated s" for s
    using response_out_patience[OF that(1,3)] that(2) f' by (auto simp: patience_def)
  show ?thesis
  proof (cases "msg = None \<or> e \<noteq> 0")
    case True
    then have "snd (response_out env e msg (bump_failc q)) = Some r'"
      using n by (auto simp: reg_response_handler_def Let_def q_def split: option.splits)
    then show ?thesis by (rule out) (simp_all add: bump_failc_def q_def t)
  next
    case False
    then obtain m where m: "msg = Some m" "e = 0" "\<not> rp_scode m < 200"
      using p by (auto simp: provisional_def split: option.splits)
    obtain l q' where l: "sip_request_loops q (rp_scode m) = (l, q')" by fastforce
    have q': "sr_expires q' = sr_expires r" "sr_terminated q'"
      using l t by (auto simp: sip_request_loops_def q_def Let_def split: if_splits)
    have ls: "sr_ls_failc q' = sr_ls_failc r + 1" if "\<not> rp_scode m < 300"
      using l that m(3) by (auto simp: sip_request_loops_def q_def Let_def split: if_splits)
    obtain ks s where s: "response_ok env m q' = (ks, s)" by fastforce
    have s': "sr_expires s = sr_expires r" "sr_terminated s" using response_ok_bound[OF s] q' by auto
    have eq: "snd (if l then response_out env e msg (bump_failc q')
        else if rp_scode m < 300 then (let (os, r) = response_out env e msg s in (ks @ os, r)) else response_fail env m q') = Some r'"
      using n m l s by (cases l) (auto simp: reg_response_handler_def Let_def simp flip: q_def)
    consider "l" | "\<not> l" "rp_scode m < 300" | "\<not> l" "\<not> rp_scode m < 300" by blast
    then show ?thesis
    proof cases
      case 1
      then have "snd (response_out env e msg (bump_failc q')) = Some r'" using eq by simp
      then show ?thesis by (rule out) (simp_all add: bump_failc_def q')
    next
      case 2
      then have "snd (response_out env e msg s) = Some r'" using eq by (auto split: prod.splits)
      then show ?thesis by (rule out) (simp_all add: s')
    next
      case 3
      then have "snd (response_fail env m q') = Some r'" using eq by simp
      from response_fail_patience[OF q'(2) this] show ?thesis
        using ls[OF 3(2)] q'(1) up f' by (auto simp: patience_def)
    qed
  qed
qed

lemma reg_run_patience:
  "r = Some q \<Longrightarrow> sr_terminated q \<Longrightarrow> reg_ok x tr q \<Longrightarrow> patience q \<le> length (filter final evs) \<Longrightarrow>
     snd (reg_run (tr, r) evs) = None"
proof (induction "(tr, r)" evs arbitrary: tr r q rule: reg_run.induct)
  case (1 es r)
  then have "unat (sr_ls_failc q) < 16" by (simp add: reg_ok_def word_less_nat_alt)
  then show ?case using 1 by (simp add: patience_def split: if_splits)
next
  case (3 es reg ev evs)
  note IH = 3(1) and len = 3(6)
  from 3(3) have [simp]: "q = reg" by simp
  have t: "sr_terminated reg" and ok: "reg_ok x es reg" using 3(4,5) by simp_all
  have req: "sr_req reg" "\<not> sr_tmr reg" "sr_ls_failc reg < 16" using t ok by (auto simp: reg_ok_def)
  show ?case
  proof (cases "possible reg ev")
    case True
    define st where "st = reg_step reg ev"
    have dec: "patience s \<le> patience reg - (if final ev then 1 else 0)" if "snd st = Some s" for s
    proof (cases ev)
      case (E_Response env e msg)
      show ?thesis
      proof (cases "provisional msg")
        case True
        then show ?thesis using that \<open>possible reg ev\<close>
          by (auto simp: st_def E_Response reg_step_def possible_def provisional_nothing patience_def final_def)
      next
        case False
        then have "patience s < patience (reg\<lparr>sr_req := False\<rparr>)"
          using that t req by (intro reg_response_handler_patience) (auto simp: st_def E_Response reg_step_def)
        then show ?thesis using False by (simp add: E_Response final_def patience_def)
      qed
    next
      case (E_KeepaliveFail env e)
      then show ?thesis using that t
        by (auto simp: st_def reg_step_def keepalive_terminated patience_def final_def)
    qed (use True t req in \<open>simp_all add: possible_def\<close>)
    show ?thesis
    proof (cases "snd st")
      case None
      then show ?thesis using True by (cases evs) (simp_all flip: st_def)
    next
      case (Some s)
      have "quiet st" using reg_step_quiet[OF t req(2) True] by (simp add: st_def)
      then have "sr_terminated s" using Some by (simp add: quiet_def)
      moreover have "reg_ok x (es @ fst st) s" using reg_step_ok[OF ok True] Some by (simp add: result_ok_def st_def)
      moreover have "patience s \<le> length (filter final evs)" using dec[OF Some] len by (auto split: if_splits)
      ultimately show ?thesis using IH[folded st_def, OF True Some] True by (simp flip: st_def)
    qed
  next
    case False
    then have "\<not> final ev" using req by (auto simp: possible_def final_def split: revent.splits)
    then show ?thesis using 3(2)[OF False _ t ok] False len by simp
  qed
qed simp


subsection \<open>Properties\<close>

text \<open>A client started by \<open>sipreg_register\<close> and what happens to it.\<close>

definition sipreg_run :: "err \<Rightarrow> renv \<Rightarrow> u32 \<Rightarrow> int \<Rightarrow> revent list \<Rightarrow> rresult" where
  "sipreg_run e_alloc env expires regid evs =
     (case sipreg_register e_alloc env expires regid of (e, es, r) \<Rightarrow> reg_run (es, r) evs)"

lemma sipreg_run_ok: "result_ok (expires \<noteq> 0) [] (sipreg_run e_alloc env expires regid evs)"
proof -
  obtain e es r where r: "sipreg_register e_alloc env expires regid = (e, es, r)" by (cases rule: prod_cases3)
  then have "\<forall>q. r = Some q \<longrightarrow> reg_ok (expires \<noteq> 0) es q" using sipreg_register_ok by fastforce
  then show ?thesis using reg_run_ok by (simp add: sipreg_run_def r)
qed

lemma sipreg_run_reg_ok: "sipreg_run e_alloc env expires regid evs = (tr, Some r) \<Longrightarrow> reg_ok (expires \<noteq> 0) tr r"
  using sipreg_run_ok[of expires e_alloc env regid evs] by (simp add: result_ok_def)

definition ok_env :: renv where
  "ok_env = \<lparr>re_send = 0, re_auth = 0, re_ka = True, re_rand = 0\<rparr>"

definition grant :: "u32 \<Rightarrow> response" where
  "grant g = \<lparr>rp_scode = 200, rp_contacts = [(False, Some 7), (True, Some g)], rp_expires = None, rp_min_expires = None,
     rp_outbound = False, rp_flow_timer = None\<rparr>"

lemmas reg_eval = sipreg_run_def call_resph_def sipreg_register_def reg_step_def possible_def provisional_def reg_response_handler_def
  response_out_def response_ok_def destructor_def tmr_handler_def keepalive_handler_def request_def
  sip_loopstate_reset_def sip_request_loops_def start_timer_def start_outbound_def failwait_def bump_failc_def
  ok_env_def grant_def

text \<open>
  C5: A registration never stalls. Whatever responses, timer expiries, keep-alive failures and calls of the owner happen, a
  client in use never has a request and its timer running at once, one started with an expiry always has one of them,
  and a dropped client always has a request whose response it waits for, and no timer.
\<close>

theorem registration_never_stalls:
  assumes "sipreg_run e_alloc env expires regid evs = (tr, Some r)"
  shows "if sr_terminated r then sr_req r \<and> \<not> sr_tmr r
    else \<not> (sr_req r \<and> sr_tmr r) \<and> (expires \<noteq> 0 \<longrightarrow> sr_req r \<or> sr_tmr r)"
  using sipreg_run_reg_ok[OF assms] by (auto simp: reg_ok_def)

lemma registration_never_stalls_witness:
  "\<exists>tr r. sipreg_run 0 ok_env 600 0 [E_Response ok_env 0 (Some (grant 100))] = (tr, Some r) \<and> \<not> sr_terminated r
     \<and> (sr_req r \<or> sr_tmr r)"
proof -
  obtain tr r where run: "sipreg_run 0 ok_env 600 0 [E_Response ok_env 0 (Some (grant 100))] = (tr, Some r)"
    and t: "\<not> sr_terminated r"
    by (simp add: reg_eval)
  show ?thesis using registration_never_stalls[OF run] run t by auto
qed


lemma reg_run_append: "reg_run st (evs @ evs') = reg_run (reg_run st evs) evs'"
proof (induction st evs rule: reg_run.induct)
  case (2 es ev evs)
  then show ?case by (cases evs') simp_all
qed simp_all

lemma sipreg_run_append: "sipreg_run a env x i (evs @ evs') = reg_run (sipreg_run a env x i evs) evs'"
  by (simp add: sipreg_run_def reg_run_append split: prod.split)

text \<open>
  After the owner has dropped its client, whatever happens then, the owner's handler is not called again, no timer is
  started, and the client is freed at most once: exactly once when nothing is left of it.
\<close>

theorem dropped_client_quiet:
  assumes "sipreg_run e_alloc env expires regid evs = (tr, Some r)" and "\<not> sr_terminated r"
    and "sipreg_run e_alloc env expires regid (evs @ E_Drop env' # evs') = (tr', r')"
  shows "\<exists>es. tr' = tr @ es \<and> (\<forall>e m t. R_Resp e m \<notin> set es \<and> R_Timer t \<notin> set es)
    \<and> count_list es R_Free = (if r' = None then 1 else 0)"
proof -
  have ok: "reg_ok (expires \<noteq> 0) tr r" by (rule sipreg_run_reg_ok[OF assms(1)])
  have p: "possible r (E_Drop env')" using assms(2) by (simp add: possible_def)
  obtain es1 r1 where st: "reg_step r (E_Drop env') = (es1, r1)" by fastforce
  have q: "quiet (es1, r1)" using destructor_quiet[of env' r] st by (simp add: reg_step_def)
  have res: "reg_run (tr @ es1, r1) evs' = (tr', r')" using assms(1,3) p st by (simp add: sipreg_run_append)
  have "\<exists>es. tr' = tr @ es \<and> quiet (es, r')"
  proof (cases r1)
    case None
    then show ?thesis using res q by (cases evs') auto
  next
    case (Some s)
    have "reg_ok (expires \<noteq> 0) (tr @ es1) s" using reg_step_ok[OF ok p] st Some by (simp add: result_ok_def)
    moreover have "sr_terminated s" using q Some by (simp add: quiet_def)
    ultimately obtain os where "tr' = (tr @ es1) @ os" "quiet (os, r')"
      using reg_run_quiet[OF Some _ _ res] by blast
    then show ?thesis using quiet_app[of es1 s os r'] q Some by auto
  qed
  then obtain es where "tr' = tr @ es" "quiet (es, r')" by blast
  then show ?thesis by (fastforce simp: quiet_def)
qed

definition rejection :: "u16 \<Rightarrow> response" where
  "rejection c = (grant 0)\<lparr>rp_scode := c, rp_contacts := []\<rparr>"

lemma dropped_client_quiet_witness:
  "\<exists>tr r es. sipreg_run 0 ok_env 600 0 [E_Response ok_env 0 (Some (grant 100))] = (tr, Some r)
     \<and> sipreg_run 0 ok_env 600 0 ([E_Response ok_env 0 (Some (grant 100))] @ E_Drop ok_env # [E_Response ok_env 0 (Some (rejection 500))])
         = (tr @ es, None) \<and> R_Request 0 \<in> set es \<and> count_list es R_Free = 1"
proof -
  obtain tr r where run: "sipreg_run 0 ok_env 600 0 [E_Response ok_env 0 (Some (grant 100))] = (tr, Some r)"
    and t: "\<not> sr_terminated r" and tr: "R_Request 0 \<notin> set tr"
    by (simp add: reg_eval)
  obtain tr' where run': "sipreg_run 0 ok_env 600 0 ([E_Response ok_env 0 (Some (grant 100))] @ E_Drop ok_env # [E_Response ok_env 0 (Some (rejection 500))])
         = (tr', None)" and tr': "R_Request 0 \<in> set tr'"
    by (simp add: reg_eval rejection_def response_fail_def)
  show ?thesis using dropped_client_quiet[OF run t run'] run run' tr tr' by fastforce
qed

text \<open>
  C3: A client is freed only after it has removed its binding: when an event of a started client frees it, and sending
  works in that event, the last REGISTER it sent had expiry 0, or by the last response it has no binding.
\<close>

theorem dropped_client_unregisters:
  assumes "sipreg_run e_alloc env expires regid evs = (tr, Some r)"
    and "possible r ev" and "sends_ok ev" and "snd (reg_step r ev) = None"
  shows "last_request tr = Some 0 \<or> \<not> bound_after r ev"
proof -
  have ok: "reg_ok (expires \<noteq> 0) tr r" by (rule sipreg_run_reg_ok[OF assms(1)])
  show ?thesis
  proof (cases ev)
    case (E_Response env e msg)
    have req: "sr_req r" using assms(2) by (simp add: E_Response possible_def)
    have p: "\<not> provisional msg"
      using assms(2,4) provisional_nothing[of msg env] by (auto simp: E_Response reg_step_def possible_def)
    have "sr_expires r = 0 \<or> \<not> bound_after r ev"
      using reg_response_handler_frees[of env e msg "r\<lparr>sr_req := False\<rparr>"] assms(3,4) p
      by (simp add: E_Response reg_step_def sends_ok_def) (auto simp: bound_after_def split: option.splits if_splits)
    then show ?thesis using ok req by (auto simp: reg_ok_def)
  next
    case (E_Drop env)
    then show ?thesis using assms
      by (auto simp: reg_step_def possible_def sends_ok_def destructor_def reg_defs bound_after_def split: if_splits)
  qed (use assms in \<open>auto simp: reg_step_def sends_ok_def tmr_handler_def keepalive_handler_def reg_defs split: if_splits\<close>)
qed

lemma dropped_client_unregisters_witness:
  "\<exists>tr r. sipreg_run 0 ok_env 600 0 [E_Response ok_env 0 (Some (grant 100)), E_Drop ok_env] = (tr, Some r)
     \<and> snd (reg_step r (E_Response ok_env 0 (Some (rejection 500)))) = None \<and> sr_registered r \<and> last_request tr = Some 0"
proof -
  obtain tr r where run: "sipreg_run 0 ok_env 600 0 [E_Response ok_env 0 (Some (grant 100)), E_Drop ok_env] = (tr, Some r)"
    and free: "snd (reg_step r (E_Response ok_env 0 (Some (rejection 500)))) = None"
    and r: "sr_registered r" "sr_req r"
    by (simp add: reg_eval rejection_def response_fail_def)
  have "bound_after r (E_Response ok_env 0 (Some (rejection 500)))" using r by (simp add: bound_after_def rejection_def grant_def)
  moreover have "possible r (E_Response ok_env 0 (Some (rejection 500)))" using r by (simp add: possible_def)
  moreover have "sends_ok (E_Response ok_env 0 (Some (rejection 500)))" by (simp add: sends_ok_def ok_env_def)
  ultimately show ?thesis using dropped_client_unregisters[OF run _ _ free] run free r by blast
qed

text \<open>
  C4: A dropped client is freed: at most 32 final responses after the drop, whatever they are and whatever else happens
  between them. (16 attempts for the request that was under way, 16 for the removal of the binding.)
\<close>

theorem dropped_client_freed:
  assumes "sipreg_run e_alloc env expires regid evs = (tr, Some r)" and "sr_terminated r"
    and "32 \<le> length (filter final evs')"
  shows "snd (reg_run (tr, Some r) evs') = None"
proof -
  have "patience r \<le> 32" by (simp only: patience_def split: if_split) linarith
  then show ?thesis using reg_run_patience[OF refl assms(2) sipreg_run_reg_ok[OF assms(1)]] assms(3) by simp
qed

lemma dropped_client_freed_witness:
  "\<exists>tr r. sipreg_run 0 ok_env 600 0 [E_Response ok_env 0 (Some (grant 100)), E_Drop ok_env] = (tr, Some r)
     \<and> snd (reg_run (tr, Some r) (replicate 40 (E_Response ok_env 0 (Some (rejection 401))))) = None"
proof -
  obtain tr r where run: "sipreg_run 0 ok_env 600 0 [E_Response ok_env 0 (Some (grant 100)), E_Drop ok_env] = (tr, Some r)"
    and t: "sr_terminated r"
    by (simp add: reg_eval)
  have "32 \<le> length (filter final (replicate 40 (E_Response ok_env 0 (Some (rejection 401)))))"
    by (simp add: final_def provisional_def rejection_def)
  from dropped_client_freed[OF run t this] run show ?thesis by blast
qed


text \<open>What a granting response with the time \<open>g\<close> asks of a client.\<close>

definition grants :: "sipreg \<Rightarrow> revent \<Rightarrow> u32 \<Rightarrow> bool" where
  "grants r ev g = (case ev of
     E_Response env e (Some m) \<Rightarrow> e = 0 \<and> 200 \<le> rp_scode m \<and> rp_scode m < 300
       \<and> g = contacts_wait (rp_contacts m) (rp_expires m) (sr_expires r)
   | _ \<Rightarrow> False)"

lemma wait_in_time:
  assumes "5 \<le> (w :: u32)" and "w \<le> 95" and "(g :: u32) \<le> 4521018"
  shows "uint (g * (w * 10)) = uint g * (uint w * 10)"
    and "50 * uint g \<le> uint g * (uint w * 10)" and "uint g * (uint w * 10) \<le> 950 * uint g"
proof -
  have w: "5 \<le> uint w" "uint w \<le> 95" and g: "0 \<le> uint g" "uint g \<le> 4521018"
    using assms by (simp_all add: word_le_def)
  have w10: "uint (w * 10) = uint w * 10" using w by (simp add: uint_word_ariths)
  show lo: "50 * uint g \<le> uint g * (uint w * 10)" using mult_left_mono[of 5 "uint w" "uint g * 10"] w g by simp
  show hi: "uint g * (uint w * 10) \<le> 950 * uint g" using mult_left_mono[of "uint w" 95 "uint g * 10"] w g by simp
  have "0 \<le> uint g * (uint w * 10)" "uint g * (uint w * 10) < 4294967296" using lo hi g by linarith+
  then have "uint g * uint (w * 10) < 2 ^ LENGTH(32)" by (simp add: w10)
  then have "uint (g * (w * 10)) = uint g * uint (w * 10)" by (rule iffD1[OF uint_mult_lem])
  then show "uint (g * (w * 10)) = uint g * (uint w * 10)" by (simp only: w10)
qed

lemma response_fail_timers:
  assumes "sr_terminated r \<or> sr_expires r \<noteq> 0"
  shows "R_Timer t \<in> set (fst (response_fail env m r)) \<Longrightarrow> t = ucast (sr_wait r)"
proof (rule response_fail_rule[where P = "\<lambda>res. R_Timer t \<in> set (fst res) \<longrightarrow> t = ucast (sr_wait r)", rule_format])
  fix e assume "R_Timer t \<in> set (fst (response_out env e (Some m) (bump_failc r)))"
  from response_out_timers[OF this] show "t = ucast (sr_wait r)" using assms by (simp add: bump_failc_def split: if_splits)
next
  assume "R_Timer t \<in> set (fst (response_out env 0 (Some m) r))"
  from response_out_timers[OF this] show "t = ucast (sr_wait r)" using assms by (simp split: if_splits)
next
  assume "R_Timer t \<in> set (fst (request_again env m r))"
  from request_again_timers[OF this] show "t = ucast (sr_wait r)" using assms by (simp split: if_splits)
next
  fix w assume w: "R_Timer t \<in> set (fst (request_again env m (r\<lparr>sr_expires := w\<rparr>)))" "w \<noteq> 0"
  from request_again_timers[OF w(1)] show "t = ucast (sr_wait r)" using w(2) by (simp split: if_splits)
qed simp_all

lemma reg_response_handler_timers:
  assumes x: "\<not> sr_terminated r" "sr_expires r \<noteq> 0" and p: "\<not> provisional msg"
    and n: "R_Timer t \<in> set (fst (reg_response_handler env e msg r))"
  shows "t = ucast (failwait (re_rand env) (sr_failc r + 1))
    \<or> (\<exists>g. grants r (E_Response env e msg) g \<and> t = ucast (g * (sr_rwait r * 10)))"
proof -
  define q where "q = r\<lparr>sr_wait := failwait (re_rand env) (sr_failc r + 1)\<rparr>"
  have out: "t = ucast (sr_wait s)"
    if "R_Timer t \<in> set (fst (response_out env e msg s))" "sr_expires s \<noteq> 0" for s
    using response_out_timers[OF that(1)] that(2) by simp
  show ?thesis
  proof (cases "msg = None \<or> e \<noteq> 0")
    case True
    then have "R_Timer t \<in> set (fst (response_out env e msg (bump_failc q)))"
      using n by (auto simp: reg_response_handler_def Let_def q_def split: option.splits)
    from out[OF this] show ?thesis using x by (simp add: bump_failc_def q_def)
  next
    case False
    then obtain m where m: "msg = Some m" "e = 0" "\<not> rp_scode m < 200"
      using p by (auto simp: provisional_def split: option.splits)
    obtain l q' where l: "sip_request_loops q (rp_scode m) = (l, q')" by fastforce
    have q': "sr_expires q' = sr_expires r" "sr_wait q' = sr_wait q" "sr_rwait q' = sr_rwait r"
      using l by (auto simp: sip_request_loops_def q_def Let_def split: if_splits)
    obtain ks s where s: "response_ok env m q' = (ks, s)" by fastforce
    have s': "sr_expires s = sr_expires r" "R_Timer t \<notin> set ks"
      "sr_wait s = contacts_wait (rp_contacts m) (rp_expires m) (sr_expires r) * (sr_rwait r * 10)"
      using s q' by (auto simp: response_ok_def start_outbound_def Let_def split: if_splits)
    have eq: "R_Timer t \<in> set (fst (if l then response_out env e msg (bump_failc q')
        else if rp_scode m < 300 then (let (os, r) = response_out env e msg s in (ks @ os, r)) else response_fail env m q'))"
      using n m l s by (cases l) (auto simp: reg_response_handler_def Let_def simp flip: q_def)
    consider "l" | "\<not> l" "rp_scode m < 300" | "\<not> l" "\<not> rp_scode m < 300" by blast
    then show ?thesis
    proof cases
      case 1
      then have "R_Timer t \<in> set (fst (response_out env e msg (bump_failc q')))" using eq by simp
      from out[OF this] show ?thesis using x q' by (simp add: bump_failc_def q_def)
    next
      case 2
      then have "R_Timer t \<in> set (fst (response_out env e msg s))" using eq s'(2) by (auto split: prod.splits)
      from out[OF this] have "t = ucast (contacts_wait (rp_contacts m) (rp_expires m) (sr_expires r) * (sr_rwait r * 10))"
        using x s' by simp
      then show ?thesis using 2 m by (auto simp: grants_def not_less)
    next
      case 3
      then have "R_Timer t \<in> set (fst (response_fail env m q'))" using eq by simp
      from response_fail_timers[OF _ this] show ?thesis using x q' by (simp add: q_def)
    qed
  qed
qed

lemma uint_timer: "uint (ucast (w :: u32) :: u64) = uint w"
  by (simp add: uint_up_ucast is_up_def source_size_def target_size_def word_size)

text \<open>
  C6: A client with an expiry refreshes in time and backs off: every timer it starts runs between 15 seconds and 30
  minutes, or it follows a response that granted \<open>g\<close> seconds and, for \<open>g\<close> up to 4521018 (52 days), runs for
  exactly the configured share of them, at least 5 and at most 95 percent: the refresh is sent before the binding
  expires.
\<close>

theorem refresh_schedule:
  assumes "sipreg_run e_alloc env expires regid evs = (tr, Some r)" and "expires \<noteq> 0"
    and "possible r ev" and "R_Timer t \<in> set (fst (reg_step r ev))"
  shows "15000 \<le> uint t \<and> uint t \<le> 1800000
    \<or> (\<exists>g. grants r ev g \<and> t = ucast (g * (sr_rwait r * 10))
         \<and> (g \<le> 4521018 \<longrightarrow> uint t = uint g * (uint (sr_rwait r) * 10) \<and> 50 * uint g \<le> uint t \<and> uint t \<le> 950 * uint g))"
proof -
  have ok: "reg_ok (expires \<noteq> 0) tr r" by (rule sipreg_run_reg_ok[OF assms(1)])
  have u: "sr_terminated r \<Longrightarrow> False"
    using reg_step_quiet[OF _ _ assms(3)] assms(4) ok by (fastforce simp: quiet_def reg_ok_def)
  then have x: "\<not> sr_terminated r" "sr_expires r \<noteq> 0" using ok assms(2) by (auto simp: reg_ok_def)
  show ?thesis
  proof (cases ev)
    case (E_Response env e msg)
    have p: "\<not> provisional msg"
      using assms(3,4) provisional_nothing[of msg env] by (auto simp: E_Response reg_step_def possible_def)
    have "t = ucast (failwait (re_rand env) (sr_failc r + 1)) \<or> (\<exists>g. grants r ev g \<and> t = ucast (g * (sr_rwait r * 10)))"
      using reg_response_handler_timers[of "r\<lparr>sr_req := False\<rparr>" msg t env e] x assms(4) p
      by (simp add: E_Response reg_step_def grants_def)
    then show ?thesis
      using failwait_range[of "re_rand env" "sr_failc r + 1"] wait_in_time[of "sr_rwait r"] ok
      by (auto simp: uint_timer reg_ok_def)
  next
    case (E_Timer env)
    then have "\<exists>a b. t = ucast (failwait a b)"
      using assms(4) by (auto simp: reg_step_def tmr_handler_def reg_defs split: if_splits)
    then show ?thesis using failwait_range by (auto simp: uint_timer)
  next
    case (E_KeepaliveFail env e)
    then have "\<exists>a b. t = ucast (failwait a b)"
      using assms(4) by (auto simp: reg_step_def keepalive_handler_def reg_defs split: if_splits)
    then show ?thesis using failwait_range by (auto simp: uint_timer)
  qed (use assms(4) in \<open>auto simp: reg_step_def destructor_def reg_defs split: if_splits\<close>)
qed

lemma refresh_schedule_witness:
  "\<exists>tr r t. sipreg_run 0 ok_env 600 0 [E_SetRwait 50] = (tr, Some r)
     \<and> R_Timer t \<in> set (fst (reg_step r (E_Response ok_env 0 (Some (grant 7200))))) \<and> uint t = 3600000"
proof -
  obtain tr r where run: "sipreg_run 0 ok_env 600 0 [E_SetRwait 50] = (tr, Some r)"
    and p: "possible r (E_Response ok_env 0 (Some (grant 7200)))" and w: "sr_rwait r = 50"
    and t: "R_Timer 3600000 \<in> set (fst (reg_step r (E_Response ok_env 0 (Some (grant 7200)))))"
    by (simp add: reg_eval sipreg_set_rwait_def)
  have g: "grants r (E_Response ok_env 0 (Some (grant 7200))) g \<longleftrightarrow> g = 7200" for g by (simp add: grants_def grant_def)
  show ?thesis using refresh_schedule[OF run _ p t] run t w by (auto simp: g)
qed


lemma huge_wait: "(21474836480 :: u32) * w = 0" and "(2147483648 :: u32) * (w * 10) = 0"
proof -
  have z: "(21474836480 :: u32) = 0" by simp
  show "(21474836480 :: u32) * w = 0" by (simp only: z mult_zero_left)
  have "(2147483648 :: u32) * (w * 10) = w * (2147483648 * 10)" by (simp only: ac_simps)
  also have "(2147483648 * 10 :: u32) = 0" by simp
  finally show "(2147483648 :: u32) * (w * 10) = 0" by simp
qed

lemma start_outbound_grant: "start_outbound env (grant g) reg = ([], reg)"
  by (simp add: start_outbound_def grant_def)

lemma huge_grant_round:
  assumes "reg_ok x tr r" and "\<not> sr_terminated r" and "sr_req r" and "sr_expires r \<noteq> 0" and "re_send env = 0"
  shows "\<exists>s. reg_run (tr', Some r) [E_Response env 0 (Some (grant (2 ^ 31))), E_Timer env]
      = (tr' @ [R_Timer 0, R_Resp 0 (Some (grant (2 ^ 31))), R_Request (sr_expires r)], Some s)
    \<and> sr_req s \<and> \<not> sr_terminated s \<and> sr_expires s = sr_expires r"
proof -
  have "sr_resph r" using assms(1,2) by (simp add: reg_ok_def)
  moreover have "response_ok env (grant (2 ^ 31)) q
      = ([], q\<lparr>sr_wait := 0, sr_registered := True, sr_pexpires := 2 ^ 31, sr_failc := 0\<rparr>)" for q
    unfolding response_ok_def Let_def start_outbound_grant by (simp add: grant_def huge_wait)
  moreover have "rp_scode (grant (2 ^ 31)) = 200" by (simp add: grant_def)
  ultimately show ?thesis using assms(2-5)
    by (simp add: reg_step_def possible_def provisional_def reg_response_handler_def sip_request_loops_def
        response_out_def tmr_handler_def reg_defs)
qed

lemma huge_grant_rounds:
  assumes "sipreg_run a env x i evs = (tr, Some r)" and "\<not> sr_terminated r" and "sr_req r" and "sr_expires r \<noteq> 0"
    and "list_all (\<lambda>e. re_send e = 0) envs"
  shows "\<exists>s. sipreg_run a env x i (evs @ concat (map (\<lambda>e. [E_Response e 0 (Some (grant (2 ^ 31))), E_Timer e]) envs))
      = (tr @ concat (replicate (length envs) [R_Timer 0, R_Resp 0 (Some (grant (2 ^ 31))), R_Request (sr_expires r)]), Some s)
    \<and> sr_req s \<and> \<not> sr_terminated s \<and> sr_expires s = sr_expires r"
  using assms
proof (induction envs arbitrary: evs tr r)
  case (Cons e envs)
  define round where "round = [E_Response e 0 (Some (grant (2 ^ 31))), E_Timer e]"
  have ok: "reg_ok (x \<noteq> 0) tr r" by (rule sipreg_run_reg_ok[OF Cons.prems(1)])
  obtain s where s: "reg_run (tr, Some r) round
      = (tr @ [R_Timer 0, R_Resp 0 (Some (grant (2 ^ 31))), R_Request (sr_expires r)], Some s)"
    "sr_req s" "\<not> sr_terminated s" "sr_expires s = sr_expires r"
    using huge_grant_round[OF ok Cons.prems(2-4), of e tr] Cons.prems(5) by (auto simp: round_def)
  have "sipreg_run a env x i (evs @ round)
      = (tr @ [R_Timer 0, R_Resp 0 (Some (grant (2 ^ 31))), R_Request (sr_expires r)], Some s)"
    by (simp only: sipreg_run_append Cons.prems(1) s(1))
  from Cons.IH[OF this s(3,2)] show ?case using Cons.prems(4,5) s(4) by (simp add: round_def)
qed simp

text \<open>
  C7: The product of granted time and share is computed in 32 bits: a client in use with an expiry whose request is
  answered by a 200 response that grants its contact 2 to the 31 seconds starts its timer with 0 ms, whatever its share
  and its identification, and sends the next REGISTER at once; while the registrar answers so and sending works, this
  repeats without end. (With the default share, and every other even one, 2 to the 30 seconds do the same.)
\<close>

theorem huge_grant_refreshes_at_once:
  assumes "sipreg_run e_alloc env expires regid evs = (tr, Some r)" and "expires \<noteq> 0"
    and "\<not> sr_terminated r" and "sr_req r" and "list_all (\<lambda>e. re_send e = 0) envs"
  shows "\<exists>s. sipreg_run e_alloc env expires regid
        (evs @ concat (map (\<lambda>e. [E_Response e 0 (Some (grant (2 ^ 31))), E_Timer e]) envs))
      = (tr @ concat (replicate (length envs) [R_Timer 0, R_Resp 0 (Some (grant (2 ^ 31))), R_Request (sr_expires r)]), Some s)
    \<and> sr_req s \<and> \<not> sr_terminated s"
proof -
  have "sr_expires r \<noteq> 0" using sipreg_run_reg_ok[OF assms(1)] assms(2,3) by (simp add: reg_ok_def)
  from huge_grant_rounds[OF assms(1,3,4) this assms(5)] show ?thesis by blast
qed

lemma huge_grant_refreshes_at_once_witness:
  "\<exists>s. sipreg_run 0 ok_env 600 1 ([E_SetRwait 95] @ concat (map (\<lambda>e. [E_Response e 0 (Some (grant (2 ^ 31))), E_Timer e]) [ok_env, ok_env]))
      = ([R_Request 600] @ concat (replicate 2 [R_Timer 0, R_Resp 0 (Some (grant (2 ^ 31))), R_Request 600]), Some s) \<and> sr_req s"
proof -
  obtain r where run: "sipreg_run 0 ok_env 600 1 [E_SetRwait 95] = ([R_Request 600], Some r)"
    and r: "\<not> sr_terminated r" "sr_req r" "sr_expires r = 600"
    by (simp add: reg_eval sipreg_set_rwait_def)
  have "list_all (\<lambda>e. re_send e = 0) [ok_env, ok_env]" by (simp add: ok_env_def)
  have "(600 :: u32) \<noteq> 0" by simp
  from huge_grant_refreshes_at_once[OF run this r(1,2) \<open>list_all _ _\<close>]
  show ?thesis unfolding r(3) length_Cons list.size(3) numeral_2_eq_2 by blast
qed

end
