(* ===== verification/Ua.thy ===== *)
theory Ua
  imports Prelude
begin

section \<open>User agents and calls (baresip/src/ua.c, baresip/src/call.c)\<close>

text \<open>
  The part of baresip the telephony module drives: the list of user agents, the current user agent,
  the list of calls of each user agent, and the state of a call. User agents and calls are heap
  objects: a name (a \<open>nat\<close>) stands for the address, \<open>bs_uas\<close> and \<open>bs_calls\<close> hold the objects
  that are allocated, and an access to an address that is not allocated (any more) is undefined,
  \<open>None\<close>. Addresses are not reused.

  \<open>ua_event\<close> runs the registered listeners synchronously, so every operation that may send an
  event has the listeners as its first argument \<open>eh\<close>, a function on a state that extends the one
  here. What the rest of baresip and re answers during an operation (decoding the account, SDP, the
  SIP session layer, audio devices) is the argument \<open>env\<close>.
\<close>

subsection \<open>Data\<close>

datatype call_state = CALL_STATE_IDLE | CALL_STATE_INCOMING | CALL_STATE_OUTGOING | CALL_STATE_RINGING
  | CALL_STATE_EARLY | CALL_STATE_ESTABLISHED | CALL_STATE_TERMINATED | CALL_STATE_UNKNOWN

datatype call_event = CALL_EVENT_INCOMING | CALL_EVENT_RINGING | CALL_EVENT_PROGRESS | CALL_EVENT_ESTABLISHED
  | CALL_EVENT_CLOSED | CALL_EVENT_TRANSFER | CALL_EVENT_TRANSFER_FAILED | CALL_EVENT_MENC

datatype ua_event = UA_EVENT_REGISTERING | UA_EVENT_REGISTER_OK | UA_EVENT_REGISTER_FAIL | UA_EVENT_UNREGISTERING
  | UA_EVENT_FALLBACK_OK | UA_EVENT_FALLBACK_FAIL | UA_EVENT_MWI_NOTIFY | UA_EVENT_SHUTDOWN | UA_EVENT_EXIT
  | UA_EVENT_CALL_INCOMING | UA_EVENT_CALL_RINGING | UA_EVENT_CALL_PROGRESS | UA_EVENT_CALL_ESTABLISHED
  | UA_EVENT_CALL_CLOSED | UA_EVENT_CALL_TRANSFER | UA_EVENT_CALL_TRANSFER_FAILED | UA_EVENT_CALL_DTMF_START
  | UA_EVENT_CALL_DTMF_END | UA_EVENT_CALL_RTPESTAB | UA_EVENT_CALL_RTCP | UA_EVENT_CALL_MENC | UA_EVENT_VU_TX
  | UA_EVENT_VU_RX | UA_EVENT_AUDIO_ERROR | UA_EVENT_CALL_LOCAL_SDP | UA_EVENT_CALL_REMOTE_SDP

datatype answermode = ANSWERMODE_MANUAL | ANSWERMODE_EARLY | ANSWERMODE_AUTO

text \<open>The parameters of \<open>struct account\<close> the code below looks at.\<close>

record account =
  a_regint :: nat
  a_outbound :: bool
  a_outboundv :: "bool list"
  a_mnat :: bool
  a_answermode :: answermode

text \<open>\<open>c_media\<close>: the audio stream runs; \<open>c_tmr_inv\<close>: the invite timer is armed.\<close>

record call =
  c_ua :: nat
  c_mnat :: bool
  c_sess :: bool
  c_not :: bool
  c_state :: call_state
  c_peer_uri :: "string option"
  c_id :: "string option"
  c_linenum :: nat
  c_outgoing :: bool
  c_got_offer :: bool
  c_on_hold :: bool
  c_mnat_wait :: bool
  c_scode :: u16
  c_tmr_inv :: bool
  c_media :: bool

text \<open>A register client is its \<open>sipreg\<close>: \<open>True\<close> while it is registering or registered.\<close>

record ua =
  ua_acc :: account
  ua_regl :: "bool list"
  ua_calls :: "nat list"

record baresip =
  bs_ual :: "nat list"
  bs_cur :: "nat option"
  bs_uas :: "nat \<rightharpoonup> ua"
  bs_calls :: "nat \<rightharpoonup> call"
  bs_next :: nat
  bs_delayed_close :: bool
  bs_sip_closed :: bool

type_synonym 'a listener = "ua_event \<Rightarrow> nat option \<Rightarrow> 'a baresip_scheme \<Rightarrow> 'a baresip_scheme option"

text \<open>The environment of the operations, one entry for each allocation or call below: whether the user agent (\<open>e_mem\<close>), the
  string of the contact user (\<open>e_cuser\<close>), the parameters of the registration (\<open>e_params\<close>), the dialled URI (\<open>e_dial\<close>) and
  the call (\<open>e_call\<close>) can be allocated, for how many register clients there is memory (\<open>e_regs\<close>), and what the rest returns.\<close>

record env =
  e_mem :: bool
  e_cuser :: err
  e_regs :: nat
  e_params :: bool
  e_dial :: bool
  e_call :: bool
  e_uuid :: bool
  e_account :: "err + account"
  e_reg :: "nat \<Rightarrow> err"
  e_uri :: err
  e_media :: err
  e_peer :: "err + string"
  e_sdp :: err
  e_sess :: err
  e_callid :: "err + string"
  e_ready :: bool

text \<open>An error code that is returned as an error is not 0.\<close>

definition env_errs :: "env \<Rightarrow> bool" where
  "env_errs env \<longleftrightarrow> e_account env \<noteq> Inl 0 \<and> e_peer env \<noteq> Inl 0 \<and> e_callid env \<noteq> Inl 0"

definition bs_init :: baresip where
  "bs_init = \<lparr>bs_ual = [], bs_cur = None, bs_uas = Map.empty, bs_calls = Map.empty, bs_next = 0,
     bs_delayed_close = False, bs_sip_closed = False\<rparr>"

definition upd_call :: "nat \<Rightarrow> (call \<Rightarrow> call) \<Rightarrow> 'a baresip_scheme \<Rightarrow> 'a baresip_scheme option" where
  "upd_call c f s = map_option (\<lambda>x. s\<lparr>bs_calls := (bs_calls s)(c \<mapsto> f x)\<rparr>) (bs_calls s c)"

subsection \<open>call.c\<close>

definition call_id :: "nat option \<Rightarrow> 'a baresip_scheme \<Rightarrow> string option option" where
  "call_id cp s = (case cp of None \<Rightarrow> Some None | Some c \<Rightarrow> map_option c_id (bs_calls s c))"

definition call_scode :: "nat option \<Rightarrow> 'a baresip_scheme \<Rightarrow> u16 option" where
  "call_scode cp s = (case cp of None \<Rightarrow> Some 0 | Some c \<Rightarrow> map_option c_scode (bs_calls s c))"

definition call_stream_start :: "env \<Rightarrow> bool \<Rightarrow> call \<Rightarrow> call" where
  "call_stream_start env active call =
     call\<lparr>c_media := c_media call \<or> e_ready env, c_tmr_inv := (c_tmr_inv call \<and> \<not> active)\<rparr>"

definition call_stream_stop :: "call \<Rightarrow> call" where
  "call_stream_stop call = call\<lparr>c_media := False, c_tmr_inv := False\<rparr>"

text \<open>\<open>mem_deref\<close> of the only reference: \<open>call_destructor\<close> takes the call off its user agent's list.\<close>

definition call_deref :: "nat \<Rightarrow> 'a baresip_scheme \<Rightarrow> 'a baresip_scheme option" where
  "call_deref c s = do {
     call \<leftarrow> bs_calls s c;
     ua \<leftarrow> bs_uas s (c_ua call);
     Some (s\<lparr>bs_calls := (bs_calls s)(c := None),
             bs_uas := (bs_uas s)(c_ua call \<mapsto> ua\<lparr>ua_calls := filter (\<lambda>x. x \<noteq> c) (ua_calls ua)\<rparr>)\<rparr>)
   }"

definition CALL_LINENUM_MIN :: nat where "CALL_LINENUM_MIN = 1"
definition CALL_LINENUM_MAX :: nat where "CALL_LINENUM_MAX = 256"

text \<open>\<open>None\<close> is \<open>ENOENT\<close>; \<open>lines\<close> are the line numbers on the list of calls.\<close>

definition assign_linenum :: "nat list \<Rightarrow> nat option" where
  "assign_linenum lines = List.find (\<lambda>n. n \<notin> set lines) [CALL_LINENUM_MIN..<CALL_LINENUM_MAX]"

definition ua_lines :: "ua \<Rightarrow> 'a baresip_scheme \<Rightarrow> nat list" where
  "ua_lines ua s = List.map_filter (\<lambda>c. map_option c_linenum (bs_calls s c)) (ua_calls ua)"

text \<open>
  The errors before \<open>assign_linenum\<close> (copies of strings, the SDP session, media NAT, encryption,
  audio) are \<open>e_media\<close>; on all of them the half-built call, which is on no list yet, is destroyed.
\<close>

definition call_alloc :: "env \<Rightarrow> nat \<Rightarrow> 'a baresip_scheme \<Rightarrow> (err \<times> nat option \<times> 'a baresip_scheme) option" where
  "call_alloc env u s = do {
     ua \<leftarrow> bs_uas s u;
     if \<not> e_call env then Some (ENOMEM, None, s)
     else if e_media env \<noteq> 0 then Some (e_media env, None, s)
     else case assign_linenum (ua_lines ua s) of
       None \<Rightarrow> Some (ENOENT, None, s)
     | Some n \<Rightarrow>
         let c = bs_next s;
             call = \<lparr>c_ua = u, c_mnat = a_mnat (ua_acc ua), c_sess = False, c_not = False,
               c_state = CALL_STATE_IDLE, c_peer_uri = None, c_id = None, c_linenum = n,
               c_outgoing = False, c_got_offer = False, c_on_hold = False, c_mnat_wait = True,
               c_scode = 0, c_tmr_inv = False, c_media = False\<rparr>
         in Some (0, Some c, s\<lparr>bs_calls := (bs_calls s)(c \<mapsto> call), bs_next := Suc c,
              bs_uas := (bs_uas s)(u \<mapsto> ua\<lparr>ua_calls := ua_calls ua @ [c]\<rparr>)\<rparr>)
   }"

definition send_invite :: "'a listener \<Rightarrow> env \<Rightarrow> nat \<Rightarrow> 'a baresip_scheme \<Rightarrow> (err \<times> 'a baresip_scheme) option" where
  "send_invite eh env c s = do {
     s \<leftarrow> eh UA_EVENT_CALL_LOCAL_SDP (Some c) s;
     if e_sdp env \<noteq> 0 then Some (e_sdp env, s)
     else if e_sess env \<noteq> 0 then Some (e_sess env, s)
     else do {
       s \<leftarrow> upd_call c (c_sess_update (\<lambda>_. True)) s;
       case e_callid env of
         Inl e \<Rightarrow> Some (e, s)
       | Inr i \<Rightarrow> do { s \<leftarrow> upd_call c (c_id_update (\<lambda>_. Some i)) s; Some (0, s) }
     }
   }"

definition call_connect :: "'a listener \<Rightarrow> env \<Rightarrow> nat \<Rightarrow> 'a baresip_scheme \<Rightarrow> (err \<times> 'a baresip_scheme) option" where
  "call_connect eh env c s = do {
     s \<leftarrow> upd_call c (c_outgoing_update (\<lambda>_. True)) s;
     case e_peer env of
       Inl e \<Rightarrow> Some (e, s)
     | Inr p \<Rightarrow> do {
         s \<leftarrow> upd_call c (\<lambda>call. call\<lparr>c_peer_uri := Some p, c_state := CALL_STATE_OUTGOING\<rparr>) s;
         call \<leftarrow> bs_calls s c;
         if c_mnat call then Some (0, s) else send_invite eh env c s
       }
   }"

text \<open>\<open>sipsess_reject\<close> keeps the session; in every other state it is given up.\<close>

definition call_hangup :: "nat \<Rightarrow> 'a baresip_scheme \<Rightarrow> 'a baresip_scheme option" where
  "call_hangup c s = upd_call c (\<lambda>call. call_stream_stop
     ((if c_state call = CALL_STATE_INCOMING then call else call\<lparr>c_sess := False, c_not := False\<rparr>)
        \<lparr>c_state := CALL_STATE_TERMINATED\<rparr>)) s"

definition call_hold :: "nat \<Rightarrow> bool \<Rightarrow> 'a baresip_scheme \<Rightarrow> 'a baresip_scheme option" where
  "call_hold c hold s = do {
     call \<leftarrow> bs_calls s c;
     if \<not> c_sess call then Some s
     else upd_call c (c_on_hold_update (\<lambda>_. hold)) s
   }"

subsection \<open>ua.c\<close>

text \<open>The current call is the one added last.\<close>

definition ua_call :: "nat \<Rightarrow> 'a baresip_scheme \<Rightarrow> nat option option" where
  "ua_call u s = map_option (\<lambda>ua. if ua_calls ua = [] then None else Some (last (ua_calls ua))) (bs_uas s u)"

fun find_onhold :: "nat list \<Rightarrow> 'a baresip_scheme \<Rightarrow> nat option option" where
  "find_onhold [] s = Some None"
| "find_onhold (c # cs) s = do {
     call \<leftarrow> bs_calls s c;
     if c_on_hold call then Some (Some c) else find_onhold cs s
   }"

definition resume_call :: "nat \<Rightarrow> 'a baresip_scheme \<Rightarrow> 'a baresip_scheme option" where
  "resume_call u s = do {
     ua \<leftarrow> bs_uas s u;
     held \<leftarrow> find_onhold (rev (ua_calls ua)) s;
     case held of None \<Rightarrow> Some s | Some c \<Rightarrow> call_hold c False s
   }"

definition uag_current :: "'a baresip_scheme \<Rightarrow> nat option" where
  "uag_current s = (if bs_ual s = [] then None else bs_cur s)"

definition reg_count :: "env \<Rightarrow> account \<Rightarrow> nat" where
  "reg_count env acc =
     (if a_outbound acc then (if a_regint acc = 0 then 0 else length (filter id (a_outboundv acc)))
      else if a_regint acc = 0 then 0 else 1)"

definition create_register_clients :: "env \<Rightarrow> account \<Rightarrow> err \<times> bool list" where
  "create_register_clients env acc =
     (if a_outbound acc \<and> \<not> e_uuid env then (ENOSYS, [])
      else (if e_regs env < reg_count env acc then ENOMEM else 0, replicate (min (reg_count env acc) (e_regs env)) False))"

fun list_flush_calls :: "nat list \<Rightarrow> 'a baresip_scheme \<Rightarrow> 'a baresip_scheme option" where
  "list_flush_calls [] s = Some s"
| "list_flush_calls (c # cs) s = do { s \<leftarrow> call_deref c s; list_flush_calls cs s }"

text \<open>\<open>mem_deref\<close> of a user agent with one reference.\<close>

definition ua_destructor :: "'a listener \<Rightarrow> nat \<Rightarrow> 'a baresip_scheme \<Rightarrow> 'a baresip_scheme option" where
  "ua_destructor eh u s = do {
     ua \<leftarrow> bs_uas s u;
     let s = s\<lparr>bs_ual := filter (\<lambda>x. x \<noteq> u) (bs_ual s)\<rparr>;
     s \<leftarrow> (if ua_regl ua = [] then Some s else eh UA_EVENT_UNREGISTERING None s);
     ua \<leftarrow> bs_uas s u;
     s \<leftarrow> list_flush_calls (ua_calls ua) s;
     Some (s\<lparr>bs_uas := (bs_uas s)(u := None),
             bs_sip_closed := (bs_sip_closed s \<or> bs_delayed_close s \<and> bs_ual s = [])\<rparr>)
   }"

text \<open>The result carries \<open>*uap\<close>, which stays as it was on an error. Where the account cannot be made, the destructor finds
  neither register clients nor calls.\<close>

definition ua_alloc :: "'a listener \<Rightarrow> env \<Rightarrow> 'a baresip_scheme \<Rightarrow> (err \<times> nat option \<times> 'a baresip_scheme) option" where
  "ua_alloc eh env s =
     (if \<not> e_mem env then Some (ENOMEM, None, s)
      else case e_account env of
        Inl e \<Rightarrow> Some (e, None, s\<lparr>bs_sip_closed := (bs_sip_closed s \<or> bs_delayed_close s \<and> bs_ual s = [])\<rparr>)
      | Inr acc \<Rightarrow>
          let u = bs_next s; (e, regl) = (if e_cuser env \<noteq> 0 then (e_cuser env, []) else create_register_clients env acc);
              s = s\<lparr>bs_next := Suc u, bs_uas := (bs_uas s)(u \<mapsto> \<lparr>ua_acc = acc, ua_regl = regl, ua_calls = []\<rparr>)\<rparr>
          in if e \<noteq> 0 then do { s \<leftarrow> ua_destructor eh u s; Some (e, None, s) }
             else let s = s\<lparr>bs_ual := bs_ual s @ [u]\<rparr>
                  in Some (0, Some u, if uag_current s = None then s\<lparr>bs_cur := Some u\<rparr> else s))"

text \<open>The loop of \<open>start_register\<close>, from register client \<open>i\<close> on: it stops at the first error.\<close>

fun reg_register_all :: "(nat \<Rightarrow> err) \<Rightarrow> nat \<Rightarrow> bool list \<Rightarrow> err \<times> bool list" where
  "reg_register_all reg i [] = (0, [])"
| "reg_register_all reg i (r # rs) =
     (if reg i \<noteq> 0 then (reg i, False # rs)
      else let (e, rs') = reg_register_all reg (Suc i) rs in (e, True # rs'))"

definition ua_register :: "'a listener \<Rightarrow> env \<Rightarrow> nat \<Rightarrow> 'a baresip_scheme \<Rightarrow> (err \<times> 'a baresip_scheme) option" where
  "ua_register eh env u s = do {
     ua \<leftarrow> bs_uas s u;
     if a_regint (ua_acc ua) = 0 then Some (0, s)
     else if \<not> e_params env then Some (ENOMEM, s)
     else do {
       s \<leftarrow> eh UA_EVENT_REGISTERING None s;
       ua \<leftarrow> bs_uas s u;
       let (e, regl) = reg_register_all (e_reg env) 0 (ua_regl ua);
       let s = s\<lparr>bs_uas := (bs_uas s)(u \<mapsto> ua\<lparr>ua_regl := regl\<rparr>)\<rparr>;
       if e = 0 then Some (0, s)
       else do { s \<leftarrow> eh UA_EVENT_REGISTER_FAIL None s; Some (e, s) }
     }
   }"

definition ua_unregister :: "'a listener \<Rightarrow> nat option \<Rightarrow> 'a baresip_scheme \<Rightarrow> 'a baresip_scheme option" where
  "ua_unregister eh up s = (case up of None \<Rightarrow> Some s | Some u \<Rightarrow> do {
     ua \<leftarrow> bs_uas s u;
     s \<leftarrow> (if ua_regl ua = [] then Some s else eh UA_EVENT_UNREGISTERING None s);
     ua \<leftarrow> bs_uas s u;
     Some (s\<lparr>bs_uas := (bs_uas s)(u \<mapsto> ua\<lparr>ua_regl := map (\<lambda>_. False) (ua_regl ua)\<rparr>)\<rparr>)
   })"

text \<open>\<open>callp\<close> is written only on success: the second component is \<open>Some c\<close> then.\<close>

definition ua_connect :: "'a listener \<Rightarrow> env \<Rightarrow> nat \<Rightarrow> string \<Rightarrow> 'a baresip_scheme
    \<Rightarrow> (err \<times> nat option \<times> 'a baresip_scheme) option" where
  "ua_connect eh env u req_uri s =
     (if req_uri = [] then Some (EINVAL, None, s)
      else if \<not> e_dial env then Some (ENOMEM, None, s)
      else if e_uri env \<noteq> 0 then Some (e_uri env, None, s)
      else do {
        (e, cp, s) \<leftarrow> call_alloc env u s;
        case cp of None \<Rightarrow> Some (e, None, s)
        | Some c \<Rightarrow> do {
            (e, s) \<leftarrow> call_connect eh env c s;
            if e \<noteq> 0 then do { s \<leftarrow> call_deref c s; Some (e, None, s) } else Some (0, Some c, s)
          }
      })"

definition ua_hangup :: "'a listener \<Rightarrow> nat option \<Rightarrow> nat option \<Rightarrow> 'a baresip_scheme \<Rightarrow> 'a baresip_scheme option" where
  "ua_hangup eh up cp s = (case up of None \<Rightarrow> Some s | Some u \<Rightarrow> do {
     cp \<leftarrow> (case cp of Some c \<Rightarrow> Some (Some c) | None \<Rightarrow> ua_call u s);
     case cp of None \<Rightarrow> Some s
     | Some c \<Rightarrow> do {
         s \<leftarrow> call_hangup c s;
         s \<leftarrow> eh UA_EVENT_CALL_CLOSED (Some c) s;
         s \<leftarrow> call_deref c s;
         resume_call u s
       }
   })"

definition ua_destroy :: "'a listener \<Rightarrow> nat \<Rightarrow> 'a baresip_scheme \<Rightarrow> 'a baresip_scheme option" where
  "ua_destroy eh u s = do {
     _ \<leftarrow> bs_uas s u;
     s \<leftarrow> eh UA_EVENT_SHUTDOWN None (s\<lparr>bs_ual := filter (\<lambda>x. x \<noteq> u) (bs_ual s)\<rparr>);
     ua \<leftarrow> bs_uas s u;
     s \<leftarrow> list_flush_calls (ua_calls ua) s;
     ua_destructor eh u s
   }"

fun ua_destroy_all :: "'a listener \<Rightarrow> nat list \<Rightarrow> 'a baresip_scheme \<Rightarrow> 'a baresip_scheme option" where
  "ua_destroy_all eh [] s = Some s"
| "ua_destroy_all eh (u # us) s = do { s \<leftarrow> ua_destroy eh u s; ua_destroy_all eh us s }"

text \<open>Nobody but the list holds a reference to a user agent, so \<open>ext_ref\<close> stays 0.\<close>

definition ua_stop_all :: "'a listener \<Rightarrow> 'a baresip_scheme \<Rightarrow> 'a baresip_scheme option" where
  "ua_stop_all eh s = do { s \<leftarrow> ua_destroy_all eh (bs_ual s) s; Some (s\<lparr>bs_sip_closed := True\<rparr>) }"

subsection \<open>Events of a call (call.c) and what the user agent makes of them (ua.c)\<close>

definition call_progress :: "env \<Rightarrow> nat \<Rightarrow> 'a baresip_scheme \<Rightarrow> 'a baresip_scheme option" where
  "call_progress env c s = do {
     s \<leftarrow> upd_call c (c_tmr_inv_update (\<lambda>_. False)) s;
     if e_sdp env \<noteq> 0 \<or> e_sess env \<noteq> 0 then Some s else upd_call c (call_stream_start env False) s
   }"

definition update_media :: "'a listener \<Rightarrow> env \<Rightarrow> nat \<Rightarrow> 'a baresip_scheme \<Rightarrow> (err \<times> 'a baresip_scheme) option" where
  "update_media eh env c s = do { s \<leftarrow> eh UA_EVENT_CALL_REMOTE_SDP (Some c) s; Some (e_media env, s) }"

definition call_answer :: "'a listener \<Rightarrow> env \<Rightarrow> nat \<Rightarrow> 'a baresip_scheme \<Rightarrow> (err \<times> 'a baresip_scheme) option" where
  "call_answer eh env c s = do {
     call \<leftarrow> bs_calls s c;
     if \<not> c_sess call then Some (EINVAL, s)
     else if c_state call \<noteq> CALL_STATE_INCOMING then Some (0, s)
     else do {
       (e, s) \<leftarrow> (if c_got_offer call then update_media eh env c s else Some (0, s));
       if e \<noteq> 0 then Some (e, s)
       else do {
         s \<leftarrow> eh UA_EVENT_CALL_LOCAL_SDP (Some c) s;
         Some (if e_sdp env \<noteq> 0 then e_sdp env else e_sess env, s)
       }
     }
   }"

text \<open>\<open>blocked\<close>: the contact list denies the peer access.\<close>

definition ua_call_event_handler ::
  "'a listener \<Rightarrow> env \<Rightarrow> bool \<Rightarrow> nat \<Rightarrow> call_event \<Rightarrow> 'a baresip_scheme \<Rightarrow> 'a baresip_scheme option" where
  "ua_call_event_handler eh env blocked c ev s = do {
     call \<leftarrow> bs_calls s c;
     if c_peer_uri call = None then Some s
     else case ev of
       CALL_EVENT_INCOMING \<Rightarrow>
         if blocked then do { s \<leftarrow> eh UA_EVENT_CALL_CLOSED (Some c) s; call_deref c s }
         else do {
           ua \<leftarrow> bs_uas s (c_ua call);
           case a_answermode (ua_acc ua) of
             ANSWERMODE_EARLY \<Rightarrow> call_progress env c s
           | ANSWERMODE_AUTO \<Rightarrow> map_option snd (call_answer eh env c s)
           | ANSWERMODE_MANUAL \<Rightarrow> eh UA_EVENT_CALL_INCOMING (Some c) s
         }
     | CALL_EVENT_RINGING \<Rightarrow> eh UA_EVENT_CALL_RINGING (Some c) s
     | CALL_EVENT_PROGRESS \<Rightarrow> eh UA_EVENT_CALL_PROGRESS (Some c) s
     | CALL_EVENT_ESTABLISHED \<Rightarrow> eh UA_EVENT_CALL_ESTABLISHED (Some c) s
     | CALL_EVENT_CLOSED \<Rightarrow> do {
         s \<leftarrow> eh UA_EVENT_CALL_CLOSED (Some c) s;
         s \<leftarrow> call_deref c s;
         resume_call (c_ua call) s
       }
     | CALL_EVENT_TRANSFER \<Rightarrow> eh UA_EVENT_CALL_TRANSFER (Some c) s
     | CALL_EVENT_TRANSFER_FAILED \<Rightarrow> do { s \<leftarrow> eh UA_EVENT_CALL_TRANSFER_FAILED (Some c) s; call_deref c s }
     | CALL_EVENT_MENC \<Rightarrow> eh UA_EVENT_CALL_MENC (Some c) s
   }"

definition invite_timeout :: "'a listener \<Rightarrow> env \<Rightarrow> nat \<Rightarrow> 'a baresip_scheme \<Rightarrow> 'a baresip_scheme option" where
  "invite_timeout eh env c s = ua_call_event_handler eh env False c CALL_EVENT_CLOSED s"

text \<open>\<open>call_modify\<close> sends a re-INVITE; whatever comes of it the state here stays as it is.\<close>

definition mnat_handler ::
  "'a listener \<Rightarrow> env \<Rightarrow> bool \<Rightarrow> err \<Rightarrow> u16 \<Rightarrow> nat \<Rightarrow> 'a baresip_scheme \<Rightarrow> 'a baresip_scheme option" where
  "mnat_handler eh env blocked e scode c s =
     (if e \<noteq> 0 \<or> scode \<noteq> 0 then ua_call_event_handler eh env blocked c CALL_EVENT_CLOSED s
      else do {
        call \<leftarrow> bs_calls s c;
        if \<not> c_mnat_wait call then Some s
        else do {
          s \<leftarrow> upd_call c (c_mnat_wait_update (\<lambda>_. False)) s;
          if c_state call = CALL_STATE_OUTGOING then map_option snd (send_invite eh env c s)
          else if c_state call = CALL_STATE_INCOMING
            then ua_call_event_handler eh env blocked c CALL_EVENT_INCOMING s
          else Some s
        }
      })"

definition audio_error_handler :: "'a listener \<Rightarrow> env \<Rightarrow> nat \<Rightarrow> 'a baresip_scheme \<Rightarrow> 'a baresip_scheme option" where
  "audio_error_handler eh env c s = do {
     s \<leftarrow> eh UA_EVENT_AUDIO_ERROR (Some c) s;
     s \<leftarrow> upd_call c call_stream_stop s;
     ua_call_event_handler eh env False c CALL_EVENT_CLOSED s
   }"

definition stream_error_handler :: "'a listener \<Rightarrow> env \<Rightarrow> nat \<Rightarrow> 'a baresip_scheme \<Rightarrow> 'a baresip_scheme option" where
  "stream_error_handler eh env c s = do {
     s \<leftarrow> upd_call c (\<lambda>call. call_stream_stop (call\<lparr>c_scode := 701, c_state := CALL_STATE_TERMINATED\<rparr>)) s;
     ua_call_event_handler eh env False c CALL_EVENT_CLOSED s
   }"

definition sipsess_offer_handler ::
  "'a listener \<Rightarrow> env \<Rightarrow> bool \<Rightarrow> nat \<Rightarrow> 'a baresip_scheme \<Rightarrow> (err \<times> 'a baresip_scheme) option" where
  "sipsess_offer_handler eh env got_offer c s =
     (if \<not> got_offer then Some (e_sdp env, s)
      else do {
        s \<leftarrow> upd_call c (c_got_offer_update (\<lambda>_. True)) s;
        if e_sdp env \<noteq> 0 then Some (e_sdp env, s) else update_media eh env c s
      })"

definition sipsess_answer_handler :: "'a listener \<Rightarrow> env \<Rightarrow> nat \<Rightarrow> 'a baresip_scheme \<Rightarrow> (err \<times> 'a baresip_scheme) option" where
  "sipsess_answer_handler eh env c s = do {
     s \<leftarrow> upd_call c (c_got_offer_update (\<lambda>_. False)) s;
     if e_sdp env \<noteq> 0 then Some (e_sdp env, s) else update_media eh env c s
   }"

text \<open>
  \<open>media\<close>: the response carries a session description that decodes. \<open>update_media\<close> at the end uses
  the call after the event was handled, hence after the listeners ran.
\<close>

definition sipsess_progr_handler ::
  "'a listener \<Rightarrow> env \<Rightarrow> bool \<Rightarrow> u16 \<Rightarrow> nat \<Rightarrow> 'a baresip_scheme \<Rightarrow> 'a baresip_scheme option" where
  "sipsess_progr_handler eh env media scode c s =
     (if scode \<le> 100 then Some s
      else do {
        s \<leftarrow> upd_call c (\<lambda>call. if scode = 180 then call\<lparr>c_state := CALL_STATE_RINGING\<rparr>
               else if scode = 183 then call\<lparr>c_state := CALL_STATE_EARLY\<rparr> else call) s;
        s \<leftarrow> upd_call c call_stream_stop s;
        if media then do {
          s \<leftarrow> upd_call c (call_stream_start env False) s;
          s \<leftarrow> ua_call_event_handler eh env False c CALL_EVENT_PROGRESS s;
          map_option snd (update_media eh env c s)
        }
        else ua_call_event_handler eh env False c CALL_EVENT_RINGING s
      })"

definition sipsess_estab_handler :: "'a listener \<Rightarrow> env \<Rightarrow> nat \<Rightarrow> 'a baresip_scheme \<Rightarrow> 'a baresip_scheme option" where
  "sipsess_estab_handler eh env c s = do {
     call \<leftarrow> bs_calls s c;
     if c_state call = CALL_STATE_ESTABLISHED then Some s
     else do {
       s \<leftarrow> upd_call c (\<lambda>call. (call_stream_start env True (call\<lparr>c_state := CALL_STATE_ESTABLISHED\<rparr>))
              \<lparr>c_not := False\<rparr>) s;
       ua_call_event_handler eh env False c CALL_EVENT_ESTABLISHED s
     }
   }"

text \<open>\<open>accept_err\<close> is what \<open>sipevent_accept\<close> returns; \<open>refer_to\<close>: the request has a Refer-To header.\<close>

definition sipsess_refer_handler ::
  "'a listener \<Rightarrow> env \<Rightarrow> bool \<Rightarrow> err \<Rightarrow> nat \<Rightarrow> 'a baresip_scheme \<Rightarrow> 'a baresip_scheme option" where
  "sipsess_refer_handler eh env refer_to accept_err c s =
     (if \<not> refer_to then Some s
      else do {
        s \<leftarrow> upd_call c (c_not_update (\<lambda>_. accept_err = 0)) s;
        if accept_err \<noteq> 0 then Some s else ua_call_event_handler eh env False c CALL_EVENT_TRANSFER s
      })"

text \<open>The subscription of a REFER ended: with an error, with a response, or neither (\<open>None\<close>).\<close>

definition sipnot_close_handler ::
  "'a listener \<Rightarrow> env \<Rightarrow> err \<Rightarrow> u16 option \<Rightarrow> nat \<Rightarrow> 'a baresip_scheme \<Rightarrow> 'a baresip_scheme option" where
  "sipnot_close_handler eh env e msg c s = do {
     s \<leftarrow> upd_call c (c_not_update (\<lambda>_. False)) s;
     if e \<noteq> 0 \<or> (case msg of None \<Rightarrow> False | Some scode \<Rightarrow> 300 \<le> scode)
     then ua_call_event_handler eh env False c CALL_EVENT_TRANSFER_FAILED s
     else Some s
   }"

text \<open>
  \<open>call_notify_sipfrag\<close> ends the subscription for a status of 200 or more; the status of a session
  that was closed by a response is one.
\<close>

definition sipsess_close_handler ::
  "'a listener \<Rightarrow> env \<Rightarrow> err \<Rightarrow> u16 option \<Rightarrow> nat \<Rightarrow> 'a baresip_scheme \<Rightarrow> 'a baresip_scheme option" where
  "sipsess_close_handler eh env e msg c s = do {
     s \<leftarrow> upd_call c (\<lambda>call. call_stream_stop
        (if e \<noteq> 0 then call\<lparr>c_not := False\<rparr>
         else case msg of None \<Rightarrow> call
              | Some scode \<Rightarrow> call\<lparr>c_scode := scode, c_not := (c_not call \<and> scode < 200)\<rparr>)) s;
     ua_call_event_handler eh env False c CALL_EVENT_CLOSED s
   }"

subsection \<open>Incoming calls\<close>

definition uag_call_count :: "'a baresip_scheme \<Rightarrow> nat" where
  "uag_call_count s = (\<Sum>u\<leftarrow>bs_ual s. case bs_uas s u of None \<Rightarrow> 0 | Some ua \<Rightarrow> length (ua_calls ua))"

text \<open>
  \<open>offer\<close>: \<open>None\<close> without an SDP offer, else whether its address family and audio codecs suit.
  A local timeout is configured (\<open>telephony_init\<close>).
\<close>

definition call_accept ::
  "'a listener \<Rightarrow> env \<Rightarrow> bool \<Rightarrow> bool option \<Rightarrow> nat \<Rightarrow> 'a baresip_scheme \<Rightarrow> (err \<times> 'a baresip_scheme) option" where
  "call_accept eh env blocked offer c s = do {
     s \<leftarrow> upd_call c (c_outgoing_update (\<lambda>_. False)) s;
     case e_peer env of
       Inl e \<Rightarrow> Some (e, s)
     | Inr p \<Rightarrow> do {
         s \<leftarrow> upd_call c (c_peer_uri_update (\<lambda>_. Some p)) s;
         if offer \<noteq> None \<and> e_sdp env \<noteq> 0 then Some (e_sdp env, s)
         else do {
           s \<leftarrow> upd_call c (c_got_offer_update (\<lambda>g. g \<or> offer \<noteq> None)) s;
           if offer = Some False
           then map_option (\<lambda>s. (0, s)) (ua_call_event_handler eh env blocked c CALL_EVENT_CLOSED s)
           else if e_sess env \<noteq> 0 then Some (e_sess env, s)
           else do {
             s \<leftarrow> upd_call c (c_sess_update (\<lambda>_. True)) s;
             case e_callid env of
               Inl e \<Rightarrow> Some (e, s)
             | Inr i \<Rightarrow> do {
                 s \<leftarrow> upd_call c (\<lambda>call. call\<lparr>c_id := Some i, c_state := CALL_STATE_INCOMING, c_tmr_inv := True\<rparr>) s;
                 call \<leftarrow> bs_calls s c;
                 if c_mnat call then Some (0, s)
                 else map_option (\<lambda>s. (0, s)) (ua_call_event_handler eh env blocked c CALL_EVENT_INCOMING s)
               }
           }
         }
       }
   }"

text \<open>
  \<open>found\<close> is the user agent the request is for; \<open>max_calls = 0\<close> means no limit; \<open>supported\<close>:
  every required extension and the address family of the offer are. The result says whether a call
  was made of the INVITE, 0, or with which status it was refused.
\<close>

definition sipsess_conn_handler ::
  "'a listener \<Rightarrow> env \<Rightarrow> nat \<Rightarrow> nat option \<Rightarrow> nat option \<Rightarrow> bool \<Rightarrow> bool option \<Rightarrow> 'a baresip_scheme
   \<Rightarrow> (nat \<times> 'a baresip_scheme) option" where
  "sipsess_conn_handler eh env max_calls found refuse blocked offer s =
     (case found of None \<Rightarrow> Some (404, s)
      | Some u \<Rightarrow>
          if max_calls \<noteq> 0 \<and> uag_call_count s + 1 > max_calls then Some (486, s)
          else case refuse of Some scode \<Rightarrow> Some (scode, s)
          | None \<Rightarrow> do {
              (e, cp, s) \<leftarrow> call_alloc env u s;
              case cp of None \<Rightarrow> Some (500, s)
              | Some c \<Rightarrow> do {
                  (e, s) \<leftarrow> call_accept eh env blocked offer c s;
                  if e \<noteq> 0 then do { s \<leftarrow> call_deref c s; Some (500, s) } else Some (0, s)
                }
            })"

subsection \<open>What may happen to baresip\<close>

text \<open>
  The calls from outside, each with the call it is about: the session layer, the REFER subscription,
  timers, media NAT, streams; an INVITE that comes in; the outcome of a registration.
\<close>

datatype net_event = N_Progress bool u16 nat | N_Estab nat | N_Close err "u16 option" nat | N_Refer bool err nat
  | N_Refer_End err "u16 option" nat | N_Offer bool nat | N_Answer nat | N_Timeout nat | N_Mnat bool err u16 nat
  | N_Stream_Error nat | N_Audio_Error nat | N_Incoming nat "nat option" "nat option" bool "bool option"
  | N_Register bool

fun deliver :: "'a listener \<Rightarrow> env \<Rightarrow> net_event \<Rightarrow> 'a baresip_scheme \<Rightarrow> 'a baresip_scheme option" where
  "deliver eh env (N_Progress media scode c) s = sipsess_progr_handler eh env media scode c s"
| "deliver eh env (N_Estab c) s = sipsess_estab_handler eh env c s"
| "deliver eh env (N_Close e msg c) s = sipsess_close_handler eh env e msg c s"
| "deliver eh env (N_Refer refer_to e c) s = sipsess_refer_handler eh env refer_to e c s"
| "deliver eh env (N_Refer_End e msg c) s = sipnot_close_handler eh env e msg c s"
| "deliver eh env (N_Offer got_offer c) s = map_option snd (sipsess_offer_handler eh env got_offer c s)"
| "deliver eh env (N_Answer c) s = map_option snd (sipsess_answer_handler eh env c s)"
| "deliver eh env (N_Timeout c) s = invite_timeout eh env c s"
| "deliver eh env (N_Mnat blocked e scode c) s = mnat_handler eh env blocked e scode c s"
| "deliver eh env (N_Stream_Error c) s = stream_error_handler eh env c s"
| "deliver eh env (N_Audio_Error c) s = audio_error_handler eh env c s"
| "deliver eh env (N_Incoming max_calls found refuse blocked offer) s =
     map_option snd (sipsess_conn_handler eh env max_calls found refuse blocked offer s)"
| "deliver eh env (N_Register good) s = eh (if good then UA_EVENT_REGISTER_OK else UA_EVENT_REGISTER_FAIL) None s"

fun net_call :: "net_event \<Rightarrow> nat option" where
  "net_call (N_Progress _ _ c) = Some c"
| "net_call (N_Estab c) = Some c"
| "net_call (N_Close _ _ c) = Some c"
| "net_call (N_Refer _ _ c) = Some c"
| "net_call (N_Refer_End _ _ c) = Some c"
| "net_call (N_Offer _ c) = Some c"
| "net_call (N_Answer c) = Some c"
| "net_call (N_Timeout c) = Some c"
| "net_call (N_Mnat _ _ _ c) = Some c"
| "net_call (N_Stream_Error c) = Some c"
| "net_call (N_Audio_Error c) = Some c"
| "net_call (N_Incoming _ _ _ _ _) = None"
| "net_call (N_Register _) = None"

text \<open>
  Events of calls that exist, and INVITEs for a user agent of the list. A subscription that ends with
  a failure is the business of \<open>transfer_fails\<close>.
\<close>

definition net_ok :: "net_event \<Rightarrow> 'a baresip_scheme \<Rightarrow> bool" where
  "net_ok ev s \<longleftrightarrow> (case net_call ev of None \<Rightarrow> True | Some c \<Rightarrow> bs_calls s c \<noteq> None) \<and>
     (case ev of N_Incoming _ (Some u) _ _ _ \<Rightarrow> bs_uas s u \<noteq> None | _ \<Rightarrow> True)"

definition transfer_fails :: "net_event \<Rightarrow> nat \<Rightarrow> bool" where
  "transfer_fails ev c \<longleftrightarrow> (case ev of
     N_Refer_End e msg d \<Rightarrow> d = c \<and> (e \<noteq> 0 \<or> (case msg of None \<Rightarrow> False | Some scode \<Rightarrow> 300 \<le> scode))
   | _ \<Rightarrow> False)"

section \<open>Well-formedness\<close>

text \<open>
  The shape of the state: which objects there are and who owns whom. A well-formed state lists
  exactly the allocated user agents, and every allocated call on exactly its own user agent's list.
\<close>

definition shape :: "'a baresip_scheme \<Rightarrow> nat list \<times> nat option \<times> (nat \<rightharpoonup> nat list) \<times> (nat \<rightharpoonup> nat) \<times> nat" where
  "shape s = (bs_ual s, bs_cur s, map_option ua_calls \<circ> bs_uas s, map_option c_ua \<circ> bs_calls s, bs_next s)"

definition bs_wf :: "'a baresip_scheme \<Rightarrow> bool" where
  "bs_wf s \<longleftrightarrow> distinct (bs_ual s) \<and> set (bs_ual s) = dom (bs_uas s) \<and>
     (\<forall>c call. bs_calls s c = Some call \<longrightarrow>
        c < bs_next s \<and> (\<exists>ua. bs_uas s (c_ua call) = Some ua \<and> c \<in> set (ua_calls ua))) \<and>
     (\<forall>u ua. bs_uas s u = Some ua \<longrightarrow> u < bs_next s \<and> distinct (ua_calls ua) \<and>
        (\<forall>c \<in> set (ua_calls ua). \<exists>call. bs_calls s c = Some call \<and> c_ua call = u))"

text \<open>The current user agent is one of the list, when there is one.\<close>

definition cur_ok :: "'a baresip_scheme \<Rightarrow> bool" where
  "cur_ok s \<longleftrightarrow> bs_ual s = [] \<or> (\<exists>u \<in> set (bs_ual s). bs_cur s = Some u)"

definition agents :: "'a baresip_scheme \<Rightarrow> nat list \<times> nat option" where
  "agents s = (bs_ual s, bs_cur s)"

lemma shape_agents: "shape s' = shape s \<Longrightarrow> agents s' = agents s"
  by (simp add: shape_def agents_def)

lemma cur_ok_agents: "agents s' = agents s \<Longrightarrow> cur_ok s' = cur_ok s"
  by (simp add: agents_def cur_ok_def)

lemma shape_dom_calls: "shape s' = shape s \<Longrightarrow> dom (bs_calls s') = dom (bs_calls s)"
proof -
  assume "shape s' = shape s"
  then have "dom (map_option c_ua \<circ> bs_calls s') = dom (map_option c_ua \<circ> bs_calls s)" by (simp add: shape_def)
  then show ?thesis by (simp add: dom_def)
qed

lemma shape_dom_uas: "shape s' = shape s \<Longrightarrow> dom (bs_uas s') = dom (bs_uas s)"
proof -
  assume "shape s' = shape s"
  then have "dom (map_option ua_calls \<circ> bs_uas s') = dom (map_option ua_calls \<circ> bs_uas s)" by (simp add: shape_def)
  then show ?thesis by (simp add: dom_def)
qed

lemma shape_call:
  assumes "shape s' = shape s"
  shows "map_option c_ua (bs_calls s' c) = map_option c_ua (bs_calls s c)"
proof -
  have "(map_option c_ua \<circ> bs_calls s') c = (map_option c_ua \<circ> bs_calls s) c" using assms by (simp add: shape_def)
  then show ?thesis by simp
qed

lemma shape_ua:
  assumes "shape s' = shape s"
  shows "map_option ua_calls (bs_uas s' u) = map_option ua_calls (bs_uas s u)"
proof -
  have "(map_option ua_calls \<circ> bs_uas s') u = (map_option ua_calls \<circ> bs_uas s) u" using assms by (simp add: shape_def)
  then show ?thesis by simp
qed

lemma bs_wf_ual: "bs_wf s \<Longrightarrow> set (bs_ual s) = dom (bs_uas s)"
  and bs_wf_distinct: "bs_wf s \<Longrightarrow> distinct (bs_ual s)"
  by (simp_all add: bs_wf_def)

lemma bs_wf_call:
  "bs_wf s \<Longrightarrow> bs_calls s c = Some call \<Longrightarrow> \<exists>ua. bs_uas s (c_ua call) = Some ua \<and> c \<in> set (ua_calls ua)"
  by (simp add: bs_wf_def)

lemma bs_wf_ua:
  "bs_wf s \<Longrightarrow> bs_uas s u = Some ua \<Longrightarrow> c \<in> set (ua_calls ua) \<Longrightarrow> \<exists>call. bs_calls s c = Some call \<and> c_ua call = u"
  by (simp add: bs_wf_def)

lemma bs_wf_ua_distinct: "bs_wf s \<Longrightarrow> bs_uas s u = Some ua \<Longrightarrow> distinct (ua_calls ua)"
  by (simp add: bs_wf_def)

lemma bs_wf_next:
  "bs_wf s \<Longrightarrow> bs_calls s c = Some call \<Longrightarrow> c < bs_next s"
  "bs_wf s \<Longrightarrow> bs_uas s u = Some ua \<Longrightarrow> u < bs_next s"
  by (simp_all add: bs_wf_def)

lemma shape_call_Some:
  assumes "shape s' = shape s" "bs_calls s' c = Some call'"
  shows "\<exists>call. bs_calls s c = Some call \<and> c_ua call = c_ua call'"
  using shape_call [OF assms(1), of c] assms(2) by (cases "bs_calls s c") auto

lemma shape_ua_Some:
  assumes "shape s' = shape s" "bs_uas s' u = Some ua'"
  shows "\<exists>ua. bs_uas s u = Some ua \<and> ua_calls ua = ua_calls ua'"
  using shape_ua [OF assms(1), of u] assms(2) by (cases "bs_uas s u") auto

lemma bs_wf_shape:
  assumes sh: "shape s' = shape s" and wf: "bs_wf s"
  shows "bs_wf s'"
proof -
  have e: "bs_ual s' = bs_ual s" "bs_next s' = bs_next s" using sh by (simp_all add: shape_def)
  have "c < bs_next s \<and> (\<exists>ua. bs_uas s' (c_ua call) = Some ua \<and> c \<in> set (ua_calls ua))"
    if c: "bs_calls s' c = Some call" for c call
  proof -
    obtain call0 where c0: "bs_calls s c = Some call0" "c_ua call0 = c_ua call"
      using shape_call_Some [OF sh c] by blast
    obtain ua where "bs_uas s (c_ua call) = Some ua" "c \<in> set (ua_calls ua)"
      using bs_wf_call [OF wf c0(1)] c0(2) by auto
    then show ?thesis
      using shape_ua_Some [OF sh [symmetric]] bs_wf_next(1) [OF wf c0(1)] by metis
  qed
  moreover have "u < bs_next s \<and> distinct (ua_calls ua) \<and>
      (\<forall>c \<in> set (ua_calls ua). \<exists>call. bs_calls s' c = Some call \<and> c_ua call = u)"
    if u: "bs_uas s' u = Some ua" for u ua
  proof -
    obtain ua0 where u0: "bs_uas s u = Some ua0" "ua_calls ua0 = ua_calls ua"
      using shape_ua_Some [OF sh u] by blast
    then show ?thesis
      using bs_wf_ua [OF wf u0(1)] bs_wf_ua_distinct [OF wf u0(1)] bs_wf_next(2) [OF wf u0(1)]
        shape_call_Some [OF sh [symmetric]] by metis
  qed
  ultimately show ?thesis
    using shape_dom_uas [OF sh] bs_wf_ual [OF wf] bs_wf_distinct [OF wf] e by (simp add: bs_wf_def)
qed

lemma upd_call_runs:
  assumes "c \<in> dom (bs_calls s)" "\<And>x. c_ua (f x) = c_ua x"
  shows "runs (upd_call c f s) (\<lambda>s'. shape s' = shape s \<and> baresip.more s' = baresip.more s)"
  using assms by (auto simp: upd_call_def shape_def fun_eq_iff)

lemma call_deref_runs:
  assumes wf: "bs_wf s" and c: "c \<in> dom (bs_calls s)"
  shows "runs (call_deref c s) (\<lambda>s'. bs_wf s' \<and> agents s' = agents s \<and> baresip.more s' = baresip.more s \<and>
    dom (bs_calls s') = dom (bs_calls s) - {c} \<and> dom (bs_uas s') = dom (bs_uas s) \<and>
    (\<forall>u. map_option ua_calls (bs_uas s' u) = map_option (filter (\<lambda>x. x \<noteq> c) \<circ> ua_calls) (bs_uas s u)))"
proof -
  obtain call where call: "bs_calls s c = Some call" using c by blast
  obtain ua where ua: "bs_uas s (c_ua call) = Some ua" "c \<in> set (ua_calls ua)"
    using bs_wf_call [OF wf call] by blast
  have other: "c \<notin> set (ua_calls ua')" if "bs_uas s u = Some ua'" "u \<noteq> c_ua call" for u ua'
    using bs_wf_ua [OF wf that(1)] call that(2) by fastforce
  let ?s = "s\<lparr>bs_calls := (bs_calls s)(c := None),
       bs_uas := (bs_uas s)(c_ua call \<mapsto> ua\<lparr>ua_calls := filter (\<lambda>x. x \<noteq> c) (ua_calls ua)\<rparr>)\<rparr>"
  have r: "call_deref c s = Some ?s" by (simp add: call_deref_def call ua)
  have "bs_wf ?s"
    unfolding bs_wf_def
  proof (intro conjI allI impI)
    show "distinct (bs_ual ?s)" using bs_wf_distinct [OF wf] by simp
    show "set (bs_ual ?s) = dom (bs_uas ?s)" using bs_wf_ual [OF wf] ua(1) by auto
  next
    fix d x assume "bs_calls ?s d = Some x"
    then have d: "bs_calls s d = Some x" "d \<noteq> c" by (auto split: if_splits)
    show "d < bs_next ?s" using bs_wf_next(1) [OF wf d(1)] by simp
    show "\<exists>ua. bs_uas ?s (c_ua x) = Some ua \<and> d \<in> set (ua_calls ua)"
      using bs_wf_call [OF wf d(1)] d(2) ua(1) by auto
  next
    fix u y assume y: "bs_uas ?s u = Some y"
    then obtain y0 where y0: "bs_uas s u = Some y0" "ua_calls y = filter (\<lambda>x. x \<noteq> c) (ua_calls y0)"
      using ua(1) other by (auto split: if_splits intro!: filter_True [symmetric])
    show "u < bs_next ?s" using bs_wf_next(2) [OF wf y0(1)] by simp
    show "distinct (ua_calls y)" using bs_wf_ua_distinct [OF wf y0(1)] y0(2) by simp
    show "\<forall>d \<in> set (ua_calls y). \<exists>call. bs_calls ?s d = Some call \<and> c_ua call = u"
      using bs_wf_ua [OF wf y0(1)] y0(2) by auto
  qed
  moreover have "map_option ua_calls (bs_uas ?s u) = map_option (filter (\<lambda>x. x \<noteq> c) \<circ> ua_calls) (bs_uas s u)" for u
    using ua(1) other by (cases "bs_uas s u") (auto intro!: filter_True [symmetric])
  ultimately show ?thesis
    using ua by (auto simp: r agents_def)
qed

lemma call_alloc_runs:
  assumes wf: "bs_wf s" and u: "u \<in> dom (bs_uas s)"
  shows "runs (call_alloc env u s) (\<lambda>(e, cp, s'). bs_wf s' \<and> agents s' = agents s \<and>
    baresip.more s' = baresip.more s \<and> dom (bs_uas s') = dom (bs_uas s) \<and> (e = 0 \<longleftrightarrow> cp \<noteq> None) \<and>
    (case cp of None \<Rightarrow> s' = s | Some c \<Rightarrow> c \<notin> dom (bs_calls s) \<and> dom (bs_calls s') = insert c (dom (bs_calls s)) \<and>
       map_option ua_calls (bs_uas s' u) = map_option (\<lambda>ua. ua_calls ua @ [c]) (bs_uas s u)))"
proof -
  obtain ua where ua: "bs_uas s u = Some ua" using u by blast
  have new: "bs_calls s (bs_next s) = None"
    using bs_wf_next(1) [OF wf, of "bs_next s"] by (cases "bs_calls s (bs_next s)") auto
  have fresh: "bs_next s \<notin> set (ua_calls ua')" if "bs_uas s v = Some ua'" for v ua'
    using bs_wf_ua [OF wf that, of "bs_next s"] new by auto
  let ?s = "\<lambda>call. s\<lparr>bs_calls := (bs_calls s)(bs_next s \<mapsto> call), bs_next := Suc (bs_next s),
      bs_uas := (bs_uas s)(u \<mapsto> ua\<lparr>ua_calls := ua_calls ua @ [bs_next s]\<rparr>)\<rparr>"
  have wf': "bs_wf (?s call)" if "c_ua call = u" for call
    unfolding bs_wf_def
  proof (intro conjI allI impI)
    show "distinct (bs_ual (?s call))" using bs_wf_distinct [OF wf] by simp
    show "set (bs_ual (?s call)) = dom (bs_uas (?s call))" using bs_wf_ual [OF wf] ua by auto
  next
    fix d x assume d: "bs_calls (?s call) d = Some x"
    show "d < bs_next (?s call)" using d bs_wf_next(1) [OF wf, of d x] by (auto split: if_splits)
    show "\<exists>ua. bs_uas (?s call) (c_ua x) = Some ua \<and> d \<in> set (ua_calls ua)"
      using d bs_wf_call [OF wf, of d x] ua that by (auto split: if_splits)
  next
    fix v y assume y: "bs_uas (?s call) v = Some y"
    show "v < bs_next (?s call)" using y ua bs_wf_next(2) [OF wf, of v] by (auto split: if_splits)
    show "distinct (ua_calls y)"
      using y ua fresh [OF ua] bs_wf_ua_distinct [OF wf, of v] by (auto split: if_splits)
    show "\<forall>d \<in> set (ua_calls y). \<exists>x. bs_calls (?s call) d = Some x \<and> c_ua x = v"
      using y ua new that bs_wf_ua [OF wf, of v] fresh by (auto split: if_splits)
  qed
  show ?thesis
    using wf ua new wf' by (auto simp: call_alloc_def agents_def Let_def split: option.split)
qed

lemma list_flush_runs:
  assumes "bs_wf s" "set cs \<subseteq> dom (bs_calls s)" "distinct cs"
  shows "runs (list_flush_calls cs s) (\<lambda>s'. bs_wf s' \<and> agents s' = agents s \<and> baresip.more s' = baresip.more s \<and>
    dom (bs_calls s') = dom (bs_calls s) - set cs \<and> dom (bs_uas s') = dom (bs_uas s) \<and>
    (\<forall>u. map_option ua_calls (bs_uas s' u) = map_option (filter (\<lambda>x. x \<notin> set cs) \<circ> ua_calls) (bs_uas s u)))"
  using assms
proof (induction cs arbitrary: s)
  case Nil
  then show ?case by (simp add: comp_def)
next
  case (Cons c cs)
  have c: "c \<in> dom (bs_calls s)" using Cons.prems by simp
  have m: "map_option (filter P \<circ> ua_calls) x = map_option (filter P) (map_option ua_calls x)" for P x
    by (simp add: option.map_comp comp_def)
  show ?case
    unfolding list_flush_calls.simps
  proof (rule runs_bind [OF call_deref_runs [OF Cons.prems(1) c]], elim conjE)
    fix s1
    assume s1: "bs_wf s1" "agents s1 = agents s" "baresip.more s1 = baresip.more s"
      "dom (bs_calls s1) = dom (bs_calls s) - {c}" "dom (bs_uas s1) = dom (bs_uas s)"
      "\<forall>u. map_option ua_calls (bs_uas s1 u) = map_option (filter (\<lambda>x. x \<noteq> c) \<circ> ua_calls) (bs_uas s u)"
    have "set cs \<subseteq> dom (bs_calls s1)" "distinct cs" using s1(4) Cons.prems by auto
    from Cons.IH [OF s1(1) this] show "runs (list_flush_calls cs s1) (\<lambda>s'. bs_wf s' \<and> agents s' = agents s \<and>
        baresip.more s' = baresip.more s \<and> dom (bs_calls s') = dom (bs_calls s) - set (c # cs) \<and>
        dom (bs_uas s') = dom (bs_uas s) \<and> (\<forall>u. map_option ua_calls (bs_uas s' u) =
          map_option (filter (\<lambda>x. x \<notin> set (c # cs)) \<circ> ua_calls) (bs_uas s u)))"
    proof (rule runs_mono, elim conjE)
      fix s2
      assume s2: "bs_wf s2" "agents s2 = agents s1" "baresip.more s2 = baresip.more s1"
        "dom (bs_calls s2) = dom (bs_calls s1) - set cs" "dom (bs_uas s2) = dom (bs_uas s1)"
        "\<forall>u. map_option ua_calls (bs_uas s2 u) = map_option (filter (\<lambda>x. x \<notin> set cs) \<circ> ua_calls) (bs_uas s1 u)"
      have "map_option ua_calls (bs_uas s2 u) = map_option (filter (\<lambda>x. x \<notin> set (c # cs)) \<circ> ua_calls) (bs_uas s u)" for u
        using s2(6) s1(6) by (simp only: m) (simp add: option.map_comp comp_def conj_commute)
      then show "bs_wf s2 \<and> agents s2 = agents s \<and> baresip.more s2 = baresip.more s \<and>
          dom (bs_calls s2) = dom (bs_calls s) - set (c # cs) \<and> dom (bs_uas s2) = dom (bs_uas s) \<and>
          (\<forall>u. map_option ua_calls (bs_uas s2 u) = map_option (filter (\<lambda>x. x \<notin> set (c # cs)) \<circ> ua_calls) (bs_uas s u))"
        using s1 s2 by auto
    qed
  qed
qed

text \<open>Freeing calls does not look at the list of user agents.\<close>

lemma call_deref_ual: "call_deref c (s\<lparr>bs_ual := us\<rparr>) = map_option (\<lambda>s. s\<lparr>bs_ual := us\<rparr>) (call_deref c s)"
  by (simp add: call_deref_def split: bind_split)

lemma list_flush_ual:
  "list_flush_calls cs (s\<lparr>bs_ual := us\<rparr>) = map_option (\<lambda>s. s\<lparr>bs_ual := us\<rparr>) (list_flush_calls cs s)"
proof (induction cs arbitrary: s)
  case (Cons c cs)
  then show ?case by (cases "call_deref c s") (simp_all add: call_deref_ual)
qed simp

lemma remove_ua_wf:
  assumes wf: "bs_wf s" and u: "bs_uas s u = Some ua" "ua_calls ua = []"
  shows "bs_wf (s\<lparr>bs_ual := filter (\<lambda>x. x \<noteq> u) (bs_ual s), bs_uas := (bs_uas s)(u := None), bs_sip_closed := b\<rparr>)"
proof -
  have "c_ua call \<noteq> u" if "bs_calls s c = Some call" for c call
    using bs_wf_call [OF wf that] u by auto
  then show ?thesis using wf by (auto simp: bs_wf_def)
qed

lemma add_ua_wf:
  assumes wf: "bs_wf s"
  shows "bs_wf (s\<lparr>bs_next := Suc (bs_next s), bs_uas := (bs_uas s)(bs_next s \<mapsto> \<lparr>ua_acc = acc, ua_regl = regl, ua_calls = []\<rparr>),
     bs_ual := bs_ual s @ [bs_next s]\<rparr>)" and "bs_next s \<notin> dom (bs_uas s)" and "bs_next s \<notin> set (bs_ual s)"
proof -
  have n: "bs_uas s (bs_next s) = None" using bs_wf_next(2) [OF wf, of "bs_next s"] by (cases "bs_uas s (bs_next s)") auto
  then show "bs_next s \<notin> dom (bs_uas s)" by blast
  with bs_wf_ual [OF wf] show new: "bs_next s \<notin> set (bs_ual s)" by blast
  show "bs_wf (s\<lparr>bs_next := Suc (bs_next s), bs_uas := (bs_uas s)(bs_next s \<mapsto> \<lparr>ua_acc = acc, ua_regl = regl, ua_calls = []\<rparr>),
     bs_ual := bs_ual s @ [bs_next s]\<rparr>)"
    unfolding bs_wf_def
  proof (intro conjI allI impI, goal_cases)
    case 1
    show ?case using bs_wf_distinct [OF wf] new by simp
  next
    case 2
    show ?case using bs_wf_ual [OF wf] by auto
  next
    case (3 c call)
    then show ?case using bs_wf_next(1) [OF wf, of c call] by simp
  next
    case (4 c call)
    then show ?case using bs_wf_call [OF wf, of c call] n by auto
  next
    case (5 u ua)
    then show ?case using bs_wf_next(2) [OF wf, of u] by (auto split: if_splits)
  next
    case (6 u ua)
    then show ?case using bs_wf_ua_distinct [OF wf, of u] by (auto split: if_splits)
  next
    case (7 u ua)
    then show ?case using bs_wf_ua [OF wf, of u] by (auto split: if_splits)
  qed
qed

section \<open>Listeners\<close>

text \<open>
  What baresip needs of the event listeners. \<open>held s\<close> are the pointers to calls they hold in the
  part of the state that is theirs. As long as those point to allocated calls a listener is defined,
  it leaves user agents and calls alone and takes no new pointer; on CALL\_CLOSED, after which
  baresip frees the call, it drops all of them.
\<close>

definition held_ok :: "('a baresip_scheme \<Rightarrow> nat set) \<Rightarrow> 'a baresip_scheme \<Rightarrow> bool" where
  "held_ok held s \<longleftrightarrow> held s \<subseteq> dom (bs_calls s)"

definition stays :: "('a baresip_scheme \<Rightarrow> nat set) \<Rightarrow> 'a baresip_scheme \<Rightarrow> 'a baresip_scheme \<Rightarrow> bool" where
  "stays held s s' \<longleftrightarrow> shape s' = shape s \<and> held s' \<subseteq> held s \<and> held_ok held s'"

definition good :: "('a baresip_scheme \<Rightarrow> nat set) \<Rightarrow> 'a baresip_scheme \<Rightarrow> 'a baresip_scheme \<Rightarrow> bool" where
  "good held s s' \<longleftrightarrow> bs_wf s' \<and> held s' \<subseteq> held s \<and> held_ok held s' \<and> agents s' = agents s"

lemma stays_trans: "stays held s s' \<Longrightarrow> stays held s' s'' \<Longrightarrow> stays held s s''"
  by (auto simp: stays_def)

lemma stays_ok: "stays held s s' \<Longrightarrow> held_ok held s'"
  by (simp add: stays_def)

lemma stays_held: "stays held s s' \<Longrightarrow> held s' \<subseteq> held s"
  by (simp add: stays_def)

lemma stays_wf: "stays held s s' \<Longrightarrow> bs_wf s \<Longrightarrow> bs_wf s'"
  by (auto simp: stays_def intro: bs_wf_shape)

lemma stays_calls: "stays held s s' \<Longrightarrow> dom (bs_calls s') = dom (bs_calls s)"
  by (rule shape_dom_calls) (simp add: stays_def)

lemma stays_uas: "stays held s s' \<Longrightarrow> dom (bs_uas s') = dom (bs_uas s)"
  by (rule shape_dom_uas) (simp add: stays_def)

lemma stays_good: "stays held s s' \<Longrightarrow> bs_wf s \<Longrightarrow> good held s s'"
  by (auto simp: stays_def good_def intro: bs_wf_shape dest: shape_agents)

lemma good_trans: "good held s s' \<Longrightarrow> good held s' s'' \<Longrightarrow> good held s s''"
  by (auto simp: good_def)

lemma good_wf: "good held s s' \<Longrightarrow> bs_wf s'" and good_ok: "good held s s' \<Longrightarrow> held_ok held s'"
  by (simp_all add: good_def)

locale ua_listener =
  fixes eh :: "'a listener" and held :: "'a baresip_scheme \<Rightarrow> nat set"
  assumes listen: "held_ok held s \<Longrightarrow> runs (eh ev cp s) (stays held s)"
    and more: "baresip.more s' = baresip.more s \<Longrightarrow> held s' = held s"
    and closed: "held_ok held s \<Longrightarrow> eh UA_EVENT_CALL_CLOSED cp s = Some s' \<Longrightarrow> held s' = {}"
begin

lemma stays_self: "held_ok held s \<Longrightarrow> stays held s s"
  by (simp add: stays_def)

lemma good_self: "bs_wf s \<Longrightarrow> held_ok held s \<Longrightarrow> good held s s"
  by (simp add: good_def)

lemma more_ok: "held_ok held s \<Longrightarrow> baresip.more s' = baresip.more s \<Longrightarrow> dom (bs_calls s) \<subseteq> dom (bs_calls s')
    \<Longrightarrow> held_ok held s'"
  using more [of s' s] by (auto simp: held_ok_def)

lemma more_stays: "stays held s0 s \<Longrightarrow> baresip.more s' = baresip.more s \<Longrightarrow> shape s' = shape s \<Longrightarrow> stays held s0 s'"
  using more [of s' s] shape_dom_calls [of s' s] by (auto simp: stays_def held_ok_def)

lemma upd_stays:
  assumes "held_ok held s" "c \<in> dom (bs_calls s)" "\<And>x. c_ua (f x) = c_ua x"
  shows "runs (upd_call c f s) (stays held s)"
  by (rule runs_mono [OF upd_call_runs [OF assms(2,3)]]) (auto intro: more_stays stays_self assms(1))

lemma listen_bind:
  assumes "stays held s0 s" "\<And>s'. stays held s0 s' \<Longrightarrow> runs (f s') Q"
  shows "runs (Option.bind (eh ev cp s) f) Q"
  by (rule runs_bind [OF listen [OF stays_ok [OF assms(1)]]]) (rule assms(2) [OF stays_trans [OF assms(1)]])

lemma listen_end: "stays held s0 s \<Longrightarrow> runs (eh ev cp s) (stays held s0)"
  by (rule runs_mono [OF listen [OF stays_ok]]) (auto intro: stays_trans)

lemma upd_end:
  assumes "stays held s0 s" "c \<in> dom (bs_calls s0)" "\<And>x. c_ua (f x) = c_ua x"
  shows "runs (upd_call c f s) (stays held s0)"
  by (rule runs_mono [OF upd_stays [OF stays_ok [OF assms(1)] _ assms(3)]])
    (use assms(2) stays_calls [OF assms(1)] in \<open>auto intro: stays_trans [OF assms(1)]\<close>)

lemma upd_bind:
  assumes "stays held s0 s" "c \<in> dom (bs_calls s0)" "\<And>x. c_ua (f x) = c_ua x"
    "\<And>s'. stays held s0 s' \<Longrightarrow> runs (g s') Q"
  shows "runs (Option.bind (upd_call c f s) g) Q"
  by (rule runs_bind [OF upd_end [OF assms(1-3)]]) (rule assms(4))

lemma stays_call_Some: "stays held s0 s \<Longrightarrow> c \<in> dom (bs_calls s0) \<Longrightarrow> \<exists>call. bs_calls s c = Some call"
  using stays_calls by blast

lemma call_bind:
  assumes "stays held s0 s" "c \<in> dom (bs_calls s0)" "\<And>x. bs_calls s c = Some x \<Longrightarrow> runs (f x) Q"
  shows "runs (Option.bind (bs_calls s c) f) Q"
  using stays_call_Some [OF assms(1,2)] assms(3) by auto

text \<open>Freeing a call right after its CALL\_CLOSED event.\<close>

lemma closed_deref:
  assumes wf: "bs_wf s0" and s: "stays held s0 s" and c: "c \<in> dom (bs_calls s0)"
    and g: "\<And>s'. good held s0 s' \<Longrightarrow> dom (bs_uas s') = dom (bs_uas s0) \<Longrightarrow> runs (g s') Q"
  shows "runs (do { s \<leftarrow> eh UA_EVENT_CALL_CLOSED cp s; s \<leftarrow> call_deref c s; g s }) Q"
proof (rule runs_bind [OF listen [OF stays_ok [OF s]]])
  fix s1 assume s1: "eh UA_EVENT_CALL_CLOSED cp s = Some s1" "stays held s s1"
  note st = stays_trans [OF s s1(2)]
  have c1: "c \<in> dom (bs_calls s1)" using stays_calls [OF st] c by simp
  show "runs (do { s \<leftarrow> call_deref c s1; g s }) Q"
  proof (rule runs_bind [OF call_deref_runs [OF stays_wf [OF st wf] c1]], elim conjE)
    fix s2 assume s2: "bs_wf s2" "agents s2 = agents s1" "baresip.more s2 = baresip.more s1" "dom (bs_uas s2) = dom (bs_uas s1)"
    have "good held s0 s2"
      using s2(1,2) closed [OF stays_ok [OF s] s1(1)] more [OF s2(3)] st
      by (auto simp: good_def held_ok_def stays_def dest: shape_agents)
    then show "runs (g s2) Q" using g s2(4) stays_uas [OF st] by simp
  qed
qed

lemma find_onhold_runs:
  "set cs \<subseteq> dom (bs_calls s) \<Longrightarrow> runs (find_onhold cs s) (\<lambda>h. \<forall>c. h = Some c \<longrightarrow> c \<in> set cs)"
  by (induction cs) (auto simp: runs_def)

lemma resume_good:
  assumes wf: "bs_wf s" and ok: "held_ok held s" and u: "u \<in> dom (bs_uas s)"
  shows "runs (resume_call u s) (good held s)"
proof -
  obtain ua where ua: "bs_uas s u = Some ua" using u by blast
  have live: "set (rev (ua_calls ua)) \<subseteq> dom (bs_calls s)" using bs_wf_ua [OF wf ua] by fastforce
  from find_onhold_runs [OF this] obtain h where
    h: "find_onhold (rev (ua_calls ua)) s = Some h" "\<forall>c. h = Some c \<longrightarrow> c \<in> set (ua_calls ua)"
    by (auto simp: runs_def)
  note g = good_self [OF wf ok]
  show ?thesis
  proof (cases h)
    case None
    then show ?thesis using ua h g by (simp add: resume_call_def)
  next
    case (Some c)
    then have c: "c \<in> dom (bs_calls s)" using h(2) live by auto
    then obtain call where "bs_calls s c = Some call" by blast
    moreover have "runs (upd_call c (c_on_hold_update (\<lambda>_. False)) s) (good held s)"
      by (rule runs_mono [OF upd_stays [OF ok c]]) (simp_all add: stays_good wf)
    ultimately show ?thesis using ua h Some g by (simp add: resume_call_def call_hold_def)
  qed
qed

lemma resume_after:
  "good held s0 s \<Longrightarrow> dom (bs_uas s) = dom (bs_uas s0) \<Longrightarrow> u \<in> dom (bs_uas s0) \<Longrightarrow> runs (resume_call u s) (good held s0)"
  by (rule runs_mono [OF resume_good]) (auto intro: good_wf good_ok good_trans simp del: domIff)

lemma send_invite_stays:
  assumes s: "stays held s0 s" and c: "c \<in> dom (bs_calls s0)"
  shows "runs (send_invite eh env c s) (\<lambda>(e, s'). stays held s0 s')"
  unfolding send_invite_def
  by (rule listen_bind [OF s]) (auto intro!: upd_bind [OF _ c] split: sum.split)

lemma call_connect_stays:
  assumes s: "stays held s0 s" and c: "c \<in> dom (bs_calls s0)"
  shows "runs (call_connect eh env c s) (\<lambda>(e, s'). stays held s0 s')"
  unfolding call_connect_def
  by (rule upd_bind [OF s c])
    (auto intro!: upd_bind [OF _ c] call_bind [OF _ c] send_invite_stays [OF _ c] split: sum.split)

lemma ua_hangup_good:
  assumes wf: "bs_wf s" and ok: "held_ok held s" and u: "\<And>u. up = Some u \<Longrightarrow> u \<in> dom (bs_uas s)"
    and c: "\<And>c. cp = Some c \<Longrightarrow> c \<in> dom (bs_calls s)"
  shows "runs (ua_hangup eh up cp s) (good held s)"
proof (cases up)
  case None
  then show ?thesis using good_self [OF wf ok] by (simp add: ua_hangup_def)
next
  case (Some u)
  obtain ua where ua: "bs_uas s u = Some ua" using assms(3) [OF Some] by blast
  have "\<exists>cp'. (case cp of Some c \<Rightarrow> Some (Some c) | None \<Rightarrow> ua_call u s) = Some cp' \<and>
      (\<forall>c. cp' = Some c \<longrightarrow> c \<in> dom (bs_calls s))"
  proof (cases cp)
    case None
    have "last (ua_calls ua) \<in> dom (bs_calls s)" if "ua_calls ua \<noteq> []"
      using bs_wf_ua [OF wf ua last_in_set [OF that]] by blast
    then show ?thesis using ua None by (simp add: ua_call_def)
  next
    case (Some c)
    then show ?thesis using assms(4) by simp
  qed
  then obtain cp' where cp': "(case cp of Some c \<Rightarrow> Some (Some c) | None \<Rightarrow> ua_call u s) = Some cp'"
    and live: "\<And>c. cp' = Some c \<Longrightarrow> c \<in> dom (bs_calls s)" by blast
  show ?thesis
  proof (cases cp')
    case None
    then show ?thesis
      using good_self [OF wf ok] Some cp' by (simp add: ua_hangup_def)
  next
    case c: (Some c)
    have d: "c \<in> dom (bs_calls s)" by (rule live [OF c])
    show ?thesis
      unfolding ua_hangup_def Some option.case cp' c Option.bind.bind_lunit call_hangup_def
      by (rule upd_bind [OF stays_self [OF ok] d], simp add: call_stream_stop_def, rule closed_deref [OF wf _ d])
        (auto simp: ua intro: good_wf good_ok elim!: runs_mono intro!: resume_good [THEN runs_mono] intro: good_trans)
  qed
qed

lemma ua_unregister_stays:
  assumes ok: "held_ok held s" and u: "\<And>u. up = Some u \<Longrightarrow> u \<in> dom (bs_uas s)"
  shows "runs (ua_unregister eh up s) (stays held s)"
proof (cases up)
  case None
  then show ?thesis using stays_self [OF ok] by (simp add: ua_unregister_def)
next
  case (Some u)
  obtain ua where ua: "bs_uas s u = Some ua" using u [OF Some] by blast
  have upd: "runs (do { ua \<leftarrow> bs_uas s' u; Some (s'\<lparr>bs_uas := (bs_uas s')(u \<mapsto> ua\<lparr>ua_regl := f ua\<rparr>)\<rparr>) }) (stays held s)"
    if st: "stays held s s'" for s' and f :: "ua \<Rightarrow> bool list"
  proof -
    obtain ua' where ua': "bs_uas s' u = Some ua'" using stays_uas [OF st] ua by blast
    let ?s = "s'\<lparr>bs_uas := (bs_uas s')(u \<mapsto> ua'\<lparr>ua_regl := f ua'\<rparr>)\<rparr>"
    have "shape ?s = shape s'" using ua' by (auto simp: shape_def fun_eq_iff)
    then have "stays held s ?s" by (intro more_stays [OF st]) simp_all
    then show ?thesis using ua' by simp
  qed
  show ?thesis
  proof (cases "ua_regl ua = []")
    case True
    then show ?thesis
      using upd [OF stays_self [OF ok], of "\<lambda>ua. map (\<lambda>_. False) (ua_regl ua)"] by (simp add: ua_unregister_def Some ua)
  next
    case False
    then show ?thesis by (simp add: ua_unregister_def Some ua) (rule listen_bind [OF stays_self [OF ok] upd])
  qed
qed

lemma ua_register_stays:
  assumes ok: "held_ok held s" and u: "u \<in> dom (bs_uas s)"
  shows "runs (ua_register eh env u s) (\<lambda>(e, s'). stays held s s')"
proof -
  obtain ua where ua: "bs_uas s u = Some ua" using u by blast
  have "runs (do { ua \<leftarrow> bs_uas s' u;
       let (e, regl) = reg_register_all (e_reg env) 0 (ua_regl ua);
       let s = s'\<lparr>bs_uas := (bs_uas s')(u \<mapsto> ua\<lparr>ua_regl := regl\<rparr>)\<rparr>;
       if e = 0 then Some (0, s)
       else do { s \<leftarrow> eh UA_EVENT_REGISTER_FAIL None s; Some (e, s) } }) (\<lambda>(e, s'). stays held s s')"
    if s': "stays held s s'" for s'
  proof -
    obtain ua' where ua': "bs_uas s' u = Some ua'" using stays_uas [OF s'] ua by blast
    obtain e regl where r: "reg_register_all (e_reg env) 0 (ua_regl ua') = (e, regl)" by (rule prod.exhaust)
    let ?s = "s'\<lparr>bs_uas := (bs_uas s')(u \<mapsto> ua'\<lparr>ua_regl := regl\<rparr>)\<rparr>"
    have "shape ?s = shape s'" using ua' by (auto simp: shape_def fun_eq_iff)
    then have st: "stays held s ?s" by (intro more_stays [OF s']) simp_all
    have "runs (do { s \<leftarrow> eh UA_EVENT_REGISTER_FAIL None ?s; Some (e, s) }) (\<lambda>(e, s'). stays held s s')"
      by (rule listen_bind [OF st]) simp
    then show ?thesis using ua' r st by (simp add: Let_def)
  qed
  then show ?thesis
    using stays_self [OF ok] unfolding ua_register_def by (auto simp: ua intro: listen_bind)
qed

lemma ua_connect_good:
  assumes wf: "bs_wf s" and ok: "held_ok held s" and u: "u \<in> dom (bs_uas s)"
  shows "runs (ua_connect eh env u req s) (\<lambda>(e, cp, s'). good held s s' \<and> dom (bs_uas s') = dom (bs_uas s) \<and>
    (e = 0 \<longleftrightarrow> cp \<noteq> None) \<and> (\<forall>c. cp = Some c \<longrightarrow> c \<in> dom (bs_calls s') \<and> c \<notin> dom (bs_calls s)) \<and>
    dom (bs_calls s) \<subseteq> dom (bs_calls s') \<and>
    (cp = None \<longrightarrow> map_option ua_calls (bs_uas s' u) = map_option ua_calls (bs_uas s u)))"
proof -
  have self: "good held s s" by (rule good_self [OF wf ok])
  have main: "runs (do {
        (e, cp, s) \<leftarrow> call_alloc env u s;
        case cp of None \<Rightarrow> Some (e, None, s)
        | Some c \<Rightarrow> do {
            (e, s) \<leftarrow> call_connect eh env c s;
            if e \<noteq> 0 then do { s \<leftarrow> call_deref c s; Some (e, None, s) } else Some (0, Some c, s)
          } }) (\<lambda>(e, cp, s'). good held s s' \<and> dom (bs_uas s') = dom (bs_uas s) \<and>
    (e = 0 \<longleftrightarrow> cp \<noteq> None) \<and> (\<forall>c. cp = Some c \<longrightarrow> c \<in> dom (bs_calls s') \<and> c \<notin> dom (bs_calls s)) \<and>
    dom (bs_calls s) \<subseteq> dom (bs_calls s') \<and>
    (cp = None \<longrightarrow> map_option ua_calls (bs_uas s' u) = map_option ua_calls (bs_uas s u)))" (is "runs _ ?post")
  proof (rule runs_bind [OF call_alloc_runs [OF wf u]], clarify)
    fix e :: err and cp s1
    assume a: "bs_wf s1" "agents s1 = agents s" "baresip.more s1 = baresip.more s" "dom (bs_uas s1) = dom (bs_uas s)"
      "(e = 0) = (cp \<noteq> None)"
      "case cp of None \<Rightarrow> s1 = s | Some c \<Rightarrow> c \<notin> dom (bs_calls s) \<and> dom (bs_calls s1) = insert c (dom (bs_calls s)) \<and>
         map_option ua_calls (bs_uas s1 u) = map_option (\<lambda>ua. ua_calls ua @ [c]) (bs_uas s u)"
    show "runs (case cp of None \<Rightarrow> Some (e, None, s1)
        | Some c \<Rightarrow> do {
            (e, s) \<leftarrow> call_connect eh env c s1;
            if e \<noteq> 0 then do { s \<leftarrow> call_deref c s; Some (e, None, s) } else Some (0, Some c, s)
          }) ?post"
    proof (cases cp)
      case None
      then show ?thesis using a self by simp
    next
      case (Some c)
      have ok1: "held_ok held s1" using a Some by (intro more_ok [OF ok]) auto
      have c: "c \<in> dom (bs_calls s1)" using a Some by simp
      have g1: "good held s s1" using a ok1 more [OF a(3)] by (simp add: good_def)
      show ?thesis
        unfolding Some option.case
      proof (rule runs_bind [OF call_connect_stays [OF stays_self [OF ok1] c]], clarify)
        fix e' s2 assume s2: "stays held s1 s2"
        have g2: "good held s s2" using good_trans [OF g1 stays_good [OF s2 a(1)]] .
        have d: "dom (bs_calls s2) = insert c (dom (bs_calls s))" "dom (bs_uas s2) = dom (bs_uas s)"
          using stays_calls [OF s2] stays_uas [OF s2] a Some by auto
        show "runs (if e' \<noteq> 0 then do { s \<leftarrow> call_deref c s2; Some (e', None, s) } else Some (0, Some c, s2)) ?post"
        proof (cases "e' = 0")
          case True
          then show ?thesis using g2 d a Some by auto
        next
          case False
          have "runs (do { s \<leftarrow> call_deref c s2; Some (e', None, s) }) ?post"
          proof (rule runs_bind [OF call_deref_runs [OF good_wf [OF g2]]])
            show "c \<in> dom (bs_calls s2)" using d by simp
          next
            fix s3 assume s3: "bs_wf s3 \<and> agents s3 = agents s2 \<and> baresip.more s3 = baresip.more s2 \<and>
              dom (bs_calls s3) = dom (bs_calls s2) - {c} \<and> dom (bs_uas s3) = dom (bs_uas s2) \<and>
              (\<forall>u. map_option ua_calls (bs_uas s3 u) = map_option (filter (\<lambda>x. x \<noteq> c) \<circ> ua_calls) (bs_uas s2 u))"
            have "c \<notin> dom (bs_calls s)" using a Some by simp
            then have dd: "dom (bs_calls s3) = dom (bs_calls s)" using s3 d by auto
            obtain ua where ua: "bs_uas s u = Some ua" using u by blast
            have "c \<notin> set (ua_calls ua)" using bs_wf_ua [OF wf ua, of c] a Some by auto
            then have f: "filter (\<lambda>x. x \<noteq> c) (ua_calls ua @ [c]) = ua_calls ua" by (auto intro: filter_True)
            have "map_option ua_calls (bs_uas s2 u) = Some (ua_calls ua @ [c])"
              using shape_ua [of s2 s1 u] s2 a Some ua by (simp add: stays_def)
            then have l: "map_option ua_calls (bs_uas s3 u) = map_option ua_calls (bs_uas s u)"
              using s3 f ua by auto
            have h: "held s3 = held s2" using s3 more by blast
            then have "held_ok held s3" using g2 ok dd by (auto simp: held_ok_def good_def)
            then show "runs (Some (e', None, s3)) ?post"
              using s3 g2 d(2) dd h l False by (simp add: good_def)
          qed
          then show ?thesis using False by simp
        qed
      qed
    qed
  qed
  then show ?thesis using self by (simp add: ua_connect_def)
qed

lemma flush_then_remove:
  assumes wf: "bs_wf (s\<lparr>bs_ual := us\<rparr>)" and u: "u \<in> dom (bs_uas s)" and ok: "held_ok held s"
    and free: "held s = {} \<or> map_option ua_calls (bs_uas s u) = Some []"
  shows "runs (do { ua \<leftarrow> bs_uas s u; list_flush_calls (ua_calls ua) s }) (\<lambda>s'. bs_ual s' = bs_ual s \<and>
    bs_cur s' = bs_cur s \<and> bs_wf (s'\<lparr>bs_ual := us\<rparr>) \<and> held s' = held s \<and> held_ok held s' \<and>
    dom (bs_uas s') = dom (bs_uas s) \<and> map_option ua_calls (bs_uas s' u) = Some [])"
proof -
  obtain ua where ua: "bs_uas s u = Some ua" using u by blast
  let ?s = "s\<lparr>bs_ual := us\<rparr>"
  have "set (ua_calls ua) \<subseteq> dom (bs_calls ?s)" "distinct (ua_calls ua)"
    using bs_wf_ua [OF wf, of u ua] bs_wf_ua_distinct [OF wf, of u ua] ua by fastforce+
  from list_flush_runs [OF wf this] obtain s' where
    s': "list_flush_calls (ua_calls ua) ?s = Some s'" "bs_wf s'" "agents s' = agents ?s" "baresip.more s' = baresip.more ?s"
      "dom (bs_calls s') = dom (bs_calls ?s) - set (ua_calls ua)" "dom (bs_uas s') = dom (bs_uas ?s)"
      "map_option ua_calls (bs_uas s' u) = map_option (filter (\<lambda>x. x \<notin> set (ua_calls ua)) \<circ> ua_calls) (bs_uas ?s u)"
    by (auto simp: runs_def)
  have eq: "list_flush_calls (ua_calls ua) s = Some (s'\<lparr>bs_ual := bs_ual s\<rparr>)"
    using list_flush_ual [of "ua_calls ua" "bs_ual s" ?s] s'(1) by simp
  have us: "bs_ual s' = us" "bs_cur s' = bs_cur s" using s'(3) by (simp_all add: agents_def)
  have h: "held (s'\<lparr>bs_ual := bs_ual s\<rparr>) = held s"
    by (rule more) (use s'(4) in simp)
  then have ok': "held_ok held (s'\<lparr>bs_ual := bs_ual s\<rparr>)"
    using ok free s'(5) ua by (auto simp: held_ok_def)
  have "s'\<lparr>bs_ual := us\<rparr> = s'" using us by simp
  with s'(2) have w: "bs_wf (s'\<lparr>bs_ual := us\<rparr>)" by argo
  have f: "filter (\<lambda>x. x \<notin> set (ua_calls ua)) (ua_calls ua) = []" by (simp add: filter_empty_conv)
  have m: "map_option ua_calls (bs_uas s' u) = Some []" using s'(7) ua f by simp
  have d: "dom (bs_uas s') = dom (bs_uas s)" using s'(6) by simp
  show ?thesis
    unfolding ua Option.bind.bind_lunit eq runs_Some
  proof (intro conjI)
    show "bs_wf (s'\<lparr>bs_ual := bs_ual s, bs_ual := us\<rparr>)" using w by simp
    show "held (s'\<lparr>bs_ual := bs_ual s\<rparr>) = held s" by (rule h)
    show "held_ok held (s'\<lparr>bs_ual := bs_ual s\<rparr>)" by (rule ok')
  qed (simp_all add: us(2) m d)
qed

lemma ua_destructor_runs:
  assumes wf: "bs_wf (s\<lparr>bs_ual := us\<rparr>)" and us: "filter (\<lambda>x. x \<noteq> u) us = filter (\<lambda>x. x \<noteq> u) (bs_ual s)"
    and u: "u \<in> dom (bs_uas s)" and ok: "held_ok held s"
    and free: "held s = {} \<or> map_option ua_calls (bs_uas s u) = Some []"
  shows "runs (ua_destructor eh u s) (\<lambda>s'. bs_wf s' \<and> bs_ual s' = filter (\<lambda>x. x \<noteq> u) (bs_ual s) \<and>
    bs_cur s' = bs_cur s \<and> held s' \<subseteq> held s \<and> held_ok held s')"
proof -
  obtain ua where ua: "bs_uas s u = Some ua" using u by blast
  let ?us = "filter (\<lambda>x. x \<noteq> u) (bs_ual s)" and ?t = "s\<lparr>bs_ual := filter (\<lambda>x. x \<noteq> u) (bs_ual s)\<rparr>"
  have okt: "held_ok held ?t" by (rule more_ok [OF ok]) simp_all
  have ht: "held ?t = held s" by (rule more) simp
  have rest: "runs (do {
     ua \<leftarrow> bs_uas s1 u;
     s \<leftarrow> list_flush_calls (ua_calls ua) s1;
     Some (s\<lparr>bs_uas := (bs_uas s)(u := None), bs_sip_closed := (bs_sip_closed s \<or> bs_delayed_close s \<and> bs_ual s = [])\<rparr>)
   }) (\<lambda>s'. bs_wf s' \<and> bs_ual s' = ?us \<and> bs_cur s' = bs_cur s \<and> held s' \<subseteq> held s \<and> held_ok held s')"
    (is "runs _ ?post") if s1: "stays held ?t s1" for s1
  proof -
    have "shape (s1\<lparr>bs_ual := us\<rparr>) = shape (s\<lparr>bs_ual := us\<rparr>)" using s1 by (simp add: stays_def shape_def)
    then have wf1: "bs_wf (s1\<lparr>bs_ual := us\<rparr>)" by (rule bs_wf_shape [OF _ wf])
    have u1: "u \<in> dom (bs_uas s1)" using stays_uas [OF s1] ua by auto
    have f1: "held s1 = {} \<or> map_option ua_calls (bs_uas s1 u) = Some []"
      using free s1 ht shape_ua [of s1 ?t u] by (auto simp: stays_def)
    have e1: "bs_ual s1 = ?us" "bs_cur s1 = bs_cur s" using s1 by (simp_all add: stays_def shape_def)
    show ?thesis
      unfolding bind_assoc [symmetric]
    proof (rule runs_bind [OF flush_then_remove [OF wf1 u1 stays_ok [OF s1] f1]], elim conjE)
      fix s2
      assume s2: "bs_ual s2 = bs_ual s1" "bs_cur s2 = bs_cur s1" "bs_wf (s2\<lparr>bs_ual := us\<rparr>)" "held s2 = held s1"
        "held_ok held s2" "dom (bs_uas s2) = dom (bs_uas s1)" "map_option ua_calls (bs_uas s2 u) = Some []"
      obtain ua2 where ua2: "bs_uas s2 u = Some ua2" "ua_calls ua2 = []" using s2(7) by auto
      let ?b = "bs_sip_closed s2 \<or> bs_delayed_close s2 \<and> bs_ual s2 = []"
      let ?f = "s2\<lparr>bs_uas := (bs_uas s2)(u := None), bs_sip_closed := ?b\<rparr>"
      have "?f = s2\<lparr>bs_ual := filter (\<lambda>x. x \<noteq> u) us, bs_uas := (bs_uas s2)(u := None), bs_sip_closed := ?b\<rparr>"
        using us e1 s2(1) by simp
      then have "bs_wf ?f" using remove_ua_wf [OF s2(3), of u ua2 ?b] ua2 by simp
      moreover have "held ?f = held s2" by (rule more) simp
      moreover have "held_ok held ?f" by (rule more_ok [OF s2(5)]) simp_all
      ultimately show "runs (Some ?f) ?post" using s2 e1 s1 ht by (auto simp: stays_def)
    qed
  qed
  show ?thesis
  proof (cases "ua_regl ua = []")
    case True
    then show ?thesis using rest [OF stays_self [OF okt]] by (simp add: ua_destructor_def ua Let_def)
  next
    case False
    then show ?thesis
      by (simp add: ua_destructor_def ua Let_def) (rule listen_bind [OF stays_self [OF okt] rest])
  qed
qed

lemma ua_alloc_runs:
  assumes wf: "bs_wf s" and ok: "held_ok held s" and env: "env_errs env"
  shows "runs (ua_alloc eh env s) (\<lambda>(e, up, s'). bs_wf s' \<and> held s' \<subseteq> held s \<and> held_ok held s' \<and> (e = 0 \<longleftrightarrow> up \<noteq> None) \<and>
    (case up of None \<Rightarrow> agents s' = agents s
     | Some u \<Rightarrow> u \<notin> set (bs_ual s) \<and> bs_ual s' = bs_ual s @ [u] \<and> map_option ua_calls (bs_uas s' u) = Some [] \<and>
         bs_cur s' = (if bs_cur s = None then Some u else bs_cur s)))" (is "runs _ ?post")
proof -
  have fail: "runs (Some (e, None, s)) ?post" if "e \<noteq> 0" for e using that wf ok by simp
  let ?f = "s\<lparr>bs_sip_closed := (bs_sip_closed s \<or> bs_delayed_close s \<and> bs_ual s = [])\<rparr>"
  have "held_ok held ?f" by (rule more_ok [OF ok]) simp_all
  moreover have "held ?f = held s" by (rule more) simp
  moreover have "bs_wf ?f" using wf by (simp add: bs_wf_def)
  ultimately have close: "runs (Some (e, None, ?f)) ?post" if "e \<noteq> 0" for e using that by (simp add: agents_def)
  show ?thesis
  proof (cases "\<exists>acc. e_mem env \<and> e_account env = Inr acc")
    case False
    then show ?thesis
      using fail close wf ok env by (cases "e_account env") (auto simp: ua_alloc_def env_errs_def)
  next
    case True
    then obtain acc where acc: "e_mem env" "e_account env = Inr acc" by blast
    obtain e regl where r: "(if e_cuser env \<noteq> 0 then (e_cuser env, []) else create_register_clients env acc) = (e, regl)"
      by (rule prod.exhaust)
    let ?u = "bs_next s"
    let ?s = "s\<lparr>bs_next := Suc ?u, bs_uas := (bs_uas s)(?u \<mapsto> \<lparr>ua_acc = acc, ua_regl = regl, ua_calls = []\<rparr>)\<rparr>"
    let ?w = "\<lambda>cur. ?s\<lparr>bs_ual := bs_ual s @ [?u], bs_cur := cur\<rparr>"
    have add: "bs_wf (?s\<lparr>bs_ual := bs_ual s @ [?u]\<rparr>)" "?u \<notin> dom (bs_uas s)" "?u \<notin> set (bs_ual s)"
      using add_ua_wf [OF wf] by (simp_all del: domIff)
    have h1: "held_ok held ?s" by (rule more_ok [OF ok]) simp_all
    have h2: "held ?s = held s" by (rule more) simp
    have w: "held_ok held (?w cur)" "held (?w cur) = held s" "bs_wf (?w cur)" for cur
    proof -
      show "held_ok held (?w cur)" by (rule more_ok [OF ok]) simp_all
      show "held (?w cur) = held s" by (rule more) simp
      show "bs_wf (?w cur)" using add(1) by (simp add: bs_wf_def)
    qed
    show ?thesis
    proof (cases "e = 0")
      case False
      have nin: "filter (\<lambda>x. x \<noteq> ?u) (bs_ual s) = bs_ual s" using add(3) by (auto intro!: filter_True)
      have "runs (ua_destructor eh ?u ?s) (\<lambda>s'. bs_wf s' \<and> bs_ual s' = filter (\<lambda>x. x \<noteq> ?u) (bs_ual ?s) \<and>
          bs_cur s' = bs_cur ?s \<and> held s' \<subseteq> held ?s \<and> held_ok held s')"
        by (rule ua_destructor_runs [OF add(1) _ _ h1]) simp_all
      then have "runs (do { s \<leftarrow> ua_destructor eh ?u ?s; Some (e, None, s) }) ?post"
        using False nin h2 by (intro runs_bind) (auto simp: agents_def)
      then show ?thesis using acc r False by (simp add: ua_alloc_def Let_def)
    next
      case True
      have "\<exists>cur. ua_alloc eh env s = Some (0, Some ?u, ?w cur) \<and> cur = (if bs_cur s = None then Some ?u else bs_cur s)"
        using acc r True by (simp add: ua_alloc_def Let_def uag_current_def)
      then show ?thesis using w add(3) by auto
    qed
  qed
qed

lemma handler_good:
  assumes wf: "bs_wf s0" and s: "stays held s0 s" and c: "c \<in> dom (bs_calls s0)"
    and tf: "ev = CALL_EVENT_TRANSFER_FAILED \<Longrightarrow> c \<notin> held s0"
  shows "runs (ua_call_event_handler eh env blocked c ev s) (good held s0)"
proof -
  obtain call where call: "bs_calls s c = Some call" using stays_call_Some [OF s c] by blast
  have u: "c_ua call \<in> dom (bs_uas s0)"
    using bs_wf_call [OF stays_wf [OF s wf] call] stays_uas [OF s] by blast
  then obtain ua where ua: "bs_uas s (c_ua call) = Some ua" using stays_uas [OF s] by blast
  note g = stays_good [OF _ wf]
  have ev: "runs (eh e (Some c) s) (good held s0)" for e
    by (rule runs_mono [OF listen_end [OF s]]) (rule g)
  have pr: "runs (call_progress env c s) (good held s0)"
    unfolding call_progress_def
    by (rule upd_bind [OF s c]) (auto intro: g runs_mono [OF upd_end [OF _ c]] simp: call_stream_start_def)
  have upm: "runs (update_media eh env c s) (\<lambda>(e, s'). stays held s0 s')"
    unfolding update_media_def by (rule listen_bind [OF s]) simp
  have an: "runs (map_option snd (call_answer eh env c s)) (good held s0)"
  proof (rule runs_map)
    have "runs (do { s \<leftarrow> eh UA_EVENT_CALL_LOCAL_SDP (Some c) s'; Some (k, s) }) (\<lambda>x. good held s0 (snd x))"
      if "stays held s0 s'" for s' and k :: err by (rule listen_bind [OF that]) (simp add: g)
    moreover have "runs (if c_got_offer call then update_media eh env c s else Some (0, s)) (\<lambda>(e, s'). stays held s0 s')"
      using upm s by simp
    ultimately show "runs (call_answer eh env c s) (\<lambda>x. good held s0 (snd x))"
      unfolding call_answer_def call
      by (auto simp: g s intro!: runs_bind [where Q = "\<lambda>(e, s'). stays held s0 s'"])
  qed
  have cl: "runs (do { s \<leftarrow> eh UA_EVENT_CALL_CLOSED (Some c) s; s \<leftarrow> call_deref c s; resume_call (c_ua call) s }) (good held s0)"
    by (rule closed_deref [OF wf s c])
      (rule resume_after [OF _ _ u])
  have cl2: "runs (do { s \<leftarrow> eh UA_EVENT_CALL_CLOSED (Some c) s; call_deref c s }) (good held s0)"
    using closed_deref [OF wf s c, of Some "good held s0" "Some c"] by simp
  have tfd: "runs (do { s \<leftarrow> eh UA_EVENT_CALL_TRANSFER_FAILED (Some c) s; call_deref c s }) (good held s0)"
    if "c \<notin> held s0"
  proof (rule listen_bind [OF s])
    fix s1 assume s1: "stays held s0 s1"
    have c1: "c \<in> dom (bs_calls s1)" using c stays_calls [OF s1] by simp
    show "runs (call_deref c s1) (good held s0)"
    proof (rule runs_mono [OF call_deref_runs [OF stays_wf [OF s1 wf] c1]], elim conjE)
      fix s2 assume s2: "bs_wf s2" "agents s2 = agents s1" "baresip.more s2 = baresip.more s1"
        "dom (bs_calls s2) = dom (bs_calls s1) - {c}"
      have "held s2 = held s1" by (rule more [OF s2(3)])
      then show "good held s0 s2"
        using s2 s1 that by (auto simp: good_def stays_def held_ok_def dest: shape_agents)
    qed
  qed
  show ?thesis
    using ev pr an cl cl2 tfd tf g [OF s]
    by (cases ev) (auto simp: ua_call_event_handler_def call ua split: answermode.split simp del: domIff)
qed

lemma event_good:
  "bs_wf s0 \<Longrightarrow> c \<in> dom (bs_calls s0) \<Longrightarrow> ev \<noteq> CALL_EVENT_TRANSFER_FAILED \<Longrightarrow> stays held s0 s
    \<Longrightarrow> runs (ua_call_event_handler eh env blocked c ev s) (good held s0)"
  by (rule handler_good) auto

lemma update_media_good:
  "bs_wf s0 \<Longrightarrow> stays held s0 s \<Longrightarrow> runs (map_option snd (update_media eh env c s)) (good held s0)"
  unfolding update_media_def by (rule runs_map) (auto intro!: listen_bind stays_good)

lemma progress_good:
  assumes wf: "bs_wf s" and ok: "held_ok held s" and c: "c \<in> dom (bs_calls s)"
  shows "runs (sipsess_progr_handler eh env media scode c s) (good held s)"
proof -
  note self = stays_self [OF ok]
  have media: "runs (do { s \<leftarrow> ua_call_event_handler eh env False c CALL_EVENT_PROGRESS s';
       map_option snd (update_media eh env c s) }) (good held s)" if s': "stays held s s'" for s'
  proof -
    obtain call where "bs_calls s' c = Some call" using stays_call_Some [OF s' c] by blast
    then have "runs (ua_call_event_handler eh env False c CALL_EVENT_PROGRESS s') (stays held s)"
      using s' by (auto simp: ua_call_event_handler_def intro: listen_end)
    then show ?thesis by (rule runs_bind) (rule update_media_good [OF wf])
  qed
  show ?thesis
    unfolding sipsess_progr_handler_def
    by (auto simp: good_self [OF wf ok] call_stream_start_def call_stream_stop_def
        intro!: upd_bind [OF _ c] self media event_good [OF wf c])
qed

lemma estab_good:
  assumes wf: "bs_wf s" and ok: "held_ok held s" and c: "c \<in> dom (bs_calls s)"
  shows "runs (sipsess_estab_handler eh env c s) (good held s)"
  unfolding sipsess_estab_handler_def
  by (rule call_bind [OF stays_self [OF ok] c])
    (auto simp: good_self [OF wf ok] call_stream_start_def intro!: upd_bind [OF _ c] stays_self [OF ok] event_good [OF wf c])

lemma close_good:
  assumes wf: "bs_wf s" and ok: "held_ok held s" and c: "c \<in> dom (bs_calls s)"
  shows "runs (sipsess_close_handler eh env e msg c s) (good held s)"
  unfolding sipsess_close_handler_def
  by (rule upd_bind [OF stays_self [OF ok] c])
    (auto simp: call_stream_stop_def split: option.split intro!: event_good [OF wf c])

lemma refer_good:
  assumes wf: "bs_wf s" and ok: "held_ok held s" and c: "c \<in> dom (bs_calls s)"
  shows "runs (sipsess_refer_handler eh env refer_to e c s) (good held s)"
  unfolding sipsess_refer_handler_def
  by (auto simp: good_self [OF wf ok] intro!: upd_bind [OF stays_self [OF ok] c] event_good [OF wf c] stays_good [OF _ wf])

lemma refer_end_good:
  assumes wf: "bs_wf s" and ok: "held_ok held s" and c: "c \<in> dom (bs_calls s)"
    and tf: "e \<noteq> 0 \<or> (case msg of None \<Rightarrow> False | Some scode \<Rightarrow> 300 \<le> scode) \<Longrightarrow> c \<notin> held s"
  shows "runs (sipnot_close_handler eh env e msg c s) (good held s)"
  unfolding sipnot_close_handler_def
proof (rule upd_bind [OF stays_self [OF ok] c], simp)
  fix s1 assume s1: "stays held s s1"
  show "runs (if e \<noteq> 0 \<or> (case msg of None \<Rightarrow> False | Some scode \<Rightarrow> 300 \<le> scode)
      then ua_call_event_handler eh env False c CALL_EVENT_TRANSFER_FAILED s1 else Some s1) (good held s)"
    using handler_good [OF wf s1 c tf] stays_good [OF s1 wf] by simp
qed

lemma offer_good:
  assumes wf: "bs_wf s" and ok: "held_ok held s" and c: "c \<in> dom (bs_calls s)"
  shows "runs (map_option snd (sipsess_offer_handler eh env got_offer c s)) (good held s)"
proof -
  have "runs (sipsess_offer_handler eh env got_offer c s) (\<lambda>x. stays held s (snd x))"
    unfolding sipsess_offer_handler_def update_media_def
    by (auto simp: stays_self [OF ok] intro!: upd_bind [OF stays_self [OF ok] c] listen_bind)
  then show ?thesis by (intro runs_map) (auto elim: runs_mono intro: stays_good [OF _ wf])
qed

lemma answer_good:
  assumes wf: "bs_wf s" and ok: "held_ok held s" and c: "c \<in> dom (bs_calls s)"
  shows "runs (map_option snd (sipsess_answer_handler eh env c s)) (good held s)"
proof -
  have "runs (sipsess_answer_handler eh env c s) (\<lambda>x. stays held s (snd x))"
    unfolding sipsess_answer_handler_def update_media_def
    by (rule upd_bind [OF stays_self [OF ok] c]) (auto intro!: listen_bind)
  then show ?thesis by (intro runs_map) (auto elim: runs_mono intro: stays_good [OF _ wf])
qed

lemma mnat_good:
  assumes wf: "bs_wf s" and ok: "held_ok held s" and c: "c \<in> dom (bs_calls s)"
  shows "runs (mnat_handler eh env blocked e scode c s) (good held s)"
proof -
  have inv: "runs (map_option snd (send_invite eh env c s')) (good held s)" if "stays held s s'" for s'
    by (rule runs_map, rule runs_mono [OF send_invite_stays [OF that c]]) (auto intro: stays_good [OF _ wf])
  show ?thesis
    unfolding mnat_handler_def
    by (auto simp: good_self [OF wf ok] intro!: event_good [OF wf c] stays_self [OF ok] call_bind [OF stays_self [OF ok] c]
        upd_bind [OF stays_self [OF ok] c] inv stays_good [OF _ wf] split del: if_split split: if_split)
qed

lemma error_good:
  assumes wf: "bs_wf s" and ok: "held_ok held s" and c: "c \<in> dom (bs_calls s)"
  shows "runs (stream_error_handler eh env c s) (good held s)"
    and "runs (audio_error_handler eh env c s) (good held s)"
    and "runs (invite_timeout eh env c s) (good held s)"
proof -
  show "runs (stream_error_handler eh env c s) (good held s)"
    unfolding stream_error_handler_def
    by (rule upd_bind [OF stays_self [OF ok] c]) (auto simp: call_stream_stop_def intro!: event_good [OF wf c])
  show "runs (audio_error_handler eh env c s) (good held s)"
    unfolding audio_error_handler_def
    by (rule listen_bind [OF stays_self [OF ok]])
      (auto simp: call_stream_stop_def intro!: upd_bind [OF _ c] event_good [OF wf c])
  show "runs (invite_timeout eh env c s) (good held s)"
    unfolding invite_timeout_def by (rule event_good [OF wf c _ stays_self [OF ok]]) simp
qed

lemma call_accept_runs:
  assumes wf: "bs_wf s" and ok: "held_ok held s" and c: "c \<in> dom (bs_calls s)"
  shows "runs (call_accept eh env blocked offer c s) (\<lambda>(e, s'). good held s s' \<and> (e \<noteq> 0 \<longrightarrow> stays held s s'))"
    (is "runs _ ?post")
proof -
  have st: "?post (e, s')" if "stays held s s'" for e s' using that stays_good [OF that wf] by simp
  have ev: "runs (map_option (\<lambda>s. (0, s)) (ua_call_event_handler eh env blocked c ev s')) ?post"
    if "stays held s s'" "ev \<noteq> CALL_EVENT_TRANSFER_FAILED" for s' ev
    by (rule runs_map, rule runs_mono [OF event_good [OF wf c that(2,1)]]) simp
  show ?thesis
    unfolding call_accept_def
    by (auto intro!: upd_bind [OF _ c] call_bind [OF _ c] stays_self [OF ok] ev stays_good [OF _ wf] split: sum.split)
qed

lemma incoming_good:
  assumes wf: "bs_wf s" and ok: "held_ok held s" and u: "\<And>u. found = Some u \<Longrightarrow> u \<in> dom (bs_uas s)"
  shows "runs (map_option snd (sipsess_conn_handler eh env max_calls found refuse blocked offer s)) (good held s)"
proof (cases "found = None \<or> max_calls \<noteq> 0 \<and> uag_call_count s + 1 > max_calls \<or> refuse \<noteq> None")
  case True
  then show ?thesis
    using good_self [OF wf ok] by (auto simp: sipsess_conn_handler_def split: option.split)
next
  case False
  then obtain u where f: "found = Some u" by (cases found) auto
  have post: "runs (do {
      (e, cp, s) \<leftarrow> call_alloc env u s;
      case cp of None \<Rightarrow> Some (500 :: nat, s)
      | Some c \<Rightarrow> do {
          (e, s) \<leftarrow> call_accept eh env blocked offer c s;
          if e \<noteq> 0 then do { s \<leftarrow> call_deref c s; Some (500, s) } else Some (0, s)
        } }) (\<lambda>x. good held s (snd x))" (is "runs _ ?post")
  proof (rule runs_bind [OF call_alloc_runs [OF wf u [OF f]]], clarify)
    fix e :: err and cp s1
    assume a: "bs_wf s1" "agents s1 = agents s" "baresip.more s1 = baresip.more s"
      "case cp of None \<Rightarrow> s1 = s | Some c \<Rightarrow> c \<notin> dom (bs_calls s) \<and> dom (bs_calls s1) = insert c (dom (bs_calls s)) \<and>
         map_option ua_calls (bs_uas s1 u) = map_option (\<lambda>ua. ua_calls ua @ [c]) (bs_uas s u)"
    show "runs (case cp of None \<Rightarrow> Some (500, s1)
      | Some c \<Rightarrow> do {
          (e, s) \<leftarrow> call_accept eh env blocked offer c s1;
          if e \<noteq> 0 then do { s \<leftarrow> call_deref c s; Some (500, s) } else Some (0, s)
        }) ?post"
    proof (cases cp)
      case None
      then show ?thesis using a good_self [OF wf ok] by simp
    next
      case (Some c)
      have ok1: "held_ok held s1" using a Some by (intro more_ok [OF ok]) auto
      have c: "c \<in> dom (bs_calls s1)" using a Some by simp
      have g1: "good held s s1" using a ok1 more [OF a(3)] by (simp add: good_def)
      have ch: "c \<notin> held s" using a Some ok by (auto simp: held_ok_def)
      show ?thesis
        unfolding Some option.case
      proof (rule runs_bind [OF call_accept_runs [OF a(1) ok1 c]], clarify)
        fix e' s2 assume s2: "good held s1 s2" "e' \<noteq> 0 \<longrightarrow> stays held s1 s2"
        have g2: "good held s s2" by (rule good_trans [OF g1 s2(1)])
        show "runs (if e' \<noteq> 0 then do { s \<leftarrow> call_deref c s2; Some (500, s) } else Some (0, s2)) ?post"
        proof (cases "e' = 0")
          case True
          then show ?thesis using g2 by simp
        next
          case False
          then have c2: "c \<in> dom (bs_calls s2)" using stays_calls s2(2) c by blast
          have "runs (do { s \<leftarrow> call_deref c s2; Some (500, s) }) ?post"
          proof (rule runs_bind [OF call_deref_runs [OF good_wf [OF g2] c2]], elim conjE)
            fix s3 assume s3: "bs_wf s3" "agents s3 = agents s2" "baresip.more s3 = baresip.more s2"
              "dom (bs_calls s3) = dom (bs_calls s2) - {c}"
            have "held s3 = held s2" by (rule more [OF s3(3)])
            then show "runs (Some (500, s3)) ?post"
              using s3 g2 ch by (auto simp: good_def held_ok_def)
          qed
          then show ?thesis using False by simp
        qed
      qed
    qed
  qed
  then have "runs (sipsess_conn_handler eh env max_calls found refuse blocked offer s) (\<lambda>x. good held s (snd x))"
    using False f good_self [OF wf ok] by (simp add: sipsess_conn_handler_def)
  then show ?thesis by (rule runs_map)
qed

lemma deliver_good:
  assumes wf: "bs_wf s" and ok: "held_ok held s" and ev: "net_ok ev s" and tf: "\<And>c. transfer_fails ev c \<Longrightarrow> c \<notin> held s"
  shows "runs (deliver eh env ev s) (good held s)"
proof -
  have c: "c \<in> dom (bs_calls s)" if "net_call ev = Some c" for c using ev that by (auto simp: net_ok_def)
  have l: "runs (eh e cp s) (good held s)" for e cp
    by (rule runs_mono [OF listen [OF ok]]) (rule stays_good [OF _ wf])
  show ?thesis
  proof (cases ev)
    case (N_Refer_End e msg d)
    then show ?thesis using refer_end_good [OF wf ok c, of d e msg env] tf by (simp add: transfer_fails_def)
  next
    case (N_Incoming m f r b k)
    have u: "u \<in> dom (bs_uas s)" if "f = Some u" for u using ev that N_Incoming by (auto simp: net_ok_def)
    show ?thesis unfolding N_Incoming deliver.simps by (rule incoming_good [OF wf ok u])
  qed (use c l in \<open>simp_all del: domIff add: progress_good [OF wf ok] estab_good [OF wf ok] close_good [OF wf ok]
      refer_good [OF wf ok] offer_good [OF wf ok] answer_good [OF wf ok] error_good [OF wf ok] mnat_good [OF wf ok]\<close>)
qed

text \<open>Stopping: nobody holds a call any more.\<close>

lemma ua_destroy_runs:
  assumes wf: "bs_wf s" and u: "u \<in> dom (bs_uas s)" and free: "held s = {}"
  shows "runs (ua_destroy eh u s) (\<lambda>s'. bs_wf s' \<and> bs_ual s' = filter (\<lambda>x. x \<noteq> u) (bs_ual s) \<and> held s' = {})"
proof -
  obtain ua where ua: "bs_uas s u = Some ua" using u by blast
  let ?us = "filter (\<lambda>x. x \<noteq> u) (bs_ual s)" and ?t = "s\<lparr>bs_ual := filter (\<lambda>x. x \<noteq> u) (bs_ual s)\<rparr>"
  have ht: "held ?t = {}" using more [of ?t s] free by simp
  then have okt: "held_ok held ?t" by (simp add: held_ok_def)
  show ?thesis
    unfolding ua_destroy_def ua Option.bind.bind_lunit
  proof (rule listen_bind [OF stays_self [OF okt]], subst bind_assoc [symmetric])
    fix s1 assume s1: "stays held ?t s1"
    have "shape (s1\<lparr>bs_ual := bs_ual s\<rparr>) = shape s" using s1 by (simp add: stays_def shape_def)
    then have wf1: "bs_wf (s1\<lparr>bs_ual := bs_ual s\<rparr>)" by (rule bs_wf_shape [OF _ wf])
    have u1: "u \<in> dom (bs_uas s1)" using stays_uas [OF s1] ua by auto
    have h1: "held s1 = {}" using s1 ht by (simp add: stays_def)
    have e1: "bs_ual s1 = ?us" using s1 by (simp add: stays_def shape_def)
    show "runs (bs_uas s1 u \<bind> (\<lambda>ua. list_flush_calls (ua_calls ua) s1) \<bind> ua_destructor eh u)
        (\<lambda>s'. bs_wf s' \<and> bs_ual s' = ?us \<and> held s' = {})"
    proof (rule runs_bind [OF flush_then_remove [OF wf1 u1 stays_ok [OF s1]]], simp add: h1, elim conjE)
      fix s2
      assume s2: "bs_ual s2 = bs_ual s1" "bs_cur s2 = bs_cur s1" "bs_wf (s2\<lparr>bs_ual := bs_ual s\<rparr>)" "held s2 = held s1"
        "held_ok held s2" "dom (bs_uas s2) = dom (bs_uas s1)" "map_option ua_calls (bs_uas s2 u) = Some []"
      have f: "filter (\<lambda>x. x \<noteq> u) (bs_ual s) = filter (\<lambda>x. x \<noteq> u) (bs_ual s2)" using s2(1) e1 by simp
      have u2: "u \<in> dom (bs_uas s2)" using u1 s2(6) by simp
      show "runs (ua_destructor eh u s2) (\<lambda>s'. bs_wf s' \<and> bs_ual s' = ?us \<and> held s' = {})"
        by (rule runs_mono [OF ua_destructor_runs [OF s2(3) f u2 s2(5)]]) (use s2(4,7) h1 f in auto)
    qed
  qed
qed

lemma ua_destroy_all_runs:
  assumes "bs_wf s" "bs_ual s = us" "held s = {}"
  shows "runs (ua_destroy_all eh us s) (\<lambda>s'. bs_wf s' \<and> bs_ual s' = [])"
  using assms
proof (induction us arbitrary: s)
  case (Cons u us)
  have u: "u \<in> dom (bs_uas s)" using Cons.prems bs_wf_ual [OF Cons.prems(1)] by auto
  have d: "filter (\<lambda>x. x \<noteq> u) (u # us) = us"
    using bs_wf_distinct [OF Cons.prems(1)] Cons.prems(2) by (auto intro: filter_True)
  show ?case
    by (simp, rule runs_bind [OF ua_destroy_runs [OF Cons.prems(1) u Cons.prems(3)]])
      (use Cons d in auto)
qed simp

lemma ua_stop_all_runs:
  assumes wf: "bs_wf s" and free: "held s = {}"
  shows "runs (ua_stop_all eh s) (\<lambda>s'. bs_wf s' \<and> bs_uas s' = Map.empty \<and> bs_calls s' = Map.empty \<and> bs_sip_closed s')"
  unfolding ua_stop_all_def
proof (rule runs_bind [OF ua_destroy_all_runs [OF wf refl free]], elim conjE)
  fix s1 assume s1: "bs_wf s1" "bs_ual s1 = []"
  have u: "bs_uas s1 = Map.empty" using bs_wf_ual [OF s1(1)] s1(2) by (metis dom_eq_empty_conv empty_set)
  then have "bs_calls s1 c = None" for c
    using bs_wf_call [OF s1(1), of c] by (cases "bs_calls s1 c") auto
  then have "bs_calls s1 = Map.empty" by blast
  with u s1 show "runs (Some (s1\<lparr>bs_sip_closed := True\<rparr>)) (\<lambda>s'. bs_wf s' \<and> bs_uas s' = Map.empty \<and>
      bs_calls s' = Map.empty \<and> bs_sip_closed s')"
    by (simp add: bs_wf_def)
qed

end

lemmas ua_defs = ua_call_event_handler_def call_deref_def resume_call_def upd_call_def

end
