(* ===== verification/Reg.thy ===== *)
theory Reg
  imports Sipreg Ua
begin

section \<open>Register clients of a user agent (baresip/src/reg.c)\<close>

text \<open>
  A register client of a user agent owns at most one SIP registration client (\<open>Sipreg\<close>) and turns its reports into
  events of the user agent. A registration client that is replaced or given up lives on until its last response; the
  last part of the theory runs them together.
\<close>

record reg =
  rg_id :: int
  rg_regint :: u32
  rg_scode :: u16
  rg_srv :: "string option"
  rg_af :: nat
  rg_sipreg :: "sipreg option"

text \<open>What \<open>register_handler\<close> reads of a message besides its status: the server's name and the address family of the
  connection (\<open>sipmsg_af\<close>).\<close>

type_synonym msg_info = "string option \<times> nat"

text \<open>\<open>None\<close>: a success without a message, whose status would be read through NULL.\<close>

definition register_handler :: "msg_info \<Rightarrow> err \<Rightarrow> response option \<Rightarrow> reg \<Rightarrow> (ua_event list \<times> reg) option" where
  "register_handler info e msg reg = (let
     evok = (if rg_regint reg \<noteq> 0 then UA_EVENT_REGISTER_OK else UA_EVENT_FALLBACK_OK);
     evfail = (if rg_regint reg \<noteq> 0 then UA_EVENT_REGISTER_FAIL else UA_EVENT_FALLBACK_FAIL)
   in if e \<noteq> 0 then Some ([evfail], reg\<lparr>rg_scode := 999\<rparr>)
      else case msg of None \<Rightarrow> None
      | Some m \<Rightarrow> (let reg = (case fst info of Some s \<Rightarrow> reg\<lparr>rg_srv := Some s\<rparr> | None \<Rightarrow> reg) in
          Some (if 200 \<le> rp_scode m \<and> rp_scode m \<le> 299 then ([evok], reg\<lparr>rg_af := snd info, rg_scode := rp_scode m\<rparr>)
                else if rp_scode m \<ge> 300 then ([evfail], reg\<lparr>rg_scode := rp_scode m\<rparr>) else ([], reg))))"

definition reg_add :: "int \<Rightarrow> reg" where
  "reg_add regid = \<lparr>rg_id = regid, rg_regint = 0, rg_scode = 0, rg_srv = None, rg_af = 0, rg_sipreg = None\<rparr>"

text \<open>\<open>mem_deref(reg->sipreg)\<close>: the effects, and the client that lives on. Dropping and starting a client sends requests
  and calls no handler (\<open>start_silent\<close> below).\<close>

definition drop_sipreg :: "renv \<Rightarrow> sipreg option \<Rightarrow> rresult" where
  "drop_sipreg env sr = (case sr of None \<Rightarrow> ([], None) | Some r \<Rightarrow> destructor env r)"

text \<open>\<open>rwait\<close> and \<open>fbregint\<close> are those of the account. The result: the error, the client left behind, the register client.\<close>

definition reg_register :: "err \<Rightarrow> renv \<Rightarrow> u32 \<Rightarrow> u32 \<Rightarrow> u32 \<Rightarrow> reg \<Rightarrow> err \<times> sipreg option \<times> reg" where
  "reg_register e_alloc env rwait fbregint regint reg = (let
     reg = reg\<lparr>rg_scode := 0, rg_regint := regint\<rparr>;
     failed = sipreg_failed (rg_sipreg reg);
     old = snd (drop_sipreg env (rg_sipreg reg));
     (e, es, sr) = sipreg_register e_alloc env regint (rg_id reg);
     reg = reg\<lparr>rg_sipreg := sr\<rparr>
   in case sr of None \<Rightarrow> (e, old, reg)
      | Some r \<Rightarrow> (let
          (e, r) = (if rwait \<noteq> 0 then sipreg_set_rwait rwait r else (e, r));
          (e, r) = (if fbregint \<noteq> 0 then sipreg_set_fbregint fbregint r else (e, r));
          r = (if failed then sipreg_incfailc r else r)
        in (e, old, reg\<lparr>rg_sipreg := Some r\<rparr>)))"

definition reg_unregister :: "renv \<Rightarrow> reg \<Rightarrow> sipreg option \<times> reg" where
  "reg_unregister env reg = (snd (drop_sipreg env (rg_sipreg reg)), reg\<lparr>rg_scode := 0, rg_af := 0, rg_sipreg := None\<rparr>)"

definition reg_isok :: "reg \<Rightarrow> bool" where
  "reg_isok reg = (if rg_sipreg reg = None then False else sipreg_registered (rg_sipreg reg))"

definition reg_failed :: "reg \<Rightarrow> bool" where
  "reg_failed reg = (if rg_sipreg reg = None then False else sipreg_failed (rg_sipreg reg))"

text \<open>\<open>ua_isregistered\<close> and \<open>ua_regfailed\<close> of \<open>ua.c\<close> on the register clients of a user agent.\<close>

fun ua_isregistered :: "reg list \<Rightarrow> bool" where
  "ua_isregistered [] = False"
| "ua_isregistered (reg # regl) = (if reg_isok reg then True else ua_isregistered regl)"

fun ua_regfailed :: "bool \<Rightarrow> reg list \<Rightarrow> bool" where
  "ua_regfailed failed [] = failed"
| "ua_regfailed failed (reg # regl) = ua_regfailed (failed \<and> reg_failed reg) regl"

subsection \<open>A register client with the registration clients it made\<close>

text \<open>\<open>rs_left\<close>: the registration clients that were dropped and are not freed yet. Their handler argument is still the
  register client: a handler they call acts on it.\<close>

record regsys =
  rs_reg :: reg
  rs_left :: "sipreg list"
  rs_events :: "ua_event list"

datatype regev = G_Register err renv u32 u32 u32 | G_Unregister renv | G_Client msg_info revent | G_Left msg_info nat revent

text \<open>What reaches a client from below; the request layer reports an error or a message, the keep-alive an error.\<close>

definition from_below :: "revent \<Rightarrow> bool" where
  "from_below ev = (case ev of E_Response env e msg \<Rightarrow> e \<noteq> 0 \<or> msg \<noteq> None | E_Timer env \<Rightarrow> True
     | E_KeepaliveFail env e \<Rightarrow> e \<noteq> 0 | _ \<Rightarrow> False)"

text \<open>The reports among the effects go to \<open>register_handler\<close>.\<close>

fun report :: "msg_info \<Rightarrow> reff list \<Rightarrow> reg \<Rightarrow> (ua_event list \<times> reg) option" where
  "report info [] reg = Some ([], reg)"
| "report info (ef # es) reg = (case ef of
     R_Resp e msg \<Rightarrow> do { (us, reg) \<leftarrow> register_handler info e msg reg; (vs, reg) \<leftarrow> report info es reg; Some (us @ vs, reg) }
   | _ \<Rightarrow> report info es reg)"

definition opt_list :: "'a option \<Rightarrow> 'a list" where
  "opt_list x = (case x of None \<Rightarrow> [] | Some a \<Rightarrow> [a])"

fun regsys_step :: "regev \<Rightarrow> regsys \<Rightarrow> regsys option" where
  "regsys_step (G_Register e_alloc env rwait fbregint regint) s = (let
     (e, old, reg) = reg_register e_alloc env rwait fbregint regint (rs_reg s)
   in Some (s\<lparr>rs_reg := reg, rs_left := opt_list old @ rs_left s\<rparr>))"
| "regsys_step (G_Unregister env) s = (let (old, reg) = reg_unregister env (rs_reg s)
   in Some (s\<lparr>rs_reg := reg, rs_left := opt_list old @ rs_left s\<rparr>))"
| "regsys_step (G_Client info ev) s = (case rg_sipreg (rs_reg s) of None \<Rightarrow> Some s
   | Some r \<Rightarrow> if possible r ev \<and> from_below ev then do {
         let (es, r') = reg_step r ev;
         (us, reg) \<leftarrow> report info es ((rs_reg s)\<lparr>rg_sipreg := r'\<rparr>);
         Some (s\<lparr>rs_reg := reg, rs_events := rs_events s @ us\<rparr>)
       } else Some s)"
| "regsys_step (G_Left info i ev) s =
     (if i < length (rs_left s) \<and> possible (rs_left s ! i) ev \<and> from_below ev
      then do {
        let (es, r') = reg_step (rs_left s ! i) ev;
        (us, reg) \<leftarrow> report info es (rs_reg s);
        Some (s\<lparr>rs_reg := reg, rs_left := take i (rs_left s) @ opt_list r' @ drop (Suc i) (rs_left s), rs_events := rs_events s @ us\<rparr>)
      }
      else Some s)"

fun regsys_run :: "regev list \<Rightarrow> regsys \<Rightarrow> regsys option" where
  "regsys_run [] s = Some s"
| "regsys_run (ev # evs) s = do { s \<leftarrow> regsys_step ev s; regsys_run evs s }"

definition regsys_init :: "int \<Rightarrow> regsys" where
  "regsys_init regid = \<lparr>rs_reg = reg_add regid, rs_left = [], rs_events = []\<rparr>"


subsection \<open>What a registration client reports\<close>

fun reports :: "reff list \<Rightarrow> (err \<times> response option) list" where
  "reports [] = []"
| "reports (ef # es) = (case ef of R_Resp e m \<Rightarrow> [(e, m)] | _ \<Rightarrow> []) @ reports es"

lemma reports_append [simp]: "reports (xs @ ys) = reports xs @ reports ys"
  by (induction xs) auto

lemma start_silent:
  "reports (fst (destructor env r)) = []" "reports (fst (snd (sipreg_register a env x i))) = []"
  by (auto simp: destructor_def sipreg_register_def reg_defs split: prod.split)

lemma quiet_reports: "quiet res \<Longrightarrow> reports (fst res) = []"
proof -
  have "(\<forall>ef \<in> set es. case ef of R_Resp e m \<Rightarrow> False | R_Timer t \<Rightarrow> False | _ \<Rightarrow> True) \<Longrightarrow> reports es = []" for es
    by (induction es) (auto split: reff.splits)
  then show "quiet res \<Longrightarrow> reports (fst res) = []" by (simp add: quiet_def)
qed

text \<open>A client in use either reports a result that satisfies \<open>P\<close> and waits for its timer, or says nothing: then a request
  is under way, or it has neither an expiry nor a fallback interval and stops.\<close>

definition speaks :: "bool \<Rightarrow> (err \<Rightarrow> response option \<Rightarrow> bool) \<Rightarrow> rresult \<Rightarrow> bool" where
  "speaks x P res = (case snd res of None \<Rightarrow> False | Some r \<Rightarrow> \<not> sr_terminated r \<and>
     (reports (fst res) = [] \<and> (sr_req r \<or> \<not> x \<and> \<not> sr_tmr r \<and> sr_fbregint r = 0)
      \<or> (\<exists>e m. reports (fst res) = [(e, m)] \<and> P e m) \<and> \<not> sr_req r \<and> sr_tmr r))"

lemma speaks_app: "speaks x P (os, s) \<Longrightarrow> reports es = [] \<Longrightarrow> speaks x P (es @ os, s)"
  by (simp add: speaks_def split: option.splits)

lemma response_out_speaks:
  assumes "reg_idle x r" and "\<not> sr_terminated r" and "P e msg"
  shows "speaks x P (response_out env e msg r)"
  using assms by (auto simp: speaks_def response_out_def reg_idle_def reg_defs split: option.splits)

lemma request_again_speaks:
  assumes "reg_idle x r" and "\<not> sr_terminated r" and "\<And>e. P e (Some m)"
  shows "speaks x P (request_again env m r)"
proof (cases "re_send env = 0")
  case True
  then show ?thesis using assms by (auto simp: request_again_def reg_defs speaks_def)
next
  case False
  then show ?thesis
    using response_out_speaks[of x "bump_failc r" P "re_send env" "Some m" env] assms
    by (simp add: request_again_def reg_defs split: prod.split)
qed

lemma response_fail_speaks:
  assumes r: "reg_idle x r" and t: "\<not> sr_terminated r" and P: "\<And>e. P e (Some m)"
  shows "speaks x P (response_fail env m r)"
proof (rule response_fail_rule)
  fix w :: u32 assume "w \<noteq> 0" "sr_expires r \<noteq> 0"
  then have "reg_idle x (r\<lparr>sr_expires := w\<rparr>)" using r by (auto simp: reg_idle_def)
  then show "speaks x P (request_again env m (r\<lparr>sr_expires := w\<rparr>))" using t P by (simp add: request_again_speaks)
next
  fix res assume "speaks x P res"
  then show "speaks x P (R_AuthReset # fst res, snd res)" by (simp add: speaks_def split: option.splits)
qed (use assms in \<open>simp_all add: response_out_speaks request_again_speaks\<close>)

text \<open>A report of success comes with a response that grants, a report of failure with an error or a rejection.\<close>

definition truthful :: "sipreg \<Rightarrow> revent \<Rightarrow> err \<Rightarrow> response option \<Rightarrow> bool" where
  "truthful r ev e msg = (if \<exists>g. grants r ev g then e = 0 \<and> (\<exists>m. msg = Some m \<and> 200 \<le> rp_scode m \<and> rp_scode m \<le> 299)
     else e \<noteq> 0 \<or> (\<exists>m. msg = Some m \<and> 300 \<le> rp_scode m))"

lemma scode_299: "(c :: u16) < 300 \<Longrightarrow> c \<le> 299"
proof -
  assume "c < 300"
  then have "uint c < 300" by (simp add: word_less_def)
  then show "c \<le> 299" by (simp add: word_le_def)
qed

lemma reg_response_handler_speaks:
  assumes r: "reg_idle x r" and t: "\<not> sr_terminated r" and p: "\<not> provisional msg" and some: "e \<noteq> 0 \<or> msg \<noteq> None"
  shows "speaks x (truthful r (E_Response env e msg)) (reg_response_handler env e msg r)"
proof -
  define q where "q = r\<lparr>sr_wait := failwait (re_rand env) (sr_failc r + 1)\<rparr>"
  have q: "reg_idle x q" "\<not> sr_terminated q" using r t by (simp_all add: q_def reg_idle_def)
  show ?thesis
  proof (cases "e \<noteq> 0")
    case True
    then have "truthful r (E_Response env e msg) e msg" by (simp add: truthful_def grants_def split: option.split)
    then have "speaks x (truthful r (E_Response env e msg)) (response_out env e msg (bump_failc q))"
      using q by (simp add: response_out_speaks)
    then show ?thesis using True by (auto simp: reg_response_handler_def Let_def q_def split: option.split)
  next
    case False
    then obtain m where m: "msg = Some m" "e = 0" "\<not> rp_scode m < 200"
      using p some by (auto simp: provisional_def split: option.splits)
    obtain l q' where l: "sip_request_loops q (rp_scode m) = (l, q')" by fastforce
    have q': "reg_idle x q'" "\<not> sr_terminated q'"
      using request_loops_idle[OF l] request_loops_terminated[OF l] q by auto
    have loop: "\<not> l" if "rp_scode m < 300"
      using l that m(3) by (auto simp: sip_request_loops_def split: if_splits)
    have good: "truthful r (E_Response env e msg) e msg"
      using m scode_299 by (auto simp: truthful_def grants_def not_less)
    have bad: "truthful r (E_Response env e msg) e' (Some m)" if "\<not> rp_scode m < 300" for e'
      using m that by (simp add: truthful_def grants_def) (simp add: not_less)
    obtain ks s where s: "response_ok env m q' = (ks, s)" by fastforce
    have s': "reg_idle x s" "\<not> sr_terminated s" "reports ks = []"
      using response_ok_idle[OF s q'(1)] response_ok_bound[OF s] q'(2) s
      by (auto simp: response_ok_def start_outbound_def Let_def split: if_splits)
    have eq: "reg_response_handler env e msg r = (if l then response_out env e msg (bump_failc q')
        else if rp_scode m < 300 then (let (os, r) = response_out env e msg s in (ks @ os, r)) else response_fail env m q')"
      using m l s by (cases l) (auto simp: reg_response_handler_def Let_def simp flip: q_def)
    have "speaks x (truthful r (E_Response env e msg)) (response_out env e msg s)"
      using s' good by (simp add: response_out_speaks)
    then have "speaks x (truthful r (E_Response env e msg)) (let (os, r) = response_out env e msg s in (ks @ os, r))"
      using speaks_app[OF _ s'(3)] by (auto split: prod.split)
    then show ?thesis
      unfolding eq using q' good bad loop by (auto simp: response_out_speaks intro!: response_fail_speaks)
  qed
qed


lemma truthful_req: "truthful (r\<lparr>sr_req := b\<rparr>) (E_Response env e msg) = truthful r (E_Response env e msg)"
  by (simp add: truthful_def grants_def fun_eq_iff)

lemma reg_step_speaks:
  assumes ok: "reg_ok x tr r" and t: "\<not> sr_terminated r" and p: "possible r ev" and b: "from_below ev"
  shows "speaks x (truthful r ev) (reg_step r ev)"
proof (cases ev)
  case (E_Response env e msg)
  show ?thesis
  proof (cases "provisional msg")
    case True
    then show ?thesis using p t
      by (simp add: E_Response reg_step_def possible_def provisional_nothing speaks_def)
  next
    case False
    have "reg_idle x (r\<lparr>sr_req := False\<rparr>)" using ok p by (auto simp: E_Response possible_def reg_ok_def reg_idle_def)
    then have "speaks x (truthful (r\<lparr>sr_req := False\<rparr>) ev) (reg_response_handler env e msg (r\<lparr>sr_req := False\<rparr>))"
      unfolding E_Response using t b False by (intro reg_response_handler_speaks) (auto simp: from_below_def E_Response)
    then show ?thesis using False by (simp add: E_Response reg_step_def truthful_req)
  qed
next
  case (E_Timer env)
  then show ?thesis using ok t p
    by (auto simp: reg_step_def possible_def tmr_handler_def reg_defs reg_ok_def speaks_def truthful_def grants_def)
next
  case (E_KeepaliveFail env e)
  then show ?thesis using ok t b
    by (auto simp: reg_step_def keepalive_handler_def reg_defs reg_ok_def speaks_def truthful_def grants_def from_below_def)
qed (use b in \<open>simp_all add: from_below_def\<close>)

lemma report_none: "reports es = [] \<Longrightarrow> report info es reg = Some ([], reg)"
  by (induction es) (auto split: reff.splits)

lemma report_one:
  "reports es = [(e, m)] \<Longrightarrow> report info es reg = register_handler info e m reg"
  by (induction es) (auto simp: report_none split: reff.splits Option.bind_splits)

subsection \<open>The invariant of the clients\<close>

definition regsys_ok :: "regsys \<Rightarrow> bool" where
  "regsys_ok s =
     ((\<forall>r. rg_sipreg (rs_reg s) = Some r \<longrightarrow> \<not> sr_terminated r \<and> (\<exists>tr. reg_ok (rg_regint (rs_reg s) \<noteq> 0) tr r))
      \<and> (\<forall>r \<in> set (rs_left s). sr_terminated r \<and> (\<exists>x tr. reg_ok x tr r)))"

lemma opt_list_set [simp]: "set (opt_list x) = set_option x"
  by (cases x) (simp_all add: opt_list_def)

lemma drop_left_ok:
  assumes "regsys_ok s" and "r \<in> set_option (snd (drop_sipreg env (rg_sipreg (rs_reg s))))"
  shows "sr_terminated r \<and> (\<exists>x tr. reg_ok x tr r)"
proof -
  obtain q where q: "rg_sipreg (rs_reg s) = Some q" and r: "snd (destructor env q) = Some r"
    using assms(2) by (auto simp: drop_sipreg_def split: option.splits)
  then obtain x tr where ok: "reg_ok x tr q" "\<not> sr_terminated q" using assms(1) by (auto simp: regsys_ok_def)
  have "result_ok x tr (reg_step q (E_Drop env))" using ok by (intro reg_step_ok) (simp_all add: possible_def)
  moreover have "quiet (destructor env q)" by (rule destructor_quiet)
  ultimately show ?thesis using r by (auto simp: result_ok_def quiet_def reg_step_def)
qed

lemma reg_register_ok:
  assumes "reg_register a env rwait fbregint regint reg = (e, old, reg')"
  shows "rg_regint reg' = regint \<and> (\<forall>r. rg_sipreg reg' = Some r \<longrightarrow> \<not> sr_terminated r \<and> (\<exists>tr. reg_ok (regint \<noteq> 0) tr r))
    \<and> old = snd (drop_sipreg env (rg_sipreg reg))"
proof -
  obtain e0 es sr where r: "sipreg_register a env regint (rg_id reg) = (e0, es, sr)" by (cases rule: prod_cases3)
  show ?thesis
  proof (cases sr)
    case None
    then show ?thesis using assms r by (auto simp: reg_register_def Let_def)
  next
    case (Some q)
    have q: "reg_ok (regint \<noteq> 0) es q" "\<not> sr_terminated q" using sipreg_register_ok r Some by auto
    define q1 where "q1 = (if rwait \<noteq> 0 then snd (sipreg_set_rwait rwait q) else q)"
    define q2 where "q2 = (if fbregint \<noteq> 0 then snd (sipreg_set_fbregint fbregint q1) else q1)"
    define q3 where "q3 = (if sipreg_failed (rg_sipreg reg) then sipreg_incfailc q2 else q2)"
    have "reg_ok (regint \<noteq> 0) es q1" "\<not> sr_terminated q1" using q by (auto simp: q1_def sipreg_set_rwait_def reg_ok_def not_less)
    then have "reg_ok (regint \<noteq> 0) es q2" "\<not> sr_terminated q2" by (auto simp: q2_def sipreg_set_fbregint_def reg_ok_def)
    then have q3: "reg_ok (regint \<noteq> 0) es q3" "\<not> sr_terminated q3" by (auto simp: q3_def sipreg_incfailc_def reg_ok_def)
    have "rg_sipreg reg' = Some q3 \<and> rg_regint reg' = regint \<and> old = snd (drop_sipreg env (rg_sipreg reg))"
      using assms r Some by (auto simp: reg_register_def Let_def q1_def q2_def q3_def split: prod.splits)
    then show ?thesis using q3 by (auto intro: exI[of _ es])
  qed
qed

text \<open>The event a register client emits for a result.\<close>

definition verdict :: "reg \<Rightarrow> bool \<Rightarrow> ua_event" where
  "verdict reg success = (if rg_regint reg \<noteq> 0 then (if success then UA_EVENT_REGISTER_OK else UA_EVENT_REGISTER_FAIL)
     else (if success then UA_EVENT_FALLBACK_OK else UA_EVENT_FALLBACK_FAIL))"

lemma regsys_client_step:
  assumes ok: "regsys_ok s" and r: "rg_sipreg (rs_reg s) = Some r" and p: "possible r ev" and b: "from_below ev"
  shows "\<exists>s' r'. regsys_step (G_Client info ev) s = Some s' \<and> rg_sipreg (rs_reg s') = Some r' \<and> regsys_ok s'
    \<and> (if sr_req r' then rs_events s' = rs_events s
       else if sr_tmr r' then rs_events s' = rs_events s @ [verdict (rs_reg s) (\<exists>g. grants r ev g)]
       else rs_events s' = rs_events s \<and> rg_regint (rs_reg s) = 0 \<and> sr_fbregint r' = 0)"
proof -
  define x where "x = (rg_regint (rs_reg s) \<noteq> 0)"
  obtain tr where rok: "reg_ok x tr r" and t: "\<not> sr_terminated r" using ok r by (auto simp: regsys_ok_def x_def)
  obtain es sr' where st: "reg_step r ev = (es, sr')" by fastforce
  have sp: "speaks x (truthful r ev) (es, sr')" using reg_step_speaks[OF rok t p b] st by simp
  then obtain r' where r': "sr' = Some r'" "\<not> sr_terminated r'" by (auto simp: speaks_def split: option.splits)
  have rok': "reg_ok x (tr @ es) r'" using reg_step_ok[OF rok p] st r' by (simp add: result_ok_def)
  let ?reg = "(rs_reg s)\<lparr>rg_sipreg := sr'\<rparr>"
  from sp consider "reports es = []" "sr_req r' \<or> \<not> x \<and> \<not> sr_tmr r' \<and> sr_fbregint r' = 0"
    | e m where "reports es = [(e, m)]" "truthful r ev e m" "\<not> sr_req r'" "sr_tmr r'"
    by (auto simp: speaks_def r')
  then show ?thesis
  proof cases
    case 1
    then show ?thesis using ok r p b st r' rok'
      by (auto simp: report_none regsys_ok_def x_def)
  next
    case 2
    obtain us reg' where h: "register_handler info e m ?reg = Some (us, reg')"
      "rg_sipreg reg' = Some r'" "rg_regint reg' = rg_regint (rs_reg s)"
      "us = [verdict (rs_reg s) (\<exists>g. grants r ev g)]"
    proof (cases "\<exists>g. grants r ev g")
      case True
      then obtain m' where "e = 0" "m = Some m'" "200 \<le> rp_scode m'" "rp_scode m' \<le> 299"
        using 2(2) by (auto simp: truthful_def)
      then show ?thesis using that True
        by (cases "fst info") (auto simp: register_handler_def Let_def r' verdict_def)
    next
      case False
      then have F: "e \<noteq> 0 \<or> (\<exists>m'. m = Some m' \<and> 300 \<le> rp_scode m')" using 2(2) by (simp add: truthful_def)
      show ?thesis
      proof (cases "e = 0")
        case True
        then obtain m' where m': "m = Some m'" "300 \<le> rp_scode m'" using F by auto
        have "\<not> rp_scode m' \<le> 299" using m'(2) by (simp add: word_le_def)
        then show ?thesis using that False True m'
          by (cases "fst info") (auto simp: register_handler_def Let_def r' verdict_def)
      qed (use that False in \<open>auto simp: register_handler_def Let_def r' verdict_def\<close>)
    qed
    then show ?thesis using ok r p b st r' rok' 2
      by (auto simp: report_one[OF 2(1)] regsys_ok_def x_def Let_def)
  qed
qed

lemma regsys_left_step:
  assumes ok: "regsys_ok s"
  shows "\<exists>s'. regsys_step (G_Left info i ev) s = Some s' \<and> regsys_ok s' \<and> rs_reg s' = rs_reg s \<and> rs_events s' = rs_events s"
proof (cases "i < length (rs_left s) \<and> possible (rs_left s ! i) ev \<and> from_below ev")
  case True
  let ?r = "rs_left s ! i"
  have "?r \<in> set (rs_left s)" using True by (intro nth_mem) simp
  then obtain x tr where r: "sr_terminated ?r" "reg_ok x tr ?r" using ok by (auto simp: regsys_ok_def)
  obtain es sr' where st: "reg_step ?r ev = (es, sr')" by fastforce
  have t: "\<not> sr_tmr ?r" using r by (auto simp: reg_ok_def)
  have "result_ok x tr (es, sr')" using reg_step_ok[OF r(2), of ev] True by (simp add: st)
  moreover have "quiet (es, sr')" using reg_step_quiet[OF r(1) t, of ev] True by (simp add: st)
  ultimately have "\<forall>q \<in> set_option sr'. sr_terminated q \<and> (\<exists>x tr. reg_ok x tr q)"
    by (auto simp: result_ok_def quiet_def intro!: exI[of _ x] exI[of _ "tr @ es"])
  moreover have "report info es (rs_reg s) = Some ([], rs_reg s)"
    using quiet_reports[OF \<open>quiet (es, sr')\<close>] by (simp add: report_none)
  ultimately have "\<forall>q \<in> set (take i (rs_left s) @ opt_list sr' @ drop (Suc i) (rs_left s)). sr_terminated q \<and> (\<exists>x tr. reg_ok x tr q)"
    using ok by (auto simp: regsys_ok_def dest: in_set_takeD in_set_dropD)
  then show ?thesis using True st ok \<open>report info es _ = _\<close> by (simp add: regsys_ok_def)
next
  case False
  then show ?thesis using ok by (simp only: regsys_step.simps if_False) simp
qed

lemma regsys_step_ok: "regsys_ok s \<Longrightarrow> \<exists>s'. regsys_step ev s = Some s' \<and> regsys_ok s'"
proof (cases ev)
  case (G_Register a env rwait fbregint regint)
  assume ok: "regsys_ok s"
  obtain e old reg where r: "reg_register a env rwait fbregint regint (rs_reg s) = (e, old, reg)" by (cases rule: prod_cases3)
  show ?thesis using reg_register_ok[OF r] drop_left_ok[OF ok, of _ env] ok r
    by (auto simp: G_Register regsys_ok_def)
next
  case (G_Unregister env)
  assume ok: "regsys_ok s"
  show ?thesis using drop_left_ok[OF ok, of _ env] ok
    by (auto simp: G_Unregister reg_unregister_def regsys_ok_def)
next
  case (G_Client info ev)
  assume ok: "regsys_ok s"
  show ?thesis
  proof (cases "\<exists>r. rg_sipreg (rs_reg s) = Some r \<and> possible r ev \<and> from_below ev")
    case True
    then show ?thesis using regsys_client_step[OF ok] unfolding G_Client by blast
  next
    case False
    then show ?thesis using ok by (auto simp: G_Client split: option.split)
  qed
next
  case (G_Left info i ev)
  assume ok: "regsys_ok s"
  show ?thesis unfolding G_Left using regsys_left_step[OF ok] by blast
qed

lemma regsys_run_ok: "regsys_ok s \<Longrightarrow> \<exists>s'. regsys_run evs s = Some s' \<and> regsys_ok s'"
proof (induction evs arbitrary: s)
  case (Cons ev evs)
  obtain s1 where "regsys_step ev s = Some s1" "regsys_ok s1" using regsys_step_ok[OF Cons.prems] by blast
  then show ?case using Cons.IH by simp
qed simp

lemma regsys_init_ok: "regsys_ok (regsys_init i)"
  by (simp add: regsys_ok_def regsys_init_def reg_add_def)


subsection \<open>Properties\<close>

text \<open>
  C2: Whatever a user agent does with a register client (register again, unregister) and whatever reaches its registration
  clients, replaced ones included, no message is read through NULL. Every replaced client has \<open>dummy_handler\<close> in place
  of the owner's handler and waits for the answer that will free it; what it still does emits no event and does not
  change the register client, although its handler argument is that client.
\<close>

theorem register_client_safe:
  "\<exists>s. regsys_run evs (regsys_init regid) = Some s
     \<and> list_all (\<lambda>r. sr_terminated r \<and> sr_req r \<and> \<not> sr_resph r) (rs_left s)
     \<and> map_option (\<lambda>s'. (rs_reg s', rs_events s')) (regsys_step (G_Left info i ev) s) = Some (rs_reg s, rs_events s)"
proof -
  obtain s where s: "regsys_run evs (regsys_init regid) = Some s" "regsys_ok s"
    using regsys_run_ok[OF regsys_init_ok] by blast
  obtain s' where "regsys_step (G_Left info i ev) s = Some s'" "rs_reg s' = rs_reg s" "rs_events s' = rs_events s"
    using regsys_left_step[OF s(2)] by blast
  moreover have "list_all (\<lambda>r. sr_terminated r \<and> sr_req r \<and> \<not> sr_resph r) (rs_left s)"
    using s(2) by (auto simp: regsys_ok_def list_all_iff reg_ok_def)
  ultimately show ?thesis using s(1) by auto
qed

text \<open>
  C1: The events of a register client are complete and truthful. Each event from below does one of three things: it
  leaves a request of the client under way and says nothing; or it ends the attempt with exactly one event and the timer
  of the next attempt runs: UA_EVENT_REGISTER_OK when the registrar's response was a success, UA_EVENT_REGISTER_FAIL when
  it was not or there was none, and UA_EVENT_FALLBACK_OK and UA_EVENT_FALLBACK_FAIL for a client without an expiry; or,
  only for a client without an expiry whose fallback interval is 0 (a response 4xx sets it to 0), it ends the client's
  work without any event.
\<close>

theorem register_events_truthful:
  assumes "regsys_run evs (regsys_init regid) = Some s" and "rg_sipreg (rs_reg s) = Some r"
    and "possible r ev" and "from_below ev"
  shows "\<exists>s' r'. regsys_step (G_Client info ev) s = Some s' \<and> rg_sipreg (rs_reg s') = Some r'
    \<and> (if sr_req r' then rs_events s' = rs_events s
       else if sr_tmr r' then rs_events s' = rs_events s @
         [if rg_regint (rs_reg s) \<noteq> 0
          then (if \<exists>g. grants r ev g then UA_EVENT_REGISTER_OK else UA_EVENT_REGISTER_FAIL)
          else (if \<exists>g. grants r ev g then UA_EVENT_FALLBACK_OK else UA_EVENT_FALLBACK_FAIL)]
       else rs_events s' = rs_events s \<and> rg_regint (rs_reg s) = 0 \<and> sr_fbregint r' = 0)"
proof -
  have "regsys_ok s" using regsys_run_ok[OF regsys_init_ok] assms(1) by (metis option.inject)
  from regsys_client_step[OF this assms(2-4), of info] show ?thesis unfolding verdict_def by blast
qed

text \<open>A client with an expiry of 600 s, and a fallback client with an interval of 120 s whose request fails.\<close>

lemma register_events_truthful_witness:
  "\<exists>s t. regsys_run [G_Register 0 ok_env 0 0 600] (regsys_init 0) = Some s
     \<and> map_option rs_events (regsys_step (G_Client (None, 4) (E_Response ok_env 0 (Some (grant 300)))) s) = Some [UA_EVENT_REGISTER_OK]
     \<and> regsys_run [G_Register 0 ok_env 0 120 0] (regsys_init 0) = Some t
     \<and> map_option rs_events (regsys_step (G_Client (None, 4) (E_Response ok_env 110 None)) t) = Some [UA_EVENT_FALLBACK_FAIL]"
proof -
  note eval = regsys_init_def reg_add_def reg_register_def drop_sipreg_def sipreg_register_def request_def
    sip_loopstate_reset_def ok_env_def sipreg_failed_def sipreg_set_fbregint_def
  obtain s r where s: "regsys_run [G_Register 0 ok_env 0 0 600] (regsys_init 0) = Some s" "rg_sipreg (rs_reg s) = Some r"
    "rg_regint (rs_reg s) = 600" "sr_req r" "rs_events s = []" "sr_expires r = 600" "sr_regid r = 0" "\<not> sr_terminated r" "sr_resph r"
    by (simp add: eval)
  obtain t q where t: "regsys_run [G_Register 0 ok_env 0 120 0] (regsys_init 0) = Some t" "rg_sipreg (rs_reg t) = Some q"
    "rg_regint (rs_reg t) = 0" "sr_req q" "rs_events t = []" "sr_expires q = 0" "sr_fbregint q = 120"
    "\<not> sr_terminated q" "sr_resph q"
    by (simp add: eval)
  let ?ok = "E_Response ok_env 0 (Some (grant 300))" and ?fail = "E_Response ok_env 110 None"
  have g: "\<exists>g. grants r ?ok g" "\<not> (\<exists>g. grants q ?fail g)" by (simp_all add: grants_def grant_def)
  have p: "possible r ?ok" "possible q ?fail" using s(4) t(4) by (simp_all add: possible_def provisional_def grant_def)
  have b: "from_below ?ok" "from_below ?fail" by (simp_all add: from_below_def)
  have "\<exists>s' r'. regsys_step (G_Client (None, 4) ?ok) s = Some s' \<and> rg_sipreg (rs_reg s') = Some r' \<and> \<not> sr_req r' \<and> sr_tmr r'"
    using s(2-) by (simp add: reg_eval from_below_def register_handler_def)
  then have 1: "map_option rs_events (regsys_step (G_Client (None, 4) ?ok) s) = Some [UA_EVENT_REGISTER_OK]"
    using register_events_truthful[OF s(1,2) p(1) b(1), of "(None, 4)"] s(3,5) g(1) by auto
  have "\<exists>s' r'. regsys_step (G_Client (None, 4) ?fail) t = Some s' \<and> rg_sipreg (rs_reg s') = Some r' \<and> \<not> sr_req r' \<and> sr_tmr r'"
    using t(2-) by (simp add: reg_eval from_below_def register_handler_def)
  then have 2: "map_option rs_events (regsys_step (G_Client (None, 4) ?fail) t) = Some [UA_EVENT_FALLBACK_FAIL]"
    using register_events_truthful[OF t(1,2) p(2) b(2), of "(None, 4)"] t(3,5) g(2) by auto
  show ?thesis using s(1) t(1) 1 2 by blast
qed

end
