(* ===== verification/Telephony.thy ===== *)
theory Telephony
  imports Ua
begin

section \<open>The telephony module (telephony.c, telephony\_notify.c, telephony\_kn.c, re mqueue.c)\<close>

text \<open>
  The program's own module around baresip: commands come from another thread through a message
  queue, events go back through a callback. Its state extends that of theory \<open>Ua\<close> with the pointer
  \<open>g_call\<close>, the queue (\<open>g_queue\<close>: allocated; \<open>g_msgs\<close>: the messages in the pipe), whether
  \<open>event_listener\<close> is registered, the callbacks, a log of the notifications, the number of
  \<open>malloc\<close> blocks of commands, and a trace of the start-up and shut-down calls.
\<close>

record audio_call =
  ac_host :: "string option"
  ac_port :: int
  ac_transport :: "string option"
  ac_account :: "string option"
  ac_user :: "string option"
  ac_passw :: "string option"
  ac_peer :: "string option"

definition CMD_AUDIO_CALL :: int where "CMD_AUDIO_CALL = 101"
definition CMD_HANGUP :: int where "CMD_HANGUP = 102"
definition CMD_STOP :: int where "CMD_STOP = 103"

datatype notification = N_Jni ua_event u16 "string option" | N_Kn ua_event u16 "string option"

datatype tel_call = T_libre_init | T_conf_configure | T_baresip_init | T_mod_init | T_conf_modules | T_ua_init
  | T_event_register | T_mqueue_alloc | T_ua_close | T_conf_close | T_baresip_close | T_mod_close | T_libre_close

record tel = baresip +
  g_call :: "nat option"
  g_queue :: bool
  g_msgs :: "(int \<times> audio_call option) list"
  t_listening :: bool
  t_android :: bool
  g_event_callback :: bool
  g_kn_handler :: bool
  t_log :: "notification list"
  t_blocks :: nat
  t_cancel :: bool
  t_trace :: "tel_call list"

definition tel_start :: "bool \<Rightarrow> tel" where
  "tel_start android = baresip.extend bs_init (tel.fields None False [] False android False False [] 0 False [])"

subsection \<open>Notifications\<close>

definition kn_event_bridge :: "ua_event \<Rightarrow> u16 \<Rightarrow> string option \<Rightarrow> tel \<Rightarrow> tel" where
  "kn_event_bridge ev scode callId t = (if g_kn_handler t then t\<lparr>t_log := t_log t @ [N_Kn ev scode callId]\<rparr> else t)"

definition telephony_kn_set_event_handler :: "bool \<Rightarrow> tel \<Rightarrow> tel" where
  "telephony_kn_set_event_handler handler t = t\<lparr>g_kn_handler := handler, g_event_callback := handler\<rparr>"

definition notifyEvent :: "ua_event \<Rightarrow> u16 \<Rightarrow> string option \<Rightarrow> tel \<Rightarrow> tel" where
  "notifyEvent ev scode callId t =
     (let t = (if t_android t then t\<lparr>t_log := t_log t @ [N_Jni ev scode callId]\<rparr> else t)
      in if g_event_callback t then kn_event_bridge ev scode callId t else t)"

definition event_listener :: "ua_event \<Rightarrow> nat option \<Rightarrow> tel \<Rightarrow> tel option" where
  "event_listener ev call t = do {
     callId \<leftarrow> (if ev = UA_EVENT_CALL_RINGING then call_id (g_call t) t else Some None);
     (scode, t) \<leftarrow> (if ev = UA_EVENT_CALL_CLOSED
       then map_option (\<lambda>scode. (scode, t\<lparr>g_call := None\<rparr>)) (call_scode (g_call t) t)
       else Some (0, t));
     Some (notifyEvent ev scode callId t)
   }"

text \<open>\<open>uag_event_register\<close> and \<open>uag_event_unregister\<close> (baresip/src/event.c) with the one listener there is.\<close>

definition uag_event_unregister :: "tel \<Rightarrow> tel" where
  "uag_event_unregister t = t\<lparr>t_listening := False\<rparr>"

definition uag_event_register :: "bool \<Rightarrow> tel \<Rightarrow> err \<times> tel" where
  "uag_event_register mem_ok t =
     (let t = uag_event_unregister t in if mem_ok then (0, t\<lparr>t_listening := True\<rparr>) else (ENOMEM, t))"

definition no_listener :: "ua_event \<Rightarrow> nat option \<Rightarrow> tel \<Rightarrow> tel option" where
  "no_listener ev call t = Some t"

subsection \<open>Commands\<close>

text \<open>Decimal numbers and \<open>%s\<close>, which prints \<open>(null)\<close> for NULL in the C libraries the program is built for.\<close>

function show_nat :: "nat \<Rightarrow> string" where
  "show_nat n = (if n < 10 then [char_of (48 + n)] else show_nat (n div 10) @ [char_of (48 + n mod 10)])"
  by pat_completeness auto
termination by (relation "measure id") auto

declare show_nat.simps [simp del]

definition show_int :: "int \<Rightarrow> string" where
  "show_int i = (if i < 0 then CHR ''-'' # show_nat (nat (- i)) else show_nat (nat i))"

definition fmt_s :: "string option \<Rightarrow> string" where
  "fmt_s s = (case s of None \<Rightarrow> ''(null)'' | Some s \<Rightarrow> s)"

definition aor_full :: "audio_call \<Rightarrow> string" where
  "aor_full ac = [CHR 0x22] @ fmt_s (ac_account ac) @ [CHR 0x22] @ '' <sip:'' @ fmt_s (ac_user ac) @ ''@'' @ fmt_s (ac_host ac) @
     '':'' @ show_int (ac_port ac) @ '';transport='' @ fmt_s (ac_transport ac) @ ''>;'' @
     ''auth_pass='' @ fmt_s (ac_passw ac) @ '';''"

text \<open>\<open>snprintf\<close> into \<open>char aor[128]\<close>.\<close>

definition aor :: "audio_call \<Rightarrow> string" where
  "aor ac = take 127 (aor_full ac)"

definition blocks :: "audio_call \<Rightarrow> nat" where
  "blocks ac = 1 + length (filter (\<lambda>s. s \<noteq> None)
     [ac_peer ac, ac_passw ac, ac_user ac, ac_account ac, ac_transport ac, ac_host ac])"

definition free_audio_call :: "audio_call \<Rightarrow> tel \<Rightarrow> tel" where
  "free_audio_call ac t = t\<lparr>t_blocks := t_blocks t - blocks ac\<rparr>"

text \<open>
  The part of \<open>cmd_audioCall\<close> after the user agent \<open>u\<close> was made, which is freed again on an error.
\<close>

definition attempt :: "env \<Rightarrow> audio_call \<Rightarrow> nat \<Rightarrow> tel \<Rightarrow> (err \<times> tel) option" where
  "attempt env ac u t = do {
     (e, t) \<leftarrow> ua_register event_listener env u t;
     (e, t) \<leftarrow> (if e \<noteq> 0 then Some (e, t)
        else do {
          (e, cp, t) \<leftarrow> ua_connect event_listener env u (case ac_peer ac of None \<Rightarrow> [] | Some p \<Rightarrow> p) t;
          Some (e, if cp = None then t else t\<lparr>g_call := cp\<rparr>)
        });
     t \<leftarrow> (if e \<noteq> 0 then ua_destructor event_listener u t else Some t);
     Some (e, free_audio_call ac t)
   }"

text \<open>\<open>accounts\<close> is \<open>account_alloc\<close>, a function of the address of record.\<close>

definition cmd_audioCall ::
  "(string \<Rightarrow> err + account) \<Rightarrow> env \<Rightarrow> audio_call option \<Rightarrow> tel \<Rightarrow> (err \<times> tel) option" where
  "cmd_audioCall accounts env acp t = (case acp of None \<Rightarrow> Some (EINVAL, t) | Some ac \<Rightarrow> do {
     (e, up, t) \<leftarrow> ua_alloc event_listener (env\<lparr>e_account := accounts (aor ac)\<rparr>) t;
     case up of None \<Rightarrow> Some (e, free_audio_call ac t) | Some u \<Rightarrow> attempt env ac u t
   })"

definition cmd_hangup :: "tel \<Rightarrow> tel option" where
  "cmd_hangup t = do {
     let ua = uag_current t;
     t \<leftarrow> ua_hangup event_listener ua (g_call t) t;
     ua_unregister event_listener ua t
   }"

definition mqueue_handler ::
  "(string \<Rightarrow> err + account) \<Rightarrow> env \<Rightarrow> int \<Rightarrow> audio_call option \<Rightarrow> tel \<Rightarrow> tel option" where
  "mqueue_handler accounts env i data t =
     (if i = CMD_AUDIO_CALL then map_option snd (cmd_audioCall accounts env data t)
      else if i = CMD_HANGUP then cmd_hangup t
      else if i = CMD_STOP then Some (t\<lparr>t_cancel := True\<rparr>)
      else Some t)"

subsection \<open>The message queue\<close>

text \<open>
  Messages go through a pipe. A write of one message is atomic: it fails with \<open>write_err\<close> (a full
  pipe) or appends the message. \<open>mqueue_event\<close> is \<open>event_handler\<close> of mqueue.c for a readable pipe.
\<close>

definition mqueue_push :: "err \<Rightarrow> int \<Rightarrow> audio_call option \<Rightarrow> tel \<Rightarrow> err \<times> tel" where
  "mqueue_push write_err i data t =
     (if \<not> g_queue t then (EINVAL, t)
      else if write_err \<noteq> 0 then (write_err, t)
      else (0, t\<lparr>g_msgs := g_msgs t @ [(i, data)]\<rparr>))"

definition mqueue_event :: "(string \<Rightarrow> err + account) \<Rightarrow> env \<Rightarrow> tel \<Rightarrow> tel option" where
  "mqueue_event accounts env t =
     (case g_msgs t of [] \<Rightarrow> Some t
      | (i, data) # ms \<Rightarrow> mqueue_handler accounts env i data (t\<lparr>g_msgs := ms\<rparr>))"

definition mqueue_alloc :: "err \<Rightarrow> tel \<Rightarrow> err \<times> tel" where
  "mqueue_alloc pipe_err t = (if pipe_err \<noteq> 0 then (pipe_err, t) else (0, t\<lparr>g_queue := True, g_msgs := []\<rparr>))"

definition telephony_cmd :: "err \<Rightarrow> int \<Rightarrow> audio_call option \<Rightarrow> tel \<Rightarrow> tel" where
  "telephony_cmd write_err cmd data t = snd (mqueue_push write_err cmd data t)"



definition telephony_kn_hangup :: "err \<Rightarrow> tel \<Rightarrow> tel" where
  "telephony_kn_hangup write_err t = telephony_cmd write_err CMD_HANGUP None t"

definition telephony_kn_stop :: "err \<Rightarrow> tel \<Rightarrow> tel" where
  "telephony_kn_stop write_err t = telephony_cmd write_err CMD_STOP None t"

subsection \<open>Start and end\<close>

definition tel_done :: "tel \<Rightarrow> tel option" where
  "tel_done t = do {
     t \<leftarrow> ua_stop_all no_listener (uag_event_unregister (t\<lparr>g_call := None, g_queue := False, g_msgs := []\<rparr>));
     Some (t\<lparr>t_trace := t_trace t @ [T_ua_close, T_conf_close, T_baresip_close, T_mod_close, T_libre_close],
             g_event_callback := (t_android t \<and> g_event_callback t)\<rparr>)
   }"

text \<open>What the calls of \<open>telephony_init\<close> return.\<close>

record init_env =
  i_libre :: err
  i_conf :: err
  i_baresip :: err
  i_modules :: err
  i_ua :: err
  i_mem :: bool
  i_pipe :: err

definition failed :: "err \<Rightarrow> tel \<Rightarrow> (err \<times> tel) option" where
  "failed e t = map_option (\<lambda>t. (e, t)) (tel_done t)"

definition traced :: "tel_call list \<Rightarrow> tel \<Rightarrow> tel" where
  "traced cs t = t\<lparr>t_trace := t_trace t @ cs\<rparr>"

definition telephony_init :: "init_env \<Rightarrow> tel \<Rightarrow> (err \<times> tel) option" where
  "telephony_init ie t =
     (let t = traced [T_libre_init] t in if i_libre ie \<noteq> 0 then failed (i_libre ie) t else
      let t = traced [T_conf_configure] t in if i_conf ie \<noteq> 0 then failed (i_conf ie) t else
      let t = traced [T_baresip_init] t in if i_baresip ie \<noteq> 0 then failed (i_baresip ie) t else
      let t = traced [T_mod_init, T_conf_modules] t in if i_modules ie \<noteq> 0 then failed (i_modules ie) t else
      let t = traced [T_ua_init] t in if i_ua ie \<noteq> 0 then failed (i_ua ie) t else
      let (e, t) = uag_event_register (i_mem ie) (traced [T_event_register] t) in if e \<noteq> 0 then failed e t else
      let (e, t) = mqueue_alloc (i_pipe ie) (traced [T_mqueue_alloc] t) in if e \<noteq> 0 then failed e t else
      Some (0, t))"

definition telephony_mainLoop :: "err \<Rightarrow> tel \<Rightarrow> (err \<times> tel) option" where
  "telephony_mainLoop main_err t = failed main_err t"

section \<open>The listener keeps its side of the contract\<close>

definition tel_held :: "tel \<Rightarrow> nat set" where
  "tel_held t = set_option (g_call t)"

lemma tel_more: "baresip.more t' = baresip.more t \<Longrightarrow> g_call t' = g_call t"
  by (cases t; cases t') simp

lemma tel_more_log: "baresip.more t' = baresip.more t \<Longrightarrow> t_log t' = t_log t"
  by (cases t; cases t') simp

lemma notifyEvent_simps [simp]:
  "shape (notifyEvent ev sc i t) = shape t" "g_call (notifyEvent ev sc i t) = g_call t"
  "bs_calls (notifyEvent ev sc i t) = bs_calls t" "t_blocks (notifyEvent ev sc i t) = t_blocks t"
  "g_msgs (notifyEvent ev sc i t) = g_msgs t" "g_queue (notifyEvent ev sc i t) = g_queue t"
  by (simp_all add: notifyEvent_def kn_event_bridge_def shape_def Let_def)

interpretation tl: ua_listener event_listener tel_held
proof
  fix s :: tel and ev cp
  assume ok: "held_ok tel_held s"
  have "\<exists>i. call_id (g_call s) s = Some i" "\<exists>k. call_scode (g_call s) s = Some k"
    using ok by (auto simp: held_ok_def tel_held_def call_id_def call_scode_def split: option.split)
  moreover have "shape (s\<lparr>g_call := x\<rparr>) = shape s" for x by (simp add: shape_def)
  ultimately show "runs (event_listener ev cp s) (stays tel_held s)"
    using ok by (auto simp: event_listener_def stays_def held_ok_def tel_held_def)
next
  fix s s' :: tel
  assume "baresip.more s' = baresip.more s"
  from tel_more [OF this] show "tel_held s' = tel_held s" by (simp add: tel_held_def)
next
  fix s s' :: tel and cp
  assume "event_listener UA_EVENT_CALL_CLOSED cp s = Some s'"
  then show "tel_held s' = {}"
    by (auto simp: event_listener_def tel_held_def split: bind_splits)
qed

interpretation quiet: ua_listener no_listener "\<lambda>t. {}"
  by unfold_locales (auto simp: no_listener_def stays_def held_ok_def)

section \<open>Runs of the program\<close>

text \<open>
  One input of the main loop: a command another thread sends, a message taken from the queue, or an
  event of baresip; with what the parts that are not modelled answer.
\<close>

datatype tel_input = I_Push err int "audio_call option" | I_Message "string \<Rightarrow> err + account" env | I_Net env net_event

fun tel_step :: "tel_input \<Rightarrow> tel \<Rightarrow> tel option" where
  "tel_step (I_Push write_err i data) t = Some (telephony_cmd write_err i data t)"
| "tel_step (I_Message accounts env) t = mqueue_event accounts env t"
| "tel_step (I_Net env ev) t = deliver event_listener env ev t"

definition cur_valid :: "'a baresip_scheme \<Rightarrow> bool" where
  "cur_valid s \<longleftrightarrow> (case bs_cur s of None \<Rightarrow> bs_ual s = [] | Some u \<Rightarrow> u \<in> set (bs_ual s))"

definition tel_inv :: "tel \<Rightarrow> bool" where
  "tel_inv t \<longleftrightarrow> bs_wf t \<and> held_ok tel_held t \<and> cur_valid t"

text \<open>
  What the invariant needs of an input: events of existing calls; no REFER subscription of the call
  \<open>g_call\<close> that ends with a failure; no audio call that fails after it made the first user agent
  (\<open>aborted\<close>).
\<close>

definition aborted :: "(string \<Rightarrow> err + account) \<Rightarrow> env \<Rightarrow> audio_call \<Rightarrow> tel \<Rightarrow> bool" where
  "aborted accounts env ac t \<longleftrightarrow> bs_cur t = None \<and>
     (case ua_alloc event_listener (env\<lparr>e_account := accounts (aor ac)\<rparr>) t of
        Some (_, Some _, _) \<Rightarrow> True | _ \<Rightarrow> False) \<and>
     (case cmd_audioCall accounts env (Some ac) t of Some (e, _) \<Rightarrow> e \<noteq> 0 | None \<Rightarrow> False)"

fun benign :: "tel_input \<Rightarrow> tel \<Rightarrow> bool" where
  "benign (I_Push write_err i data) t \<longleftrightarrow> True"
| "benign (I_Net env ev) t \<longleftrightarrow> net_ok ev t \<and>
     (case g_call t of None \<Rightarrow> True | Some c \<Rightarrow> \<not> transfer_fails ev c)"
| "benign (I_Message accounts env) t \<longleftrightarrow> env_errs env \<and>
     (case g_msgs t of
        (i, Some ac) # ms \<Rightarrow> i = CMD_AUDIO_CALL \<longrightarrow>
          accounts (aor ac) \<noteq> Inl 0 \<and> \<not> aborted accounts env ac (t\<lparr>g_msgs := ms\<rparr>)
      | _ \<Rightarrow> True)"

lemma tel_inv_start: "tel_inv (tel_start android)"
  by (simp add: tel_inv_def tel_start_def bs_wf_def held_ok_def tel_held_def cur_valid_def bs_init_def
      baresip.defs tel.defs)

lemma cur_valid_agents: "agents s' = agents s \<Longrightarrow> cur_valid s' = cur_valid s"
  by (simp add: cur_valid_def agents_def split: option.split)

lemma good_inv: "good tel_held t t' \<Longrightarrow> cur_valid t \<Longrightarrow> tel_inv t'"
  using cur_valid_agents [of t' t] by (simp add: tel_inv_def good_def)

lemma deliver_inv:
  assumes "tel_inv t" "net_ok ev t" "\<forall>c. g_call t = Some c \<longrightarrow> \<not> transfer_fails ev c"
  shows "runs (deliver event_listener env ev t) tel_inv"
proof -
  have "runs (deliver event_listener env ev t) (good tel_held t)"
    by (rule tl.deliver_good) (use assms in \<open>auto simp: tel_inv_def tel_held_def\<close>)
  then show ?thesis using assms(1) by (auto elim!: runs_mono intro: good_inv simp: tel_inv_def)
qed

lemma current_live: "tel_inv t \<Longrightarrow> uag_current t = Some u \<Longrightarrow> u \<in> dom (bs_uas t)"
  using bs_wf_ual [of t] by (auto simp: tel_inv_def uag_current_def cur_valid_def split: if_splits)

lemma hangup_inv:
  assumes inv: "tel_inv t"
  shows "runs (cmd_hangup t) tel_inv"
proof -
  have wf: "bs_wf t" "held_ok tel_held t" "cur_valid t" using inv by (simp_all add: tel_inv_def)
  show ?thesis
    unfolding cmd_hangup_def Let_def
  proof (rule runs_bind [OF tl.ua_hangup_good [OF wf(1,2)]])
    show "u \<in> dom (bs_uas t)" if "uag_current t = Some u" for u by (rule current_live [OF inv that])
    show "c \<in> dom (bs_calls t)" if "g_call t = Some c" for c
      using wf(2) that by (simp add: held_ok_def tel_held_def)
    fix t1 assume g: "good tel_held t t1"
    have i1: "tel_inv t1" by (rule good_inv [OF g wf(3)])
    have "uag_current t1 = uag_current t" using g by (simp add: good_def agents_def uag_current_def)
    then have "u \<in> dom (bs_uas t1)" if "uag_current t = Some u" for u
      using current_live [OF i1] that by simp
    then have "runs (ua_unregister event_listener (uag_current t) t1) (stays tel_held t1)"
      by (rule tl.ua_unregister_stays [OF good_ok [OF g]])
    then show "runs (ua_unregister event_listener (uag_current t) t1) tel_inv"
      using i1 by (auto elim!: runs_mono dest!: stays_good intro!: good_inv simp: tel_inv_def)
  qed
qed

lemma inv_frame: "tel_inv t \<Longrightarrow> shape t' = shape t \<Longrightarrow> g_call t' = g_call t \<Longrightarrow> tel_inv t'"
  using bs_wf_shape [of t' t] shape_dom_calls [of t' t] cur_valid_agents [of t' t] shape_agents [of t' t]
  by (simp add: tel_inv_def held_ok_def tel_held_def)

lemma free_audio_call_simps [simp]:
  "shape (free_audio_call ac t) = shape t" "g_call (free_audio_call ac t) = g_call t"
  "agents (free_audio_call ac t) = agents t" "bs_calls (free_audio_call ac t) = bs_calls t"
  "bs_ual (free_audio_call ac t) = bs_ual t" "bs_cur (free_audio_call ac t) = bs_cur t"
  by (simp_all add: free_audio_call_def shape_def agents_def)

lemma free_inv [simp]: "tel_inv (free_audio_call ac t) = tel_inv t"
  using inv_frame [of t "free_audio_call ac t"] inv_frame [of "free_audio_call ac t" t] by auto

lemma attempt_runs:
  assumes wf: "bs_wf t" and ok: "held_ok tel_held t" and u: "u \<in> set (bs_ual t)"
    and empty: "map_option ua_calls (bs_uas t u) = Some []"
  shows "runs (attempt env ac u t) (\<lambda>(e, t'). bs_wf t' \<and> held_ok tel_held t' \<and>
    (if e = 0 then agents t' = agents t \<and> (\<exists>c. g_call t' = Some c \<and> c \<in> dom (bs_calls t'))
     else bs_ual t' = filter (\<lambda>x. x \<noteq> u) (bs_ual t) \<and> bs_cur t' = bs_cur t))" (is "runs _ ?post")
proof -
  have ud: "u \<in> dom (bs_uas t)" using u bs_wf_ual [OF wf] by simp
  have fail: "runs (do { t \<leftarrow> ua_destructor event_listener u t1; Some (e, free_audio_call ac t) }) ?post"
    if "good tel_held t t1" "map_option ua_calls (bs_uas t1 u) = Some []" "e \<noteq> 0" for t1 e
  proof -
    have a: "bs_ual t1 = bs_ual t" "bs_cur t1 = bs_cur t" using that(1) by (simp_all add: good_def agents_def)
    have u1: "u \<in> dom (bs_uas t1)" using that(2) by auto
    have wf1: "bs_wf (t1\<lparr>bs_ual := bs_ual t1\<rparr>)" using good_wf [OF that(1)] by simp
    show ?thesis
      by (rule runs_bind [OF tl.ua_destructor_runs [OF wf1 refl u1 good_ok [OF that(1)]]])
        (use that(2,3) a in \<open>auto simp: held_ok_def tel_held_def intro: bs_wf_shape [of "free_audio_call ac _"]\<close>)
  qed
  have conn: "runs (do {
       (e, cp, t) \<leftarrow> ua_connect event_listener env u p t1;
       Some (e, if cp = None then t else t\<lparr>g_call := cp\<rparr>) })
     (\<lambda>(e, t2). bs_wf t2 \<and> held_ok tel_held t2 \<and> agents t2 = agents t \<and>
        (if e = 0 then \<exists>c. g_call t2 = Some c \<and> c \<in> dom (bs_calls t2)
         else good tel_held t t2 \<and> map_option ua_calls (bs_uas t2 u) = Some []))"
    if t1: "stays tel_held t t1" for t1 p
  proof (rule runs_bind [OF tl.ua_connect_good [OF stays_wf [OF t1 wf] stays_ok [OF t1]]], goal_cases)
    case 1
    show ?case using ud stays_uas [OF t1] by simp
  next
    case (2 x)
    obtain e cp t2 where x: "x = (e, cp, t2)" by (rule prod_cases3)
    note p2 = 2(2) [unfolded x prod.case]
    have g: "good tel_held t t2" using good_trans [OF stays_good [OF t1 wf]] p2 by blast
    have m: "map_option ua_calls (bs_uas t1 u) = Some []"
      using shape_ua [of t1 t u] t1 empty by (simp add: stays_def)
    show ?case
    proof (cases cp)
      case None
      then show ?thesis using g p2 m x by (simp add: good_def)
    next
      case (Some c)
      have "shape (t2\<lparr>g_call := Some c\<rparr>) = shape t2" by (simp add: shape_def)
      then have "bs_wf (t2\<lparr>g_call := Some c\<rparr>)" using good_wf [OF g] by (rule bs_wf_shape)
      then show ?thesis using Some g p2 x by (simp add: good_def agents_def held_ok_def tel_held_def)
    qed
  qed
  show ?thesis
    unfolding attempt_def
  proof (rule runs_bind [OF tl.ua_register_stays [OF ok ud]], clarify)
    fix e t1 assume t1: "stays tel_held t t1"
    let ?p = "case ac_peer ac of None \<Rightarrow> [] | Some p \<Rightarrow> p"
    show "runs (do {
       (e, t) \<leftarrow> (if e \<noteq> 0 then Some (e, t1)
          else do { (e, cp, t) \<leftarrow> ua_connect event_listener env u ?p t1;
                    Some (e, if cp = None then t else t\<lparr>g_call := cp\<rparr>) });
       t \<leftarrow> (if e \<noteq> 0 then ua_destructor event_listener u t else Some t);
       Some (e, free_audio_call ac t) }) ?post"
    proof (cases "e = 0")
      case False
      have "map_option ua_calls (bs_uas t1 u) = Some []"
        using shape_ua [of t1 t u] t1 empty by (simp add: stays_def)
      then show ?thesis using fail [OF stays_good [OF t1 wf] _ False] False by simp
    next
      case True
      show ?thesis
        unfolding True
      proof (simp only: simp_thms if_False, rule runs_bind [OF conn [OF t1]], clarify)
        fix e2 :: err and t2
        assume p: "bs_wf t2" "held_ok tel_held t2" "agents t2 = agents t"
          "if e2 = 0 then \<exists>c. g_call t2 = Some c \<and> c \<in> dom (bs_calls t2)
           else good tel_held t t2 \<and> map_option ua_calls (bs_uas t2 u) = Some []"
        show "runs (do { t \<leftarrow> (if e2 \<noteq> 0 then ua_destructor event_listener u t2 else Some t2);
            Some (e2, free_audio_call ac t) }) ?post"
        proof (cases "e2 = 0")
          case True
          have "bs_wf (free_audio_call ac t2)" by (rule bs_wf_shape [OF _ p(1)]) simp
          then show ?thesis using True p by (simp add: held_ok_def tel_held_def)
        next
          case False
          then show ?thesis using fail [of t2 e2] p(4) by simp
        qed
      qed
    qed
  qed
qed

lemma audioCall_inv:
  assumes inv: "tel_inv t" and env: "env_errs env" "accounts (aor ac) \<noteq> Inl 0" and ab: "\<not> aborted accounts env ac t"
  shows "runs (cmd_audioCall accounts env (Some ac) t) (\<lambda>(e, t'). tel_inv t' \<and>
    (e = 0 \<longrightarrow> (\<exists>c. g_call t' = Some c \<and> c \<in> dom (bs_calls t'))))"
proof -
  have wf: "bs_wf t" "held_ok tel_held t" "cur_valid t" using inv by (simp_all add: tel_inv_def)
  have env': "env_errs (env\<lparr>e_account := accounts (aor ac)\<rparr>)" using env by (simp add: env_errs_def)
  obtain e up t1 where al: "ua_alloc event_listener (env\<lparr>e_account := accounts (aor ac)\<rparr>) t = Some (e, up, t1)"
    and p: "bs_wf t1" "held_ok tel_held t1" "(e = 0) = (up \<noteq> None)"
      "case up of None \<Rightarrow> agents t1 = agents t
       | Some u \<Rightarrow> u \<notin> set (bs_ual t) \<and> bs_ual t1 = bs_ual t @ [u] \<and> map_option ua_calls (bs_uas t1 u) = Some [] \<and>
           bs_cur t1 = (if bs_cur t = None then Some u else bs_cur t)"
    using tl.ua_alloc_runs [OF wf(1,2) env'] by (auto simp: runs_def)
  show ?thesis
  proof (cases up)
    case None
    then have "tel_inv t1" using p cur_valid_agents [of t1 t] wf(3) by (simp add: tel_inv_def)
    then show ?thesis using al None p(3) by (simp add: cmd_audioCall_def)
  next
    case (Some u)
    have u: "u \<in> set (bs_ual t1)" "map_option ua_calls (bs_uas t1 u) = Some []" using p(4) Some by simp_all
    obtain e2 t2 where at: "attempt env ac u t1 = Some (e2, t2)" and q: "bs_wf t2" "held_ok tel_held t2"
      "if e2 = 0 then agents t2 = agents t1 \<and> (\<exists>c. g_call t2 = Some c \<and> c \<in> dom (bs_calls t2))
       else bs_ual t2 = filter (\<lambda>x. x \<noteq> u) (bs_ual t1) \<and> bs_cur t2 = bs_cur t1"
      using attempt_runs [OF p(1,2) u, of env ac] by (auto simp: runs_def)
    have r: "cmd_audioCall accounts env (Some ac) t = Some (e2, t2)"
      using al at Some by (simp add: cmd_audioCall_def)
    have "e2 = 0 \<or> bs_cur t \<noteq> None" using ab al r Some by (auto simp: aborted_def)
    then have "cur_valid t2"
      using q(3) p(4) Some wf(3) by (auto simp: cur_valid_def agents_def split: if_splits option.splits)
    then show ?thesis using r q by (auto simp: tel_inv_def split: if_splits)
  qed
qed

lemma step_inv:
  assumes inv: "tel_inv t" and ok: "benign x t"
  shows "runs (tel_step x t) tel_inv"
proof (cases x)
  case (I_Push e i data)
  have "tel_inv (telephony_cmd e i data t)"
    by (rule inv_frame [OF inv]) (simp_all add: telephony_cmd_def mqueue_push_def shape_def)
  then show ?thesis using I_Push by simp
next
  case (I_Net env ev)
  then show ?thesis using deliver_inv [OF inv, of ev env] ok by (auto split: option.splits)
next
  case (I_Message accounts env)
  show ?thesis
  proof (cases "g_msgs t")
    case Nil
    then show ?thesis using I_Message inv by (simp add: mqueue_event_def)
  next
    case (Cons m ms)
    obtain i data where m: "m = (i, data)" by fastforce
    have t: "tel_inv (t\<lparr>g_msgs := ms\<rparr>)" by (rule inv_frame [OF inv]) (simp_all add: shape_def)
    have "runs (mqueue_handler accounts env i data (t\<lparr>g_msgs := ms\<rparr>)) tel_inv"
    proof -
      consider (call) ac where "i = CMD_AUDIO_CALL" "data = Some ac" | (null) "i = CMD_AUDIO_CALL" "data = None"
        | (hup) "i = CMD_HANGUP" | (stop) "i = CMD_STOP" | (other) "i \<notin> {CMD_AUDIO_CALL, CMD_HANGUP, CMD_STOP}"
        by (cases data) auto
      then show ?thesis
      proof cases
        case call
        then have "\<not> aborted accounts env ac (t\<lparr>g_msgs := ms\<rparr>)" "env_errs env" "accounts (aor ac) \<noteq> Inl 0"
          using ok I_Message Cons m by simp_all
        from audioCall_inv [OF t this(2,3,1)] show ?thesis
          using call by (auto simp: mqueue_handler_def intro!: runs_map elim: runs_mono)
      next
        case null
        then show ?thesis using t by (simp add: mqueue_handler_def cmd_audioCall_def)
      next
        case hup
        then show ?thesis using hangup_inv [OF t] by (simp add: mqueue_handler_def CMD_HANGUP_def CMD_AUDIO_CALL_def)
      next
        case stop
        have "tel_inv (t\<lparr>g_msgs := ms, t_cancel := True\<rparr>)" by (rule inv_frame [OF inv]) (simp_all add: shape_def)
        then show ?thesis
          using stop by (simp add: mqueue_handler_def CMD_HANGUP_def CMD_AUDIO_CALL_def CMD_STOP_def)
      next
        case other
        then show ?thesis using t by (simp add: mqueue_handler_def)
      qed
    qed
    then show ?thesis using I_Message Cons m by (simp add: mqueue_event_def)
  qed
qed

text \<open>The main loop takes inputs until it is cancelled.\<close>

fun tel_run :: "tel_input list \<Rightarrow> tel \<Rightarrow> tel option" where
  "tel_run [] t = Some t"
| "tel_run (x # xs) t = (if t_cancel t then Some t else do { t \<leftarrow> tel_step x t; tel_run xs t })"

fun benign_run :: "tel_input list \<Rightarrow> tel \<Rightarrow> bool" where
  "benign_run [] t \<longleftrightarrow> True"
| "benign_run (x # xs) t \<longleftrightarrow> t_cancel t \<or>
     benign x t \<and> (case tel_step x t of None \<Rightarrow> True | Some t' \<Rightarrow> benign_run xs t')"

lemma run_inv: "tel_inv t \<Longrightarrow> benign_run xs t \<Longrightarrow> runs (tel_run xs t) tel_inv"
proof (induction xs arbitrary: t)
  case (Cons x xs)
  show ?case
  proof (cases "t_cancel t")
    case True
    then show ?thesis using Cons.prems by simp
  next
    case False
    then have b: "benign x t" using Cons.prems by simp
    have "runs (do { t \<leftarrow> tel_step x t; tel_run xs t }) tel_inv"
      by (rule runs_bind [OF step_inv [OF Cons.prems(1) b]]) (use Cons False in auto)
    then show ?thesis using False by simp
  qed
qed simp

lemma tel_done_runs:
  assumes "bs_wf t"
  shows "runs (tel_done t) (\<lambda>t'. bs_uas t' = Map.empty \<and> bs_calls t' = Map.empty)"
proof -
  let ?t = "uag_event_unregister (t\<lparr>g_call := None, g_queue := False, g_msgs := []\<rparr>)"
  have "shape ?t = shape t" by (simp add: uag_event_unregister_def shape_def)
  then have wf: "bs_wf ?t" using assms by (rule bs_wf_shape)
  show ?thesis
    unfolding tel_done_def by (rule runs_bind [OF quiet.ua_stop_all_runs [OF wf]]) simp_all
qed

lemma quiet_stop_fields:
  "call_deref c t = Some t' \<Longrightarrow> tel.more t' = tel.more t \<and> g_call t' = g_call t \<and> g_queue t' = g_queue t \<and>
     t_listening t' = t_listening t \<and> t_trace t' = t_trace t \<and> g_msgs t' = g_msgs t"
  by (auto simp: call_deref_def split: bind_splits)

lemma flush_fields:
  "list_flush_calls cs t = Some t' \<Longrightarrow> g_call t' = g_call t \<and> g_queue t' = g_queue t \<and>
     t_listening t' = t_listening t \<and> t_trace t' = t_trace t \<and> g_msgs t' = g_msgs t"
proof (induction cs arbitrary: t)
  case (Cons c cs)
  then show ?case by (auto split: bind_splits dest!: quiet_stop_fields)
qed simp

lemma destructor_fields:
  "ua_destructor no_listener u t = Some t' \<Longrightarrow> g_call t' = g_call t \<and> g_queue t' = g_queue t \<and>
     t_listening t' = t_listening t \<and> t_trace t' = t_trace t \<and> g_msgs t' = g_msgs t"
  by (auto simp: ua_destructor_def no_listener_def Let_def split: bind_splits if_splits dest!: flush_fields)

lemma destroy_fields:
  "ua_destroy no_listener u t = Some t' \<Longrightarrow> g_call t' = g_call t \<and> g_queue t' = g_queue t \<and>
     t_listening t' = t_listening t \<and> t_trace t' = t_trace t \<and> g_msgs t' = g_msgs t"
  by (simp add: ua_destroy_def no_listener_def split: bind_splits)
    (drule destructor_fields, drule flush_fields, simp)

lemma destroy_all_fields:
  "ua_destroy_all no_listener us t = Some t' \<Longrightarrow> g_call t' = g_call t \<and> g_queue t' = g_queue t \<and>
     t_listening t' = t_listening t \<and> t_trace t' = t_trace t \<and> g_msgs t' = g_msgs t"
proof (induction us arbitrary: t)
  case (Cons u us)
  then show ?case by (auto split: bind_splits dest!: destroy_fields)
qed simp

definition shut_down :: "tel_call list" where
  "shut_down = [T_ua_close, T_conf_close, T_baresip_close, T_mod_close, T_libre_close]"

lemma tel_done_fields:
  "tel_done t = Some t' \<Longrightarrow> g_call t' = None \<and> \<not> g_queue t' \<and> \<not> t_listening t' \<and> g_msgs t' = [] \<and>
     t_trace t' = t_trace t @ shut_down"
  by (auto simp: tel_done_def ua_stop_all_def uag_event_unregister_def shut_down_def split: bind_splits
      dest!: destroy_all_fields)

lemma init_runs:
  assumes "telephony_init ie (tel_start android) = Some (0, t)"
  shows "tel_inv t"
proof (rule inv_frame [OF tel_inv_start])
  show "shape t = shape (tel_start android)" "g_call t = g_call (tel_start android)"
    using assms by (auto simp: telephony_init_def Let_def failed_def traced_def uag_event_register_def
        uag_event_unregister_def mqueue_alloc_def shape_def split: if_splits)
qed

section \<open>Properties\<close>

text \<open>
  C8: the module is safe as long as no transfer of its own call fails and no first call attempt is
  aborted. After \<open>telephony_init\<close>, any sequence of commands from the other thread, messages
  and events of baresip with those two exceptions runs without touching a freed call or user agent,
  \<open>g_call\<close> is NULL or points to an allocated call all along, and the end of the main loop
  frees every call and user agent and leaves no listener, no queue and no pointer behind.
\<close>

theorem telephony_safe:
  assumes "telephony_init ie (tel_start android) = Some (0, t0)" "benign_run xs t0"
  shows "\<exists>t1 t2. tel_run xs t0 = Some t1 \<and> (\<forall>c. g_call t1 = Some c \<longrightarrow> c \<in> dom (bs_calls t1)) \<and>
    telephony_mainLoop main_err t1 = Some (main_err, t2) \<and> bs_calls t2 = Map.empty \<and> bs_uas t2 = Map.empty \<and>
    g_call t2 = None \<and> \<not> t_listening t2 \<and> \<not> g_queue t2"
proof -
  from run_inv [OF init_runs [OF assms(1)] assms(2)]
  obtain t1 where t1: "tel_run xs t0 = Some t1" "tel_inv t1" by (auto simp: runs_def)
  from tel_done_runs [of t1] t1(2)
  obtain t2 where t2: "tel_done t1 = Some t2" "bs_uas t2 = Map.empty" "bs_calls t2 = Map.empty"
    by (auto simp: runs_def tel_inv_def)
  show ?thesis
    using t1 t2 tel_done_fields [OF t2(1)]
    by (intro exI [of _ t1] exI [of _ t2])
      (auto simp: telephony_mainLoop_def failed_def tel_inv_def held_ok_def tel_held_def)
qed

text \<open>A call that is made, rings and is ended by the peer.\<close>

definition demo_account :: account where
  "demo_account = \<lparr>a_regint = 3600, a_outbound = False, a_outboundv = [], a_mnat = False,
     a_answermode = ANSWERMODE_MANUAL\<rparr>"

definition demo_env :: env where
  "demo_env = \<lparr>e_mem = True, e_cuser = 0, e_regs = 8, e_params = True, e_dial = True, e_call = True, e_uuid = False,
     e_account = Inr demo_account, e_reg = (\<lambda>_. 0), e_uri = 0, e_media = 0,
     e_peer = Inr ''sip:b'', e_sdp = 0, e_sess = 0, e_callid = Inr ''id1'', e_ready = True\<rparr>"

definition demo_ac :: audio_call where
  "demo_ac = \<lparr>ac_host = Some ''h'', ac_port = 5060, ac_transport = Some ''udp'', ac_account = Some ''A'',
     ac_user = Some ''a'', ac_passw = Some ''p'', ac_peer = Some ''b''\<rparr>"

definition demo_init :: init_env where
  "demo_init = \<lparr>i_libre = 0, i_conf = 0, i_baresip = 0, i_modules = 0, i_ua = 0, i_mem = True, i_pipe = 0\<rparr>"

definition demo_t0 :: tel where
  "demo_t0 = snd (the (telephony_init demo_init (tel_start True)))"

lemma demo_init_ok: "telephony_init demo_init (tel_start True) = Some (0, demo_t0)"
  by (simp add: demo_t0_def demo_init_def telephony_init_def Let_def uag_event_register_def mqueue_alloc_def)

definition demo_run :: "tel_input list" where
  "demo_run = [I_Push 0 CMD_AUDIO_CALL (Some demo_ac), I_Message (\<lambda>_. Inr demo_account) demo_env,
     I_Net demo_env (N_Progress False 180 1), I_Net demo_env (N_Close 0 (Some 486) 1)]"

lemma benign_demo: "benign_run demo_run demo_t0"
  by code_simp

lemma telephony_safe_witness:
  "\<exists>t1 t2. tel_run demo_run demo_t0 = Some t1 \<and> telephony_mainLoop 0 t1 = Some (0, t2) \<and> bs_calls t2 = Map.empty"
  using telephony_safe [OF demo_init_ok benign_demo, of 0] by blast

subsection \<open>Calls whose user agent is gone\<close>

lemma event_listener_shape: "event_listener ev cp t = Some t' \<Longrightarrow> shape t' = shape t"
  by (auto simp: event_listener_def shape_def split: bind_splits if_splits)
    (simp_all add: notifyEvent_def kn_event_bridge_def Let_def)

lemma event_listener_next: "event_listener ev cp t = Some t' \<Longrightarrow> bs_next t' = bs_next t \<and> t_blocks t' = t_blocks t"
  using event_listener_shape [of ev cp t t']
  by (auto simp: event_listener_def shape_def split: bind_splits if_splits)

lemma upd_call_next: "upd_call c f t = Some t' \<Longrightarrow> bs_next t' = bs_next t \<and> t_blocks t' = t_blocks t"
  by (auto simp: upd_call_def)

lemma call_deref_next: "call_deref c t = Some t' \<Longrightarrow> bs_next t' = bs_next t \<and> t_blocks t' = t_blocks t"
  by (auto simp: call_deref_def split: bind_splits)

lemma flush_next: "list_flush_calls cs t = Some t' \<Longrightarrow> bs_next t' = bs_next t \<and> t_blocks t' = t_blocks t"
proof (induction cs arbitrary: t)
  case (Cons c cs)
  then show ?case by (auto split: bind_splits dest!: call_deref_next)
qed simp

lemmas next_dests = event_listener_next upd_call_next call_deref_next flush_next

lemma destructor_next: "ua_destructor event_listener u t = Some t' \<Longrightarrow> bs_next t' = bs_next t \<and> t_blocks t' = t_blocks t"
  by (auto simp: ua_destructor_def Let_def split: bind_splits if_splits dest!: next_dests)

lemma call_connect_next: "call_connect event_listener env c t = Some (e, t') \<Longrightarrow> bs_next t' = bs_next t \<and> t_blocks t' = t_blocks t"
  by (auto simp: call_connect_def send_invite_def split: bind_splits if_splits sum.splits dest!: next_dests)

lemma call_alloc_next: "call_alloc env u t = Some (e, cp, t') \<Longrightarrow> bs_next t \<le> bs_next t' \<and> t_blocks t' = t_blocks t"
  by (auto simp: call_alloc_def Let_def split: bind_splits if_splits option.splits)

lemma ua_connect_next: "ua_connect event_listener env u p t = Some (e, cp, t') \<Longrightarrow> bs_next t \<le> bs_next t' \<and> t_blocks t' = t_blocks t"
  by (auto simp: ua_connect_def split: bind_splits if_splits option.splits
      dest!: call_alloc_next call_connect_next call_deref_next)

lemma ua_register_next: "ua_register event_listener env u t = Some (e, t') \<Longrightarrow> bs_next t' = bs_next t \<and> t_blocks t' = t_blocks t"
  by (auto simp: ua_register_def Let_def split: bind_splits if_splits prod.splits dest!: next_dests)

lemma attempt_next:
  assumes "attempt env ac u t = Some (e, t')"
  shows "bs_next t \<le> bs_next t' \<and> t_blocks t' = t_blocks t - blocks ac"
proof -
  obtain e1 t1 where r: "ua_register event_listener env u t = Some (e1, t1)"
    using assms by (auto simp: attempt_def split: bind_splits)
  note n1 = ua_register_next [OF r]
  have fin: "bs_next t' = bs_next t2 \<and> t_blocks t' = t_blocks t2 - blocks ac"
    if "do { t \<leftarrow> (if e2 \<noteq> 0 then ua_destructor event_listener u t2 else Some t2); Some (e2, free_audio_call ac t) } = Some (e, t')"
    for e2 t2
    using that by (auto simp: free_audio_call_def split: bind_splits if_splits dest!: destructor_next)
  show ?thesis
  proof (cases "e1 = 0")
    case False
    then show ?thesis using assms r n1 fin [of e1 t1] by (simp add: attempt_def)
  next
    case True
    then obtain e2 cp t2 where c: "ua_connect event_listener env u (case ac_peer ac of None \<Rightarrow> [] | Some p \<Rightarrow> p) t1 = Some (e2, cp, t2)"
      using assms r by (auto simp: attempt_def split: bind_splits)
    show ?thesis
      using assms r c True n1 ua_connect_next [OF c] fin [of e2 "if cp = None then t2 else t2\<lparr>g_call := cp\<rparr>"]
      by (auto simp: attempt_def split: if_splits)
  qed
qed

lemma ua_alloc_new:
  assumes "ua_alloc eh env t = Some (e, Some u, t')"
  shows "u = bs_next t \<and> bs_next t' = Suc (bs_next t)"
  using assms by (auto simp: ua_alloc_def Let_def split: bind_splits if_splits sum.splits prod.splits)

lemma hangup_freed_agent:
  assumes "uag_current t = Some u" "u \<notin> dom (bs_uas t)" "bs_wf t" "held_ok tel_held t"
  shows "cmd_hangup t = None"
proof -
  have "ua_hangup event_listener (Some u) (g_call t) t = None"
  proof (cases "g_call t")
    case None
    then show ?thesis using assms(2) by (simp add: ua_hangup_def ua_call_def domIff)
  next
    case (Some c)
    have d: "bs_uas t' u = None" if "stays tel_held t t1" "dom (bs_uas t') = dom (bs_uas t1)" for t1 t' :: tel
      using that assms(2) stays_uas [OF that(1)] by auto
    have c: "c \<in> dom (bs_calls t)" using Some assms(4) by (simp add: held_ok_def tel_held_def)
    have "Option.bind (call_hangup c t) (\<lambda>s. Option.bind (event_listener UA_EVENT_CALL_CLOSED (Some c) s)
        (\<lambda>s. Option.bind (call_deref c s) (resume_call u))) = None" (is "?m = None")
    proof (rule ccontr)
      assume "?m \<noteq> None"
      then obtain t1 t2 t3 t4 where m: "call_hangup c t = Some t1" "event_listener UA_EVENT_CALL_CLOSED (Some c) t1 = Some t2"
        "call_deref c t2 = Some t3" "resume_call u t3 = Some t4"
        by (auto split: bind_splits)
      have s1: "stays tel_held t t1"
        using runsD [OF tl.upd_stays [OF assms(4) c] m(1) [unfolded call_hangup_def]] by (simp add: call_stream_stop_def)
      have s2: "stays tel_held t t2" using runsD [OF tl.listen_end [OF s1] m(2)] .
      have "c \<in> dom (bs_calls t2)" using stays_calls [OF s2] c by simp
      from runsD [OF call_deref_runs [OF stays_wf [OF s2 assms(3)] this] m(3)]
      have "bs_uas t3 u = None" using d [OF s2, of t3] by blast
      then show False using m(4) by (simp add: resume_call_def)
    qed
    then show ?thesis using Some by (simp add: ua_hangup_def)
  qed
  then show ?thesis using assms(1) by (simp add: cmd_hangup_def)
qed

text \<open>
  C9: a first call attempt that is aborted makes a later hang-up use freed memory. If the first user
  agent is freed because registering or connecting failed (an empty number is enough),
  \<open>ua_destructor\<close> leaves the pointer to the current user agent as it is; the next attempt does
  not replace it, as \<open>ua_alloc\<close> puts its user agent on the list before it asks
  \<open>uag_current\<close>; and then \<open>cmd_hangup\<close>, the only way to end a call, accesses the freed one.
\<close>

theorem hangup_after_aborted_call:
  assumes "tel_inv t" "aborted acc1 env1 ac1 t" "env_errs env1" "acc1 (aor ac1) \<noteq> Inl 0"
    "cmd_audioCall acc1 env1 (Some ac1) t = Some (e1, t1)"
    "cmd_audioCall acc2 env2 (Some ac2) t1 = Some (0, t2)" "env_errs env2" "acc2 (aor ac2) \<noteq> Inl 0"
  shows "\<exists>u. bs_cur t2 = Some u \<and> bs_uas t2 u = None \<and> (\<exists>c. g_call t2 = Some c \<and> c \<in> dom (bs_calls t2)) \<and>
    cmd_hangup t2 = None"
proof -
  have wf: "bs_wf t" "held_ok tel_held t" "cur_valid t" using assms(1) by (simp_all add: tel_inv_def)
  have ev: "env_errs (env1\<lparr>e_account := acc1 (aor ac1)\<rparr>)" "env_errs (env2\<lparr>e_account := acc2 (aor ac2)\<rparr>)"
    using assms by (simp_all add: env_errs_def)
  have cur: "bs_cur t = None" "bs_ual t = []" using assms(2) wf(3) by (simp_all add: aborted_def cur_valid_def)
  have e1: "e1 \<noteq> 0" using assms(2,5) by (simp add: aborted_def)
  obtain ea u ta where al: "ua_alloc event_listener (env1\<lparr>e_account := acc1 (aor ac1)\<rparr>) t = Some (ea, Some u, ta)"
    using assms(2) by (auto simp: aborted_def split: option.splits prod.splits)
  note pa = runsD [OF tl.ua_alloc_runs [OF wf(1,2) ev(1)] al, simplified]
  have at: "attempt env1 ac1 u ta = Some (e1, t1)" using assms(5) al by (simp add: cmd_audioCall_def)
  have un: "u < bs_next ta" "u = bs_next t" using ua_alloc_new [OF al] by simp_all
  have ua: "u \<in> set (bs_ual ta)" "map_option ua_calls (bs_uas ta u) = Some []" using pa by auto
  have pb: "bs_wf t1" "held_ok tel_held t1" "bs_ual t1 = []" "bs_cur t1 = Some u"
    using runsD [OF attempt_runs [OF _ _ ua] at] pa cur e1 by simp_all
  have n1: "u < bs_next t1" using un(1) attempt_next [OF at] by simp
  obtain eb v tb where bl: "ua_alloc event_listener (env2\<lparr>e_account := acc2 (aor ac2)\<rparr>) t1 = Some (eb, Some v, tb)"
  proof -
    obtain eb up tb where bl: "ua_alloc event_listener (env2\<lparr>e_account := acc2 (aor ac2)\<rparr>) t1 = Some (eb, up, tb)"
      using assms(6) by (auto simp: cmd_audioCall_def split: bind_splits)
    have "(eb = 0) = (up \<noteq> None)" using runsD [OF tl.ua_alloc_runs [OF pb(1,2) ev(2)] bl] by simp
    then show ?thesis using that assms(6) bl by (cases up) (auto simp: cmd_audioCall_def)
  qed
  note pc = runsD [OF tl.ua_alloc_runs [OF pb(1,2) ev(2)] bl, simplified]
  have v: "v \<noteq> u" using ua_alloc_new [OF bl] n1 by simp
  have at2: "attempt env2 ac2 v tb = Some (0, t2)" using assms(6) bl by (simp add: cmd_audioCall_def)
  have vb: "v \<in> set (bs_ual tb)" "map_option ua_calls (bs_uas tb v) = Some []" using pc by auto
  have pd: "bs_wf t2" "held_ok tel_held t2" "agents t2 = agents tb" "\<exists>c. g_call t2 = Some c \<and> c \<in> dom (bs_calls t2)"
    using runsD [OF attempt_runs [OF _ _ vb] at2] pc by simp_all
  have ag: "bs_ual t2 = [v]" "bs_cur t2 = Some u" using pd(3) pc pb(3,4) by (simp_all add: agents_def)
  then have "u \<notin> dom (bs_uas t2)" using bs_wf_ual [OF pd(1)] v by auto
  moreover have "uag_current t2 = Some u" using ag by (simp add: uag_current_def)
  ultimately show ?thesis using hangup_freed_agent [of t2 u] pd ag by auto
qed

lemma demo_t0_inv: "tel_inv demo_t0"
  by (rule init_runs [OF demo_init_ok])

lemma hangup_after_aborted_call_witness:
  "\<exists>t1 t2. cmd_audioCall (\<lambda>_. Inr demo_account) demo_env (Some (demo_ac\<lparr>ac_peer := None\<rparr>)) demo_t0 = Some (EINVAL, t1) \<and>
     cmd_audioCall (\<lambda>_. Inr demo_account) demo_env (Some demo_ac) t1 = Some (0, t2) \<and> cmd_hangup t2 = None"
proof -
  let ?a = "cmd_audioCall (\<lambda>_. Inr demo_account) demo_env (Some (demo_ac\<lparr>ac_peer := None\<rparr>)) demo_t0"
  have a: "?a \<noteq> None \<and> fst (the ?a) = EINVAL" by code_simp
  then obtain t1 where t1: "?a = Some (EINVAL, t1)" by auto
  have "let b = cmd_audioCall (\<lambda>_. Inr demo_account) demo_env (Some demo_ac) (snd (the ?a)) in b \<noteq> None \<and> fst (the b) = 0"
    by code_simp
  then obtain t2 where t2: "cmd_audioCall (\<lambda>_. Inr demo_account) demo_env (Some demo_ac) t1 = Some (0, t2)"
    using t1 by (auto simp: Let_def)
  have ab: "aborted (\<lambda>_. Inr demo_account) demo_env (demo_ac\<lparr>ac_peer := None\<rparr>) demo_t0" by code_simp
  have "env_errs demo_env" by (simp add: env_errs_def demo_env_def)
  from hangup_after_aborted_call [OF demo_t0_inv ab this _ t1 t2 this] t1 t2 show ?thesis by auto
qed

subsection \<open>Calls that end behind the module's back\<close>

text \<open>
  C10: a failed transfer of the current call leaves \<open>g_call\<close> dangling. When the peer asks for a
  transfer (REFER) of the call \<open>g_call\<close> points to and the subscription that comes with it ends with
  an error or a status of 300 or more, baresip frees the call with CALL\_TRANSFER\_FAILED, which
  \<open>event_listener\<close> ignores: \<open>g_call\<close> keeps pointing to the freed call, and the next hang-up
  command, CALL\_RINGING or CALL\_CLOSED event accesses it.
\<close>

theorem transfer_failure_dangles:
  assumes "tel_inv t" "g_call t = Some c" "transfer_fails ev c" "c_peer_uri (the (bs_calls t c)) \<noteq> None"
  shows "\<exists>t'. deliver event_listener env ev t = Some t' \<and> g_call t' = Some c \<and> bs_calls t' c = None \<and>
    cmd_hangup t' = None \<and> event_listener UA_EVENT_CALL_RINGING cp t' = None \<and>
    event_listener UA_EVENT_CALL_CLOSED cp t' = None"
proof -
  have wf: "bs_wf t" "held_ok tel_held t" "cur_valid t" using assms(1) by (simp_all add: tel_inv_def)
  obtain call where call: "bs_calls t c = Some call" using wf(2) assms(2) by (auto simp: held_ok_def tel_held_def)
  obtain ua where ua: "bs_uas t (c_ua call) = Some ua" using bs_wf_call [OF wf(1) call] by blast
  obtain e msg where ev: "ev = N_Refer_End e msg c" "e \<noteq> 0 \<or> (case msg of None \<Rightarrow> False | Some scode \<Rightarrow> 300 \<le> scode)"
    using assms(3) by (auto simp: transfer_fails_def split: net_event.splits)
  let ?t1 = "t\<lparr>bs_calls := (bs_calls t)(c \<mapsto> call\<lparr>c_not := False\<rparr>)\<rparr>"
  let ?t2 = "notifyEvent UA_EVENT_CALL_TRANSFER_FAILED 0 None ?t1"
  have "shape ?t1 = shape t" using call by (auto simp: shape_def fun_eq_iff)
  then have sh: "shape ?t2 = shape t" by simp
  have wf2: "bs_wf ?t2" using bs_wf_shape [OF sh wf(1)] .
  have "c \<in> dom (bs_calls ?t2)" by simp
  from call_deref_runs [OF wf2 this]
  obtain t' where t': "call_deref c ?t2 = Some t'" "agents t' = agents ?t2" "baresip.more t' = baresip.more ?t2"
    "dom (bs_calls t') = dom (bs_calls ?t2) - {c}" "bs_wf t'"
    by (auto simp: runs_def)
  have "deliver event_listener env ev t = Some t'"
    using ev call assms(4) t'(1)
    by (auto simp: sipnot_close_handler_def ua_call_event_handler_def upd_call_def event_listener_def)
  moreover have g: "g_call t' = Some c" using tel_more [OF t'(3)] assms(2) by simp
  moreover have n: "bs_calls t' c = None" using t'(4) by auto
  moreover have "event_listener UA_EVENT_CALL_RINGING cp t' = None" "event_listener UA_EVENT_CALL_CLOSED cp t' = None"
    using g n by (simp_all add: event_listener_def call_id_def call_scode_def)
  moreover have "cmd_hangup t' = None"
  proof -
    have "agents t' = agents t" using t'(2) shape_agents [OF sh] by simp
    moreover have "bs_ual t \<noteq> []" using ua bs_wf_ual [OF wf(1)] by auto
    ultimately obtain u where "uag_current t' = Some u"
      using wf(3) by (auto simp: agents_def uag_current_def cur_valid_def split: option.splits)
    then show ?thesis using g n by (simp add: cmd_hangup_def ua_hangup_def call_hangup_def upd_call_def)
  qed
  ultimately show ?thesis by blast
qed

definition demo_call :: tel where
  "demo_call = snd (the (cmd_audioCall (\<lambda>_. Inr demo_account) demo_env (Some demo_ac) demo_t0))"

lemma demo_call_facts: "g_call demo_call = Some 1 \<and> c_peer_uri (the (bs_calls demo_call 1)) = Some ''sip:b'' \<and>
    \<not> aborted (\<lambda>_. Inr demo_account) demo_env demo_ac demo_t0"
  by code_simp

lemma demo_call_inv: "tel_inv demo_call"
proof -
  have "env_errs demo_env" by (simp add: env_errs_def demo_env_def)
  from audioCall_inv [OF demo_t0_inv this _ demo_call_facts [THEN conjunct2, THEN conjunct2]]
  show ?thesis by (auto simp: demo_call_def runs_def)
qed

lemma transfer_failure_dangles_witness:
  "\<exists>t'. deliver event_listener demo_env (N_Refer_End ETIMEDOUT None 1) demo_call = Some t' \<and> cmd_hangup t' = None"
  using transfer_failure_dangles [OF demo_call_inv, of 1 "N_Refer_End ETIMEDOUT None 1" demo_env] demo_call_facts
  by (auto simp: transfer_fails_def)

text \<open>A hang-up without \<open>g_call\<close> spares the calls of other user agents.\<close>

lemma upd_call_dom: "upd_call c f t = Some t' \<Longrightarrow> dom (bs_calls t') = dom (bs_calls t)"
  by (auto simp: upd_call_def split: if_splits)

lemma event_listener_dom: "event_listener ev cp t = Some t' \<Longrightarrow> dom (bs_calls t') = dom (bs_calls t)"
  by (rule shape_dom_calls, rule event_listener_shape)

lemma resume_call_dom: "resume_call u t = Some t' \<Longrightarrow> dom (bs_calls t') = dom (bs_calls t)"
  by (auto simp: resume_call_def call_hold_def simp del: domIff split: bind_splits option.splits if_splits dest!: upd_call_dom)

lemma call_deref_dom: "call_deref d t = Some t' \<Longrightarrow> dom (bs_calls t') = dom (bs_calls t) - {d}"
  by (auto simp: call_deref_def split: bind_splits if_splits)

lemma unregister_dom: "ua_unregister event_listener u t = Some t' \<Longrightarrow> dom (bs_calls t') = dom (bs_calls t)"
  by (auto simp: ua_unregister_def split: bind_splits option.splits if_splits dest!: event_listener_dom) blast+

lemma hangup_spares:
  assumes inv: "tel_inv t" and g: "g_call t = None" and u: "uag_current t = Some u" "bs_uas t u = Some ua"
    and c: "c \<in> dom (bs_calls t)" "c \<notin> set (ua_calls ua)"
  shows "\<exists>t'. cmd_hangup t = Some t' \<and> c \<in> dom (bs_calls t')"
proof -
  obtain t' t1 where t': "cmd_hangup t = Some t'" "ua_hangup event_listener (Some u) None t = Some t1"
      "ua_unregister event_listener (Some u) t1 = Some t'"
    using hangup_inv [OF inv] g u(1) by (auto simp: runs_def cmd_hangup_def Let_def split: bind_splits)
  have "c \<in> dom (bs_calls t1)"
  proof (cases "ua_calls ua = []")
    case True
    then show ?thesis using t'(2) u(2) c(1) by (simp add: ua_hangup_def ua_call_def)
  next
    case False
    then have "c \<noteq> last (ua_calls ua)" using c(2) by auto
    then show ?thesis
      using t'(2) u(2) c(1) False
      by (auto simp: ua_hangup_def ua_call_def call_hangup_def simp del: domIff split: bind_splits
          dest!: upd_call_dom event_listener_dom call_deref_dom resume_call_dom) blast
  qed
  then show ?thesis using t'(1) unregister_dom [OF t'(3)] by blast
qed

lemma resume_call_owner: "resume_call u t = Some t' \<Longrightarrow> map_option c_ua (bs_calls t' c) = map_option c_ua (bs_calls t c)"
  by (auto simp: resume_call_def call_hold_def upd_call_def split: bind_splits option.splits if_splits)

lemma call_deref_other: "call_deref d t = Some t' \<Longrightarrow> c \<noteq> d \<Longrightarrow> bs_calls t' c = bs_calls t c"
  by (auto simp: call_deref_def split: bind_splits)

text \<open>What \<open>notifyEvent\<close> writes: to the application on Android, to the callback where one is set.\<close>

definition notified :: "tel \<Rightarrow> ua_event \<Rightarrow> u16 \<Rightarrow> string option \<Rightarrow> notification list" where
  "notified t ev scode callId = (if t_android t then [N_Jni ev scode callId] else []) @
     (if g_event_callback t \<and> g_kn_handler t then [N_Kn ev scode callId] else [])"

lemma notifyEvent_log: "t_log (notifyEvent ev scode callId t) = t_log t @ notified t ev scode callId"
  by (simp add: notifyEvent_def kn_event_bridge_def notified_def Let_def)

text \<open>The events that end a call through \<open>CALL_EVENT_CLOSED\<close>, and what the application is told before.\<close>

definition ends :: "net_event \<Rightarrow> nat \<Rightarrow> bool" where
  "ends ev c = (case ev of N_Close e msg d \<Rightarrow> d = c | N_Timeout d \<Rightarrow> d = c | N_Mnat blocked e scode d \<Rightarrow> d = c \<and> (e \<noteq> 0 \<or> scode \<noteq> 0)
     | N_Stream_Error d \<Rightarrow> d = c | N_Audio_Error d \<Rightarrow> d = c | _ \<Rightarrow> False)"

definition told_before :: "tel \<Rightarrow> net_event \<Rightarrow> notification list" where
  "told_before t ev = (case ev of N_Audio_Error d \<Rightarrow> notified t UA_EVENT_AUDIO_ERROR 0 None | _ \<Rightarrow> [])"

lemma close_confuses:
  assumes wf: "bs_wf t" and g: "g_call t = Some c" and c: "bs_calls t c = Some call" "bs_calls t c' = Some call'" "c' \<noteq> c"
    and p: "c_peer_uri call' \<noteq> None"
  shows "\<exists>t'. ua_call_event_handler event_listener env blocked c' CALL_EVENT_CLOSED t = Some t' \<and> g_call t' = None \<and>
    c' \<notin> dom (bs_calls t') \<and> map_option c_ua (bs_calls t' c) = Some (c_ua call) \<and>
    t_log t' = t_log t @ notified t UA_EVENT_CALL_CLOSED (c_scode call) None \<and> agents t' = agents t"
proof -
  let ?t2 = "notifyEvent UA_EVENT_CALL_CLOSED (c_scode call) None (t\<lparr>g_call := None\<rparr>)"
  have "shape (t\<lparr>g_call := None\<rparr>) = shape t" by (simp add: shape_def)
  then have sh: "shape ?t2 = shape t" by simp
  have wf2: "bs_wf ?t2" using bs_wf_shape [OF sh wf] .
  have "c' \<in> dom (bs_calls ?t2)" using c(2) by auto
  from call_deref_runs [OF wf2 this]
  obtain t3 where t3: "call_deref c' ?t2 = Some t3" "agents t3 = agents ?t2" "baresip.more t3 = baresip.more ?t2"
    "dom (bs_calls t3) = dom (bs_calls ?t2) - {c'}" "dom (bs_uas t3) = dom (bs_uas ?t2)" "bs_wf t3"
    by (auto simp: runs_def)
  have m: "g_call t3 = None \<and> t_log t3 = t_log ?t2"
    using tel_more [OF t3(3)] tel_more_log [OF t3(3)] by simp
  have u: "c_ua call' \<in> dom (bs_uas t3)"
    using bs_wf_call [OF wf c(2)] t3(5) shape_dom_uas [OF sh] by auto
  have ok3: "held_ok tel_held t3" using m by (simp add: held_ok_def tel_held_def)
  from tl.resume_good [OF t3(6) ok3 u]
  obtain t4 where t4: "resume_call (c_ua call') t3 = Some t4" "good tel_held t3 t4" by (auto simp: runs_def)
  have d: "g_call t4 = g_call t3 \<and> t_log t4 = t_log t3"
    using t4(1) by (auto simp: resume_call_def call_hold_def upd_call_def split: bind_splits option.splits if_splits)
  have "ua_call_event_handler event_listener env blocked c' CALL_EVENT_CLOSED t = Some t4"
    using g c p t3(1) t4(1) by (auto simp: ua_call_event_handler_def event_listener_def call_scode_def)
  moreover have "t_log t4 = t_log t @ notified t UA_EVENT_CALL_CLOSED (c_scode call) None"
    using d m by (simp add: notifyEvent_log) (simp add: notified_def)
  moreover have "map_option c_ua (bs_calls t4 c) = Some (c_ua call)"
    using resume_call_owner [OF t4(1), of c] call_deref_other [OF t3(1)] c by simp
  moreover have "dom (bs_calls t4) = dom (bs_calls t) - {c'}" using resume_call_dom [OF t4(1)] t3(4) by simp
  moreover have "agents t4 = agents t" using t4(2) t3(2) shape_agents [OF sh] by (simp add: good_def)
  ultimately show ?thesis using d m by auto
qed

text \<open>Every such event changes at most the call itself before it is handed on.\<close>

lemma ends_closes:
  assumes "ends ev c'" "bs_calls t c' = Some call'" "g_call t = Some c" "bs_calls t c = Some call" "c' \<noteq> c"
  shows "\<exists>t1 x. deliver event_listener env ev t
      = ua_call_event_handler event_listener env (case ev of N_Mnat blocked _ _ _ \<Rightarrow> blocked | _ \<Rightarrow> False) c' CALL_EVENT_CLOSED t1
    \<and> bs_calls t1 = (bs_calls t)(c' \<mapsto> x) \<and> c_ua x = c_ua call' \<and> c_peer_uri x = c_peer_uri call' \<and> shape t1 = shape t
    \<and> g_call t1 = Some c \<and> t_log t1 = t_log t @ told_before t ev \<and> notified t1 = notified t"
proof -
  have sh: "shape (t\<lparr>bs_calls := (bs_calls t)(c' \<mapsto> x)\<rparr>) = shape t" if "c_ua x = c_ua call'" for x
    using that assms(2) by (simp add: shape_def fun_eq_iff)
  have self: "(bs_calls t)(c' \<mapsto> call') = bs_calls t" using assms(2) by auto
  let ?upd = "\<lambda>x. t\<lparr>bs_calls := (bs_calls t)(c' \<mapsto> x)\<rparr>"
  show ?thesis
  proof (cases ev)
    case (N_Close e msg d)
    let ?x = "call_stream_stop (if e \<noteq> 0 then call'\<lparr>c_not := False\<rparr> else case msg of None \<Rightarrow> call'
      | Some scode \<Rightarrow> call'\<lparr>c_scode := scode, c_not := (c_not call' \<and> scode < 200)\<rparr>)"
    show ?thesis using assms N_Close sh [of ?x]
      by (intro exI [of _ "?upd ?x"] exI [of _ ?x])
        (auto simp: ends_def told_before_def sipsess_close_handler_def upd_call_def call_stream_stop_def notified_def
          fun_eq_iff split: option.splits)
  next
    case (N_Timeout d)
    then show ?thesis using assms self
      by (intro exI [of _ t] exI [of _ call']) (simp add: ends_def told_before_def invite_timeout_def)
  next
    case (N_Mnat b e scode d)
    then show ?thesis using assms self
      by (intro exI [of _ t] exI [of _ call']) (auto simp: ends_def told_before_def mnat_handler_def)
  next
    case (N_Stream_Error d)
    let ?x = "call_stream_stop (call'\<lparr>c_scode := 701, c_state := CALL_STATE_TERMINATED\<rparr>)"
    show ?thesis using assms N_Stream_Error sh [of ?x]
      by (intro exI [of _ "?upd ?x"] exI [of _ ?x])
        (simp add: ends_def told_before_def stream_error_handler_def upd_call_def call_stream_stop_def notified_def fun_eq_iff)
  next
    case (N_Audio_Error d)
    let ?x = "call_stream_stop call'" and ?t = "notifyEvent UA_EVENT_AUDIO_ERROR 0 None t"
    have "shape (?t\<lparr>bs_calls := (bs_calls t)(c' \<mapsto> ?x)\<rparr>) = shape t"
      using sh [of ?x] by (simp add: call_stream_stop_def notifyEvent_def kn_event_bridge_def shape_def Let_def)
    moreover have "notified (?t\<lparr>bs_calls := (bs_calls t)(c' \<mapsto> ?x)\<rparr>) = notified t"
      by (simp add: fun_eq_iff notified_def notifyEvent_def kn_event_bridge_def Let_def)
    moreover have "t_log (?t\<lparr>bs_calls := (bs_calls t)(c' \<mapsto> ?x)\<rparr>) = t_log t @ told_before t ev"
      by (simp add: N_Audio_Error told_before_def notifyEvent_log)
    ultimately show ?thesis using assms N_Audio_Error
      by (intro exI [of _ "?t\<lparr>bs_calls := (bs_calls t)(c' \<mapsto> ?x)\<rparr>"] exI [of _ ?x])
        (simp add: ends_def audio_error_handler_def event_listener_def upd_call_def call_stream_stop_def)
  qed (use assms(1) in \<open>simp_all add: ends_def\<close>)
qed

text \<open>
  C11: Overlapping calls are confused. When a call other than \<open>g_call\<close> ends, by its session, its timeout, the media
  NAT, a stream or the audio, the application is told the status of \<open>g_call\<close>'s call instead of that of the call that
  ended, and \<open>g_call\<close> becomes NULL although its call is still there; if that call belongs to another user agent than
  the current one, as every command makes a user agent of its own, a hang-up command does not end it. (The handler of
  the user agent ignores events of a call without a peer URI; both ways to make a call set it.)
\<close>

theorem overlapping_calls_confused:
  assumes "tel_inv t" "g_call t = Some c" "bs_calls t c = Some call" "bs_calls t c' = Some call'" "c' \<noteq> c"
    "c_peer_uri call' \<noteq> None" "ends ev c'"
  shows "\<exists>t'. deliver event_listener env ev t = Some t' \<and> g_call t' = None \<and> c \<in> dom (bs_calls t') \<and> c' \<notin> dom (bs_calls t') \<and>
    t_log t' = t_log t @ told_before t ev @ notified t UA_EVENT_CALL_CLOSED (c_scode call) None \<and>
    (uag_current t \<noteq> Some (c_ua call) \<longrightarrow> (\<exists>t''. cmd_hangup t' = Some t'' \<and> c \<in> dom (bs_calls t'')))"
proof -
  have wf: "bs_wf t" "held_ok tel_held t" "cur_valid t" using assms(1) by (simp_all add: tel_inv_def)
  let ?b = "case ev of N_Mnat blocked _ _ _ \<Rightarrow> blocked | _ \<Rightarrow> False"
  obtain t1 x where t1: "deliver event_listener env ev t = ua_call_event_handler event_listener env ?b c' CALL_EVENT_CLOSED t1"
    "bs_calls t1 = (bs_calls t)(c' \<mapsto> x)" "c_peer_uri x = c_peer_uri call'" "shape t1 = shape t" "g_call t1 = Some c"
    "t_log t1 = t_log t @ told_before t ev" "notified t1 = notified t"
    using ends_closes [OF assms(7,4,2,3,5), of env] by blast
  have x: "bs_calls t1 c = Some call" "bs_calls t1 c' = Some x" "c_peer_uri x \<noteq> None" using t1(2,3) assms(3,5,6) by simp_all
  obtain t' where t': "deliver event_listener env ev t = Some t'" "g_call t' = None" "c' \<notin> dom (bs_calls t')"
    "map_option c_ua (bs_calls t' c) = Some (c_ua call)" "agents t' = agents t1"
    "t_log t' = t_log t1 @ notified t1 UA_EVENT_CALL_CLOSED (c_scode call) None"
    using close_confuses [OF bs_wf_shape [OF t1(4) wf(1)] t1(5) x(1,2) assms(5) x(3), of env ?b] t1(1) by auto
  have c: "c \<in> dom (bs_calls t')" using t'(4) by auto
  have "net_call ev = Some c'" "\<not> transfer_fails ev c" using assms(7) by (auto simp: ends_def transfer_fails_def split: net_event.splits)
  then have "net_ok ev t" using assms(4,7) by (auto simp: net_ok_def ends_def split: net_event.splits)
  then have inv: "tel_inv t'"
    using runsD [OF deliver_inv [OF assms(1)] t'(1)] \<open>\<not> transfer_fails ev c\<close> assms(2) by simp
  have "\<exists>t''. cmd_hangup t' = Some t'' \<and> c \<in> dom (bs_calls t'')" if n: "uag_current t \<noteq> Some (c_ua call)"
  proof -
    have ag: "agents t' = agents t" using t'(5) shape_agents [OF t1(4)] by simp
    have "bs_ual t \<noteq> []" using bs_wf_call [OF wf(1) assms(3)] bs_wf_ual [OF wf(1)] by auto
    then obtain v where "uag_current t = Some v"
      using wf(3) by (auto simp: uag_current_def cur_valid_def split: option.splits)
    with ag n have v: "uag_current t' = Some v" "v \<noteq> c_ua call"
      by (auto simp: agents_def uag_current_def split: if_splits)
    obtain ua where ua: "bs_uas t' v = Some ua" using current_live [OF inv v(1)] by blast
    have "bs_wf t'" using inv by (simp add: tel_inv_def)
    then have "c \<notin> set (ua_calls ua)" using bs_wf_ua [OF _ ua, of c] t'(4) v(2) by auto
    from hangup_spares [OF inv t'(2) v(1) ua c this] show ?thesis .
  qed
  then show ?thesis using t' t1(6,7) c by auto
qed

definition demo_two :: tel where
  "demo_two = snd (the (cmd_audioCall (\<lambda>_. Inr demo_account) demo_env (Some demo_ac) demo_call))"

definition demo_check :: "tel \<Rightarrow> bool" where
  "demo_check t \<longleftrightarrow> g_call t = Some 3 \<and> t_android t \<and> uag_current t = Some 0 \<and>
     (case (bs_calls t 3, bs_calls t 1) of
        (Some call, Some call') \<Rightarrow> c_ua call = 2 \<and> c_scode call = 0 \<and> c_peer_uri call' = Some ''sip:b'' | _ \<Rightarrow> False)"

lemma demo_two_checks: "demo_check demo_two"
  by code_simp

lemma demo_two_not_aborted: "\<not> aborted (\<lambda>_. Inr demo_account) demo_env demo_ac demo_call"
proof -
  have "bs_cur demo_call \<noteq> None" by code_simp
  then show ?thesis by (simp add: aborted_def)
qed

lemmas demo_two_facts = demo_two_checks [unfolded demo_check_def] demo_two_not_aborted

lemma demo_two_inv: "tel_inv demo_two"
proof -
  have "env_errs demo_env" by (simp add: env_errs_def demo_env_def)
  then have "runs (cmd_audioCall (\<lambda>_. Inr demo_account) demo_env (Some demo_ac) demo_call) (\<lambda>(e, t'). tel_inv t' \<and>
      (e = 0 \<longrightarrow> (\<exists>c. g_call t' = Some c \<and> c \<in> dom (bs_calls t'))))"
    by (rule audioCall_inv [OF demo_call_inv]) (use demo_two_facts in simp_all)
  then show ?thesis by (auto simp: demo_two_def runs_def)
qed

lemma overlapping_calls_confused_witness:
  "\<exists>t' t''. deliver event_listener demo_env (N_Close 0 (Some 486) 1) demo_two = Some t' \<and>
     cmd_hangup t' = Some t'' \<and> 3 \<in> dom (bs_calls t'')"
proof -
  obtain call call' where c: "bs_calls demo_two 3 = Some call" "bs_calls demo_two 1 = Some call'" "c_ua call = 2"
    "c_peer_uri call' = Some ''sip:b''"
    using demo_two_facts by (auto split: option.splits)
  have "ends (N_Close 0 (Some 486) 1) 1" by (simp add: ends_def)
  from overlapping_calls_confused [OF demo_two_inv _ c(1,2) _ _ this, of demo_env] c demo_two_facts
  show ?thesis by auto
qed

subsection \<open>Commands, start-up and the address of record\<close>

text \<open>
  start-up stops at the first error, returns it, and undoes everything: the calls that start the
  layers up to the one that failed, then the whole shut-down sequence; on success the listener is
  registered, the queue is there and nothing was shut down.
\<close>

definition init_errors :: "init_env \<Rightarrow> (tel_call list \<times> err) list" where
  "init_errors ie = [([T_libre_init], i_libre ie), ([T_conf_configure], i_conf ie), ([T_baresip_init], i_baresip ie),
     ([T_mod_init, T_conf_modules], i_modules ie), ([T_ua_init], i_ua ie),
     ([T_event_register], if i_mem ie then 0 else ENOMEM), ([T_mqueue_alloc], i_pipe ie)]"

fun init_trace :: "(tel_call list \<times> err) list \<Rightarrow> err \<times> tel_call list" where
  "init_trace [] = (0, [])"
| "init_trace ((cs, e) # xs) = (if e \<noteq> 0 then (e, cs @ shut_down) else map_prod id ((@) cs) (init_trace xs))"

theorem telephony_init_trace:
  assumes "bs_wf t"
  shows "\<exists>t'. telephony_init ie t = Some (fst (init_trace (init_errors ie)), t') \<and>
    t_trace t' = t_trace t @ snd (init_trace (init_errors ie)) \<and>
    t_listening t' = (fst (init_trace (init_errors ie)) = 0) \<and>
    (g_queue t' \<longleftrightarrow> fst (init_trace (init_errors ie)) = 0)"
proof -
  have failed: "\<exists>t'. failed e s = Some (e, t') \<and> t_trace t' = t_trace s @ shut_down \<and> \<not> t_listening t' \<and> \<not> g_queue t'"
    if "shape s = shape t" for e s
  proof -
    from tel_done_runs [OF bs_wf_shape [OF that assms]] obtain t' where t': "tel_done s = Some t'" by (auto simp: runs_def)
    then show ?thesis using tel_done_fields [OF t'] by (auto simp: failed_def)
  qed
  note defs = telephony_init_def init_errors_def Let_def uag_event_register_def mqueue_alloc_def
  note sh = traced_def uag_event_unregister_def shape_def
  consider "i_libre ie \<noteq> 0" | "i_libre ie = 0" "i_conf ie \<noteq> 0" | "i_libre ie = 0" "i_conf ie = 0" "i_baresip ie \<noteq> 0"
    | "i_libre ie = 0" "i_conf ie = 0" "i_baresip ie = 0" "i_modules ie \<noteq> 0"
    | "i_libre ie = 0" "i_conf ie = 0" "i_baresip ie = 0" "i_modules ie = 0" "i_ua ie \<noteq> 0"
    | "i_libre ie = 0" "i_conf ie = 0" "i_baresip ie = 0" "i_modules ie = 0" "i_ua ie = 0" "\<not> i_mem ie"
    | "i_libre ie = 0" "i_conf ie = 0" "i_baresip ie = 0" "i_modules ie = 0" "i_ua ie = 0" "i_mem ie" "i_pipe ie \<noteq> 0"
    | (ok) "i_libre ie = 0" "i_conf ie = 0" "i_baresip ie = 0" "i_modules ie = 0" "i_ua ie = 0" "i_mem ie" "i_pipe ie = 0"
    by blast
  then show ?thesis
  proof cases
    case 1
    then show ?thesis using failed [of "traced [T_libre_init] t" "i_libre ie"] by (simp add: defs sh)
  next
    case 2
    then show ?thesis using failed [of "traced [T_conf_configure] (traced [T_libre_init] t)" "i_conf ie"] by (simp add: defs sh)
  next
    case 3
    then show ?thesis
      using failed [of "traced [T_baresip_init] (traced [T_conf_configure] (traced [T_libre_init] t))" "i_baresip ie"]
      by (simp add: defs sh)
  next
    case 4
    then show ?thesis
      using failed [of "traced [T_mod_init, T_conf_modules] (traced [T_baresip_init] (traced [T_conf_configure] (traced [T_libre_init] t)))" "i_modules ie"]
      by (simp add: defs sh)
  next
    case 5
    then show ?thesis
      using failed [of "traced [T_ua_init] (traced [T_mod_init, T_conf_modules] (traced [T_baresip_init] (traced [T_conf_configure] (traced [T_libre_init] t))))" "i_ua ie"]
      by (simp add: defs sh)
  next
    case 6
    then show ?thesis
      using failed [of "uag_event_unregister (traced [T_event_register] (traced [T_ua_init] (traced [T_mod_init, T_conf_modules] (traced [T_baresip_init] (traced [T_conf_configure] (traced [T_libre_init] t))))))" ENOMEM]
      by (simp add: defs sh)
  next
    case 7
    then show ?thesis
      using failed [of "traced [T_mqueue_alloc] ((uag_event_unregister (traced [T_event_register] (traced [T_ua_init] (traced [T_mod_init, T_conf_modules] (traced [T_baresip_init] (traced [T_conf_configure] (traced [T_libre_init] t)))))))\<lparr>t_listening := True\<rparr>)" "i_pipe ie"]
      by (simp add: defs sh)
  next
    case ok
    then show ?thesis by (simp add: defs sh)
  qed
qed

lemma telephony_init_trace_witness:
  "\<exists>t'. telephony_init (demo_init\<lparr>i_conf := EINVAL\<rparr>) (tel_start True) = Some (EINVAL, t') \<and>
     t_trace t' = [T_libre_init, T_conf_configure] @ shut_down"
proof -
  have "bs_wf (tel_start True)" using tel_inv_start by (simp add: tel_inv_def)
  from telephony_init_trace [OF this, of "demo_init\<lparr>i_conf := EINVAL\<rparr>"] show ?thesis
    by (auto simp: init_errors_def demo_init_def tel_start_def bs_init_def baresip.defs tel.defs)
qed





end
