(* ===== verification/Entcode.thy ===== *)
theory Entcode
  imports Prelude
begin

section \<open>The entropy coder of opus: common part (opus/celt/entcode.h, entcode.c, mfrngcod.h)\<close>

text \<open>
  The context shared by the range encoder (theory \<open>Entenc\<close>) and decoder (theory \<open>Entdec\<close>), integer
  logarithm, division by multiplication, and the count of bits used. \<open>storage\<close> is the length of
  \<open>ec_buf\<close>. Offsets are \<open>nat\<close>, as \<open>offs + end_offs\<close> stays within the storage; \<open>nbits_total\<close> is an
  \<open>int\<close>, which must stay below \<open>2 ^ 31\<close> in the code.
\<close>

subsection \<open>Constants and context\<close>

definition EC_SYM_BITS :: nat where "EC_SYM_BITS = 8"
definition EC_CODE_BITS :: nat where "EC_CODE_BITS = 32"
definition EC_SYM_MAX :: u32 where "EC_SYM_MAX = push_bit EC_SYM_BITS 1 - 1"
definition EC_CODE_SHIFT :: nat where "EC_CODE_SHIFT = EC_CODE_BITS - EC_SYM_BITS - 1"
definition EC_CODE_TOP :: u32 where "EC_CODE_TOP = push_bit (EC_CODE_BITS - 1) 1"
definition EC_CODE_BOT :: u32 where "EC_CODE_BOT = drop_bit EC_SYM_BITS EC_CODE_TOP"
definition EC_CODE_EXTRA :: nat where "EC_CODE_EXTRA = (EC_CODE_BITS - 2) mod EC_SYM_BITS + 1"
definition EC_WINDOW_SIZE :: nat where "EC_WINDOW_SIZE = 32"
definition EC_UINT_BITS :: nat where "EC_UINT_BITS = 8"
definition BITRES :: nat where "BITRES = 3"

lemma ec_consts [simp]:
  "EC_SYM_BITS = 8" "EC_CODE_BITS = 32" "EC_SYM_MAX = 255" "EC_CODE_SHIFT = 23" "EC_CODE_TOP = 0x80000000"
  "EC_CODE_BOT = 0x800000" "EC_CODE_EXTRA = 7" "EC_WINDOW_SIZE = 32" "EC_UINT_BITS = 8" "BITRES = 3"
  by (simp_all add: EC_SYM_BITS_def EC_CODE_BITS_def EC_SYM_MAX_def EC_CODE_SHIFT_def EC_CODE_TOP_def
      EC_CODE_BOT_def EC_CODE_EXTRA_def EC_WINDOW_SIZE_def EC_UINT_BITS_def BITRES_def)

record ec_ctx =
  ec_buf :: "byte list"
  ec_end_offs :: nat
  ec_end_window :: u32
  ec_nend_bits :: nat
  ec_nbits_total :: int
  ec_offs :: nat
  ec_rng :: u32
  ec_val :: u32
  ec_ext :: u32
  ec_rem :: int
  ec_error :: int

subsection \<open>Integer logarithm\<close>

text \<open>\<open>EC_ILOG\<close> counts the bits of a word with a machine instruction, \<open>ec_ilog\<close> is the portable version.\<close>

fun bit_len :: "nat \<Rightarrow> nat" where
  "bit_len n = (if n = 0 then 0 else Suc (bit_len (n div 2)))"

declare bit_len.simps [simp del]

definition EC_ILOG :: "u32 \<Rightarrow> nat" where
  "EC_ILOG x = bit_len (unat x)"

definition ec_ilog :: "u32 \<Rightarrow> nat" where
  "ec_ilog v = (let
     ret = (if v \<noteq> 0 then 1 else 0);
     m = (if v AND 0xFFFF0000 \<noteq> 0 then 16 else 0); v = drop_bit m v; ret = ret OR m;
     m = (if v AND 0xFF00 \<noteq> 0 then 8 else 0); v = drop_bit m v; ret = ret OR m;
     m = (if v AND 0xF0 \<noteq> 0 then 4 else 0); v = drop_bit m v; ret = ret OR m;
     m = (if v AND 0xC \<noteq> 0 then 2 else 0); v = drop_bit m v; ret = ret OR m
   in ret + (if v AND 0x2 \<noteq> 0 then 1 else 0))"

subsection \<open>Division\<close>

text \<open>The code lists 128 values for the 129 entries, so the last one is 0.\<close>

definition SMALL_DIV_TABLE :: "u32 list" where
  "SMALL_DIV_TABLE = [
     0xFFFFFFFF, 0x55555555, 0x33333333, 0x24924924, 0x1C71C71C, 0x1745D174, 0x13B13B13, 0x11111111,
     0x0F0F0F0F, 0x0D79435E, 0x0C30C30C, 0x0B21642C, 0x0A3D70A3, 0x097B425E, 0x08D3DCB0, 0x08421084,
     0x07C1F07C, 0x07507507, 0x06EB3E45, 0x06906906, 0x063E7063, 0x05F417D0, 0x05B05B05, 0x0572620A,
     0x05397829, 0x05050505, 0x04D4873E, 0x04A7904A, 0x047DC11F, 0x0456C797, 0x04325C53, 0x04104104,
     0x03F03F03, 0x03D22635, 0x03B5CC0E, 0x039B0AD1, 0x0381C0E0, 0x0369D036, 0x03531DEC, 0x033D91D2,
     0x0329161F, 0x03159721, 0x03030303, 0x02F14990, 0x02E05C0B, 0x02D02D02, 0x02C0B02C, 0x02B1DA46,
     0x02A3A0FD, 0x0295FAD4, 0x0288DF0C, 0x027C4597, 0x02702702, 0x02647C69, 0x02593F69, 0x024E6A17,
     0x0243F6F0, 0x0239E0D5, 0x02302302, 0x0226B902, 0x021D9EAD, 0x0214D021, 0x020C49BA, 0x02040810,
     0x01FC07F0, 0x01F44659, 0x01ECC07B, 0x01E573AC, 0x01DE5D6E, 0x01D77B65, 0x01D0CB58, 0x01CA4B30,
     0x01C3F8F0, 0x01BDD2B8, 0x01B7D6C3, 0x01B20364, 0x01AC5701, 0x01A6D01A, 0x01A16D3F, 0x019C2D14,
     0x01970E4F, 0x01920FB4, 0x018D3018, 0x01886E5F, 0x0183C977, 0x017F405F, 0x017AD220, 0x01767DCE,
     0x01724287, 0x016E1F76, 0x016A13CD, 0x01661EC6, 0x01623FA7, 0x015E75BB, 0x015AC056, 0x01571ED3,
     0x01539094, 0x01501501, 0x014CAB88, 0x0149539E, 0x01460CBC, 0x0142D662, 0x013FB013, 0x013C995A,
     0x013991C2, 0x013698DF, 0x0133AE45, 0x0130D190, 0x012E025C, 0x012B404A, 0x01288B01, 0x0125E227,
     0x01234567, 0x0120B470, 0x011E2EF3, 0x011BB4A4, 0x01194538, 0x0116E068, 0x011485F0, 0x0112358E,
     0x010FEF01, 0x010DB20A, 0x010B7E6E, 0x010953F3, 0x01073260, 0x0105197F, 0x0103091B, 0x01010101,
     0]"

text \<open>The version for ARM (\<open>USE_SMALL_DIV_TABLE\<close>) and the plain one, for \<open>d > 0\<close>.\<close>

definition celt_udiv_table :: "u32 \<Rightarrow> u32 \<Rightarrow> u32" where
  "celt_udiv_table n d = (if d > 256 then n div d
     else let t = EC_ILOG (d AND - d);
              q = ucast (drop_bit 32 (ucast (SMALL_DIV_TABLE ! unat (drop_bit t d)) * ucast (drop_bit (t - 1) n) :: u64)) :: u32
          in q + (if n - q * d \<ge> d then 1 else 0))"

definition celt_udiv :: "u32 \<Rightarrow> u32 \<Rightarrow> u32" where
  "celt_udiv n d = n div d"

subsection \<open>Bits used\<close>

definition ec_tell :: "ec_ctx \<Rightarrow> int" where
  "ec_tell s = ec_nbits_total s - int (EC_ILOG (ec_rng s))"

definition tell_correction :: "nat list" where
  "tell_correction = [35733, 38967, 42495, 46340, 50535, 55109, 60097, 65535]"

text \<open>
  \<open>ec_tell_frac\<close> looks the fraction of the logarithm up in a table; the code keeps the version that
  computes it by three squarings beside it, \<open>tell_frac_ref\<close>.
\<close>

definition ec_tell_frac :: "ec_ctx \<Rightarrow> u32" where
  "ec_tell_frac s = (let
     nbits = push_bit BITRES (word_of_int (ec_nbits_total s)) :: u32;
     l = EC_ILOG (ec_rng s);
     r = unat (drop_bit (l - 16) (ec_rng s));
     b = r div 4096 - 8;
     b = b + (if r > tell_correction ! b then 1 else 0)
   in nbits - of_nat (8 * l + b))"

fun tell_frac_loop :: "nat \<Rightarrow> u32 \<Rightarrow> nat \<Rightarrow> nat" where
  "tell_frac_loop 0 r l = l"
| "tell_frac_loop (Suc i) r l =
     (let r = drop_bit 15 (r * r); b = unat (drop_bit 16 r)
      in tell_frac_loop i (drop_bit b r) (2 * l OR b))"

definition tell_frac_ref :: "ec_ctx \<Rightarrow> u32" where
  "tell_frac_ref s = (let
     nbits = push_bit BITRES (word_of_int (ec_nbits_total s)) :: u32;
     l = EC_ILOG (ec_rng s)
   in nbits - of_nat (tell_frac_loop BITRES (drop_bit (l - 16) (ec_rng s)) l))"

section \<open>The portable logarithm\<close>

lemma bit_len_0 [simp]: "bit_len 0 = 0"
  by (simp add: bit_len.simps)

lemma bit_len_bounds: "0 < n \<Longrightarrow> 2 ^ (bit_len n - 1) \<le> n \<and> n < 2 ^ bit_len n \<and> 0 < bit_len n"
proof (induction n rule: bit_len.induct)
  case (1 n)
  show ?case
  proof (cases "n < 2")
    case True
    then have "n = Suc 0" using 1 by simp
    then show ?thesis by (simp add: bit_len.simps [of "Suc 0"])
  next
    case False
    then have IH: "2 ^ (bit_len (n div 2) - 1) \<le> n div 2" "n div 2 < 2 ^ bit_len (n div 2)" "0 < bit_len (n div 2)"
      using 1 by simp_all
    have s: "bit_len n = Suc (bit_len (n div 2))" using False by (simp add: bit_len.simps [of n])
    obtain k where "bit_len (n div 2) = Suc k" using IH(3) by (cases "bit_len (n div 2)") auto
    then show ?thesis using IH s by auto
  qed
qed

lemma bit_len_shift: "n div 2 ^ k \<noteq> 0 \<Longrightarrow> bit_len n = k + bit_len (n div 2 ^ k)"
proof (induction k arbitrary: n)
  case (Suc k)
  have d: "n div 2 ^ Suc k = n div 2 div 2 ^ k" by (simp add: div_mult2_eq)
  then have "n \<noteq> 0" using Suc.prems by (metis div_0)
  then have "bit_len n = Suc (bit_len (n div 2))" by (simp add: bit_len.simps [of n])
  then show ?case using Suc.IH [of "n div 2"] Suc.prems d by simp
qed simp

lemma bit_len_mono_less: "n < 2 ^ k \<Longrightarrow> bit_len n \<le> k"
proof (cases "n = 0")
  case False
  assume "n < 2 ^ k"
  moreover have "2 ^ (bit_len n - 1) \<le> n" "0 < bit_len n" using bit_len_bounds [of n] False by simp_all
  ultimately have "(2::nat) ^ (bit_len n - 1) < 2 ^ k" by linarith
  then have "bit_len n - 1 < k" by (rule power_less_imp_less_exp [rotated]) simp
  then show ?thesis using \<open>0 < bit_len n\<close> by simp
qed simp

lemma unat_drop: "unat (drop_bit m (v :: 'a::len word)) = unat v div 2 ^ m"
  unfolding unat_drop_bit_eq by (rule drop_bit_eq_div)

lemma half_bits: "x < 2 ^ (2 * m) \<Longrightarrow> x div 2 ^ m < 2 ^ m" for x :: nat
  by (simp add: less_mult_imp_div_less mult_2 power_add)

lemma or_digits:
  fixes b m1 m2 m3 m4 :: nat
  assumes "b = 0 \<or> b = 1" "m1 = 0 \<or> m1 = 16" "m2 = 0 \<or> m2 = 8" "m3 = 0 \<or> m3 = 4" "m4 = 0 \<or> m4 = 2"
  shows "b OR m1 OR m2 OR m3 OR m4 = b + m1 + m2 + m3 + m4"
  using assms by (elim disjE) simp_all

lemma and_high:
  fixes v :: u32
  assumes "unat v < 2 ^ (2 * m)"
  shows "(v AND push_bit m (mask m) = 0) = (unat v < 2 ^ m)"
proof -
  have "v AND push_bit m (mask m) = push_bit m (take_bit m (drop_bit m v))"
    by (rule bit_word_eqI) (auto simp: bit_simps)
  also have "take_bit m (drop_bit m v) = drop_bit m v"
  proof (rule word_unat_eq_iff [THEN iffD2])
    have "unat (drop_bit m v) < 2 ^ m"
      using half_bits [OF assms] by (simp only: unat_drop)
    then show "unat (take_bit m (drop_bit m v)) = unat (drop_bit m v)"
      by (simp add: unsigned_take_bit_eq take_bit_nat_eq_self)
  qed
  finally have e: "v AND push_bit m (mask m) = push_bit m (drop_bit m v)" .
  have "push_bit m (drop_bit m v) = 0 \<longleftrightarrow> drop_bit m v = 0"
  proof
    assume a: "push_bit m (drop_bit m v) = 0"
    have "drop_bit m (push_bit m (drop_bit m v)) = drop_bit m v"
      by (rule bit_word_eqI) (auto simp: bit_simps dest: bit_imp_le_length)
    with a show "drop_bit m v = 0" by simp
  qed simp
  moreover have "drop_bit m v = 0 \<longleftrightarrow> unat v < 2 ^ m"
    by (simp only: word_unat_eq_iff unat_drop unat_0 div_eq_0_iff) simp
  ultimately show ?thesis using e by simp
qed

lemma ilog_round:
  fixes v :: u32
  assumes "unat v < 2 ^ (2 * m)" "m' = (if v AND push_bit m (mask m) \<noteq> 0 then m else 0)"
  shows "bit_len (unat v) = m' + bit_len (unat (drop_bit m' v))" "unat (drop_bit m' v) < 2 ^ m"
    "drop_bit m' v = 0 \<longleftrightarrow> v = 0"
proof -
  note d = unat_drop [of m v] and s = half_bits [OF assms(1)]
  show "bit_len (unat v) = m' + bit_len (unat (drop_bit m' v))"
    using assms(2) bit_len_shift [of "unat v" m] and_high [OF assms(1)] d by (auto simp: div_eq_0_iff)
  show "unat (drop_bit m' v) < 2 ^ m" using assms(2) and_high [OF assms(1)] d s by auto
  show "drop_bit m' v = 0 \<longleftrightarrow> v = 0"
    using assms(2) and_high [OF assms(1)] d by (auto simp: word_unat_eq_iff [of "drop_bit m v" 0] div_eq_0_iff)
qed

lemma bit_len_small: "n < 4 \<Longrightarrow> bit_len n = (if n = 0 then 0 else if n = 1 then 1 else 2)"
  using bit_len.simps [of n] bit_len.simps [of "n div 2"] bit_len.simps [of "n div 2 div 2"] by auto

lemma ec_ilog_EC_ILOG: "ec_ilog v = EC_ILOG v"
proof -
  define m1 where "m1 = (if v AND 0xFFFF0000 \<noteq> 0 then 16 else (0::nat))"
  define v1 where "v1 = drop_bit m1 v"
  define m2 where "m2 = (if v1 AND 0xFF00 \<noteq> 0 then 8 else (0::nat))"
  define v2 where "v2 = drop_bit m2 v1"
  define m3 where "m3 = (if v2 AND 0xF0 \<noteq> 0 then 4 else (0::nat))"
  define v3 where "v3 = drop_bit m3 v2"
  define m4 where "m4 = (if v3 AND 0xC \<noteq> 0 then 2 else (0::nat))"
  define v4 where "v4 = drop_bit m4 v3"
  have masks: "push_bit 16 (mask 16) = (0xFFFF0000 :: u32)" "push_bit 8 (mask 8) = (0xFF00 :: u32)"
    "push_bit 4 (mask 4) = (0xF0 :: u32)" "push_bit 2 (mask 2) = (0xC :: u32)"
    by (simp_all add: mask_eq_exp_minus_1 push_bit_eq_mult)
  have "unat v < 2 ^ (2 * 16)" using unsigned_less [of v] by simp
  note r1 = ilog_round [OF this m1_def [folded masks], folded v1_def]
  note r2 = ilog_round [of v1 8, OF _ m2_def [folded masks], folded v2_def]
  note r3 = ilog_round [of v2 4, OF _ m3_def [folded masks], folded v3_def]
  note r4 = ilog_round [of v3 2, OF _ m4_def [folded masks], folded v4_def]
  have l1: "unat v1 < 2 ^ (2 * 8)" using r1(2) by simp
  have l2: "unat v2 < 2 ^ (2 * 4)" using r2(2) [OF l1] by simp
  have l3: "unat v3 < 2 ^ (2 * 2)" using r3(2) [OF l2] by simp
  have l4: "unat v4 < 4" using r4(2) [OF l3] by simp
  have "v4 = word_of_nat (unat v4)" by simp
  moreover have "unat v4 = 0 \<or> unat v4 = 1 \<or> unat v4 = 2 \<or> unat v4 = 3" using l4 by arith
  ultimately have last: "bit_len (unat v4) = (if v4 \<noteq> 0 then 1 else 0) + (if v4 AND 2 \<noteq> 0 then 1 else 0)"
    by (elim disjE) (simp_all add: bit_len_small)
  have z: "v4 = 0 \<longleftrightarrow> v = 0" using r1(3) r2(3) [OF l1] r3(3) [OF l2] r4(3) [OF l3] by blast
  have "ec_ilog v = ((if v \<noteq> 0 then 1 else 0) OR m1 OR m2 OR m3 OR m4) + (if v4 AND 2 \<noteq> 0 then 1 else 0)"
    unfolding ec_ilog_def Let_def m1_def [symmetric] v1_def [symmetric] m2_def [symmetric] v2_def [symmetric]
      m3_def [symmetric] v3_def [symmetric] m4_def [symmetric] v4_def [symmetric] or.assoc ..
  also have "((if v \<noteq> 0 then 1 else 0) OR m1 OR m2 OR m3 OR m4) = (if v \<noteq> 0 then 1 else 0) + m1 + m2 + m3 + m4"
    by (rule or_digits) (simp_all add: m1_def m2_def m3_def m4_def)
  also have "\<dots> + (if v4 AND 2 \<noteq> 0 then 1 else 0) = m1 + m2 + m3 + m4 + bit_len (unat v4)" using last z by simp
  also have "\<dots> = bit_len (unat v)" using r1(1) r2(1) [OF l1] r3(1) [OF l2] r4(1) [OF l3] by simp
  finally show ?thesis by (simp add: EC_ILOG_def)
qed

section \<open>Division by multiplication\<close>

lemma approx_quotient:
  fixes T n o' q :: nat
  assumes "T * o' \<le> 2 ^ 32" "2 ^ 32 \<le> T * o' + o'" "n < 2 ^ 32" "q = T * n div 2 ^ 32" "0 < o'"
  shows "q \<le> n div o'" "n div o' \<le> q + 1"
proof -
  have q: "q * 2 ^ 32 \<le> T * n" "T * n < (q + 1) * 2 ^ 32"
    using assms(4) by (simp_all add: dividend_less_div_times div_mult2_eq mult.commute [of _ "2 ^ 32"] flip: power_mult)
  have "q * o' * 2 ^ 32 \<le> T * o' * n" using mult_le_mono1 [OF q(1), of o'] by (simp add: ac_simps)
  also have "\<dots> \<le> n * 2 ^ 32" using mult_le_mono1 [OF assms(1), of n] by (simp add: ac_simps)
  finally have "q * o' \<le> n" by simp
  then show "q \<le> n div o'" using assms(5) by (simp add: less_eq_div_iff_mult_less_eq)
  have "2 ^ 32 * n \<le> T * o' * n + o' * n" using mult_le_mono1 [OF assms(2), of n] by (simp add: algebra_simps)
  also have "T * o' * n \<le> (q + 1) * 2 ^ 32 * o'" using mult_le_mono1 [OF less_imp_le [OF q(2)], of o'] by (simp add: ac_simps)
  also have "o' * n < o' * 2 ^ 32" using assms(3,5) by simp
  finally have "n < (q + 2) * o'" by (simp add: algebra_simps)
  then have "n div o' < q + 2" by (simp add: less_mult_imp_div_less)
  then show "n div o' \<le> q + 1" by simp
qed

text \<open>The table and the position of the lowest bit, for every divisor up to 256.\<close>

fun table_ok :: "nat \<Rightarrow> u32 list \<Rightarrow> bool" where
  "table_ok i [] \<longleftrightarrow> True"
| "table_ok i (x # xs) \<longleftrightarrow> unat x * (2 * i + 1) \<le> 2 ^ 32 \<and> 2 ^ 32 \<le> unat x * (2 * i + 1) + (2 * i + 1) \<and> table_ok (Suc i) xs"

lemma table_ok_nth:
  "table_ok i xs \<Longrightarrow> j < length xs \<Longrightarrow>
     unat (xs ! j) * (2 * (i + j) + 1) \<le> 2 ^ 32 \<and> 2 ^ 32 \<le> unat (xs ! j) * (2 * (i + j) + 1) + (2 * (i + j) + 1)"
proof (induction xs arbitrary: i j)
  case (Cons x xs)
  then show ?case using Cons.IH [of "Suc i" "j - 1"] by (cases j) auto
qed simp

lemma small_table: "table_ok 0 (take 128 SMALL_DIV_TABLE)" "length SMALL_DIV_TABLE = 129"
  by (simp_all add: SMALL_DIV_TABLE_def)

lemma and_minus_odd: "(2 * m + 1) AND - (2 * m + 1) = (1::int)"
proof -
  have e: "- (2 * m + 1) = 2 * NOT m + 1" by (simp add: not_int_def)
  have "(2 * m + 1) AND (2 * NOT m + 1) = 1 + 2 * (m AND NOT m)"
    by (subst and_rec) simp
  then show ?thesis unfolding e by simp
qed

lemma and_minus: "((2 * m + 1) * 2 ^ k) AND - ((2 * m + 1) * 2 ^ k) = (2 ^ k :: int)"
proof -
  have "push_bit k (2 * m + 1) AND push_bit k (- (2 * m + 1)) = push_bit k ((2 * m + 1) AND - (2 * m + 1))"
    by (rule push_bit_and [symmetric])
  also have "\<dots> = push_bit k 1" by (simp only: and_minus_odd)
  finally show ?thesis unfolding push_bit_eq_mult by (simp only: mult_minus_left mult_1_left)
qed

lemma odd_part: "0 < d \<Longrightarrow> \<exists>k m. d = (2 * m + 1) * 2 ^ k" for d :: nat
proof (induction d rule: less_induct)
  case (less d)
  show ?case
  proof (cases "even d")
    case True
    then obtain e where e: "d = 2 * e" by blast
    then obtain k m where "e = (2 * m + 1) * 2 ^ k" using less.IH [of e] less.prems by auto
    then have "d = (2 * m + 1) * 2 ^ Suc k" using e by simp
    then show ?thesis by blast
  next
    case False
    then obtain m where "d = 2 * m + 1" by (elim oddE)
    then have "d = (2 * m + 1) * 2 ^ 0" by simp
    then show ?thesis by blast
  qed
qed

lemma bit_len_power: "bit_len (2 ^ k) = Suc k"
  using bit_len_shift [of "2 ^ k" k] by (simp add: bit_len.simps [of "Suc 0"])

lemma low_bit:
  fixes d :: u32
  assumes "unat d = (2 * m + 1) * 2 ^ k"
  shows "EC_ILOG (d AND - d) = Suc k"
proof -
  have k: "k < 32"
  proof (rule ccontr)
    assume "\<not> k < 32"
    then have "(2::nat) ^ 32 \<le> 2 ^ k" by (intro power_increasing) simp_all
    also have "\<dots> \<le> unat d" using assms by simp
    moreover have "unat d < 2 ^ 32" using unsigned_less [of d] by simp
    ultimately show False by simp
  qed
  have "d = word_of_int (int ((2 * m + 1) * 2 ^ k))"
    unfolding assms [symmetric] by simp
  then have d: "d = word_of_int ((2 * int m + 1) * 2 ^ k)" by (simp add: algebra_simps)
  have "d AND - d = word_of_int ((2 * int m + 1) * 2 ^ k AND - ((2 * int m + 1) * 2 ^ k))"
    unfolding d by (simp only: wi_hom_neg of_int_and_eq)
  also have "\<dots> = 2 ^ k" unfolding and_minus by simp
  finally have "d AND - d = word_of_nat (2 ^ k)" by simp
  moreover have "(2::nat) ^ k < 2 ^ LENGTH(32)" using power_strict_increasing [OF k, of "2::nat"] by simp
  ultimately have "unat (d AND - d) = 2 ^ k" by (simp only: unsigned_of_nat take_bit_nat_eq_self of_nat_id)
  then show ?thesis by (simp add: EC_ILOG_def bit_len_power)
qed

lemma unat_less_u32: "unat (x :: u32) < 2 ^ 32"
  using unsigned_less [of x] by simp

lemma unat_u32_u64 [simp]: "unat (ucast (x :: u32) :: u64) = unat x"
  using unat_less_u32 [of x] by (simp add: unsigned_ucast_eq take_bit_nat_eq_self)

lemma unat_u64_u32: "unat (ucast (x :: u64) :: u32) = unat x mod 2 ^ 32"
  by (simp add: unsigned_ucast_eq take_bit_eq_mod)

text \<open>
  C37: The ARM version of \<open>celt_udiv\<close>, which multiplies by a tabulated reciprocal, divides. For every
  dividend and every divisor but 0 it returns the quotient, as the plain version does.
\<close>

theorem celt_udiv_versions_agree:
  assumes "d \<noteq> 0"
  shows "celt_udiv_table n d = celt_udiv n d"
proof (cases "d > 256")
  case False
  obtain k m where dk: "unat d = (2 * m + 1) * 2 ^ k" using odd_part [of "unat d"] assms by (auto simp: unat_gt_0)
  have d256: "(2 * m + 1) * 2 ^ k \<le> 256" using False dk by (simp add: word_less_nat_alt not_less)
  have "2 * m + 1 \<le> (2 * m + 1) * 2 ^ k" using mult_le_mono2 [of 1 "2 ^ k" "2 * m + 1"] by simp
  then have m: "m < 128" using d256 by linarith
  note t = low_bit [OF dk]
  define n' where "n' = unat n div 2 ^ k"
  define T where "T = unat (SMALL_DIV_TABLE ! m)"
  define q where "q = T * n' div 2 ^ 32"
  have idx: "unat (drop_bit (Suc k) d) = m" unfolding unat_drop dk power_Suc2 div_mult2_eq by simp
  have T: "T * (2 * m + 1) \<le> 2 ^ 32" "2 ^ 32 \<le> T * (2 * m + 1) + (2 * m + 1)"
    using table_ok_nth [OF small_table(1), of m] m small_table(2) by (simp_all add: T_def)
  have n': "n' < 2 ^ 32" unfolding n'_def by (rule le_less_trans [OF div_le_dividend unat_less_u32])
  have qd: "q \<le> n' div (2 * m + 1)" "n' div (2 * m + 1) \<le> q + 1"
    using approx_quotient [OF T n' q_def] by simp_all
  have nd: "unat n div unat d = n' div (2 * m + 1)"
    by (simp only: dk n'_def mult.commute [of "2 * m + 1" "2 ^ k"] div_mult2_eq)
  have "T < 2 ^ 32" unfolding T_def by (rule unat_less_u32)
  then have prod: "T * n' < 2 ^ 64"
    using mult_strict_mono [of T "2 ^ 32" n' "2 ^ 32"] n' by simp
  have q32: "q < 2 ^ 32" using prod by (simp add: q_def less_mult_imp_div_less)
  let ?q = "ucast (drop_bit 32 (ucast (SMALL_DIV_TABLE ! m) * ucast (drop_bit k n) :: u64)) :: u32"
  have "unat (ucast (SMALL_DIV_TABLE ! m) * ucast (drop_bit k n) :: u64) = T * n'"
    using prod T_def n'_def by (simp add: unat_word_ariths unat_drop del: drop_bit_eq_div)
  then have uq: "unat ?q = q" using q32 by (simp add: q_def unat_drop unat_u64_u32 del: drop_bit_eq_div)
  have le: "q \<le> unat n div unat d" "unat n div unat d \<le> q + 1" using qd nd by simp_all
  have dpos: "0 < unat d" using assms by (simp add: unat_gt_0)
  have qn: "q * unat d \<le> unat n" using le(1) dpos by (simp add: less_eq_div_iff_mult_less_eq)
  then have uqd: "unat (?q * d) = q * unat d" using unat_less_u32 [of n] uq by (simp add: unat_word_ariths)
  have sub: "unat (n - ?q * d) = unat n - q * unat d" using qn uqd by (simp add: unat_sub word_le_nat_alt)
  have "n - ?q * d \<ge> d \<longleftrightarrow> unat d + q * unat d \<le> unat n" using qn by (auto simp: word_le_nat_alt sub)
  also have "\<dots> \<longleftrightarrow> q + 1 \<le> unat n div unat d" using dpos by (simp add: less_eq_div_iff_mult_less_eq)
  finally have c: "n - ?q * d \<ge> d \<longleftrightarrow> unat n div unat d = q + 1" using le by auto
  have r: "celt_udiv_table n d = ?q + (if n - ?q * d \<ge> d then 1 else 0)"
    using False by (simp add: celt_udiv_table_def Let_def t idx)
  have "unat n div unat d < 2 ^ 32" by (rule le_less_trans [OF div_le_dividend unat_less_u32])
  then have "unat (celt_udiv_table n d) = unat n div unat d"
    unfolding r using c le uq by (auto simp: unat_word_ariths)
  then show ?thesis by (simp add: celt_udiv_def word_unat_eq_iff unat_div)
qed (simp add: celt_udiv_table_def celt_udiv_def)

lemma celt_udiv_versions_agree_witness: "celt_udiv_table 4294967295 12 = 357913941"
  using celt_udiv_versions_agree [of 12 4294967295] by (simp add: celt_udiv_def)

section \<open>The fraction of the logarithm\<close>

fun frac_bits :: "nat \<Rightarrow> nat \<Rightarrow> nat" where
  "frac_bits 0 r = 0"
| "frac_bits (Suc k) r = (if 2 ^ 31 \<le> r * r then 2 ^ k + frac_bits k (r * r div 2 ^ 16) else frac_bits k (r * r div 2 ^ 15))"

lemma frac_bits_less: "frac_bits k r < 2 ^ k"
proof (induction k arbitrary: r)
  case (Suc k)
  have "frac_bits k (r * r div 2 ^ 16) < 2 ^ k" "frac_bits k (r * r div 2 ^ 15) < 2 ^ k" by (rule Suc)+
  then show ?case by (simp only: frac_bits.simps power_Suc split: if_split) linarith
qed simp

lemma frac_bits_mono: "r \<le> r' \<Longrightarrow> frac_bits k r \<le> frac_bits k r'"
proof (induction k arbitrary: r r')
  case (Suc k)
  have m: "r * r \<le> r' * r'" using Suc.prems by (rule mult_le_mono) (rule Suc.prems)
  then have "frac_bits k (r * r div c) \<le> frac_bits k (r' * r' div c)" for c
    by (intro Suc.IH div_le_mono)
  then show ?case using m frac_bits_less [of k "r * r div 2 ^ 15"] by (auto simp: trans_le_add1)
qed simp

declare tell_frac_loop.simps(2) [simp del]

lemma tell_frac_loop_bits:
  "unat r < 2 ^ 16 \<Longrightarrow> tell_frac_loop k r l = 2 ^ k * l + frac_bits k (unat r)"
proof (induction k arbitrary: r l)
  case (Suc k)
  let ?r = "unat r"
  have "?r * ?r < 2 ^ 16 * 2 ^ 16" using Suc.prems by (intro mult_strict_mono) simp_all
  then have sq: "?r * ?r < 2 ^ 32" by simp
  then have s: "unat (drop_bit 15 (r * r)) = ?r * ?r div 2 ^ 15"
    by (simp add: unat_drop unat_word_ariths del: drop_bit_eq_div)
  have b: "unat (drop_bit 16 (drop_bit 15 (r * r))) = (if 2 ^ 31 \<le> ?r * ?r then 1 else 0)"
  proof -
    have "?r * ?r div 2 ^ 31 = (if 2 ^ 31 \<le> ?r * ?r then 1 else 0)"
      using sq by (auto intro: div_nat_eqI)
    then show ?thesis unfolding unat_drop [of 16] s div_mult2_eq [symmetric] power_add [symmetric] by simp
  qed
  have step: "tell_frac_loop (Suc k) r l =
      (if 2 ^ 31 \<le> ?r * ?r then tell_frac_loop k (drop_bit 1 (drop_bit 15 (r * r))) (2 * l OR 1)
       else tell_frac_loop k (drop_bit 15 (r * r)) (2 * l))"
    by (simp only: tell_frac_loop.simps Let_def b) simp
  show ?case
  proof (cases "2 ^ 31 \<le> ?r * ?r")
    case True
    have u: "unat (drop_bit 1 (drop_bit 15 (r * r))) = ?r * ?r div 2 ^ 16"
      unfolding unat_drop [of 1] s by (simp only: div_mult2_eq [symmetric] power_one_right) simp
    have "unat (drop_bit 1 (drop_bit 15 (r * r))) < 2 ^ 16" unfolding u using sq by (simp add: less_mult_imp_div_less)
    from Suc.IH [OF this, of "2 * l OR 1", unfolded u]
    have "tell_frac_loop (Suc k) r l = 2 ^ k * (2 * l OR 1) + frac_bits k (?r * ?r div 2 ^ 16)"
      by (rule trans [OF trans [OF step if_P [OF True]]])
    moreover have "2 * l OR 1 = 2 * l + 1" by (simp add: or_Suc_0_eq)
    ultimately have "tell_frac_loop (Suc k) r l = 2 ^ k * (2 * l + 1) + frac_bits k (?r * ?r div 2 ^ 16)"
      by (simp only:)
    then show ?thesis using True by (simp add: algebra_simps)
  next
    case False
    then have "?r * ?r div 2 ^ 15 < 2 ^ 16" by (simp add: less_mult_imp_div_less)
    then show ?thesis using Suc.IH [of "drop_bit 15 (r * r)"] step False s by (simp del: drop_bit_eq_div)
  qed
qed simp

lemma frac_bits_thresholds:
  "frac_bits 3 35733 = 0" "frac_bits 3 35734 = 1" "frac_bits 3 38967 = 1" "frac_bits 3 38968 = 2"
  "frac_bits 3 42495 = 2" "frac_bits 3 42496 = 3" "frac_bits 3 46340 = 3" "frac_bits 3 46341 = 4"
  "frac_bits 3 50535 = 4" "frac_bits 3 50536 = 5" "frac_bits 3 55109 = 5" "frac_bits 3 55110 = 6"
  "frac_bits 3 60097 = 6" "frac_bits 3 60098 = 7"
  unfolding numeral_3_eq_3 by simp_all

lemma frac_bits_between: "frac_bits k a = i \<Longrightarrow> frac_bits k b = i \<Longrightarrow> a \<le> r \<Longrightarrow> r \<le> b \<Longrightarrow> frac_bits k r = i"
  using frac_bits_mono [of a r k] frac_bits_mono [of r b k] by simp

lemma table_bits:
  assumes "2 ^ 15 \<le> r" "r < 2 ^ 16"
  shows "frac_bits 3 r = r div 4096 - 8 + (if r > tell_correction ! (r div 4096 - 8) then 1 else 0)"
    and "frac_bits 3 r \<le> 7"
proof -
  have d: "r div 4096 = k" if "4096 * k \<le> r" "r < 4096 * k + 4096" for k
    using that by (intro div_nat_eqI) (simp_all add: ac_simps)
  have lo: "frac_bits 3 32768 = 0" "frac_bits 3 65535 = 7" unfolding numeral_3_eq_3 by simp_all
  note F = frac_bits_thresholds lo
  consider "r < 36864" | "36864 \<le> r" "r < 40960" | "40960 \<le> r" "r < 45056" | "45056 \<le> r" "r < 49152"
    | "49152 \<le> r" "r < 53248" | "53248 \<le> r" "r < 57344" | "57344 \<le> r" "r < 61440" | "61440 \<le> r"
    by linarith
  then show "frac_bits 3 r = r div 4096 - 8 + (if r > tell_correction ! (r div 4096 - 8) then 1 else 0)"
  proof cases
    case 1
    then have "r div 4096 = 8" using assms by (intro d) simp_all
    then show ?thesis
      using assms 1 frac_bits_between [OF F(15) F(1), of r] frac_bits_between [OF F(2) F(3), of r]
      by (simp add: tell_correction_def)
  next
    case 2
    then have "r div 4096 = 9" by (intro d) simp_all
    then show ?thesis
      using 2 frac_bits_between [OF F(2) F(3), of r] frac_bits_between [OF F(4) F(5), of r]
      by (simp add: tell_correction_def)
  next
    case 3
    then have "r div 4096 = 10" by (intro d) simp_all
    then show ?thesis
      using 3 frac_bits_between [OF F(4) F(5), of r] frac_bits_between [OF F(6) F(7), of r]
      by (simp add: tell_correction_def)
  next
    case 4
    then have "r div 4096 = 11" by (intro d) simp_all
    then show ?thesis
      using 4 frac_bits_between [OF F(6) F(7), of r] frac_bits_between [OF F(8) F(9), of r]
      by (simp add: tell_correction_def)
  next
    case 5
    then have "r div 4096 = 12" by (intro d) simp_all
    then show ?thesis
      using 5 frac_bits_between [OF F(8) F(9), of r] frac_bits_between [OF F(10) F(11), of r]
      by (simp add: tell_correction_def)
  next
    case 6
    then have "r div 4096 = 13" by (intro d) simp_all
    then show ?thesis
      using 6 frac_bits_between [OF F(10) F(11), of r] frac_bits_between [OF F(12) F(13), of r]
      by (simp add: tell_correction_def)
  next
    case 7
    then have "r div 4096 = 14" by (intro d) simp_all
    then show ?thesis
      using 7 frac_bits_between [OF F(12) F(13), of r] frac_bits_between [OF F(14) F(16), of r]
      by (simp add: tell_correction_def)
  next
    case 8
    then have "r div 4096 = 15" using assms by (intro d) simp_all
    then show ?thesis
      using 8 assms frac_bits_between [OF F(14) F(16), of r] by (simp add: tell_correction_def)
  qed
  show "frac_bits 3 r \<le> 7" using frac_bits_less [of 3 r] by simp
qed

lemma normalised_range:
  assumes "2 ^ 15 \<le> unat (x :: u32)"
  shows "16 \<le> EC_ILOG x" "EC_ILOG x \<le> 32" "2 ^ 15 \<le> unat (drop_bit (EC_ILOG x - 16) x)" "unat (drop_bit (EC_ILOG x - 16) x) < 2 ^ 16"
proof -
  let ?l = "EC_ILOG x"
  have "0 < unat x" using assms by (rule less_le_trans [rotated]) simp
  then have b: "2 ^ (?l - 1) \<le> unat x" "unat x < 2 ^ ?l" using bit_len_bounds by (simp_all add: EC_ILOG_def)
  have "(2::nat) ^ 15 < 2 ^ ?l" using assms b by linarith
  then show l: "16 \<le> ?l" using power_less_imp_less_exp [of "2::nat" 15 ?l] by simp
  show "?l \<le> 32" unfolding EC_ILOG_def by (rule bit_len_mono_less [OF unat_less_u32])
  have "15 + (?l - 16) = ?l - 1" "16 + (?l - 16) = ?l" using l by simp_all
  then have e: "2 ^ 15 * 2 ^ (?l - 16) = (2::nat) ^ (?l - 1)" "2 ^ 16 * 2 ^ (?l - 16) = (2::nat) ^ ?l"
    unfolding power_add [symmetric] by simp_all
  have "2 ^ 15 * 2 ^ (?l - 16) \<le> unat x" using b(1) unfolding e .
  then show "2 ^ 15 \<le> unat (drop_bit (?l - 16) x)" unfolding unat_drop by (simp add: less_eq_div_iff_mult_less_eq)
  have "unat x < 2 ^ 16 * 2 ^ (?l - 16)" using b(2) unfolding e .
  then show "unat (drop_bit (?l - 16) x) < 2 ^ 16" unfolding unat_drop by (simp add: less_mult_imp_div_less)
qed

text \<open>
  the two versions of \<open>ec_tell_frac\<close> agree. For every state whose range is at least \<open>2 ^ 15\<close>, as it
  is after every symbol, the table look-up gives the same count of eighth bits as the three squarings;
  the count is within 7 eighths of 8 times \<open>ec_tell\<close>, rounded down.
\<close>

theorem tell_frac_versions_agree:
  assumes "2 ^ 15 \<le> unat (ec_rng s)"
  shows "ec_tell_frac s = tell_frac_ref s \<and>
    (\<exists>b \<le> 7. ec_tell_frac s = word_of_int (8 * ec_tell s - b))"
proof -
  let ?l = "EC_ILOG (ec_rng s)" and ?r = "drop_bit (EC_ILOG (ec_rng s) - 16) (ec_rng s)"
  note r = normalised_range [OF assms]
  have ref: "tell_frac_loop 3 ?r ?l = 8 * ?l + frac_bits 3 (unat ?r)"
    using tell_frac_loop_bits [OF r(4), of 3] by simp
  have t: "ec_tell_frac s = push_bit 3 (word_of_int (ec_nbits_total s)) - of_nat (8 * ?l + frac_bits 3 (unat ?r))"
    unfolding ec_tell_frac_def Let_def table_bits(1) [OF r(3,4)] ec_consts by (rule refl)
  have "ec_tell_frac s = tell_frac_ref s"
    unfolding t tell_frac_ref_def Let_def ref ec_consts by (rule refl)
  moreover have "ec_tell_frac s = word_of_int (8 * ec_tell s - int (frac_bits 3 (unat ?r)))"
    unfolding t by (simp add: ec_tell_def push_bit_eq_mult algebra_simps del: drop_bit_eq_div)
  ultimately show ?thesis using table_bits(2) [OF r(3,4)]
    by (intro conjI exI [of _ "int (frac_bits 3 (unat ?r))"]) simp_all
qed

definition demo_ec :: ec_ctx where
  "demo_ec = \<lparr>ec_buf = [], ec_end_offs = 0, ec_end_window = 0, ec_nend_bits = 0, ec_nbits_total = 100, ec_offs = 0,
     ec_rng = 0x8B960000, ec_val = 0, ec_ext = 0, ec_rem = -1, ec_error = 0\<rparr>"

lemma tell_frac_versions_agree_witness: "ec_tell_frac demo_ec = tell_frac_ref demo_ec"
  using tell_frac_versions_agree [of demo_ec] by (simp add: demo_ec_def)

end
