(* ===== verification/Entenc.thy ===== *)
theory Entenc
  imports Entcode
begin

section \<open>The range encoder (opus/celt/entenc.c)\<close>

text \<open>
  Range-coded symbols are written from the start of the buffer, raw bits from its end. \<open>err |= ..\<close> is
  bitwise OR on \<open>int\<close>: a failed write makes \<open>ec_error\<close> -1 for good. The renormalisation loop does
  not end when the range is 0, hence \<open>partial_function\<close>.
\<close>

definition ec_write_byte :: "byte \<Rightarrow> ec_ctx \<Rightarrow> int \<times> ec_ctx" where
  "ec_write_byte v s = (if ec_offs s + ec_end_offs s \<ge> length (ec_buf s) then (-1, s)
     else (0, s\<lparr>ec_buf := (ec_buf s)[ec_offs s := v], ec_offs := ec_offs s + 1\<rparr>))"

definition ec_write_byte_at_end :: "byte \<Rightarrow> ec_ctx \<Rightarrow> int \<times> ec_ctx" where
  "ec_write_byte_at_end v s = (if ec_offs s + ec_end_offs s \<ge> length (ec_buf s) then (-1, s)
     else (0, s\<lparr>ec_buf := (ec_buf s)[length (ec_buf s) - (ec_end_offs s + 1) := v], ec_end_offs := ec_end_offs s + 1\<rparr>))"

text \<open>\<open>_this->error |= ..\<close>\<close>

definition ec_or_error :: "int \<times> ec_ctx \<Rightarrow> ec_ctx" where
  "ec_or_error r = (let (e, s) = r in s\<lparr>ec_error := ec_error s OR e\<rparr>)"

text \<open>The loop over the outstanding symbols.\<close>

fun ec_write_run :: "nat \<Rightarrow> byte \<Rightarrow> ec_ctx \<Rightarrow> ec_ctx" where
  "ec_write_run 0 v s = s"
| "ec_write_run (Suc k) v s = ec_write_run k v (ec_or_error (ec_write_byte v s))"

definition ec_enc_carry_out :: "u32 \<Rightarrow> ec_ctx \<Rightarrow> ec_ctx" where
  "ec_enc_carry_out c s =
     (if c \<noteq> EC_SYM_MAX then
        let carry = drop_bit EC_SYM_BITS c;
            s = (if ec_rem s \<ge> 0 then ec_or_error (ec_write_byte (word_of_int (ec_rem s + uint carry)) s) else s);
            s = (ec_write_run (unat (ec_ext s)) (ucast (EC_SYM_MAX + carry AND EC_SYM_MAX)) s)\<lparr>ec_ext := 0\<rparr>
        in s\<lparr>ec_rem := uint (c AND EC_SYM_MAX)\<rparr>
      else s\<lparr>ec_ext := ec_ext s + 1\<rparr>)"

definition ec_enc_shift :: "ec_ctx \<Rightarrow> ec_ctx" where
  "ec_enc_shift s = (let s = ec_enc_carry_out (drop_bit EC_CODE_SHIFT (ec_val s)) s
     in s\<lparr>ec_val := push_bit EC_SYM_BITS (ec_val s) AND (EC_CODE_TOP - 1),
          ec_rng := push_bit EC_SYM_BITS (ec_rng s), ec_nbits_total := ec_nbits_total s + int EC_SYM_BITS\<rparr>)"

partial_function (option) ec_enc_normalize :: "ec_ctx \<Rightarrow> ec_ctx option" where
  "ec_enc_normalize s = (if ec_rng s \<le> EC_CODE_BOT then ec_enc_normalize (ec_enc_shift s) else Some s)"

declare ec_enc_normalize.simps [code]

definition ec_enc_init :: "byte list \<Rightarrow> ec_ctx" where
  "ec_enc_init buf = \<lparr>ec_buf = buf, ec_end_offs = 0, ec_end_window = 0, ec_nend_bits = 0,
     ec_nbits_total = int EC_CODE_BITS + 1, ec_offs = 0, ec_rng = EC_CODE_TOP, ec_val = 0, ec_ext = 0,
     ec_rem = -1, ec_error = 0\<rparr>"

text \<open>The part of an interval that a symbol \<open>[fl, fh)\<close> of \<open>ft\<close> gets, before renormalisation.\<close>

definition ec_encode :: "u32 \<Rightarrow> u32 \<Rightarrow> u32 \<Rightarrow> ec_ctx \<Rightarrow> ec_ctx option" where
  "ec_encode fl fh ft s = (let r = celt_udiv (ec_rng s) ft
     in ec_enc_normalize
       (if fl > 0 then s\<lparr>ec_val := ec_val s + (ec_rng s - r * (ft - fl)), ec_rng := r * (fh - fl)\<rparr>
        else s\<lparr>ec_rng := ec_rng s - r * (ft - fh)\<rparr>))"

definition ec_encode_bin :: "u32 \<Rightarrow> u32 \<Rightarrow> nat \<Rightarrow> ec_ctx \<Rightarrow> ec_ctx option" where
  "ec_encode_bin fl fh bits s = (let r = drop_bit bits (ec_rng s)
     in ec_enc_normalize
       (if fl > 0 then s\<lparr>ec_val := ec_val s + (ec_rng s - r * (push_bit bits 1 - fl)), ec_rng := r * (fh - fl)\<rparr>
        else s\<lparr>ec_rng := ec_rng s - r * (push_bit bits 1 - fh)\<rparr>))"

definition ec_enc_bit_logp :: "bool \<Rightarrow> nat \<Rightarrow> ec_ctx \<Rightarrow> ec_ctx option" where
  "ec_enc_bit_logp v logp s = (let l = ec_val s; t = drop_bit logp (ec_rng s); r = ec_rng s - t
     in ec_enc_normalize (if v then s\<lparr>ec_val := l + r, ec_rng := t\<rparr> else s\<lparr>ec_rng := r\<rparr>))"

text \<open>A read outside the table is undefined.\<close>

definition icdf_at :: "byte list \<Rightarrow> nat \<Rightarrow> u32 option" where
  "icdf_at icdf i = (if i < length icdf then Some (ucast (icdf ! i)) else None)"

definition ec_enc_icdf :: "nat \<Rightarrow> byte list \<Rightarrow> nat \<Rightarrow> ec_ctx \<Rightarrow> ec_ctx option" where
  "ec_enc_icdf i icdf ftb s = (let r = drop_bit ftb (ec_rng s) in do {
     x \<leftarrow> icdf_at icdf i;
     if i > 0 then do {
       p \<leftarrow> icdf_at icdf (i - 1);
       ec_enc_normalize (s\<lparr>ec_val := ec_val s + (ec_rng s - r * p), ec_rng := r * (p - x)\<rparr>)
     }
     else ec_enc_normalize (s\<lparr>ec_rng := ec_rng s - r * x\<rparr>)
   })"

text \<open>
  The loop that empties the window. In \<open>ec_enc_bits\<close> it is \<open>do .. while(used >= EC_SYM_BITS)\<close>, which is
  the same as \<open>used\<close> is at least 8 there for at most 25 bits, the documented maximum.
\<close>

function ec_flush_window :: "nat \<Rightarrow> u32 \<Rightarrow> ec_ctx \<Rightarrow> u32 \<times> nat \<times> ec_ctx" where
  "ec_flush_window used window s =
     (if used \<ge> 8 then ec_flush_window (used - 8) (drop_bit EC_SYM_BITS window)
        (ec_or_error (ec_write_byte_at_end (ucast (window AND EC_SYM_MAX)) s))
      else (window, used, s))"
  by pat_completeness auto
termination by (relation "measure (\<lambda>(used, w, s). used)") auto

declare ec_flush_window.simps [simp del]

definition ec_enc_bits :: "u32 \<Rightarrow> nat \<Rightarrow> ec_ctx \<Rightarrow> ec_ctx" where
  "ec_enc_bits fl bits s = (let
     (window, used, s) = (if ec_nend_bits s + bits > EC_WINDOW_SIZE
        then ec_flush_window (ec_nend_bits s) (ec_end_window s) s else (ec_end_window s, ec_nend_bits s, s))
   in s\<lparr>ec_end_window := window OR push_bit used fl, ec_nend_bits := used + bits,
        ec_nbits_total := ec_nbits_total s + int bits\<rparr>)"

definition ec_enc_uint :: "u32 \<Rightarrow> u32 \<Rightarrow> ec_ctx \<Rightarrow> ec_ctx option" where
  "ec_enc_uint fl ft s = (let ft' = ft - 1; ftb = EC_ILOG ft'
     in if ftb > EC_UINT_BITS then
          let ftb = ftb - EC_UINT_BITS; fl' = drop_bit ftb fl
          in do {
            s \<leftarrow> ec_encode fl' (fl' + 1) (drop_bit ftb ft' + 1) s;
            Some (ec_enc_bits (fl AND (push_bit ftb 1 - 1)) ftb s)
          }
        else ec_encode fl (fl + 1) (ft' + 1) s)"

definition ec_enc_patch_initial_bits :: "u32 \<Rightarrow> nat \<Rightarrow> ec_ctx \<Rightarrow> ec_ctx" where
  "ec_enc_patch_initial_bits v nbits s = (let
     shift = EC_SYM_BITS - nbits;
     mask = push_bit shift (push_bit nbits 1 - 1) :: u32
   in if ec_offs s > 0 then
        s\<lparr>ec_buf := (ec_buf s)[0 := ucast ((ucast (ec_buf s ! 0) AND NOT mask) OR push_bit shift v)]\<rparr>
      else if ec_rem s \<ge> 0 then
        s\<lparr>ec_rem := uint ((word_of_int (ec_rem s) AND NOT mask) OR push_bit shift v)\<rparr>
      else if ec_rng s \<le> drop_bit nbits EC_CODE_TOP then
        s\<lparr>ec_val := (ec_val s AND NOT (push_bit EC_CODE_SHIFT mask)) OR push_bit (EC_CODE_SHIFT + shift) v\<rparr>
      else s\<lparr>ec_error := -1\<rparr>)"

text \<open>Shrinking moves the raw bits to the end of the smaller buffer.\<close>

definition ec_enc_shrink :: "nat \<Rightarrow> ec_ctx \<Rightarrow> ec_ctx" where
  "ec_enc_shrink sz s = s\<lparr>ec_buf := take (sz - ec_end_offs s) (ec_buf s) @
     drop (length (ec_buf s) - ec_end_offs s) (ec_buf s)\<rparr>"

text \<open>The loop over the last symbols; it returns \<open>l\<close>, which is 0 or negative at the end.\<close>

function ec_done_loop :: "int \<Rightarrow> u32 \<Rightarrow> ec_ctx \<Rightarrow> int \<times> ec_ctx" where
  "ec_done_loop l e s =
     (if l > 0 then ec_done_loop (l - int EC_SYM_BITS) (push_bit EC_SYM_BITS e AND (EC_CODE_TOP - 1))
        (ec_enc_carry_out (drop_bit EC_CODE_SHIFT e) s)
      else (l, s))"
  by pat_completeness auto
termination by (relation "measure (\<lambda>(l, e, s). nat l)") auto

declare ec_done_loop.simps [simp del]

text \<open>The number \<open>l\<close> of bits to write, and \<open>end\<close>.\<close>

definition ec_done_end :: "ec_ctx \<Rightarrow> nat \<times> u32" where
  "ec_done_end s = (let
     l = EC_CODE_BITS - EC_ILOG (ec_rng s);
     msk = drop_bit l (EC_CODE_TOP - 1);
     e = (ec_val s + msk) AND NOT msk
   in if e OR msk \<ge> ec_val s + ec_rng s
      then let msk = drop_bit 1 msk in (l + 1, (ec_val s + msk) AND NOT msk)
      else (l, e))"

definition ec_enc_done :: "ec_ctx \<Rightarrow> ec_ctx" where
  "ec_enc_done s = (let
     (n, e) = ec_done_end s;
     (l, s) = ec_done_loop (int n) e s;
     s = (if ec_rem s \<ge> 0 \<or> ec_ext s > 0 then ec_enc_carry_out 0 s else s);
     (window, used, s) = ec_flush_window (ec_nend_bits s) (ec_end_window s) s
   in if ec_error s \<noteq> 0 then s
      else let s = s\<lparr>ec_buf := take (ec_offs s) (ec_buf s) @ replicate (length (ec_buf s) - ec_offs s - ec_end_offs s) 0 @
                 drop (length (ec_buf s) - ec_end_offs s) (ec_buf s)\<rparr>
        in if used = 0 then s
           else if ec_end_offs s \<ge> length (ec_buf s) then s\<lparr>ec_error := -1\<rparr>
           else let (window, s) = (if ec_offs s + ec_end_offs s \<ge> length (ec_buf s) \<and> - l < int used
                    then (window AND (push_bit (nat (- l)) 1 - 1), s\<lparr>ec_error := -1\<rparr>) else (window, s));
                  i = length (ec_buf s) - ec_end_offs s - 1
             in s\<lparr>ec_buf := (ec_buf s)[i := (ec_buf s ! i) OR ucast window]\<rparr>)"

end
