(* ===== verification/Entdec.thy ===== *)
theory Entdec
  imports Entenc
begin

section \<open>The range decoder (opus/celt/entdec.c)\<close>

text \<open>Bytes outside the buffer are read as 0.\<close>

definition ec_read_byte :: "ec_ctx \<Rightarrow> int \<times> ec_ctx" where
  "ec_read_byte s = (if ec_offs s < length (ec_buf s)
     then (uint (ec_buf s ! ec_offs s), s\<lparr>ec_offs := ec_offs s + 1\<rparr>) else (0, s))"

definition ec_read_byte_from_end :: "ec_ctx \<Rightarrow> u32 \<times> ec_ctx" where
  "ec_read_byte_from_end s = (if ec_end_offs s < length (ec_buf s)
     then (ucast (ec_buf s ! (length (ec_buf s) - (ec_end_offs s + 1))), s\<lparr>ec_end_offs := ec_end_offs s + 1\<rparr>)
     else (0, s))"

definition ec_dec_shift :: "ec_ctx \<Rightarrow> ec_ctx" where
  "ec_dec_shift s = (let
     s = s\<lparr>ec_nbits_total := ec_nbits_total s + int EC_SYM_BITS, ec_rng := push_bit EC_SYM_BITS (ec_rng s)\<rparr>;
     sym = ec_rem s;
     (rem, s) = ec_read_byte s;
     sym = drop_bit (EC_SYM_BITS - EC_CODE_EXTRA) (push_bit EC_SYM_BITS sym OR rem)
   in s\<lparr>ec_rem := rem,
        ec_val := (push_bit EC_SYM_BITS (ec_val s) + (EC_SYM_MAX AND NOT (word_of_int sym))) AND (EC_CODE_TOP - 1)\<rparr>)"

partial_function (option) ec_dec_normalize :: "ec_ctx \<Rightarrow> ec_ctx option" where
  "ec_dec_normalize s = (if ec_rng s \<le> EC_CODE_BOT then ec_dec_normalize (ec_dec_shift s) else Some s)"

declare ec_dec_normalize.simps [code]

definition ec_dec_init :: "byte list \<Rightarrow> ec_ctx option" where
  "ec_dec_init buf = (let
     s = \<lparr>ec_buf = buf, ec_end_offs = 0, ec_end_window = 0, ec_nend_bits = 0,
       ec_nbits_total = int EC_CODE_BITS + 1 - int ((EC_CODE_BITS - EC_CODE_EXTRA) div EC_SYM_BITS * EC_SYM_BITS),
       ec_offs = 0, ec_rng = push_bit EC_CODE_EXTRA 1, ec_val = 0, ec_ext = 0, ec_rem = 0, ec_error = 0\<rparr>;
     (rem, s) = ec_read_byte s
   in ec_dec_normalize (s\<lparr>ec_rem := rem,
        ec_val := ec_rng s - 1 - word_of_int (drop_bit (EC_SYM_BITS - EC_CODE_EXTRA) rem)\<rparr>))"

definition ec_decode :: "u32 \<Rightarrow> ec_ctx \<Rightarrow> u32 \<times> ec_ctx" where
  "ec_decode ft s = (let ext = celt_udiv (ec_rng s) ft; q = ec_val s div ext
     in (ft - min (q + 1) ft, s\<lparr>ec_ext := ext\<rparr>))"

definition ec_decode_bin :: "nat \<Rightarrow> ec_ctx \<Rightarrow> u32 \<times> ec_ctx" where
  "ec_decode_bin bits s = (let ext = drop_bit bits (ec_rng s); q = ec_val s div ext
     in (push_bit bits 1 - min (q + 1) (push_bit bits 1), s\<lparr>ec_ext := ext\<rparr>))"

definition ec_dec_update :: "u32 \<Rightarrow> u32 \<Rightarrow> u32 \<Rightarrow> ec_ctx \<Rightarrow> ec_ctx option" where
  "ec_dec_update fl fh ft s = (let t = ec_ext s * (ft - fh)
     in ec_dec_normalize (s\<lparr>ec_val := ec_val s - t, ec_rng := (if fl > 0 then ec_ext s * (fh - fl) else ec_rng s - t)\<rparr>))"

definition ec_dec_bit_logp :: "nat \<Rightarrow> ec_ctx \<Rightarrow> (bool \<times> ec_ctx) option" where
  "ec_dec_bit_logp logp s = (let r = ec_rng s; d = ec_val s; t = drop_bit logp r; ret = (d < t);
     s = (if ret then s else s\<lparr>ec_val := d - t\<rparr>)
   in map_option (Pair ret) (ec_dec_normalize (s\<lparr>ec_rng := (if ret then t else r - t)\<rparr>)))"

text \<open>The search of the table; the result is the symbol with the bounds \<open>t\<close> and \<open>s\<close> of its interval.\<close>

fun icdf_search :: "u32 \<Rightarrow> u32 \<Rightarrow> u32 \<Rightarrow> nat \<Rightarrow> byte list \<Rightarrow> (nat \<times> u32 \<times> u32) option" where
  "icdf_search r d t ret [] = None"
| "icdf_search r d t ret (x # xs) =
     (let s = r * ucast x in if d < s then icdf_search r d s (ret + 1) xs else Some (ret, t, s))"

definition ec_dec_icdf :: "byte list \<Rightarrow> nat \<Rightarrow> ec_ctx \<Rightarrow> (nat \<times> ec_ctx) option" where
  "ec_dec_icdf icdf ftb c = (let s = ec_rng c; d = ec_val c; r = drop_bit ftb s in do {
     (ret, t, s) \<leftarrow> icdf_search r d s 0 icdf;
     map_option (Pair ret) (ec_dec_normalize (c\<lparr>ec_val := d - s, ec_rng := t - s\<rparr>))
   })"

text \<open>\<open>do .. while(available <= EC_WINDOW_SIZE - EC_SYM_BITS)\<close>\<close>

function ec_fill_window :: "u32 \<Rightarrow> nat \<Rightarrow> ec_ctx \<Rightarrow> u32 \<times> nat \<times> ec_ctx" where
  "ec_fill_window window available s =
     (let (b, s) = ec_read_byte_from_end s; window = window OR push_bit available b; available = available + 8
      in if available \<le> 24 then ec_fill_window window available s else (window, available, s))"
  by pat_completeness auto
termination by (relation "measure (\<lambda>(w, a, s). 25 - a)") auto

declare ec_fill_window.simps [simp del]

definition ec_dec_bits :: "nat \<Rightarrow> ec_ctx \<Rightarrow> u32 \<times> ec_ctx" where
  "ec_dec_bits bits s = (let
     (window, available, s) = (if ec_nend_bits s < bits then ec_fill_window (ec_end_window s) (ec_nend_bits s) s
        else (ec_end_window s, ec_nend_bits s, s))
   in (window AND (push_bit bits 1 - 1),
       s\<lparr>ec_end_window := drop_bit bits window, ec_nend_bits := available - bits,
         ec_nbits_total := ec_nbits_total s + int bits\<rparr>))"

definition ec_dec_uint :: "u32 \<Rightarrow> ec_ctx \<Rightarrow> (u32 \<times> ec_ctx) option" where
  "ec_dec_uint ft s = (let ft' = ft - 1; ftb = EC_ILOG ft'
     in if ftb > EC_UINT_BITS then
          let ftb = ftb - EC_UINT_BITS; fq = drop_bit ftb ft' + 1; (q, s) = ec_decode fq s
          in do {
            s \<leftarrow> ec_dec_update q (q + 1) fq s;
            let (b, s) = ec_dec_bits ftb s;
            let t = push_bit ftb q OR b;
            if t \<le> ft' then Some (t, s) else Some (ft', s\<lparr>ec_error := 1\<rparr>)
          }
        else let ft = ft' + 1; (q, s) = ec_decode ft s
          in map_option (Pair q) (ec_dec_update q (q + 1) ft s))"

end
