(* ===== verification/Rangecoder.thy ===== *)
theory Rangecoder
  imports Entdec
begin

section \<open>The range coder decodes what it encoded\<close>

text \<open>
  The encoder keeps an interval, low end and width, at a scale that grows by 8 bits with every
  renormalisation: the low end is the number whose base-256 digits are the bytes written and
  pending (\<open>digits\<close>) followed by \<open>ec_val\<close>. The decoder keeps the distance from the code to the top of
  the same interval. Raw bits form a second number from the end of the buffer.
\<close>

subsection \<open>Numbers of bytes\<close>

definition be :: "nat list \<Rightarrow> nat" where
  "be xs = foldl (\<lambda>a x. 256 * a + x) 0 xs"

fun le_num :: "nat list \<Rightarrow> nat" where
  "le_num [] = 0"
| "le_num (x # xs) = x + 256 * le_num xs"

lemma be_Nil [simp]: "be [] = 0"
  by (simp add: be_def)

lemma be_snoc [simp]: "be (xs @ [x]) = 256 * be xs + x"
  by (simp add: be_def)

lemma be_append: "be (xs @ ys) = be xs * 256 ^ length ys + be ys"
proof (induction ys rule: rev_induct)
  case (snoc y ys)
  then show ?case using be_snoc [of "xs @ ys" y] by (simp add: algebra_simps)
qed simp

lemma be_less: "\<forall>x \<in> set xs. x < 256 \<Longrightarrow> be xs < 256 ^ length xs"
proof (induction xs rule: rev_induct)
  case (snoc x xs)
  then have "be xs + 1 \<le> 256 ^ length xs" "x < 256" by simp_all
  then show ?case by simp
qed simp

lemma be_Cons [simp]: "be (x # xs) = x * 256 ^ length xs + be xs"
  using be_append [of "[x]" xs] be_snoc [of "[]" x] by simp

lemma be_zeros [simp]: "be (replicate k 0) = 0"
  by (induction k) simp_all

lemma be_255s: "be (replicate k 255) + 1 = 256 ^ k"
  by (induction k) simp_all

lemma be_carry: "be (xs @ (x + 1) # replicate k 0) = be (xs @ x # replicate k 255) + 1"
  using be_255s [of k] by (simp add: be_append algebra_simps)

lemma le_num_append: "le_num (xs @ ys) = le_num xs + 256 ^ length xs * le_num ys"
  by (induction xs) (simp_all add: algebra_simps)

lemma le_num_less: "\<forall>x \<in> set xs. x < 256 \<Longrightarrow> le_num xs < 256 ^ length xs"
  by (induction xs) auto

subsection \<open>Writing bytes\<close>

definition put_bytes :: "byte list \<Rightarrow> ec_ctx \<Rightarrow> ec_ctx" where
  "put_bytes bs s = s\<lparr>ec_buf := take (ec_offs s) (ec_buf s) @ bs @ drop (ec_offs s + length bs) (ec_buf s),
     ec_offs := ec_offs s + length bs\<rparr>"

definition room :: "nat \<Rightarrow> ec_ctx \<Rightarrow> bool" where
  "room k s \<longleftrightarrow> ec_offs s + k + ec_end_offs s \<le> length (ec_buf s)"

lemma put_bytes_simps [simp]:
  "ec_offs (put_bytes bs s) = ec_offs s + length bs" "ec_end_offs (put_bytes bs s) = ec_end_offs s"
  "ec_end_window (put_bytes bs s) = ec_end_window s" "ec_nend_bits (put_bytes bs s) = ec_nend_bits s"
  "ec_nbits_total (put_bytes bs s) = ec_nbits_total s" "ec_rng (put_bytes bs s) = ec_rng s"
  "ec_val (put_bytes bs s) = ec_val s" "ec_ext (put_bytes bs s) = ec_ext s" "ec_rem (put_bytes bs s) = ec_rem s"
  "ec_error (put_bytes bs s) = ec_error s"
  by (simp_all add: put_bytes_def)

lemma put_bytes_buf:
  assumes "room (length bs) s"
  shows "length (ec_buf (put_bytes bs s)) = length (ec_buf s)"
    "take (ec_offs s + length bs) (ec_buf (put_bytes bs s)) = take (ec_offs s) (ec_buf s) @ bs"
    "ec_offs s + length bs \<le> m \<Longrightarrow> drop m (ec_buf (put_bytes bs s)) = drop m (ec_buf s)"
proof -
  have l: "min (length (ec_buf s)) (ec_offs s) = ec_offs s" using assms by (simp add: room_def)
  show "length (ec_buf (put_bytes bs s)) = length (ec_buf s)"
    "take (ec_offs s + length bs) (ec_buf (put_bytes bs s)) = take (ec_offs s) (ec_buf s) @ bs"
    using assms by (simp_all add: put_bytes_def room_def l)
  assume "ec_offs s + length bs \<le> m"
  then show "drop m (ec_buf (put_bytes bs s)) = drop m (ec_buf s)"
    using assms by (simp add: put_bytes_def room_def l)
qed

lemma put_bytes_append:
  "room (length (bs @ cs)) s \<Longrightarrow> put_bytes cs (put_bytes bs s) = put_bytes (bs @ cs) s"
proof -
  assume a: "room (length (bs @ cs)) s"
  have l: "min (length (ec_buf s)) (ec_offs s) = ec_offs s" using a by (simp add: room_def)
  show ?thesis using a by (simp add: put_bytes_def room_def l add.commute add.left_commute)
qed

lemma put_bytes_Nil [simp]: "put_bytes [] s = s"
  by (simp add: put_bytes_def)

lemma write_byte:
  "ec_or_error (ec_write_byte v s) = (if room 1 s then put_bytes [v] s else s\<lparr>ec_error := -1\<rparr>)"
  by (auto simp: ec_or_error_def ec_write_byte_def room_def put_bytes_def upd_conv_take_nth_drop)

lemma write_run:
  "(room k s \<longrightarrow> ec_write_run k v s = put_bytes (replicate k v) s) \<and>
   (\<not> room k s \<longrightarrow> ec_offs s + ec_end_offs s \<le> length (ec_buf s) \<longrightarrow> ec_error (ec_write_run k v s) = -1)"
proof (induction k arbitrary: s)
  case (Suc k)
  have sticky: "ec_error (ec_write_run j v (s\<lparr>ec_error := -1\<rparr>)) = -1" for j
  proof -
    have "ec_error u = -1 \<Longrightarrow> ec_error (ec_write_run j v u) = -1" for u
      by (induction j arbitrary: u) (simp_all add: ec_or_error_def ec_write_byte_def split: prod.split)
    then show ?thesis by simp
  qed
  show ?case
  proof (cases "room 1 s")
    case True
    have r: "room k (put_bytes [v] s) = room (Suc k) s"
      using put_bytes_buf(1) [of "[v]" s] True by (simp add: room_def)
    have "put_bytes (replicate k v) (put_bytes [v] s) = put_bytes (replicate (Suc k) v) s" if "room (Suc k) s"
      using put_bytes_append [of "[v]" "replicate k v" s] that by simp
    then show ?thesis
      using Suc.IH [of "put_bytes [v] s"] True r put_bytes_buf(1) [of "[v]" s]
      by (auto simp: write_byte room_def)
  next
    case False
    then show ?thesis using sticky by (simp add: write_byte room_def)
  qed
qed (simp add: room_def)

subsection \<open>Carry propagation\<close>

text \<open>The digits of the low end of the interval: the bytes written, the pending one, the outstanding 255s.\<close>

definition digits :: "ec_ctx \<Rightarrow> nat list" where
  "digits s = map unat (take (ec_offs s) (ec_buf s)) @ (if ec_rem s < 0 then [] else [nat (ec_rem s)]) @
     replicate (unat (ec_ext s)) 255"

text \<open>The part of the state the raw bits are in.\<close>

definition tail :: "ec_ctx \<Rightarrow> nat \<times> nat \<times> u32 \<times> nat \<times> byte list" where
  "tail s = (length (ec_buf s), ec_end_offs s, ec_end_window s, ec_nend_bits s,
     drop (length (ec_buf s) - ec_end_offs s) (ec_buf s))"

definition pending :: "u32 \<Rightarrow> ec_ctx \<Rightarrow> byte list" where
  "pending carry s = (if ec_rem s \<ge> 0 then [word_of_int (ec_rem s + uint carry)] else []) @
     replicate (unat (ec_ext s)) (ucast (255 + carry AND 255))"

definition wf_enc :: "ec_ctx \<Rightarrow> bool" where
  "wf_enc s \<longleftrightarrow> ec_offs s + ec_end_offs s \<le> length (ec_buf s) \<and> -1 \<le> ec_rem s \<and> ec_rem s \<le> 255 \<and>
     (ec_rem s = -1 \<longrightarrow> ec_offs s = 0)"

lemma tail_upd [simp]:
  "tail (s\<lparr>ec_val := v\<rparr>) = tail s" "tail (s\<lparr>ec_rng := r\<rparr>) = tail s" "tail (s\<lparr>ec_nbits_total := b\<rparr>) = tail s"
  "tail (s\<lparr>ec_ext := e\<rparr>) = tail s" "tail (s\<lparr>ec_rem := x\<rparr>) = tail s"
  by (simp_all add: tail_def)

lemma put_bytes_tail: "room (length bs) s \<Longrightarrow> tail (put_bytes bs s) = tail s"
  using put_bytes_buf(1,3) [of bs s] by (simp add: tail_def room_def)

lemma carry_out_flush:
  assumes "c \<noteq> 255" "wf_enc s"
  shows "room (length (pending (drop_bit 8 c) s)) s \<Longrightarrow> ec_enc_carry_out c s =
       (put_bytes (pending (drop_bit 8 c) s) s)\<lparr>ec_ext := 0, ec_rem := uint (c AND 255)\<rparr>"
    and "\<not> room (length (pending (drop_bit 8 c) s)) s \<Longrightarrow> ec_error (ec_enc_carry_out c s) = -1"
proof -
  let ?carry = "drop_bit 8 c"
  let ?b = "word_of_int (ec_rem s + uint ?carry) :: byte" and ?v = "ucast (255 + ?carry AND 255) :: byte"
  let ?k = "unat (ec_ext s)"
  define s1 where "s1 = (if ec_rem s \<ge> 0 then ec_or_error (ec_write_byte ?b s) else s)"
  have c: "ec_enc_carry_out c s = (ec_write_run (unat (ec_ext s1)) ?v s1)\<lparr>ec_ext := 0, ec_rem := uint (c AND 255)\<rparr>"
    using assms(1) by (simp add: ec_enc_carry_out_def Let_def s1_def del: drop_bit_eq_div)
  have e1: "ec_ext s1 = ec_ext s" by (simp add: s1_def write_byte)
  have sticky: "ec_error u = -1 \<Longrightarrow> ec_error (ec_write_run j v u) = -1" for u j v
    by (induction j arbitrary: u) (simp_all add: ec_or_error_def ec_write_byte_def split: prod.split)
  show "ec_enc_carry_out c s = (put_bytes (pending ?carry s) s)\<lparr>ec_ext := 0, ec_rem := uint (c AND 255)\<rparr>"
    if r: "room (length (pending ?carry s)) s"
  proof (cases "ec_rem s \<ge> 0")
    case True
    then have p: "pending ?carry s = [?b] @ replicate ?k ?v" by (simp add: pending_def)
    have r1: "room 1 s" using r by (simp add: p room_def)
    then have s1: "s1 = put_bytes [?b] s" using True by (simp add: s1_def write_byte)
    have "room ?k s1" using r put_bytes_buf(1) [of "[?b]" s] r1 by (simp add: p room_def s1)
    then have "ec_write_run ?k ?v s1 = put_bytes (replicate ?k ?v) (put_bytes [?b] s)" using write_run s1 by simp
    also have "\<dots> = put_bytes (pending ?carry s) s" unfolding p by (rule put_bytes_append) (use r p in simp)
    finally show ?thesis using c e1 by simp
  next
    case False
    then have p: "pending ?carry s = replicate ?k ?v" by (simp add: pending_def)
    then have "ec_write_run ?k ?v s = put_bytes (pending ?carry s) s" using write_run [of ?k s ?v] r by simp
    then show ?thesis using c e1 False by (simp add: s1_def)
  qed
  show "ec_error (ec_enc_carry_out c s) = -1" if r: "\<not> room (length (pending ?carry s)) s"
  proof (cases "ec_rem s \<ge> 0 \<and> \<not> room 1 s")
    case True
    then have "ec_error s1 = -1" by (simp add: s1_def write_byte)
    then show ?thesis using c sticky by simp
  next
    case False
    have w: "ec_offs s1 + ec_end_offs s1 \<le> length (ec_buf s1) \<and> \<not> room ?k s1"
    proof (cases "ec_rem s \<ge> 0")
      case True
      then have "s1 = put_bytes [?b] s" "room 1 s" using False by (simp_all add: s1_def write_byte)
      then show ?thesis using r True put_bytes_buf(1) [of "[?b]" s] by (simp add: pending_def room_def)
    next
      case False
      then show ?thesis using r assms(2) by (simp add: s1_def pending_def wf_enc_def)
    qed
    then show ?thesis using write_run [of ?k s1 ?v] c e1 by simp
  qed
qed

lemma uint_nat_int: "uint (x :: 'a::len word) = int (unat x)"
  by simp

lemma unat_255_and: "unat (c AND 255 :: u32) = unat c mod 256"
proof -
  have "c AND 255 = take_bit 8 c" by (simp add: take_bit_eq_mask mask_eq_exp_minus_1)
  then have "unat (c AND 255) = take_bit 8 (unat c)" by (simp only: unsigned_take_bit_eq)
  then show ?thesis by (simp add: take_bit_eq_mod)
qed

lemma pending_digits:
  assumes "wf_enc s" "unat c < 512" "256 \<le> unat c \<longrightarrow> 0 \<le> ec_rem s \<and> ec_rem s < 255"
  shows "be (map unat (take (ec_offs s) (ec_buf s) @ pending (drop_bit 8 c) s)) = be (digits s) + unat c div 256"
    and "length (pending (drop_bit 8 c) s) = length (digits s) - ec_offs s"
    and "length (digits s) = ec_offs s + length (pending (drop_bit 8 c) s)"
    and "unat c < 256 \<Longrightarrow> map unat (take (ec_offs s) (ec_buf s) @ pending (drop_bit 8 c) s) = digits s"
proof -
  let ?carry = "drop_bit 8 c"
  have l: "length (take (ec_offs s) (ec_buf s)) = ec_offs s" using assms(1) by (simp add: wf_enc_def)
  show "length (pending ?carry s) = length (digits s) - ec_offs s"
    "length (digits s) = ec_offs s + length (pending ?carry s)"
    using l by (simp_all add: digits_def pending_def)
  have cu: "unat ?carry = unat c div 256" by (simp add: unat_drop del: drop_bit_eq_div)
  have rem: "unat (word_of_int (ec_rem s + uint ?carry) :: byte) = nat (ec_rem s) + unat ?carry"
    if "0 \<le> ec_rem s" "nat (ec_rem s) + unat ?carry < 256"
  proof -
    have "ec_rem s + uint ?carry = int (nat (ec_rem s) + unat ?carry)" using that(1) by (simp del: drop_bit_eq_div)
    then show ?thesis using that(2)
      by (simp add: unsigned_of_nat take_bit_nat_eq_self del: drop_bit_eq_div of_nat_add)
  qed
  show small: "map unat (take (ec_offs s) (ec_buf s) @ pending ?carry s) = digits s" if c: "unat c < 256"
  proof -
    have z: "?carry = 0" using c cu by (simp add: word_unat_eq_iff del: drop_bit_eq_div)
    have "ec_rem s \<le> 255" using assms(1) by (simp add: wf_enc_def)
    then show ?thesis using rem unfolding pending_def digits_def z by (auto simp: wf_enc_def)
  qed
  show "be (map unat (take (ec_offs s) (ec_buf s) @ pending ?carry s)) = be (digits s) + unat c div 256"
  proof (cases "unat c < 256")
    case True
    then show ?thesis using small [OF True] by simp
  next
    case False
    then have r: "0 \<le> ec_rem s" "ec_rem s < 255" using assms(3) by simp_all
    have "unat c div 256 = 1" using False assms(2) by (intro div_nat_eqI) simp_all
    then have one: "?carry = 1" using cu by (simp add: word_unat_eq_iff del: drop_bit_eq_div)
    have "map unat (take (ec_offs s) (ec_buf s) @ pending ?carry s) =
        map unat (take (ec_offs s) (ec_buf s)) @ (nat (ec_rem s) + 1) # replicate (unat (ec_ext s)) 0"
      using rem r one unfolding pending_def one by simp
    then show ?thesis
      using be_carry [of "map unat (take (ec_offs s) (ec_buf s))" "nat (ec_rem s)" "unat (ec_ext s)"] r \<open>unat c div 256 = 1\<close>
      by (simp add: digits_def)
  qed
qed

text \<open>What a symbol carried out does, provided no write failed.\<close>

lemma carry_out:
  assumes "wf_enc s" "unat c < 512" "256 \<le> unat c \<longrightarrow> 0 \<le> ec_rem s \<and> ec_rem s < 255"
    "unat (ec_ext s) + 1 < 2 ^ 32" "ec_error (ec_enc_carry_out c s) = 0"
  shows "be (digits (ec_enc_carry_out c s)) = 256 * be (digits s) + unat c"
    and "length (digits (ec_enc_carry_out c s)) = Suc (length (digits s))"
    and "wf_enc (ec_enc_carry_out c s)"
    and "tail (ec_enc_carry_out c s) = tail s"
    and "ec_error s = 0"
    and "ec_rem (ec_enc_carry_out c s) \<in> {-1, 255} \<Longrightarrow>
      unat c = 511 \<or> unat c = 255 \<and> ec_rem s = ec_rem (ec_enc_carry_out c s)"
    and "c = 0 \<Longrightarrow> map unat (take (ec_offs (ec_enc_carry_out c s)) (ec_buf (ec_enc_carry_out c s))) = digits s"
proof -
  let ?s = "ec_enc_carry_out c s" and ?p = "pending (drop_bit 8 c) s"
  note wf = assms(1) [unfolded wf_enc_def]
  note pd = pending_digits [OF assms(1-3)]
  have "be (digits ?s) = 256 * be (digits s) + unat c \<and> length (digits ?s) = Suc (length (digits s)) \<and> wf_enc ?s \<and>
      tail ?s = tail s \<and> ec_error s = 0 \<and>
      (ec_rem ?s \<in> {-1, 255} \<longrightarrow> unat c = 511 \<or> unat c = 255 \<and> ec_rem s = ec_rem ?s) \<and>
      (c = 0 \<longrightarrow> map unat (take (ec_offs ?s) (ec_buf ?s)) = digits s)"
  proof (cases "c = 255")
    case True
    have s: "?s = s\<lparr>ec_ext := ec_ext s + 1\<rparr>" using True by (simp add: ec_enc_carry_out_def)
    have "unat (ec_ext s + 1) = Suc (unat (ec_ext s))" using assms(4) by (simp add: unat_word_ariths)
    then have "digits ?s = digits s @ [255]" by (simp add: digits_def s replicate_append_same)
    then show ?thesis using True assms(1,5) unfolding s by (simp add: wf_enc_def tail_def)
  next
    case False
    note fl = carry_out_flush [OF False assms(1)]
    have room: "room (length ?p) s" using fl(2) assms(5) by (cases "room (length ?p) s") simp_all
    note s = fl(1) [OF room] and b = put_bytes_buf [OF room]
    have u: "uint (c AND 255) = int (unat c mod 256)" by (simp add: uint_nat_int unat_255_and)
    have d: "digits ?s = map unat (take (ec_offs s) (ec_buf s) @ ?p) @ [unat c mod 256]"
      unfolding s by (simp add: digits_def b(2) u)
    have "be (digits ?s) = 256 * (be (digits s) + unat c div 256) + unat c mod 256"
      by (simp only: d be_snoc pd(1))
    then have "be (digits ?s) = 256 * be (digits s) + unat c"
      using mult_div_mod_eq [of 256 "unat c"] by (simp only: distrib_left)
    moreover have "length (digits ?s) = Suc (length (digits s))" using wf pd(3) by (simp add: d del: drop_bit_eq_div)
    moreover have "wf_enc ?s" unfolding s using room b(1) by (simp add: wf_enc_def u room_def)
    moreover have "tail ?s = tail s" using put_bytes_tail [OF room] unfolding s by (simp add: tail_def b(1))
    moreover have "ec_error s = 0" using assms(5) unfolding s by simp
    moreover have "unat c = 511" if "ec_rem ?s \<in> {-1, 255}"
    proof -
      have "unat c mod 256 = 255" using that unfolding s by (auto simp: u)
      then have e: "unat c = 256 * (unat c div 256) + 255" using mult_div_mod_eq [of 256 "unat c"] by (simp only:)
      have "unat c \<noteq> 255" using False by (simp add: word_unat_eq_iff)
      then have "unat c div 256 \<noteq> 0" using e by auto
      moreover have "unat c div 256 < 2" using assms(2) by (simp add: less_mult_imp_div_less)
      ultimately have "unat c div 256 = 1" by linarith
      then show ?thesis using e by (simp only:)
    qed
    moreover have "map unat (take (ec_offs ?s) (ec_buf ?s)) = digits s" if "c = 0"
      using pd(4) that b(2) unfolding s by simp
    ultimately show ?thesis by blast
  qed
  then show "be (digits (ec_enc_carry_out c s)) = 256 * be (digits s) + unat c"
    "length (digits (ec_enc_carry_out c s)) = Suc (length (digits s))"
    "wf_enc (ec_enc_carry_out c s)" "tail (ec_enc_carry_out c s) = tail s" "ec_error s = 0"
    "ec_rem (ec_enc_carry_out c s) \<in> {-1, 255} \<Longrightarrow>
      unat c = 511 \<or> unat c = 255 \<and> ec_rem s = ec_rem (ec_enc_carry_out c s)"
    "c = 0 \<Longrightarrow> map unat (take (ec_offs (ec_enc_carry_out c s)) (ec_buf (ec_enc_carry_out c s))) = digits s"
    by blast+
qed

subsection \<open>The interval of the encoder\<close>

definition low :: "ec_ctx \<Rightarrow> nat" where
  "low s = be (digits s) * 2 ^ 31 + unat (ec_val s)"

definition raw_bits :: "ec_ctx \<Rightarrow> nat" where
  "raw_bits s = 8 * ec_end_offs s + ec_nend_bits s"

definition raw_ok :: "ec_ctx \<Rightarrow> bool" where
  "raw_ok s \<longleftrightarrow> ec_nend_bits s \<le> 32 \<and> unat (ec_end_window s) < 2 ^ ec_nend_bits s"

definition enc_mid :: "ec_ctx \<Rightarrow> bool" where
  "enc_mid s \<longleftrightarrow> wf_enc s \<and> raw_ok s \<and> 0 < unat (ec_rng s) \<and> unat (ec_rng s) \<le> 2 ^ 31 \<and>
     unat (ec_val s) + unat (ec_rng s) \<le> 2 ^ 32 \<and>
     (ec_rem s \<in> {-1, 255} \<longrightarrow> unat (ec_val s) + unat (ec_rng s) \<le> 2 ^ 31) \<and>
     ec_nbits_total s = int (33 + 8 * length (digits s) + raw_bits s)"

definition enc_ok :: "ec_ctx \<Rightarrow> bool" where
  "enc_ok s \<longleftrightarrow> enc_mid s \<and> 2 ^ 23 < unat (ec_rng s)"

lemma unat_top_and: "unat (x AND 0x7FFFFFFF :: u32) = unat x mod 2 ^ 31"
proof -
  have "x AND 0x7FFFFFFF = take_bit 31 x" by (simp add: take_bit_eq_mask mask_eq_exp_minus_1)
  then have "unat (x AND 0x7FFFFFFF) = take_bit 31 (unat x)" by (simp only: unsigned_take_bit_eq)
  then show ?thesis by (simp add: take_bit_eq_mod)
qed

lemma unat_push8: "unat (push_bit 8 (x :: u32)) = unat x * 256 mod 2 ^ 32"
proof -
  have "unat (push_bit 8 x) = take_bit 32 (push_bit 8 (unat x))" by (simp only: unsigned_push_bit_eq) simp
  then show ?thesis by (simp add: take_bit_eq_mod push_bit_eq_mult)
qed

lemma shifted_val: "unat (push_bit 8 (x :: u32) AND 0x7FFFFFFF) = 256 * (unat x mod 2 ^ 23)"
proof -
  have "unat x * 256 mod 2 ^ 32 mod 2 ^ 31 = unat x * 256 mod (2 ^ 23 * 256)"
    using mod_mod_cancel [of "2 ^ 31" "2 ^ 32" "unat x * 256"] by (simp add: le_imp_power_dvd)
  also have "\<dots> = 256 * (unat x mod 2 ^ 23)" by (metis mult_mod_left mult.commute)
  finally show ?thesis unfolding unat_top_and unat_push8 .
qed

lemma digits_ext: "unat (ec_ext s) \<le> length (digits s)"
  by (simp add: digits_def)

lemma enc_shift:
  assumes "enc_mid s" "unat (ec_rng s) \<le> 2 ^ 23" "length (digits s) < 2 ^ 31" "ec_error (ec_enc_shift s) = 0"
  shows "enc_mid (ec_enc_shift s)" "low (ec_enc_shift s) = 256 * low s"
    "unat (ec_rng (ec_enc_shift s)) = 256 * unat (ec_rng s)"
    "length (digits (ec_enc_shift s)) = Suc (length (digits s))"
    "tail (ec_enc_shift s) = tail s" "ec_error s = 0"
proof -
  let ?c = "drop_bit 23 (ec_val s)" and ?s = "ec_enc_shift s"
  define u where "u = ec_enc_carry_out ?c s"
  note mid = assms(1) [unfolded enc_mid_def]
  have s: "?s = u\<lparr>ec_val := push_bit 8 (ec_val u) AND 0x7FFFFFFF, ec_rng := push_bit 8 (ec_rng u),
      ec_nbits_total := ec_nbits_total u + 8\<rparr>"
    by (simp add: ec_enc_shift_def Let_def u_def del: drop_bit_eq_div)
  have c: "unat ?c = unat (ec_val s) div 2 ^ 23" by (simp only: unat_drop)
  have c512: "unat ?c < 512" unfolding c using unat_less_u32 [of "ec_val s"] by (simp add: less_mult_imp_div_less)
  have cc: "256 \<le> unat ?c \<longrightarrow> 0 \<le> ec_rem s \<and> ec_rem s < 255"
  proof
    assume "256 \<le> unat ?c"
    then have "2 ^ 31 \<le> unat (ec_val s)" unfolding c by (simp add: less_eq_div_iff_mult_less_eq)
    then have "ec_rem s \<notin> {-1, 255}" using mid by auto
    then show "0 \<le> ec_rem s \<and> ec_rem s < 255" using mid by (auto simp: wf_enc_def)
  qed
  have ext: "unat (ec_ext s) + 1 < 2 ^ 32" using digits_ext [of s] assms(3) by simp
  have err: "ec_error u = 0" using assms(4) unfolding s by simp
  note co = carry_out [OF conjunct1 [OF mid] c512 cc ext err [unfolded u_def], folded u_def]
  have frame: "ec_val u = ec_val s \<and> ec_rng u = ec_rng s \<and> ec_nbits_total u = ec_nbits_total s"
  proof (cases "?c = 255")
    case True
    then show ?thesis by (simp add: u_def ec_enc_carry_out_def)
  next
    case False
    note fl = carry_out_flush [OF False conjunct1 [OF mid]]
    have "room (length (pending (drop_bit 8 ?c) s)) s" using fl(2) err u_def by fastforce
    from fl(1) [OF this] show ?thesis by (simp add: u_def)
  qed
  have d: "digits ?s = digits u" unfolding s by (simp add: digits_def)
  show "length (digits ?s) = Suc (length (digits s))" unfolding d by (rule co(2))
  show "tail ?s = tail s" using co(4) unfolding s by simp
  show "ec_error s = 0" by (rule co(5))
  show r: "unat (ec_rng ?s) = 256 * unat (ec_rng s)"
    using assms(2) frame unfolding s by (simp add: unat_push8 del: push_bit_eq_mult)
  define m where "m = unat (ec_val s) mod 2 ^ 23"
  have e: "unat (ec_val s) = 8388608 * unat ?c + m" "m < 8388608" unfolding c m_def by simp_all
  have v: "unat (ec_val ?s) = 256 * m"
    unfolding s m_def using frame shifted_val [of "ec_val s"] by (simp del: push_bit_eq_mult)
  have "low ?s = (256 * be (digits s) + unat ?c) * 2147483648 + 256 * m"
    unfolding low_def d co(1) v by simp
  then show "low ?s = 256 * low s" unfolding low_def e(1) by simp
  have bound: "unat (ec_val ?s) + unat (ec_rng ?s) \<le> 2 ^ 32"
    using assms(2) e(2) unfolding v r by simp
  have tight: "unat (ec_val ?s) + unat (ec_rng ?s) \<le> 2 ^ 31" if "ec_rem ?s \<in> {-1, 255}"
  proof -
    have "ec_rem u \<in> {-1, 255}" using that unfolding s by simp
    from co(6) [OF this] show ?thesis
    proof
      assume a: "unat ?c = 511"
      have "8388608 * 511 + m + unat (ec_rng s) \<le> 4294967296" using mid e(1) unfolding a by simp
      then show ?thesis unfolding v r by simp
    next
      assume a: "unat ?c = 255 \<and> ec_rem s = ec_rem u"
      then have "unat (ec_val s) + unat (ec_rng s) \<le> 2147483648" using \<open>ec_rem u \<in> {-1, 255}\<close> mid by simp
      then have "8388608 * 255 + m + unat (ec_rng s) \<le> 2147483648" using e(1) a by simp
      then show ?thesis unfolding v r by simp
    qed
  qed
  have "raw_ok ?s" "raw_bits ?s = raw_bits s"
    using co(4) mid unfolding s by (simp_all add: raw_ok_def raw_bits_def tail_def)
  moreover have "wf_enc ?s" using co(3) unfolding s by (simp add: wf_enc_def)
  moreover have "ec_nbits_total ?s = ec_nbits_total s + 8" using frame unfolding s by simp
  ultimately show "enc_mid ?s"
    using mid bound tight r assms(2) co(2) d unfolding enc_mid_def by simp
qed

lemma error_sticky:
  "ec_error (ec_or_error (ec_write_byte v s)) = 0 \<Longrightarrow> ec_error s = 0"
  "ec_error (ec_or_error (ec_write_byte_at_end v s)) = 0 \<Longrightarrow> ec_error s = 0"
  by (auto simp: ec_or_error_def ec_write_byte_def ec_write_byte_at_end_def split: if_splits)

lemma write_run_sticky: "ec_error (ec_write_run k v s) = 0 \<Longrightarrow> ec_error s = 0"
  by (induction k arbitrary: s) (auto dest: error_sticky)

lemma carry_out_sticky: "ec_error (ec_enc_carry_out c s) = 0 \<Longrightarrow> ec_error s = 0"
  by (auto simp: ec_enc_carry_out_def Let_def split: if_splits dest!: write_run_sticky error_sticky)

lemma shift_sticky: "ec_error (ec_enc_shift s) = 0 \<Longrightarrow> ec_error s = 0"
  by (auto simp: ec_enc_shift_def Let_def dest: carry_out_sticky)

lemma shifts_sticky: "ec_error ((ec_enc_shift ^^ k) s) = 0 \<Longrightarrow> ec_error s = 0"
  by (induction k) (auto dest: shift_sticky)

lemma write_byte_rng: "ec_rng (ec_or_error (ec_write_byte v s)) = ec_rng s"
  by (simp add: write_byte)

lemma write_run_rng: "ec_rng (ec_write_run k v s) = ec_rng s"
  by (induction k arbitrary: s) (simp_all add: write_byte_rng)

lemma shift_rng: "ec_rng (ec_enc_shift s) = push_bit 8 (ec_rng s)"
  by (simp add: ec_enc_shift_def ec_enc_carry_out_def Let_def write_run_rng write_byte_rng)

lemma enc_shifts:
  assumes "enc_mid s" "256 ^ k * unat (ec_rng s) \<le> 2 ^ 31" "length (digits s) + k < 2 ^ 31"
    "ec_error ((ec_enc_shift ^^ k) s) = 0"
  shows "enc_mid ((ec_enc_shift ^^ k) s) \<and> low ((ec_enc_shift ^^ k) s) = 256 ^ k * low s \<and>
    unat (ec_rng ((ec_enc_shift ^^ k) s)) = 256 ^ k * unat (ec_rng s) \<and>
    length (digits ((ec_enc_shift ^^ k) s)) = length (digits s) + k \<and> tail ((ec_enc_shift ^^ k) s) = tail s"
  using assms
proof (induction k arbitrary: s)
  case (Suc k)
  have f: "(ec_enc_shift ^^ Suc k) s = (ec_enc_shift ^^ k) (ec_enc_shift s)" by (simp add: funpow_swap1)
  have r: "unat (ec_rng s) \<le> 2 ^ 23"
  proof -
    have "1 * unat (ec_rng s) \<le> 256 ^ k * unat (ec_rng s)" by (rule mult_le_mono1) simp
    also have "\<dots> \<le> 2 ^ 23" using Suc.prems(2) by (simp add: mult.commute)
    finally show ?thesis by simp
  qed
  have e: "ec_error (ec_enc_shift s) = 0" using Suc.prems(4) unfolding f by (rule shifts_sticky)
  have "length (digits s) < 2 ^ 31" using Suc.prems(3) by simp
  note sh = enc_shift [OF Suc.prems(1) r this e]
  have "256 ^ k * unat (ec_rng (ec_enc_shift s)) \<le> 2 ^ 31" using Suc.prems(2) unfolding sh(3) by (simp add: ac_simps)
  moreover have "length (digits (ec_enc_shift s)) + k < 2 ^ 31" using Suc.prems(3) sh(4) by simp
  ultimately show ?case
    using Suc.IH [OF sh(1)] Suc.prems(4) unfolding f by (simp add: sh(2-5))
qed simp

text \<open>The number of rounds of the renormalisation.\<close>

definition shifts :: "nat \<Rightarrow> nat" where
  "shifts r = (if 2 ^ 23 < r then 0 else if 2 ^ 15 < r then 1 else if 2 ^ 7 < r then 2 else 3)"

lemma shifts_bounds:
  "0 < r \<Longrightarrow> r \<le> 2 ^ 31 \<Longrightarrow> 2 ^ 23 < 256 ^ shifts r * r \<and> 256 ^ shifts r * r \<le> 2 ^ 31"
  by (simp add: shifts_def)

lemma normalize_step:
  "2 ^ 23 < unat (ec_rng s) \<Longrightarrow> ec_enc_normalize s = Some s"
  "unat (ec_rng s) \<le> 2 ^ 23 \<Longrightarrow> ec_enc_normalize s = ec_enc_normalize (ec_enc_shift s)"
  by (subst ec_enc_normalize.simps, simp add: word_le_nat_alt)+

lemma dec_normalize_step:
  "2 ^ 23 < unat (ec_rng s) \<Longrightarrow> ec_dec_normalize s = Some s"
  "unat (ec_rng s) \<le> 2 ^ 23 \<Longrightarrow> ec_dec_normalize s = ec_dec_normalize (ec_dec_shift s)"
  by (subst ec_dec_normalize.simps, simp add: word_le_nat_alt)+

text \<open>Both renormalisations do the same number of rounds.\<close>

lemma normalize_rounds:
  assumes step: "\<And>s. 2 ^ 23 < unat (ec_rng s) \<Longrightarrow> norm s = Some s"
    "\<And>s. unat (ec_rng s) \<le> 2 ^ 23 \<Longrightarrow> norm s = norm (shift s)"
    and rng: "\<And>s. ec_rng (shift s) = push_bit 8 (ec_rng s)" and pos: "0 < unat (ec_rng s)"
  shows "norm s = Some ((shift ^^ shifts (unat (ec_rng s))) s)"
proof -
  have r: "unat (ec_rng (shift u)) = 256 * unat (ec_rng u)" if "unat (ec_rng u) \<le> 2 ^ 23" for u
    using that by (simp add: rng unat_push8 del: push_bit_eq_mult)
  have one: "norm u = Some (shift u)" if "unat (ec_rng u) \<le> 2 ^ 23" "2 ^ 15 < unat (ec_rng u)" for u
    using that step(2) [of u] step(1) [of "shift u"] r [of u] by simp
  have two: "norm u = Some (shift (shift u))" if "unat (ec_rng u) \<le> 2 ^ 15" "2 ^ 7 < unat (ec_rng u)" for u
    using that step(2) [of u] one [of "shift u"] r [of u] by simp
  have three: "norm u = Some (shift (shift (shift u)))" if "unat (ec_rng u) \<le> 2 ^ 7" "0 < unat (ec_rng u)" for u
    using that step(2) [of u] two [of "shift u"] r [of u] by simp
  have f: "(shift ^^ 2) s = shift (shift s)" "(shift ^^ 3) s = shift (shift (shift s))"
    by (simp_all only: numeral_2_eq_2 numeral_3_eq_3 funpow.simps comp_apply id_apply)
  consider "2 ^ 23 < unat (ec_rng s)" | "unat (ec_rng s) \<le> 2 ^ 23" "2 ^ 15 < unat (ec_rng s)"
    | "unat (ec_rng s) \<le> 2 ^ 15" "2 ^ 7 < unat (ec_rng s)" | "unat (ec_rng s) \<le> 2 ^ 7"
    by linarith
  then show ?thesis
  proof cases
    case 1
    then show ?thesis using step(1) [of s] by (simp add: shifts_def)
  next
    case 2
    then show ?thesis using one [of s] by (simp add: shifts_def)
  next
    case 3
    then show ?thesis using two [of s] f(1) by (simp add: shifts_def)
  next
    case 4
    then show ?thesis using three [of s] f(2) pos by (simp add: shifts_def)
  qed
qed

lemma dec_shift_rng: "ec_rng (ec_dec_shift s) = push_bit 8 (ec_rng s)"
  by (simp add: ec_dec_shift_def ec_read_byte_def Let_def)

lemma enc_normalize:
  "0 < unat (ec_rng s) \<Longrightarrow> ec_enc_normalize s = Some ((ec_enc_shift ^^ shifts (unat (ec_rng s))) s)"
  by (rule normalize_rounds) (rule normalize_step shift_rng, assumption?)+

lemma dec_normalize:
  "0 < unat (ec_rng s) \<Longrightarrow> ec_dec_normalize s = Some ((ec_dec_shift ^^ shifts (unat (ec_rng s))) s)"
  by (rule normalize_rounds) (rule dec_normalize_step dec_shift_rng, assumption?)+

subsection \<open>The code and the decoder\<close>

definition stream :: "byte list \<Rightarrow> nat \<Rightarrow> nat" where
  "stream buf i = (if i < length buf then unat (buf ! i) else 0)"

definition code :: "byte list \<Rightarrow> nat \<Rightarrow> nat" where
  "code buf k = be (map (stream buf) [0..<k])"

text \<open>The code at the scale of \<open>n\<close> renormalisations: the first \<open>31 + 8 * n\<close> bits.\<close>

definition code_at :: "byte list \<Rightarrow> nat \<Rightarrow> nat" where
  "code_at buf n = code buf (n + 4) div 2"

lemma stream_less: "stream buf i < 256"
proof -
  have "unat (buf ! i) < 2 ^ 8" using unsigned_less [of "buf ! i"] by simp
  then show ?thesis by (simp add: stream_def)
qed

lemma code_Suc: "code buf (Suc k) = 256 * code buf k + stream buf k"
  by (simp add: code_def)

lemma code_at_Suc:
  "code_at buf (Suc n) = 256 * code_at buf n + (256 * stream buf (n + 3) + stream buf (n + 4)) div 2 mod 256"
proof -
  have e: "(256 * x + y) div 2 = 256 * (x div 2) + (256 * (x mod 2) + y) div 2" for x y :: nat
  proof -
    have "256 * x + y = 2 * (256 * (x div 2)) + (256 * (x mod 2) + y)" by (metis add_mult_distrib2 mult.left_commute mult_div_mod_eq add.assoc)
    then show ?thesis by simp
  qed
  let ?x = "code buf (n + 4)" and ?r = "stream buf (n + 3)" and ?y = "stream buf (n + 4)"
  have "?x = 256 * code buf (n + 3) + ?r" using code_Suc [of buf "n + 3"] by (simp add: eval_nat_numeral)
  then have m: "?x mod 2 = ?r mod 2" by (simp add: mod_add_eq [symmetric] mod_mult_left_eq [symmetric])
  have "(256 * (?r mod 2) + ?y) div 2 < 256" using stream_less [of buf "n + 4"] by (simp add: less_mult_imp_div_less)
  then have "(256 * ?r + ?y) div 2 mod 256 = (256 * (?r mod 2) + ?y) div 2" unfolding e [of ?r ?y] by simp
  then have b: "(256 * (?x mod 2) + ?y) div 2 = (256 * ?r + ?y) div 2 mod 256" by (simp only: m)
  have "code_at buf (Suc n) = (256 * ?x + ?y) div 2" using code_Suc [of buf "n + 4"] by (simp add: code_at_def)
  also have "\<dots> = 256 * (?x div 2) + (256 * (?x mod 2) + ?y) div 2" by (rule e)
  finally show ?thesis by (simp only: b code_at_def)
qed

definition dec_rel :: "byte list \<Rightarrow> nat \<Rightarrow> nat \<Rightarrow> nat \<Rightarrow> ec_ctx \<Rightarrow> bool" where
  "dec_rel buf L R n d \<longleftrightarrow> ec_buf d = buf \<and> unat (ec_rng d) = R \<and> unat (ec_val d) + code_at buf n + 1 = L + R \<and>
     ec_rem d = int (stream buf (n + 3)) \<and> ec_offs d = min (n + 4) (length buf)"

text \<open>The raw part of the decoder.\<close>

definition dec_tail :: "ec_ctx \<Rightarrow> nat \<times> u32 \<times> nat \<times> int" where
  "dec_tail d = (ec_end_offs d, ec_end_window d, ec_nend_bits d, ec_error d)"

lemma unat_not: "unat (NOT w :: u32) = 2 ^ 32 - 1 - unat w"
proof -
  have "NOT w = -1 - w" by (simp add: not_eq_complement)
  moreover have "unat (-1 - w) = unat (-1 :: u32) - unat w" by (rule unat_sub) simp
  moreover have "unat (-1 :: u32) = 2 ^ 32 - 1"
    unfolding unsigned_minus_1_eq_mask by (simp add: mask_eq_exp_minus_1)
  ultimately show ?thesis by simp
qed

lemma unat_255_not: "unat (255 AND NOT (word_of_nat m) :: u32) = 255 - m mod 256"
proof -
  define k where "k = unat (word_of_nat m :: u32)"
  have k: "k mod 256 = m mod 256" "k < 2 ^ 32"
    unfolding k_def by (simp_all add: unsigned_of_nat take_bit_eq_mod mod_mod_cancel unat_less_u32 [simplified])
  have "255 AND NOT (word_of_nat m) = NOT (word_of_nat m) AND (255 :: u32)" by (rule and.commute)
  then have "unat (255 AND NOT (word_of_nat m) :: u32) = (2 ^ 32 - 1 - k) mod 256"
    by (simp only: unat_255_and unat_not k_def)
  moreover have "2 ^ 32 - 1 - k = 256 * (2 ^ 24 - 1 - k div 256) + (255 - k mod 256)"
  proof -
    have "k div 256 < 2 ^ 24" using k(2) by (simp add: less_mult_imp_div_less)
    moreover have "k = 256 * (k div 256) + k mod 256" "k mod 256 < 256" by simp_all
    moreover have sub: "4294967295 - k' = 256 * (16777215 - q) + (255 - r)"
      if "q < 16777216" "k' = 256 * q + r" "r < 256" for k' q r :: nat
      using that by arith
    ultimately show ?thesis using sub [of "k div 256" k "k mod 256"] by simp
  qed
  ultimately have "unat (255 AND NOT (word_of_nat m) :: u32) = (256 * (2 ^ 24 - 1 - k div 256) + (255 - m mod 256)) mod 256"
    using k(1) by (simp only:)
  also have "\<dots> = (255 - m mod 256) mod 256" by (rule mod_mult_self4)
  also have "\<dots> = 255 - m mod 256" by (rule mod_less) simp
  finally show ?thesis .
qed

lemma dec_shift:
  assumes rel: "dec_rel buf L R n d" and R: "R \<le> 2 ^ 23" and L: "L \<le> code_at buf n"
  shows "dec_rel buf (256 * L) (256 * R) (Suc n) (ec_dec_shift d)"
    "ec_nbits_total (ec_dec_shift d) = ec_nbits_total d + 8" "dec_tail (ec_dec_shift d) = dec_tail d"
proof -
  note d = rel [unfolded dec_rel_def]
  let ?b = "stream buf (n + 4)" and ?r = "stream buf (n + 3)"
  define m where "m = (256 * ?r + ?b) div 2"
  have read: "ec_read_byte (d\<lparr>ec_nbits_total := x, ec_rng := y\<rparr>) =
      (int ?b, d\<lparr>ec_nbits_total := x, ec_rng := y, ec_offs := min (Suc n + 4) (length buf)\<rparr>)" for x y
    using d by (auto simp: ec_read_byte_def stream_def min_def)
  have sym: "drop_bit 1 (push_bit 8 (ec_rem d) OR int ?b) = int m"
  proof -
    have "take_bit 8 ?b = ?b" using stream_less [of buf "n + 4"] by (simp add: take_bit_nat_eq_self)
    then have small: "i < 8" if "bit ?b i" for i using that bit_take_bit_iff [of 8 ?b i] by simp
    have "push_bit 8 (int ?r) OR int ?b = int (push_bit 8 ?r OR ?b)" by (simp add: of_nat_or_eq of_nat_push_bit)
    also have "push_bit 8 ?r OR ?b = push_bit 8 ?r + ?b"
      by (rule disjunctive_add [symmetric])
        (auto simp: bit_simps dest!: small)
    finally have "push_bit 8 (ec_rem d) OR int ?b = int (256 * ?r + ?b)" using d by (simp add: push_bit_eq_mult)
    then show ?thesis by (simp add: m_def drop_bit_eq_div zdiv_int)
  qed
  have s: "ec_dec_shift d = d\<lparr>ec_nbits_total := ec_nbits_total d + 8, ec_rng := push_bit 8 (ec_rng d),
      ec_offs := min (Suc n + 4) (length buf), ec_rem := int ?b,
      ec_val := (push_bit 8 (ec_val d) + (255 AND NOT (word_of_nat m))) AND 0x7FFFFFFF\<rparr>"
    using sym by (simp add: ec_dec_shift_def Let_def read del: push_bit_eq_mult drop_bit_eq_div)
  have "unat (ec_val d) < R" using d L by linarith
  then have v: "unat (push_bit 8 (ec_val d)) = 256 * unat (ec_val d)" "256 * unat (ec_val d) + 255 < 2 ^ 31"
    using R by (simp_all add: unat_push8 del: push_bit_eq_mult)
  then have "unat (push_bit 8 (ec_val d) + (255 AND NOT (word_of_nat m))) = 256 * unat (ec_val d) + (255 - m mod 256)"
    by (simp add: unat_word_ariths unat_255_not del: push_bit_eq_mult)
  then have val: "unat (ec_val (ec_dec_shift d)) = 256 * unat (ec_val d) + (255 - m mod 256)"
    unfolding s using v(2) by (simp add: unat_top_and del: push_bit_eq_mult)
  have rng: "unat (ec_rng (ec_dec_shift d)) = 256 * R"
    unfolding s using d R by (simp add: unat_push8 del: push_bit_eq_mult)
  have "m mod 256 \<le> 255" by (simp add: less_Suc_eq_le [symmetric])
  then have "unat (ec_val (ec_dec_shift d)) + code_at buf (Suc n) + 1 = 256 * L + 256 * R"
    using d unfolding val code_at_Suc m_def [symmetric] by simp
  then show "dec_rel buf (256 * L) (256 * R) (Suc n) (ec_dec_shift d)"
    using rng d unfolding dec_rel_def by (simp add: s add.commute [of 4 n])
  show "ec_nbits_total (ec_dec_shift d) = ec_nbits_total d + 8" "dec_tail (ec_dec_shift d) = dec_tail d"
    by (simp_all add: s dec_tail_def)
qed

lemma dec_shifts:
  assumes "dec_rel buf L R n d" "256 ^ k * R \<le> 2 ^ 31" "L \<le> code_at buf n"
  shows "dec_rel buf (256 ^ k * L) (256 ^ k * R) (n + k) ((ec_dec_shift ^^ k) d) \<and>
    256 ^ k * L \<le> code_at buf (n + k) \<and>
    ec_nbits_total ((ec_dec_shift ^^ k) d) = ec_nbits_total d + 8 * int k \<and> dec_tail ((ec_dec_shift ^^ k) d) = dec_tail d"
  using assms(2)
proof (induction k)
  case (Suc k)
  let ?d = "(ec_dec_shift ^^ k) d"
  have le: "256 ^ k * R \<le> 2 ^ 23" using Suc.prems by (simp add: mult.commute)
  then have IH: "dec_rel buf (256 ^ k * L) (256 ^ k * R) (n + k) ?d" "256 ^ k * L \<le> code_at buf (n + k)"
    "ec_nbits_total ?d = ec_nbits_total d + 8 * int k" "dec_tail ?d = dec_tail d"
    using Suc.IH by simp_all
  note sh = dec_shift [OF IH(1) le IH(2)]
  have "256 * (256 ^ k * L) \<le> code_at buf (Suc (n + k))" using IH(2) code_at_Suc [of buf "n + k"] by simp
  then show ?case using sh IH(3,4) by (simp add: mult.assoc)
qed (use assms in simp)

lemma code_at_shifts: "code_at buf (n + k) div 256 ^ k = code_at buf n"
proof (induction k)
  case (Suc k)
  have "code_at buf (n + Suc k) div 256 = code_at buf (n + k)" using code_at_Suc [of buf "n + k"] by simp
  then show ?case using Suc by (simp add: div_mult2_eq)
qed simp

lemma interval_shifts:
  assumes "256 ^ k * L \<le> code_at buf (n + k)" "code_at buf (n + k) < 256 ^ k * (L + R)"
  shows "L \<le> code_at buf n" "code_at buf n < L + R"
proof -
  have "L \<le> code_at buf (n + k) div 256 ^ k" using assms(1) by (simp add: less_eq_div_iff_mult_less_eq mult.commute)
  then show "L \<le> code_at buf n" by (simp only: code_at_shifts)
  have "code_at buf (n + k) div 256 ^ k < L + R" using assms(2) by (simp add: less_mult_imp_div_less mult.commute)
  then show "code_at buf n < L + R" by (simp only: code_at_shifts)
qed

subsection \<open>The contract of a range-coded symbol\<close>

text \<open>
  What the four pairs of operations on symbols promise: the encoder replaces the interval by the part
  from \<open>off\<close> of width \<open>wid\<close>, the decoder finds the symbol whenever the code lies in that part and makes
  the same replacement.
\<close>

locale range_symbol =
  fixes enc :: "'x \<Rightarrow> ec_ctx \<Rightarrow> ec_ctx option"
    and dec :: "'x \<Rightarrow> ec_ctx \<Rightarrow> ('v \<times> ec_ctx) option"
    and valid :: "'x \<Rightarrow> bool"
    and off :: "'x \<Rightarrow> nat \<Rightarrow> nat"
    and wid :: "'x \<Rightarrow> nat \<Rightarrow> nat"
    and agrees :: "'x \<Rightarrow> 'v \<Rightarrow> bool"
  assumes part: "valid x \<Longrightarrow> 2 ^ 23 < R \<Longrightarrow> R \<le> 2 ^ 31 \<Longrightarrow> 0 < wid x R \<and> off x R + wid x R \<le> R"
    and enc: "valid x \<Longrightarrow> 2 ^ 23 < unat (ec_rng s) \<Longrightarrow> unat (ec_rng s) \<le> 2 ^ 31 \<Longrightarrow>
      unat (ec_val s) + unat (ec_rng s) \<le> 2 ^ 32 \<Longrightarrow>
      \<exists>v r. unat v = unat (ec_val s) + off x (unat (ec_rng s)) \<and> unat r = wid x (unat (ec_rng s)) \<and>
        enc x s = ec_enc_normalize (s\<lparr>ec_val := v, ec_rng := r\<rparr>)"
    and dec: "valid x \<Longrightarrow> 2 ^ 23 < unat (ec_rng d) \<Longrightarrow> unat (ec_rng d) \<le> 2 ^ 31 \<Longrightarrow>
      unat (ec_val d) + off x (unat (ec_rng d)) < unat (ec_rng d) \<Longrightarrow>
      unat (ec_rng d) \<le> unat (ec_val d) + off x (unat (ec_rng d)) + wid x (unat (ec_rng d)) \<Longrightarrow>
      \<exists>a e v r. agrees x a \<and> unat r = wid x (unat (ec_rng d)) \<and>
        unat v + unat (ec_rng d) = unat (ec_val d) + off x (unat (ec_rng d)) + wid x (unat (ec_rng d)) \<and>
        dec x d = map_option (Pair a) (ec_dec_normalize (d\<lparr>ec_ext := e, ec_val := v, ec_rng := r\<rparr>))"
begin

lemma encodes:
  assumes x: "valid x" and s: "enc_ok s" "length (digits s) + 3 < 2 ^ 31" and k: "k = shifts (wid x (unat (ec_rng s)))"
  shows "\<exists>s'. enc x s = Some s' \<and> (ec_error s' = 0 \<longrightarrow> ec_error s = 0 \<and> enc_ok s' \<and> tail s' = tail s \<and>
    length (digits s') = length (digits s) + k \<and> low s' = 256 ^ k * (low s + off x (unat (ec_rng s))) \<and>
    unat (ec_rng s') = 256 ^ k * wid x (unat (ec_rng s)))"
proof -
  let ?R = "unat (ec_rng s)"
  note mid = s(1) [unfolded enc_ok_def enc_mid_def]
  note p = part [OF x, of ?R]
  from enc [OF x, of s] mid obtain v r where e: "unat v = unat (ec_val s) + off x ?R" "unat r = wid x ?R"
    "enc x s = ec_enc_normalize (s\<lparr>ec_val := v, ec_rng := r\<rparr>)" by auto
  let ?s = "s\<lparr>ec_val := v, ec_rng := r\<rparr>"
  have w: "0 < wid x ?R" "off x ?R + wid x ?R \<le> ?R" using p mid by simp_all
  have dg: "digits ?s = digits s" "tail ?s = tail s" by (simp_all add: digits_def)
  have m: "enc_mid ?s"
    using mid w e(1,2) dg by (auto simp: enc_mid_def wf_enc_def raw_ok_def raw_bits_def)
  have "0 < unat (ec_rng ?s)" using w e(2) by simp
  from enc_normalize [OF this] have n: "enc x s = Some ((ec_enc_shift ^^ k) ?s)" using e(2,3) k by simp
  have "k \<le> 3" by (simp add: k shifts_def)
  moreover have b: "2 ^ 23 < 256 ^ k * wid x ?R" "256 ^ k * wid x ?R \<le> 2 ^ 31"
    using shifts_bounds [of "wid x ?R"] w mid k by simp_all
  ultimately have es: "ec_error ((ec_enc_shift ^^ k) ?s) = 0 \<Longrightarrow> enc_mid ((ec_enc_shift ^^ k) ?s) \<and>
      low ((ec_enc_shift ^^ k) ?s) = 256 ^ k * low ?s \<and>
      unat (ec_rng ((ec_enc_shift ^^ k) ?s)) = 256 ^ k * unat (ec_rng ?s) \<and>
      length (digits ((ec_enc_shift ^^ k) ?s)) = length (digits ?s) + k \<and> tail ((ec_enc_shift ^^ k) ?s) = tail ?s"
    using enc_shifts [OF m, of k] s(2) e(2) dg by simp
  have "low ?s = low s + off x ?R" using e(1) by (simp add: low_def dg)
  then show ?thesis
    using n es b dg e(2) shifts_sticky [of k ?s] by (auto simp: enc_ok_def)
qed

lemma decodes:
  assumes x: "valid x" and d: "dec_rel buf L R n d" "2 ^ 23 < R" "R \<le> 2 ^ 31" and k: "k = shifts (wid x R)"
    and c: "L + off x R \<le> code_at buf n" "code_at buf n < L + off x R + wid x R"
  shows "\<exists>a d'. dec x d = Some (a, d') \<and> agrees x a \<and> dec_rel buf (256 ^ k * (L + off x R)) (256 ^ k * wid x R) (n + k) d' \<and>
    ec_nbits_total d' = ec_nbits_total d + 8 * int k \<and> dec_tail d' = dec_tail d"
proof -
  note r = d(1) [unfolded dec_rel_def]
  have w: "0 < wid x R" "off x R + wid x R \<le> R" using part [OF x d(2,3)] by simp_all
  have "unat (ec_val d) + off x R < R" "R \<le> unat (ec_val d) + off x R + wid x R" using r c by linarith+
  with dec [OF x, of d] r d obtain a e v u where e: "agrees x a" "unat u = wid x R"
    "unat v + R = unat (ec_val d) + off x R + wid x R"
    "dec x d = map_option (Pair a) (ec_dec_normalize (d\<lparr>ec_ext := e, ec_val := v, ec_rng := u\<rparr>))"
    by auto
  let ?d = "d\<lparr>ec_ext := e, ec_val := v, ec_rng := u\<rparr>"
  have rel: "dec_rel buf (L + off x R) (wid x R) n ?d" using r e(2,3) by (simp add: dec_rel_def)
  have "0 < unat (ec_rng ?d)" using w e(2) by simp
  from dec_normalize [OF this] have n: "dec x d = Some (a, (ec_dec_shift ^^ k) ?d)" using e(2,4) k by simp
  have b: "256 ^ k * wid x R \<le> 2 ^ 31" using shifts_bounds [of "wid x R"] w d k by simp
  from dec_shifts [OF rel b c(1)] show ?thesis using n e(1) by (simp add: dec_tail_def)
qed

end

subsection \<open>The four kinds of symbols keep the contract\<close>

lemma unat_mult_small: "unat x * unat y < 2 ^ 32 \<Longrightarrow> unat (x * y :: u32) = unat x * unat y"
  by (simp add: unat_word_ariths)

lemma unat_add_small: "unat x + unat y < 2 ^ 32 \<Longrightarrow> unat (x + y :: u32) = unat x + unat y"
  by (simp add: unat_word_ariths)

lemma unat_sub_le: "unat y \<le> unat x \<Longrightarrow> unat (x - y :: u32) = unat x - unat y"
  by (simp add: unat_sub word_le_nat_alt)

definition freq_valid :: "u32 \<times> u32 \<times> u32 \<Rightarrow> bool" where
  "freq_valid x \<longleftrightarrow> (case x of (fl, fh, ft) \<Rightarrow> fl < fh \<and> fh \<le> ft \<and> unat ft \<le> 2 ^ 23)"

definition freq_off :: "u32 \<times> u32 \<times> u32 \<Rightarrow> nat \<Rightarrow> nat" where
  "freq_off x R = (case x of (fl, fh, ft) \<Rightarrow> if fl = 0 then 0 else R - R div unat ft * (unat ft - unat fl))"

definition freq_wid :: "u32 \<times> u32 \<times> u32 \<Rightarrow> nat \<Rightarrow> nat" where
  "freq_wid x R = (case x of (fl, fh, ft) \<Rightarrow>
     if fl = 0 then R - R div unat ft * (unat ft - unat fh) else R div unat ft * (unat fh - unat fl))"

definition enc_freq :: "u32 \<times> u32 \<times> u32 \<Rightarrow> ec_ctx \<Rightarrow> ec_ctx option" where
  "enc_freq x s = (case x of (fl, fh, ft) \<Rightarrow> ec_encode fl fh ft s)"

definition dec_freq :: "u32 \<times> u32 \<times> u32 \<Rightarrow> ec_ctx \<Rightarrow> (u32 \<times> ec_ctx) option" where
  "dec_freq x d = (case x of (fl, fh, ft) \<Rightarrow> (let (v, d) = ec_decode ft d in map_option (Pair v) (ec_dec_update fl fh ft d)))"

definition freq_agrees :: "u32 \<times> u32 \<times> u32 \<Rightarrow> u32 \<Rightarrow> bool" where
  "freq_agrees x v \<longleftrightarrow> (case x of (fl, fh, ft) \<Rightarrow> fl \<le> v \<and> v < fh)"

lemmas freq_defs = freq_valid_def freq_off_def freq_wid_def enc_freq_def dec_freq_def freq_agrees_def

text \<open>The parts of an interval of width \<open>R\<close> for frequencies \<open>a < b \<le> t\<close>, and the quotient that finds them.\<close>

lemma freq_parts:
  fixes a b t R :: nat
  assumes "a < b" "b \<le> t" "t \<le> 2 ^ 23" "2 ^ 23 < R"
  defines "r \<equiv> R div t"
  shows "0 < r" "r * t \<le> R" "r * (t - a) \<le> R" "r * (t - b) + r * (b - a) = r * (t - a)" "r * (t - b) < R"
    "0 < r * (b - a)"
proof -
  show r: "0 < r" using assms by (simp add: r_def div_greater_zero_iff)
  show rt: "r * t \<le> R" by (simp add: r_def)
  have "r * (t - a) \<le> r * t" by simp
  then show "r * (t - a) \<le> R" using rt by linarith
  have "(t - b) + (b - a) = t - a" using assms by simp
  then show e: "r * (t - b) + r * (b - a) = r * (t - a)" by (metis distrib_left)
  show p: "0 < r * (b - a)" using r assms by simp
  show "r * (t - b) < R" using e p \<open>r * (t - a) \<le> R\<close> by linarith
qed

lemma quotient_bounds:
  fixes V r t a b :: nat
  assumes "0 < r" "a < b" "b \<le> t" "r * (t - b) \<le> V" "a \<noteq> 0 \<longrightarrow> V < r * (t - a)"
  shows "a \<le> t - min (V div r + 1) t" "t - min (V div r + 1) t < b"
proof -
  have "t - b \<le> V div r" using assms(1,4) by (simp add: less_eq_div_iff_mult_less_eq mult.commute)
  then show "t - min (V div r + 1) t < b" using assms(2,3) by (auto simp: min_def)
  show "a \<le> t - min (V div r + 1) t"
  proof (cases "a = 0")
    case False
    then have "V div r < t - a" using assms by (simp add: less_mult_imp_div_less mult.commute)
    then show ?thesis by (simp add: min_def) linarith
  qed simp
qed

lemma found_part:
  fixes A B C R V :: nat
  shows "R \<le> V + (R - A) \<Longrightarrow> A < R \<Longrightarrow> A \<le> V"
    and "A + B = C \<Longrightarrow> C \<le> R \<Longrightarrow> V + (R - C) < R \<Longrightarrow> R \<le> V + (R - C) + B \<Longrightarrow> A \<le> V \<and> V < C"
    and "A \<le> V \<Longrightarrow> A < R \<Longrightarrow> V - A + R = V + (R - A)"
    and "A \<le> V \<Longrightarrow> A + B = C \<Longrightarrow> C \<le> R \<Longrightarrow> V - A + R = V + (R - C) + B"
  by arith+

interpretation freq: range_symbol enc_freq dec_freq freq_valid freq_off freq_wid freq_agrees
proof
  fix x :: "u32 \<times> u32 \<times> u32" and R :: nat
  assume v: "freq_valid x" and R: "2 ^ 23 < R" "R \<le> 2 ^ 31"
  obtain fl fh ft where x: "x = (fl, fh, ft)" by (rule prod_cases3)
  have "unat fl < unat fh" "unat fh \<le> unat ft" "unat ft \<le> 2 ^ 23"
    using v by (simp_all add: x freq_valid_def word_less_nat_alt word_le_nat_alt)
  note p = freq_parts [OF this R(1)]
  show "0 < freq_wid x R \<and> freq_off x R + freq_wid x R \<le> R"
  proof (cases "fl = 0")
    case True
    then show ?thesis using p(5) by (simp add: freq_defs x)
  next
    case False
    then show ?thesis using p by (simp add: freq_defs x)
  qed
next
  fix x :: "u32 \<times> u32 \<times> u32" and s :: ec_ctx
  assume v: "freq_valid x" and R: "2 ^ 23 < unat (ec_rng s)" "unat (ec_rng s) \<le> 2 ^ 31"
    and top: "unat (ec_val s) + unat (ec_rng s) \<le> 2 ^ 32"
  obtain fl fh ft where x: "x = (fl, fh, ft)" by (rule prod_cases3)
  let ?R = "unat (ec_rng s)" and ?r = "celt_udiv (ec_rng s) ft"
  have o: "unat fl < unat fh" "unat fh \<le> unat ft" "unat ft \<le> 2 ^ 23"
    using v by (simp_all add: x freq_valid_def word_less_nat_alt word_le_nat_alt)
  note p = freq_parts [OF o R(1)]
  have r: "unat ?r = ?R div unat ft" by (simp add: celt_udiv_def unat_div)
  have m: "unat (?r * (ft - y)) = ?R div unat ft * (unat ft - unat y)" if "?R div unat ft * (unat ft - unat y) \<le> ?R" "unat y \<le> unat ft" for y
    using that R by (simp add: unat_mult_small unat_sub_le r)
  have m3: "unat (?r * (fh - fl)) = ?R div unat ft * (unat fh - unat fl)"
    using p(3,4) o R by (subst unat_mult_small) (simp_all add: unat_sub_le r)
  show "\<exists>v r. unat v = unat (ec_val s) + freq_off x ?R \<and> unat r = freq_wid x ?R \<and>
      enc_freq x s = ec_enc_normalize (s\<lparr>ec_val := v, ec_rng := r\<rparr>)"
  proof (cases "fl = 0")
    case True
    have "unat (ec_rng s - ?r * (ft - fh)) = ?R - ?R div unat ft * (unat ft - unat fh)"
      using p(5) o m [of fh] by (simp add: unat_sub_le)
    then show ?thesis using True
      by (intro exI [of _ "ec_val s"] exI [of _ "ec_rng s - ?r * (ft - fh)"])
        (simp add: freq_defs x ec_encode_def Let_def)
  next
    case False
    have a: "unat (ec_rng s - ?r * (ft - fl)) = ?R - ?R div unat ft * (unat ft - unat fl)"
      using p(3) o m [of fl] by (simp add: unat_sub_le)
    have "0 < ?R div unat ft * (unat ft - unat fl)" using p(4,6) by linarith
    then have "?R - ?R div unat ft * (unat ft - unat fl) < ?R" by (rule diff_less) (use R in simp)
    then have "unat (ec_val s) + (?R - ?R div unat ft * (unat ft - unat fl)) < 2 ^ 32" using top by linarith
    then have "unat (ec_val s + (ec_rng s - ?r * (ft - fl))) = unat (ec_val s) + (?R - ?R div unat ft * (unat ft - unat fl))"
      using a by (subst unat_add_small) simp_all
    then show ?thesis using False m3
      by (intro exI [of _ "ec_val s + (ec_rng s - ?r * (ft - fl))"] exI [of _ "?r * (fh - fl)"])
        (simp add: freq_defs x ec_encode_def Let_def word_neq_0_conv [symmetric])
  qed
next
  fix x :: "u32 \<times> u32 \<times> u32" and d :: ec_ctx
  assume v: "freq_valid x" and R: "2 ^ 23 < unat (ec_rng d)" "unat (ec_rng d) \<le> 2 ^ 31"
    and c: "unat (ec_val d) + freq_off x (unat (ec_rng d)) < unat (ec_rng d)"
      "unat (ec_rng d) \<le> unat (ec_val d) + freq_off x (unat (ec_rng d)) + freq_wid x (unat (ec_rng d))"
  obtain fl fh ft where x: "x = (fl, fh, ft)" by (rule prod_cases3)
  let ?R = "unat (ec_rng d)" and ?e = "celt_udiv (ec_rng d) ft" and ?V = "unat (ec_val d)"
  let ?r = "?R div unat ft"
  have o: "unat fl < unat fh" "unat fh \<le> unat ft" "unat ft \<le> 2 ^ 23"
    using v by (simp_all add: x freq_valid_def word_less_nat_alt word_le_nat_alt)
  note p = freq_parts [OF o R(1)]
  have r: "unat ?e = ?r" by (simp add: celt_udiv_def unat_div)
  have lo2: "?r * (unat ft - unat fh) \<le> ?V \<and> (unat fl \<noteq> 0 \<longrightarrow> ?V < ?r * (unat ft - unat fl))"
  proof (cases "fl = 0")
    case True
    then show ?thesis
      using found_part(1) [OF _ p(5), of ?V] c(2) by (simp_all add: freq_off_def freq_wid_def x)
  next
    case False
    have "freq_off x ?R = ?R - ?r * (unat ft - unat fl)" "freq_wid x ?R = ?r * (unat fh - unat fl)"
      using False by (simp_all add: freq_off_def freq_wid_def x)
    from found_part(2) [OF p(4,3) c [unfolded this]]
    show ?thesis by simp
  qed
  note lo = conjunct1 [OF lo2] conjunct2 [OF lo2]
  have q: "unat (ec_val d div ?e) = ?V div ?r" by (simp add: unat_div r)
  have "?V < 2 ^ 31" using c(1) R(2) by linarith
  then have "?V div ?r < 2 ^ 31" by (rule le_less_trans [OF div_le_dividend])
  then have "?V div ?r + 1 < 2 ^ 32" by simp
  then have q1: "unat (ec_val d div ?e + 1) = ?V div ?r + 1" using q by (subst unat_add_small) simp_all
  have mn: "unat (min (ec_val d div ?e + 1) ft) = min (?V div ?r + 1) (unat ft)"
    by (simp only: min_def word_le_nat_alt q1 if_distrib [of unat])
  have "unat (min (ec_val d div ?e + 1) ft) \<le> unat ft" using mn by simp
  then have a: "unat (ft - min (ec_val d div ?e + 1) ft) = unat ft - min (?V div ?r + 1) (unat ft)"
    using mn by (subst unat_sub_le) simp_all
  note qb = quotient_bounds [OF p(1) o(1,2) lo]
  have t: "unat (?e * (ft - fh)) = ?r * (unat ft - unat fh)"
    using p(5) R o by (simp add: unat_mult_small unat_sub_le r)
  have m3: "unat (?e * (fh - fl)) = ?r * (unat fh - unat fl)"
    using p(3,4) o R by (subst unat_mult_small) (simp_all add: unat_sub_le r)
  let ?v = "ec_val d - ?e * (ft - fh)"
  let ?u = "if fl > 0 then ?e * (fh - fl) else ec_rng d - ?e * (ft - fh)"
  have v': "unat ?v = ?V - ?r * (unat ft - unat fh)" using lo(1) t by (simp add: unat_sub_le)
  have w: "unat (ec_rng d - ?e * (ft - fh)) = ?R - ?r * (unat ft - unat fh)" using p(5) t by (simp add: unat_sub_le)
  have u': "unat ?u = freq_wid x ?R"
    using m3 w by (simp add: freq_wid_def x word_neq_0_conv [symmetric])
  have "?V - ?r * (unat ft - unat fh) + ?R = ?V + freq_off x ?R + freq_wid x ?R"
    using found_part(3) [OF lo(1) p(5)] found_part(4) [OF lo(1) p(4,3)]
    unfolding freq_off_def freq_wid_def x by (simp split: if_split)
  moreover have "freq_agrees x (ft - min (ec_val d div ?e + 1) ft)"
    using qb a by (simp add: freq_agrees_def x word_le_nat_alt word_less_nat_alt)
  moreover have "dec_freq x d = map_option (Pair (ft - min (ec_val d div ?e + 1) ft))
      (ec_dec_normalize (d\<lparr>ec_ext := ?e, ec_val := ?v, ec_rng := ?u\<rparr>))"
    by (simp add: dec_freq_def x ec_decode_def ec_dec_update_def Let_def)
  ultimately show "\<exists>a e v r. freq_agrees x a \<and> unat r = freq_wid x ?R \<and> unat v + ?R = ?V + freq_off x ?R + freq_wid x ?R \<and>
      dec_freq x d = map_option (Pair a) (ec_dec_normalize (d\<lparr>ec_ext := e, ec_val := v, ec_rng := r\<rparr>))"
    using u' v' by metis
qed

text \<open>The versions for totals that are powers of two are the general ones.\<close>

lemma power_of_two_total:
  assumes "bits < 32"
  shows "celt_udiv r (push_bit bits 1) = drop_bit bits r" "unat (push_bit bits 1 :: u32) = 2 ^ bits"
proof -
  have "(2::nat) ^ bits < 2 ^ LENGTH(32)" using assms power_strict_increasing [of bits 32 "2::nat"] by simp
  moreover have "push_bit bits 1 = (word_of_nat (2 ^ bits) :: u32)" by simp
  ultimately show u: "unat (push_bit bits 1 :: u32) = 2 ^ bits"
    by (simp only: unsigned_of_nat take_bit_nat_eq_self of_nat_id)
  show "celt_udiv r (push_bit bits 1) = drop_bit bits r"
    by (rule word_unat_eq_iff [THEN iffD2]) (simp only: celt_udiv_def unat_div u unat_drop)
qed

lemma bin_is_freq:
  assumes "bits < 32"
  shows "ec_encode_bin fl fh bits s = ec_encode fl fh (push_bit bits 1) s"
    "ec_decode_bin bits s = ec_decode (push_bit bits 1) s"
  by (simp_all only: ec_encode_bin_def ec_encode_def ec_decode_bin_def ec_decode_def Let_def power_of_two_total(1) [OF assms])

definition logp_valid :: "bool \<times> nat \<Rightarrow> bool" where
  "logp_valid x \<longleftrightarrow> 0 < snd x \<and> snd x \<le> 23"

definition logp_off :: "bool \<times> nat \<Rightarrow> nat \<Rightarrow> nat" where
  "logp_off x R = (if fst x then R - R div 2 ^ snd x else 0)"

definition logp_wid :: "bool \<times> nat \<Rightarrow> nat \<Rightarrow> nat" where
  "logp_wid x R = (if fst x then R div 2 ^ snd x else R - R div 2 ^ snd x)"

definition enc_logp :: "bool \<times> nat \<Rightarrow> ec_ctx \<Rightarrow> ec_ctx option" where
  "enc_logp x s = ec_enc_bit_logp (fst x) (snd x) s"

definition dec_logp :: "bool \<times> nat \<Rightarrow> ec_ctx \<Rightarrow> (bool \<times> ec_ctx) option" where
  "dec_logp x d = ec_dec_bit_logp (snd x) d"

definition logp_agrees :: "bool \<times> nat \<Rightarrow> bool \<Rightarrow> bool" where
  "logp_agrees x v \<longleftrightarrow> v = fst x"

lemmas logp_defs = logp_valid_def logp_off_def logp_wid_def enc_logp_def dec_logp_def logp_agrees_def

lemma logp_part:
  assumes "0 < n" "n \<le> 23" "2 ^ 23 < (R::nat)"
  shows "0 < R div 2 ^ n" "R div 2 ^ n < R"
proof -
  have "(2::nat) ^ n \<le> 2 ^ 23" using assms(2) by (intro power_increasing) simp_all
  then show "0 < R div 2 ^ n" using assms(3) by (simp add: div_greater_zero_iff)
  have "(1::nat) < 2 ^ n" using assms(1) by (intro one_less_power) simp_all
  then show "R div 2 ^ n < R" using assms(3) by (intro div_less_dividend) simp_all
qed

interpretation logp: range_symbol enc_logp dec_logp logp_valid logp_off logp_wid logp_agrees
proof
  fix x :: "bool \<times> nat" and R :: nat
  assume "logp_valid x" "2 ^ 23 < R" "R \<le> 2 ^ 31"
  then show "0 < logp_wid x R \<and> logp_off x R + logp_wid x R \<le> R"
    using logp_part [of "snd x" R] by (simp add: logp_defs)
next
  fix x :: "bool \<times> nat" and s :: ec_ctx
  assume v: "logp_valid x" and R: "2 ^ 23 < unat (ec_rng s)" "unat (ec_rng s) \<le> 2 ^ 31"
    and top: "unat (ec_val s) + unat (ec_rng s) \<le> 2 ^ 32"
  let ?R = "unat (ec_rng s)" and ?t = "drop_bit (snd x) (ec_rng s)"
  have p: "0 < ?R div 2 ^ snd x" "?R div 2 ^ snd x < ?R" using logp_part v R by (simp_all add: logp_valid_def)
  have t: "unat ?t = ?R div 2 ^ snd x" by (rule unat_drop)
  have r: "unat (ec_rng s - ?t) = ?R - ?R div 2 ^ snd x" using p t by (subst unat_sub_le) simp_all
  have l: "unat (ec_val s + (ec_rng s - ?t)) = unat (ec_val s) + (?R - ?R div 2 ^ snd x)"
    using p top r by (subst unat_add_small) simp_all
  show "\<exists>v r. unat v = unat (ec_val s) + logp_off x ?R \<and> unat r = logp_wid x ?R \<and>
      enc_logp x s = ec_enc_normalize (s\<lparr>ec_val := v, ec_rng := r\<rparr>)"
    using t r l
    by (intro exI [of _ "if fst x then ec_val s + (ec_rng s - ?t) else ec_val s"]
        exI [of _ "if fst x then ?t else ec_rng s - ?t"])
      (simp add: logp_defs ec_enc_bit_logp_def Let_def del: drop_bit_eq_div)
next
  fix x :: "bool \<times> nat" and d :: ec_ctx
  assume v: "logp_valid x" and R: "2 ^ 23 < unat (ec_rng d)" "unat (ec_rng d) \<le> 2 ^ 31"
    and c: "unat (ec_val d) + logp_off x (unat (ec_rng d)) < unat (ec_rng d)"
      "unat (ec_rng d) \<le> unat (ec_val d) + logp_off x (unat (ec_rng d)) + logp_wid x (unat (ec_rng d))"
  let ?R = "unat (ec_rng d)" and ?t = "drop_bit (snd x) (ec_rng d)"
  have p: "0 < ?R div 2 ^ snd x" "?R div 2 ^ snd x < ?R" using logp_part v R by (simp_all add: logp_valid_def)
  have t: "unat ?t = ?R div 2 ^ snd x" by (rule unat_drop)
  have r: "unat (ec_rng d - ?t) = ?R - ?R div 2 ^ snd x" using p t by (subst unat_sub_le) simp_all
  have b: "ec_val d < ?t \<longleftrightarrow> fst x"
    using c p t unfolding word_less_nat_alt logp_off_def logp_wid_def by (auto split: if_splits)
  have s: "unat (ec_val d - ?t) = unat (ec_val d) - ?R div 2 ^ snd x" if "\<not> fst x"
    using b that t by (subst unat_sub_le) (simp_all add: word_less_nat_alt del: drop_bit_eq_div)
  have m: "unat (if fst x then ec_val d else ec_val d - ?t) + ?R = unat (ec_val d) + logp_off x ?R + logp_wid x ?R"
    using p s b t by (auto simp: logp_off_def logp_wid_def word_less_nat_alt simp del: drop_bit_eq_div)
  show "\<exists>a e v r. logp_agrees x a \<and> unat r = logp_wid x ?R \<and>
      unat v + ?R = unat (ec_val d) + logp_off x ?R + logp_wid x ?R \<and>
      dec_logp x d = map_option (Pair a) (ec_dec_normalize (d\<lparr>ec_ext := e, ec_val := v, ec_rng := r\<rparr>))"
    using t r m b
    by (intro exI [of _ "fst x"] exI [of _ "ec_ext d"] exI [of _ "if fst x then ec_val d else ec_val d - ?t"]
        exI [of _ "if fst x then ?t else ec_rng d - ?t"])
      (simp add: logp_defs ec_dec_bit_logp_def Let_def del: drop_bit_eq_div)
qed

type_synonym icdf_sym = "nat \<times> byte list \<times> nat"

definition icdf_valid :: "icdf_sym \<Rightarrow> bool" where
  "icdf_valid x \<longleftrightarrow> (case x of (i, icdf, ftb) \<Rightarrow> i < length icdf \<and> ftb \<le> 23 \<and> sorted_wrt (\<lambda>a b. b \<le> a) icdf \<and>
     unat (icdf ! 0) \<le> 2 ^ ftb \<and> (if i = 0 then unat (icdf ! 0) < 2 ^ ftb else icdf ! i < icdf ! (i - 1)))"

definition icdf_off :: "icdf_sym \<Rightarrow> nat \<Rightarrow> nat" where
  "icdf_off x R = (case x of (i, icdf, ftb) \<Rightarrow> if i = 0 then 0 else R - R div 2 ^ ftb * unat (icdf ! (i - 1)))"

definition icdf_wid :: "icdf_sym \<Rightarrow> nat \<Rightarrow> nat" where
  "icdf_wid x R = (case x of (i, icdf, ftb) \<Rightarrow> if i = 0 then R - R div 2 ^ ftb * unat (icdf ! 0)
     else R div 2 ^ ftb * (unat (icdf ! (i - 1)) - unat (icdf ! i)))"

definition enc_icdf :: "icdf_sym \<Rightarrow> ec_ctx \<Rightarrow> ec_ctx option" where
  "enc_icdf x s = (case x of (i, icdf, ftb) \<Rightarrow> ec_enc_icdf i icdf ftb s)"

definition dec_icdf :: "icdf_sym \<Rightarrow> ec_ctx \<Rightarrow> (nat \<times> ec_ctx) option" where
  "dec_icdf x d = (case x of (i, icdf, ftb) \<Rightarrow> ec_dec_icdf icdf ftb d)"

definition icdf_agrees :: "icdf_sym \<Rightarrow> nat \<Rightarrow> bool" where
  "icdf_agrees x v \<longleftrightarrow> v = fst x"

lemmas icdf_defs = icdf_valid_def icdf_off_def icdf_wid_def enc_icdf_def dec_icdf_def icdf_agrees_def

lemma unat_byte_u32 [simp]: "unat (ucast (b :: byte) :: u32) = unat b"
proof -
  have "unat b < 2 ^ 8" using unsigned_less [of b] by simp
  then have "unat b < 2 ^ 32" by simp
  then show ?thesis by (simp add: unsigned_ucast_eq take_bit_nat_eq_self)
qed

text \<open>The parts of an interval for a table.\<close>

lemma icdf_parts:
  assumes "icdf_valid (i, icdf, ftb)" "2 ^ 23 < R"
  defines "r \<equiv> R div 2 ^ ftb"
  shows "0 < r" "j < length icdf \<Longrightarrow> r * unat (icdf ! j) \<le> R" "i = 0 \<Longrightarrow> r * unat (icdf ! 0) < R"
    "0 < i \<Longrightarrow> r * unat (icdf ! i) + r * (unat (icdf ! (i - 1)) - unat (icdf ! i)) = r * unat (icdf ! (i - 1))"
    "0 < i \<Longrightarrow> 0 < r * (unat (icdf ! (i - 1)) - unat (icdf ! i))"
    "j < i \<Longrightarrow> r * unat (icdf ! (i - 1)) \<le> r * unat (icdf ! j)"
proof -
  note v = assms(1) [unfolded icdf_valid_def prod.case]
  have "(2::nat) ^ ftb \<le> 2 ^ 23" using v by (intro power_increasing) simp_all
  then show r: "0 < r" using assms(2) by (simp add: r_def div_greater_zero_iff)
  have top: "r * 2 ^ ftb \<le> R" by (simp add: r_def)
  have mono: "unat (icdf ! b) \<le> unat (icdf ! a)" if "a \<le> b" "b < length icdf" for a b
    using that v sorted_wrt_nth_less [of _ icdf a b] by (cases "a = b") (auto simp: word_le_nat_alt)
  show "r * unat (icdf ! j) \<le> R" if "j < length icdf"
  proof -
    have "unat (icdf ! j) \<le> 2 ^ ftb" using mono [of 0 j] that v by simp
    then have "r * unat (icdf ! j) \<le> r * 2 ^ ftb" by simp
    then show ?thesis using top by linarith
  qed
  show "r * unat (icdf ! 0) < R" if "i = 0"
  proof -
    have "r * unat (icdf ! 0) < r * 2 ^ ftb" using v that r by simp
    then show ?thesis using top by linarith
  qed
  show "r * unat (icdf ! (i - 1)) \<le> r * unat (icdf ! j)" if "j < i"
  proof -
    have "j \<le> i - 1" "i - 1 < length icdf" using that v by auto
    then show ?thesis using mono [of j "i - 1"] by simp
  qed
  assume i: "0 < i"
  then have "unat (icdf ! i) < unat (icdf ! (i - 1))" using v by (simp add: word_less_nat_alt)
  then show "r * unat (icdf ! i) + r * (unat (icdf ! (i - 1)) - unat (icdf ! i)) = r * unat (icdf ! (i - 1))"
    "0 < r * (unat (icdf ! (i - 1)) - unat (icdf ! i))"
    using r by (simp_all flip: distrib_left)
qed

lemma icdf_search_finds:
  assumes "i < length xs" "\<forall>j < i. d < r * ucast (xs ! j)" "\<not> d < r * ucast (xs ! i)"
  shows "icdf_search r d t ret xs = Some (ret + i, if i = 0 then t else r * ucast (xs ! (i - 1)), r * ucast (xs ! i))"
  using assms
proof (induction xs arbitrary: i t ret)
  case (Cons x xs)
  show ?case
  proof (cases i)
    case 0
    then show ?thesis using Cons.prems by (simp add: Let_def)
  next
    case (Suc k)
    have "\<forall>j < k. d < r * ucast (xs ! j)" using Cons.prems(2) Suc by force
    moreover have "d < r * ucast x" using Cons.prems(2) Suc by force
    ultimately show ?thesis
      using Cons.IH [of k "r * ucast x" "Suc ret"] Cons.prems Suc by (cases k) (simp_all add: Let_def)
  qed
qed simp

interpretation icdf: range_symbol enc_icdf dec_icdf icdf_valid icdf_off icdf_wid icdf_agrees
proof
  fix x :: icdf_sym and R :: nat
  assume v: "icdf_valid x" and R: "2 ^ 23 < R" "R \<le> 2 ^ 31"
  obtain i icdf ftb where x: "x = (i, icdf, ftb)" by (rule prod_cases3)
  note p = icdf_parts [OF v [unfolded x] R(1)]
  show "0 < icdf_wid x R \<and> icdf_off x R + icdf_wid x R \<le> R"
  proof (cases "i = 0")
    case True
    then show ?thesis using p(3) by (simp add: icdf_defs x)
  next
    case False
    have "i < length icdf" using v by (simp add: icdf_defs x)
    then show ?thesis using False p(4,5) p(2) [of "i - 1"] by (simp add: icdf_defs x)
  qed
next
  fix x :: icdf_sym and s :: ec_ctx
  assume v: "icdf_valid x" and R: "2 ^ 23 < unat (ec_rng s)" "unat (ec_rng s) \<le> 2 ^ 31"
    and top: "unat (ec_val s) + unat (ec_rng s) \<le> 2 ^ 32"
  obtain i icdf ftb where x: "x = (i, icdf, ftb)" by (rule prod_cases3)
  let ?R = "unat (ec_rng s)" and ?r = "drop_bit ftb (ec_rng s)"
  note p = icdf_parts [OF v [unfolded x] R(1)]
  have i: "i < length icdf" using v by (simp add: icdf_defs x)
  have r: "unat ?r = ?R div 2 ^ ftb" by (rule unat_drop)
  have m: "unat (?r * ucast (icdf ! j)) = ?R div 2 ^ ftb * unat (icdf ! j)" if "j < length icdf" for j
  proof -
    have "?R div 2 ^ ftb * unat (icdf ! j) < 2 ^ 32" using p(2) [OF that] R by simp
    then show ?thesis using unat_mult_small [of ?r "ucast (icdf ! j)"] by (simp only: r unat_byte_u32)
  qed
  show "\<exists>v r. unat v = unat (ec_val s) + icdf_off x ?R \<and> unat r = icdf_wid x ?R \<and>
      enc_icdf x s = ec_enc_normalize (s\<lparr>ec_val := v, ec_rng := r\<rparr>)"
  proof (cases "i = 0")
    case True
    have "unat (ec_rng s - ?r * ucast (icdf ! 0)) = ?R - ?R div 2 ^ ftb * unat (icdf ! 0)"
      using m [of 0] p(3) True i by (simp add: unat_sub_le)
    then show ?thesis using True i
      by (intro exI [of _ "ec_val s"] exI [of _ "ec_rng s - ?r * ucast (icdf ! 0)"])
        (simp add: icdf_defs x ec_enc_icdf_def icdf_at_def Let_def del: drop_bit_eq_div)
  next
    case False
    let ?P = "?R div 2 ^ ftb * unat (icdf ! (i - 1))"
    have lt: "icdf ! i < icdf ! (i - 1)" using v False by (simp add: icdf_defs x)
    have P: "?P \<le> ?R" "0 < ?P" using p(2) [of "i - 1"] p(4,5) i False by linarith+
    have a: "unat (ec_rng s - ?r * ucast (icdf ! (i - 1))) = ?R - ?P"
      using m [of "i - 1"] P i by (simp add: unat_sub_le)
    have "?R - ?P < ?R" using P(2) R by (intro diff_less) simp_all
    then have "unat (ec_val s) + (?R - ?P) < 2 ^ 32" using top by linarith
    then have b: "unat (ec_val s + (ec_rng s - ?r * ucast (icdf ! (i - 1)))) = unat (ec_val s) + (?R - ?P)"
      using a by (subst unat_add_small) simp_all
    have "unat (ucast (icdf ! (i - 1)) - ucast (icdf ! i) :: u32) = unat (icdf ! (i - 1)) - unat (icdf ! i)"
      using lt by (subst unat_sub_le) (simp_all add: word_less_nat_alt)
    then have c: "unat (?r * (ucast (icdf ! (i - 1)) - ucast (icdf ! i))) = ?R div 2 ^ ftb * (unat (icdf ! (i - 1)) - unat (icdf ! i))"
      using p(4) P(1) R False by (subst unat_mult_small) (simp_all add: r del: drop_bit_eq_div)
    have "i - 1 < length icdf" using i by simp
    then have "enc_icdf x s = ec_enc_normalize (s\<lparr>ec_val := ec_val s + (ec_rng s - ?r * ucast (icdf ! (i - 1))),
        ec_rng := ?r * (ucast (icdf ! (i - 1)) - ucast (icdf ! i))\<rparr>)"
      using False i by (simp add: icdf_defs x ec_enc_icdf_def icdf_at_def Let_def del: drop_bit_eq_div)
    moreover have "icdf_off x ?R = ?R - ?P"
      "icdf_wid x ?R = ?R div 2 ^ ftb * (unat (icdf ! (i - 1)) - unat (icdf ! i))"
      using False by (simp_all add: icdf_defs x)
    ultimately show ?thesis using b c by metis
  qed
next
  fix x :: icdf_sym and d :: ec_ctx
  assume v: "icdf_valid x" and R: "2 ^ 23 < unat (ec_rng d)" "unat (ec_rng d) \<le> 2 ^ 31"
    and c: "unat (ec_val d) + icdf_off x (unat (ec_rng d)) < unat (ec_rng d)"
      "unat (ec_rng d) \<le> unat (ec_val d) + icdf_off x (unat (ec_rng d)) + icdf_wid x (unat (ec_rng d))"
  obtain i icdf ftb where x: "x = (i, icdf, ftb)" by (rule prod_cases3)
  let ?R = "unat (ec_rng d)" and ?r = "drop_bit ftb (ec_rng d)" and ?V = "unat (ec_val d)"
  note p = icdf_parts [OF v [unfolded x] R(1)]
  have i: "i < length icdf" using v by (simp add: icdf_defs x)
  have r: "unat ?r = ?R div 2 ^ ftb" by (rule unat_drop)
  have m: "unat (?r * ucast (icdf ! j)) = ?R div 2 ^ ftb * unat (icdf ! j)" if "j < length icdf" for j
  proof -
    have "?R div 2 ^ ftb * unat (icdf ! j) < 2 ^ 32" using p(2) [OF that] R by simp
    then show ?thesis using unat_mult_small [of ?r "ucast (icdf ! j)"] by (simp only: r unat_byte_u32)
  qed
  let ?s = "?r * ucast (icdf ! i)" and ?t = "if i = 0 then ec_rng d else ?r * ucast (icdf ! (i - 1))"
  have lo: "?R div 2 ^ ftb * unat (icdf ! i) \<le> ?V \<and> (0 < i \<longrightarrow> ?V < ?R div 2 ^ ftb * unat (icdf ! (i - 1)))"
  proof (cases "i = 0")
    case True
    then show ?thesis using found_part(1) [OF _ p(3) [OF True], of ?V] c(2) by (simp add: icdf_defs x)
  next
    case False
    have "icdf_off x ?R = ?R - ?R div 2 ^ ftb * unat (icdf ! (i - 1))"
      "icdf_wid x ?R = ?R div 2 ^ ftb * (unat (icdf ! (i - 1)) - unat (icdf ! i))"
      using False by (simp_all add: icdf_defs x)
    moreover have "i - 1 < length icdf" using i by simp
    ultimately show ?thesis using found_part(2) [OF p(4) p(2) [of "i - 1"], of ?V] c False by simp
  qed
  have "ec_val d < ?r * ucast (icdf ! j)" if "j < i" for j
  proof -
    have "0 < i" using that by simp
    then have "?V < ?R div 2 ^ ftb * unat (icdf ! (i - 1))" using lo by (simp only:)
    also have "\<dots> \<le> ?R div 2 ^ ftb * unat (icdf ! j)" by (rule p(6) [OF that])
    finally show ?thesis using m [of j] that i by (simp add: word_less_nat_alt del: drop_bit_eq_div)
  qed
  then have search: "icdf_search ?r (ec_val d) (ec_rng d) 0 icdf = Some (i, ?t, ?s)"
    using icdf_search_finds [of i icdf "ec_val d" ?r "ec_rng d" 0] i lo m [OF i]
    by (simp add: word_less_nat_alt del: drop_bit_eq_div)
  have vs: "unat (ec_val d - ?s) = ?V - ?R div 2 ^ ftb * unat (icdf ! i)" using lo m [OF i] by (subst unat_sub_le) simp_all
  have ts: "unat (?t - ?s) = icdf_wid x ?R \<and> ?V - ?R div 2 ^ ftb * unat (icdf ! i) + ?R = ?V + icdf_off x ?R + icdf_wid x ?R"
  proof (cases "i = 0")
    case True
    then show ?thesis
      using p(3) m [OF i] found_part(3) [OF conjunct1 [OF lo]] by (simp add: icdf_defs x unat_sub_le del: drop_bit_eq_div)
  next
    case False
    then have j: "i - 1 < length icdf" using i by simp
    have lt: "unat (icdf ! i) \<le> unat (icdf ! (i - 1))" using v False by (simp add: icdf_defs x word_less_nat_alt)
    have "unat (?t - ?s) = ?R div 2 ^ ftb * unat (icdf ! (i - 1)) - ?R div 2 ^ ftb * unat (icdf ! i)"
      using False m [OF i] m [OF j] lt by (subst unat_sub_le) (simp_all del: drop_bit_eq_div)
    also have "\<dots> = icdf_wid x ?R" using p(4) False by (simp add: icdf_defs x)
    finally show ?thesis
      using False found_part(4) [OF conjunct1 [OF lo] p(4) p(2) [OF j]] by (simp add: icdf_defs x)
  qed
  have "dec_icdf x d = map_option (Pair i) (ec_dec_normalize (d\<lparr>ec_ext := ec_ext d, ec_val := ec_val d - ?s, ec_rng := ?t - ?s\<rparr>))"
    using search by (simp add: icdf_defs x ec_dec_icdf_def Let_def del: drop_bit_eq_div)
  then show "\<exists>a e v r. icdf_agrees x a \<and> unat r = icdf_wid x ?R \<and> unat v + ?R = ?V + icdf_off x ?R + icdf_wid x ?R \<and>
      dec_icdf x d = map_option (Pair a) (ec_dec_normalize (d\<lparr>ec_ext := e, ec_val := v, ec_rng := r\<rparr>))"
    using vs ts by (intro exI [of _ i] exI [of _ "ec_ext d"] exI [of _ "ec_val d - ?s"] exI [of _ "?t - ?s"])
      (simp add: icdf_agrees_def x del: drop_bit_eq_div)
qed

subsection \<open>Raw bits in the encoder\<close>

definition end_bytes :: "ec_ctx \<Rightarrow> nat list" where
  "end_bytes s = map unat (rev (drop (length (ec_buf s) - ec_end_offs s) (ec_buf s)))"

text \<open>The number the raw bits make, with the window \<open>w\<close>.\<close>

definition raw_num :: "u32 \<Rightarrow> ec_ctx \<Rightarrow> nat" where
  "raw_num w s = le_num (end_bytes s) + unat w * 256 ^ ec_end_offs s"

definition raw_val :: "ec_ctx \<Rightarrow> nat" where
  "raw_val s = raw_num (ec_end_window s) s"

text \<open>Everything but the raw part and the error.\<close>

definition front :: "ec_ctx \<Rightarrow> nat \<times> byte list \<times> nat \<times> u32 \<times> u32 \<times> u32 \<times> int" where
  "front s = (length (ec_buf s), take (ec_offs s) (ec_buf s), ec_offs s, ec_rng s, ec_val s, ec_ext s, ec_rem s)"

lemma front_upd [simp]:
  "front (s\<lparr>ec_end_window := w\<rparr>) = front s" "front (s\<lparr>ec_nend_bits := k\<rparr>) = front s"
  "front (s\<lparr>ec_nbits_total := b\<rparr>) = front s"
  by (simp_all add: front_def)

lemma front_digits: "front s' = front s \<Longrightarrow> digits s' = digits s"
  by (auto simp: front_def digits_def)

lemma front_low: "front s' = front s \<Longrightarrow> low s' = low s"
  using front_digits [of s' s] by (simp add: low_def) (simp add: front_def)

lemma tail_raw: "tail s' = tail s \<Longrightarrow> raw_val s' = raw_val s \<and> raw_bits s' = raw_bits s"
  by (auto simp: tail_def raw_val_def raw_num_def end_bytes_def raw_bits_def)

lemma end_put:
  fixes v :: byte and s :: ec_ctx
  assumes "ec_offs s + ec_end_offs s \<le> length (ec_buf s)"
  defines "s' \<equiv> ec_or_error (ec_write_byte_at_end v s)"
  shows "\<not> room 1 s \<Longrightarrow> ec_error s' = -1"
    "room 1 s \<Longrightarrow> ec_error s' = ec_error s \<and> front s' = front s \<and> end_bytes s' = end_bytes s @ [unat v] \<and>
      ec_end_offs s' = Suc (ec_end_offs s) \<and> ec_offs s' + ec_end_offs s' \<le> length (ec_buf s') \<and>
      ec_nbits_total s' = ec_nbits_total s"
    "ec_end_window s' = ec_end_window s" "ec_nend_bits s' = ec_nend_bits s"
proof -
  show "ec_end_window s' = ec_end_window s" "ec_nend_bits s' = ec_nend_bits s"
    by (simp_all add: s'_def ec_or_error_def ec_write_byte_at_end_def)
  show "ec_error s' = -1" if "\<not> room 1 s"
    using that by (simp add: s'_def ec_or_error_def ec_write_byte_at_end_def room_def)
  assume r: "room 1 s"
  let ?i = "length (ec_buf s) - Suc (ec_end_offs s)"
  have i: "?i < length (ec_buf s)" "ec_offs s \<le> ?i" "Suc ?i = length (ec_buf s) - ec_end_offs s"
    using r by (simp_all add: room_def)
  have s: "s' = s\<lparr>ec_buf := (ec_buf s)[?i := v], ec_end_offs := Suc (ec_end_offs s)\<rparr>"
    using r by (simp add: s'_def ec_or_error_def ec_write_byte_at_end_def room_def)
  have "drop ?i ((ec_buf s)[?i := v]) = v # drop (Suc ?i) (ec_buf s)"
    using i(1) by (simp add: upd_conv_take_nth_drop)
  then have "end_bytes s' = end_bytes s @ [unat v]" using i(3) by (simp add: s end_bytes_def)
  moreover have "front s' = front s" using i(2) by (simp add: s front_def)
  ultimately show "ec_error s' = ec_error s \<and> front s' = front s \<and> end_bytes s' = end_bytes s @ [unat v] \<and>
      ec_end_offs s' = Suc (ec_end_offs s) \<and> ec_offs s' + ec_end_offs s' \<le> length (ec_buf s') \<and>
      ec_nbits_total s' = ec_nbits_total s"
    using r by (simp add: s room_def)
qed

lemma length_end_bytes: "ec_end_offs s \<le> length (ec_buf s) \<Longrightarrow> length (end_bytes s) = ec_end_offs s"
  by (simp add: end_bytes_def)

lemma raw_num_less:
  assumes "ec_end_offs s \<le> length (ec_buf s)" "unat w < 2 ^ n"
  shows "raw_num w s < 2 ^ (8 * ec_end_offs s + n)"
proof -
  have "\<forall>x \<in> set (end_bytes s). x < 256"
  proof
    fix x assume "x \<in> set (end_bytes s)"
    then obtain b :: byte where "x = unat b" by (auto simp: end_bytes_def)
    moreover have "unat b < 2 ^ 8" using unsigned_less [of b] by simp
    ultimately show "x < 256" by simp
  qed
  then have "le_num (end_bytes s) + 1 \<le> 256 ^ ec_end_offs s"
    using le_num_less [of "end_bytes s"] length_end_bytes [OF assms(1)] by simp
  moreover have "(unat w + 1) * 256 ^ ec_end_offs s \<le> 2 ^ n * 256 ^ ec_end_offs s"
    using assms(2) by (intro mult_le_mono1) simp
  ultimately have "raw_num w s < 2 ^ n * 256 ^ ec_end_offs s" by (simp add: raw_num_def)
  also have "\<dots> = 2 ^ (8 * ec_end_offs s + n)" by (simp add: power_add power_mult)
  finally show ?thesis .
qed

lemma digit_split: "P * (x mod 256) + x div 256 * (256 * P) = x * P" for P x :: nat
proof -
  have "x * P = (256 * (x div 256) + x mod 256) * P" by (simp only: mult_div_mod_eq)
  also have "\<dots> = P * (x mod 256) + x div 256 * (256 * P)" by (simp only: algebra_simps)
  finally show ?thesis by simp
qed

lemma flush_window:
  assumes "ec_offs s + ec_end_offs s \<le> length (ec_buf s)" "unat w < 2 ^ used"
    "ec_flush_window used w s = (w', used', s')" "ec_error s' = 0"
  shows "ec_error s = 0 \<and> front s' = front s \<and> used' < 8 \<and> unat w' < 2 ^ used' \<and>
    8 * ec_end_offs s' + used' = 8 * ec_end_offs s + used \<and> raw_num w' s' = raw_num w s \<and>
    ec_offs s' + ec_end_offs s' \<le> length (ec_buf s') \<and> ec_nbits_total s' = ec_nbits_total s"
  using assms
proof (induction used w s rule: ec_flush_window.induct)
  case (1 used w s)
  show ?case
  proof (cases "8 \<le> used")
    case False
    then have "(w', used', s') = (w, used, s)" using "1.prems"(3) by (simp add: ec_flush_window.simps [of used])
    then show ?thesis using False "1.prems" by simp
  next
    case True
    let ?b = "ucast (w AND 255) :: byte" and ?u = "ec_or_error (ec_write_byte_at_end (ucast (w AND 255)) s)"
    have f: "ec_flush_window (used - 8) (drop_bit 8 w) ?u = (w', used', s')"
      using "1.prems"(3) True by (simp add: ec_flush_window.simps [of used] del: drop_bit_eq_div)
    have wb: "unat (drop_bit 8 w) = unat w div 256" by (simp add: unat_drop del: drop_bit_eq_div)
    have "used = (used - 8) + 8" using True by simp
    then have "(2::nat) ^ used = 2 ^ (used - 8) * 2 ^ 8" by (metis power_add)
    then have "unat w < 2 ^ (used - 8) * 256" using "1.prems"(2) by simp
    then have w: "unat (drop_bit 8 w) < 2 ^ (used - 8)" unfolding wb by (simp add: less_mult_imp_div_less)
    have byte: "unat ?b = unat w mod 256"
    proof -
      have "unat (w AND 255) mod 256 = unat w mod 256" unfolding unat_255_and by simp
      then show ?thesis by (simp add: unsigned_ucast_eq take_bit_eq_mod)
    qed
    show ?thesis
    proof (cases "room 1 s")
      case False
      then have "ec_error ?u = -1" using end_put(1) [OF "1.prems"(1)] by simp
      moreover have "ec_error u = -1 \<Longrightarrow> ec_flush_window k x u = (x', k', u') \<Longrightarrow> ec_error u' = -1" for k x u x' k' u'
        by (induction k x u rule: ec_flush_window.induct)
          (subst (asm) ec_flush_window.simps, auto simp: ec_or_error_def ec_write_byte_at_end_def split: if_splits)
      ultimately show ?thesis using f "1.prems"(4) by fastforce
    next
      case r: True
      note p = end_put(2) [OF "1.prems"(1) r, of ?b]
      have "raw_num (drop_bit 8 w) ?u = raw_num w s"
      proof -
        have "le_num (end_bytes ?u) = le_num (end_bytes s) + 256 ^ ec_end_offs s * (unat w mod 256)"
          using p "1.prems"(1) by (simp add: le_num_append length_end_bytes byte)
        then show ?thesis
          using p digit_split [of "256 ^ ec_end_offs s" "unat w"] unfolding raw_num_def wb by simp
      qed
      moreover have "ec_offs ?u + ec_end_offs ?u \<le> length (ec_buf ?u)" using p by simp
      note IH = "1.IH" [OF True, unfolded ec_consts, OF this w f "1.prems"(4)]
      ultimately show ?thesis using p True by simp
    qed
  qed
qed

lemma window_or:
  assumes "unat (w :: u32) < 2 ^ k" "unat x < 2 ^ n" "k + n \<le> 32"
  shows "unat (w OR push_bit k x) = unat w + unat x * 2 ^ k" "unat w + unat x * 2 ^ k < 2 ^ (k + n)"
proof -
  have "unat w + unat x * 2 ^ k < 2 ^ k + unat x * 2 ^ k" using assms(1) by simp
  also have "\<dots> = (unat x + 1) * 2 ^ k" by simp
  also have "\<dots> \<le> 2 ^ n * 2 ^ k" using assms(2) by (intro mult_le_mono1) simp
  finally show l: "unat w + unat x * 2 ^ k < 2 ^ (k + n)" by (simp add: power_add mult.commute)
  have "(2::nat) ^ (k + n) \<le> 2 ^ 32" using assms(3) by (intro power_increasing) simp_all
  then have l32: "unat x * 2 ^ k < 2 ^ 32" using l by linarith
  have p: "unat (push_bit k x) = unat x * 2 ^ k"
  proof -
    have "unat (push_bit k x) = take_bit 32 (push_bit k (unat x))" by (simp only: unsigned_push_bit_eq) simp
    then show ?thesis using l32 by (simp add: push_bit_eq_mult take_bit_nat_eq_self)
  qed
  have "take_bit k (unat w) = unat w" using assms(1) by (simp add: take_bit_nat_eq_self)
  then have small: "i < k" if "bit w i" for i using that bit_take_bit_iff [of k "unat w" i] by (simp add: bit_unsigned_iff)
  have "unat (w OR push_bit k x) = unat w OR push_bit k (unat x)"
    unfolding unsigned_or_eq p by (simp add: push_bit_eq_mult)
  also have "\<dots> = unat w + push_bit k (unat x)"
    by (rule disjunctive_add [symmetric]) (auto simp: bit_simps dest!: small)
  finally show "unat (w OR push_bit k x) = unat w + unat x * 2 ^ k" by (simp add: push_bit_eq_mult)
qed

lemma enc_bits:
  assumes ok: "enc_ok s" and b: "0 < bits" "bits \<le> 25" "unat fl < 2 ^ bits" and err: "ec_error (ec_enc_bits fl bits s) = 0"
  shows "ec_error s = 0" "enc_ok (ec_enc_bits fl bits s)" "front (ec_enc_bits fl bits s) = front s"
    "raw_bits (ec_enc_bits fl bits s) = raw_bits s + bits"
    "raw_val (ec_enc_bits fl bits s) = raw_val s + unat fl * 2 ^ raw_bits s"
proof -
  note mid = ok [unfolded enc_ok_def enc_mid_def]
  have wf: "ec_offs s + ec_end_offs s \<le> length (ec_buf s)" "unat (ec_end_window s) < 2 ^ ec_nend_bits s"
    using mid by (simp_all add: wf_enc_def raw_ok_def)
  define r where "r = (if ec_nend_bits s + bits > 32 then ec_flush_window (ec_nend_bits s) (ec_end_window s) s
    else (ec_end_window s, ec_nend_bits s, s))"
  obtain w k u where wku: "r = (w, k, u)" by (rule prod_cases3)
  have s: "ec_enc_bits fl bits s = u\<lparr>ec_end_window := w OR push_bit k fl, ec_nend_bits := k + bits,
      ec_nbits_total := ec_nbits_total u + int bits\<rparr>"
    using wku by (simp add: ec_enc_bits_def r_def Let_def del: push_bit_eq_mult)
  have eu: "ec_error u = 0" using err unfolding s by simp
  have u: "ec_error s = 0 \<and> front u = front s \<and> unat w < 2 ^ k \<and> 8 * ec_end_offs u + k = raw_bits s \<and>
      raw_num w u = raw_val s \<and> ec_offs u + ec_end_offs u \<le> length (ec_buf u) \<and> ec_nbits_total u = ec_nbits_total s \<and> k + bits \<le> 32"
  proof (cases "ec_nend_bits s + bits > 32")
    case True
    then have "ec_flush_window (ec_nend_bits s) (ec_end_window s) s = (w, k, u)" using wku by (simp add: r_def)
    from flush_window [OF wf this eu] show ?thesis using b by (simp add: raw_bits_def raw_val_def)
  next
    case False
    then show ?thesis using wku wf eu by (auto simp: r_def raw_bits_def raw_val_def)
  qed
  note wo = window_or [OF conjunct1 [OF conjunct2 [OF conjunct2 [OF u]]] b(3)]
  show "ec_error s = 0" using u by blast
  show f: "front (ec_enc_bits fl bits s) = front s" using u unfolding s by simp
  show rb: "raw_bits (ec_enc_bits fl bits s) = raw_bits s + bits" using u unfolding s by (simp add: raw_bits_def)
  have "256 ^ ec_end_offs u * 2 ^ k = (2::nat) ^ (8 * ec_end_offs u + k)" by (simp add: power_add power_mult)
  then have "256 ^ ec_end_offs u * 2 ^ k = (2::nat) ^ raw_bits s" using u by (simp only:)
  then show "raw_val (ec_enc_bits fl bits s) = raw_val s + unat fl * 2 ^ raw_bits s"
    using u wo(1) unfolding s by (simp add: raw_val_def raw_num_def end_bytes_def algebra_simps del: push_bit_eq_mult)
  have d: "digits (ec_enc_bits fl bits s) = digits s" by (rule front_digits [OF f])
  have "raw_ok (ec_enc_bits fl bits s)" using u wo unfolding s by (simp add: raw_ok_def del: push_bit_eq_mult)
  moreover have "wf_enc (ec_enc_bits fl bits s)" using mid u unfolding s by (auto simp: wf_enc_def front_def)
  moreover have "ec_nbits_total (ec_enc_bits fl bits s) = ec_nbits_total s + int bits" using u unfolding s by simp
  ultimately show "enc_ok (ec_enc_bits fl bits s)"
    using mid f d rb by (simp add: enc_ok_def enc_mid_def) (simp add: front_def)
qed

subsection \<open>Raw bits in the decoder\<close>

definition rstream :: "byte list \<Rightarrow> nat \<Rightarrow> nat" where
  "rstream buf i = (if i < length buf then unat (buf ! (length buf - (i + 1))) else 0)"

definition rnum :: "byte list \<Rightarrow> nat \<Rightarrow> nat" where
  "rnum buf k = le_num (map (rstream buf) [0..<k])"

text \<open>The first \<open>T\<close> raw bits.\<close>

definition raw_at :: "byte list \<Rightarrow> nat \<Rightarrow> nat" where
  "raw_at buf T = rnum buf T mod 2 ^ T"

definition dec_raw :: "byte list \<Rightarrow> nat \<Rightarrow> ec_ctx \<Rightarrow> bool" where
  "dec_raw buf T d \<longleftrightarrow> (\<exists>k. T + ec_nend_bits d = 8 * k \<and> ec_end_offs d = min k (length buf) \<and>
     unat (ec_end_window d) = rnum buf k div 2 ^ T) \<and> ec_nend_bits d \<le> 32"

lemma rstream_less: "rstream buf i < 256"
proof -
  have "unat (buf ! (length buf - (i + 1))) < 2 ^ 8" using unsigned_less [of "buf ! (length buf - (i + 1))"] by simp
  then show ?thesis by (simp add: rstream_def)
qed

lemma rnum_Suc: "rnum buf (Suc k) = rnum buf k + rstream buf k * 256 ^ k"
  by (simp add: rnum_def le_num_append)

lemma rnum_less: "rnum buf k < 256 ^ k"
  using le_num_less [of "map (rstream buf) [0..<k]"] rstream_less by (auto simp: rnum_def)

lemma rnum_mod: "k \<le> k' \<Longrightarrow> rnum buf k' mod 256 ^ k = rnum buf k"
proof (induction k' rule: dec_induct)
  case base
  then show ?case using rnum_less by simp
next
  case (step m)
  have "256 ^ k dvd (256 ^ m :: nat)" using step(1) by (rule le_imp_power_dvd)
  then have "(rnum buf m + rstream buf m * 256 ^ m) mod 256 ^ k = rnum buf m mod 256 ^ k"
    by (metis dvd_mult mod_add_right_eq dvd_imp_mod_0 add.right_neutral)
  then show ?case using step by (simp add: rnum_Suc)
qed

lemma rnum_raw_at: "T \<le> 8 * k \<Longrightarrow> rnum buf k mod 2 ^ T = raw_at buf T"
proof -
  assume T: "T \<le> 8 * k"
  have p: "(2::nat) ^ (8 * j) = 256 ^ j" for j by (simp add: power_mult)
  have "rnum buf (max k T) mod 2 ^ T = rnum buf j mod 2 ^ T" if "T \<le> 8 * j" "j \<le> max k T" for j
  proof -
    have "(2::nat) ^ T dvd 256 ^ j" unfolding p [symmetric] using that(1) by (rule le_imp_power_dvd)
    then show ?thesis using rnum_mod [OF that(2), of buf] mod_mod_cancel by metis
  qed
  from this [of k] this [of T] T show ?thesis by (simp add: raw_at_def)
qed

lemma raw_at_mod: "T \<le> T' \<Longrightarrow> raw_at buf T' mod 2 ^ T = raw_at buf T"
proof -
  assume T: "T \<le> T'"
  have "raw_at buf T' mod 2 ^ T = rnum buf T' mod 2 ^ T"
    unfolding raw_at_def using T by (intro mod_mod_cancel le_imp_power_dvd)
  also have "\<dots> = raw_at buf T" by (rule rnum_raw_at) (use T in simp)
  finally show ?thesis .
qed

text \<open>What \<open>ec_dec_bits\<close> leaves alone.\<close>

definition dec_front :: "ec_ctx \<Rightarrow> byte list \<times> nat \<times> u32 \<times> u32 \<times> int \<times> int" where
  "dec_front d = (ec_buf d, ec_offs d, ec_rng d, ec_val d, ec_rem d, ec_error d)"

lemma dec_front_rel: "dec_front d' = dec_front d \<Longrightarrow> dec_rel buf L R n d' = dec_rel buf L R n d"
  by (simp add: dec_front_def dec_rel_def)

lemma read_from_end:
  assumes "ec_buf d = buf" "ec_end_offs d = min k (length buf)"
  shows "ec_read_byte_from_end d = (word_of_nat (rstream buf k), d\<lparr>ec_end_offs := min (Suc k) (length buf)\<rparr>)"
proof (cases "k < length buf")
  case True
  have "ucast b = (word_of_nat (unat b) :: u32)" for b :: byte by simp
  then show ?thesis using assms True by (simp add: ec_read_byte_from_end_def rstream_def)
qed (use assms in \<open>simp add: ec_read_byte_from_end_def rstream_def\<close>)

end
