(* ===== verification/Roundtrip.thy ===== *)
theory Roundtrip
  imports Rangecoder
begin

section \<open>The range coder decodes what it encoded: streams of symbols\<close>

text \<open>
  Raw bits in the decoder, the end of the stream (\<open>ec_enc_done\<close>), and the round trip of a list of
  symbols of all kinds through encoder and decoder.
\<close>

subsection \<open>Reading raw bits\<close>

lemma fill_window:
  assumes "ec_buf d = buf" "ec_end_offs d = min k (length buf)" "T + a = 8 * k" "a \<le> 24" "unat w = rnum buf k div 2 ^ T"
    "ec_fill_window w a d = (w', a', d')"
  shows "\<exists>k'. T + a' = 8 * k' \<and> ec_end_offs d' = min k' (length buf) \<and> unat w' = rnum buf k' div 2 ^ T \<and>
    24 < a' \<and> a' \<le> 32 \<and> dec_front d' = dec_front d \<and> ec_nbits_total d' = ec_nbits_total d"
  using assms
proof (induction w a d arbitrary: k rule: ec_fill_window.induct)
  case (1 w a d)
  let ?b = "rstream buf k" and ?d = "d\<lparr>ec_end_offs := min (Suc k) (length buf)\<rparr>"
  let ?w = "w OR push_bit a (word_of_nat ?b)"
  note rd = read_from_end [OF "1.prems"(1,2)]
  have kT: "T \<le> 8 * k" using "1.prems"(3) by linarith
  have p: "(256::nat) ^ k = 2 ^ a * 2 ^ T"
  proof -
    have "(256::nat) ^ k = 2 ^ (8 * k)" by (simp add: power_mult)
    also have "\<dots> = 2 ^ (a + T)" using "1.prems"(3) by (simp only: add.commute)
    finally show ?thesis by (simp only: power_add)
  qed
  have "rnum buf k < 2 ^ a * 2 ^ T" using rnum_less [of buf k] unfolding p .
  then have w: "unat w < 2 ^ a" using "1.prems"(5) by (simp add: less_mult_imp_div_less)
  have b: "unat (word_of_nat ?b :: u32) = ?b" "?b < 2 ^ 8"
    using rstream_less [of buf k] by (simp_all add: unsigned_of_nat take_bit_nat_eq_self)
  have "unat ?w = unat w + ?b * 2 ^ a"
    using window_or(1) [OF w, of "word_of_nat ?b" 8] b "1.prems"(4) by simp
  also have "\<dots> = rnum buf (Suc k) div 2 ^ T"
  proof -
    have "rnum buf (Suc k) = rnum buf k + ?b * 2 ^ a * 2 ^ T" by (simp add: rnum_Suc p)
    then show ?thesis using "1.prems"(5) by simp
  qed
  finally have w': "unat ?w = rnum buf (Suc k) div 2 ^ T" .
  have f: "ec_fill_window w a d = (if a + 8 \<le> 24 then ec_fill_window ?w (a + 8) ?d else (?w, a + 8, ?d))"
    by (subst ec_fill_window.simps) (simp add: rd Let_def del: push_bit_eq_mult)
  show ?case
  proof (cases "a + 8 \<le> 24")
    case True
    have fw: "ec_fill_window ?w (a + 8) ?d = (w', a', d')" using f True "1.prems"(6) by simp
    have T: "T + (a + 8) = 8 * Suc k" using "1.prems"(3) by simp
    have d: "ec_buf ?d = buf" "ec_end_offs ?d = min (Suc k) (length buf)" using "1.prems"(1) by simp_all
    from "1.IH" [OF rd [symmetric] refl refl refl True d T True w' fw]
    show ?thesis by (simp add: dec_front_def)
  next
    case False
    then show ?thesis using f "1.prems" w' by (intro exI [of _ "Suc k"]) (simp add: dec_front_def)
  qed
qed

lemma dec_bits:
  assumes raw: "dec_raw buf T d" "ec_buf d = buf" and b: "0 < bits" "bits \<le> 25"
    and r: "ec_dec_bits bits d = (v, d')"
  shows "unat v = raw_at buf (T + bits) div 2 ^ T" "dec_raw buf (T + bits) d'" "dec_front d' = dec_front d"
    "ec_nbits_total d' = ec_nbits_total d + int bits"
proof -
  obtain k where k: "T + ec_nend_bits d = 8 * k" "ec_end_offs d = min k (length buf)"
    "unat (ec_end_window d) = rnum buf k div 2 ^ T" "ec_nend_bits d \<le> 32"
    using raw(1) by (auto simp: dec_raw_def)
  define q where "q = (if ec_nend_bits d < bits then ec_fill_window (ec_end_window d) (ec_nend_bits d) d
    else (ec_end_window d, ec_nend_bits d, d))"
  obtain w a u where wau: "q = (w, a, u)" by (rule prod_cases3)
  have e: "v = w AND (push_bit bits 1 - 1)"
    "d' = u\<lparr>ec_end_window := drop_bit bits w, ec_nend_bits := a - bits, ec_nbits_total := ec_nbits_total u + int bits\<rparr>"
    using r wau by (simp_all add: ec_dec_bits_def q_def Let_def del: push_bit_eq_mult drop_bit_eq_div)
  obtain j where j: "T + a = 8 * j" "ec_end_offs u = min j (length buf)" "unat w = rnum buf j div 2 ^ T"
    "bits \<le> a" "a \<le> 32" "dec_front u = dec_front d" "ec_nbits_total u = ec_nbits_total d"
  proof (cases "ec_nend_bits d < bits")
    case True
    then have "ec_fill_window (ec_end_window d) (ec_nend_bits d) d = (w, a, u)" using wau by (simp add: q_def)
    from fill_window [OF raw(2) k(2,1) _ k(3) this] True b that show ?thesis by auto
  next
    case False
    then show ?thesis using wau k that by (auto simp: q_def)
  qed
  have mask: "push_bit bits 1 - 1 = (mask bits :: u32)" by (simp add: mask_eq_exp_minus_1)
  have "unat v = take_bit bits (unat w)"
    unfolding e mask take_bit_eq_mask [symmetric] by (simp only: unsigned_take_bit_eq)
  then have v: "unat v = rnum buf j div 2 ^ T mod 2 ^ bits" by (simp add: take_bit_eq_mod j(3))
  have "rnum buf j mod 2 ^ (T + bits) div 2 ^ T = rnum buf j div 2 ^ T mod 2 ^ bits"
    by (simp add: power_add mod_mult2_eq)
  moreover have "rnum buf j mod 2 ^ (T + bits) = raw_at buf (T + bits)" by (rule rnum_raw_at) (use j in simp)
  ultimately show "unat v = raw_at buf (T + bits) div 2 ^ T" using v by simp
  have "unat (drop_bit bits w) = rnum buf j div 2 ^ (T + bits)"
    unfolding unat_drop j(3) by (simp add: power_add div_mult2_eq)
  then show "dec_raw buf (T + bits) d'"
    unfolding dec_raw_def e using j by (intro conjI exI [of _ j]) simp_all
  show "dec_front d' = dec_front d" "ec_nbits_total d' = ec_nbits_total d + int bits"
    using j by (simp_all add: e dec_front_def)
qed

subsection \<open>The last symbols\<close>

lemma and_not_mask: "x AND NOT (mask k) = push_bit k (drop_bit k (x :: 'a::len word))"
  by (rule bit_word_eqI) (auto simp: bit_simps simp del: drop_bit_eq_div push_bit_eq_mult)

lemma unat_mask_u32: "k \<le> 31 \<Longrightarrow> unat (mask k :: u32) = 2 ^ k - 1"
proof -
  assume k: "k \<le> 31"
  have "unat (mask k :: u32) = take_bit k (unat (-1 :: u32))"
    by (simp only: unsigned_take_bit_eq [symmetric] take_bit_minus_one_eq_mask)
  also have "\<dots> = 2 ^ k - 1"
    using k by (simp only: unsigned_minus_1_eq_mask take_bit_of_mask min_def) (simp add: mask_eq_exp_minus_1)
  finally show ?thesis .
qed

lemma round_up:
  fixes v :: u32
  assumes k: "k \<le> 31" and v: "unat v + 2 ^ k \<le> 2 ^ 32"
  defines "e \<equiv> (v + mask k) AND NOT (mask k)"
  shows "2 ^ k dvd unat e" "unat v \<le> unat e" "unat e < unat v + 2 ^ k" "unat (e OR mask k) = unat e + (2 ^ k - 1)"
proof -
  note m = unat_mask_u32 [OF k]
  let ?x = "unat v + (2 ^ k - 1)"
  have p: "(0::nat) < 2 ^ k" by simp
  then have x: "?x < 2 ^ 32" using v by linarith
  have s: "unat (v + mask k) = ?x" using x by (simp add: unat_word_ariths m)
  let ?q = "drop_bit k (v + mask k)"
  have q: "unat ?q = ?x div 2 ^ k" by (simp only: unat_drop s)
  have "(2::nat) ^ 32 = 2 ^ (32 - k) * 2 ^ k" using k by (simp only: power_add [symmetric]) simp
  then have "unat ?q < 2 ^ (32 - k)" unfolding q using x by (intro less_mult_imp_div_less) simp
  then have w: "unat (mask k OR push_bit k ?q) = unat (mask k :: u32) + unat ?q * 2 ^ k"
    "unat (0 OR push_bit k ?q) = unat (0 :: u32) + unat ?q * 2 ^ k"
    using window_or(1) [of "mask k" k ?q "32 - k"] window_or(1) [of 0 k ?q "32 - k"] k m by simp_all
  have e: "e = push_bit k ?q" unfolding e_def by (rule and_not_mask)
  then have u: "unat e = ?x div 2 ^ k * 2 ^ k" using w(2) q by simp
  then show "2 ^ k dvd unat e" by simp
  show "unat (e OR mask k) = unat e + (2 ^ k - 1)" using w(1) m u q e by (simp add: or.commute)
  have "?x div 2 ^ k * 2 ^ k + ?x mod 2 ^ k = ?x" by (rule div_mult_mod_eq)
  moreover have "?x mod 2 ^ k < 2 ^ k" by simp
  ultimately show "unat v \<le> unat e" "unat e < unat v + 2 ^ k" using u p by linarith+
qed

text \<open>The \<open>n\<close> bits written choose a part of the interval, of width \<open>2 ^ (31 - n)\<close>.\<close>

lemma done_end:
  assumes ok: "enc_ok s" and r: "ec_done_end s = (n, e)"
  shows "n \<le> 9" "2 ^ (31 - n) dvd unat e" "unat (ec_val s) \<le> unat e"
    "unat e + 2 ^ (31 - n) \<le> unat (ec_val s) + unat (ec_rng s)" "n = 0 \<Longrightarrow> e = 0"
    "n \<le> 33 - EC_ILOG (ec_rng s)"
proof -
  let ?v = "unat (ec_val s)" and ?r = "unat (ec_rng s)"
  have b: "2 ^ 23 < ?r" "?r \<le> 2 ^ 31" "?v + ?r \<le> 2 ^ 32" using ok by (simp_all add: enc_ok_def enc_mid_def)
  define L where "L = EC_ILOG (ec_rng s)"
  define k where "k = L - 1"
  have L0: "2 ^ (L - 1) \<le> ?r" "?r < 2 ^ L" "0 < L" using bit_len_bounds [of ?r] b by (simp_all add: L_def EC_ILOG_def)
  have L1: "23 < L" "L \<le> 32"
  proof -
    show "23 < L"
    proof (rule ccontr)
      assume "\<not> 23 < L"
      then have "(2::nat) ^ L \<le> 2 ^ 23" by (intro power_increasing) simp_all
      then show False using L0 b by simp
    qed
    show "L \<le> 32" unfolding L_def EC_ILOG_def by (rule bit_len_mono_less) (use b in simp)
  qed
  have k: "23 \<le> k" "k \<le> 31" "L = k + 1" using L1 by (simp_all add: k_def)
  have r0: "2 ^ k \<le> ?r" "?r < 2 ^ (k + 1)" using L0 k by simp_all
  have d: "drop_bit j (0x7FFFFFFF :: u32) = mask (31 - j)" if "j \<le> 31" for j
  proof -
    have "(0x7FFFFFFF :: u32) = mask 31" by (simp add: mask_eq_exp_minus_1)
    show ?thesis unfolding \<open>_ = mask 31\<close> using that by (intro bit_word_eqI) (auto simp: bit_simps simp del: drop_bit_eq_div)
  qed
  have d1: "drop_bit 1 (mask k :: u32) = mask (k - 1)"
    using k by (intro bit_word_eqI) (auto simp: bit_simps simp del: drop_bit_eq_div)
  define e0 where "e0 = (ec_val s + mask k) AND NOT (mask k)"
  define e1 where "e1 = (ec_val s + mask (k - 1)) AND NOT (mask (k - 1))"
  have msk: "drop_bit (32 - L) (0x7FFFFFFF :: u32) = mask k" using d [of "32 - L"] L1 k by simp
  have q: "(n, e) = (if ec_val s + ec_rng s \<le> e0 OR mask k then (33 - L, e1) else (32 - L, e0))"
    using r L1 unfolding ec_done_end_def Let_def L_def [symmetric] ec_consts
    by (auto simp: msk d1 [simplified] e0_def e1_def Suc_diff_le [symmetric] simp del: drop_bit_eq_div split: if_splits)
  have half: "(2::nat) ^ k = 2 * 2 ^ (k - 1)" using k by (simp only: power_Suc [symmetric]) simp
  have v0: "?v + 2 ^ k \<le> 2 ^ 32" "?v + 2 ^ (k - 1) \<le> 2 ^ 32" using b r0 half by linarith+
  note u0 = round_up [OF k(2) v0(1), folded e0_def]
  have "k - 1 \<le> 31" using k by simp
  note u1 = round_up [OF this v0(2), folded e1_def]
  show "n \<le> 9" "n \<le> 33 - EC_ILOG (ec_rng s)" using q k by (auto simp: L_def [symmetric] split: if_splits)
  consider (fits) "n = 31 - k" "e = e0" "e0 OR mask k < ec_val s + ec_rng s" | (half) "n = 32 - k" "e = e1"
      "ec_val s + ec_rng s \<le> e0 OR mask k"
    using q k by (auto split: if_splits)
  then have "2 ^ (31 - n) dvd unat e \<and> ?v \<le> unat e \<and> unat e + 2 ^ (31 - n) \<le> ?v + ?r \<and> (n = 0 \<longrightarrow> e = 0)"
  proof cases
    case fits
    have lt: "unat e0 + (2 ^ k - 1) < unat (ec_val s + ec_rng s)" using fits(3) u0(4) by (simp add: word_less_nat_alt)
    have sum: "unat (ec_val s + ec_rng s) = ?v + ?r" and s32: "?v + ?r < 2 ^ 32"
    proof -
      have "?v + ?r \<noteq> 2 ^ 32"
      proof
        assume "?v + ?r = 2 ^ 32"
        then have "unat (ec_val s + ec_rng s) = 0" by (simp add: unat_word_ariths)
        then show False using lt by simp
      qed
      then show s32: "?v + ?r < 2 ^ 32" using b by simp
      then show "unat (ec_val s + ec_rng s) = ?v + ?r" by (simp add: unat_add_small)
    qed
    have p: "(0::nat) < 2 ^ k" by simp
    have a: "unat e0 + 2 ^ k \<le> ?v + ?r" using lt sum p by linarith
    have "e0 = 0" if "n = 0"
    proof -
      have k31: "k = 31" using that fits(1) k by simp
      then obtain c where c: "unat e0 = 2 ^ 31 * c" using u0(1) by (auto elim: dvdE)
      have "unat e0 + 2 ^ 31 < 2 ^ 32" using a s32 unfolding k31 by linarith
      then have "c = 0" using c by simp
      then show ?thesis using c by (simp add: unat_eq_zero)
    qed
    moreover have "31 - n = k" using fits(1) k by simp
    ultimately show ?thesis using u0(1,2) a fits(2) by simp
  next
    case half': half
    have "31 - n = k - 1" "n \<noteq> 0" using half'(1) k by simp_all
    moreover have "unat e1 + 2 ^ (k - 1) \<le> ?v + ?r" using u1(3) r0 half by linarith
    ultimately show ?thesis using u1(1,2) half'(2) by simp
  qed
  then show "2 ^ (31 - n) dvd unat e" "?v \<le> unat e" "unat e + 2 ^ (31 - n) \<le> ?v + ?r" "n = 0 \<Longrightarrow> e = 0" by simp_all
qed

lemma write_upd:
  "ec_or_error (ec_write_byte v (s\<lparr>ec_val := x, ec_rng := r, ec_nbits_total := b\<rparr>)) =
     (ec_or_error (ec_write_byte v s))\<lparr>ec_val := x, ec_rng := r, ec_nbits_total := b\<rparr>"
  by (simp add: ec_or_error_def ec_write_byte_def)

lemma write_run_upd:
  "ec_write_run k v (s\<lparr>ec_val := x, ec_rng := r, ec_nbits_total := b\<rparr>) =
     (ec_write_run k v s)\<lparr>ec_val := x, ec_rng := r, ec_nbits_total := b\<rparr>"
  by (induction k arbitrary: s) (simp_all add: write_upd)

lemma carry_out_upd:
  "ec_enc_carry_out c (s\<lparr>ec_val := x, ec_rng := r, ec_nbits_total := b\<rparr>) =
     (ec_enc_carry_out c s)\<lparr>ec_val := x, ec_rng := r, ec_nbits_total := b\<rparr>"
  by (simp add: ec_enc_carry_out_def Let_def write_upd write_run_upd)

lemma shift_upd:
  "ec_enc_shift (s\<lparr>ec_val := x, ec_rng := r, ec_nbits_total := b\<rparr>) =
     (ec_enc_carry_out (drop_bit 23 x) s)\<lparr>ec_val := push_bit 8 x AND 0x7FFFFFFF, ec_rng := push_bit 8 r,
       ec_nbits_total := b + 8\<rparr>"
  by (simp add: ec_enc_shift_def Let_def carry_out_upd del: push_bit_eq_mult drop_bit_eq_div)

text \<open>The loop over the last symbols shifts the chosen part of the interval out.\<close>

lemma done_loop:
  "ec_done_loop (int n) e s = (l, u) \<Longrightarrow> j = (n + 7) div 8 \<Longrightarrow>
     l = int n - 8 * int j \<and> (\<exists>v r' b'. (ec_enc_shift ^^ j) (s\<lparr>ec_val := e, ec_rng := r, ec_nbits_total := b\<rparr>) =
       u\<lparr>ec_val := v, ec_rng := r', ec_nbits_total := b'\<rparr> \<and> (if j = 0 then v = e else unat v < 2 ^ 31))"
proof (induction n arbitrary: e s r b j rule: less_induct)
  case (less n)
  let ?e = "push_bit 8 e AND 0x7FFFFFFF" and ?s = "ec_enc_carry_out (drop_bit 23 e) s"
  let ?t = "s\<lparr>ec_val := e, ec_rng := r, ec_nbits_total := b\<rparr>"
  have small: "unat ?e < 2 ^ 31" by (simp only: unat_top_and) simp
  note sh = shift_upd [where s = s and x = e and r = r and b = b]
  consider "n = 0" | "0 < n" "n \<le> 8" | "8 < n" by linarith
  then show ?case
  proof cases
    case 1
    then have "l = 0" "u = s" "j = 0" using less.prems by (simp_all add: ec_done_loop.simps [of 0])
    then show ?thesis using 1 by auto
  next
    case 2
    then have j: "j = 1" using less.prems(2) by simp
    have "ec_done_loop (int n) e s = (int n - 8, ?s)"
      using 2 by (subst ec_done_loop.simps, subst ec_done_loop.simps)
        (simp del: push_bit_eq_mult drop_bit_eq_div)
    then show ?thesis using sh small less.prems(1) j by auto
  next
    case 3
    have i: "int n - 8 = int (n - 8)" using 3 by simp
    have "ec_done_loop (int n) e s = ec_done_loop (int (n - 8)) ?e ?s"
      using 3 by (subst ec_done_loop.simps) (simp add: i [symmetric] del: push_bit_eq_mult drop_bit_eq_div)
    then have f: "ec_done_loop (int (n - 8)) ?e ?s = (l, u)" using less.prems(1) by simp
    have jj: "j = Suc ((n - 8 + 7) div 8)" "(n - 8 + 7) div 8 \<noteq> 0" using 3 less.prems(2) by simp_all
    have "n - 8 < n" using 3 by simp
    from less.IH [OF this f refl, where r = "push_bit 8 r" and b = "b + 8"] show ?thesis
      using 3 jj(2) unfolding jj(1) funpow_Suc_right comp_apply sh by auto
  qed
qed

lemma done_start:
  assumes ok: "enc_ok s" and e: "ec_done_end s = (n, e)"
  shows "enc_mid (s\<lparr>ec_val := e, ec_rng := 1, ec_nbits_total := ec_nbits_total s\<rparr>)"
proof -
  note mid = ok [unfolded enc_ok_def enc_mid_def]
  have "(0::nat) < 2 ^ (31 - n)" by simp
  then have e1: "unat e + 1 \<le> unat (ec_val s) + unat (ec_rng s)" using done_end(4) [OF ok e] by linarith
  have dx: "digits (s\<lparr>ec_val := e, ec_rng := 1, ec_nbits_total := ec_nbits_total s\<rparr>) = digits s" by (simp add: digits_def)
  then show ?thesis
    using mid e1 by (auto simp: enc_mid_def wf_enc_def raw_ok_def raw_bits_def)
qed

lemma done_digits:
  assumes ok: "enc_ok s" "length (digits s) + 3 < 2 ^ 31" and e: "ec_done_end s = (n, e)"
    and lu: "ec_done_loop (int n) e s = (l, u)" and t: "t = (if ec_rem u \<ge> 0 \<or> ec_ext u > 0 then ec_enc_carry_out 0 u else u)"
    and err: "ec_error t = 0"
  defines "j \<equiv> (n + 7) div 8" and "W \<equiv> map unat (take (ec_offs t) (ec_buf t))"
  shows "be W * 2 ^ 31 = 256 ^ j * (be (digits s) * 2 ^ 31 + unat e)" "length W = length (digits s) + j"
    "l = int n - 8 * int j" "wf_enc t" "tail t = tail s" "ec_error s = 0"
proof -
  note de = done_end [OF ok(1) e]
  note mid = ok(1) [unfolded enc_ok_def enc_mid_def]
  have j: "j \<le> 2" "n \<le> 8 * j" using de(1) by (simp_all add: j_def)
  let ?x = "s\<lparr>ec_val := e, ec_rng := 1, ec_nbits_total := ec_nbits_total s\<rparr>"
  have dx: "digits ?x = digits s" "tail ?x = tail s" by (simp_all add: digits_def)
  note m = done_start [OF ok(1) e]
  from done_loop [OF lu, where j = j and r = 1 and b = "ec_nbits_total s"] obtain v r' b' where f: "l = int n - 8 * int j"
    "(ec_enc_shift ^^ j) ?x = u\<lparr>ec_val := v, ec_rng := r', ec_nbits_total := b'\<rparr>" "if j = 0 then v = e else unat v < 2 ^ 31"
    by (auto simp: j_def)
  show "l = int n - 8 * int j" by (rule f(1))
  let ?u = "u\<lparr>ec_val := v, ec_rng := r', ec_nbits_total := b'\<rparr>"
  have eu: "ec_error u = 0" using err unfolding t by (auto split: if_splits dest: carry_out_sticky)
  have "256 ^ j * unat (ec_rng ?x) \<le> 256 ^ 2 * 1" using j(1) by (intro mult_le_mono power_increasing) simp_all
  then have "256 ^ j * unat (ec_rng ?x) \<le> 2 ^ 31" by simp
  moreover have "length (digits ?x) + j < 2 ^ 31" using ok(2) j dx by simp
  moreover have "ec_error ((ec_enc_shift ^^ j) ?x) = 0" unfolding f(2) using eu by simp
  ultimately have sh: "enc_mid ?u" "low ?u = 256 ^ j * low ?x" "length (digits ?u) = length (digits s) + j" "tail ?u = tail s"
    using enc_shifts [OF m, of j] dx unfolding f(2) by simp_all
  have du: "digits ?u = digits u" "tail ?u = tail u" "wf_enc u = wf_enc ?u" by (simp_all add: digits_def wf_enc_def)
  have W: "W = digits u" "wf_enc t" "tail t = tail u"
  proof -
    have wfu: "wf_enc u" using sh(1) du by (simp add: enc_mid_def)
    have "W = digits u \<and> wf_enc t \<and> tail t = tail u"
    proof (cases "ec_rem u \<ge> 0 \<or> ec_ext u > 0")
      case True
      have x: "unat (ec_ext u) + 1 < 2 ^ 32" using digits_ext [of u] sh(3) ok(2) du j by simp
      have ez: "ec_error (ec_enc_carry_out 0 u) = 0" using err True by (simp add: t)
      have c: "unat (0 :: u32) < 512" "256 \<le> unat (0 :: u32) \<longrightarrow> 0 \<le> ec_rem u \<and> ec_rem u < 255" by simp_all
      from carry_out(3,4,7) [OF wfu c x ez] show ?thesis using True by (simp add: t W_def)
    next
      case False
      then have "ec_rem u = -1" "ec_ext u = 0" using wfu by (simp_all add: wf_enc_def word_gt_0)
      then show ?thesis using False wfu by (auto simp: t W_def digits_def wf_enc_def)
    qed
    then show "W = digits u" "wf_enc t" "tail t = tail u" by simp_all
  qed
  show "wf_enc t" "tail t = tail s" "length W = length (digits s) + j" using W sh(3,4) du by simp_all
  have err_s: "ec_error ?x = 0" by (rule shifts_sticky [of j], unfold f(2)) (simp add: eu)
  then show "ec_error s = 0" by simp
  have low: "be (digits u) * 2 ^ 31 + unat v = 256 ^ j * (be (digits s) * 2 ^ 31 + unat e)"
    using sh(2) unfolding low_def du(1) dx(1) by simp
  have "unat v = 0"
  proof (cases "j = 0")
    case True
    then show ?thesis using f(3) j(2) de(5) by simp
  next
    case False
    have "2 ^ 31 dvd 256 ^ j * unat e"
    proof -
      have a: "(256 ^ j * 2 ^ (31 - n) :: nat) = 2 ^ (8 * j + (31 - n))" by (simp add: power_add power_mult)
      have "(2::nat) ^ 31 dvd 256 ^ j * 2 ^ (31 - n)" unfolding a using j(2) by (intro le_imp_power_dvd) simp
      moreover have "256 ^ j * 2 ^ (31 - n) dvd 256 ^ j * unat e" using de(2) by (intro mult_dvd_mono) simp_all
      ultimately show ?thesis by (rule dvd_trans)
    qed
    then have "2 ^ 31 dvd 256 ^ j * (be (digits s) * 2 ^ 31 + unat e)"
      unfolding distrib_left by (intro dvd_add [OF dvd_mult [OF dvd_triv_right]])
    then have "2 ^ 31 dvd unat v" unfolding low [symmetric] by (simp only: dvd_add_right_iff dvd_triv_right)
    then show ?thesis using f(3) False by (auto dest: dvd_imp_le)
  qed
  then show "be W * 2 ^ 31 = 256 ^ j * (be (digits s) * 2 ^ 31 + unat e)" using low W by simp
qed

subsection \<open>The finished buffer\<close>

text \<open>A buffer from which the decoder finds the state \<open>s\<close> of the encoder.\<close>

definition hits :: "byte list \<Rightarrow> ec_ctx \<Rightarrow> bool" where
  "hits B s \<longleftrightarrow> low s \<le> code_at B (length (digits s)) \<and> code_at B (length (digits s)) < low s + unat (ec_rng s) \<and>
     raw_at B (raw_bits s) = raw_val s"

lemma map_stream: "map (stream (P @ Q)) [0..<length P] = map unat P"
  by (rule nth_equalityI) (simp_all add: stream_def nth_append)

lemma map_rstream: "map (rstream (Q @ E)) [0..<length E] = map unat (rev E)"
  by (rule nth_equalityI) (auto simp: rstream_def nth_append rev_nth)

lemma code_hit:
  assumes n: "n \<le> 31" "n \<le> 8 * j" and W: "be W * 2 ^ 31 = 256 ^ j * X"
    and B: "code B (N + j) = be W + a" "a < 2 ^ (8 * j - n)"
  shows "X \<le> code_at B N" "code_at B N < X + 2 ^ (31 - n)"
proof -
  let ?c = "code B (N + j)"
  define y where "y = 256 ^ 3 * stream B (N + j) + 256 ^ 2 * stream B (N + j + 1) + 256 * stream B (N + j + 2) + stream B (N + j + 3)"
  have c: "code B (N + j + 4) = 2 * (2 ^ 31 * ?c) + y"
  proof -
    have "N + j + 4 = Suc (Suc (Suc (Suc (N + j))))" "N + j + 1 = Suc (N + j)" "N + j + 2 = Suc (Suc (N + j))"
      "N + j + 3 = Suc (Suc (Suc (N + j)))" by simp_all
    then show ?thesis by (simp only: code_Suc y_def) simp
  qed
  have "y < 2 ^ 32"
    using stream_less [of B "N + j"] stream_less [of B "N + j + 1"] stream_less [of B "N + j + 2"] stream_less [of B "N + j + 3"]
    unfolding y_def by simp
  then have y: "y div 2 < 2 ^ 31" by simp
  have at: "code_at B (N + j) = 2 ^ 31 * ?c + y div 2" unfolding code_at_def c by simp
  have "2 ^ 31 * (a + 1) \<le> 2 ^ 31 * 2 ^ (8 * j - n)" using B(2) by (intro mult_le_mono2) simp
  also have "\<dots> = (2::nat) ^ (8 * j + (31 - n))" using n by (simp only: power_add [symmetric]) simp
  also have "\<dots> = 256 ^ j * 2 ^ (31 - n)" by (simp only: power_add power_mult) simp
  finally have a: "2 ^ 31 * (a + 1) \<le> 256 ^ j * 2 ^ (31 - n)" .
  have "256 ^ j * X \<le> code_at B (N + j)" unfolding at B(1) W [symmetric] by simp
  moreover have "code_at B (N + j) < 2 ^ 31 * be W + 2 ^ 31 * (a + 1)" unfolding at B(1) using y by simp
  then have "code_at B (N + j) < 256 ^ j * (X + 2 ^ (31 - n))" using a W by (simp only: distrib_left mult.commute [of "2 ^ 31" "be W"])
  ultimately show "X \<le> code_at B N" "code_at B N < X + 2 ^ (31 - n)" by (rule interval_shifts)+
qed

lemma raw_hit:
  assumes "unat q mod 2 ^ used = v" "used \<le> 8"
  shows "raw_at (Q @ q # E) (8 * length E + used) = le_num (map unat (rev E)) + v * 256 ^ length E"
proof -
  let ?B = "Q @ q # E" and ?P = "256 ^ length E :: nat"
  have r: "rnum ?B (Suc (length E)) = le_num (map unat (rev E)) + unat q * ?P"
    using map_rstream [of "Q @ [q]" E] by (simp add: rnum_Suc) (simp add: rnum_def rstream_def)
  have l: "le_num (map unat (rev E)) < ?P"
  proof -
    have "unat b < 2 ^ 8" for b :: byte using unsigned_less [of b] by simp
    then show ?thesis using le_num_less [of "map unat (rev E)"] by auto
  qed
  have "raw_at ?B (8 * length E + used) = rnum ?B (Suc (length E)) mod 2 ^ (8 * length E + used)"
    by (rule rnum_raw_at [symmetric]) (use assms in simp)
  also have "2 ^ (8 * length E + used) = ?P * 2 ^ used" by (simp add: power_add power_mult)
  also have "rnum ?B (Suc (length E)) mod (?P * 2 ^ used) = ?P * (unat q mod 2 ^ used) + le_num (map unat (rev E))"
    unfolding mod_mult2_eq r using l by simp
  finally show ?thesis using assms(1) by simp
qed

lemma raw_hit_none: "raw_at (Q @ E) (8 * length E) = le_num (map unat (rev E))"
proof -
  have "unat b < 2 ^ 8" for b :: byte using unsigned_less [of b] by simp
  then have "le_num (map unat (rev E)) < 256 ^ length E" using le_num_less [of "map unat (rev E)"] by auto
  moreover have "raw_at (Q @ E) (8 * length E) = rnum (Q @ E) (length E) mod 2 ^ (8 * length E)"
    by (rule rnum_raw_at [symmetric]) simp
  ultimately show ?thesis by (simp add: power_mult rnum_def map_rstream)
qed

lemma or_low:
  fixes p :: byte and w :: u32
  assumes "2 ^ m dvd unat p" "unat w < 2 ^ m" "m \<le> 8"
  shows "unat (p OR ucast w) = unat p + unat w"
proof -
  have "(2::nat) ^ m \<le> 2 ^ 8" using assms(3) by (intro power_increasing) simp_all
  then have w: "unat (ucast w :: byte) = unat w" using assms(2) by (simp add: unsigned_ucast_eq take_bit_nat_eq_self)
  obtain q where q: "unat p = push_bit m q" using assms(1) by (auto simp: push_bit_eq_mult elim: dvdE)
  have "take_bit m (unat w) = unat w" using assms(2) by (simp add: take_bit_nat_eq_self)
  then have small: "i < m" if "bit w i" for i using that bit_take_bit_iff [of m "unat w" i] by (simp add: bit_unsigned_iff)
  have "unat (p OR ucast w) = push_bit m q OR unat w" unfolding unsigned_or_eq w q ..
  also have "\<dots> = push_bit m q + unat w"
    by (rule disjunctive_add [symmetric]) (auto simp: bit_simps dest!: small)
  finally show ?thesis unfolding q .
qed

lemma flush_sticky: "ec_error (snd (snd (ec_flush_window k v y))) = 0 \<Longrightarrow> ec_error y = 0"
proof (induction k v y rule: ec_flush_window.induct)
  case (1 k v y)
  show ?case
  proof (cases "8 \<le> k")
    case True
    then have "ec_error (ec_or_error (ec_write_byte_at_end (ucast (v AND 255)) y)) = 0"
      using 1 by (simp add: ec_flush_window.simps [of k] del: drop_bit_eq_div)
    then show ?thesis by (rule error_sticky)
  next
    case False
    then show ?thesis using 1 by (simp add: ec_flush_window.simps [of k])
  qed
qed

lemma done_sticky: "ec_error (ec_enc_done s) = 0 \<Longrightarrow> ec_error s = 0"
proof -
  assume d: "ec_error (ec_enc_done s) = 0"
  have loop: "ec_error (snd (ec_done_loop l e t)) = 0 \<Longrightarrow> ec_error t = 0" for l e t
    by (induction l e t rule: ec_done_loop.induct)
      (subst (asm) (2) ec_done_loop.simps, auto dest: carry_out_sticky split: if_splits)
  obtain n e where e: "ec_done_end s = (n, e)" by (rule prod.exhaust)
  obtain l u where lu: "ec_done_loop (int n) e s = (l, u)" by (rule prod.exhaust)
  define t where "t = (if ec_rem u \<ge> 0 \<or> ec_ext u > 0 then ec_enc_carry_out 0 u else u)"
  obtain w used x where f: "ec_flush_window (ec_nend_bits t) (ec_end_window t) t = (w, used, x)" by (rule prod_cases3)
  have "ec_error x = 0"
  proof (rule ccontr)
    assume "ec_error x \<noteq> 0"
    then have "ec_enc_done s = x" by (simp only: ec_enc_done_def Let_def e lu prod.case t_def [symmetric] f if_True not_False_eq_True)
    then show False using d \<open>ec_error x \<noteq> 0\<close> by simp
  qed
  then have "ec_error t = 0" using flush_sticky [of "ec_nend_bits t" "ec_end_window t" t] f by simp
  then have "ec_error u = 0" by (auto simp: t_def split: if_splits dest: carry_out_sticky)
  then show ?thesis using loop [of "int n" e s] lu by simp
qed

lemma be_multiple:
  assumes "n \<le> 31" "n \<le> 8 * j" "be W * 2 ^ 31 = 256 ^ j * (d * 2 ^ 31 + e)" "2 ^ (31 - n) dvd e"
  shows "2 ^ (8 * j - n) dvd be W"
proof -
  have "2 ^ (31 - n) dvd d * 2 ^ 31 + e"
    using assms(4) by (intro dvd_add dvd_mult le_imp_power_dvd) simp_all
  then have "256 ^ j * 2 ^ (31 - n) dvd be W * 2 ^ 31" unfolding assms(3) by (intro mult_dvd_mono) simp_all
  moreover have "256 ^ j * 2 ^ (31 - n) = 2 ^ (8 * j - n) * (2::nat) ^ 31"
  proof -
    have "(256 ^ j * 2 ^ (31 - n) :: nat) = 2 ^ (8 * j + (31 - n))" by (simp add: power_add power_mult)
    also have "8 * j + (31 - n) = (8 * j - n) + 31" using assms by simp
    finally show ?thesis by (simp only: power_add)
  qed
  ultimately show ?thesis by simp
qed

lemma last_byte_multiple:
  assumes "m \<le> 8" "2 ^ m dvd be (map unat (P @ [p :: byte]))"
  shows "2 ^ m dvd unat p"
proof -
  have "(2::nat) ^ m dvd 2 ^ 8" using assms(1) by (rule le_imp_power_dvd)
  then have "2 ^ m dvd 256 * be (map unat P)" by (simp add: dvd_mult2)
  then show ?thesis using assms(2) by (simp only: map_append list.map be_snoc dvd_add_right_iff)
qed

text \<open>The bits that remain go into the last free byte or share the last byte written.\<close>

lemma last_bits:
  fixes P E :: "byte list" and w :: u32
  assumes used: "used < 8" "unat w < 2 ^ used" and room: "length P + length E \<le> len" "m \<le> 8"
    and P: "2 ^ m dvd be (map unat P)"
    and fits: "0 < used \<Longrightarrow> length E < len \<and> (length P + length E < len \<or> used \<le> m)"
  defines "B0 \<equiv> P @ replicate (len - length P - length E) 0 @ E"
  defines "B \<equiv> if used = 0 then B0 else B0[len - length E - 1 := (B0 ! (len - length E - 1)) OR ucast w]"
  shows "\<exists>a < 2 ^ m. code B (length P) = be (map unat P) + a"
    "raw_at B (8 * length E + used) = le_num (map unat (rev E)) + unat w * 256 ^ length E"
proof -
  have "(\<exists>a < 2 ^ m. code B (length P) = be (map unat P) + a) \<and>
    raw_at B (8 * length E + used) = le_num (map unat (rev E)) + unat w * 256 ^ length E"
  proof (cases "used = 0")
    case True
    then have B: "B = P @ replicate (len - length P - length E) 0 @ E" by (simp add: B_def B0_def)
    have "unat w = 0" using used True by simp
    moreover have "raw_at B (8 * length E) = le_num (map unat (rev E))"
      using raw_hit_none [of "P @ replicate (len - length P - length E) 0" E] unfolding B by simp
    moreover have "code B (length P) = be (map unat P)" unfolding B code_def map_stream ..
    ultimately show ?thesis using True by (intro conjI exI [of _ 0]) simp_all
  next
    case False
    show ?thesis
    proof (cases "length P + length E < len")
      case True
      define z where "z = len - length P - length E - 1"
      have z: "len - length P - length E = Suc z" "len - length E - 1 = length P + z" using True by (simp_all add: z_def)
      have B: "B = (P @ replicate z 0) @ ucast w # E"
        using False unfolding B_def B0_def z by (simp add: list_update_append nth_append replicate_append_same [symmetric])
      have "unat (ucast w :: byte) mod 2 ^ used = unat w"
        using or_low [of used 0 w] used by simp
      from raw_hit [OF this, of "P @ replicate z 0" E] have "raw_at B (8 * length E + used) = le_num (map unat (rev E)) + unat w * 256 ^ length E"
        unfolding B using used by simp
      moreover have "code B (length P) = be (map unat P)" unfolding B code_def append_assoc map_stream ..
      ultimately show ?thesis by (intro conjI exI [of _ 0]) simp_all
    next
      case full: False
      then have f: "used \<le> m" "length E < len" "len - length P - length E = 0" "len = length P + length E" using fits room False by auto
      then have "P \<noteq> []" by auto
      then obtain P' p where P': "P = P' @ [p]" by (cases P rule: rev_cases) simp_all
      have B: "B = P' @ (p OR ucast w) # E"
        using False unfolding B_def B0_def f(3) by (simp add: f(4) P' list_update_append nth_append)
      have pm: "2 ^ m dvd unat p" using last_byte_multiple [OF room(2)] P unfolding P' by blast
      have um: "(2::nat) ^ used \<le> 2 ^ m" using f(1) by (intro power_increasing) simp_all
      then have w: "unat w < 2 ^ m" by (rule less_le_trans [OF used(2)])
      have o: "unat (p OR ucast w) = unat p + unat w" by (rule or_low [OF pm w room(2)])
      have "2 ^ used dvd unat p" using pm le_imp_power_dvd [OF f(1), of "2::nat"] by (rule dvd_trans [rotated])
      then have "unat (p OR ucast w) mod 2 ^ used = unat w" unfolding o using used by (auto elim!: dvdE)
      from raw_hit [OF this, of P' E] have "raw_at B (8 * length E + used) = le_num (map unat (rev E)) + unat w * 256 ^ length E"
        unfolding B using used by simp
      moreover have "code B (length P) = be (map unat P) + unat w"
        using map_stream [of "P' @ [p OR ucast w]" E] unfolding B code_def P' by (simp add: o)
      ultimately show ?thesis using w by blast
    qed
  qed
  then show "\<exists>a < 2 ^ m. code B (length P) = be (map unat P) + a"
    "raw_at B (8 * length E + used) = le_num (map unat (rev E)) + unat w * 256 ^ length E" by simp_all
qed

lemma done_unfold:
  assumes e: "ec_done_end s = (n, e)" and lu: "ec_done_loop (int n) e s = (l, u)"
    and t: "t = (if ec_rem u \<ge> 0 \<or> ec_ext u > 0 then ec_enc_carry_out 0 u else u)"
    and f: "ec_flush_window (ec_nend_bits t) (ec_end_window t) t = (w, used, x)"
    and B0: "B0 = take (ec_offs x) (ec_buf x) @ replicate (length (ec_buf x) - ec_offs x - ec_end_offs x) 0 @
      drop (length (ec_buf x) - ec_end_offs x) (ec_buf x)"
  shows "ec_enc_done s = (if ec_error x \<noteq> 0 then x else
      if used = 0 then x\<lparr>ec_buf := B0\<rparr> else if ec_end_offs x \<ge> length B0 then x\<lparr>ec_buf := B0, ec_error := -1\<rparr> else
      let (v, y) = (if ec_offs x + ec_end_offs x \<ge> length B0 \<and> - l < int used
        then (w AND (push_bit (nat (- l)) 1 - 1), x\<lparr>ec_buf := B0, ec_error := -1\<rparr>) else (w, x\<lparr>ec_buf := B0\<rparr>))
      in y\<lparr>ec_buf := B0[length B0 - ec_end_offs x - 1 := (B0 ! (length B0 - ec_end_offs x - 1)) OR ucast v]\<rparr>)"
  by (simp only: ec_enc_done_def Let_def e lu prod.case t [symmetric] f B0 [symmetric])
    (simp del: push_bit_eq_mult split: prod.split)

lemma done_hits:
  assumes ok: "enc_ok s" "length (digits s) + 3 < 2 ^ 31" and err: "ec_error (ec_enc_done s) = 0"
  shows "hits (ec_buf (ec_enc_done s)) s" "ec_error s = 0" "length (ec_buf (ec_enc_done s)) = length (ec_buf s)"
proof -
  obtain n e where e: "ec_done_end s = (n, e)" by (rule prod.exhaust)
  obtain l u where lu: "ec_done_loop (int n) e s = (l, u)" by (rule prod.exhaust)
  define t where "t = (if ec_rem u \<ge> 0 \<or> ec_ext u > 0 then ec_enc_carry_out 0 u else u)"
  obtain w used x where f: "ec_flush_window (ec_nend_bits t) (ec_end_window t) t = (w, used, x)" by (rule prod_cases3)
  let ?len = "length (ec_buf x)"
  define P E B0 where "P = take (ec_offs x) (ec_buf x)" and "E = drop (?len - ec_end_offs x) (ec_buf x)"
    and "B0 = P @ replicate (?len - ec_offs x - ec_end_offs x) 0 @ E"
  let ?i = "?len - ec_end_offs x - 1"
  note fin = done_unfold [OF e lu t_def f B0_def [unfolded P_def E_def]]
  have ex: "ec_error x = 0" using err unfolding fin by (auto split: if_splits)
  have "ec_error t = 0" using flush_sticky [of "ec_nend_bits t" "ec_end_window t" t] ex unfolding f by simp
  note dd = done_digits [OF ok e lu t_def this]
  note de = done_end [OF ok(1) e]
  define j where "j = (n + 7) div 8"
  have wt: "ec_offs t + ec_end_offs t \<le> length (ec_buf t)" "unat (ec_end_window t) < 2 ^ ec_nend_bits t"
    using dd(4,5) ok(1) by (auto simp: wf_enc_def tail_def enc_ok_def enc_mid_def raw_ok_def)
  note fw = flush_window [OF wt f ex]
  have rb: "8 * ec_end_offs x + used = raw_bits s" "raw_num w x = raw_val s"
    using fw tail_raw [OF dd(5)] by (simp_all add: raw_bits_def raw_val_def)
  have room: "ec_offs x + ec_end_offs x \<le> ?len" using fw by blast
  have len: "length P = ec_offs x" "length E = ec_end_offs x" "length B0 = ?len"
    using room by (simp_all add: P_def E_def B0_def)
  have front: "P = take (ec_offs t) (ec_buf t)" using fw by (auto simp: front_def P_def)
  have W: "be (map unat P) * 2 ^ 31 = 256 ^ j * (be (digits s) * 2 ^ 31 + unat e)" "length P = length (digits s) + j" "l = int n - 8 * int j"
    using dd(1-3) unfolding front j_def by simp_all
  have j: "n \<le> 31" "n \<le> 8 * j" "8 * j - n \<le> 8" using de(1) by (simp_all add: j_def)
  have bits: "0 < used \<Longrightarrow> ec_end_offs x < ?len \<and> (ec_offs x + ec_end_offs x < ?len \<or> used \<le> 8 * j - n)"
    using err ex unfolding fin len W(3) by (auto split: if_splits)
  have B: "ec_buf (ec_enc_done s) = (if used = 0 then B0 else B0[?i := (B0 ! ?i) OR ucast w])"
    using err ex bits unfolding fin len W(3) by (auto split: if_splits)
  note m = be_multiple [OF j(1,2) W(1) de(2)]
  have lb: "\<exists>a < 2 ^ (8 * j - n). code (ec_buf (ec_enc_done s)) (length P) = be (map unat P) + a"
    "raw_at (ec_buf (ec_enc_done s)) (8 * length E + used) = le_num (map unat (rev E)) + unat w * 256 ^ length E"
    using last_bits [of used w P E ?len "8 * j - n"] fw m bits room j(3) unfolding B B0_def len by blast+
  then obtain a where a: "code (ec_buf (ec_enc_done s)) (length (digits s) + j) = be (map unat P) + a" "a < 2 ^ (8 * j - n)"
    unfolding W(2) by blast
  note ch = code_hit [OF j(1,2) W(1) a]
  have "raw_at (ec_buf (ec_enc_done s)) (raw_bits s) = raw_val s"
    using lb(2) unfolding rb [symmetric] len(2) by (simp add: raw_num_def end_bytes_def E_def)
  moreover have "low s \<le> code_at (ec_buf (ec_enc_done s)) (length (digits s))"
    "code_at (ec_buf (ec_enc_done s)) (length (digits s)) < low s + unat (ec_rng s)"
    using ch de(3,4) unfolding low_def by linarith+
  ultimately show "hits (ec_buf (ec_enc_done s)) s" by (simp add: hits_def)
  show "ec_error s = 0" by (rule dd(6))
  have "?len = length (ec_buf t)" using fw by (simp add: front_def)
  moreover have "length (ec_buf t) = length (ec_buf s)" using dd(5) by (simp add: tail_def)
  ultimately show "length (ec_buf (ec_enc_done s)) = length (ec_buf s)" unfolding B by (simp add: len)
qed

subsection \<open>Transmission\<close>

text \<open>The decoder's state \<open>d\<close>, on the buffer \<open>B\<close>, corresponds to the encoder's \<open>s\<close>.\<close>

definition sim :: "byte list \<Rightarrow> ec_ctx \<Rightarrow> ec_ctx \<Rightarrow> bool" where
  "sim B s d \<longleftrightarrow> dec_rel B (low s) (unat (ec_rng s)) (length (digits s)) d \<and> dec_raw B (raw_bits s) d \<and>
     ec_nbits_total d = ec_nbits_total s \<and> ec_error d = 0"

text \<open>What holds of the encoder even after an error.\<close>

definition enc_range :: "ec_ctx \<Rightarrow> bool" where
  "enc_range s \<longleftrightarrow> 2 ^ 23 < unat (ec_rng s) \<and> unat (ec_rng s) \<le> 2 ^ 31 \<and> unat (ec_val s) + unat (ec_rng s) \<le> 2 ^ 32"

definition advances :: "ec_ctx \<Rightarrow> ec_ctx \<Rightarrow> bool" where
  "advances s s' \<longleftrightarrow> enc_range s' \<and> ec_nbits_total s \<le> ec_nbits_total s' \<and> (ec_error s' = 0 \<longrightarrow> ec_error s = 0) \<and>
     length (ec_buf s') = length (ec_buf s)"

text \<open>As long as the bits counted fit in the buffer there is no error.\<close>

definition survives :: "ec_ctx \<Rightarrow> ec_ctx \<Rightarrow> bool" where
  "survives s s' \<longleftrightarrow> (enc_ok s \<and> ec_nbits_total s' < 2 ^ 31 \<and> ec_error s = 0 \<and>
     ec_nbits_total s' \<le> 33 + 8 * int (length (ec_buf s)) \<longrightarrow> ec_error s' = 0)"

text \<open>A buffer of the same size that hits \<open>s'\<close> hits \<open>s\<close>, and \<open>get\<close> takes the decoder from \<open>s\<close> to \<open>s'\<close> with a result in \<open>ok\<close>.\<close>

definition follows :: "(ec_ctx \<Rightarrow> ('v \<times> ec_ctx) option) \<Rightarrow> ('v \<Rightarrow> bool) \<Rightarrow> ec_ctx \<Rightarrow> ec_ctx \<Rightarrow> bool" where
  "follows get ok s s' \<longleftrightarrow> (\<forall>B. hits B s' \<and> length B = length (ec_buf s') \<longrightarrow> hits B s \<and>
     (\<forall>d. sim B s d \<longrightarrow> (\<exists>v d'. get d = Some (v, d') \<and> ok v \<and> sim B s' d')))"

text \<open>The encoder's \<open>put\<close> always returns, and \<open>get\<close> follows it when there is no error and no overflow of the bit count.\<close>

definition transmits :: "(ec_ctx \<Rightarrow> ec_ctx option) \<Rightarrow> (ec_ctx \<Rightarrow> ('v \<times> ec_ctx) option) \<Rightarrow> ('v \<Rightarrow> bool) \<Rightarrow> bool" where
  "transmits put get ok \<longleftrightarrow> (\<forall>s. enc_range s \<longrightarrow> (\<exists>s'. put s = Some s' \<and> advances s s' \<and> survives s s' \<and>
     (enc_ok s \<and> ec_nbits_total s' < 2 ^ 31 \<and> ec_error s' = 0 \<longrightarrow> enc_ok s' \<and> follows get ok s s')))"

lemma enc_ok_range: "enc_ok s \<Longrightarrow> enc_range s"
  by (simp add: enc_ok_def enc_mid_def enc_range_def)

lemma transmits_return: "transmits Some (\<lambda>d. Some (v, d)) (\<lambda>w. w = v)"
  by (auto simp: transmits_def advances_def follows_def survives_def)

lemma transmits_get:
  assumes "transmits put get ok" "\<And>d v d'. get d = Some (v, d') \<Longrightarrow> ok v \<Longrightarrow> \<exists>v'. get' d = Some (v', d') \<and> ok' v'"
  shows "transmits put get' ok'"
proof -
  have "follows get ok s s' \<Longrightarrow> follows get' ok' s s'" for s s'
    using assms(2) unfolding follows_def by metis
  then show ?thesis using assms(1) unfolding transmits_def by blast
qed

lemma follows_bind:
  assumes "follows get1 ok1 s s1" "\<And>v. ok1 v \<Longrightarrow> follows (get2 v) ok2 s1 s2" "ok1 v0" "length (ec_buf s2) = length (ec_buf s1)"
  shows "follows (\<lambda>d. Option.bind (get1 d) (\<lambda>(v, d). get2 v d)) ok2 s s2"
  unfolding follows_def
proof (intro allI impI conjI)
  fix B assume h: "hits B s2 \<and> length B = length (ec_buf s2)"
  then have h1: "hits B s1 \<and> length B = length (ec_buf s1)" using assms(2) [OF assms(3)] assms(4) unfolding follows_def by simp
  then show "hits B s" using assms(1) unfolding follows_def by blast
  fix d assume "sim B s d"
  then obtain v d1 where 1: "get1 d = Some (v, d1)" "ok1 v" "sim B s1 d1" using assms(1) h1 unfolding follows_def by blast
  then obtain w d2 where "get2 v d1 = Some (w, d2)" "ok2 w" "sim B s2 d2" using assms(2) h unfolding follows_def by blast
  then show "\<exists>w d2. Option.bind (get1 d) (\<lambda>(v, d). get2 v d) = Some (w, d2) \<and> ok2 w \<and> sim B s2 d2" using 1 by auto
qed

text \<open>The same at one state of the encoder, for a \<open>put\<close> with a result \<open>a\<close>: the decoder's result is in relation \<open>ok\<close> with it.\<close>

definition carries :: "ec_ctx \<Rightarrow> (ec_ctx \<Rightarrow> ('a \<times> ec_ctx) option) \<Rightarrow> (ec_ctx \<Rightarrow> ('v \<times> ec_ctx) option) \<Rightarrow> ('a \<Rightarrow> 'v \<Rightarrow> bool) \<Rightarrow> bool" where
  "carries s put get ok \<longleftrightarrow> (enc_range s \<longrightarrow> (\<exists>a s'. put s = Some (a, s') \<and> advances s s' \<and> survives s s' \<and>
     (enc_ok s \<and> ec_nbits_total s' < 2 ^ 31 \<and> ec_error s' = 0 \<longrightarrow> enc_ok s' \<and> follows get (ok a) s s')))"

lemma transmits_carries: "transmits put get ok \<longleftrightarrow> (\<forall>s. carries s (\<lambda>s. map_option (Pair a) (put s)) get (\<lambda>_. ok))"
  by (auto simp: transmits_def carries_def)

text \<open>A decoder that may look at the size of the buffer and at the position, which are those of the encoder.\<close>

lemma carries_look:
  assumes "carries s put get ok"
    "\<And>d. length (ec_buf d) = length (ec_buf s) \<Longrightarrow> ec_tell d = ec_tell s \<Longrightarrow> get' d = get d"
  shows "carries s put get' ok"
proof -
  have "follows get' (ok a) s s'" if "follows get (ok a) s s'" "length (ec_buf s') = length (ec_buf s)" for a s'
    unfolding follows_def
  proof (intro allI impI conjI)
    fix B assume h: "hits B s' \<and> length B = length (ec_buf s')"
    then show "hits B s" using that(1) unfolding follows_def by blast
    fix d assume d: "sim B s d"
    then have "ec_rng d = ec_rng s" by (intro word_unat_eq_iff [THEN iffD2]) (simp add: sim_def dec_rel_def)
    then have "get' d = get d" using d h that(2) by (intro assms(2)) (simp_all add: sim_def dec_rel_def ec_tell_def)
    then show "\<exists>v d'. get' d = Some (v, d') \<and> ok a v \<and> sim B s' d'" using that(1) h d unfolding follows_def by simp
  qed
  then show ?thesis using assms(1) unfolding carries_def by (auto simp: advances_def)
qed

lemma advances_trans: "advances s s1 \<Longrightarrow> advances s1 s2 \<Longrightarrow> advances s s2"
  by (auto simp: advances_def)

lemma carries_bind:
  assumes "carries s put1 get1 ok1" "\<And>a s1 v. put1 s = Some (a, s1) \<Longrightarrow> advances s s1 \<Longrightarrow> ok1 a v \<Longrightarrow> carries s1 (put2 a) (get2 v) ok2"
    "\<And>a s1. put1 s = Some (a, s1) \<Longrightarrow> \<exists>v. ok1 a v"
  shows "carries s (\<lambda>s. Option.bind (put1 s) (\<lambda>(a, s). put2 a s)) (\<lambda>d. Option.bind (get1 d) (\<lambda>(v, d). get2 v d)) ok2"
  unfolding carries_def
proof
  assume "enc_range s"
  then obtain a s1 where s1: "put1 s = Some (a, s1)" "advances s s1" "survives s s1"
    "enc_ok s \<and> ec_nbits_total s1 < 2 ^ 31 \<and> ec_error s1 = 0 \<longrightarrow> enc_ok s1 \<and> follows get1 (ok1 a) s s1"
    using assms(1) unfolding carries_def by blast
  then have r1: "enc_range s1" by (simp add: advances_def)
  obtain v0 where v0: "ok1 a v0" using assms(3) [OF s1(1)] by blast
  obtain b s2 where s2: "put2 a s1 = Some (b, s2)" using assms(2) [OF s1(1,2) v0] r1 unfolding carries_def by blast
  have two: "advances s1 s2 \<and> survives s1 s2 \<and> (enc_ok s1 \<and> ec_nbits_total s2 < 2 ^ 31 \<and> ec_error s2 = 0 \<longrightarrow> enc_ok s2 \<and> follows (get2 v) (ok2 b) s1 s2)"
    if "ok1 a v" for v
    using assms(2) [OF s1(1,2) that] r1 s2 unfolding carries_def by fastforce
  have "enc_ok s2 \<and> follows (\<lambda>d. Option.bind (get1 d) (\<lambda>(v, d). get2 v d)) (ok2 b) s s2"
    if "enc_ok s \<and> ec_nbits_total s2 < 2 ^ 31 \<and> ec_error s2 = 0"
  proof -
    have "ec_nbits_total s1 < 2 ^ 31" "ec_error s1 = 0" using two [OF v0] that by (auto simp: advances_def)
    then have o1: "enc_ok s1" "follows get1 (ok1 a) s s1" using s1(4) that by simp_all
    then have "enc_ok s2" "follows (get2 v) (ok2 b) s1 s2" if "ok1 a v" for v using two [OF that] \<open>enc_ok s \<and> _\<close> by simp_all
    moreover have "length (ec_buf s2) = length (ec_buf s1)" using two [OF v0] by (simp add: advances_def)
    ultimately show ?thesis using follows_bind [OF o1(2) _ v0] v0 by blast
  qed
  moreover have "advances s s2" using two [OF v0] s1(2) advances_trans by blast
  moreover have "survives s s2"
    unfolding survives_def
  proof
    assume h: "enc_ok s \<and> ec_nbits_total s2 < 2 ^ 31 \<and> ec_error s = 0 \<and> ec_nbits_total s2 \<le> 33 + 8 * int (length (ec_buf s))"
    have n: "ec_nbits_total s1 \<le> ec_nbits_total s2" "length (ec_buf s1) = length (ec_buf s)"
      using two [OF v0] s1(2) by (simp_all add: advances_def)
    then have "ec_nbits_total s1 < 2 ^ 31" "ec_nbits_total s1 \<le> 33 + 8 * int (length (ec_buf s))" using h by linarith+
    then have "ec_error s1 = 0" "enc_ok s1" using s1(3,4) h by (simp_all add: survives_def)
    then show "ec_error s2 = 0" using two [OF v0] h n(2) by (simp add: survives_def)
  qed
  ultimately show "\<exists>b s'. Option.bind (put1 s) (\<lambda>(a, s). put2 a s) = Some (b, s') \<and> advances s s' \<and> survives s s' \<and>
      (enc_ok s \<and> ec_nbits_total s' < 2 ^ 31 \<and> ec_error s' = 0 \<longrightarrow>
        enc_ok s' \<and> follows (\<lambda>d. Option.bind (get1 d) (\<lambda>(v, d). get2 v d)) (ok2 b) s s')"
    using s1(1) s2 by auto
qed

lemma transmits_bind:
  assumes "transmits put1 get1 ok1" "\<And>v. ok1 v \<Longrightarrow> transmits put2 (get2 v) ok2" "ok1 v0"
  shows "transmits (\<lambda>s. Option.bind (put1 s) put2) (\<lambda>d. Option.bind (get1 d) (\<lambda>(v, d). get2 v d)) ok2"
  unfolding transmits_carries [where a = "()"]
proof
  fix s
  have "carries s (\<lambda>s. Option.bind (map_option (Pair ()) (put1 s)) (\<lambda>(a, s). map_option (Pair ()) (put2 s)))
     (\<lambda>d. Option.bind (get1 d) (\<lambda>(v, d). get2 v d)) (\<lambda>_. ok2)"
  proof (rule carries_bind)
    show "carries s (\<lambda>s. map_option (Pair ()) (put1 s)) get1 (\<lambda>_. ok1)" using assms(1) by (simp only: transmits_carries [where a = "()"])
    show "\<exists>v. ok1 v" using assms(3) by blast
    show "carries s1 (\<lambda>s. map_option (Pair ()) (put2 s)) (get2 v) (\<lambda>_. ok2)" if "ok1 v" for s1 v
      using assms(2) [OF that] by (simp only: transmits_carries [where a = "()"])
  qed
  moreover have "(\<lambda>s. Option.bind (map_option (Pair ()) (put1 s)) (\<lambda>(a, s). map_option (Pair ()) (put2 s))) =
      (\<lambda>s. map_option (Pair ()) (Option.bind (put1 s) put2))"
    by (auto simp: fun_eq_iff split: bind_splits)
  ultimately show "carries s (\<lambda>s. map_option (Pair ()) (Option.bind (put1 s) put2)) (\<lambda>d. Option.bind (get1 d) (\<lambda>(v, d). get2 v d)) (\<lambda>_. ok2)"
    by simp
qed

subsection \<open>Every operation transmits\<close>

lemma small_digits: "enc_ok s \<Longrightarrow> ec_nbits_total s < 2 ^ 31 \<Longrightarrow> length (digits s) + 3 < 2 ^ 31"
  by (auto simp: enc_ok_def enc_mid_def)

lemma shift_bits: "ec_nbits_total (ec_enc_shift s) = ec_nbits_total s + 8"
proof -
  have "ec_nbits_total (ec_write_run k v t) = ec_nbits_total t" for k v t
    by (induction k arbitrary: t) (simp_all add: ec_or_error_def ec_write_byte_def)
  then show ?thesis by (simp add: ec_enc_shift_def ec_enc_carry_out_def Let_def ec_or_error_def ec_write_byte_def)
qed

lemma write_length:
  "length (ec_buf (ec_or_error (ec_write_byte v s))) = length (ec_buf s)"
  "length (ec_buf (ec_or_error (ec_write_byte_at_end v s))) = length (ec_buf s)"
  by (simp_all add: ec_or_error_def ec_write_byte_def ec_write_byte_at_end_def)

lemma carry_length: "length (ec_buf (ec_enc_carry_out c s)) = length (ec_buf s)"
proof -
  have "length (ec_buf (ec_write_run k v t)) = length (ec_buf t)" for k v t
    by (induction k arbitrary: t) (simp_all add: write_length)
  then show ?thesis by (simp add: ec_enc_carry_out_def Let_def write_length)
qed

lemma shifts_length: "length (ec_buf ((ec_enc_shift ^^ k) s)) = length (ec_buf s)"
  by (induction k) (simp_all add: ec_enc_shift_def Let_def carry_length)

lemma carry_no_error:
  assumes "wf_enc s" "ec_error s = 0" "length (digits s) + ec_end_offs s \<le> length (ec_buf s)"
  shows "ec_error (ec_enc_carry_out c s) = 0"
proof (cases "c = 255")
  case True
  then show ?thesis using assms(2) by (simp add: ec_enc_carry_out_def)
next
  case False
  have l: "length (take (ec_offs s) (ec_buf s)) = ec_offs s" using assms(1) by (simp add: wf_enc_def)
  have "room (length (pending (drop_bit 8 c) s)) s"
    using assms(3) l by (auto simp: room_def pending_def digits_def split: if_splits)
  from carry_out_flush(1) [OF False assms(1) this] show ?thesis using assms(2) by simp
qed

lemma shift_error: "ec_error (ec_enc_shift t) = ec_error (ec_enc_carry_out (drop_bit 23 (ec_val t)) t)"
  by (simp add: ec_enc_shift_def Let_def)

lemma shifts_no_error:
  assumes "enc_mid s" "256 ^ k * unat (ec_rng s) \<le> 2 ^ 31" "length (digits s) + k < 2 ^ 31" "ec_error s = 0"
    "length (digits s) + k + ec_end_offs s \<le> length (ec_buf s) + 1"
  shows "ec_error ((ec_enc_shift ^^ k) s) = 0"
  using assms(2,3,5)
proof (induction k)
  case (Suc k)
  let ?t = "(ec_enc_shift ^^ k) s"
  have "256 ^ k * unat (ec_rng s) \<le> 256 ^ Suc k * unat (ec_rng s)" by (intro mult_le_mono1 power_increasing) simp_all
  then have "256 ^ k * unat (ec_rng s) \<le> 2 ^ 31" using Suc.prems(1) by (rule le_trans)
  moreover have "length (digits s) + k < 2 ^ 31" using Suc.prems by simp
  ultimately have e: "ec_error ?t = 0" and t: "enc_mid ?t" "length (digits ?t) = length (digits s) + k" "tail ?t = tail s"
    using Suc enc_shifts [OF assms(1), of k] by simp_all
  have "length (digits ?t) + ec_end_offs ?t \<le> length (ec_buf ?t)" using Suc.prems t(2,3) by (simp add: tail_def)
  then have "ec_error (ec_enc_carry_out c ?t) = 0" for c using t(1) e by (intro carry_no_error) (simp_all add: enc_mid_def)
  then show ?case by (simp only: funpow.simps comp_apply shift_error)
qed (use assms in simp)

lemma shifts_range:
  assumes "0 < unat (ec_rng s)" "unat (ec_rng s) \<le> 2 ^ 31" "unat (ec_val s) + unat (ec_rng s) \<le> 2 ^ 32"
  shows "enc_range ((ec_enc_shift ^^ shifts (unat (ec_rng s))) s)"
    "ec_nbits_total s \<le> ec_nbits_total ((ec_enc_shift ^^ k) s)"
proof -
  show "ec_nbits_total s \<le> ec_nbits_total ((ec_enc_shift ^^ k) s)" by (induction k) (simp_all add: shift_bits)
  let ?r = "unat (ec_rng s)"
  have rng: "256 ^ k * ?r \<le> 2 ^ 31 \<Longrightarrow> unat (ec_rng ((ec_enc_shift ^^ k) s)) = 256 ^ k * ?r" for k
  proof (induction k)
    case (Suc k)
    then have "256 ^ k * ?r \<le> 2 ^ 23" by (simp add: ac_simps)
    then show ?case using Suc by (simp add: shift_rng unat_push8 ac_simps del: push_bit_eq_mult)
  qed simp
  have val: "unat (ec_val ((ec_enc_shift ^^ Suc k) s)) < 2 ^ 31" for k
    unfolding funpow.simps comp_apply ec_enc_shift_def Let_def ec_consts by (simp del: push_bit_eq_mult add: unat_top_and [simplified])
  note b = shifts_bounds [OF assms(1,2)]
  show "enc_range ((ec_enc_shift ^^ shifts ?r) s)"
  proof (cases "shifts ?r")
    case 0
    then show ?thesis using b assms by (simp add: enc_range_def)
  next
    case (Suc k)
    let ?t = "(ec_enc_shift ^^ Suc k) s"
    have t: "2 ^ 23 < unat (ec_rng ?t)" "unat (ec_rng ?t) \<le> 2 ^ 31" using b rng [of "Suc k"] unfolding Suc by simp_all
    then have "unat (ec_val ?t) + unat (ec_rng ?t) \<le> 2 ^ 31 + 2 ^ 31" using val [of k] by (intro add_mono) simp_all
    then show ?thesis using t unfolding Suc enc_range_def by simp
  qed
qed

context range_symbol
begin

lemma transmits:
  assumes x: "valid x"
  shows "transmits (enc x) (dec x) (agrees x)"
  unfolding transmits_def
proof (intro allI impI)
  fix s assume r: "enc_range s"
  let ?R = "unat (ec_rng s)"
  define k where "k = shifts (wid x ?R)"
  note r' = r [unfolded enc_range_def]
  have w: "0 < wid x ?R" "off x ?R + wid x ?R \<le> ?R" using part [OF x] r' by simp_all
  obtain v q where e: "unat v = unat (ec_val s) + off x ?R" "unat q = wid x ?R"
    "enc x s = ec_enc_normalize (s\<lparr>ec_val := v, ec_rng := q\<rparr>)"
    using enc [OF x] r' by blast
  define s' where "s' = (ec_enc_shift ^^ k) (s\<lparr>ec_val := v, ec_rng := q\<rparr>)"
  have s': "enc x s = Some s'" using e w by (simp add: enc_normalize k_def s'_def)
  have "advances s s'"
    using shifts_range(1) [of "s\<lparr>ec_val := v, ec_rng := q\<rparr>"] shifts_range(2) [of "s\<lparr>ec_val := v, ec_rng := q\<rparr>" k]
      shifts_sticky [of k "s\<lparr>ec_val := v, ec_rng := q\<rparr>"] e w r'
    unfolding advances_def s'_def by (simp add: k_def shifts_length)
  moreover have "survives s s'"
    unfolding survives_def
  proof
    assume h: "enc_ok s \<and> ec_nbits_total s' < 2 ^ 31 \<and> ec_error s = 0 \<and> ec_nbits_total s' \<le> 33 + 8 * int (length (ec_buf s))"
    let ?t = "s\<lparr>ec_val := v, ec_rng := q\<rparr>"
    have ok: "enc_mid s" using h by (simp add: enc_ok_def)
    have nb: "ec_nbits_total s' = ec_nbits_total s + 8 * int k"
      unfolding s'_def by (induction k) (simp_all add: shift_bits)
    have dg: "digits ?t = digits s" by (simp add: digits_def)
    have t: "enc_mid ?t"
      using ok w e(1,2) dg by (auto simp: enc_mid_def wf_enc_def raw_ok_def raw_bits_def)
    have "256 ^ k * unat (ec_rng ?t) \<le> 2 ^ 31" using shifts_bounds [of "wid x ?R"] w r' e(2) by (simp add: k_def)
    then show "ec_error s' = 0"
      unfolding s'_def using h nb ok dg by (intro shifts_no_error [OF t]) (simp_all add: enc_mid_def raw_bits_def)
  qed
  moreover have "enc_ok s' \<and> follows (dec x) (agrees x) s s'"
    if h: "enc_ok s \<and> ec_nbits_total s' < 2 ^ 31 \<and> ec_error s' = 0"
  proof -
    have "ec_nbits_total s < 2 ^ 31" using h \<open>advances s s'\<close> by (simp add: advances_def)
    then have sm: "length (digits s) + 3 < 2 ^ 31" using small_digits h by blast
    have ok: "enc_ok s" using h by simp
    from encodes [OF x ok sm k_def] h s' have en: "enc_ok s'" "tail s' = tail s"
      "length (digits s') = length (digits s) + k" "low s' = 256 ^ k * (low s + off x ?R)"
      "unat (ec_rng s') = 256 ^ k * wid x ?R" by auto
    have nb: "ec_nbits_total s' = ec_nbits_total s + 8 * int k"
      using en(1,3) tail_raw [OF en(2)] ok by (simp add: enc_ok_def enc_mid_def)
    have "hits B s \<and> (\<forall>d. sim B s d \<longrightarrow> (\<exists>a d'. dec x d = Some (a, d') \<and> agrees x a \<and> sim B s' d'))" if B: "hits B s'" for B
    proof (intro conjI allI impI)
      let ?n = "length (digits s)"
      have "256 ^ k * (low s + off x ?R) \<le> code_at B (?n + k)"
        "code_at B (?n + k) < 256 ^ k * (low s + off x ?R + wid x ?R)"
        using B en by (simp_all add: hits_def distrib_left)
      note i = interval_shifts [OF this]
      have raw: "raw_at B (raw_bits s) = raw_val s" using B tail_raw [OF en(2)] by (simp add: hits_def)
      then show "hits B s" unfolding hits_def using i w by linarith
      fix d assume d: "sim B s d"
      then have rel: "dec_rel B (low s) ?R ?n d" by (simp add: sim_def)
      from decodes [OF x rel _ _ k_def i] r' obtain a d' where dd: "dec x d = Some (a, d')" "agrees x a"
        "dec_rel B (256 ^ k * (low s + off x ?R)) (256 ^ k * wid x ?R) (?n + k) d'"
        "ec_nbits_total d' = ec_nbits_total d + 8 * int k" "dec_tail d' = dec_tail d" by blast
      have "sim B s' d'"
        using d dd(3-5) nb tail_raw [OF en(2)] unfolding sim_def en(3-5) by (simp add: dec_tail_def dec_raw_def)
      then show "\<exists>a d'. dec x d = Some (a, d') \<and> agrees x a \<and> sim B s' d'" using dd by blast
    qed
    then show ?thesis using en(1) by (simp add: follows_def)
  qed
  ultimately show "\<exists>s'. enc x s = Some s' \<and> advances s s' \<and> survives s s' \<and>
    (enc_ok s \<and> ec_nbits_total s' < 2 ^ 31 \<and> ec_error s' = 0 \<longrightarrow> enc_ok s' \<and> follows (dec x) (agrees x) s s')"
    using s' by blast
qed

end

lemma flush_keeps:
  "ec_flush_window k w s = (w', k', s') \<Longrightarrow> ec_rng s' = ec_rng s \<and> ec_val s' = ec_val s \<and> ec_nbits_total s' = ec_nbits_total s \<and>
     length (ec_buf s') = length (ec_buf s) \<and>
     (ec_error s = 0 \<longrightarrow> ec_offs s + ec_end_offs s + k div 8 \<le> length (ec_buf s) \<longrightarrow> ec_error s' = 0)"
proof (induction k w s rule: ec_flush_window.induct)
  case (1 k w s)
  show ?case
  proof (cases "8 \<le> k")
    case True
    then show ?thesis using 1
      by (auto simp: ec_flush_window.simps [of k] ec_or_error_def ec_write_byte_at_end_def le_div_geq simp del: drop_bit_eq_div split: if_splits)
  qed (use 1 in \<open>simp add: ec_flush_window.simps [of k]\<close>)
qed

lemma bits_transmit:
  assumes b: "0 < bits" "bits \<le> 25" "unat fl < 2 ^ bits"
  shows "transmits (\<lambda>s. Some (ec_enc_bits fl bits s)) (\<lambda>d. Some (ec_dec_bits bits d)) (\<lambda>v. v = fl)"
  unfolding transmits_def
proof (intro allI impI)
  fix s assume r: "enc_range s"
  let ?s = "ec_enc_bits fl bits s"
  define q where "q = (if ec_nend_bits s + bits > 32 then ec_flush_window (ec_nend_bits s) (ec_end_window s) s
    else (ec_end_window s, ec_nend_bits s, s))"
  obtain w k u where wku: "q = (w, k, u)" by (rule prod_cases3)
  have s: "?s = u\<lparr>ec_end_window := w OR push_bit k fl, ec_nend_bits := k + bits, ec_nbits_total := ec_nbits_total u + int bits\<rparr>"
    using wku by (simp add: ec_enc_bits_def q_def Let_def del: push_bit_eq_mult)
  have u: "ec_rng u = ec_rng s \<and> ec_val u = ec_val s \<and> ec_nbits_total u = ec_nbits_total s \<and> (ec_error u = 0 \<longrightarrow> ec_error s = 0) \<and>
      length (ec_buf u) = length (ec_buf s) \<and>
      (ec_error s = 0 \<longrightarrow> ec_offs s + ec_end_offs s + ec_nend_bits s div 8 \<le> length (ec_buf s) \<longrightarrow> ec_error u = 0)"
    using wku flush_keeps [of _ _ s] flush_sticky [of "ec_nend_bits s" "ec_end_window s" s]
    by (auto simp: q_def split: if_splits)
  then have adv: "advances s ?s" and nb: "ec_nbits_total ?s = ec_nbits_total s + int bits"
    using r unfolding s by (simp_all add: advances_def enc_range_def)
  have sv: "survives s ?s"
    unfolding survives_def
  proof
    assume h: "enc_ok s \<and> ec_nbits_total ?s < 2 ^ 31 \<and> ec_error s = 0 \<and> ec_nbits_total ?s \<le> 33 + 8 * int (length (ec_buf s))"
    then have "8 * length (digits s) + raw_bits s \<le> 8 * length (ec_buf s)" using nb by (simp add: enc_ok_def enc_mid_def)
    moreover have "ec_offs s \<le> length (digits s)" using h by (simp add: digits_def enc_ok_def enc_mid_def wf_enc_def)
    moreover have "8 * (ec_nend_bits s div 8) \<le> ec_nend_bits s" by simp
    ultimately have "ec_offs s + ec_end_offs s + ec_nend_bits s div 8 \<le> length (ec_buf s)" unfolding raw_bits_def by linarith
    then show "ec_error ?s = 0" using u h unfolding s by simp
  qed
  have "enc_ok ?s \<and> follows (\<lambda>d. Some (ec_dec_bits bits d)) (\<lambda>v. v = fl) s ?s" if h: "enc_ok s \<and> ec_error ?s = 0"
  proof -
    note en = enc_bits [OF conjunct1 [OF h] b conjunct2 [OF h]]
    have dg: "digits ?s = digits s" "low ?s = low s" "ec_rng ?s = ec_rng s"
      using front_digits [OF en(3)] front_low [OF en(3)] en(3) by (simp_all add: front_def)
    let ?T = "raw_bits s"
    have rv: "raw_val s < 2 ^ ?T"
      using raw_num_less [of s "ec_end_window s" "ec_nend_bits s"] h
      by (simp add: enc_ok_def enc_mid_def wf_enc_def raw_ok_def raw_val_def raw_bits_def)
    have "hits B s \<and> (\<forall>d. sim B s d \<longrightarrow> (\<exists>v d'. Some (ec_dec_bits bits d) = Some (v, d') \<and> v = fl \<and> sim B ?s d'))"
      if B: "hits B ?s" for B
    proof (intro conjI allI impI)
      have raw: "raw_at B (?T + bits) = raw_val s + unat fl * 2 ^ ?T" using B en(4,5) by (simp add: hits_def)
      then have "raw_at B ?T = raw_val s" using raw_at_mod [of ?T "?T + bits" B] rv by simp
      then show "hits B s" using B dg by (simp add: hits_def)
      fix d assume d: "sim B s d"
      obtain v d' where vd: "ec_dec_bits bits d = (v, d')" by (rule prod.exhaust)
      have "dec_raw B ?T d" "ec_buf d = B" using d by (simp_all add: sim_def dec_rel_def)
      note db = dec_bits [OF this b(1,2) vd]
      have "unat v = unat fl" unfolding db(1) raw using rv by simp
      then have "v = fl" by (rule word_unat_eq_iff [THEN iffD2])
      moreover have "sim B ?s d'"
        using d db(2,4) nb dec_front_rel [OF db(3)] db(3) unfolding sim_def dg en(4) by (simp add: dec_front_def)
      ultimately show "\<exists>v d'. Some (ec_dec_bits bits d) = Some (v, d') \<and> v = fl \<and> sim B ?s d'" using vd by simp
    qed
    then show ?thesis using en(2) by (simp add: follows_def)
  qed
  then show "\<exists>s'. Some ?s = Some s' \<and> advances s s' \<and> survives s s' \<and> (enc_ok s \<and> ec_nbits_total s' < 2 ^ 31 \<and> ec_error s' = 0 \<longrightarrow>
      enc_ok s' \<and> follows (\<lambda>d. Some (ec_dec_bits bits d)) (\<lambda>v. v = fl) s s')"
    using adv sv by simp
qed

subsection \<open>Initialisation\<close>

lemma enc_init_ok: "enc_ok (ec_enc_init buf)" "low (ec_enc_init buf) = 0" "digits (ec_enc_init buf) = []"
    "raw_bits (ec_enc_init buf) = 0" "raw_val (ec_enc_init buf) = 0" "ec_error (ec_enc_init buf) = 0"
  by (simp_all add: ec_enc_init_def enc_ok_def enc_mid_def wf_enc_def raw_ok_def digits_def low_def raw_bits_def
      raw_val_def raw_num_def end_bytes_def)

text \<open>The decoder starts three renormalisations early; three bytes in front of the buffer make these ordinary ones.\<close>

definition pad :: "ec_ctx \<Rightarrow> ec_ctx" where
  "pad d = d\<lparr>ec_buf := replicate 3 0 @ ec_buf d, ec_offs := ec_offs d + 3\<rparr>"

lemma pad_shift: "ec_dec_shift (pad d) = pad (ec_dec_shift d)"
  by (simp add: ec_dec_shift_def pad_def ec_read_byte_def Let_def nth_append del: push_bit_eq_mult drop_bit_eq_div)

lemma pad_shifts: "(ec_dec_shift ^^ k) (pad d) = pad ((ec_dec_shift ^^ k) d)"
  by (induction k) (simp_all add: pad_shift)

lemma pad_stream: "stream (replicate 3 0 @ B) (i + 3) = stream B i" "i < 3 \<Longrightarrow> stream (replicate 3 0 @ B) i = 0"
  by (simp_all add: stream_def nth_append)

lemma pad_code: "code (replicate 3 0 @ B) (k + 3) = code B k"
proof (induction k)
  case 0
  have "code (replicate 3 0 @ B) 3 = 256 * (256 * stream (replicate 3 0 @ B) 0 + stream (replicate 3 0 @ B) 1) + stream (replicate 3 0 @ B) 2"
    by (simp add: code_def numeral_3_eq_3 numeral_2_eq_2)
  then show ?case using pad_stream(2) [of 0] pad_stream(2) [of 1] pad_stream(2) [of 2] by (simp add: code_def)
next
  case (Suc k)
  have "Suc k + 3 = Suc (k + 3)" by simp
  then show ?case by (simp only: code_Suc Suc pad_stream(1))
qed

lemma pad_rel: "dec_rel (replicate 3 0 @ B) L R (n + 3) (pad d) = dec_rel B L R n d"
proof -
  have "stream (replicate 3 0 @ B) (n + 3 + 3) = stream B (n + 3)" by (rule pad_stream)
  moreover have "code_at (replicate 3 0 @ B) (n + 3) = code_at B n"
    using pad_code [of B "n + 4"] by (simp add: code_at_def add.assoc add.commute [of 3])
  moreover have "min (n + 3 + 4) (length (replicate 3 (0::byte) @ B)) = min (n + 4) (length B) + 3" by simp
  ultimately show ?thesis by (simp add: dec_rel_def pad_def)
qed

lemma dec_init:
  "\<exists>d. ec_dec_init B = Some d \<and> sim B (ec_enc_init buf) d"
proof -
  let ?b = "stream B 0"
  let ?d = "\<lparr>ec_buf = B, ec_end_offs = 0, ec_end_window = 0, ec_nend_bits = 0, ec_nbits_total = 9,
    ec_offs = min 1 (length B), ec_rng = 128, ec_val = 127 - word_of_nat (?b div 2), ec_ext = 0, ec_rem = int ?b, ec_error = 0\<rparr>"
  have b: "?b < 256" by (rule stream_less)
  have half: "word_of_int (uint x div 2) = (word_of_nat (unat x div 2) :: u32)" for x :: byte
    by (metis of_int_of_nat_eq of_nat_numeral uint_nat_int zdiv_int)
  have i: "ec_dec_init B = ec_dec_normalize ?d"
    by (cases B) (simp_all add: ec_dec_init_def ec_read_byte_def Let_def stream_def drop_bit_eq_div half)
  have "unat (ec_rng ?d) = 128" by simp
  then have n: "ec_dec_normalize ?d = Some ((ec_dec_shift ^^ 3) ?d)" using dec_normalize [of ?d] by (simp add: shifts_def)
  have "unat (word_of_nat (?b div 2) :: u32) = ?b div 2"
    using b by (simp add: unsigned_of_nat take_bit_nat_eq_self)
  then have "unat (ec_val ?d) = 127 - ?b div 2" using b by (simp add: unat_sub_le)
  moreover have "code_at (replicate 3 0 @ B) 0 = ?b div 2"
    using pad_code [of B 1] by (simp add: code_at_def code_def)
  ultimately have "dec_rel (replicate 3 0 @ B) 0 128 0 (pad ?d)"
    using b pad_stream(1) [of B 0] by (simp add: dec_rel_def pad_def)
  from dec_shifts [OF this, of 3] have s: "dec_rel (replicate 3 0 @ B) 0 (2 ^ 31) 3 ((ec_dec_shift ^^ 3) (pad ?d))"
    "ec_nbits_total ((ec_dec_shift ^^ 3) (pad ?d)) = 33" "dec_tail ((ec_dec_shift ^^ 3) (pad ?d)) = dec_tail (pad ?d)"
    by (simp_all add: pad_def)
  let ?e = "(ec_dec_shift ^^ 3) ?d"
  have "dec_rel B 0 (2 ^ 31) 0 ?e" using s(1) pad_rel [of B 0 "2 ^ 31" 0 ?e] unfolding pad_shifts by simp
  moreover have "ec_nbits_total ?e = 33" "dec_tail ?e = dec_tail ?d" using s(2,3) unfolding pad_shifts by (simp_all add: pad_def dec_tail_def)
  ultimately have "sim B (ec_enc_init buf) ?e"
    unfolding sim_def enc_init_ok by (simp add: dec_raw_def dec_tail_def rnum_def) (simp add: ec_enc_init_def)
  then show ?thesis using i n by metis
qed

subsection \<open>Streams of symbols\<close>

text \<open>
  A caller codes each value under a model that both sides know: a table of cumulative frequencies, with a
  total of its last entry or a power of two, the probability of a bit, an inverse table, a range, or
  a number of raw bits. For the tables of frequencies the caller finds the symbol itself and calls \<open>ec_dec_update\<close>.
\<close>

datatype ec_model = Freq "u32 list" | FreqBin "u32 list" nat | BitLogp nat | Icdf "byte list" nat | Uint u32 | Bits nat

definition find_freq :: "u32 list \<Rightarrow> u32 \<Rightarrow> nat" where
  "find_freq cum v = length (takeWhile (\<lambda>c. c \<le> v) (tl cum))"

fun put_sym :: "ec_model \<Rightarrow> nat \<Rightarrow> ec_ctx \<Rightarrow> ec_ctx option" where
  "put_sym (Freq cum) v s = ec_encode (cum ! v) (cum ! (v + 1)) (last cum) s"
| "put_sym (FreqBin cum bits) v s = ec_encode_bin (cum ! v) (cum ! (v + 1)) bits s"
| "put_sym (BitLogp logp) v s = ec_enc_bit_logp (v \<noteq> 0) logp s"
| "put_sym (Icdf icdf ftb) v s = ec_enc_icdf v icdf ftb s"
| "put_sym (Uint ft) v s = ec_enc_uint (word_of_nat v) ft s"
| "put_sym (Bits bits) v s = Some (ec_enc_bits (word_of_nat v) bits s)"

definition dec_found :: "u32 list \<Rightarrow> u32 \<Rightarrow> u32 \<times> ec_ctx \<Rightarrow> (nat \<times> ec_ctx) option" where
  "dec_found cum ft r = (let (f, d) = r; v = find_freq cum f
     in map_option (Pair v) (ec_dec_update (cum ! v) (cum ! (v + 1)) ft d))"

fun get_sym :: "ec_model \<Rightarrow> ec_ctx \<Rightarrow> (nat \<times> ec_ctx) option" where
  "get_sym (Freq cum) d = dec_found cum (last cum) (ec_decode (last cum) d)"
| "get_sym (FreqBin cum bits) d = dec_found cum (push_bit bits 1) (ec_decode_bin bits d)"
| "get_sym (BitLogp logp) d = map_option (apfst of_bool) (ec_dec_bit_logp logp d)"
| "get_sym (Icdf icdf ftb) d = ec_dec_icdf icdf ftb d"
| "get_sym (Uint ft) d = map_option (apfst unat) (ec_dec_uint ft d)"
| "get_sym (Bits bits) d = Some (apfst unat (ec_dec_bits bits d))"

definition table_valid :: "u32 list \<Rightarrow> nat \<Rightarrow> nat \<Rightarrow> bool" where
  "table_valid cum ft v \<longleftrightarrow> v + 1 < length cum \<and> sorted_wrt (<) cum \<and> unat (last cum) \<le> ft \<and> ft \<le> 2 ^ 23"

fun sym_valid :: "ec_model \<Rightarrow> nat \<Rightarrow> bool" where
  "sym_valid (Freq cum) v = table_valid cum (unat (last cum)) v"
| "sym_valid (FreqBin cum bits) v = (bits \<le> 23 \<and> table_valid cum (2 ^ bits) v)"
| "sym_valid (BitLogp logp) v = (0 < logp \<and> logp \<le> 23 \<and> v < 2)"
| "sym_valid (Icdf icdf ftb) v = icdf_valid (v, icdf, ftb)"
| "sym_valid (Uint ft) v = (1 < ft \<and> v < unat ft)"
| "sym_valid (Bits bits) v = (0 < bits \<and> bits \<le> 25 \<and> v < 2 ^ bits)"

fun put_syms :: "(ec_model \<times> nat) list \<Rightarrow> ec_ctx \<Rightarrow> ec_ctx option" where
  "put_syms [] s = Some s"
| "put_syms ((m, v) # xs) s = do { s \<leftarrow> put_sym m v s; put_syms xs s }"

fun get_syms :: "ec_model list \<Rightarrow> ec_ctx \<Rightarrow> (nat list \<times> ec_ctx) option" where
  "get_syms [] d = Some ([], d)"
| "get_syms (m # ms) d = do { (v, d) \<leftarrow> get_sym m d; (vs, d) \<leftarrow> get_syms ms d; Some (v # vs, d) }"

text \<open>The whole of it: encode and finish; start and decode.\<close>

definition encode_all :: "(ec_model \<times> nat) list \<Rightarrow> byte list \<Rightarrow> (ec_ctx \<times> ec_ctx) option" where
  "encode_all xs buf = map_option (\<lambda>s. (s, ec_enc_done s)) (put_syms xs (ec_enc_init buf))"

definition decode_all :: "ec_model list \<Rightarrow> byte list \<Rightarrow> (nat list \<times> ec_ctx) option" where
  "decode_all ms buf = do { d \<leftarrow> ec_dec_init buf; get_syms ms d }"

lemma find_freq:
  assumes "sorted_wrt (<) cum" "v + 1 < length cum" "cum ! v \<le> f" "f < cum ! (v + 1)"
  shows "find_freq cum f = v"
proof -
  obtain c cs where c: "cum = c # cs" using assms(2) by (cases cum) simp_all
  have "takeWhile (\<lambda>c. c \<le> f) cs = take v cs"
  proof (rule takeWhile_eq_take_P_nth)
    fix i assume "i < v" "i < length cs"
    then have "cum ! Suc i \<le> cum ! v"
      using assms(1,2) by (cases "Suc i = v") (auto simp: sorted_wrt_iff_nth_less intro: less_imp_le)
    then show "cs ! i \<le> f" using assms(3) by (simp add: c)
  qed (use assms(4) in \<open>simp add: c not_le\<close>)
  then show ?thesis using assms(2) by (simp add: find_freq_def c)
qed

lemma table_transmits:
  assumes v: "table_valid cum (unat ft) v"
    and put: "\<And>s. put s = ec_encode (cum ! v) (cum ! (v + 1)) ft s"
    and get: "\<And>d. get d = dec_found cum ft (ec_decode ft d)"
  shows "transmits put get (\<lambda>w. w = v)"
proof -
  let ?x = "(cum ! v, cum ! (v + 1), ft)"
  have s: "sorted_wrt (<) cum" "v + 1 < length cum" using v by (simp_all add: table_valid_def)
  have "cum ! (v + 1) \<le> last cum"
  proof -
    have "cum \<noteq> []" "v + 1 \<le> length cum - 1" using s by auto
    then show ?thesis
      using s by (cases "v + 1 = length cum - 1") (auto simp: last_conv_nth sorted_wrt_iff_nth_less intro: less_imp_le)
  qed
  then have "freq_valid ?x"
    using v s by (auto simp: freq_valid_def table_valid_def sorted_wrt_iff_nth_less word_le_nat_alt)
  from freq.transmits [OF this] have "transmits put (dec_freq ?x) (freq_agrees ?x)"
    using put by (simp add: enc_freq_def [abs_def] fun_eq_iff [symmetric] put [abs_def])
  then show ?thesis
  proof (rule transmits_get)
    fix d f d' assume "dec_freq ?x d = Some (f, d')" "freq_agrees ?x f"
    then show "\<exists>v'. get d = Some (v', d') \<and> v' = v"
      using find_freq [OF s, of f] by (auto simp: get dec_found_def dec_freq_def freq_agrees_def split: prod.splits)
  qed
qed

lemma uint_small:
  fixes fl ft :: u32
  assumes "1 < ft" "fl < ft" "EC_ILOG (ft - 1) \<le> 8"
  shows "freq_valid (fl, fl + 1, ft)"
proof -
  have "unat (ft - 1) < 2 ^ EC_ILOG (ft - 1)"
    using bit_len_bounds [of "unat (ft - 1)"] by (cases "unat (ft - 1) = 0") (simp_all add: EC_ILOG_def)
  also have "\<dots> \<le> 2 ^ 8" using assms(3) by (intro power_increasing) simp_all
  finally have "unat ft \<le> 2 ^ 8" using assms(1) by (simp add: unat_sub_le word_less_nat_alt)
  moreover have "unat (fl + 1) = unat fl + 1" using assms(2) unat_less_u32 [of ft] by (simp add: word_less_nat_alt unat_add_small)
  ultimately show ?thesis using assms(2) by (simp add: freq_valid_def word_less_nat_alt word_le_nat_alt)
qed

lemma uint_large:
  fixes fl ft :: u32
  assumes "fl \<le> ft" "b = EC_ILOG ft - 8" "8 < EC_ILOG ft"
  shows "freq_valid (drop_bit b fl, drop_bit b fl + 1, drop_bit b ft + 1)" "0 < b" "b \<le> 25"
    "unat (fl AND (push_bit b 1 - 1)) < 2 ^ b" "push_bit b (drop_bit b fl) OR (fl AND (push_bit b 1 - 1)) = fl"
proof -
  have l: "EC_ILOG ft \<le> 32" unfolding EC_ILOG_def using unat_less_u32 [of ft] by (rule bit_len_mono_less)
  then show b: "0 < b" "b \<le> 25" using assms by simp_all
  have "unat ft < 2 ^ EC_ILOG ft"
    using bit_len_bounds [of "unat ft"] by (cases "unat ft = 0") (simp_all add: EC_ILOG_def)
  also have "\<dots> = 2 ^ 8 * 2 ^ b" using assms(2,3) by (simp only: power_add [symmetric]) simp
  finally have f: "unat ft div 2 ^ b < 2 ^ 8" by (rule less_mult_imp_div_less)
  have d: "unat (drop_bit b x + 1) = unat x div 2 ^ b + 1" if "x \<le> ft" for x :: u32
  proof -
    have "unat x div 2 ^ b \<le> unat ft div 2 ^ b" using that by (intro div_le_mono) (simp add: word_le_nat_alt)
    then show ?thesis using f unat_add_small [of "drop_bit b x" 1] by (simp add: unat_drop del: drop_bit_eq_div)
  qed
  have "unat fl div 2 ^ b \<le> unat ft div 2 ^ b" using assms(1) by (intro div_le_mono) (simp add: word_le_nat_alt)
  then show "freq_valid (drop_bit b fl, drop_bit b fl + 1, drop_bit b ft + 1)"
    using f d [OF assms(1)] d [of ft]
    by (simp add: freq_valid_def word_less_nat_alt word_le_nat_alt unat_drop del: drop_bit_eq_div)
  have m: "fl AND (push_bit b 1 - 1) = take_bit b fl" by (simp add: take_bit_eq_mask mask_eq_exp_minus_1)
  show "unat (fl AND (push_bit b 1 - 1)) < 2 ^ b" unfolding m unsigned_take_bit_eq by (rule take_bit_nat_less_exp)
  show "push_bit b (drop_bit b fl) OR (fl AND (push_bit b 1 - 1)) = fl"
    unfolding m by (rule bit_word_eqI) (auto simp: bit_simps simp del: drop_bit_eq_div push_bit_eq_mult)
qed

lemma uint_transmits:
  assumes ft: "1 < ft" "fl < ft"
  shows "transmits (ec_enc_uint fl ft) (ec_dec_uint ft) (\<lambda>v. v = fl)"
proof (cases "EC_ILOG (ft - 1) \<le> 8")
  case True
  let ?x = "(fl, fl + 1, ft)"
  have put: "ec_enc_uint fl ft = enc_freq ?x"
    using True by (simp add: fun_eq_iff ec_enc_uint_def enc_freq_def)
  from freq.transmits [OF uint_small [OF ft True]] show ?thesis unfolding put
  proof (rule transmits_get)
    fix d v d' assume g: "dec_freq ?x d = Some (v, d')" "freq_agrees ?x v"
    have "unat (fl + 1) \<le> unat fl + 1" by (simp add: unat_word_ariths)
    then have "v = fl" using g(2) unfolding freq_agrees_def prod.case word_less_nat_alt word_le_nat_alt
      by (intro word_unat_eq_iff [THEN iffD2]) linarith
    then show "\<exists>v'. ec_dec_uint ft d = Some (v', d') \<and> v' = fl"
      using g(1) True by (auto simp: dec_freq_def ec_dec_uint_def Let_def split: prod.splits)
  qed
next
  case False
  define b where "b = EC_ILOG (ft - 1) - 8"
  let ?q = "drop_bit b fl" and ?low = "fl AND (push_bit b 1 - 1)"
  let ?x = "(?q, ?q + 1, drop_bit b (ft - 1) + 1)"
  have le: "fl \<le> ft - 1" using ft by (simp add: word_le_nat_alt word_less_nat_alt unat_sub_le)
  note u = uint_large [OF le b_def] False
  then have v: "freq_valid ?x" "0 < b" "b \<le> 25" "unat ?low < 2 ^ b" "push_bit b ?q OR ?low = fl" by simp_all
  have put: "ec_enc_uint fl ft = (\<lambda>s. Option.bind (enc_freq ?x s) (\<lambda>s. Some (ec_enc_bits ?low b s)))"
    using False by (simp add: fun_eq_iff ec_enc_uint_def enc_freq_def b_def [symmetric] Let_def del: drop_bit_eq_div push_bit_eq_mult)
  have q: "w = ?q" if "freq_agrees ?x w" for w
  proof -
    have "unat (?q + 1) \<le> unat ?q + 1" by (simp add: unat_word_ariths del: drop_bit_eq_div)
    then show ?thesis using that unfolding freq_agrees_def prod.case word_less_nat_alt word_le_nat_alt
      by (intro word_unat_eq_iff [THEN iffD2]) linarith
  qed
  let ?get2 = "\<lambda>w d. Some (apfst (Pair w) (ec_dec_bits b d))"
  have two: "transmits (\<lambda>s. Some (ec_enc_bits ?low b s)) (?get2 w) (\<lambda>r. r = (?q, ?low))" if "freq_agrees ?x w" for w
    by (rule transmits_get [OF bits_transmit [OF v(2-4)]]) (use q [OF that] in auto)
  have "freq_agrees ?x ?q" using v(1) by (simp add: freq_agrees_def freq_valid_def del: drop_bit_eq_div)
  note t = transmits_bind [OF freq.transmits [OF v(1)] two this]
  show ?thesis unfolding put
  proof (rule transmits_get [OF t])
    fix d r d' assume g: "Option.bind (dec_freq ?x d) (\<lambda>(w, d). ?get2 w d) = Some (r, d')" and r: "r = (?q, ?low)"
    obtain w d1 where 1: "dec_freq ?x d = Some (w, d1)" "?get2 w d1 = Some (r, d')" using g by (auto simp: bind_eq_Some_conv)
    then have w: "w = ?q" "ec_dec_bits b d1 = (?low, d')" using r by (auto simp: apfst_def map_prod_def split: prod.splits)
    show "\<exists>v'. ec_dec_uint ft d = Some (v', d') \<and> v' = fl"
      using 1(1) w v(5) le False
      by (auto simp: dec_freq_def ec_dec_uint_def b_def [symmetric] Let_def bind_eq_Some_conv
          simp del: drop_bit_eq_div push_bit_eq_mult split: prod.splits)
  qed
qed

lemma sym_transmits: "sym_valid m v \<Longrightarrow> transmits (put_sym m v) (get_sym m) (\<lambda>w. w = v)"
proof (cases m)
  case (Freq cum)
  assume "sym_valid m v"
  then show ?thesis unfolding Freq by (intro table_transmits [of cum "last cum"]) simp_all
next
  case (FreqBin cum bits)
  assume a: "sym_valid m v"
  then have b: "bits < 32" using FreqBin by simp
  have "table_valid cum (unat (push_bit bits 1 :: u32)) v" unfolding power_of_two_total(2) [OF b] using a FreqBin by simp
  then show ?thesis unfolding FreqBin
    by (rule table_transmits) (simp_all only: put_sym.simps get_sym.simps bin_is_freq [OF b])
next
  case (BitLogp logp)
  assume "sym_valid m v"
  then have v: "logp_valid (v \<noteq> 0, logp)" "v < 2" using BitLogp by (simp_all add: logp_valid_def)
  have put: "put_sym m v = enc_logp (v \<noteq> 0, logp)" by (simp add: fun_eq_iff BitLogp enc_logp_def)
  show ?thesis unfolding put
    by (rule transmits_get [OF logp.transmits [OF v(1)]])
      (use v(2) in \<open>auto simp: BitLogp dec_logp_def logp_agrees_def\<close>)
next
  case (Icdf icdf ftb)
  assume "sym_valid m v"
  then have v: "icdf_valid (v, icdf, ftb)" using Icdf by simp
  have put: "put_sym m v = enc_icdf (v, icdf, ftb)" by (simp add: fun_eq_iff Icdf enc_icdf_def)
  show ?thesis unfolding put
    by (rule transmits_get [OF icdf.transmits [OF v]]) (auto simp: Icdf dec_icdf_def icdf_agrees_def)
next
  case (Uint ft)
  assume "sym_valid m v"
  then have v: "1 < ft" "v < unat ft" using Uint by simp_all
  have "v < 2 ^ 32" using v(2) unat_less_u32 [of ft] by simp
  then have w: "unat (word_of_nat v :: u32) = v" by (simp add: unsigned_of_nat take_bit_nat_eq_self)
  have put: "put_sym m v = ec_enc_uint (word_of_nat v) ft" by (simp add: fun_eq_iff Uint)
  show ?thesis unfolding put
    by (rule transmits_get [OF uint_transmits [OF v(1)]]) (use v(2) w in \<open>auto simp: Uint word_less_nat_alt\<close>)
next
  case (Bits bits)
  assume "sym_valid m v"
  then have v: "0 < bits" "bits \<le> 25" "v < 2 ^ bits" using Bits by simp_all
  have "(2::nat) ^ bits \<le> 2 ^ 25" using v(2) by (intro power_increasing) simp_all
  then have w: "unat (word_of_nat v :: u32) = v" using v(3) by (simp add: unsigned_of_nat take_bit_nat_eq_self)
  have put: "put_sym m v = (\<lambda>s. Some (ec_enc_bits (word_of_nat v) bits s))" by (simp add: fun_eq_iff Bits)
  show ?thesis unfolding put
    by (rule transmits_get [OF bits_transmit]) (use v w in \<open>auto simp: Bits\<close>)
qed

lemma syms_transmit:
  "\<forall>(m, v) \<in> set xs. sym_valid m v \<Longrightarrow> transmits (put_syms xs) (get_syms (map fst xs)) (\<lambda>ws. ws = map snd xs)"
proof (induction xs)
  case Nil
  have "put_syms [] = Some" "get_syms [] = (\<lambda>d. Some ([], d))" by (simp_all add: fun_eq_iff)
  then show ?case using transmits_return [of "[]"] by simp
next
  case (Cons x xs)
  obtain m v where x: "x = (m, v)" by (rule prod.exhaust)
  have mv: "sym_valid m v" using Cons.prems by (simp add: x)
  let ?get2 = "\<lambda>w d. map_option (apfst (Cons w)) (get_syms (map fst xs) d)"
  have "transmits (put_syms xs) (?get2 w) (\<lambda>ws. ws = map snd (x # xs))" if "w = v" for w
    by (rule transmits_get [OF Cons.IH]) (use Cons.prems that in \<open>auto simp: x\<close>)
  from transmits_bind [OF sym_transmits [OF mv] this refl]
  have t: "transmits (\<lambda>s. Option.bind (put_sym m v s) (put_syms xs)) (\<lambda>d. Option.bind (get_sym m d) (\<lambda>(w, d). ?get2 w d))
    (\<lambda>ws. ws = map snd (x # xs))" by simp
  have "put_syms (x # xs) = (\<lambda>s. Option.bind (put_sym m v s) (put_syms xs))" by (simp add: fun_eq_iff x)
  moreover have "get_syms (map fst (x # xs)) = (\<lambda>d. Option.bind (get_sym m d) (\<lambda>(w, d). ?get2 w d))"
    by (auto simp: fun_eq_iff x map_option_case split: prod.splits option.splits bind_splits)
  ultimately show ?case using t by simp
qed

text \<open>From an empty buffer to the finished one, and back.\<close>

lemma stream_carries:
  assumes "carries (ec_enc_init buf) put get ok"
  shows "\<exists>a s. put (ec_enc_init buf) = Some (a, s) \<and> (ec_error (ec_enc_done s) = 0 \<and> ec_nbits_total s < 2 ^ 31 \<longrightarrow>
    (\<exists>v d0 d. ec_dec_init (ec_buf (ec_enc_done s)) = Some d0 \<and> get d0 = Some (v, d) \<and> ok a v \<and> ec_error d = 0 \<and>
      ec_tell d = ec_tell s \<and> ec_rng d = ec_rng s))"
proof -
  let ?i = "ec_enc_init buf"
  obtain a s where s: "put ?i = Some (a, s)" "enc_ok ?i \<and> ec_nbits_total s < 2 ^ 31 \<and> ec_error s = 0 \<longrightarrow>
      enc_ok s \<and> follows get (ok a) ?i s"
    using assms enc_ok_range [OF enc_init_ok(1) [of buf]] unfolding carries_def by blast
  have "\<exists>v d0 d. ec_dec_init (ec_buf (ec_enc_done s)) = Some d0 \<and> get d0 = Some (v, d) \<and> ok a v \<and> ec_error d = 0 \<and>
      ec_tell d = ec_tell s \<and> ec_rng d = ec_rng s" if h: "ec_error (ec_enc_done s) = 0" "ec_nbits_total s < 2 ^ 31"
  proof -
    have "ec_error s = 0" by (rule done_sticky) (rule h(1))
    then have ok: "enc_ok s" "follows get (ok a) ?i s" using s(2) enc_init_ok(1) h(2) by simp_all
    note hit = done_hits(1,3) [OF ok(1) small_digits [OF ok(1) h(2)] h(1)]
    obtain d0 where d0: "ec_dec_init (ec_buf (ec_enc_done s)) = Some d0" "sim (ec_buf (ec_enc_done s)) ?i d0"
      using dec_init by blast
    then obtain v d where d: "get d0 = Some (v, d)" "ok a v" "sim (ec_buf (ec_enc_done s)) s d"
      using ok(2) hit unfolding follows_def by blast
    then have "ec_rng d = ec_rng s" by (intro word_unat_eq_iff [THEN iffD2]) (simp add: sim_def dec_rel_def)
    then show ?thesis using d d0(1) by (simp add: ec_tell_def sim_def)
  qed
  then show ?thesis using s(1) by blast
qed

text \<open>
  C14: The range decoder returns exactly the values that the encoder was given: for every list of values coded under
  valid models (frequency tables with any total up to \<open>2 ^ 23\<close>, bits, inverse tables, integers of any range up to
  32 bits, raw bits), the encoder returns, and if it reports no error at the end and has used fewer than \<open>2 ^ 31\<close>
  bits, then the decoder, started on the finished buffer, returns the same values, without an error, and with the same
  position (\<open>ec_tell\<close>) and range as the encoder.
\<close>

theorem range_coder_roundtrip:
  assumes "\<forall>(m, v) \<in> set xs. sym_valid m v"
  shows "\<exists>s s'. encode_all xs buf = Some (s, s') \<and> (ec_error s' = 0 \<and> ec_nbits_total s < 2 ^ 31 \<longrightarrow>
    (\<exists>d. decode_all (map fst xs) (ec_buf s') = Some (map snd xs, d) \<and> ec_error d = 0 \<and> ec_tell d = ec_tell s \<and>
      ec_rng d = ec_rng s))"
proof -
  have "carries (ec_enc_init buf) (\<lambda>s. map_option (Pair ()) (put_syms xs s)) (get_syms (map fst xs)) (\<lambda>_ ws. ws = map snd xs)"
    using syms_transmit [OF assms] by (simp only: transmits_carries [where a = "()"])
  from stream_carries [OF this] show ?thesis by (fastforce simp: encode_all_def decode_all_def)
qed

subsection \<open>Enough room\<close>

lemma done_no_error:
  assumes ok: "enc_ok s" "ec_nbits_total s < 2 ^ 31" "ec_error s = 0" and fit: "ec_tell s \<le> 8 * int (length (ec_buf s))"
  shows "ec_error (ec_enc_done s) = 0 \<and> length (ec_buf (ec_enc_done s)) = length (ec_buf s)"
proof -
  obtain n e where e: "ec_done_end s = (n, e)" by (rule prod.exhaust)
  obtain l u where lu: "ec_done_loop (int n) e s = (l, u)" by (rule prod.exhaust)
  define t where "t = (if ec_rem u \<ge> 0 \<or> ec_ext u > 0 then ec_enc_carry_out 0 u else u)"
  obtain w used x where f: "ec_flush_window (ec_nend_bits t) (ec_end_window t) t = (w, used, x)" by (rule prod_cases3)
  note fin = done_unfold [OF e lu t_def f refl]
  note de = done_end [OF ok(1) e]
  note sm = small_digits [OF ok(1,2)]
  let ?N = "length (digits s)" and ?len = "length (ec_buf s)"
  define j where "j = (n + 7) div 8"
  have j: "n \<le> 8 * j" "8 * j \<le> n + 7" "j \<le> 2" using de(1) by (simp_all add: j_def)
  have "EC_ILOG (ec_rng s) \<le> 32" unfolding EC_ILOG_def using unat_less_u32 by (rule bit_len_mono_less)
  then have sum: "8 * ?N + 8 * ec_end_offs s + ec_nend_bits s + n \<le> 8 * ?len"
    using fit ok(1) de(6) by (simp add: ec_tell_def enc_ok_def enc_mid_def raw_bits_def)
  let ?x = "s\<lparr>ec_val := e, ec_rng := 1, ec_nbits_total := ec_nbits_total s\<rparr>"
  note m = done_start [OF ok(1) e]
  have dx: "digits ?x = digits s" by (simp add: digits_def)
  from done_loop [OF lu, where j = j and r = 1 and b = "ec_nbits_total s"] obtain v r' b' where g: "l = int n - 8 * int j"
    "(ec_enc_shift ^^ j) ?x = u\<lparr>ec_val := v, ec_rng := r', ec_nbits_total := b'\<rparr>"
    by (auto simp: j_def)
  have "256 ^ j * unat (ec_rng ?x) \<le> 256 ^ 2 * 1" using j by (intro mult_le_mono power_increasing) simp_all
  then have jr: "256 ^ j * unat (ec_rng ?x) \<le> 2 ^ 31" by simp
  have jd: "length (digits ?x) + j < 2 ^ 31" using sm j dx by simp
  have ej: "ec_error ((ec_enc_shift ^^ j) ?x) = 0"
    using sum j dx ok(3) by (intro shifts_no_error [OF m jr jd]) simp_all
  note es = enc_shifts [OF m jr jd ej]
  have "enc_mid (u\<lparr>ec_val := v, ec_rng := r', ec_nbits_total := b'\<rparr>)" using es unfolding g(2) by blast
  then have wu: "wf_enc u" by (simp add: enc_mid_def wf_enc_def)
  have "digits (u\<lparr>ec_val := v, ec_rng := r', ec_nbits_total := b'\<rparr>) = digits u" by (simp add: digits_def)
  then have du: "length (digits u) = ?N + j" "tail u = tail s" using es dx unfolding g(2) by simp_all
  have eu: "ec_error u = 0" using ej unfolding g(2) by simp
  have "length (digits u) + ec_end_offs u \<le> length (ec_buf u)" using du sum j by (simp add: tail_def)
  from carry_no_error [OF wu eu this] have et: "ec_error t = 0" using eu by (simp add: t_def)
  note dd = done_digits [OF ok(1) sm e lu t_def et]
  have tl: "ec_end_offs t = ec_end_offs s" "ec_nend_bits t = ec_nend_bits s" "length (ec_buf t) = ?len"
    "ec_end_window t = ec_end_window s" using dd(5) by (simp_all add: tail_def)
  have wt: "ec_offs t + ec_end_offs t \<le> length (ec_buf t)" using dd(4) by (simp add: wf_enc_def)
  then have offs: "ec_offs t = ?N + j" using dd(2) by (simp add: j_def)
  have "8 * (ec_nend_bits s div 8) \<le> ec_nend_bits s" by simp
  then have "ec_offs t + ec_end_offs t + ec_nend_bits t div 8 \<le> length (ec_buf t)" unfolding tl offs using sum j by linarith
  with flush_keeps [OF f] et have ex: "ec_error x = 0" by blast
  have "unat (ec_end_window t) < 2 ^ ec_nend_bits t" using ok(1) tl by (simp add: enc_ok_def enc_mid_def raw_ok_def)
  note fw = flush_window [OF wt this f ex]
  have x: "ec_offs x = ?N + j" "length (ec_buf x) = ?len" "8 * ec_end_offs x + used = 8 * ec_end_offs s + ec_nend_bits s" "used < 8"
    "ec_offs x + ec_end_offs x \<le> length (ec_buf x)"
    using fw offs tl by (simp_all add: front_def)
  have "used = 0 \<or> ec_end_offs x < ?len"
  proof (rule ccontr)
    assume u: "\<not> (used = 0 \<or> ec_end_offs x < ?len)"
    then have "?N + j = 0" using x(1,2,5) by linarith
    then have "?N = 0" "n = 0" using j by simp_all
    then show False using u sum x(3) by simp
  qed
  moreover have "\<not> (?len \<le> ec_offs x + ec_end_offs x \<and> - l < int used)"
  proof
    assume "?len \<le> ec_offs x + ec_end_offs x \<and> - l < int used"
    then have "?len \<le> ?N + j + ec_end_offs x" "8 * j < n + used" using x g(1) by simp_all
    then show False using sum x(3) by linarith
  qed
  ultimately show ?thesis unfolding fin using ex x by (auto simp: Let_def)
qed

text \<open>
  C16: The number of bits reported by \<open>ec_tell\<close> is a safe account of the space used: for a buffer below \<open>2 ^ 27\<close> bytes, if
  after coding valid values it is at most the size of the buffer in bits, then finishing the stream reports no
  error and leaves the size of the buffer as it was: everything coded fits, however the bytes and the raw bits meet.
\<close>

theorem tell_bounds_stream:
  assumes "\<forall>(m, v) \<in> set xs. sym_valid m v" "encode_all xs buf = Some (s, s')"
    "ec_tell s \<le> 8 * int (length buf)" "length buf < 2 ^ 27"
  shows "ec_error s' = 0 \<and> length (ec_buf s') = length buf"
proof -
  let ?i = "ec_enc_init buf"
  have s: "put_syms xs ?i = Some s" "s' = ec_enc_done s" using assms(2) by (auto simp: encode_all_def)
  then have t: "advances ?i s" "survives ?i s" "enc_ok ?i \<and> ec_nbits_total s < 2 ^ 31 \<and> ec_error s = 0 \<longrightarrow> enc_ok s"
    using syms_transmit [OF assms(1)] enc_ok_range [OF enc_init_ok(1) [of buf]] unfolding transmits_def by fastforce+
  have "EC_ILOG (ec_rng s) \<le> 32" unfolding EC_ILOG_def using unat_less_u32 by (rule bit_len_mono_less)
  then have n: "ec_nbits_total s \<le> 32 + 8 * int (length buf)" using assms(3) by (simp add: ec_tell_def)
  moreover have "length (ec_buf ?i) = length buf" by (simp add: ec_enc_init_def)
  ultimately have e: "ec_error s = 0" "ec_nbits_total s < 2 ^ 31"
    using t(2) enc_init_ok(1,6) assms(4) by (auto simp: survives_def)
  then have "enc_ok s" using t(3) enc_init_ok(1) by blast
  moreover have l: "length (ec_buf s) = length buf" using t(1) by (simp add: advances_def ec_enc_init_def)
  ultimately show ?thesis unfolding s(2) using done_no_error [of s] e assms(3) by simp
qed

subsection \<open>A stream\<close>

definition demo_symbols :: "(ec_model \<times> nat) list" where
  "demo_symbols = [(BitLogp 3, 1), (FreqBin [0, 1, 7] 3, 1), (Bits 3, 5), (Icdf [200, 100, 0] 8, 1), (Uint 100000, 12345)]"

definition demo_coded :: ec_ctx where
  "demo_coded = \<lparr>ec_buf = [7, 7, 7, 7, 7, 7], ec_end_offs = 0, ec_end_window = 461, ec_nend_bits = 12, ec_nbits_total = 53,
     ec_offs = 0, ec_rng = 102717440, ec_val = 854646784, ec_ext = 0, ec_rem = 234, ec_error = 0\<rparr>"

definition demo_finished :: ec_ctx where
  "demo_finished = demo_coded\<lparr>ec_buf := [234, 104, 0, 0, 1, 205], ec_offs := 2, ec_end_offs := 1, ec_rem := 0\<rparr>"

lemmas enc_eval = ec_enc_bit_logp_def ec_encode_def ec_encode_bin_def celt_udiv_def Let_def ec_enc_normalize.simps
  ec_enc_shift_def ec_enc_carry_out_def ec_or_error_def ec_write_byte_def ec_enc_icdf_def icdf_at_def
  ec_enc_uint_def EC_ILOG_def bit_len.simps ec_enc_bits_def ec_flush_window.simps ec_write_byte_at_end_def ec_enc_init_def

lemma demo_valid: "\<forall>(m, v) \<in> set demo_symbols. sym_valid m v"
  by (simp add: demo_symbols_def table_valid_def icdf_valid_def)

lemma demo_put: "put_syms demo_symbols (ec_enc_init [7, 7, 7, 7, 7, 7]) = Some demo_coded"
  by (simp add: demo_symbols_def demo_coded_def enc_eval)

lemma demo_done: "ec_enc_done demo_coded = demo_finished"
  by (simp add: demo_coded_def demo_finished_def ec_enc_done_def ec_done_end_def ec_done_loop.simps enc_eval)

lemma demo_encoded: "encode_all demo_symbols [7, 7, 7, 7, 7, 7] = Some (demo_coded, demo_finished)"
  by (simp add: encode_all_def demo_put demo_done)

lemma demo_tell: "ec_tell demo_coded = 26"
  by (simp add: demo_coded_def ec_tell_def EC_ILOG_def bit_len.simps)

lemma range_coder_roundtrip_witness:
  "encode_all demo_symbols [7, 7, 7, 7, 7, 7] = Some (demo_coded, demo_finished) \<and>
     (\<exists>d. decode_all [BitLogp 3, FreqBin [0, 1, 7] 3, Bits 3, Icdf [200, 100, 0] 8, Uint 100000] [234, 104, 0, 0, 1, 205] =
       Some ([1, 1, 5, 1, 12345], d) \<and> ec_tell d = 26)"
  using range_coder_roundtrip [OF demo_valid, of "[7, 7, 7, 7, 7, 7]"] demo_encoded demo_tell
  by (auto simp: demo_finished_def demo_coded_def demo_symbols_def)

lemma tell_bounds_stream_witness: "ec_error demo_finished = 0 \<and> length (ec_buf demo_finished) = 6"
  using tell_bounds_stream [OF demo_valid demo_encoded] demo_tell by simp

end
