(* ===== verification/Anystream.thy ===== *)
theory Anystream
  imports Roundtrip
begin

section \<open>The range decoder on any bytes\<close>

text \<open>
  A received packet need not come from an encoder. The decoding operations return on every
  buffer, with a symbol of the model and a state of the same form; they read within the buffer.
\<close>

definition dec_wf :: "ec_ctx \<Rightarrow> bool" where
  "dec_wf d \<longleftrightarrow> 2 ^ 23 < unat (ec_rng d) \<and> unat (ec_rng d) \<le> 2 ^ 31 \<and> unat (ec_val d) < unat (ec_rng d) \<and>
     ec_offs d \<le> length (ec_buf d) \<and> ec_end_offs d \<le> length (ec_buf d) \<and> ec_nend_bits d \<le> 32"

definition reads :: "(ec_ctx \<Rightarrow> ('v \<times> ec_ctx) option) \<Rightarrow> ('v \<Rightarrow> bool) \<Rightarrow> bool" where
  "reads get ok \<longleftrightarrow> (\<forall>d. dec_wf d \<longrightarrow> (\<exists>v d'. get d = Some (v, d') \<and> ok v \<and> dec_wf d' \<and> ec_buf d' = ec_buf d))"

lemma reads_return: "ok v \<Longrightarrow> reads (\<lambda>d. Some (v, d)) ok"
  by (simp add: reads_def)

lemma reads_bind:
  "reads get1 ok1 \<Longrightarrow> (\<And>v. ok1 v \<Longrightarrow> reads (get2 v) ok2) \<Longrightarrow>
     reads (\<lambda>d. Option.bind (get1 d) (\<lambda>(v, d). get2 v d)) ok2"
  unfolding reads_def by (metis (mono_tags, lifting) Option.bind.bind_lunit case_prod_conv)

lemma reads_map: "reads get ok \<Longrightarrow> (\<And>v. ok v \<Longrightarrow> ok' (f v)) \<Longrightarrow> reads (\<lambda>d. map_option (apfst f) (get d)) ok'"
  unfolding reads_def by fastforce

subsection \<open>Renormalisation\<close>

lemma shift_wf:
  assumes "unat (ec_rng d) \<le> 2 ^ 23" "unat (ec_val d) < unat (ec_rng d)"
    "ec_offs d \<le> length (ec_buf d)"
  defines "d' \<equiv> ec_dec_shift d"
  shows "unat (ec_rng d') = 256 * unat (ec_rng d)" "unat (ec_val d') < unat (ec_rng d')" "ec_buf d' = ec_buf d"
    "ec_offs d' \<le> length (ec_buf d)" "ec_end_offs d' = ec_end_offs d" "ec_nend_bits d' = ec_nend_bits d"
proof -
  have "\<exists>c. ec_val d' = (push_bit 8 (ec_val d) + (255 AND c)) AND 0x7FFFFFFF \<and> ec_rng d' = push_bit 8 (ec_rng d) \<and>
      ec_buf d' = ec_buf d \<and> ec_offs d' \<le> length (ec_buf d) \<and> ec_end_offs d' = ec_end_offs d \<and> ec_nend_bits d' = ec_nend_bits d"
    using assms(3) by (cases "ec_offs d < length (ec_buf d)")
      (auto simp: d'_def ec_dec_shift_def Let_def ec_read_byte_def simp del: push_bit_eq_mult drop_bit_eq_div push_bit_or drop_bit_or)
  then obtain c where v: "ec_val d' = (push_bit 8 (ec_val d) + (255 AND c)) AND 0x7FFFFFFF"
    and r: "ec_rng d' = push_bit 8 (ec_rng d)"
    and o: "ec_buf d' = ec_buf d" "ec_offs d' \<le> length (ec_buf d)" "ec_end_offs d' = ec_end_offs d" "ec_nend_bits d' = ec_nend_bits d" by blast
  show "ec_buf d' = ec_buf d" "ec_offs d' \<le> length (ec_buf d)" "ec_end_offs d' = ec_end_offs d" "ec_nend_bits d' = ec_nend_bits d"
    by (rule o)+
  show rng: "unat (ec_rng d') = 256 * unat (ec_rng d)" using assms(1) unfolding r by (simp add: unat_push8 del: push_bit_eq_mult)
  have "unat (255 AND c) < 256" unfolding and.commute [of 255] unat_255_and by simp
  moreover have p: "unat (push_bit 8 (ec_val d)) = 256 * unat (ec_val d)"
    using assms(1,2) by (simp add: unat_push8 del: push_bit_eq_mult)
  ultimately have s: "unat (push_bit 8 (ec_val d)) + unat (255 AND c) < 256 * unat (ec_rng d)" using assms(2) by linarith
  moreover have "256 * unat (ec_rng d) \<le> 2 ^ 31" using assms(1) by simp
  ultimately have "unat (push_bit 8 (ec_val d) + (255 AND c)) = unat (push_bit 8 (ec_val d)) + unat (255 AND c)"
    by (intro unat_add_small) simp
  then have "unat (ec_val d') \<le> unat (push_bit 8 (ec_val d)) + unat (255 AND c)" unfolding v unat_top_and by simp
  then show "unat (ec_val d') < unat (ec_rng d')" using s rng by simp
qed

lemma normalize_wf:
  assumes "0 < unat (ec_rng d)" "unat (ec_rng d) \<le> 2 ^ 31" "unat (ec_val d) < unat (ec_rng d)"
    "ec_offs d \<le> length (ec_buf d)" "ec_end_offs d \<le> length (ec_buf d)" "ec_nend_bits d \<le> 32"
  shows "\<exists>d'. ec_dec_normalize d = Some d' \<and> dec_wf d' \<and> ec_buf d' = ec_buf d"
proof -
  let ?r = "unat (ec_rng d)" and ?d = "\<lambda>k. (ec_dec_shift ^^ k) d"
  have "256 ^ k * ?r \<le> 2 ^ 31 \<Longrightarrow> unat (ec_rng (?d k)) = 256 ^ k * ?r \<and> unat (ec_val (?d k)) < unat (ec_rng (?d k)) \<and>
    ec_buf (?d k) = ec_buf d \<and> ec_offs (?d k) \<le> length (ec_buf d) \<and> ec_end_offs (?d k) = ec_end_offs d \<and>
    ec_nend_bits (?d k) = ec_nend_bits d" for k
  proof (induction k)
    case (Suc k)
    have b: "256 ^ k * ?r \<le> 2 ^ 23" using Suc.prems by (simp add: ac_simps)
    then have "256 ^ k * ?r \<le> 2 ^ 31" by simp
    note IH = Suc.IH [OF this]
    then show ?case using shift_wf [of "?d k"] b by (simp add: ac_simps)
  qed (use assms in simp)
  from this [of "shifts ?r"] have "dec_wf (?d (shifts ?r)) \<and> ec_buf (?d (shifts ?r)) = ec_buf d"
    using shifts_bounds [OF assms(1,2)] assms(5,6) by (simp add: dec_wf_def)
  then show ?thesis using dec_normalize [OF assms(1)] by blast
qed

text \<open>After a new range and value, inside the old ones.\<close>

lemma narrow:
  assumes "dec_wf d" "unat v < unat r" "unat r \<le> unat (ec_rng d)"
  shows "\<exists>d'. ec_dec_normalize (d\<lparr>ec_ext := e, ec_val := v, ec_rng := r\<rparr>) = Some d' \<and> dec_wf d' \<and> ec_buf d' = ec_buf d"
  using normalize_wf [of "d\<lparr>ec_ext := e, ec_val := v, ec_rng := r\<rparr>"] assms by (simp add: dec_wf_def)

lemma init_wf: "\<exists>d. ec_dec_init B = Some d \<and> dec_wf d \<and> ec_buf d = B"
proof -
  obtain d where d: "ec_dec_init B = Some d" "sim B (ec_enc_init []) d" using dec_init by blast
  have r: "unat (ec_rng (ec_enc_init [])) = 2 ^ 31" by (simp add: ec_enc_init_def)
  have "unat (ec_val d) < unat (ec_rng d)" "unat (ec_rng d) = 2 ^ 31" "ec_buf d = B" "ec_offs d \<le> length B"
    using d(2) unfolding sim_def dec_rel_def enc_init_ok r by auto
  moreover have "ec_end_offs d \<le> length B" "ec_nend_bits d \<le> 32" using d(2) by (auto simp: sim_def dec_raw_def)
  ultimately show ?thesis using d(1) by (simp add: dec_wf_def)
qed

subsection \<open>The operations\<close>

lemma logp_reads:
  assumes "0 < logp" "logp \<le> 23"
  shows "reads (ec_dec_bit_logp logp) (\<lambda>_. True)"
  unfolding reads_def
proof (intro allI impI)
  fix d assume d: "dec_wf d"
  let ?t = "drop_bit logp (ec_rng d)"
  have t: "0 < unat ?t" "unat ?t < unat (ec_rng d)"
    using logp_part [OF assms, of "unat (ec_rng d)"] d by (simp_all add: dec_wf_def unat_drop del: drop_bit_eq_div)
  let ?v = "if ec_val d < ?t then ec_val d else ec_val d - ?t" and ?r = "if ec_val d < ?t then ?t else ec_rng d - ?t"
  have "unat ?v < unat ?r" "unat ?r \<le> unat (ec_rng d)"
    using d t by (auto simp: word_less_nat_alt unat_sub_le dec_wf_def not_less simp del: drop_bit_eq_div)
  from narrow [OF d this, of "ec_ext d"] show "\<exists>v d'. ec_dec_bit_logp logp d = Some (v, d') \<and> True \<and> dec_wf d' \<and> ec_buf d' = ec_buf d"
    by (auto simp: ec_dec_bit_logp_def Let_def simp del: drop_bit_eq_div split: if_splits)
qed

lemma icdf_search_total:
  "\<exists>x \<in> set xs. x = 0 \<Longrightarrow> d < t \<Longrightarrow> \<exists>i t' s'. icdf_search r d t k xs = Some (k + i, t', s') \<and> i < length xs \<and>
     s' = r * ucast (xs ! i) \<and> t' = (if i = 0 then t else r * ucast (xs ! (i - 1))) \<and> s' \<le> d \<and> d < t'"
proof (induction xs arbitrary: t k)
  case (Cons x xs)
  let ?s = "r * ucast x"
  show ?case
  proof (cases "d < ?s")
    case True
    then have "x \<noteq> 0" by auto
    then have "\<exists>x \<in> set xs. x = 0" using Cons.prems by auto
    from Cons.IH [OF this True, of "k + 1"] obtain i t' s' where
      "icdf_search r d ?s (k + 1) xs = Some (k + 1 + i, t', s')" "i < length xs" "s' = r * ucast (xs ! i)"
      "t' = (if i = 0 then ?s else r * ucast (xs ! (i - 1)))" "s' \<le> d" "d < t'" by blast
    then show ?thesis using True by (intro exI [of _ "Suc i"]) (auto simp: nth_Cons' Let_def)
  next
    case False
    show ?thesis by (rule exI [of _ 0]) (use False Cons.prems in \<open>auto simp: Let_def not_less\<close>)
  qed
qed simp

definition icdf_ok :: "byte list \<Rightarrow> nat \<Rightarrow> bool" where
  "icdf_ok icdf ftb \<longleftrightarrow> icdf \<noteq> [] \<and> ftb \<le> 23 \<and> sorted_wrt (\<lambda>a b. b \<le> a) icdf \<and> unat (icdf ! 0) < 2 ^ ftb \<and> last icdf = 0"

lemma icdf_reads:
  assumes ok: "icdf_ok icdf ftb"
  shows "reads (ec_dec_icdf icdf ftb) (\<lambda>i. icdf_valid (i, icdf, ftb))"
  unfolding reads_def
proof (intro allI impI)
  fix d assume d: "dec_wf d"
  let ?r = "drop_bit ftb (ec_rng d)"
  have "\<exists>x \<in> set icdf. x = 0" using ok last_in_set [of icdf] by (auto simp: icdf_ok_def)
  moreover have "ec_val d < ec_rng d" using d by (simp add: dec_wf_def word_less_nat_alt)
  ultimately obtain i t s where i: "icdf_search ?r (ec_val d) (ec_rng d) 0 icdf = Some (i, t, s)" "i < length icdf"
    "s = ?r * ucast (icdf ! i)" "t = (if i = 0 then ec_rng d else ?r * ucast (icdf ! (i - 1)))" "s \<le> ec_val d" "ec_val d < t"
    using icdf_search_total [of icdf "ec_val d" "ec_rng d" ?r 0] by auto
  have R: "unat ?r * 2 ^ ftb \<le> unat (ec_rng d)" unfolding unat_drop by (rule div_times_less_eq_dividend)
  have le: "unat (icdf ! k) < 2 ^ ftb" if "k < length icdf" for k
    using ok that by (cases "k = 0") (auto simp: icdf_ok_def sorted_wrt_iff_nth_less word_le_nat_alt intro: le_less_trans)
  have mult: "unat (?r * ucast (icdf ! k)) = unat ?r * unat (icdf ! k)" "unat ?r * unat (icdf ! k) \<le> unat (ec_rng d)" if "k < length icdf" for k
  proof -
    have "unat ?r * unat (icdf ! k) \<le> unat ?r * 2 ^ ftb" using le [OF that] by (intro mult_le_mono2) simp
    then show l: "unat ?r * unat (icdf ! k) \<le> unat (ec_rng d)" using R by linarith
    have "unat ?r * unat (ucast (icdf ! k) :: u32) < 2 ^ 32" using l d by (simp add: dec_wf_def del: drop_bit_eq_div)
    then show "unat (?r * ucast (icdf ! k)) = unat ?r * unat (icdf ! k)" using unat_mult_small by (metis unat_byte_u32)
  qed
  have t: "unat t \<le> unat (ec_rng d)" using i(2,4) mult [of "i - 1"] by (auto simp del: drop_bit_eq_div)
  have st: "unat s \<le> unat (ec_val d)" "unat (ec_val d) < unat t" using i(5,6) by (simp_all add: word_le_nat_alt word_less_nat_alt)
  have "unat (ec_val d - s) < unat (t - s)" "unat (t - s) \<le> unat (ec_rng d)" using st t by (simp_all add: unat_sub_le)
  from narrow [OF d this, of "ec_ext d"] obtain d' where d': "ec_dec_normalize (d\<lparr>ec_val := ec_val d - s, ec_rng := t - s\<rparr>) = Some d'"
    "dec_wf d'" "ec_buf d' = ec_buf d" by auto
  have "icdf ! i < icdf ! (i - 1)" if "i \<noteq> 0"
  proof -
    have si: "unat s = unat ?r * unat (icdf ! i)" unfolding i(3) by (rule mult(1)) (rule i(2))
    have ti: "unat t = unat ?r * unat (icdf ! (i - 1))" unfolding i(4) if_not_P [OF that] by (rule mult(1)) (use i(2) in simp)
    have "unat ?r * unat (icdf ! i) < unat ?r * unat (icdf ! (i - 1))"
      using st unfolding si ti by (rule le_less_trans)
    then show ?thesis by (simp only: mult_less_cancel1 word_less_nat_alt)
  qed
  then have "icdf_valid (i, icdf, ftb)" using i(2) ok by (simp add: icdf_valid_def icdf_ok_def)
  then show "\<exists>v d'. ec_dec_icdf icdf ftb d = Some (v, d') \<and> icdf_valid (v, icdf, ftb) \<and> dec_wf d' \<and> ec_buf d' = ec_buf d"
    using d' i(1) by (auto simp: ec_dec_icdf_def Let_def simp del: drop_bit_eq_div)
qed

text \<open>\<open>ec_decode\<close> gives a frequency below the total, and \<open>ec_dec_update\<close> takes any symbol that holds it.\<close>

lemma decode_reads:
  fixes ft :: u32
  assumes ft: "0 < unat ft" "unat ft \<le> 2 ^ 23" and d: "dec_wf d" and r: "ec_decode ft d = (f, e)"
  shows "f < ft" "fl \<le> f \<Longrightarrow> f < fh \<Longrightarrow> fh \<le> ft \<Longrightarrow> \<exists>d'. ec_dec_update fl fh ft e = Some d' \<and> dec_wf d' \<and> ec_buf d' = ec_buf d"
proof -
  let ?x = "celt_udiv (ec_rng d) ft" and ?V = "unat (ec_val d)" and ?R = "unat (ec_rng d)" and ?T = "unat ft"
  let ?X = "?R div ?T" and ?Q = "?V div (?R div ?T)"
  note wf = d [unfolded dec_wf_def]
  have x: "unat ?x = ?X" by (simp add: celt_udiv_def unat_div)
  have X: "0 < ?X" "?X * ?T \<le> ?R" using ft wf by (simp_all add: div_greater_zero_iff)
  have e: "e = d\<lparr>ec_ext := ?x\<rparr>" "f = ft - min (ec_val d div ?x + 1) ft" using r by (simp_all add: ec_decode_def Let_def)
  have big: "y < 2 ^ 31 \<Longrightarrow> y + 1 < 2 ^ 32" for y :: nat by simp
  have qd: "unat (ec_val d div ?x) = ?Q" by (simp only: unat_div x)
  have "?Q \<le> ?V" by (rule div_le_dividend)
  moreover have "?V < 2 ^ 31" using wf by linarith
  ultimately have "?Q < 2 ^ 31" by (rule le_less_trans)
  then have "unat (ec_val d div ?x) + unat (1 :: u32) < 2 ^ 32" unfolding qd unat_1 by (rule big)
  then have q: "unat (ec_val d div ?x + 1) = ?Q + 1" by (simp only: unat_add_small qd unat_1)
  have m: "unat (min (ec_val d div ?x + 1) ft) = min (?Q + 1) ?T" by (simp add: min_def word_le_nat_alt q)
  have f: "unat f = ?T - min (?Q + 1) ?T" unfolding e(2) using m by (simp add: unat_sub_le)
  then show "f < ft" using ft by (simp add: word_less_nat_alt)
  assume fl: "fl \<le> f" "f < fh" "fh \<le> ft"
  let ?L = "unat fl" and ?H = "unat fh"
  have n: "?L \<le> unat f" "unat f < ?H" "?H \<le> ?T" using fl by (simp_all add: word_le_nat_alt word_less_nat_alt)
  have mul: "unat (?x * y) = ?X * unat y" "?X * unat y \<le> ?R" if "unat y \<le> ?T" for y
  proof -
    have "?X * unat y \<le> ?X * ?T" using that by (rule mult_le_mono2)
    then show l: "?X * unat y \<le> ?R" using X by linarith
    then have "unat ?x * unat y < 2 ^ 32" using wf x by simp
    then show "unat (?x * y) = ?X * unat y" by (simp only: unat_mult_small x)
  qed
  have th: "unat (ft - fh) = ?T - ?H" "unat (fh - fl) = ?H - ?L" using n by (simp_all add: unat_sub_le word_le_nat_alt word_less_nat_alt)
  have t: "unat (?x * (ft - fh)) = ?X * (?T - ?H)" "?X * (?T - ?H) \<le> ?R" using mul [of "ft - fh"] th by simp_all
  have Q: "?T - ?H \<le> ?Q" "0 < ?L \<Longrightarrow> ?Q + 1 \<le> ?T - ?L" using f n by (auto simp: min_def split: if_splits)
  have QX: "?Q * ?X \<le> ?V" "?V < (?Q + 1) * ?X" using X by (auto simp: dividend_less_div_times intro: div_times_less_eq_dividend)
  have lo: "?X * (?T - ?H) \<le> ?V"
    using order_trans [OF mult_le_mono2 [OF Q(1)] QX(1) [unfolded mult.commute [of ?Q]]] .
  let ?v = "ec_val d - ?x * (ft - fh)" and ?r = "if fl > 0 then ?x * (fh - fl) else ec_rng d - ?x * (ft - fh)"
  have v: "unat ?v = ?V - ?X * (?T - ?H)" using t lo by (simp add: unat_sub_le)
  have "unat ?v < unat ?r \<and> unat ?r \<le> ?R"
  proof (cases "fl > 0")
    case True
    have "(?Q + 1) * ?X \<le> (?T - ?L) * ?X" using Q(2) True by (intro mult_le_mono1) (simp add: word_less_nat_alt)
    also have "\<dots> = ?X * (?T - ?H) + ?X * (?H - ?L)"
    proof -
      have "?T - ?L = (?T - ?H) + (?H - ?L)" using n by simp
      then show ?thesis by (simp only: distrib_left mult.commute [of _ ?X])
    qed
    finally have "?V < ?X * (?T - ?H) + ?X * (?H - ?L)" using QX(2) by linarith
    then have "?V - ?X * (?T - ?H) < ?X * (?H - ?L)" using lo by linarith
    moreover have "unat (?x * (fh - fl)) = ?X * (?H - ?L)" "?X * (?H - ?L) \<le> ?R" using mul [of "fh - fl"] th n by simp_all
    ultimately show ?thesis using True v by simp
  next
    case False
    have "unat (ec_rng d - ?x * (ft - fh)) = ?R - ?X * (?T - ?H)" using t by (simp add: unat_sub_le)
    moreover have "?V - ?X * (?T - ?H) < ?R - ?X * (?T - ?H)" using lo wf by (intro diff_less_mono) simp_all
    ultimately show ?thesis using False v by simp
  qed
  then show "\<exists>d'. ec_dec_update fl fh ft e = Some d' \<and> dec_wf d' \<and> ec_buf d' = ec_buf d"
    using narrow [OF d, of ?v ?r ?x] unfolding ec_dec_update_def Let_def e(1) by (cases "fl > 0") simp_all
qed

definition cum_ok :: "u32 list \<Rightarrow> nat \<Rightarrow> bool" where
  "cum_ok cum ft \<longleftrightarrow> 1 < length cum \<and> hd cum = 0 \<and> sorted_wrt (<) cum \<and> unat (last cum) = ft \<and> ft \<le> 2 ^ 23"

lemma find_freq_total:
  assumes "1 < length cum" "hd cum \<le> f" "f < last cum"
  shows "find_freq cum f + 1 < length cum \<and> cum ! find_freq cum f \<le> f \<and> f < cum ! (find_freq cum f + 1)"
proof -
  obtain c cs where c: "cum = c # cs" "cs \<noteq> []" using assms(1) by (cases cum) auto
  let ?n = "length (takeWhile (\<lambda>x. x \<le> f) cs)"
  have "\<not> (\<forall>x \<in> set cs. x \<le> f)" using assms(3) c by (auto simp: not_le intro!: bexI [of _ "last cs"])
  then have n: "?n < length cs" using takeWhile_eq_all_conv [of "\<lambda>x. x \<le> f" cs]
    by (metis length_takeWhile_le le_neq_implies_less takeWhile_eq_take take_all_iff order_refl)
  then have "\<not> cs ! ?n \<le> f" by (rule nth_length_takeWhile)
  moreover have "cs ! (?n - 1) \<le> f" if "?n \<noteq> 0"
    using that n takeWhile_nth [of "?n - 1" "\<lambda>x. x \<le> f" cs] set_takeWhileD [of "takeWhile (\<lambda>x. x \<le> f) cs ! (?n - 1)" "\<lambda>x. x \<le> f" cs]
    by (metis diff_less neq0_conv nth_mem zero_less_one)
  ultimately show ?thesis
    using n assms(2) c by (simp add: find_freq_def nth_Cons' not_le)
qed

lemma found_reads:
  assumes cum: "cum_ok cum (unat ft)" and get: "\<And>d. get d = dec_found cum ft (ec_decode ft d)"
  shows "reads get (table_valid cum (unat ft))"
  unfolding reads_def
proof (intro allI impI)
  fix d assume d: "dec_wf d"
  obtain f e where fe: "ec_decode ft d = (f, e)" by (rule prod.exhaust)
  have l: "last cum = ft" using cum by (simp add: cum_ok_def word_unat_eq_iff)
  have "hd cum < last cum"
    using cum by (cases cum) (auto simp: cum_ok_def dest: last_in_set)
  then have ft: "0 < unat ft" "unat ft \<le> 2 ^ 23" using cum l by (simp_all add: cum_ok_def word_less_nat_alt)
  note dr = decode_reads [OF ft d fe]
  let ?v = "find_freq cum f"
  have v: "?v + 1 < length cum" "cum ! ?v \<le> f" "f < cum ! (?v + 1)"
    using find_freq_total [of cum f] cum dr(1) l by (simp_all add: cum_ok_def)
  have tv: "table_valid cum (unat ft) ?v" using cum v(1) by (simp add: table_valid_def cum_ok_def)
  have "cum ! (?v + 1) \<le> ft"
  proof -
    have "cum \<noteq> []" using v(1) by auto
    then show ?thesis
      using v(1) cum l by (cases "?v + 1 = length cum - 1") (auto simp: cum_ok_def last_conv_nth sorted_wrt_iff_nth_less intro!: less_imp_le)
  qed
  then show "\<exists>v d'. get d = Some (v, d') \<and> table_valid cum (unat ft) v \<and> dec_wf d' \<and> ec_buf d' = ec_buf d"
    using dr(2) [OF v(2,3)] tv by (auto simp: get dec_found_def fe Let_def)
qed

text \<open>Raw bits.\<close>

lemma fill_wf:
  "ec_fill_window w a d = (w', a', d') \<Longrightarrow> a \<le> 24 \<Longrightarrow> ec_end_offs d \<le> length (ec_buf d) \<Longrightarrow>
     24 < a' \<and> a' \<le> 32 \<and> dec_front d' = dec_front d \<and> ec_end_offs d' \<le> length (ec_buf d)"
proof (induction w a d rule: ec_fill_window.induct)
  case (1 w a d)
  obtain b e where be: "ec_read_byte_from_end d = (b, e)" by (rule prod.exhaust)
  have e: "dec_front e = dec_front d" "ec_end_offs e \<le> length (ec_buf d)" "length (ec_buf e) = length (ec_buf d)"
    using be 1(4) by (auto simp: ec_read_byte_from_end_def dec_front_def split: if_splits)
  show ?case
  proof (cases "a + 8 \<le> 24")
    case True
    have "ec_fill_window (w OR push_bit a b) (a + 8) e = (w', a', d')"
      using 1(2) True by (simp add: ec_fill_window.simps [of w] be Let_def del: push_bit_eq_mult)
    then show ?thesis using 1(1) [OF be [symmetric] refl refl refl True] True e by (simp add: dec_front_def)
  next
    case False
    then show ?thesis using 1(2,3) e by (auto simp: ec_fill_window.simps [of w] be Let_def)
  qed
qed

lemma bits_wf:
  assumes b: "0 < bits" "bits \<le> 25" and d: "dec_wf d" and r: "ec_dec_bits bits d = (v, d')"
  shows "unat v < 2 ^ bits" "dec_wf d'" "ec_buf d' = ec_buf d"
proof -
  define q where "q = (if ec_nend_bits d < bits then ec_fill_window (ec_end_window d) (ec_nend_bits d) d
    else (ec_end_window d, ec_nend_bits d, d))"
  obtain w a u where wau: "q = (w, a, u)" by (rule prod_cases3)
  have e: "v = w AND (push_bit bits 1 - 1)"
    "d' = u\<lparr>ec_end_window := drop_bit bits w, ec_nend_bits := a - bits, ec_nbits_total := ec_nbits_total u + int bits\<rparr>"
    using r wau by (simp_all add: ec_dec_bits_def q_def Let_def del: push_bit_eq_mult drop_bit_eq_div)
  have "a \<le> 32 \<and> dec_front u = dec_front d \<and> ec_end_offs u \<le> length (ec_buf d)"
    using wau fill_wf [of "ec_end_window d" "ec_nend_bits d" d w a u] d b by (auto simp: q_def dec_wf_def split: if_splits)
  then show "dec_wf d'" "ec_buf d' = ec_buf d" using d by (auto simp: e dec_wf_def dec_front_def)
  have "v = take_bit bits w" by (simp add: e take_bit_eq_mask mask_eq_exp_minus_1)
  then show "unat v < 2 ^ bits" by (simp add: unsigned_take_bit_eq take_bit_nat_less_exp)
qed

lemma uint_reads:
  assumes ft: "1 < ft"
  shows "reads (ec_dec_uint ft) (\<lambda>v. v < ft)"
  unfolding reads_def
proof (intro allI impI)
  fix d assume d: "dec_wf d"
  have next_le: "q < q + 1 \<and> q + 1 \<le> t" if "q < t" for q t :: u32
  proof -
    have "unat (q + 1) = unat q + 1" using that unat_less_u32 [of t] by (simp add: word_less_nat_alt unat_add_small)
    then show ?thesis using that by (simp add: word_less_nat_alt word_le_nat_alt)
  qed
  have pred: "x < ft" if "x \<le> ft - 1" for x
    using that ft by (simp add: word_le_nat_alt word_less_nat_alt unat_sub_le)
  show "\<exists>v d'. ec_dec_uint ft d = Some (v, d') \<and> v < ft \<and> dec_wf d' \<and> ec_buf d' = ec_buf d"
  proof (cases "EC_ILOG (ft - 1) \<le> 8")
    case True
    obtain q e where qe: "ec_decode ft d = (q, e)" by (rule prod.exhaust)
    have "freq_valid (0, 0 + 1, ft)" using uint_small [OF ft _ True, of 0] ft by (simp add: word_less_nat_alt)
    then have t: "0 < unat ft" "unat ft \<le> 2 ^ 23" using ft by (simp_all add: freq_valid_def word_less_nat_alt)
    note dr = decode_reads [OF t d qe]
    show ?thesis using dr(2) [of q "q + 1"] next_le [OF dr(1)] dr(1) True qe
      by (auto simp: ec_dec_uint_def Let_def)
  next
    case False
    define b where "b = EC_ILOG (ft - 1) - 8"
    define fq where "fq = drop_bit b (ft - 1) + 1"
    have le: "ft - 1 \<le> ft - 1" by simp
    from uint_large(1-3) [OF le b_def] False have u: "freq_valid (drop_bit b (ft - 1), fq, fq)" "0 < b" "b \<le> 25"
      by (simp_all add: fq_def del: drop_bit_eq_div)
    obtain q e where qe: "ec_decode fq d = (q, e)" by (rule prod.exhaust)
    have t: "0 < unat fq" "unat fq \<le> 2 ^ 23" using u(1) by (auto simp: freq_valid_def word_less_nat_alt simp del: drop_bit_eq_div)
    note dr = decode_reads [OF t d qe]
    obtain d1 where d1: "ec_dec_update q (q + 1) fq e = Some d1" "dec_wf d1" "ec_buf d1 = ec_buf d"
      using dr(2) [of q "q + 1"] next_le [OF dr(1)] by auto
    obtain w d2 where d2: "ec_dec_bits b d1 = (w, d2)" by (rule prod.exhaust)
    note bw = bits_wf [OF u(2,3) d1(2) d2]
    have e: "ec_dec_uint ft d = (if push_bit b q OR w \<le> ft - 1 then Some (push_bit b q OR w, d2) else Some (ft - 1, d2\<lparr>ec_error := 1\<rparr>))"
      using False by (simp add: ec_dec_uint_def Let_def b_def [symmetric] fq_def [symmetric] qe d1 d2 del: drop_bit_eq_div push_bit_eq_mult)
    have "dec_wf (d2\<lparr>ec_error := 1\<rparr>)" using bw(2) by (simp add: dec_wf_def)
    then show ?thesis using e bw d1(3) pred by (simp del: drop_bit_eq_div push_bit_eq_mult)
  qed
qed

subsection \<open>Any stream\<close>

text \<open>The models a decoder may use: like \<open>sym_valid\<close>, and every frequency belongs to a symbol.\<close>

fun model_ok :: "ec_model \<Rightarrow> bool" where
  "model_ok (Freq cum) = cum_ok cum (unat (last cum))"
| "model_ok (FreqBin cum bits) = (bits \<le> 23 \<and> cum_ok cum (2 ^ bits))"
| "model_ok (BitLogp logp) = (0 < logp \<and> logp \<le> 23)"
| "model_ok (Icdf icdf ftb) = icdf_ok icdf ftb"
| "model_ok (Uint ft) = (1 < ft)"
| "model_ok (Bits bits) = (0 < bits \<and> bits \<le> 25)"

lemma sym_reads: "model_ok m \<Longrightarrow> reads (get_sym m) (sym_valid m)"
proof (cases m)
  case (Freq cum)
  assume "model_ok m"
  then show ?thesis using found_reads [of cum "last cum"] by (simp add: Freq fun_eq_iff reads_def)
next
  case (FreqBin cum bits)
  assume m: "model_ok m"
  then have b: "bits < 32" by (simp add: FreqBin)
  have "cum_ok cum (unat (push_bit bits 1 :: u32))" unfolding power_of_two_total(2) [OF b] using m by (simp add: FreqBin)
  then have "reads (get_sym m) (table_valid cum (unat (push_bit bits 1 :: u32)))"
    by (rule found_reads) (simp only: FreqBin get_sym.simps bin_is_freq [OF b])
  then show ?thesis unfolding power_of_two_total(2) [OF b] using m by (simp add: FreqBin reads_def)
next
  case (BitLogp logp)
  assume "model_ok m"
  then have "reads (ec_dec_bit_logp logp) (\<lambda>_. True)" by (intro logp_reads) (simp_all add: BitLogp)
  from reads_map [OF this, of "sym_valid m" of_bool] show ?thesis using \<open>model_ok m\<close> by (simp add: BitLogp reads_def)
next
  case (Icdf icdf ftb)
  assume "model_ok m"
  then show ?thesis using icdf_reads [of icdf ftb] by (simp add: Icdf reads_def)
next
  case (Uint ft)
  assume "model_ok m"
  then have "reads (ec_dec_uint ft) (\<lambda>v. v < ft)" by (intro uint_reads) (simp add: Uint)
  from reads_map [OF this, of "sym_valid m" unat] show ?thesis using \<open>model_ok m\<close> by (simp add: Uint reads_def word_less_nat_alt)
next
  case (Bits bits)
  assume "model_ok m"
  then have b: "0 < bits" "bits \<le> 25" by (simp_all add: Bits)
  show ?thesis unfolding reads_def
  proof (intro allI impI)
    fix d assume d: "dec_wf d"
    obtain v d' where vd: "ec_dec_bits bits d = (v, d')" by (rule prod.exhaust)
    note bw = bits_wf [OF b d vd]
    have "get_sym m d = Some (unat v, d')" "sym_valid m (unat v)" using b bw(1) by (simp_all add: Bits vd)
    then show "\<exists>v d'. get_sym m d = Some (v, d') \<and> sym_valid m v \<and> dec_wf d' \<and> ec_buf d' = ec_buf d" using bw(2,3) by blast
  qed
qed

lemma syms_read: "\<forall>m \<in> set ms. model_ok m \<Longrightarrow> reads (get_syms ms) (list_all2 sym_valid ms)"
proof (induction ms)
  case Nil
  show ?case using reads_return [of "\<lambda>vs. list_all2 sym_valid [] vs" "[]"] by (simp add: reads_def)
next
  case (Cons m ms)
  have "reads (\<lambda>d. map_option (apfst (Cons v)) (get_syms ms d)) (list_all2 sym_valid (m # ms))" if "sym_valid m v" for v
    using Cons that by (intro reads_map) auto
  from reads_bind [OF sym_reads this] Cons.prems
  have "reads (\<lambda>d. Option.bind (get_sym m d) (\<lambda>(v, d). map_option (apfst (Cons v)) (get_syms ms d))) (list_all2 sym_valid (m # ms))"
    by simp
  moreover have "get_syms (m # ms) = (\<lambda>d. Option.bind (get_sym m d) (\<lambda>(v, d). map_option (apfst (Cons v)) (get_syms ms d)))"
    by (auto simp: fun_eq_iff map_option_case split: prod.splits option.splits bind_splits)
  ultimately show ?case by simp
qed

text \<open>
  C15: On any received bytes, whether or not an encoder made them, decoding a list of symbols under well-formed models
  (frequency tables that start at 0 and cover their total, inverse tables that end in 0, at most 25 raw bits) returns:
  every loop ends, every value is one that its model has (an index of the table, a number below the range, below
  \<open>2 ^ bits\<close>), both read positions stay within the buffer, which is not changed, and the range stays between
  \<open>2 ^ 23\<close> and \<open>2 ^ 31\<close> with the value below it.
\<close>

theorem decoder_total:
  assumes "\<forall>m \<in> set ms. model_ok m"
  shows "\<exists>vs d. decode_all ms buf = Some (vs, d) \<and> list_all2 sym_valid ms vs \<and>
    ec_buf d = buf \<and> ec_offs d \<le> length buf \<and> ec_end_offs d \<le> length buf \<and>
    2 ^ 23 < unat (ec_rng d) \<and> unat (ec_rng d) \<le> 2 ^ 31 \<and> unat (ec_val d) < unat (ec_rng d)"
proof -
  obtain d0 where d0: "ec_dec_init buf = Some d0" "dec_wf d0" "ec_buf d0 = buf" using init_wf by blast
  then obtain vs d where "get_syms ms d0 = Some (vs, d)" "list_all2 sym_valid ms vs" "dec_wf d" "ec_buf d = buf"
    using syms_read [OF assms] unfolding reads_def by metis
  then show ?thesis using d0(1) by (auto simp: decode_all_def dec_wf_def)
qed

lemma decoder_total_witness:
  "\<exists>vs d. decode_all [BitLogp 3, FreqBin [0, 1, 8] 3, Bits 3, Icdf [200, 100, 0] 8, Uint 100000] [255, 255] = Some (vs, d) \<and>
     length vs = 5 \<and> ec_offs d \<le> 2"
proof -
  let ?ms = "[BitLogp 3, FreqBin [0, 1, 8] 3, Bits 3, Icdf [200, 100, 0] 8, Uint 100000]"
  have "\<forall>m \<in> set ?ms. model_ok m" by (simp add: cum_ok_def icdf_ok_def)
  from decoder_total [OF this, of "[255, 255]"] obtain vs d where d: "decode_all ?ms [255, 255] = Some (vs, d)"
    "list_all2 sym_valid ?ms vs" "ec_offs d \<le> length [255, 255 :: byte]" by blast
  have "length vs = 5" using list_all2_lengthD [OF d(2)] by simp
  moreover have "ec_offs d \<le> 2" using d(3) by simp
  ultimately show ?thesis using d(1) by blast
qed

end
