(* ===== verification/Pvqtable.thy ===== *)
theory Pvqtable
  imports Prelude
begin

section \<open>The codebook sizes of the pulse vectors (opus/celt/cwrs.c)\<close>

text \<open>
  CELT codes a vector of \<open>n\<close> integers whose absolute values sum to \<open>k\<close> (pulses) by its index in an enumeration. The
  enumeration is governed by the numbers U(n, k), which the code reads from a table of 1272 words. Here are the table,
  the recurrence that defines the numbers (from the comment of the code) and the proof that the table holds them.
\<close>

subsection \<open>The table\<close>

text \<open>Row \<open>n\<close> holds U(n, k) for \<open>k\<close> from \<open>n\<close> on (without custom modes).\<close>

definition pvq_rows :: "u32 list list" where
  "pvq_rows = [
    1 # replicate 176 0,
    replicate 176 1,
    [3, 5, 7, 9, 11, 13, 15, 17, 19, 21, 23, 25, 27, 29, 31, 33, 35, 37, 39, 41, 43, 45, 47, 49, 51, 53, 55, 57, 59,
    61, 63, 65, 67, 69, 71, 73, 75, 77, 79, 81, 83, 85, 87, 89, 91, 93, 95, 97, 99, 101, 103, 105, 107, 109, 111,
    113, 115, 117, 119, 121, 123, 125, 127, 129, 131, 133, 135, 137, 139, 141, 143, 145, 147, 149, 151, 153, 155,
    157, 159, 161, 163, 165, 167, 169, 171, 173, 175, 177, 179, 181, 183, 185, 187, 189, 191, 193, 195, 197, 199,
    201, 203, 205, 207, 209, 211, 213, 215, 217, 219, 221, 223, 225, 227, 229, 231, 233, 235, 237, 239, 241, 243,
    245, 247, 249, 251, 253, 255, 257, 259, 261, 263, 265, 267, 269, 271, 273, 275, 277, 279, 281, 283, 285, 287,
    289, 291, 293, 295, 297, 299, 301, 303, 305, 307, 309, 311, 313, 315, 317, 319, 321, 323, 325, 327, 329, 331,
    333, 335, 337, 339, 341, 343, 345, 347, 349, 351],
    [13, 25, 41, 61, 85, 113, 145, 181, 221, 265, 313, 365, 421, 481, 545, 613, 685, 761, 841, 925, 1013, 1105, 1201,
    1301, 1405, 1513, 1625, 1741, 1861, 1985, 2113, 2245, 2381, 2521, 2665, 2813, 2965, 3121, 3281, 3445, 3613, 3785,
    3961, 4141, 4325, 4513, 4705, 4901, 5101, 5305, 5513, 5725, 5941, 6161, 6385, 6613, 6845, 7081, 7321, 7565, 7813,
    8065, 8321, 8581, 8845, 9113, 9385, 9661, 9941, 10225, 10513, 10805, 11101, 11401, 11705, 12013, 12325, 12641,
    12961, 13285, 13613, 13945, 14281, 14621, 14965, 15313, 15665, 16021, 16381, 16745, 17113, 17485, 17861, 18241,
    18625, 19013, 19405, 19801, 20201, 20605, 21013, 21425, 21841, 22261, 22685, 23113, 23545, 23981, 24421, 24865,
    25313, 25765, 26221, 26681, 27145, 27613, 28085, 28561, 29041, 29525, 30013, 30505, 31001, 31501, 32005, 32513,
    33025, 33541, 34061, 34585, 35113, 35645, 36181, 36721, 37265, 37813, 38365, 38921, 39481, 40045, 40613, 41185,
    41761, 42341, 42925, 43513, 44105, 44701, 45301, 45905, 46513, 47125, 47741, 48361, 48985, 49613, 50245, 50881,
    51521, 52165, 52813, 53465, 54121, 54781, 55445, 56113, 56785, 57461, 58141, 58825, 59513, 60205, 60901, 61601],
    [63, 129, 231, 377, 575, 833, 1159, 1561, 2047, 2625, 3303, 4089, 4991, 6017, 7175, 8473, 9919, 11521, 13287,
    15225, 17343, 19649, 22151, 24857, 27775, 30913, 34279, 37881, 41727, 45825, 50183, 54809, 59711, 64897, 70375,
    76153, 82239, 88641, 95367, 102425, 109823, 117569, 125671, 134137, 142975, 152193, 161799, 171801, 182207,
    193025, 204263, 215929, 228031, 240577, 253575, 267033, 280959, 295361, 310247, 325625, 341503, 357889, 374791,
    392217, 410175, 428673, 447719, 467321, 487487, 508225, 529543, 551449, 573951, 597057, 620775, 645113, 670079,
    695681, 721927, 748825, 776383, 804609, 833511, 863097, 893375, 924353, 956039, 988441, 1021567, 1055425,
    1090023, 1125369, 1161471, 1198337, 1235975, 1274393, 1313599, 1353601, 1394407, 1436025, 1478463, 1521729,
    1565831, 1610777, 1656575, 1703233, 1750759, 1799161, 1848447, 1898625, 1949703, 2001689, 2054591, 2108417,
    2163175, 2218873, 2275519, 2333121, 2391687, 2451225, 2511743, 2573249, 2635751, 2699257, 2763775, 2829313,
    2895879, 2963481, 3032127, 3101825, 3172583, 3244409, 3317311, 3391297, 3466375, 3542553, 3619839, 3698241,
    3777767, 3858425, 3940223, 4023169, 4107271, 4192537, 4278975, 4366593, 4455399, 4545401, 4636607, 4729025,
    4822663, 4917529, 5013631, 5110977, 5209575, 5309433, 5410559, 5512961, 5616647, 5721625, 5827903, 5935489,
    6044391, 6154617, 6266175, 6379073, 6493319, 6608921, 6725887, 6844225, 6963943, 7085049, 7207551],
    [321, 681, 1289, 2241, 3649, 5641, 8361, 11969, 16641, 22569, 29961, 39041, 50049, 63241, 78889, 97281, 118721,
    143529, 172041, 204609, 241601, 283401, 330409, 383041, 441729, 506921, 579081, 658689, 746241, 842249, 947241,
    1061761, 1186369, 1321641, 1468169, 1626561, 1797441, 1981449, 2179241, 2391489, 2618881, 2862121, 3121929,
    3399041, 3694209, 4008201, 4341801, 4695809, 5071041, 5468329, 5888521, 6332481, 6801089, 7295241, 7815849,
    8363841, 8940161, 9545769, 10181641, 10848769, 11548161, 12280841, 13047849, 13850241, 14689089, 15565481,
    16480521, 17435329, 18431041, 19468809, 20549801, 21675201, 22846209, 24064041, 25329929, 26645121, 28010881,
    29428489, 30899241, 32424449, 34005441, 35643561, 37340169, 39096641, 40914369, 42794761, 44739241, 46749249,
    48826241, 50971689, 53187081, 55473921, 57833729, 60268041, 62778409, 65366401, 68033601, 70781609, 73612041,
    76526529, 79526721, 82614281, 85790889, 89058241, 92418049, 95872041, 99421961, 103069569, 106816641, 110664969,
    114616361, 118672641, 122835649, 127107241, 131489289, 135983681, 140592321, 145317129, 150160041, 155123009,
    160208001, 165417001, 170752009, 176215041, 181808129, 187533321, 193392681, 199388289, 205522241, 211796649,
    218213641, 224775361, 231483969, 238341641, 245350569, 252512961, 259831041, 267307049, 274943241, 282741889,
    290705281, 298835721, 307135529, 315607041, 324252609, 333074601, 342075401, 351257409, 360623041, 370174729,
    379914921, 389846081, 399970689, 410291241, 420810249, 431530241, 442453761, 453583369, 464921641, 476471169,
    488234561, 500214441, 512413449, 524834241, 537479489, 550351881, 563454121, 576788929, 590359041, 604167209,
    618216201, 632508801],
    [1683, 3653, 7183, 13073, 22363, 36365, 56695, 85305, 124515, 177045, 246047, 335137, 448427, 590557, 766727,
    982729, 1244979, 1560549, 1937199, 2383409, 2908411, 3522221, 4235671, 5060441, 6009091, 7095093, 8332863,
    9737793, 11326283, 13115773, 15124775, 17372905, 19880915, 22670725, 25765455, 29189457, 32968347, 37129037,
    41699767, 46710137, 52191139, 58175189, 64696159, 71789409, 79491819, 87841821, 96879431, 106646281, 117185651,
    128542501, 140763503, 153897073, 167993403, 183104493, 199284183, 216588185, 235074115, 254801525, 275831935,
    298228865, 322057867, 347386557, 374284647, 402823977, 433078547, 465124549, 499040399, 534906769, 572806619,
    612825229, 655050231, 699571641, 746481891, 795875861, 847850911, 902506913, 959946283, 1020274013, 1083597703,
    1150027593, 1219676595, 1292660325, 1369097135, 1449108145, 1532817275, 1620351277, 1711839767, 1807415257,
    1907213187, 2011371957, 2120032959],
    [8989, 19825, 40081, 75517, 134245, 227305, 369305, 579125, 880685, 1303777, 1884961, 2668525, 3707509, 5064793,
    6814249, 9041957, 11847485, 15345233, 19665841, 24957661, 31388293, 39146185, 48442297, 59511829, 72616013,
    88043969, 106114625, 127178701, 151620757, 179861305, 212358985, 249612805, 292164445, 340600625, 395555537,
    457713341, 527810725, 606639529, 695049433, 793950709, 904317037, 1027188385, 1163673953, 1314955181, 1482288821,
    1667010073, 1870535785, 2094367717],
    [48639, 108545, 224143, 433905, 795455, 1392065, 2340495, 3800305, 5984767, 9173505, 13726991, 20103025, 28875327,
    40754369, 56610575, 77500017, 104692735, 139703809, 184327311, 240673265, 311207743, 398796225, 506750351,
    638878193, 799538175, 993696769, 1226990095, 1505789553, 1837271615, 2229491905],
    [265729, 598417, 1256465, 2485825, 4673345, 8405905, 14546705, 24331777, 39490049, 62390545, 96220561, 145198913,
    214828609, 312193553, 446304145, 628496897, 872893441, 1196924561, 1621925137, 2173806145],
    [1462563, 3317445, 7059735, 14218905, 27298155, 50250765, 89129247, 152951073, 254831667, 413442773, 654862247,
    1014889769, 1541911931, 2300409629, 3375210671],
    [8097453, 18474633, 39753273, 81270333, 158819253, 298199265, 540279585, 948062325, 1616336765],
    [45046719, 103274625, 224298231, 464387817, 921406335, 1759885185, 3248227095],
    [251595969, 579168825, 1267854873, 2653649025],
    [1409933619]]"

definition CELT_PVQ_U_DATA :: "u32 list" where
  "CELT_PVQ_U_DATA = concat pvq_rows"

text \<open>The rows as offsets into the table, so that U(n, k) is at offset \<open>k\<close> of row \<open>n\<close>.\<close>

definition CELT_PVQ_U_ROW :: "nat list" where
  "CELT_PVQ_U_ROW = [0, 176, 351, 525, 698, 870, 1041, 1131, 1178, 1207, 1226, 1240, 1248, 1254, 1257]"

text \<open>\<open>CELT_PVQ_U_ROW[r][k]\<close>; \<open>None\<close>: a read outside of the table.\<close>

definition U_row :: "nat \<Rightarrow> nat \<Rightarrow> u32 option" where
  "U_row r k = (if r < length CELT_PVQ_U_ROW \<and> CELT_PVQ_U_ROW ! r + k < length CELT_PVQ_U_DATA
     then Some (CELT_PVQ_U_DATA ! (CELT_PVQ_U_ROW ! r + k)) else None)"

definition CELT_PVQ_U :: "nat \<Rightarrow> nat \<Rightarrow> u32 option" where
  "CELT_PVQ_U n k = U_row (min n k) (max n k)"

definition CELT_PVQ_V :: "nat \<Rightarrow> nat \<Rightarrow> u32 option" where
  "CELT_PVQ_V n k = do { a \<leftarrow> CELT_PVQ_U n k; b \<leftarrow> CELT_PVQ_U n (k + 1); Some (a + b) }"

subsection \<open>The numbers\<close>

fun U :: "nat \<Rightarrow> nat \<Rightarrow> nat" where
  "U 0 0 = 1"
| "U 0 (Suc k) = 0"
| "U (Suc n) 0 = 0"
| "U (Suc n) (Suc k) = U n (Suc k) + U (Suc n) k + U n k"

lemma U_0 [simp]: "U n 0 = of_bool (n = 0)" "U 0 k = of_bool (k = 0)"
  by (cases n, simp_all) (cases k, simp_all)

lemma U_sym: "U n k = U k n"
  by (induction n k rule: U.induct) auto

lemma U_1 [simp]: "U (Suc 0) k = of_bool (k > 0)"
  by (induction k) auto

lemma U_mono_right: "0 < n \<Longrightarrow> U n k \<le> U n (Suc k)"
  by (cases n) simp_all

lemma U_mono: "0 < n \<Longrightarrow> k \<le> k' \<Longrightarrow> U n k \<le> U n k'"
  by (rule lift_Suc_mono_le[of "U n"]) (use U_mono_right in auto)

subsection \<open>The table is right\<close>

text \<open>Each row follows from the one before by the recurrence.\<close>

fun rest_ok :: "int list \<Rightarrow> int \<Rightarrow> int list \<Rightarrow> bool" where
  "rest_ok ps c [] = True"
| "rest_ok (b # b' # ps) c (d # cs) = (d = b' + c + b \<and> rest_ok (b' # ps) d cs)"
| "rest_ok _ c (d # cs) = False"

fun row_ok :: "int list \<Rightarrow> int list \<Rightarrow> bool" where
  "row_ok (a # b # ps) (c # cs) = (c = 2 * b + a \<and> rest_ok (b # ps) c cs)"
| "row_ok _ cs = False"

fun rows_ok :: "int list list \<Rightarrow> bool" where
  "rows_ok (r # r' # rs) = (row_ok r r' \<and> rows_ok (r' # rs))"
| "rows_ok _ = True"

lemma pvq_rows_ok: "rows_ok (map (map uint) pvq_rows)"
  by code_simp

lemma pvq_lengths: "map length pvq_rows = [177, 176, 175, 174, 173, 172, 91, 48, 30, 20, 15, 9, 7, 4, 1]"
  by (simp add: pvq_rows_def)

lemma rest_ok_U:
  assumes "rest_ok ps c cs" and "\<forall>i < length ps. ps ! i = int (U n (m + i))" and "c = int (U (Suc n) m)" and "ps \<noteq> []"
  shows "\<forall>j < length cs. cs ! j = int (U (Suc n) (Suc m + j))"
  using assms
proof (induction ps c cs arbitrary: m rule: rest_ok.induct)
  case (2 b b' ps c d cs)
  have b: "b = int (U n m)" using 2(3)[rule_format, of 0] by simp
  have b': "b' = int (U n (Suc m))" using 2(3)[rule_format, of 1] by simp
  have d: "d = int (U (Suc n) (Suc m))" using 2(2,4) b b' by simp
  have "\<forall>i < length (b' # ps). (b' # ps) ! i = int (U n (Suc m + i))"
  proof (intro allI impI)
    fix i assume "i < length (b' # ps)"
    then show "(b' # ps) ! i = int (U n (Suc m + i))" using 2(3)[rule_format, of "Suc i"] by simp
  qed
  moreover have "d = b' + c + b" "rest_ok (b' # ps) d cs" using 2(2) unfolding rest_ok.simps by blast+
  ultimately have *: "\<forall>j < length cs. cs ! j = int (U (Suc n) (Suc (Suc m) + j))"
    using 2(1)[of "Suc m"] d by blast
  show ?case
  proof (intro allI impI)
    fix j assume "j < length (d # cs)"
    then show "(d # cs) ! j = int (U (Suc n) (Suc m + j))" using * d by (cases j) simp_all
  qed
qed simp_all

definition row_of :: "nat \<Rightarrow> int list \<Rightarrow> bool" where
  "row_of n r = (\<forall>i < length r. r ! i = int (U n (n + i)))"

lemma row_ok_U:
  assumes "row_ok r r'" and "row_of n r"
  shows "row_of (Suc n) r'"
proof -
  obtain a b ps c cs where e: "r = a # b # ps" "r' = c # cs"
    using assms(1) by (cases "(r, r')" rule: row_ok.cases) auto
  have a: "a = int (U n n)" and b: "b = int (U n (Suc n))"
    using assms(2)[unfolded row_of_def, rule_format, of 0] assms(2)[unfolded row_of_def, rule_format, of 1] by (simp_all add: e)
  have c: "c = int (U (Suc n) (Suc n))"
    using assms(1) a b U_sym[of "Suc n" n] by (simp add: e)
  have "\<forall>i < length (b # ps). (b # ps) ! i = int (U n (Suc n + i))"
  proof (intro allI impI)
    fix i assume "i < length (b # ps)"
    then show "(b # ps) ! i = int (U n (Suc n + i))"
      using assms(2)[unfolded row_of_def, rule_format, of "Suc i"] by (simp add: e)
  qed
  then have *: "\<forall>j < length cs. cs ! j = int (U (Suc n) (Suc (Suc n) + j))"
    using rest_ok_U[of "b # ps" c cs n "Suc n"] assms(1) c unfolding e row_ok.simps by blast
  show ?thesis
    unfolding row_of_def
  proof (intro allI impI)
    fix i assume "i < length r'"
    then show "r' ! i = int (U (Suc n) (Suc n + i))" using * c by (cases i) (simp_all add: e)
  qed
qed

lemma rows_ok_U: "rows_ok rs \<Longrightarrow> rs \<noteq> [] \<Longrightarrow> row_of n (hd rs) \<Longrightarrow> i < length rs \<Longrightarrow> row_of (n + i) (rs ! i)"
proof (induction rs arbitrary: n i rule: rows_ok.induct)
  case (1 r r' rs)
  have "row_of (Suc n) r'" using 1 by (auto intro: row_ok_U)
  then have "i' < length (r' # rs) \<Longrightarrow> row_of (Suc n + i') ((r' # rs) ! i')" for i' using 1(1)[of "Suc n" i'] 1(2) by simp
  then show ?case using 1(4,5) by (cases i) auto
qed simp_all

lemma pvq_rows_U:
  assumes "r < 15" and "j < length (pvq_rows ! r)"
  shows "unat (pvq_rows ! r ! j) = U r (r + j)"
proof -
  have l: "length pvq_rows = 15" by (simp add: pvq_rows_def)
  have "hd (map (map uint) pvq_rows) = 1 # replicate 176 0" by (simp add: pvq_rows_def)
  then have "row_of 0 (hd (map (map uint) pvq_rows))" by (auto simp: row_of_def nth_Cons split: nat.split)
  then have "row_of (0 + r) (map (map uint) pvq_rows ! r)"
    using rows_ok_U[OF pvq_rows_ok] assms(1) l by (metis length_map list.size(3) map_is_Nil_conv zero_neq_numeral)
  then have "uint (pvq_rows ! r ! j) = int (U r (r + j))"
    using assms l by (simp add: row_of_def)
  then show ?thesis by (simp add: unat_eq_nat_uint)
qed

subsection \<open>Reading the table\<close>

text \<open>The last column of each row, and the pairs that are in the table.\<close>

definition last_col :: "nat list" where
  "last_col = [176, 176, 176, 176, 176, 176, 96, 54, 37, 28, 24, 19, 18, 16, 14]"

definition in_table :: "nat \<Rightarrow> nat \<Rightarrow> bool" where
  "in_table n k = (min n k < 15 \<and> max n k \<le> last_col ! min n k)"

lemma last_col_antimono: "a < 15 \<Longrightarrow> b \<le> a \<Longrightarrow> last_col ! a \<le> last_col ! b"
proof -
  have "sorted (rev last_col)" by (simp add: last_col_def)
  moreover assume "a < 15" "b \<le> a"
  ultimately show ?thesis using sorted_rev_nth_mono[of last_col b a] by (simp add: last_col_def)
qed

lemma in_table_mono: "in_table n k \<Longrightarrow> n' \<le> n \<Longrightarrow> k' \<le> k \<Longrightarrow> in_table n' k'"
proof -
  assume t: "in_table n k" and le: "n' \<le> n" "k' \<le> k"
  have m: "min n' k' \<le> min n k" "max n' k' \<le> max n k" using le by auto
  then have "last_col ! min n k \<le> last_col ! min n' k'" using t by (intro last_col_antimono) (simp_all add: in_table_def)
  then show ?thesis using t m unfolding in_table_def by linarith
qed

lemma in_table_sym: "in_table n k = in_table k n"
  by (simp add: in_table_def min.commute max.commute)

lemma nth_concat_row:
  "a < length xss \<Longrightarrow> j < length (xss ! a) \<Longrightarrow>
     sum_list (map length (take a xss)) + j < length (concat xss) \<and> concat xss ! (sum_list (map length (take a xss)) + j) = xss ! a ! j"
proof (induction xss arbitrary: a)
  case (Cons xs xss)
  then show ?case by (cases a) (auto simp: nth_append)
qed simp

lemma U_row_table:
  assumes "in_table a b" and "a \<le> b"
  shows "\<exists>w. U_row a b = Some w \<and> unat w = U a b"
proof -
  have a: "a < 15" and b: "b \<le> last_col ! a" using assms by (simp_all add: in_table_def)
  have "list_all (\<lambda>a. CELT_PVQ_U_ROW ! a + a = sum_list (take a (map length pvq_rows)) \<and> last_col ! a < a + map length pvq_rows ! a) [0..<15]"
    unfolding pvq_lengths by code_simp
  then have row: "CELT_PVQ_U_ROW ! a + a = sum_list (map length (take a pvq_rows))" and col: "last_col ! a < a + map length pvq_rows ! a"
    using a by (simp_all add: list_all_iff take_map)
  have l: "length pvq_rows = 15" by (simp add: pvq_rows_def)
  have j: "b - a < length (pvq_rows ! a)" using col b assms(2) a l by (simp add: less_diff_conv2)
  have "CELT_PVQ_U_ROW ! a + b = sum_list (map length (take a pvq_rows)) + (b - a)" using row assms(2) by simp
  then have "CELT_PVQ_U_ROW ! a + b < length CELT_PVQ_U_DATA \<and> CELT_PVQ_U_DATA ! (CELT_PVQ_U_ROW ! a + b) = pvq_rows ! a ! (b - a)"
    using nth_concat_row[of a pvq_rows "b - a"] a j l by (simp add: CELT_PVQ_U_DATA_def)
  moreover have "unat (pvq_rows ! a ! (b - a)) = U a b" using pvq_rows_U[OF a j] assms(2) by simp
  moreover have "length CELT_PVQ_U_ROW = 15" by (simp add: CELT_PVQ_U_ROW_def)
  ultimately show ?thesis using a by (simp add: U_row_def)
qed

end
