(* ===== verification/Pvq.thy ===== *)
theory Pvq
  imports Pvqtable
begin

section \<open>Enumeration of pulse vectors (opus/celt/cwrs.c)\<close>

text \<open>
  \<open>icwrs\<close> computes the index of a vector of pulses, \<open>cwrsi\<close> the vector of an index; both read the table of \<open>Pvqtable\<close>
  (the build without \<open>SMALL_FOOTPRINT\<close>). \<open>None\<close> is a read outside the table or the vector. \<open>_n\<close> and \<open>_k\<close>, which the
  code never makes negative, are natural numbers; the index is a 32-bit word.
\<close>

subsection \<open>The code\<close>

definition y_at :: "int list \<Rightarrow> nat \<Rightarrow> int option" where
  "y_at y j = (if j < length y then Some (y ! j) else None)"

text \<open>The do-while loop of \<open>icwrs\<close>, from the value of \<open>j\<close> before its body.\<close>

fun icwrs_loop :: "nat \<Rightarrow> int list \<Rightarrow> nat \<Rightarrow> nat \<Rightarrow> u32 \<Rightarrow> u32 option" where
  "icwrs_loop n y 0 k i = None"
| "icwrs_loop n y (Suc j) k i = do {
     u \<leftarrow> CELT_PVQ_U (n - j) k;
     let i = i + u;
     yj \<leftarrow> y_at y j;
     let k = k + nat \<bar>yj\<bar>;
     i \<leftarrow> (if yj < 0 then do { u \<leftarrow> CELT_PVQ_U (n - j) (k + 1); Some (i + u) } else Some i);
     if j > 0 then icwrs_loop n y j k i else Some i
   }"

definition icwrs :: "nat \<Rightarrow> int list \<Rightarrow> u32 option" where
  "icwrs n y = do {
     yj \<leftarrow> y_at y (n - 1);
     icwrs_loop n y (n - 1) (nat \<bar>yj\<bar>) (if yj < 0 then 1 else 0)
   }"

text \<open>The searches for the number of pulses left: down the column \<open>n\<close> of the table from before \<open>k\<close>, down the row \<open>n\<close>
  from \<open>k\<close>. The result is the number with its entry.\<close>

fun search_col :: "nat \<Rightarrow> u32 \<Rightarrow> nat \<Rightarrow> (nat \<times> u32) option" where
  "search_col n i 0 = None"
| "search_col n i (Suc k) = do { p \<leftarrow> U_row k n; if p > i then search_col n i k else Some (k, p) }"

fun search_row :: "nat \<Rightarrow> u32 \<Rightarrow> nat \<Rightarrow> (nat \<times> u32) option" where
  "search_row n i k = do { p \<leftarrow> U_row n k;
     if p > i then (case k of 0 \<Rightarrow> None | Suc k' \<Rightarrow> search_row n i k') else Some (k, p) }"

text \<open>\<open>val=(k0-_k+s)^s\<close> in an \<open>opus_int16\<close>; \<open>s\<close> is 0 or -1.\<close>

definition signed_val :: "int \<Rightarrow> int \<Rightarrow> int" where
  "signed_val d s = sint (word_of_int ((d + s) XOR s) :: 16 word)"

definition many_pulses :: "nat \<Rightarrow> nat \<Rightarrow> u32 \<Rightarrow> (int \<times> nat \<times> u32) option" where
  "many_pulses n k i = do {
     p \<leftarrow> U_row n (k + 1);
     let s = (if i \<ge> p then -1 else 0 :: int);
     let i = i - (p AND word_of_int s);
     q \<leftarrow> U_row n n;
     (k', p) \<leftarrow> (if q > i then search_col n i n else search_row n i k);
     Some (signed_val (int k - int k') s, k', i - p)
   }"

definition many_dims :: "nat \<Rightarrow> nat \<Rightarrow> u32 \<Rightarrow> (int \<times> nat \<times> u32) option" where
  "many_dims n k i = do {
     p \<leftarrow> U_row k n;
     q \<leftarrow> U_row (k + 1) n;
     if p \<le> i \<and> i < q then Some (0, k, i - p)
     else do {
       let s = (if i \<ge> q then -1 else 0 :: int);
       let i = i - (q AND word_of_int s);
       (k', p) \<leftarrow> search_col n i k;
       Some (signed_val (int k - int k') s, k', i - p)
     }
   }"

definition last_two :: "nat \<Rightarrow> u32 \<Rightarrow> int \<Rightarrow> int list \<times> int" where
  "last_two k i yy = (let
     p = word_of_nat (2 * k + 1);
     s = (if i \<ge> p then -1 else 0 :: int);
     i = i - (p AND word_of_int s);
     k' = unat (drop_bit 1 (i + 1));
     i = (if k' \<noteq> 0 then i - word_of_nat (2 * k' - 1) else i);
     v = signed_val (int k - int k') s;
     s = - sint i;
     w = signed_val (int k') s
   in ([v, w], yy + v * v + w * w))"

text \<open>The while loop and what follows; \<open>yy\<close> is the sum of squares.\<close>

function cwrsi_loop :: "nat \<Rightarrow> nat \<Rightarrow> u32 \<Rightarrow> int \<Rightarrow> (int list \<times> int) option" where
  "cwrsi_loop n k i yy =
     (if n > 2 then do {
        (v, k', i) \<leftarrow> (if k \<ge> n then many_pulses n k i else many_dims n k i);
        (ys, yy) \<leftarrow> cwrsi_loop (n - 1) k' i (yy + v * v);
        Some (v # ys, yy)
      } else Some (last_two k i yy))"
  by auto
termination by (relation "measure fst") auto

declare cwrsi_loop.simps [simp del] search_row.simps [simp del]

definition cwrsi :: "nat \<Rightarrow> nat \<Rightarrow> u32 \<Rightarrow> (int list \<times> int) option" where
  "cwrsi n k i = cwrsi_loop n k i 0"

subsection \<open>The enumeration\<close>

text \<open>The number of pulses of a vector, and its index: the vectors with \<open>n\<close> entries and \<open>k\<close> pulses come in blocks, first
  those with a first entry that is not negative, by the pulses that are left after the first entry.\<close>

fun pulses :: "int list \<Rightarrow> nat" where
  "pulses [] = 0"
| "pulses (a # y) = nat \<bar>a\<bar> + pulses y"

definition V :: "nat \<Rightarrow> nat \<Rightarrow> nat" where
  "V n k = U n k + U n (Suc k)"

fun index_of :: "int list \<Rightarrow> nat" where
  "index_of [] = 0"
| "index_of (a # y) = index_of y + U (Suc (length y)) (pulses y)
     + (if a < 0 then U (Suc (length y)) (Suc (pulses (a # y))) else 0)"

lemma block: "U (Suc n) (Suc k) = U (Suc n) k + V n k"
  by (simp add: V_def)

lemma index_block:
  assumes "index_of y < V (length y) (pulses y)"
  shows "U (Suc (length y)) (pulses y) \<le> index_of y + U (Suc (length y)) (pulses y)"
    and "index_of y + U (Suc (length y)) (pulses y) < U (Suc (length y)) (Suc (pulses y))"
  using assms unfolding block by simp_all

lemma index_less: "index_of y < V (length y) (pulses y)"
proof (induction y)
  case Nil
  then show ?case by (simp add: V_def)
next
  case (Cons a y)
  let ?n = "Suc (length y)" and ?k = "pulses (a # y)"
  have b: "index_of y + U ?n (pulses y) < U ?n (Suc (pulses y))" by (rule index_block(2)[OF Cons.IH])
  show ?case
  proof (cases "a < 0")
    case True
    then have "U ?n (Suc (pulses y)) \<le> U ?n ?k" by (intro U_mono) simp_all
    then show ?thesis using True b by (simp add: V_def del: U.simps)
  next
    case False
    have "U ?n (Suc (pulses y)) \<le> U ?n (Suc ?k)" by (intro U_mono) simp_all
    then show ?thesis using False b by (simp add: V_def del: U.simps)
  qed
qed

lemma U_strict: "0 < n \<Longrightarrow> U n a < U n (Suc b) \<Longrightarrow> a \<le> b"
  using U_mono[of n "Suc b" a] by (cases "a \<le> b") auto

text \<open>Different vectors have different indices.\<close>

lemma index_inj: "length y = length y' \<Longrightarrow> pulses y = pulses y' \<Longrightarrow> index_of y = index_of y' \<Longrightarrow> y = y'"
proof (induction y arbitrary: y')
  case (Cons a y)
  then obtain b z where y': "y' = b # z" by (cases y') simp_all
  let ?n = "Suc (length y)" and ?k = "pulses (a # y)"
  have len: "length z = length y" and k: "pulses (b # z) = ?k" using Cons.prems by (simp_all add: y')
  define p where "p = index_of y + U ?n (pulses y)"
  define q where "q = index_of z + U ?n (pulses z)"
  have p: "U ?n (pulses y) \<le> p" "p < U ?n (Suc (pulses y))" and q: "U ?n (pulses z) \<le> q" "q < U ?n (Suc (pulses z))"
    using index_block[OF index_less, of y] index_block[OF index_less, of z] by (simp_all add: p_def q_def len del: U.simps)
  have pk: "U ?n (Suc (pulses y)) \<le> U ?n (Suc ?k)" and qk: "U ?n (Suc (pulses z)) \<le> U ?n (Suc ?k)"
    using k by (auto intro!: U_mono simp del: U.simps)
  have eq: "p + (if a < 0 then U ?n (Suc ?k) else 0) = q + (if b < 0 then U ?n (Suc ?k) else 0)"
    using Cons.prems(3) unfolding y' index_of.simps k len p_def q_def .
  then have s: "(a < 0) = (b < 0)" and pq: "p = q" using p q pk qk by (auto split: if_splits)
  have "pulses y \<le> pulses z" "pulses z \<le> pulses y"
    by (rule U_strict[of ?n], simp, use p q pq in linarith)+
  then have kk: "pulses y = pulses z" by simp
  then have "y = z" using Cons.IH[of z] len pq by (simp add: p_def q_def)
  moreover have "a = b" using k kk s by (auto split: if_splits)
  ultimately show ?case by (simp add: y')
qed simp

subsection \<open>\<open>icwrs\<close> computes the index\<close>

definition pvq_ok :: "nat \<Rightarrow> nat \<Rightarrow> bool" where
  "pvq_ok n k = (2 \<le> n \<and> in_table n (k + 1) \<and> V n k < 2 ^ 32)"

lemma CELT_U: "in_table n k \<Longrightarrow> CELT_PVQ_U n k = Some (word_of_nat (U n k))"
proof -
  assume t: "in_table n k"
  then have "in_table (min n k) (max n k)" by (simp add: in_table_def)
  moreover have "min n k \<le> max n k" by simp
  ultimately obtain w where w: "CELT_PVQ_U n k = Some w" "unat w = U (min n k) (max n k)"
    using U_row_table by (metis CELT_PVQ_U_def)
  have "U (min n k) (max n k) = U n k" by (auto simp: min_def max_def U_sym)
  moreover have "word_of_nat (unat w) = w" by simp
  ultimately show ?thesis using w by simp
qed

lemma CELT_V: "pvq_ok n k \<Longrightarrow> CELT_PVQ_V n k = Some (word_of_nat (V n k))"
proof -
  assume "pvq_ok n k"
  then have "in_table n k" "in_table n (k + 1)" using in_table_mono[of n "k + 1" n k] by (simp_all add: pvq_ok_def)
  then show ?thesis by (simp add: CELT_PVQ_V_def CELT_U V_def)
qed

lemma pulses_drop: "j < length y \<Longrightarrow> pulses (drop j y) = nat \<bar>y ! j\<bar> + pulses (drop (Suc j) y)"
  by (simp add: Cons_nth_drop_Suc[symmetric])

lemma pulses_drop_le: "pulses (drop j y) \<le> pulses y"
proof (induction j arbitrary: y)
  case (Suc j)
  show ?case
  proof (cases y)
    case (Cons a z)
    then show ?thesis using Suc[of z] by simp
  qed simp
qed simp

lemma icwrs_loop_index:
  assumes "in_table (length y) (pulses y + 1)" and "0 < j" and "j < length y"
  shows "icwrs_loop (length y) y j (pulses (drop j y)) (word_of_nat (index_of (drop j y))) = Some (word_of_nat (index_of y))"
  using assms(2,3)
proof (induction j)
  case (Suc j)
  let ?r = "drop (Suc j) y"
  have d: "drop j y = y ! j # ?r" using Suc.prems by (simp add: Cons_nth_drop_Suc)
  have n: "Suc (length ?r) = length y - j" using Suc.prems by simp
  have p: "pulses (drop j y) = pulses ?r + nat \<bar>y ! j\<bar>" by (simp add: d)
  have t: "in_table (length y - j) (pulses ?r)" "in_table (length y - j) (pulses (drop j y) + 1)"
    by (rule in_table_mono[OF assms(1)], simp, use pulses_drop_le[of "Suc j" y] pulses_drop_le[of j y] in simp)+
  have i: "index_of (drop j y) = index_of ?r + U (length y - j) (pulses ?r)
      + (if y ! j < 0 then U (length y - j) (Suc (pulses (drop j y))) else 0)"
    unfolding d index_of.simps n by simp
  have step: "icwrs_loop (length y) y (Suc j) (pulses ?r) (word_of_nat (index_of ?r)) =
      (if j > 0 then icwrs_loop (length y) y j (pulses (drop j y)) (word_of_nat (index_of (drop j y)))
       else Some (word_of_nat (index_of (drop j y))))"
  proof -
    have u: "CELT_PVQ_U (length y - j) (pulses ?r) = Some (word_of_nat (U (length y - j) (pulses ?r)))"
      "CELT_PVQ_U (length y - j) (pulses ?r + nat \<bar>y ! j\<bar> + 1) = Some (word_of_nat (U (length y - j) (Suc (pulses (drop j y)))))"
      using CELT_U[OF t(1)] CELT_U[OF t(2)] by (simp_all add: p)
    have yj: "y_at y j = Some (y ! j)" using Suc.prems by (simp add: y_at_def)
    show ?thesis
      unfolding icwrs_loop.simps u yj Option.bind.bind_lunit Let_def i
      by (cases "y ! j < 0") (simp_all only: if_True if_False u Option.bind.bind_lunit of_nat_add p add_0_right)
  qed
  show ?case
    unfolding step using Suc by (cases "j = 0") simp_all
qed simp

lemma icwrs_index:
  assumes "pvq_ok (length y) (pulses y)"
  shows "icwrs (length y) y = Some (word_of_nat (index_of y))"
proof -
  let ?j = "length y - 1"
  have n: "2 \<le> length y" using assms by (simp add: pvq_ok_def)
  have d: "drop ?j y = [y ! ?j]" using n Cons_nth_drop_Suc[of ?j y] by simp
  have "pulses (drop ?j y) = nat \<bar>y ! ?j\<bar>" "index_of (drop ?j y) = (if y ! ?j < 0 then 1 else 0)"
    unfolding d by simp_all
  then show ?thesis
    using icwrs_loop_index[of y ?j] assms n by (auto simp: icwrs_def y_at_def pvq_ok_def split: if_splits)
qed

lemma unat_nat_u32: "m < 2 ^ 32 \<Longrightarrow> unat (word_of_nat m :: u32) = m"
  by (simp add: unsigned_of_nat take_bit_nat_eq_self)

subsection \<open>\<open>cwrsi\<close> finds the vector of an index\<close>

lemma search_col_finds:
  "0 < n \<Longrightarrow> j \<le> n \<Longrightarrow> in_table j n \<Longrightarrow> unat i < U n j \<Longrightarrow>
     \<exists>K p. search_col n i j = Some (K, p) \<and> unat p = U n K \<and> K < j \<and> U n K \<le> unat i \<and> unat i < U n (Suc K)"
proof (induction j)
  case (Suc j)
  have t: "in_table j n" using Suc.prems(3) by (rule in_table_mono) simp_all
  obtain p where p: "U_row j n = Some p" "unat p = U n j" using U_row_table[OF t] Suc.prems(2) U_sym[of n j] by auto
  show ?case
  proof (cases "p > i")
    case True
    then have "unat i < U n j" using p(2) by (simp add: word_less_nat_alt)
    from Suc.IH[OF _ _ t this] Suc.prems show ?thesis using True p by (auto intro: less_SucI)
  next
    case False
    then show ?thesis using p Suc.prems by (auto simp: word_less_nat_alt simp del: U.simps)
  qed
qed simp

lemma search_row_finds:
  "0 < n \<Longrightarrow> n \<le> k \<Longrightarrow> in_table n k \<Longrightarrow> U n n \<le> unat i \<Longrightarrow> unat i < U n (Suc k) \<Longrightarrow>
     \<exists>K p. search_row n i k = Some (K, p) \<and> unat p = U n K \<and> K \<le> k \<and> U n K \<le> unat i \<and> unat i < U n (Suc K)"
proof (induction k)
  case (Suc k)
  obtain p where p: "U_row n (Suc k) = Some p" "unat p = U n (Suc k)" using U_row_table[OF Suc.prems(3,2)] by auto
  show ?case
  proof (cases "p > i")
    case True
    then have lt: "unat i < U n (Suc k)" using p(2) by (simp add: word_less_nat_alt)
    then have "n \<noteq> Suc k" using Suc.prems(4) by auto
    then have "n \<le> k" "in_table n k" using Suc.prems(2) in_table_mono[OF Suc.prems(3)] by auto
    from Suc.IH[OF Suc.prems(1) this Suc.prems(4) lt] show ?thesis
      using True p by (subst search_row.simps) (auto intro: le_SucI)
  next
    case False
    then show ?thesis using p Suc.prems
      by (subst search_row.simps) (auto simp: word_less_nat_alt simp del: U.simps)
  qed
qed simp

lemma signed_val_eq:
  assumes "d \<le> 32767"
  shows "signed_val (int d) 0 = int d" and "signed_val (int d) (- 1) = - int d"
proof -
  have s: "sint (word_of_int x :: 16 word) = x" if "- 32768 \<le> x" "x < 32768" for x
    using that by (simp add: sint_sbintrunc' signed_take_bit_int_eq_self)
  show "signed_val (int d) 0 = int d" using s[of "int d"] assms by (simp add: signed_val_def)
  show "signed_val (int d) (- 1) = - int d" using s[of "- int d"] assms by (simp add: signed_val_def not_int_def)
qed

lemma remove_sign:
  assumes "s = (if i \<ge> p then -1 else 0 :: int)"
  shows "unat (i - ((p :: u32) AND word_of_int s)) = unat i - (if i \<ge> p then unat p else 0)"
  using assms by (auto simp: word_le_nat_alt unat_sub)

text \<open>What one dimension must give: the entry \<open>v\<close>, the pulses left and the index within its block.\<close>

definition dim_ok :: "nat \<Rightarrow> nat \<Rightarrow> u32 \<Rightarrow> int \<times> nat \<times> u32 \<Rightarrow> bool" where
  "dim_ok n k i r = (case r of (v, K, i') \<Rightarrow> nat \<bar>v\<bar> + K = k \<and> unat i' < V (n - 1) K
     \<and> unat i = unat i' + U n K + (if v < 0 then U n (Suc k) else 0))"

lemma dim_result:
  assumes n: "0 < n" and k: "k \<le> 32767" and p: "unat p = U n K" "U n K \<le> unat i1" "unat i1 < U n (Suc K)" and K: "K \<le> k"
    and i1: "unat i1 = unat i - (if i \<ge> q then unat q else 0)" and q: "unat q = U n (Suc k)"
    and s: "s = (if i \<ge> q then -1 else 0 :: int)" and i: "unat i < V n k"
  shows "dim_ok n k i (signed_val (int k - int K) s, K, i1 - p)"
proof -
  obtain m where m: "n = Suc m" using n by (cases n) simp_all
  have d: "int k - int K = int (k - K)" "k - K \<le> 32767" using K k by simp_all
  have i': "unat (i1 - p) = unat i1 - U n K" using p by (simp add: unat_sub word_le_nat_alt)
  have lt: "unat (i1 - p) < V m K" using p i' unfolding m block by simp
  show ?thesis
  proof (cases "i \<ge> q")
    case True
    then have "unat i1 < U n k" using i1 i q by (simp add: V_def word_le_nat_alt)
    then have "K < k" using p(2) U_mono[OF n, of k K] by (cases "k \<le> K") simp_all
    then show ?thesis
      using True s d lt i' i1 q p(2) signed_val_eq(2)[OF d(2)]
      by (simp add: dim_ok_def m word_le_nat_alt del: U.simps)
  next
    case False
    then show ?thesis
      using s d lt i' i1 p(2) signed_val_eq(1)[OF d(2)] K by (simp add: dim_ok_def m del: U.simps)
  qed
qed

lemma in_table_col: "in_table n k \<Longrightarrow> k \<le> 176"
proof -
  assume t: "in_table n k"
  have "last_col ! min n k \<le> last_col ! 0" by (rule last_col_antimono) (use t in \<open>simp_all add: in_table_def\<close>)
  then show ?thesis using t by (simp add: in_table_def last_col_def[THEN arg_cong[where f = "\<lambda>xs. xs ! 0"]])
qed

lemma many_pulses_ok:
  assumes n: "0 < n" and t: "in_table n (k + 1)" and k: "n \<le> k" and i: "unat i < V n k"
  shows "\<exists>r. many_pulses n k i = Some r \<and> dim_ok n k i r"
proof -
  obtain q where q: "U_row n (k + 1) = Some q" "unat q = U n (Suc k)" using U_row_table[OF t] k by auto
  have tn: "in_table n n" "in_table n k" using in_table_mono[OF t] k by simp_all
  obtain w where w: "U_row n n = Some w" "unat w = U n n" using U_row_table[OF tn(1)] by auto
  define s where "s = (if i \<ge> q then -1 else 0 :: int)"
  define i1 where "i1 = i - (q AND word_of_int s)"
  have i1: "unat i1 = unat i - (if i \<ge> q then unat q else 0)" using remove_sign[OF s_def] by (simp add: i1_def)
  then have lt: "unat i1 < U n (Suc k)"
    using i q(2) U_mono_right[OF n, of k] by (auto simp: V_def word_le_nat_alt split: if_splits)
  obtain K p where Kp: "(if w > i1 then search_col n i1 n else search_row n i1 k) = Some (K, p)"
    "unat p = U n K" "K \<le> k" "U n K \<le> unat i1" "unat i1 < U n (Suc K)"
  proof (cases "w > i1")
    case True
    then have "unat i1 < U n n" using w(2) by (simp add: word_less_nat_alt)
    from search_col_finds[OF n order_refl tn(1) this] show ?thesis using that True k by auto
  next
    case False
    then have "U n n \<le> unat i1" using w(2) by (simp add: word_less_nat_alt)
    from search_row_finds[OF n k tn(2) this lt] show ?thesis using that False by auto
  qed
  have "many_pulses n k i = Some (signed_val (int k - int K) s, K, i1 - p)"
    unfolding many_pulses_def q(1) w(1) Option.bind.bind_lunit Let_def s_def[symmetric] i1_def[symmetric] Kp(1) by simp
  moreover have "k \<le> 32767" using in_table_col[OF t] by simp
  ultimately show ?thesis using dim_result[OF n _ Kp(2,4,5,3) i1 q(2) s_def i] by blast
qed

lemma many_dims_ok:
  assumes n: "0 < n" and t: "in_table n (k + 1)" and k: "k < n" and i: "unat i < V n k"
  shows "\<exists>r. many_dims n k i = Some r \<and> dim_ok n k i r"
proof -
  have t': "in_table (k + 1) n" "in_table k n" using t in_table_mono[OF t, of n k] by (simp_all add: in_table_sym)
  obtain q where q: "U_row (k + 1) n = Some q" "unat q = U n (Suc k)" using U_row_table[OF t'(1)] k U_sym[of n "Suc k"] by auto
  obtain p where p: "U_row k n = Some p" "unat p = U n k" using U_row_table[OF t'(2)] k U_sym[of n k] by auto
  have k176: "k \<le> 32767" using in_table_col[OF t] by simp
  show ?thesis
  proof (cases "p \<le> i \<and> i < q")
    case True
    then have "many_dims n k i = Some (0, k, i - p)" using p(1) q(1) by (simp add: many_dims_def)
    moreover have "unat (i - p) = unat i - U n k" using True p(2) by (simp add: unat_sub)
    moreover have "unat i - U n k < V (n - 1) k"
      using True p(2) q(2) n block[of "n - 1" k] unfolding word_less_nat_alt word_le_nat_alt by (simp del: U.simps) linarith
    ultimately show ?thesis using True p(2) by (simp add: dim_ok_def word_le_nat_alt)
  next
    case False
    define s where "s = (if i \<ge> q then -1 else 0 :: int)"
    define i1 where "i1 = i - (q AND word_of_int s)"
    have i1: "unat i1 = unat i - (if i \<ge> q then unat q else 0)" using remove_sign[OF s_def] by (simp add: i1_def)
    have lt: "unat i1 < U n k"
      using False i1 i p(2) q(2) by (auto simp: V_def word_le_nat_alt word_less_nat_alt split: if_splits)
    obtain K p' where Kp: "search_col n i1 k = Some (K, p')" "unat p' = U n K" "K < k" "U n K \<le> unat i1" "unat i1 < U n (Suc K)"
      using search_col_finds[OF n _ t'(2) lt] k by auto
    have "many_dims n k i = Some (signed_val (int k - int K) s, K, i1 - p')"
      using p(1) q(1) Kp(1) False unfolding many_dims_def by (simp only: Option.bind.bind_lunit if_False Let_def s_def i1_def) simp
    then show ?thesis using dim_result[OF n k176 Kp(2,4,5) less_imp_le[OF Kp(3)] i1 q(2) s_def i] by blast
  qed
qed

text \<open>The closed form of the code for two dimensions.\<close>

lemma U_2: "U 2 k = 2 * k - 1"
proof -
  have "U (Suc (Suc 0)) k = 2 * k - 1" by (induction k) (auto simp: of_bool_def)
  then show ?thesis by (simp add: numeral_2_eq_2)
qed

definition sum_squares :: "int list \<Rightarrow> int" where
  "sum_squares y = (\<Sum>v\<leftarrow>y. v * v)"

lemma last_two_ok:
  assumes k: "k \<le> 176" and i: "unat i < V 2 k"
  shows "\<exists>y. last_two k i yy = (y, yy + sum_squares y) \<and> length y = 2 \<and> pulses y = k \<and> index_of y = unat i"
proof -
  define p where "p = (word_of_nat (2 * k + 1) :: u32)"
  define s where "s = (if i \<ge> p then -1 else 0 :: int)"
  define i1 where "i1 = i - (p AND word_of_int s)"
  define K where "K = unat (drop_bit 1 (i1 + 1))"
  define i2 where "i2 = (if K \<noteq> 0 then i1 - word_of_nat (2 * K - 1) else i1)"
  have p: "unat p = 2 * k + 1" unfolding p_def by (rule unat_nat_u32) (use k in simp)
  have V2: "V 2 k = (2 * k - 1) + (2 * k + 1)" by (simp add: V_def U_2)
  have i1: "unat i1 = unat i - (if i \<ge> p then unat p else 0)" using remove_sign[OF s_def] by (simp add: i1_def)
  have lt: "unat i1 < (if i \<ge> p then 2 * k - 1 else 2 * k + 1)" using i i1 p V2 by (auto simp: word_le_nat_alt)
  then have "unat i1 < 1000" using k by (auto split: if_splits)
  then have "unat (i1 + 1) = unat i1 + 1" by (simp add: unat_word_ariths)
  then have K: "K = (unat i1 + 1) div 2" unfolding K_def unat_drop_bit_eq unfolding drop_bit_eq_div by simp
  have Kk: "K \<le> k" "i \<ge> p \<Longrightarrow> K < k" using lt K by (auto split: if_splits)
  have i2: "unat i2 = unat i1 - (2 * K - 1)"
  proof (cases "K = 0")
    case False
    have "unat (word_of_nat (2 * K - 1) :: u32) = 2 * K - 1" by (rule unat_nat_u32) (use Kk k in simp)
    moreover have "2 * K - 1 \<le> unat i1" using K by linarith
    ultimately show ?thesis using False by (simp add: i2_def unat_sub word_le_nat_alt)
  qed (simp add: i2_def)
  then have b: "unat i2 \<le> 1" "K = 0 \<Longrightarrow> unat i2 = 0" using K by linarith+
  then have "i2 = 0 \<or> i2 = 1" by (auto simp: word_unat_eq_iff le_Suc_eq)
  then have si: "sint i2 = int (unat i2)" by auto
  define v where "v = signed_val (int k - int K) s"
  define w where "w = signed_val (int K) (- sint i2)"
  have d: "int k - int K = int (k - K)" "k - K \<le> 32767" "K \<le> 32767" using Kk k by simp_all
  have v: "v = (if i \<ge> p then - int (k - K) else int (k - K))"
    using signed_val_eq[OF d(2)] by (simp add: v_def d(1) s_def)
  have w: "w = (if unat i2 = 1 then - int K else int K)"
    using signed_val_eq[OF d(3)] b(1) by (cases "unat i2 = 1") (auto simp: w_def si le_Suc_eq)
  have e: "last_two k i yy = ([v, w], yy + sum_squares [v, w])"
    unfolding last_two_def Let_def p_def[symmetric] s_def[symmetric] i1_def[symmetric] K_def[symmetric] i2_def[symmetric]
    by (simp add: v_def w_def sum_squares_def)
  have pw: "nat \<bar>w\<bar> = K" "nat \<bar>v\<bar> = k - K" by (simp_all add: v w)
  have pul: "pulses [w] = K" "pulses [v, w] = k" using pw Kk by simp_all
  have iw: "index_of [w] = unat i2" using b w by (cases "K = 0") (auto simp: le_Suc_eq)
  have "index_of [v, w] = unat i2 + U 2 K + (if v < 0 then U 2 (Suc k) else 0)"
  proof -
    have two: "Suc (length [w]) = 2" by simp
    show ?thesis unfolding index_of.simps(2)[of v "[w]"] pul iw two ..
  qed
  moreover have "unat i = unat i2 + U 2 K + (if v < 0 then U 2 (Suc k) else 0)"
  proof -
    have le: "2 * K - 1 \<le> unat i1" using K by linarith
    show ?thesis
    proof (cases "i \<ge> p")
      case True
      then have "v < 0" "2 * k + 1 \<le> unat i" "unat i1 = unat i - (2 * k + 1)" using v Kk(2) p i1 by (simp_all add: word_le_nat_alt)
      then show ?thesis unfolding U_2 i2 using le by simp
    next
      case False
      then have "\<not> v < 0" "unat i1 = unat i" using v i1 by simp_all
      then show ?thesis unfolding U_2 i2 using le by simp
    qed
  qed
  ultimately have "index_of [v, w] = unat i" by simp
  then show ?thesis using e pul(2) by (intro exI[of _ "[v, w]"]) simp
qed

lemma cwrsi_loop_ok:
  "2 \<le> n \<Longrightarrow> in_table n (k + 1) \<Longrightarrow> unat i < V n k \<Longrightarrow>
     \<exists>y. cwrsi_loop n k i yy = Some (y, yy + sum_squares y) \<and> length y = n \<and> pulses y = k \<and> index_of y = unat i"
proof (induction n k i yy rule: cwrsi_loop.induct)
  case (1 n k i yy)
  show ?case
  proof (cases "n > 2")
    case False
    then have n: "n = 2" using 1 by simp
    have "k \<le> 176" using in_table_col[OF 1(3)] by simp
    from last_two_ok[OF this, of i yy] 1(4) show ?thesis by (subst cwrsi_loop.simps) (auto simp: n)
  next
    case True
    let ?dim = "if k \<ge> n then many_pulses n k i else many_dims n k i"
    have "\<exists>r. ?dim = Some r \<and> dim_ok n k i r"
      using many_pulses_ok[of n k i] many_dims_ok[of n k i] 1(3,4) True by simp
    then obtain v K i' where r: "?dim = Some (v, K, i')" "dim_ok n k i (v, K, i')" by (auto simp del: split_paired_Ex)
    note d = r(2)[unfolded dim_ok_def prod.case]
    have n1: "2 \<le> n - 1" using True by simp
    have t: "in_table (n - 1) (K + 1)" using 1(3) by (rule in_table_mono) (use d in simp_all)
    obtain y where y: "cwrsi_loop (n - 1) K i' (yy + v * v) = Some (y, yy + v * v + sum_squares y)"
      "length y = n - 1" "pulses y = K" "index_of y = unat i'"
      using 1(1)[OF True r(1) refl refl n1 t] d by auto
    have "cwrsi_loop n k i yy = Some (v # y, yy + sum_squares (v # y))"
      using True r(1) y(1) by (subst cwrsi_loop.simps) (simp add: sum_squares_def)
    moreover have "Suc (length y) = n" using y(2) True by simp
    moreover have "pulses (v # y) = k" using y(3) d by simp
    moreover have "index_of (v # y) = unat i"
      unfolding index_of.simps calculation(2,3) using d y by simp
    ultimately show ?thesis by (intro exI[of _ "v # y"]) simp
  qed
qed

subsection \<open>Properties\<close>

definition pulse_vectors :: "nat \<Rightarrow> nat \<Rightarrow> int list set" where
  "pulse_vectors n k = {y. length y = n \<and> pulses y = k}"

lemma cwrsi_index:
  assumes "pvq_ok n k" and "unat i < V n k"
  shows "\<exists>y. cwrsi n k i = Some (y, sum_squares y) \<and> y \<in> pulse_vectors n k \<and> index_of y = unat i"
  using cwrsi_loop_ok[of n k i 0] assms by (auto simp: pvq_ok_def cwrsi_def pulse_vectors_def)

lemma cwrsi_icwrs:
  assumes "pvq_ok n k" and "y \<in> pulse_vectors n k"
  shows "icwrs n y = Some (word_of_nat (index_of y))" and "unat (word_of_nat (index_of y) :: u32) = index_of y"
    and "index_of y < V n k" and "cwrsi n k (word_of_nat (index_of y)) = Some (y, sum_squares y)"
proof -
  have y: "length y = n" "pulses y = k" using assms(2) by (simp_all add: pulse_vectors_def)
  show "icwrs n y = Some (word_of_nat (index_of y))" using icwrs_index[of y] assms(1) y by simp
  show lt: "index_of y < V n k" using index_less[of y] y by simp
  then show u: "unat (word_of_nat (index_of y) :: u32) = index_of y"
    by (intro unat_nat_u32) (use assms(1) in \<open>simp add: pvq_ok_def\<close>)
  obtain z where z: "cwrsi n k (word_of_nat (index_of y)) = Some (z, sum_squares z)" "z \<in> pulse_vectors n k" "index_of z = index_of y"
    using cwrsi_index[OF assms(1), of "word_of_nat (index_of y)"] lt u by auto
  then have "z = y" using index_inj[of z y] y by (simp add: pulse_vectors_def)
  then show "cwrsi n k (word_of_nat (index_of y)) = Some (y, sum_squares y)" using z(1) by simp
qed

text \<open>
  C19: The pulse vectors of a band are numbered without gaps: for every number of dimensions and pulses the table of the
  code covers and whose count fits in 32 bits, \<open>CELT_PVQ_V\<close> is the number of vectors of integers with that many
  entries and pulses, \<open>icwrs\<close> maps them one to one onto the indices below it, and \<open>cwrsi\<close> is the inverse and returns
  the sum of squares. No access leaves the table or the vector and all searches end.
\<close>

theorem pulse_index_bijection:
  assumes "pvq_ok n k"
  shows "bij_betw (\<lambda>y. case icwrs n y of Some i \<Rightarrow> unat i | None \<Rightarrow> V n k) (pulse_vectors n k) {0..<V n k}
    \<and> card (pulse_vectors n k) = V n k \<and> CELT_PVQ_V n k = Some (word_of_nat (V n k)) \<and> V n k < 2 ^ 32
    \<and> (\<forall>y \<in> pulse_vectors n k. Option.bind (icwrs n y) (cwrsi n k) = Some (y, sum_squares y))"
proof -
  let ?f = "\<lambda>y. case icwrs n y of Some i \<Rightarrow> unat i | None \<Rightarrow> V n k"
  have f: "?f y = index_of y" if "y \<in> pulse_vectors n k" for y
    using cwrsi_icwrs[OF assms that] by simp
  have "bij_betw ?f (pulse_vectors n k) {0..<V n k}"
  proof (rule bij_betwI')
    fix y z assume "y \<in> pulse_vectors n k" "z \<in> pulse_vectors n k"
    then show "(?f y = ?f z) = (y = z)" using f index_inj[of y z] by (auto simp: pulse_vectors_def)
  next
    fix y assume "y \<in> pulse_vectors n k"
    then show "?f y \<in> {0..<V n k}" using f cwrsi_icwrs(3)[OF assms] by simp
  next
    fix i assume i: "i \<in> {0..<V n k}"
    then have "unat (word_of_nat i :: u32) = i" by (intro unat_nat_u32) (use assms in \<open>simp add: pvq_ok_def\<close>)
    then obtain y where "y \<in> pulse_vectors n k" "index_of y = i" using cwrsi_index[OF assms, of "word_of_nat i"] i by auto
    then show "\<exists>y \<in> pulse_vectors n k. i = ?f y" using f by auto
  qed
  moreover from this have "card (pulse_vectors n k) = V n k" by (auto dest: bij_betw_same_card)
  ultimately show ?thesis using CELT_V[OF assms] assms cwrsi_icwrs(1,4)[OF assms] by (auto simp: pvq_ok_def)
qed

lemma V_demo: "V 4 3 = 88"
proof -
  have "U 4 3 = 25" "U 4 4 = 63" by code_simp+
  then show ?thesis by (simp add: V_def)
qed

lemma pvq_ok_demo: "pvq_ok 4 3"
proof -
  have "in_table 4 4" by code_simp
  then show ?thesis by (simp add: pvq_ok_def V_demo)
qed

lemma pulse_index_bijection_witness:
  "card (pulse_vectors 4 3) = 88 \<and> Option.bind (icwrs 4 [0, - 2, 0, 1]) (cwrsi 4 3) = Some ([0, - 2, 0, 1], 5)"
proof -
  have "[0, - 2, 0, 1] \<in> pulse_vectors 4 3" by (simp add: pulse_vectors_def)
  then show ?thesis using pulse_index_bijection[OF pvq_ok_demo] by (auto simp: sum_squares_def V_demo)
qed

end
