(* ===== verification/Pvqsmall.thy ===== *)
theory Pvqsmall
  imports Pvq
begin

section \<open>The enumeration without the table (opus/celt/cwrs.c, SMALL_FOOTPRINT)\<close>

text \<open>
  The build for small devices computes the rows of U(n, k) in an array of \<open>k + 2\<close> words, forwards when it encodes and
  backwards when it decodes. All operations on the array are sums and differences of words, so they keep it equal to a
  row of U modulo \<open>2 ^ 32\<close>. \<open>None\<close> is an access outside the array. The last part shows that both builds compute the
  same.
\<close>

subsection \<open>The code\<close>

definition u_at :: "u32 list \<Rightarrow> nat \<Rightarrow> u32 option" where
  "u_at u j = (if j < length u then Some (u ! j) else None)"

definition u_set :: "u32 list \<Rightarrow> nat \<Rightarrow> u32 \<Rightarrow> u32 list option" where
  "u_set u j w = (if j < length u then Some (u[j := w]) else None)"

text \<open>The do-while loops on the array behind \<open>_ui\<close>, which points to entry \<open>off\<close>; \<open>j\<close> as before the body.\<close>

function unext_loop :: "nat \<Rightarrow> nat \<Rightarrow> nat \<Rightarrow> u32 list \<Rightarrow> u32 \<Rightarrow> u32 list option" where
  "unext_loop off len j u ui0 = do {
     a \<leftarrow> u_at u (off + j); b \<leftarrow> u_at u (off + j - 1);
     let ui1 = a + b + ui0;
     u \<leftarrow> u_set u (off + j - 1) ui0;
     if j + 1 < len then unext_loop off len (j + 1) u ui1 else u_set u (off + j) ui1
   }"
  by auto
termination by (relation "measure (\<lambda>(off, len, j, u, ui0). len - j)") auto

definition unext :: "nat \<Rightarrow> nat \<Rightarrow> u32 list \<Rightarrow> u32 \<Rightarrow> u32 list option" where
  "unext off len u ui0 = unext_loop off len 1 u ui0"

function uprev_loop :: "nat \<Rightarrow> nat \<Rightarrow> u32 list \<Rightarrow> u32 \<Rightarrow> u32 list option" where
  "uprev_loop n j u ui0 = do {
     a \<leftarrow> u_at u j; b \<leftarrow> u_at u (j - 1);
     let ui1 = a - b - ui0;
     u \<leftarrow> u_set u (j - 1) ui0;
     if j + 1 < n then uprev_loop n (j + 1) u ui1 else u_set u j ui1
   }"
  by auto
termination by (relation "measure (\<lambda>(n, j, u, ui0). n - j)") auto

definition uprev :: "nat \<Rightarrow> u32 list \<Rightarrow> u32 \<Rightarrow> u32 list option" where
  "uprev n u ui0 = uprev_loop n 1 u ui0"

declare unext_loop.simps [simp del] uprev_loop.simps [simp del]

text \<open>\<open>_u[k]=(k<<1)-1\<close> for the entries from \<open>k\<close> on; \<open>len\<close> are left.\<close>

fun odd_entries :: "nat \<Rightarrow> nat \<Rightarrow> u32 list \<Rightarrow> u32 list option" where
  "odd_entries k 0 u = Some u"
| "odd_entries k (Suc len) u = do { u \<leftarrow> u_set u k (push_bit 1 (word_of_nat k) - 1); odd_entries (k + 1) len u }"

fun unext_rows :: "nat \<Rightarrow> nat \<Rightarrow> u32 list \<Rightarrow> u32 list option" where
  "unext_rows 0 k u = Some u"
| "unext_rows (Suc r) k u = do { u \<leftarrow> unext 1 (k + 1) u 1; unext_rows r k u }"

definition ncwrs_urow :: "nat \<Rightarrow> nat \<Rightarrow> u32 list \<Rightarrow> (u32 \<times> u32 list) option" where
  "ncwrs_urow n k u = do {
     u \<leftarrow> u_set u 0 0; u \<leftarrow> u_set u 1 1;
     u \<leftarrow> odd_entries 2 k u;
     u \<leftarrow> unext_rows (n - 2) k u;
     a \<leftarrow> u_at u k; b \<leftarrow> u_at u (k + 1);
     Some (a + b, u)
   }"

text \<open>\<open>while(p>_i)p=_u[--_k]\<close>\<close>

fun search_u :: "u32 list \<Rightarrow> u32 \<Rightarrow> nat \<Rightarrow> (nat \<times> u32) option" where
  "search_u u i k = do { p \<leftarrow> u_at u k;
     if p > i then (case k of 0 \<Rightarrow> None | Suc k' \<Rightarrow> search_u u i k') else Some (k, p) }"

declare search_u.simps [simp del]

definition dim_small :: "u32 list \<Rightarrow> nat \<Rightarrow> u32 \<Rightarrow> (int \<times> nat \<times> u32) option" where
  "dim_small u k i = do {
     p \<leftarrow> u_at u (k + 1);
     let s = (if i \<ge> p then -1 else 0 :: int);
     let i = i - (p AND word_of_int s);
     (k', p) \<leftarrow> search_u u i k;
     Some (signed_val (int k - int k') s, k', i - p)
   }"

text \<open>\<open>n\<close> dimensions are left to do.\<close>

fun cwrsi_small_loop :: "nat \<Rightarrow> nat \<Rightarrow> u32 \<Rightarrow> u32 list \<Rightarrow> int \<Rightarrow> (int list \<times> int) option" where
  "cwrsi_small_loop 0 k i u yy = Some ([], yy)"
| "cwrsi_small_loop (Suc n) k i u yy = do {
     (v, k, i) \<leftarrow> dim_small u k i;
     u \<leftarrow> uprev (k + 2) u 0;
     (ys, yy) \<leftarrow> cwrsi_small_loop n k i u (yy + v * v);
     Some (v # ys, yy)
   }"

definition cwrsi_small :: "nat \<Rightarrow> nat \<Rightarrow> u32 \<Rightarrow> u32 list \<Rightarrow> (int list \<times> int) option" where
  "cwrsi_small n k i u = cwrsi_small_loop n k i u 0"

text \<open>The body that \<open>icwrs\<close> repeats: add the entries for \<open>y[j]\<close>.\<close>

definition add_entry :: "u32 list \<Rightarrow> int \<Rightarrow> nat \<Rightarrow> u32 \<Rightarrow> (nat \<times> u32) option" where
  "add_entry u yj k i = do {
     a \<leftarrow> u_at u k;
     let i = i + a;
     let k = k + nat \<bar>yj\<bar>;
     i \<leftarrow> (if yj < 0 then do { b \<leftarrow> u_at u (k + 1); Some (i + b) } else Some i);
     Some (k, i)
   }"

fun icwrs_small_loop :: "nat \<Rightarrow> int list \<Rightarrow> nat \<Rightarrow> u32 \<Rightarrow> u32 list \<Rightarrow> nat \<Rightarrow> (nat \<times> u32 \<times> u32 list) option" where
  "icwrs_small_loop K y k i u 0 = Some (k, i, u)"
| "icwrs_small_loop K y k i u (Suc j) = do {
     u \<leftarrow> unext 0 (K + 2) u 0;
     yj \<leftarrow> y_at y j;
     (k, i) \<leftarrow> add_entry u yj k i;
     icwrs_small_loop K y k i u j
   }"

definition icwrs_small :: "nat \<Rightarrow> nat \<Rightarrow> int list \<Rightarrow> u32 list \<Rightarrow> (u32 \<times> u32) option" where
  "icwrs_small n K y u = do {
     u \<leftarrow> u_set u 0 0;
     u \<leftarrow> odd_entries 1 (K + 1) u;
     y1 \<leftarrow> y_at y (n - 1);
     let k = nat \<bar>y1\<bar>;
     let i = (if y1 < 0 then 1 else 0);
     y2 \<leftarrow> y_at y (n - 2);
     (k, i) \<leftarrow> add_entry u y2 k i;
     (k, i, u) \<leftarrow> icwrs_small_loop K y k i u (n - 2);
     a \<leftarrow> u_at u k; b \<leftarrow> u_at u (k + 1);
     Some (i, a + b)
   }"

subsection \<open>The array holds a row\<close>

definition holds :: "nat \<Rightarrow> nat \<Rightarrow> u32 list \<Rightarrow> bool" where
  "holds n len u = (len \<le> length u \<and> (\<forall>j < len. u ! j = word_of_nat (U n j)))"

lemma holds_at: "holds n len u \<Longrightarrow> j < len \<Longrightarrow> u_at u j = Some (word_of_nat (U n j))"
  by (simp add: holds_def u_at_def)

lemma holds_le: "holds n len u \<Longrightarrow> len' \<le> len \<Longrightarrow> holds n len' u"
  by (auto simp: holds_def)

text \<open>Before round \<open>j\<close> the entries below \<open>j - 1\<close> are done and the others as before.\<close>

lemma unext_loop_row:
  assumes "1 \<le> j" and "j < len" and "off + len \<le> length u"
    and "\<forall>i < j - 1. u ! (off + i) = word_of_nat (U (Suc n) (off + i))"
    and "\<forall>i < len. j - 1 \<le> i \<longrightarrow> u ! (off + i) = word_of_nat (U n (off + i))"
    and "ui0 = word_of_nat (U (Suc n) (off + j - 1))"
  shows "\<exists>u'. unext_loop off len j u ui0 = Some u' \<and> length u' = length u \<and> take off u' = take off u
    \<and> (\<forall>i < len. u' ! (off + i) = word_of_nat (U (Suc n) (off + i)))"
  using assms
proof (induction off len j u ui0 rule: unext_loop.induct)
  case (1 off len j u ui0)
  note j = 1(2,3,4) and dn = 1(5) and old = 1(6) and ui0 = 1(7)
  obtain m where m: "j = Suc m" using j(1) by (cases j) simp_all
  have ab: "u_at u (off + j) = Some (word_of_nat (U n (off + j)))" "u_at u (off + j - 1) = Some (word_of_nat (U n (off + m)))"
    using old[rule_format, of j] old[rule_format, of m] j by (simp_all add: u_at_def m)
  let ?ui1 = "word_of_nat (U n (off + j)) + word_of_nat (U n (off + m)) + ui0 :: u32"
  have ui1: "?ui1 = word_of_nat (U (Suc n) (off + j))" using ui0 by (simp add: m algebra_simps)
  define v where "v = u[off + m := ui0]"
  have v: "u_set u (off + j - 1) ui0 = Some v" using j by (simp add: u_set_def v_def m)
  have lv: "length v = length u" "take off v = take off u" by (simp_all add: v_def)
  have vd: "v ! (off + i) = word_of_nat (U (Suc n) (off + i))" if "i < j" for i
    using dn that ui0 j by (cases "i = m") (auto simp: v_def m)
  have vo: "v ! (off + i) = word_of_nat (U n (off + i))" if "i < len" "j \<le> i" for i
    using old that by (simp add: v_def m)
  show ?case
  proof (cases "j + 1 < len")
    case True
    have "\<exists>u'. unext_loop off len (j + 1) v ?ui1 = Some u' \<and> length u' = length v \<and> take off u' = take off v
        \<and> (\<forall>i < len. u' ! (off + i) = word_of_nat (U (Suc n) (off + i)))"
      by (rule 1(1)[OF ab refl v True]) (use True j lv vd vo ui1 in simp_all)
    then show ?thesis using True lv ab v by (subst unext_loop.simps) simp
  next
    case False
    then have "len = j + 1" using j by simp
    moreover from this have "u_set v (off + j) ?ui1 = Some (v[off + j := ?ui1])" using j lv by (simp add: u_set_def)
    moreover have "i < j + 1 \<Longrightarrow> v[off + j := ?ui1] ! (off + i) = word_of_nat (U (Suc n) (off + i))" for i
      using vd[of i] ui1 j lv \<open>len = j + 1\<close> by (cases "i = j") simp_all
    ultimately show ?thesis using False lv ab v by (subst unext_loop.simps) simp
  qed
qed

lemma unext_row:
  assumes "2 \<le> len" and "off + len \<le> length u" and "\<forall>i < off + len. u ! i = word_of_nat (U n i)"
    and "off \<le> 1" and "0 < n"
  shows "\<exists>u'. unext off len u (word_of_nat (U (Suc n) off)) = Some u' \<and> length u' = length u \<and> holds (Suc n) (off + len) u'"
proof -
  obtain u' where u': "unext_loop off len 1 u (word_of_nat (U (Suc n) off)) = Some u'" "length u' = length u" "take off u' = take off u"
    "\<forall>i < len. u' ! (off + i) = word_of_nat (U (Suc n) (off + i))"
    using unext_loop_row[of 1 len off u n "word_of_nat (U (Suc n) off)"] assms by auto
  have "u' ! i = word_of_nat (U (Suc n) i)" if i: "i < off + len" for i
  proof (cases "i < off")
    case True
    then have "u' ! i = u ! i" using u'(2,3) by (metis nth_take)
    moreover have "i = 0" using True assms(4) by simp
    ultimately show ?thesis using assms(3,5) i by simp
  next
    case False
    then show ?thesis using u'(4)[rule_format, of "i - off"] i by simp
  qed
  then show ?thesis using u' assms by (simp add: unext_def holds_def)
qed

lemma uprev_loop_row:
  assumes "1 \<le> j" and "j < len" and "len \<le> length u"
    and "\<forall>i < j - 1. u ! i = word_of_nat (U n i)"
    and "\<forall>i < len. j - 1 \<le> i \<longrightarrow> u ! i = word_of_nat (U (Suc n) i)"
    and "ui0 = word_of_nat (U n (j - 1))"
  shows "\<exists>u'. uprev_loop len j u ui0 = Some u' \<and> length u' = length u \<and> (\<forall>i < len. u' ! i = word_of_nat (U n i))"
  using assms
proof (induction len j u ui0 rule: uprev_loop.induct)
  case (1 len j u ui0)
  note j = 1(2,3,4) and dn = 1(5) and old = 1(6) and ui0 = 1(7)
  obtain m where m: "j = Suc m" using j(1) by (cases j) simp_all
  have ab: "u_at u j = Some (word_of_nat (U (Suc n) j))" "u_at u (j - 1) = Some (word_of_nat (U (Suc n) m))"
    using old[rule_format, of j] old[rule_format, of m] j by (simp_all add: u_at_def m)
  let ?ui1 = "word_of_nat (U (Suc n) j) - word_of_nat (U (Suc n) m) - ui0 :: u32"
  have ui1: "?ui1 = word_of_nat (U n j)" using ui0 by (simp add: m)
  define v where "v = u[m := ui0]"
  have v: "u_set u (j - 1) ui0 = Some v" using j by (simp add: u_set_def v_def m)
  have lv: "length v = length u" by (simp add: v_def)
  have vd: "v ! i = word_of_nat (U n i)" if "i < j" for i
    using dn that ui0 j by (cases "i = m") (auto simp: v_def m)
  have vo: "v ! i = word_of_nat (U (Suc n) i)" if "i < len" "j \<le> i" for i
    using old[rule_format, of i] that by (simp add: v_def m)
  show ?case
  proof (cases "j + 1 < len")
    case True
    have "\<exists>u'. uprev_loop len (j + 1) v ?ui1 = Some u' \<and> length u' = length v \<and> (\<forall>i < len. u' ! i = word_of_nat (U n i))"
      by (rule 1(1)[OF ab refl v True]) (use True j lv vd vo ui1 in simp_all)
    then show ?thesis using True lv ab v by (subst uprev_loop.simps) simp
  next
    case False
    then have len: "len = j + 1" using j by simp
    then have "u_set v j ?ui1 = Some (v[j := ?ui1])" using j lv by (simp add: u_set_def)
    moreover have "i < j + 1 \<Longrightarrow> v[j := ?ui1] ! i = word_of_nat (U n i)" for i
      using vd[of i] ui1 j lv len by (cases "i = j") simp_all
    ultimately show ?thesis using False lv ab v len by (subst uprev_loop.simps) simp
  qed
qed

lemma uprev_row:
  assumes "holds (Suc n) len u" and "2 \<le> len" and "0 < n"
  shows "\<exists>u'. uprev len u 0 = Some u' \<and> holds n len u'"
  using uprev_loop_row[of 1 len u n 0] assms by (auto simp: uprev_def holds_def)

lemma uprev_loop_total:
  "1 \<le> j \<Longrightarrow> j < len \<Longrightarrow> len \<le> length u \<Longrightarrow> \<exists>u'. uprev_loop len j u ui0 = Some u'"
proof (induction len j u ui0 rule: uprev_loop.induct)
  case (1 len j u ui0)
  let ?v = "u[j - 1 := ui0]"
  have e: "u_at u j = Some (u ! j)" "u_at u (j - 1) = Some (u ! (j - 1))" "u_set u (j - 1) ui0 = Some ?v"
    using 1(2-4) by (simp_all add: u_at_def u_set_def)
  show ?case
  proof (cases "j + 1 < len")
    case True
    have "\<exists>u'. uprev_loop len (j + 1) ?v (u ! j - u ! (j - 1) - ui0) = Some u'"
      by (rule 1(1)[OF e(1,2) refl e(3) True]) (use True 1(2-4) in simp_all)
    then show ?thesis using e True by (subst uprev_loop.simps) simp
  next
    case False
    then show ?thesis using e 1(2-4) by (subst uprev_loop.simps) (simp add: u_set_def)
  qed
qed

lemma odd_entries_row:
  "0 < k \<Longrightarrow> k + len \<le> length u \<Longrightarrow> holds 2 k u \<Longrightarrow>
     \<exists>u'. odd_entries k len u = Some u' \<and> length u' = length u \<and> holds 2 (k + len) u'"
proof (induction len arbitrary: k u)
  case (Suc len)
  let ?w = "push_bit 1 (word_of_nat k) - 1 :: u32"
  have w: "?w = word_of_nat (U 2 k)"
    using Suc.prems(1) by (cases k) (simp_all add: U_2 push_bit_eq_mult)
  have "holds 2 (k + 1) (u[k := ?w])"
    using Suc.prems w by (auto simp: holds_def nth_list_update less_Suc_eq)
  then show ?case using Suc.IH[of "k + 1" "u[k := ?w]"] Suc.prems by (simp add: u_set_def)
qed simp

lemma first_entries:
  assumes "2 \<le> length u"
  shows "u_set u 0 0 = Some (u[0 := 0])" and "holds 2 1 (u[0 := 0])"
    and "u_set (u[0 := 0]) 1 1 = Some (u[0 := 0, 1 := 1])" and "holds 2 2 (u[0 := 0, 1 := 1])"
proof -
  obtain a b us where u: "u = a # b # us" using assms by (cases u; cases "tl u") auto
  show "u_set u 0 0 = Some (u[0 := 0])" "holds 2 1 (u[0 := 0])" "u_set (u[0 := 0]) 1 1 = Some (u[0 := 0, 1 := 1])"
    "holds 2 2 (u[0 := 0, 1 := 1])"
    by (auto simp: u u_set_def holds_def U_2 less_2_cases_iff)
qed

lemma unext_rows_row:
  "0 < n \<Longrightarrow> 0 < k \<Longrightarrow> holds n (k + 2) u \<Longrightarrow> \<exists>u'. unext_rows r k u = Some u' \<and> length u' = length u \<and> holds (n + r) (k + 2) u'"
proof (induction r arbitrary: n u)
  case (Suc r)
  have e: "U (Suc n) 1 = 1" using U_sym[of "Suc n" 1] by simp
  obtain v where v: "unext 1 (k + 1) u 1 = Some v" "length v = length u" "holds (Suc n) (k + 2) v"
    using unext_row[of "k + 1" 1 u n] Suc.prems by (auto simp: holds_def e simp del: U.simps One_nat_def)
  obtain u' where "unext_rows r k v = Some u'" "length u' = length v" "holds (Suc n + r) (k + 2) u'"
    using Suc.IH[OF _ Suc.prems(2) v(3)] by auto
  then show ?case using v by simp
qed simp

lemma ncwrs_urow_ok:
  assumes "2 \<le> n" and "0 < k" and "length u = k + 2"
  shows "\<exists>u'. ncwrs_urow n k u = Some (word_of_nat (V n k), u') \<and> holds n (k + 2) u'"
proof -
  have l: "2 \<le> length u" using assms(3) by simp
  note f = first_entries[OF l]
  obtain v where v: "odd_entries 2 k (u[0 := 0, 1 := 1]) = Some v" "holds 2 (k + 2) v"
    using odd_entries_row[OF _ _ f(4), of k] assms(3) by (auto simp: add.commute)
  have n: "2 + (n - 2) = n" using assms(1) by simp
  obtain w where w: "unext_rows (n - 2) k v = Some w" "holds n (k + 2) w"
    using unext_rows_row[OF _ assms(2) v(2), of "n - 2"] unfolding n by auto
  have "u_at w k = Some (word_of_nat (U n k))" "u_at w (k + 1) = Some (word_of_nat (U n (k + 1)))"
    using holds_at[OF w(2)] by simp_all
  then show ?thesis using f v w by (simp add: ncwrs_urow_def V_def)
qed

subsection \<open>Decoding\<close>

lemma search_u_finds:
  "0 < n \<Longrightarrow> holds n (k + 1) u \<Longrightarrow> U n k < 2 ^ 32 \<Longrightarrow> unat i < U n (Suc k) \<Longrightarrow>
     \<exists>K p. search_u u i k = Some (K, p) \<and> unat p = U n K \<and> K \<le> k \<and> U n K \<le> unat i \<and> unat i < U n (Suc K)"
proof (induction k)
  case 0
  then show ?case by (subst search_u.simps) (simp add: holds_at)
next
  case (Suc k)
  have p: "u_at u (Suc k) = Some (word_of_nat (U n (Suc k)))" using holds_at[OF Suc.prems(2)] by simp
  have un: "unat (word_of_nat (U n (Suc k)) :: u32) = U n (Suc k)" by (rule unat_nat_u32) (rule Suc.prems(3))
  show ?case
  proof (cases "(word_of_nat (U n (Suc k)) :: u32) > i")
    case True
    then have "unat i < U n (Suc k)" by (simp only: word_less_nat_alt un)
    moreover have "holds n (k + 1) u" using Suc.prems(2) by (rule holds_le) simp
    moreover have "U n k < 2 ^ 32" using U_mono_right[OF Suc.prems(1), of k] Suc.prems(3) by simp
    ultimately obtain K q where "search_u u i k = Some (K, q)" "unat q = U n K" "K \<le> k" "U n K \<le> unat i" "unat i < U n (Suc K)"
      using Suc.IH[OF Suc.prems(1)] by blast
    then show ?thesis using True p by (subst search_u.simps) simp
  next
    case False
    then have "U n (Suc k) \<le> unat i" by (simp only: word_less_nat_alt un not_less)
    then show ?thesis using False p un Suc.prems(4) by (subst search_u.simps) (simp del: U.simps)
  qed
qed

lemma dim_small_ok:
  assumes n: "0 < n" and u: "holds n (k + 2) u" and k: "k \<le> 32767" and V: "V n k < 2 ^ 32" and i: "unat i < V n k"
  shows "\<exists>r. dim_small u k i = Some r \<and> dim_ok n k i r"
proof -
  define q where "q = (word_of_nat (U n (Suc k)) :: u32)"
  have q: "u_at u (k + 1) = Some q" using holds_at[OF u, of "k + 1"] by (simp add: q_def)
  have uq: "unat q = U n (Suc k)" unfolding q_def by (rule unat_nat_u32) (use V in \<open>simp add: V_def\<close>)
  have Uk: "U n k < 2 ^ 32" using V by (simp add: V_def)
  define s where "s = (if i \<ge> q then -1 else 0 :: int)"
  define i1 where "i1 = i - (q AND word_of_int s)"
  have i1: "unat i1 = unat i - (if i \<ge> q then unat q else 0)" using remove_sign[OF s_def] by (simp add: i1_def)
  then have lt: "unat i1 < U n (Suc k)"
    using i uq U_mono_right[OF n, of k] by (auto simp: V_def word_le_nat_alt split: if_splits)
  have "holds n (k + 1) u" using u by (rule holds_le) simp
  from search_u_finds[OF n this Uk lt] obtain K p where Kp: "search_u u i1 k = Some (K, p)" "unat p = U n K" "K \<le> k"
    "U n K \<le> unat i1" "unat i1 < U n (Suc K)" by blast
  have "dim_small u k i = Some (signed_val (int k - int K) s, K, i1 - p)"
    unfolding dim_small_def q Option.bind.bind_lunit Let_def s_def[symmetric] i1_def[symmetric] Kp(1) by simp
  then show ?thesis using dim_result[OF n k Kp(2,4,5,3) i1 uq s_def i] by blast
qed

lemma cwrsi_small_ok:
  "holds n (k + 2) u \<Longrightarrow> k \<le> 32767 \<Longrightarrow> V n k < 2 ^ 32 \<Longrightarrow> unat i < V n k \<Longrightarrow>
     \<exists>y. cwrsi_small_loop n k i u yy = Some (y, yy + sum_squares y) \<and> length y = n \<and> pulses y = k \<and> index_of y = unat i"
proof (induction n arbitrary: k i u yy)
  case 0
  then show ?case by (cases k) (simp_all add: V_def sum_squares_def)
next
  case (Suc n)
  obtain v K i' where r: "dim_small u k i = Some (v, K, i')" "dim_ok (Suc n) k i (v, K, i')"
    using dim_small_ok[OF _ Suc.prems] by (auto simp del: split_paired_Ex)
  note d = r(2)[unfolded dim_ok_def prod.case diff_Suc_1]
  have hl: "holds (Suc n) (K + 2) u" using Suc.prems(1) by (rule holds_le) (use d in simp)
  have "U (Suc n) (Suc K) \<le> U (Suc n) (Suc k)" by (rule U_mono) (use d in simp_all)
  then have V: "V n K < 2 ^ 32" using Suc.prems(3) block[of n K] by (simp add: V_def[of "Suc n"] del: U.simps)
  obtain u' where u': "uprev (K + 2) u 0 = Some u'" "0 < n \<longrightarrow> holds n (K + 2) u'"
  proof (cases "n = 0")
    case True
    then show ?thesis using uprev_loop_total[of 1 "K + 2" u 0] hl that by (auto simp: uprev_def holds_def)
  next
    case False
    then show ?thesis using uprev_row[OF hl] that by auto
  qed
  obtain y where y: "cwrsi_small_loop n K i' u' (yy + v * v) = Some (y, yy + v * v + sum_squares y)"
    "length y = n" "pulses y = K" "index_of y = unat i'"
  proof (cases "n = 0")
    case True
    then show ?thesis using d that[of "[]"] by (cases K) (auto simp: V_def sum_squares_def)
  next
    case False
    then have "holds n (K + 2) u'" using u'(2) by simp
    from Suc.IH[OF this _ V, of i' "yy + v * v"] show ?thesis using that d Suc.prems(2) by auto
  qed
  have "cwrsi_small_loop (Suc n) k i u yy = Some (v # y, yy + sum_squares (v # y))"
    unfolding cwrsi_small_loop.simps r(1) Option.bind.bind_lunit prod.case u'(1) y(1)
    by (simp add: sum_squares_def)
  moreover have l: "Suc (length y) = Suc n" and "pulses (v # y) = k" using y d by simp_all
  moreover have "index_of (v # y) = unat i"
    unfolding index_of.simps l calculation(3) using d y by simp
  ultimately show ?case by (intro exI[of _ "v # y"]) simp
qed

subsection \<open>Encoding\<close>

lemma add_entry_index:
  assumes "holds (Suc (length r)) (K + 2) u" and "pulses (a # r) \<le> K"
  shows "add_entry u a (pulses r) (word_of_nat (index_of r)) = Some (pulses (a # r), word_of_nat (index_of (a # r)))"
proof -
  have u: "u_at u (pulses r) = Some (word_of_nat (U (Suc (length r)) (pulses r)))"
    "u_at u (pulses (a # r) + 1) = Some (word_of_nat (U (Suc (length r)) (Suc (pulses (a # r)))))"
    using holds_at[OF assms(1)] assms(2) by simp_all
  have p: "pulses r + nat \<bar>a\<bar> = pulses (a # r)" by simp
  show ?thesis
    unfolding add_entry_def u(1) Option.bind.bind_lunit Let_def p u(2) index_of.simps(2)
    by (cases "a < 0") (simp_all only: if_True if_False Option.bind.bind_lunit of_nat_add add_0_right)
qed

lemma icwrs_small_loop_index:
  "j < length y \<Longrightarrow> pulses y \<le> K \<Longrightarrow> holds (length y - j) (K + 2) u \<Longrightarrow>
     \<exists>u'. icwrs_small_loop K y (pulses (drop j y)) (word_of_nat (index_of (drop j y))) u j
       = Some (pulses y, word_of_nat (index_of y), u') \<and> holds (length y) (K + 2) u'"
proof (induction j arbitrary: u)
  case (Suc j)
  let ?r = "drop (Suc j) y"
  have d: "drop j y = y ! j # ?r" using Suc.prems by (simp add: Cons_nth_drop_Suc)
  have n: "Suc (length ?r) = length y - j" "Suc (length y - Suc j) = length y - j" using Suc.prems by simp_all
  obtain v where v: "unext 0 (K + 2) u 0 = Some v" "holds (length y - j) (K + 2) v"
    using unext_row[of "K + 2" 0 u "length y - Suc j"] Suc.prems(1,3) unfolding n by (auto simp: holds_def)
  have a: "add_entry v (y ! j) (pulses ?r) (word_of_nat (index_of ?r)) = Some (pulses (drop j y), word_of_nat (index_of (drop j y)))"
    unfolding d
  proof (rule add_entry_index)
    show "holds (Suc (length ?r)) (K + 2) v" using v(2) unfolding n .
    show "pulses (y ! j # ?r) \<le> K" using pulses_drop_le[of j y] Suc.prems(2) unfolding d by simp
  qed
  have yj: "y_at y j = Some (y ! j)" using Suc.prems by (simp add: y_at_def)
  show ?case
    using Suc.IH[OF _ Suc.prems(2) v(2)] Suc.prems(1)
    unfolding icwrs_small_loop.simps v(1) yj Option.bind.bind_lunit a prod.case by simp
qed auto

lemma icwrs_small_index:
  assumes "2 \<le> length y" and "pulses y = K" and "length u = K + 2"
  shows "icwrs_small (length y) K y u = Some (word_of_nat (index_of y), word_of_nat (V (length y) K))"
proof -
  let ?j1 = "length y - 1" and ?j2 = "length y - 2"
  obtain m where m: "length y = Suc (Suc m)" using assms(1) by (cases y; cases "tl y") auto
  have l: "2 \<le> length u" using assms(3) by simp
  note f = first_entries[OF l]
  obtain v where v: "odd_entries 1 (K + 1) (u[0 := 0]) = Some v" "holds 2 (K + 2) v"
    using odd_entries_row[OF _ _ f(2), of "K + 1"] assms(3) by (auto simp: add.commute)
  have d1: "drop (Suc m) y = [y ! Suc m]" and d2: "drop m y = y ! m # drop (Suc m) y"
    using m Cons_nth_drop_Suc[of "Suc m" y] Cons_nth_drop_Suc[of m y] by simp_all
  have e1: "pulses (drop (Suc m) y) = nat \<bar>y ! Suc m\<bar>" "index_of (drop (Suc m) y) = (if y ! Suc m < 0 then 1 else 0)"
    unfolding d1 by simp_all
  have a: "add_entry v (y ! m) (pulses (drop (Suc m) y)) (word_of_nat (index_of (drop (Suc m) y)))
      = Some (pulses (drop m y), word_of_nat (index_of (drop m y)))"
    unfolding d2
  proof (rule add_entry_index)
    show "holds (Suc (length (drop (Suc m) y))) (K + 2) v" using v(2) m by (simp add: numeral_2_eq_2)
    show "pulses (y ! m # drop (Suc m) y) \<le> K" using pulses_drop_le[of m y] assms(2) d2 by simp
  qed
  have "length y - m = 2" using m by simp
  then have h: "holds (length y - m) (K + 2) v" using v(2) by (simp only:)
  obtain u' where u': "icwrs_small_loop K y (pulses (drop m y)) (word_of_nat (index_of (drop m y))) v m
      = Some (K, word_of_nat (index_of y), u')" "holds (length y) (K + 2) u'"
    using icwrs_small_loop_index[of m y K v] h assms(2) m by auto
  have "u_at u' K = Some (word_of_nat (U (length y) K))" "u_at u' (K + 1) = Some (word_of_nat (U (length y) (K + 1)))"
    using holds_at[OF u'(2)] by simp_all
  moreover have "(if y ! Suc m < 0 then 1 else 0) = (word_of_nat (index_of (drop (Suc m) y)) :: u32)"
    unfolding e1 by simp
  moreover have "y_at y (length y - 1) = Some (y ! Suc m)" "y_at y (length y - 2) = Some (y ! m)" "length y - 2 = m"
    using m by (simp_all add: y_at_def)
  ultimately show ?thesis
    unfolding icwrs_small_def f(1) Option.bind.bind_lunit v(1) by (simp add: e1(1)[symmetric] a u'(1) V_def)
qed

text \<open>Both builds give a vector the same index, and an index the same vector.\<close>

lemma icwrs_small_same:
  assumes "pvq_ok n k" and "length u = k + 2" and "y \<in> pulse_vectors n k"
  shows "icwrs_small n k y u = do { i \<leftarrow> icwrs n y; v \<leftarrow> CELT_PVQ_V n k; Some (i, v) }"
proof -
  have y: "length y = n" "pulses y = k" using assms(3) by (simp_all add: pulse_vectors_def)
  moreover have "2 \<le> n" using assms(1) by (simp add: pvq_ok_def)
  ultimately show ?thesis
    using icwrs_small_index[of y k u] assms(2) cwrsi_icwrs(1)[OF assms(1,3)] CELT_V[OF assms(1)] by simp
qed

lemma cwrsi_small_same:
  assumes "pvq_ok n k" and "0 < k" and "length u = k + 2"
  shows "\<exists>u'. ncwrs_urow n k u = Some (word_of_nat (V n k), u') \<and> (\<forall>i < word_of_nat (V n k). cwrsi_small n k i u' = cwrsi n k i)"
proof -
  have n: "2 \<le> n" "V n k < 2 ^ 32" using assms(1) by (simp_all add: pvq_ok_def)
  have k: "k \<le> 32767" using in_table_col[of n "k + 1"] assms(1) by (simp add: pvq_ok_def)
  obtain u' where u': "ncwrs_urow n k u = Some (word_of_nat (V n k), u')" "holds n (k + 2) u'"
    using ncwrs_urow_ok[OF n(1) assms(2,3)] by blast
  have "cwrsi_small n k i u' = cwrsi n k i" if "i < word_of_nat (V n k)" for i
  proof -
    have i: "unat i < V n k" using that unat_nat_u32[OF n(2)] by (simp add: word_less_nat_alt)
    obtain y where y: "cwrsi_small n k i u' = Some (y, sum_squares y)" "y \<in> pulse_vectors n k" "index_of y = unat i"
      using cwrsi_small_ok[OF u'(2) k n(2) i, of 0] by (auto simp: cwrsi_small_def pulse_vectors_def)
    obtain z where z: "cwrsi n k i = Some (z, sum_squares z)" "z \<in> pulse_vectors n k" "index_of z = unat i"
      using cwrsi_index[OF assms(1) i] by blast
    have "y = z" using index_inj[of y z] y z by (simp add: pulse_vectors_def)
    then show ?thesis using y z by simp
  qed
  then show ?thesis using u'(1) by blast
qed

text \<open>
  C20: The two builds agree: for every number of dimensions and pulses that the table covers, the build that computes the
  rows instead (SMALL_FOOTPRINT) gives every vector the same index and the same count, and every index the same vector
  and sum of squares, whatever its array held before.
\<close>

theorem pulse_builds_agree:
  assumes "pvq_ok n k" and "0 < k" and "length u = k + 2"
  shows "(\<forall>y \<in> pulse_vectors n k. icwrs_small n k y u
       = do { i \<leftarrow> icwrs n y; v \<leftarrow> CELT_PVQ_V n k; Some (i, v) })
    \<and> (\<exists>v u'. ncwrs_urow n k u = Some (v, u') \<and> CELT_PVQ_V n k = Some v \<and> (\<forall>i < v. cwrsi_small n k i u' = cwrsi n k i))"
  using icwrs_small_same[OF assms(1,3)] cwrsi_small_same[OF assms] CELT_V[OF assms(1)] by blast

lemma pulse_builds_agree_witness:
  "icwrs_small 4 3 [0, - 2, 0, 1] [7, 7, 7, 7, 7] = do { i \<leftarrow> icwrs 4 [0, - 2, 0, 1]; v \<leftarrow> CELT_PVQ_V 4 3; Some (i, v) }"
proof -
  have "[0, - 2, 0, 1] \<in> pulse_vectors 4 3" by (simp add: pulse_vectors_def)
  then show ?thesis using pulse_builds_agree[OF pvq_ok_demo, of "[7, 7, 7, 7, 7]"] by simp
qed

end
