(* ===== verification/Laplace.thy ===== *)
theory Laplace
  imports Anystream Pvqsmall
begin

section \<open>Pulse vectors and Laplace symbols in the stream (opus/celt/cwrs.c, laplace.c)\<close>

text \<open>
  The two kinds of symbols that CELT builds on the range coder: the index of a vector of pulses, coded as an integer
  below the number of vectors, and the coarse energy, a signed number with a decaying distribution. Unsigned
  integers are 32-bit words; \<open>decay\<close>, the value and its sign are \<open>int\<close>.
\<close>

subsection \<open>The code\<close>

definition encode_pulses :: "int list \<Rightarrow> nat \<Rightarrow> nat \<Rightarrow> ec_ctx \<Rightarrow> ec_ctx option" where
  "encode_pulses y n k enc = do { i \<leftarrow> icwrs n y; v \<leftarrow> CELT_PVQ_V n k; ec_enc_uint i v enc }"

definition decode_pulses :: "nat \<Rightarrow> nat \<Rightarrow> ec_ctx \<Rightarrow> ((int list \<times> int) \<times> ec_ctx) option" where
  "decode_pulses n k dec = do {
     v \<leftarrow> CELT_PVQ_V n k;
     (i, dec) \<leftarrow> ec_dec_uint v dec;
     r \<leftarrow> cwrsi n k i;
     Some (r, dec)
   }"

text \<open>The same functions of the build with a small footprint; \<open>u\<close> is what the array holds at first.\<close>

definition encode_pulses_small :: "u32 list \<Rightarrow> int list \<Rightarrow> nat \<Rightarrow> nat \<Rightarrow> ec_ctx \<Rightarrow> ec_ctx option" where
  "encode_pulses_small u y n k enc = do { (i, nc) \<leftarrow> icwrs_small n k y u; ec_enc_uint i nc enc }"

definition decode_pulses_small :: "u32 list \<Rightarrow> nat \<Rightarrow> nat \<Rightarrow> ec_ctx \<Rightarrow> ((int list \<times> int) \<times> ec_ctx) option" where
  "decode_pulses_small u n k dec = do {
     (v, u) \<leftarrow> ncwrs_urow n k u;
     (i, dec) \<leftarrow> ec_dec_uint v dec;
     r \<leftarrow> cwrsi_small n k i u;
     Some (r, dec)
   }"

text \<open>\<open>LAPLACE_MINP\<close> is 1 and \<open>LAPLACE_NMIN\<close> 16.\<close>

definition ec_laplace_get_freq1 :: "u32 \<Rightarrow> int \<Rightarrow> u32" where
  "ec_laplace_get_freq1 fs0 decay = drop_bit 15 ((32768 - 32 - fs0) * word_of_int (16384 - decay))"

text \<open>The search of the decaying part, for \<open>ec_laplace_encode\<close>: from \<open>i\<close> to the value.\<close>

function laplace_search :: "int \<Rightarrow> int \<Rightarrow> int \<Rightarrow> u32 \<Rightarrow> u32 \<Rightarrow> int \<times> u32 \<times> u32" where
  "laplace_search decay val i fl fs = (if 0 < fs \<and> i < val
     then let fs = fs * 2; fl = fl + fs + 2; fs = drop_bit 15 (fs * word_of_int decay)
       in laplace_search decay val (i + 1) fl fs
     else (i, fl, fs))"
  by auto
termination by (relation "measure (\<lambda>(d, v, i, _). nat (v - i))") auto

declare laplace_search.simps [simp del]

text \<open>The interval of a value and the value that is coded, which is smaller when the value has no interval.\<close>

definition laplace_interval :: "int \<Rightarrow> u32 \<Rightarrow> int \<Rightarrow> int \<times> u32 \<times> u32" where
  "laplace_interval value fs decay = (if value = 0 then (value, 0, fs) else
     let s = (if value < 0 then -1 else 0 :: int);
         val = (value + s) XOR s;
         (i, fl, fs) = laplace_search decay val 1 fs (ec_laplace_get_freq1 fs decay)
     in if fs = 0 then
       let ndi_max = sint (32768 - fl + 1 - 1);
           ndi_max = (ndi_max - s) div 2;
           di = min (val - i) (ndi_max - 1);
           fl = fl + word_of_int (2 * di + 1 + s);
           fs = min 1 (32768 - fl)
       in ((i + di + s) XOR s, fl, fs)
     else let fs = fs + 1 in (value, fl + (fs AND NOT (word_of_int s)), fs))"

definition ec_laplace_encode :: "int \<Rightarrow> u32 \<Rightarrow> int \<Rightarrow> ec_ctx \<Rightarrow> (int \<times> ec_ctx) option" where
  "ec_laplace_encode value fs decay enc = (let (value, fl, fs) = laplace_interval value fs decay
     in map_option (Pair value) (ec_encode_bin fl (fl + fs) 15 enc))"

text \<open>The search of the decoder.\<close>

partial_function (option) laplace_find :: "int \<Rightarrow> u32 \<Rightarrow> int \<Rightarrow> u32 \<Rightarrow> u32 \<Rightarrow> (int \<times> u32 \<times> u32) option" where
  "laplace_find decay fm val fl fs = (if 1 < fs \<and> fl + 2 * fs \<le> fm
     then let fs = fs * 2; fl = fl + fs; fs = drop_bit 15 ((fs - 2) * word_of_int decay); fs = fs + 1
       in laplace_find decay fm (val + 1) fl fs
     else Some (val, fl, fs))"

declare laplace_find.simps [code]

definition laplace_value :: "u32 \<Rightarrow> u32 \<Rightarrow> int \<Rightarrow> (int \<times> u32 \<times> u32) option" where
  "laplace_value fm fs decay = (if fs \<le> fm then do {
       (val, fl, fs) \<leftarrow> laplace_find decay fm 1 fs (ec_laplace_get_freq1 fs decay + 1);
       let (val, fl) = (if fs \<le> 1 then let di = sint (drop_bit 1 (fm - fl)) in (val + di, fl + word_of_int (2 * di)) else (val, fl));
       Some (if fm < fl + fs then (- val, fl, fs) else (val, fl + fs, fs))
     } else Some (0, 0, fs))"

definition ec_laplace_decode :: "u32 \<Rightarrow> int \<Rightarrow> ec_ctx \<Rightarrow> (int \<times> ec_ctx) option" where
  "ec_laplace_decode fs decay dec = do {
     let (fm, dec) = ec_decode_bin 15 dec;
     (val, fl, fs) \<leftarrow> laplace_value fm fs decay;
     dec \<leftarrow> ec_dec_update fl (min (fl + fs) 32768) 32768 dec;
     Some (val, dec)
   }"

subsection \<open>The end of the decaying part\<close>

text \<open>
  The decaying part as numbers: the value \<open>i\<close> with the sign minus has the interval of \<open>r + 1\<close> from \<open>F\<close>, with the sign plus
  the interval after it. \<open>lap_end\<close> gives the first value of the flat part, in which every value has an interval of 1.
\<close>

function lap_end :: "nat \<Rightarrow> nat \<Rightarrow> nat \<Rightarrow> nat \<Rightarrow> nat \<times> nat" where
  "lap_end d i F r = (if r = 0 \<or> 16384 \<le> d then (i, F) else lap_end d (i + 1) (F + 2 * r + 2) (2 * r * d div 32768))"
  by auto
termination by (relation "measure (\<lambda>(d, i, F, r). r)") (auto simp: div_less_iff_less_mult)

declare lap_end.simps [simp del]

definition laplace_ok :: "nat \<Rightarrow> nat \<Rightarrow> bool" where
  "laplace_ok fs d \<longleftrightarrow> 0 < fs \<and> fs \<le> 32736 \<and> d < 16384 \<and>
     (let (i, F) = lap_end d 1 fs ((32736 - fs) * (16384 - d) div 32768) in F \<le> 32766 \<and> 16 \<le> i - 1 + (32768 - F) div 2 \<and> i + (32768 - F) div 2 \<le> 64)"

lemma lap_end_mono: "lap_end d i F r = (I, E) \<Longrightarrow> i \<le> I \<and> F \<le> E"
proof (induction d i F r rule: lap_end.induct)
  case (1 d i F r)
  then show ?case by (cases "r = 0 \<or> 16384 \<le> d") (auto simp: lap_end.simps[of d i F r])
qed

lemma lap_end_step: "0 < r \<Longrightarrow> d < 16384 \<Longrightarrow> lap_end d i F r = lap_end d (i + 1) (F + 2 * r + 2) (2 * r * d div 32768)"
  by (simp add: lap_end.simps[of d i F r])

text \<open>One step of the searches, as numbers.\<close>

lemma decay_step:
  assumes "r \<le> 16384" "d < 16384" "unat (fs :: u32) = r"
  shows "unat (drop_bit 15 (fs * 2 * word_of_int (int d)) :: u32) = 2 * r * d div 32768"
proof -
  define w :: u32 where "w = word_of_int (int d)"
  have d: "unat w = d" using assms(2) unat_nat_u32[of d] by (simp add: w_def)
  have m: "2 * r * d < 2 ^ 32" using mult_mono[of "2 * r" 32768 d 16384] assms by simp
  have "unat (fs * 2) = 2 * r" using assms by (simp add: unat_mult_small)
  then have "unat (fs * 2 * w) = 2 * r * d" using m d by (simp add: unat_mult_small)
  then show ?thesis unfolding w_def[symmetric] by (simp only: unat_drop) simp
qed

lemma first_step:
  assumes "unat fs \<le> 32736" "d < 16384"
  shows "unat (ec_laplace_get_freq1 fs (int d)) = (32736 - unat fs) * (16384 - d) div 32768"
proof -
  define w :: u32 where "w = word_of_int (16384 - int d)"
  have "w = word_of_nat (16384 - d)" using assms(2) by (simp add: w_def of_nat_diff)
  then have d: "unat w = 16384 - d" using unat_nat_u32[of "16384 - d"] by simp
  have f: "unat (32768 - 32 - fs) = 32736 - unat fs" using assms(1) by (simp add: unat_sub_le)
  have "(32736 - unat fs) * (16384 - d) \<le> 32736 * 16384" by (intro mult_mono) simp_all
  then have "unat ((32768 - 32 - fs) * w) = (32736 - unat fs) * (16384 - d)"
    by (subst unat_mult_small) (simp_all only: d f, simp)
  then show ?thesis unfolding w_def[symmetric] ec_laplace_get_freq1_def by (simp only: unat_drop) simp
qed

subsection \<open>The two searches meet\<close>

text \<open>Where a search may stop: at the end of the decaying part or, for a value in it, at its two intervals.\<close>

definition stop_ok :: "nat \<Rightarrow> nat \<Rightarrow> nat \<Rightarrow> u32 \<Rightarrow> u32 \<Rightarrow> bool" where
  "stop_ok I E j fl fs \<longleftrightarrow> (if fs = 0 then j = I \<and> unat fl = E else j < I \<and> unat fl + 2 * unat fs + 2 \<le> E)"

definition inside :: "u32 \<Rightarrow> u32 \<Rightarrow> u32 \<Rightarrow> bool" where
  "inside fm fl fs \<longleftrightarrow> unat fl \<le> unat fm \<and> (fs \<noteq> 0 \<longrightarrow> unat fm < unat fl + 2 * unat fs + 2)"

lemma chain_words:
  fixes fl fs :: u32
  assumes "lap_end d i (unat fl) (unat fs) = (I, E)" "E \<le> 32766" "d < 16384" "fs \<noteq> 0"
  defines "fl' \<equiv> fl + fs * 2 + 2" and "fs' \<equiv> drop_bit 15 (fs * 2 * word_of_int (int d))"
  shows "unat fl' = unat fl + 2 * unat fs + 2" "unat fs' = 2 * unat fs * d div 32768"
    "lap_end d (i + 1) (unat fl') (unat fs') = (I, E)" "unat fl' \<le> E" "i < I"
    "fl + 2 * (fs + 1) = fl'" "(fs + 1) * 2 = fs * 2 + 2" "unat (fs + 1) = unat fs + 1"
proof -
  have r: "0 < unat fs" using assms(4) by (simp add: unat_gt_0)
  have e: "lap_end d (i + 1) (unat fl + 2 * unat fs + 2) (2 * unat fs * d div 32768) = (I, E)"
    using lap_end_step[OF r assms(3)] assms(1) by simp
  then have b: "i + 1 \<le> I" "unat fl + 2 * unat fs + 2 \<le> E" using lap_end_mono by blast+
  then have s: "unat fs \<le> 16384" "unat fl \<le> 32766" using assms(2) by simp_all
  have "unat (fs * 2) = 2 * unat fs" using s by (simp add: unat_mult_small)
  then show fl': "unat fl' = unat fl + 2 * unat fs + 2" using s by (simp add: fl'_def unat_add_small)
  show fs': "unat fs' = 2 * unat fs * d div 32768" unfolding fs'_def by (rule decay_step[OF s(1) assms(3) refl])
  show "lap_end d (i + 1) (unat fl') (unat fs') = (I, E)" using e by (simp only: fl' fs')
  show "unat fl' \<le> E" "i < I" using b fl' by simp_all
  show "fl + 2 * (fs + 1) = fl'" "(fs + 1) * 2 = fs * 2 + 2" by (simp_all add: fl'_def algebra_simps)
  show "unat (fs + 1) = unat fs + 1" using s by (simp add: unat_add_small)
qed

lemma find_stop:
  assumes "laplace_find d fm val fl (fs + 1) = r" "fs \<noteq> 0 \<Longrightarrow> fm < fl + 2 * (fs + 1)"
  shows "r = Some (val, fl, fs + 1)"
proof -
  have "\<not> (1 < fs + 1 \<and> fl + 2 * (fs + 1) \<le> fm)" using assms(2) by (cases "fs = 0") auto
  then show ?thesis using assms(1) by (subst (asm) laplace_find.simps) (simp only: if_False)
qed

text \<open>Wherever the encoder stops, the decoder stops for every number inside.\<close>

lemma search_find:
  fixes fl fs :: u32
  assumes "lap_end d i (unat fl) (unat fs) = (I, E)" "E \<le> 32766" "d < 16384" "int i \<le> v"
  shows "\<exists>j fl' fs'. laplace_search (int d) v (int i) fl fs = (int j, fl', fs') \<and> stop_ok I E j fl' fs' \<and> int j \<le> v \<and>
    unat fl \<le> unat fl' \<and> (fs' \<noteq> 0 \<longrightarrow> int j = v) \<and>
    (\<forall>fm. inside fm fl' fs' \<longrightarrow> laplace_find (int d) fm (int i) fl (fs + 1) = Some (int j, fl', fs' + 1))"
  using assms
proof (induction "nat (v - int i)" arbitrary: i fl fs rule: less_induct)
  case less
  show ?case
  proof (cases "fs = 0 \<or> int i = v")
    case True
    have s: "laplace_search (int d) v (int i) fl fs = (int i, fl, fs)"
      using True by (subst laplace_search.simps) auto
    have ok: "stop_ok I E i fl fs"
    proof (cases "fs = 0")
      case True
      then show ?thesis using less.prems(1) by (simp add: stop_ok_def lap_end.simps[of d i _ 0])
    next
      case False
      then show ?thesis using chain_words[OF less.prems(1-3) False] by (simp add: stop_ok_def)
    qed
    have "laplace_find (int d) fm (int i) fl (fs + 1) = Some (int i, fl, fs + 1)" if "inside fm fl fs" for fm
    proof (rule find_stop[OF refl])
      assume z: "fs \<noteq> 0"
      show "fm < fl + 2 * (fs + 1)"
        using that z unfolding inside_def word_less_nat_alt
        by (simp only: chain_words(6)[OF less.prems(1-3) z] chain_words(1)[OF less.prems(1-3) z]) simp
    qed
    then show ?thesis using s ok True less.prems(4) by (intro exI[of _ i] exI[of _ fl] exI[of _ fs]) auto
  next
    case False
    then have z: "fs \<noteq> 0" "int i < v" using less.prems(4) by auto
    note c = chain_words[OF less.prems(1-3) z(1)]
    define fl1 where "fl1 = fl + fs * 2 + 2"
    define fs1 :: u32 where "fs1 = drop_bit 15 (fs * 2 * word_of_int (int d))"
    note c = c[folded fl1_def fs1_def]
    have s: "laplace_search (int d) v (int i) fl fs = laplace_search (int d) v (int (i + 1)) fl1 fs1"
      using z by (subst laplace_search.simps)
        (simp add: fl1_def fs1_def Let_def word_gt_0 ac_simps del: drop_bit_eq_div)
    have "nat (v - int (i + 1)) < nat (v - int i)" "int (i + 1) \<le> v" using z by simp_all
    from less.hyps[OF this(1) c(3) less.prems(2,3) this(2)] obtain j fl' fs' where
      j: "laplace_search (int d) v (int (i + 1)) fl1 fs1 = (int j, fl', fs')" "stop_ok I E j fl' fs'" "int j \<le> v"
      "unat fl1 \<le> unat fl'" "fs' \<noteq> 0 \<longrightarrow> int j = v"
      "\<And>fm. inside fm fl' fs' \<Longrightarrow> laplace_find (int d) fm (int (i + 1)) fl1 (fs1 + 1) = Some (int j, fl', fs' + 1)"
      by blast
    have "laplace_find (int d) fm (int i) fl (fs + 1) = Some (int j, fl', fs' + 1)" if "inside fm fl' fs'" for fm
    proof -
      have "fl1 \<le> fm" using that j(4) by (simp add: inside_def word_le_nat_alt)
      moreover have "1 < fs + 1" using c(8) z(1) by (simp add: word_less_nat_alt unat_gt_0)
      moreover have "fl + (fs + 1) * 2 = fl1" "(fs + 1) * 2 - 2 = fs * 2" using c(6,7) by (simp_all add: fl1_def)
      ultimately have "laplace_find (int d) fm (int i) fl (fs + 1) = laplace_find (int d) fm (int (i + 1)) fl1 (fs1 + 1)"
        by (subst laplace_find.simps) (simp only: c(6) Let_def fs1_def[symmetric] of_nat_add of_nat_1 simp_thms if_True)
      then show ?thesis using j(6)[OF that] by simp
    qed
    moreover have "unat fl \<le> unat fl'" using c(1) j(4) by simp
    ultimately show ?thesis using s j(1,2,3,5) by auto
  qed
qed

text \<open>The decoder stops for every number from the start on, and the encoder of a value that may be found there does as well.\<close>

lemma find_total:
  fixes fl fs :: u32
  assumes "lap_end d i (unat fl) (unat fs) = (I, E)" "E \<le> 32766" "d < 16384" "unat fl \<le> unat fm"
  shows "\<exists>j fl' fs'. laplace_find (int d) fm (int i) fl (fs + 1) = Some (int j, fl', fs' + 1) \<and> stop_ok I E j fl' fs' \<and>
    inside fm fl' fs' \<and> i \<le> j \<and>
    (\<forall>v. (if fs' = 0 then int j \<le> v else v = int j) \<longrightarrow> laplace_search (int d) v (int i) fl fs = (int j, fl', fs'))"
  using assms
proof (induction "unat fm - unat fl" arbitrary: i fl fs rule: less_induct)
  case less
  show ?case
  proof (cases "inside fm fl fs")
    case True
    have ok: "stop_ok I E i fl fs"
    proof (cases "fs = 0")
      case True
      then show ?thesis using less.prems(1) by (simp add: stop_ok_def lap_end.simps[of d i _ 0])
    next
      case False
      then show ?thesis using chain_words[OF less.prems(1-3) False] by (simp add: stop_ok_def)
    qed
    have "laplace_find (int d) fm (int i) fl (fs + 1) = Some (int i, fl, fs + 1)"
    proof (rule find_stop[OF refl])
      assume z: "fs \<noteq> 0"
      show "fm < fl + 2 * (fs + 1)"
        using True z unfolding inside_def word_less_nat_alt
        by (simp only: chain_words(6)[OF less.prems(1-3) z] chain_words(1)[OF less.prems(1-3) z]) simp
    qed
    moreover have "laplace_search (int d) v (int i) fl fs = (int i, fl, fs)" if "if fs = 0 then int i \<le> v else v = int i" for v
      using that by (subst laplace_search.simps) (auto split: if_splits)
    ultimately show ?thesis using ok True by blast
  next
    case False
    then have z: "fs \<noteq> 0" "unat fl + 2 * unat fs + 2 \<le> unat fm" using less.prems(4) by (auto simp: inside_def)
    note c = chain_words[OF less.prems(1-3) z(1)]
    define fl1 where "fl1 = fl + fs * 2 + 2"
    define fs1 :: u32 where "fs1 = drop_bit 15 (fs * 2 * word_of_int (int d))"
    note c = c[folded fl1_def fs1_def]
    have "fl1 \<le> fm" using z(2) c(1) by (simp add: word_le_nat_alt)
    moreover have "1 < fs + 1" using c(8) z(1) by (simp add: word_less_nat_alt unat_gt_0)
    moreover have "fl + (fs + 1) * 2 = fl1" "(fs + 1) * 2 - 2 = fs * 2" using c(6,7) by (simp_all add: fl1_def)
    ultimately have s: "laplace_find (int d) fm (int i) fl (fs + 1) = laplace_find (int d) fm (int (i + 1)) fl1 (fs1 + 1)"
      by (subst laplace_find.simps) (simp only: c(6) Let_def fs1_def[symmetric] of_nat_add of_nat_1 simp_thms if_True)
    have "unat fm - unat fl1 < unat fm - unat fl" "unat fl1 \<le> unat fm" using c(1) z by simp_all
    from less.hyps[OF this(1) c(3) less.prems(2,3) this(2)] obtain j fl' fs' where
      j: "laplace_find (int d) fm (int (i + 1)) fl1 (fs1 + 1) = Some (int j, fl', fs' + 1)" "stop_ok I E j fl' fs'" "inside fm fl' fs'" "i + 1 \<le> j"
      "\<And>v. (if fs' = 0 then int j \<le> v else v = int j) \<Longrightarrow> laplace_search (int d) v (int (i + 1)) fl1 fs1 = (int j, fl', fs')" by blast
    have "laplace_search (int d) v (int i) fl fs = (int j, fl', fs')" if v: "if fs' = 0 then int j \<le> v else v = int j" for v
    proof -
      have "int i < v" using v j(4) by (auto split: if_splits)
      then have "laplace_search (int d) v (int i) fl fs = laplace_search (int d) v (int (i + 1)) fl1 fs1"
        using z by (subst laplace_search.simps) (simp add: fl1_def fs1_def Let_def word_gt_0 ac_simps del: drop_bit_eq_div)
      then show ?thesis using j(5)[OF v] by simp
    qed
    then show ?thesis unfolding s using j(1-4) by (meson add_leD1)
  qed
qed

subsection \<open>The interval of a value\<close>

lemma sign_flip: "(v + (if v < 0 then - 1 else 0)) XOR (if v < 0 then - 1 else 0) = \<bar>v :: int\<bar>"
  "(a + - 1) XOR - 1 = - (a :: int)" "(a + 0) XOR 0 = (a :: int)"
  by (auto simp: not_int_def)

lemma sint_small: "e < 2 ^ 31 \<Longrightarrow> sint (word_of_nat e :: u32) = int e"
  by (simp add: signed_of_nat signed_take_bit_int_eq_self)

lemma word_nat: "word_of_nat (unat x) = (x :: u32)" by simp

text \<open>The decoder's side, from where its search stops.\<close>

lemma value_decay:
  assumes "laplace_find (int d) fm 1 fs (ec_laplace_get_freq1 fs (int d) + 1) = Some (int j, fl, w + 1)" "fs \<le> fm"
    "w \<noteq> 0" "unat fl + 2 * unat w + 2 \<le> 32768"
  shows "laplace_value fm fs (int d) = Some (if fm < fl + (w + 1) then (- int j, fl, w + 1) else (int j, fl + (w + 1), w + 1))"
proof -
  have "unat (w + 1) = unat w + 1" using assms(4) by (simp add: unat_add_small)
  then have "\<not> w + 1 \<le> 1" using assms(3) by (simp add: word_le_nat_alt unat_gt_0)
  then show ?thesis using assms(1,2) by (simp add: laplace_value_def)
qed

lemma value_flat:
  assumes "laplace_find (int d) fm 1 fs (ec_laplace_get_freq1 fs (int d) + 1) = Some (int j, fl, 0 + 1)" "fs \<le> fm"
    "unat fm = unat fl + 2 * e + b" "b < 2" "unat fm < 32768"
  shows "laplace_value fm fs (int d) = Some (if b = 0 then - int (j + e) else int (j + e), fm, 1)"
proof -
  have "unat (fm - fl) = 2 * e + b" using assms(3) by (simp add: unat_sub_le)
  then have e: "unat (drop_bit 1 (fm - fl)) = e" using assms(4) by (simp only: unat_drop) simp
  then have "drop_bit 1 (fm - fl) = (word_of_nat e :: u32)" by (metis word_nat)
  moreover have "sint (word_of_nat e :: u32) = int e" by (rule sint_small) (use assms(3,5) in simp)
  ultimately have s: "sint (drop_bit 1 (fm - fl)) = int e" by simp
  define fl2 where "fl2 = fl + word_of_int (2 * int e)"
  have w: "fm = fl2 + word_of_nat b"
  proof -
    have "fm = word_of_nat (unat fl + 2 * e + b)" using assms(3) by (metis word_nat)
    then show ?thesis by (simp add: fl2_def)
  qed
  have v: "laplace_value fm fs (int d) = Some (if fm < fl2 + 1 then (- int (j + e), fl2, 1) else (int (j + e), fl2 + 1, 1))"
    using assms(1,2) by (simp add: laplace_value_def s fl2_def del: drop_bit_eq_div One_nat_def)
  show ?thesis
  proof (cases "b = 0")
    case True
    have "unat (fm + 1) = unat fm + 1" using assms(5) by (simp add: unat_add_small)
    then have "fm < fm + 1" by (simp add: word_less_nat_alt)
    then show ?thesis unfolding v using w True by simp
  next
    case False
    then have "b = 1" using assms(4) by simp
    then show ?thesis unfolding v using w by simp
  qed
qed

text \<open>The encoder's side, from where its search stops.\<close>

lemma interval_decay:
  assumes "laplace_search (int d) \<bar>v\<bar> 1 fs (ec_laplace_get_freq1 fs (int d)) = (j, fl, r)" "v \<noteq> 0" "r \<noteq> 0"
  shows "laplace_interval v fs (int d) = (v, if v < 0 then fl else fl + (r + 1), r + 1)"
  unfolding laplace_interval_def using assms sign_flip(1)[of v] by (simp add: Let_def)

lemma interval_flat:
  assumes s: "laplace_search (int d) \<bar>v\<bar> 1 fs (ec_laplace_get_freq1 fs (int d)) = (int I, fl, 0)" and v: "v \<noteq> 0"
    and E: "unat fl = E" "E \<le> 32766" and I: "int I \<le> \<bar>v\<bar>"
  defines "b \<equiv> if v < 0 then 0 else 1 :: nat" and "e \<equiv> nat (min (\<bar>v\<bar> - int I) ((32769 - int E - of_bool (0 \<le> v)) div 2 - 1))"
  shows "laplace_interval v fs (int d) = (if v < 0 then - int (I + e) else int (I + e), word_of_nat (E + 2 * e + b), 1)"
    "E + 2 * e + b \<le> 32767" "e \<le> (32768 - E) div 2"
proof -
  define s where "s = (if v < 0 then - 1 else 0 :: int)"
  define n where "n = (32768 - int E - s) div 2"
  have "0 \<le> - s" "- s \<le> 1" "int E \<le> 32766" using E(2) by (simp_all add: s_def)
  then have n: "1 \<le> n" "2 * n + s \<le> 32768 - int E" unfolding n_def by presburger+
  have "n = (32769 - int E - of_bool (0 \<le> v)) div 2" by (simp add: n_def s_def)
  then have e: "min (\<bar>v\<bar> - int I) (n - 1) = int e" using n(1) I by (simp add: e_def)
  then have en: "int e \<le> n - 1" by linarith
  then have "2 * int e \<le> 32768 - int E" using n(2) \<open>- s \<le> 1\<close> by linarith
  then show "e \<le> (32768 - E) div 2" using E(2) by presburger
  from en show top: "E + 2 * e + b \<le> 32767" using n(2) by (auto simp: s_def b_def split: if_splits)
  have "unat (32768 - fl) = 32768 - E" using E by (simp add: unat_sub_le)
  then have "32768 - fl = word_of_nat (32768 - E)" by (metis word_nat)
  then have m: "sint (32768 - fl + 1 - 1) = 32768 - int E" using E(2) sint_small[of "32768 - E"] by (simp add: of_nat_diff)
  define lo where "lo = fl + word_of_int (2 * int e + 1 + s)"
  have sb: "1 + s = int b" by (simp add: s_def b_def)
  have "lo = word_of_nat (unat fl) + word_of_nat (2 * e + b)" unfolding lo_def add.assoc sb by simp
  then have lo: "lo = word_of_nat (E + 2 * e + b)" using E(1) by simp
  then have "unat lo = E + 2 * e + b" using unat_nat_u32[of "E + 2 * e + b"] top by simp
  then have "unat (1 :: u32) \<le> unat (32768 - lo)" using top by (simp add: unat_sub_le)
  then have one: "min 1 (32768 - lo) = 1" by (simp only: min_def word_le_nat_alt if_True)
  have "(int I + int e + s) XOR s = (if v < 0 then - int (I + e) else int (I + e))" by (simp add: s_def not_int_def)
  moreover have "laplace_interval v fs (int d) = ((int I + int e + s) XOR s, lo, 1)"
    unfolding laplace_interval_def s_def[symmetric] using v sign_flip(1)[of v, folded s_def]
    by (simp only: if_False Let_def s prod.case if_True m n_def[symmetric] e lo_def[symmetric] one simp_thms)
  ultimately show "laplace_interval v fs (int d) = (if v < 0 then - int (I + e) else int (I + e), word_of_nat (E + 2 * e + b), 1)"
    unfolding lo by simp
qed

text \<open>The interval of a value lies in the total, and every number in it gives the value that was coded.\<close>

lemma laplace_interval_ok:
  assumes ok: "laplace_ok (unat fs) d"
  shows "\<exists>v' fl w. laplace_interval v fs (int d) = (v', fl, w) \<and> 0 < unat w \<and> unat fl + unat w \<le> 32768 \<and>
    (\<bar>v\<bar> \<le> 16 \<longrightarrow> v' = v) \<and> \<bar>v'\<bar> \<le> 64 \<and>
    (\<forall>fm. unat fl \<le> unat fm \<and> unat fm < unat fl + unat w \<longrightarrow> laplace_value fm fs (int d) = Some (v', fl, w))"
proof (cases "v = 0")
  case True
  have "0 < unat fs" "unat fs \<le> 32768" using ok by (simp_all add: laplace_ok_def)
  then show ?thesis using True by (auto simp: laplace_interval_def laplace_value_def word_le_nat_alt)
next
  case False
  define f where "f = ec_laplace_get_freq1 fs (int d)"
  have fs: "unat fs \<le> 32736" "d < 16384" using ok by (simp_all add: laplace_ok_def)
  obtain I E where c: "lap_end d 1 (unat fs) (unat f) = (I, E)" by (rule prod.exhaust)
  then have E: "E \<le> 32766" "16 \<le> I - 1 + (32768 - E) div 2" "I + (32768 - E) div 2 \<le> 64"
    using ok first_step[OF fs] by (simp_all add: laplace_ok_def f_def)
  have I: "1 \<le> I" using lap_end_mono[OF c] by simp
  have "int 1 \<le> \<bar>v\<bar>" using False by simp
  from search_find[OF c E(1) fs(2) this] obtain j fl r where
    j: "laplace_search (int d) \<bar>v\<bar> 1 fs f = (int j, fl, r)" "stop_ok I E j fl r" "int j \<le> \<bar>v\<bar>" "unat fs \<le> unat fl"
      "r \<noteq> 0 \<longrightarrow> int j = \<bar>v\<bar>" "\<And>fm. inside fm fl r \<Longrightarrow> laplace_find (int d) fm 1 fs (f + 1) = Some (int j, fl, r + 1)"
    by auto
  have le: "fs \<le> fm" if "unat fl \<le> unat fm" for fm using that j(4) by (simp add: word_le_nat_alt)
  show ?thesis
  proof (cases "r = 0")
    case True
    have jI: "j = I" "unat fl = E" using True j(2) by (simp_all add: stop_ok_def)
    define b :: nat where "b = (if v < 0 then 0 else 1)"
    define e where "e = nat (min (\<bar>v\<bar> - int I) ((32769 - int E - of_bool (0 \<le> v)) div 2 - 1))"
    have s: "laplace_search (int d) \<bar>v\<bar> 1 fs (ec_laplace_get_freq1 fs (int d)) = (int I, fl, 0)" "int I \<le> \<bar>v\<bar>"
      using j(1,3) True jI(1) by (simp_all add: f_def)
    note i = interval_flat[OF s(1) False jI(2) E(1) s(2), folded b_def e_def]
    define lo :: u32 where "lo = word_of_nat (E + 2 * e + b)"
    have lo: "unat lo = E + 2 * e + b" unfolding lo_def using i(2) by (intro unat_nat_u32) simp
    define v' where "v' = (if v < 0 then - int (I + e) else int (I + e))"
    have "v' = v" if "\<bar>v\<bar> \<le> 16"
    proof -
      have "(32768 - int E) div 2 \<le> (32769 - int E - of_bool (0 \<le> v)) div 2" by (rule zdiv_mono1) simp_all
      moreover have "int ((32768 - E) div 2) = (32768 - int E) div 2" using E(1) by (simp add: of_nat_diff)
      ultimately have "\<bar>v\<bar> - int I \<le> (32769 - int E - of_bool (0 \<le> v)) div 2 - 1" using that E(2) I by linarith
      then have "int (I + e) = \<bar>v\<bar>" using s(2) by (simp add: e_def)
      then show ?thesis by (auto simp: v'_def)
    qed
    moreover have "laplace_value fm fs (int d) = Some (v', lo, 1)" if "unat lo \<le> unat fm" "unat fm < unat lo + unat (1 :: u32)" for fm
    proof -
      have fm: "fm = lo" using that by (intro word_unat_eq_iff[THEN iffD2]) simp
      have f1: "unat fl \<le> unat fm" "inside fm fl r" using lo jI(2) True by (simp_all add: fm inside_def)
      have "laplace_value fm fs (int d) = Some (if b = 0 then - int (I + e) else int (I + e), fm, 1)"
        by (rule value_flat[OF j(6)[OF f1(2), unfolded f_def True jI(1)] le[OF f1(1)]]) (use lo jI(2) i(2) in \<open>simp_all add: fm b_def\<close>)
      then show ?thesis by (simp add: fm v'_def b_def)
    qed
    moreover have "\<bar>v'\<bar> \<le> 64" using i(3) E(3) by (auto simp: v'_def)
    ultimately show ?thesis using i(1,2) lo by (auto simp: lo_def v'_def)
  next
    case r: False
    then have b: "unat fl + 2 * unat r + 2 \<le> 32766" using j(2) E(1) by (simp add: stop_ok_def)
    then have w: "unat (r + 1) = unat r + 1" "unat (fl + (r + 1)) = unat fl + unat r + 1" by (simp_all add: unat_add_small)
    define lo where "lo = (if v < 0 then fl else fl + (r + 1))"
    have i': "laplace_interval v fs (int d) = (v, lo, r + 1)"
      unfolding lo_def by (rule interval_decay[OF j(1)[unfolded f_def] False r])
    have "laplace_value fm fs (int d) = Some (v, lo, r + 1)" if "unat lo \<le> unat fm" "unat fm < unat lo + unat (r + 1)" for fm
    proof -
      have n: "inside fm fl r" "unat fl \<le> unat fm" "fm < fl + (r + 1) \<longleftrightarrow> v < 0"
        using that w by (auto simp: inside_def lo_def word_less_nat_alt split: if_splits)
      have "int j = \<bar>v\<bar>" using r j(5) by simp
      then show ?thesis
        using value_decay[OF j(6)[OF n(1), unfolded f_def] le[OF n(2)] r] b n(3) False by (simp add: lo_def)
    qed
    moreover have "unat lo + unat (r + 1) \<le> 32768" using b w by (simp add: lo_def)
    moreover have "\<bar>v\<bar> \<le> 64" using j(2,5) r E(3) by (simp add: stop_ok_def)
    ultimately show ?thesis using i' w by auto
  qed
qed

text \<open>Every number of the total is in the interval of the value it gives.\<close>

lemma laplace_value_ok:
  assumes ok: "laplace_ok (unat fs) d" and fm: "unat fm < 32768"
  shows "\<exists>v fl w. laplace_value fm fs (int d) = Some (v, fl, w) \<and> unat fl \<le> unat fm \<and> unat fm < unat fl + unat w \<and>
    unat fl + unat w \<le> 32768 \<and> laplace_interval v fs (int d) = (v, fl, w)"
proof (cases "fs \<le> fm")
  case False
  have "unat fs \<le> 32768" using ok by (simp add: laplace_ok_def)
  moreover have "laplace_value fm fs (int d) = Some (0, 0, fs)" "laplace_interval 0 fs (int d) = (0, 0, fs)"
    using False by (simp_all add: laplace_value_def laplace_interval_def)
  moreover have "unat fm < unat fs" using False by (simp add: word_le_nat_alt)
  ultimately show ?thesis by auto
next
  case le: True
  define f where "f = ec_laplace_get_freq1 fs (int d)"
  have fs: "unat fs \<le> 32736" "d < 16384" using ok by (simp_all add: laplace_ok_def)
  obtain I E where c: "lap_end d 1 (unat fs) (unat f) = (I, E)" by (rule prod.exhaust)
  then have E: "E \<le> 32766" using ok first_step[OF fs] by (simp add: laplace_ok_def f_def)
  have "unat fs \<le> unat fm" using le by (simp add: word_le_nat_alt)
  from find_total[OF c E fs(2) this] obtain j fl r where
    j: "laplace_find (int d) fm 1 fs (f + 1) = Some (int j, fl, r + 1)" "stop_ok I E j fl r" "inside fm fl r" "1 \<le> j"
      "\<And>v. (if r = 0 then int j \<le> v else v = int j) \<Longrightarrow> laplace_search (int d) v 1 fs f = (int j, fl, r)" by auto
  show ?thesis
  proof (cases "r = 0")
    case True
    have jI: "j = I" "unat fl = E" using True j(2) by (simp_all add: stop_ok_def)
    define e b where "e = (unat fm - E) div 2" and "b = (unat fm - E) mod 2"
    have be: "unat fm = unat fl + 2 * e + b" "b < 2" using j(3) jI(2) by (simp_all add: e_def b_def inside_def)
    define v where "v = (if b = 0 then - int (j + e) else int (j + e))"
    have v: "laplace_value fm fs (int d) = Some (v, fm, 1)"
      unfolding v_def by (rule value_flat[OF j(1)[unfolded f_def True] le be fm])
    have v0: "v \<noteq> 0" "\<bar>v\<bar> = int (I + e)" "v < 0 \<longleftrightarrow> b = 0" using j(4) jI(1) by (auto simp: v_def)
    then have s: "laplace_search (int d) \<bar>v\<bar> 1 fs (ec_laplace_get_freq1 fs (int d)) = (int I, fl, 0)" "int I \<le> \<bar>v\<bar>"
      using j(5)[of "\<bar>v\<bar>"] True jI(1) by (simp_all add: f_def)
    have vb: "b = (if v < 0 then 0 else 1)" using v0(3) be(2) by auto
    then have "int (2 * e) + 2 \<le> 32769 - int E - of_bool (0 \<le> v)" using be(1) jI(2) fm by (auto split: if_splits)
    then have ne: "nat (min (\<bar>v\<bar> - int I) ((32769 - int E - of_bool (0 \<le> v)) div 2 - 1)) = e" using v0(2) by simp
    have sv: "(if v < 0 then - int (I + e) else int (I + e)) = v" using v0(3) jI(1) by (simp add: v_def)
    have "laplace_interval v fs (int d) = (v, word_of_nat (E + 2 * e + b), 1)"
      using interval_flat(1)[OF s(1) v0(1) jI(2) E s(2)] by (simp only: ne vb[symmetric] sv)
    moreover have "word_of_nat (E + 2 * e + b) = fm" using be(1) jI(2) by (metis word_nat)
    ultimately show ?thesis using v fm by auto
  next
    case r: False
    then have b: "unat fl + 2 * unat r + 2 \<le> 32766" using j(2) E by (simp add: stop_ok_def)
    then have w: "unat (r + 1) = unat r + 1" "unat (fl + (r + 1)) = unat fl + unat r + 1" by (simp_all add: unat_add_small)
    define v where "v = (if fm < fl + (r + 1) then - int j else int j)"
    have v: "laplace_value fm fs (int d) = Some (v, if v < 0 then fl else fl + (r + 1), r + 1)"
      using value_decay[OF j(1)[unfolded f_def] le r] b j(4) by (simp add: v_def)
    have v0: "v \<noteq> 0" "\<bar>v\<bar> = int j" using j(4) by (auto simp: v_def)
    have "laplace_search (int d) \<bar>v\<bar> 1 fs (ec_laplace_get_freq1 fs (int d)) = (int j, fl, r)"
      using j(5)[of "\<bar>v\<bar>"] r v0(2) by (simp add: f_def)
    note i = interval_decay[OF this v0(1) r]
    have "unat fm < unat fl + 2 * unat r + 2" "unat fl \<le> unat fm" using j(3) r by (simp_all add: inside_def)
    then show ?thesis using i v w b j(4) by (auto simp: v_def word_less_nat_alt)
  qed
qed

subsection \<open>The models of the coarse energy (opus/celt/quant_bands.c)\<close>

text \<open>By frame size, prediction (inter, intra) and band: the probability of 0 and the decay, in Q8.\<close>

definition e_prob_model :: "byte list list list" where
  "e_prob_model = [
    [[72, 127, 65, 129, 66, 128, 65, 128, 64, 128, 62, 128, 64, 128, 64, 128, 92, 78, 92, 79, 92,
      78, 90, 79, 116, 41, 115, 40, 114, 40, 132, 26, 132, 26, 145, 17, 161, 12, 176, 10, 177, 11],
     [24, 179, 48, 138, 54, 135, 54, 132, 53, 134, 56, 133, 55, 132, 55, 132, 61, 114, 70, 96, 74,
      88, 75, 88, 87, 74, 89, 66, 91, 67, 100, 59, 108, 50, 120, 40, 122, 37, 97, 43, 78, 50]],
    [[83, 78, 84, 81, 88, 75, 86, 74, 87, 71, 90, 73, 93, 74, 93, 74, 109, 40, 114, 36, 117,
      34, 117, 34, 143, 17, 145, 18, 146, 19, 162, 12, 165, 10, 178, 7, 189, 6, 190, 8, 177, 9],
     [23, 178, 54, 115, 63, 102, 66, 98, 69, 99, 74, 89, 71, 91, 73, 91, 78, 89, 86, 80, 92,
      66, 93, 64, 102, 59, 103, 60, 104, 60, 117, 52, 123, 44, 138, 35, 133, 31, 97, 38, 77, 45]],
    [[61, 90, 93, 60, 105, 42, 107, 41, 110, 45, 116, 38, 113, 38, 112, 38, 124, 26, 132, 27, 136,
      19, 140, 20, 155, 14, 159, 16, 158, 18, 170, 13, 177, 10, 187, 8, 192, 6, 175, 9, 159, 10],
     [21, 178, 59, 110, 71, 86, 75, 85, 84, 83, 91, 66, 88, 73, 87, 72, 92, 75, 98, 72, 105,
      58, 107, 54, 115, 52, 114, 55, 112, 56, 129, 51, 132, 40, 150, 33, 140, 29, 98, 35, 77, 42]],
    [[42, 121, 96, 66, 108, 43, 111, 40, 117, 44, 123, 32, 120, 36, 119, 33, 127, 33, 134, 34, 139,
      21, 147, 23, 152, 20, 158, 25, 154, 26, 166, 21, 173, 16, 184, 13, 184, 10, 150, 13, 139, 15],
     [22, 178, 63, 114, 74, 82, 84, 83, 92, 82, 103, 62, 96, 72, 96, 67, 101, 73, 107, 72, 113,
      55, 118, 52, 125, 52, 118, 52, 117, 55, 135, 49, 137, 39, 157, 32, 145, 29, 97, 33, 77, 40]]]"

fun models_ok :: "nat list \<Rightarrow> bool" where
  "models_ok (p # q # r) = (laplace_ok (p * 128) (q * 64) \<and> models_ok r)"
| "models_ok r = (r = [])"

lemma e_prob_model_ok: "\<forall>t \<in> set e_prob_model. length t = 2 \<and> (\<forall>m \<in> set t. length m = 42 \<and> models_ok (map unat m))"
  by (simp add: e_prob_model_def laplace_ok_def lap_end.simps)

subsection \<open>Pulse vectors are transmitted\<close>

lemma V_more: "pvq_ok n k \<Longrightarrow> 0 < k \<Longrightarrow> 1 < V n k"
proof -
  assume a: "pvq_ok n k" "0 < k"
  then have n: "0 < n" by (simp add: pvq_ok_def)
  have "U n 1 = 1" using n by (simp add: U_sym[of n])
  then show ?thesis using U_mono[OF n, of 1 k] U_mono[OF n, of 1 "Suc k"] a(2) by (simp add: V_def)
qed

lemma pulses_transmit:
  assumes "pvq_ok n k" "0 < k" "y \<in> pulse_vectors n k"
  shows "transmits (encode_pulses y n k) (decode_pulses n k) (\<lambda>r. r = (y, sum_squares y))"
proof -
  let ?i = "word_of_nat (index_of y) :: u32" and ?v = "word_of_nat (V n k) :: u32"
  have v: "V n k < 2 ^ 32" "1 < V n k" using assms(1) V_more[OF assms(1,2)] by (simp_all add: pvq_ok_def)
  have "index_of y < V n k" using index_less[of y] assms(3) by (simp add: pulse_vectors_def)
  then have "1 < ?v" "?i < ?v" using v unat_nat_u32[of "V n k"] unat_nat_u32[of "index_of y"] by (simp_all add: word_less_nat_alt)
  from uint_transmits[OF this] have t: "transmits (ec_enc_uint ?i ?v) (ec_dec_uint ?v) (\<lambda>w. w = ?i)" .
  note y = cwrsi_icwrs[OF assms(1,3)] CELT_V[OF assms(1)]
  have "encode_pulses y n k = ec_enc_uint ?i ?v" by (simp add: fun_eq_iff encode_pulses_def y)
  then show ?thesis using transmits_get[OF t, of "decode_pulses n k" "\<lambda>r. r = (y, sum_squares y)"]
    by (simp add: decode_pulses_def y)
qed

text \<open>Both builds send and read the same.\<close>

lemma pulses_small_same:
  assumes "pvq_ok n k" "0 < k" "length u = k + 2"
  shows "y \<in> pulse_vectors n k \<Longrightarrow> encode_pulses_small u y n k = encode_pulses y n k"
    and "dec_wf d \<Longrightarrow> decode_pulses_small u n k d = decode_pulses n k d"
proof -
  show "encode_pulses_small u y n k = encode_pulses y n k" if "y \<in> pulse_vectors n k"
    using icwrs_small_same[OF assms(1,3) that]
    by (auto simp: fun_eq_iff encode_pulses_small_def encode_pulses_def split: bind_splits)
  let ?v = "word_of_nat (V n k) :: u32"
  assume d: "dec_wf d"
  have "1 < ?v" using assms(1) V_more[OF assms(1,2)] unat_nat_u32[of "V n k"] by (simp add: pvq_ok_def word_less_nat_alt)
  from uint_reads[OF this] obtain i d' where i: "ec_dec_uint ?v d = Some (i, d')" "i < ?v" using d unfolding reads_def by blast
  then show "decode_pulses_small u n k d = decode_pulses n k d"
    using cwrsi_small_same[OF assms] CELT_V[OF assms(1)] by (auto simp: decode_pulses_small_def decode_pulses_def)
qed

text \<open>Decoding any bytes gives a vector of the band.\<close>

lemma pulses_read:
  assumes "pvq_ok n k" "0 < k"
  shows "reads (decode_pulses n k) (\<lambda>(y, yy). y \<in> pulse_vectors n k \<and> yy = sum_squares y)"
proof -
  let ?v = "word_of_nat (V n k) :: u32"
  have v: "unat ?v = V n k" using assms(1) unat_nat_u32[of "V n k"] by (simp add: pvq_ok_def)
  then have "1 < ?v" using V_more[OF assms] by (simp add: word_less_nat_alt)
  note u = uint_reads[OF this]
  show ?thesis unfolding reads_def
  proof (intro allI impI)
    fix d assume "dec_wf d"
    then obtain i d' where i: "ec_dec_uint ?v d = Some (i, d')" "i < ?v" "dec_wf d'" "ec_buf d' = ec_buf d"
      using u unfolding reads_def by blast
    have "unat i < V n k" using i(2) v by (simp add: word_less_nat_alt)
    then obtain y where "cwrsi n k i = Some (y, sum_squares y)" "y \<in> pulse_vectors n k" using cwrsi_index[OF assms(1)] by blast
    then show "\<exists>r d'. decode_pulses n k d = Some (r, d') \<and> (case r of (y, yy) \<Rightarrow> y \<in> pulse_vectors n k \<and> yy = sum_squares y) \<and>
        dec_wf d' \<and> ec_buf d' = ec_buf d"
      using i CELT_V[OF assms(1)] by (auto simp: decode_pulses_def)
  qed
qed

subsection \<open>Laplace symbols are transmitted\<close>

lemma transmits_value:
  assumes "transmits put get (\<lambda>w. w = v)"
  shows "carries s (\<lambda>s. map_option (Pair v) (put s)) get (=)"
proof -
  have "(\<lambda>w. w = v) = (=) v" by auto
  then show ?thesis using assms unfolding transmits_def carries_def by auto
qed

lemma laplace_transmits:
  assumes "laplace_ok (unat fs) d"
  shows "carries s (ec_laplace_encode v fs (int d)) (ec_laplace_decode fs (int d)) (=)"
    and "ec_laplace_encode v fs (int d) s = Some (a, s') \<Longrightarrow> \<bar>v\<bar> \<le> 16 \<Longrightarrow> a = v"
    and "ec_laplace_encode v fs (int d) s = Some (a, s') \<Longrightarrow> \<bar>a\<bar> \<le> 64"
proof -
  obtain v' fl w where i: "laplace_interval v fs (int d) = (v', fl, w)" "0 < unat w" "unat fl + unat w \<le> 32768" "\<bar>v\<bar> \<le> 16 \<Longrightarrow> v' = v" "\<bar>v'\<bar> \<le> 64"
    "\<And>fm. unat fl \<le> unat fm \<and> unat fm < unat fl + unat w \<Longrightarrow> laplace_value fm fs (int d) = Some (v', fl, w)"
    using laplace_interval_ok[OF assms, of v] by blast
  let ?x = "(fl, fl + w, 2 ^ 15 :: u32)"
  have w: "unat (fl + w) = unat fl + unat w" "unat (2 ^ 15 :: u32) = 32768" using i(3) by (simp_all add: unat_add_small)
  then have "freq_valid ?x" using i(2,3) by (simp add: freq_valid_def word_less_nat_alt word_le_nat_alt)
  from freq.transmits[OF this] have t: "transmits (enc_freq ?x) (dec_freq ?x) (freq_agrees ?x)" .
  have p: "push_bit 15 1 = (2 ^ 15 :: u32)" by simp
  have put: "enc_freq ?x = (\<lambda>s. ec_encode_bin fl (fl + w) 15 s)"
    by (simp only: fun_eq_iff enc_freq_def prod.case bin_is_freq(1)[of 15, simplified] p) simp
  have m: "min (fl + w) 32768 = fl + w" using w i(3) by (simp add: min_def word_le_nat_alt)
  have "transmits (\<lambda>s. ec_encode_bin fl (fl + w) 15 s) (ec_laplace_decode fs (int d)) (\<lambda>u. u = v')"
  proof (rule transmits_get[OF t[unfolded put]])
    fix e f e' assume g: "dec_freq ?x e = Some (f, e')" "freq_agrees ?x f"
    have "laplace_value f fs (int d) = Some (v', fl, w)"
      by (rule i(6)) (use g(2) w in \<open>simp add: freq_agrees_def word_less_nat_alt word_le_nat_alt\<close>)
    then show "\<exists>u. ec_laplace_decode fs (int d) e = Some (u, e') \<and> u = v'"
      using g(1) bin_is_freq(2)[of 15 e] unfolding p
      by (auto simp: dec_freq_def ec_laplace_decode_def m Let_def split: prod.splits)
  qed
  from transmits_value[OF this] show "carries s (ec_laplace_encode v fs (int d)) (ec_laplace_decode fs (int d)) (=)"
    by (simp only: ec_laplace_encode_def[abs_def] i(1) Let_def prod.case)
  show "ec_laplace_encode v fs (int d) s = Some (a, s') \<Longrightarrow> \<bar>v\<bar> \<le> 16 \<Longrightarrow> a = v"
    using i(4) by (auto simp: ec_laplace_encode_def i(1))
  show "ec_laplace_encode v fs (int d) s = Some (a, s') \<Longrightarrow> \<bar>a\<bar> \<le> 64"
    using i(5) by (auto simp: ec_laplace_encode_def i(1))
qed

lemma models_ok_at:
  assumes "models_ok xs" "2 * j + 1 < length xs"
  shows "laplace_ok (xs ! (2 * j) * 128) (xs ! (2 * j + 1) * 64)"
  using assms
proof (induction xs arbitrary: j rule: models_ok.induct)
  case (1 p q r)
  then show ?case by (cases j) simp_all
qed simp_all

lemma table_model_ok:
  assumes "LM < 4" "intra < 2" "j < 21"
  shows "laplace_ok (unat (e_prob_model ! LM ! intra ! (2 * j)) * 128) (unat (e_prob_model ! LM ! intra ! (2 * j + 1)) * 64)"
proof -
  have "length e_prob_model = 4" by (simp add: e_prob_model_def)
  then have t: "e_prob_model ! LM \<in> set e_prob_model" using assms(1) by simp
  moreover then have "length (e_prob_model ! LM) = 2" using e_prob_model_ok by blast
  then have "e_prob_model ! LM ! intra \<in> set (e_prob_model ! LM)" using assms(2) by simp
  ultimately have "length (e_prob_model ! LM ! intra) = 42" "models_ok (map unat (e_prob_model ! LM ! intra))"
    using e_prob_model_ok by blast+
  then show ?thesis using models_ok_at[of "map unat (e_prob_model ! LM ! intra)" j] assms(3) by simp
qed

lemma prob_word: "unat (push_bit 7 (ucast (p :: byte)) :: u32) = unat p * 128"
proof -
  have "unat p < 2 ^ 8" using unsigned_less[of p, where ?'a = nat] by simp
  moreover then have "unat (ucast p :: u32) = unat p" by (simp add: unsigned_ucast_eq take_bit_nat_eq_self)
  ultimately show ?thesis by (simp add: unat_mult_small push_bit_eq_mult)
qed

lemma laplace_reads:
  assumes "laplace_ok (unat fs) d"
  shows "reads (ec_laplace_decode fs (int d)) (\<lambda>v. \<bar>v\<bar> \<le> 64)"
  unfolding reads_def
proof (intro allI impI)
  fix e assume e: "dec_wf e"
  have p: "push_bit 15 1 = (32768 :: u32)" by simp
  obtain f e1 where f: "ec_decode 32768 e = (f, e1)" by (rule prod.exhaust)
  have ft: "0 < unat (32768 :: u32)" "unat (32768 :: u32) \<le> 2 ^ 23" by simp_all
  note dr = decode_reads[OF ft e f]
  have "unat f < 32768" using dr(1) by (simp add: word_less_nat_alt)
  from laplace_value_ok[OF assms this] obtain v fl w where v: "laplace_value f fs (int d) = Some (v, fl, w)" "unat fl \<le> unat f"
    "unat f < unat fl + unat w" "unat fl + unat w \<le> 32768" "laplace_interval v fs (int d) = (v, fl, w)" by blast
  then have w: "unat (fl + w) = unat fl + unat w" by (simp add: unat_add_small)
  then have m: "min (fl + w) 32768 = fl + w" "fl \<le> f" "f < fl + w" "fl + w \<le> 32768"
    using v by (simp_all add: min_def word_le_nat_alt word_less_nat_alt)
  obtain e2 where "ec_dec_update fl (fl + w) 32768 e1 = Some e2" "dec_wf e2" "ec_buf e2 = ec_buf e" using dr(2)[OF m(2-4)] by blast
  then show "\<exists>v d'. ec_laplace_decode fs (int d) e = Some (v, d') \<and> \<bar>v\<bar> \<le> 64 \<and> dec_wf d' \<and> ec_buf d' = ec_buf e"
    using laplace_interval_ok[OF assms, of v] v(1,5) f m(1) bin_is_freq(2)[of 15 e] unfolding p by (simp add: ec_laplace_decode_def)
qed

text \<open>
  C21: In every model of the coarse energy (frame size, prediction, band) the Laplace symbols partition the 32768 parts of the
  range: each value has an interval that is not empty and lies inside, every number of it is decoded to the value the
  encoder reports, which is at most 64 and is the value itself up to 16 on both sides, and every number below 32768 is in the interval of
  the value it is decoded to. The searches of both sides end, and no sum wraps.
\<close>

theorem laplace_intervals_partition:
  assumes "LM < 4" "intra < 2" "j < 21" and "fs = push_bit 7 (ucast (e_prob_model ! LM ! intra ! (2 * j)))"
    and "d = int (unat (e_prob_model ! LM ! intra ! (2 * j + 1))) * 64"
  shows "(\<forall>v. \<exists>v' fl w. laplace_interval v fs d = (v', fl, w) \<and> 0 < unat w \<and> unat fl + unat w \<le> 32768 \<and> (\<bar>v\<bar> \<le> 16 \<longrightarrow> v' = v) \<and> \<bar>v'\<bar> \<le> 64 \<and>
      (\<forall>fm. unat fl \<le> unat fm \<and> unat fm < unat fl + unat w \<longrightarrow> laplace_value fm fs d = Some (v', fl, w)))
    \<and> (\<forall>fm. unat fm < 32768 \<longrightarrow> (\<exists>v fl w. laplace_value fm fs d = Some (v, fl, w) \<and> unat fl \<le> unat fm \<and> unat fm < unat fl + unat w \<and>
      unat fl + unat w \<le> 32768 \<and> laplace_interval v fs d = (v, fl, w)))"
proof -
  let ?q = "unat (e_prob_model ! LM ! intra ! (2 * j + 1)) * 64"
  have ok: "laplace_ok (unat fs) ?q" unfolding assms(4) prob_word by (rule table_model_ok[OF assms(1-3)])
  have d: "d = int ?q" unfolding assms(5) by simp
  show ?thesis unfolding d using laplace_interval_ok[OF ok] laplace_value_ok[OF ok] by blast
qed

lemma laplace_intervals_partition_witness:
  "(\<exists>v' fl w. laplace_interval (- 16) 9856 2560 = (v', fl, w) \<and> v' = - 16) \<and> (\<exists>v fl w. laplace_value 32767 9856 2560 = Some (v, fl, w))"
proof -
  have m: "(9856 :: u32) = push_bit 7 (ucast (e_prob_model ! 3 ! 1 ! (2 * 20)))" "2560 = int (unat (e_prob_model ! 3 ! 1 ! (2 * 20 + 1))) * 64"
    by (simp_all add: e_prob_model_def push_bit_eq_mult)
  show ?thesis
    using laplace_intervals_partition[OF _ _ _ m]
    by (auto dest!: spec[of _ "- 16 :: int"] dest: spec[of _ "32767 :: u32"])
qed

end
