(* ===== verification/Celtenergy.thy ===== *)
theory Celtenergy
  imports Laplace
begin

section \<open>Band energies in the stream (opus/celt/quant_bands.c)\<close>

text \<open>
  The coarse energy, its fine resolution and the last bits, on both sides, in the fixed-point build (\<open>FIXED_POINT\<close>):
  \<open>opus_val16\<close> and \<open>opus_val32\<close> are signed integers, read as \<open>int\<close>, reduced to their width where the code casts or
  stores. A sum of 32-bit numbers that may overflow is \<open>i32\<close>; the others fit by the widths of their operands. \<open>None\<close> is
  an access outside an array or an overflow. What the code passes as \<open>m->nbEBands\<close> is \<open>nb\<close>.
\<close>

subsection \<open>Arithmetic (opus/celt/fixed_generic.h)\<close>

definition s16 :: "int \<Rightarrow> int" where
  "s16 x = sint (word_of_int x :: 16 word)"

definition s32 :: "int \<Rightarrow> int" where
  "s32 x = sint (word_of_int x :: 32 word)"

definition MULT16_16 :: "int \<Rightarrow> int \<Rightarrow> int" where
  "MULT16_16 a b = s16 a * s16 b"

definition SHL16 :: "int \<Rightarrow> nat \<Rightarrow> int" where
  "SHL16 a n = s16 (a * 2 ^ n)"

definition SHL32 :: "int \<Rightarrow> nat \<Rightarrow> int" where
  "SHL32 a n = s32 (a * 2 ^ n)"

definition SHR :: "int \<Rightarrow> nat \<Rightarrow> int" where
  "SHR a n = a div 2 ^ n"

definition PSHR32 :: "int \<Rightarrow> nat \<Rightarrow> int" where
  "PSHR32 a n = SHR (a + 2 ^ n div 2) n"

definition i32 :: "int \<Rightarrow> int option" where
  "i32 x = (if - (2 ^ 31) \<le> x \<and> x < 2 ^ 31 then Some x else None)"

definition elem :: "'a list \<Rightarrow> nat \<Rightarrow> 'a option" where
  "elem xs k = (if k < length xs then Some (xs ! k) else None)"

definition store :: "'a list \<Rightarrow> nat \<Rightarrow> 'a \<Rightarrow> 'a list option" where
  "store xs k x = (if k < length xs then Some (xs[k := x]) else None)"

subsection \<open>The loops\<close>

text \<open>\<open>for(;i<fin;i++){ c=0; do { .. } while (++c < C); }\<close>, from the channel \<open>c\<close> of the band \<open>i\<close>.\<close>

function band_loop :: "(nat \<Rightarrow> nat \<Rightarrow> 'a \<Rightarrow> ec_ctx \<Rightarrow> ('a \<times> ec_ctx) option) \<Rightarrow> nat \<Rightarrow> nat \<Rightarrow> nat \<Rightarrow> nat \<Rightarrow> 'a \<Rightarrow> ec_ctx \<Rightarrow>
    ('a \<times> ec_ctx) option" where
  "band_loop body fin C i c st s = (if i < fin then do {
       (st, s) \<leftarrow> body i c st s;
       if c + 1 < C then band_loop body fin C i (c + 1) st s else band_loop body fin C (i + 1) 0 st s
     } else Some (st, s))"
  by auto
termination by (relation "measures [\<lambda>(b, fin, C, i, _). fin - i, \<lambda>(b, fin, C, i, c, _). C - c]") auto

declare band_loop.simps [simp del]

subsection \<open>The coarse energy\<close>

text \<open>\<open>pred_coef\<close>, \<open>beta_coef\<close> by frame size, \<open>beta_intra\<close>; the inverse table of \<open>-1..1\<close>.\<close>

definition pred_coef :: "int list" where "pred_coef = [29440, 26112, 21248, 16384]"

definition beta_coef :: "int list" where "beta_coef = [30147, 22282, 12124, 6554]"

definition beta_intra :: int where "beta_intra = 4915"

definition small_energy_icdf :: "byte list" where "small_energy_icdf = [2, 1, 0]"

definition coarse_coefs :: "nat \<Rightarrow> bool \<Rightarrow> (int \<times> int) option" where
  "coarse_coefs LM intra = (if intra then Some (0, beta_intra)
     else do { beta \<leftarrow> elem beta_coef LM; coef \<leftarrow> elem pred_coef LM; Some (coef, beta) })"

text \<open>The change of energy \<open>f\<close> that is wanted and its number of steps, which may not fall too quickly.\<close>

definition coarse_pick :: "int \<Rightarrow> int \<Rightarrow> int \<Rightarrow> int \<Rightarrow> int \<Rightarrow> int \<Rightarrow> (int \<times> int) option" where
  "coarse_pick coef max_decay x old oldE prev = do {
     f \<leftarrow> i32 (SHL32 x 7 - PSHR32 (MULT16_16 coef oldE) 8);
     f \<leftarrow> i32 (f - prev);
     r \<leftarrow> i32 (f + 65536);
     let qi = SHR r 17;
     let decay_bound = s16 (max (- 28672) (old - max_decay));
     let qi = (if qi < 0 \<and> x < decay_bound then
       let qi = qi + SHR (s16 decay_bound - s16 x) 10 in if qi > 0 then 0 else qi else qi);
     Some (f, qi)
   }"

text \<open>Fewer steps when few bits are left.\<close>

definition coarse_limit :: "nat \<Rightarrow> nat \<Rightarrow> int \<Rightarrow> bool \<Rightarrow> int \<Rightarrow> int" where
  "coarse_limit i start bits_left lfe qi = (let
     qi = (if i \<noteq> start \<and> bits_left < 30 then
       let qi = (if bits_left < 24 then min 1 qi else qi) in if bits_left < 16 then max (- 1) qi else qi else qi)
   in if lfe \<and> i \<ge> 2 then min qi 0 else qi)"

text \<open>The symbol of a number of steps, by the number of bits left, and the number that is coded.\<close>

definition put_qi :: "byte list \<Rightarrow> nat \<Rightarrow> int \<Rightarrow> int \<Rightarrow> ec_ctx \<Rightarrow> (int \<times> ec_ctx) option" where
  "put_qi prob_model i left qi enc =
     (if left \<ge> 15 then do {
        let pi = 2 * min i 20;
        p \<leftarrow> elem prob_model pi;
        q \<leftarrow> elem prob_model (pi + 1);
        ec_laplace_encode qi (push_bit 7 (ucast p)) (int (unat q) * 64) enc
      }
      else if left \<ge> 2 then let qi = max (- 1) (min qi 1)
        in map_option (Pair qi) (ec_enc_icdf (nat ((2 * qi) XOR (if qi < 0 then - 1 else 0))) small_energy_icdf 2 enc)
      else if left \<ge> 1 then let qi = min 0 qi in map_option (Pair qi) (ec_enc_bit_logp (- qi \<noteq> 0) 1 enc)
      else Some (- 1, enc))"

definition get_qi :: "byte list \<Rightarrow> nat \<Rightarrow> int \<Rightarrow> ec_ctx \<Rightarrow> (int \<times> ec_ctx) option" where
  "get_qi prob_model i left dec =
     (if left \<ge> 15 then do {
        let pi = 2 * min i 20;
        p \<leftarrow> elem prob_model pi;
        q \<leftarrow> elem prob_model (pi + 1);
        ec_laplace_decode (push_bit 7 (ucast p)) (int (unat q) * 64) dec
      }
      else if left \<ge> 2 then do {
        (v, dec) \<leftarrow> ec_dec_icdf small_energy_icdf 2 dec;
        Some (SHR (int v) 1 XOR - (int v AND 1), dec)
      }
      else if left \<ge> 1 then do { (b, dec) \<leftarrow> ec_dec_bit_logp 1 dec; Some (- of_bool b, dec) }
      else Some (- 1, dec))"

text \<open>The energy and the prediction after a step of \<open>qi\<close>.\<close>

definition coarse_update :: "int \<Rightarrow> int \<Rightarrow> int \<Rightarrow> int \<Rightarrow> int \<Rightarrow> (int \<times> int) option" where
  "coarse_update coef beta oldE prev qi = do {
     let q = SHL32 qi 10;
     tmp \<leftarrow> i32 (PSHR32 (MULT16_16 coef oldE) 8 + prev);
     tmp \<leftarrow> i32 (tmp + SHL32 q 7);
     r \<leftarrow> i32 (max (- 3670016) tmp + 64);
     p \<leftarrow> i32 (prev + SHL32 q 7);
     p \<leftarrow> i32 (p - MULT16_16 beta (PSHR32 q 8));
     Some (s16 (SHR r 7), p)
   }"

text \<open>What the loops of both sides use, what the encoder's uses beside it, and what the encoder's changes.\<close>

record coarse_args =
  q_nb :: nat
  q_end :: nat
  q_budget :: int
  q_prob :: "byte list"
  q_C :: nat
  q_coef :: int
  q_beta :: int

record coarse_input = coarse_args +
  q_start :: nat
  q_bands :: "int list"
  q_decay :: int
  q_lfe :: bool

record coarse =
  c_old :: "int list"
  c_prev :: "int list"
  c_error :: "int list"
  c_badness :: int

definition quant_step :: "coarse_input \<Rightarrow> nat \<Rightarrow> nat \<Rightarrow> coarse \<Rightarrow> ec_ctx \<Rightarrow> (coarse \<times> ec_ctx) option" where
  "quant_step a i c st enc = do {
     let k = i + c * q_nb a;
     x \<leftarrow> elem (q_bands a) k;
     old \<leftarrow> elem (c_old st) k;
     prev \<leftarrow> elem (c_prev st) c;
     let oldE = max (- 9216) old;
     (f, qi0) \<leftarrow> coarse_pick (q_coef a) (q_decay a) x old oldE prev;
     let left = q_budget a - ec_tell enc;
     let qi = coarse_limit i (q_start a) (left - 3 * int (q_C a * (q_end a - i))) (q_lfe a) qi0;
     (qi, enc) \<leftarrow> put_qi (q_prob a) i left qi enc;
     error \<leftarrow> store (c_error st) k (s16 (PSHR32 f 7 - SHL16 qi 10));
     (e, p) \<leftarrow> coarse_update (q_coef a) (q_beta a) oldE prev qi;
     olds \<leftarrow> store (c_old st) k e;
     prevs \<leftarrow> store (c_prev st) c p;
     badness \<leftarrow> i32 (c_badness st + \<bar>qi0 - qi\<bar>);
     Some (\<lparr>c_old = olds, c_prev = prevs, c_error = error, c_badness = badness\<rparr>, enc)
   }"

definition quant_coarse_energy_impl :: "nat \<Rightarrow> nat \<Rightarrow> nat \<Rightarrow> int list \<Rightarrow> int list \<Rightarrow> int \<Rightarrow> int \<Rightarrow> byte list \<Rightarrow> int list \<Rightarrow> nat \<Rightarrow>
    nat \<Rightarrow> bool \<Rightarrow> int \<Rightarrow> bool \<Rightarrow> ec_ctx \<Rightarrow> ((int list \<times> int list \<times> int) \<times> ec_ctx) option" where
  "quant_coarse_energy_impl nb start fin eBands oldEBands budget tell prob_model error C LM intra max_decay lfe enc = do {
     enc \<leftarrow> (if tell + 3 \<le> budget then ec_enc_bit_logp intra 3 enc else Some enc);
     (coef, beta) \<leftarrow> coarse_coefs LM intra;
     let a = \<lparr>q_nb = nb, q_end = fin, q_budget = budget, q_prob = prob_model, q_C = C, q_coef = coef,
         q_beta = beta, q_start = start, q_bands = eBands, q_decay = max_decay, q_lfe = lfe\<rparr>;
     (st, enc) \<leftarrow> band_loop (quant_step a) fin C start 0 \<lparr>c_old = oldEBands, c_prev = [0, 0], c_error = error, c_badness = 0\<rparr> enc;
     Some ((c_old st, c_error st, if lfe then 0 else c_badness st), enc)
   }"

text \<open>The decoder.\<close>

definition unquant_step :: "coarse_args \<Rightarrow> nat \<Rightarrow> nat \<Rightarrow> int list \<times> int list \<Rightarrow> ec_ctx \<Rightarrow> ((int list \<times> int list) \<times> ec_ctx) option" where
  "unquant_step a i c st dec = do {
     let (oldEBands, prevs) = st;
     let left = q_budget a - ec_tell dec;
     (qi, dec) \<leftarrow> get_qi (q_prob a) i left dec;
     let k = i + c * q_nb a;
     old \<leftarrow> elem oldEBands k;
     oldEBands \<leftarrow> store oldEBands k (max (- 9216) old);
     prev \<leftarrow> elem prevs c;
     old \<leftarrow> elem oldEBands k;
     (e, p) \<leftarrow> coarse_update (q_coef a) (q_beta a) old prev qi;
     oldEBands \<leftarrow> store oldEBands k e;
     prevs \<leftarrow> store prevs c p;
     Some ((oldEBands, prevs), dec)
   }"

definition prob_model_at :: "nat \<Rightarrow> bool \<Rightarrow> byte list option" where
  "prob_model_at LM intra = do { t \<leftarrow> elem e_prob_model LM; elem t (of_bool intra) }"

definition unquant_coarse_energy :: "nat \<Rightarrow> nat \<Rightarrow> nat \<Rightarrow> int list \<Rightarrow> bool \<Rightarrow> nat \<Rightarrow> nat \<Rightarrow> ec_ctx \<Rightarrow> (int list \<times> ec_ctx) option" where
  "unquant_coarse_energy nb start fin oldEBands intra C LM dec = do {
     prob_model \<leftarrow> prob_model_at LM intra;
     (coef, beta) \<leftarrow> coarse_coefs LM intra;
     let budget = s32 (8 * int (length (ec_buf dec)));
     let a = \<lparr>q_nb = nb, q_end = fin, q_budget = budget, q_prob = prob_model, q_C = C, q_coef = coef, q_beta = beta\<rparr>;
     (st, dec) \<leftarrow> band_loop (unquant_step a) fin C start 0 (oldEBands, [0, 0]) dec;
     Some (fst st, dec)
   }"

text \<open>The call in \<open>celt_decode_with_ec\<close>, with the flag it reads first.\<close>

definition decode_coarse_energy :: "nat \<Rightarrow> nat \<Rightarrow> nat \<Rightarrow> int list \<Rightarrow> int \<Rightarrow> nat \<Rightarrow> nat \<Rightarrow> ec_ctx \<Rightarrow> (int list \<times> ec_ctx) option" where
  "decode_coarse_energy nb start fin oldBandE total_bits C LM dec = do {
     let tell = ec_tell dec;
     (intra_ener, dec) \<leftarrow> (if tell + 3 \<le> total_bits then ec_dec_bit_logp 3 dec else Some (False, dec));
     unquant_coarse_energy nb start fin oldBandE intra_ener C LM dec
   }"

subsection \<open>The fine energy and the last bits\<close>

text \<open>The body for a channel of a band; the test of the band is repeated for its channels. \<open>fine_quant\<close> is never negative.\<close>

definition fine_offset :: "int \<Rightarrow> nat \<Rightarrow> int" where
  "fine_offset q2 bits = s16 (s16 (SHR (SHL32 q2 10 + 512) bits) - 512)"

definition quant_fine_step :: "nat \<Rightarrow> nat list \<Rightarrow> nat \<Rightarrow> nat \<Rightarrow> int list \<times> int list \<Rightarrow> ec_ctx \<Rightarrow> ((int list \<times> int list) \<times> ec_ctx) option" where
  "quant_fine_step nb fine_quant i c st enc = do {
     let (oldEBands, error) = st;
     bits \<leftarrow> elem fine_quant i;
     let frac = s16 (2 ^ bits);
     if bits = 0 then Some (st, enc)
     else if bits > 10 then None
     else do {
       let k = i + c * nb;
       e \<leftarrow> elem error k;
       let q2 = SHR (e + 512) (10 - bits);
       let q2 = (if q2 > frac - 1 then frac - 1 else q2);
       let q2 = (if q2 < 0 then 0 else q2);
       let enc = ec_enc_bits (word_of_int q2) bits enc;
       let offset = fine_offset q2 bits;
       old \<leftarrow> elem oldEBands k;
       oldEBands \<leftarrow> store oldEBands k (s16 (old + offset));
       error \<leftarrow> store error k (s16 (e - offset));
       Some ((oldEBands, error), enc)
     }
   }"

definition quant_fine_energy :: "nat \<Rightarrow> nat \<Rightarrow> nat \<Rightarrow> int list \<Rightarrow> int list \<Rightarrow> nat list \<Rightarrow> nat \<Rightarrow> ec_ctx \<Rightarrow> ((int list \<times> int list) \<times> ec_ctx) option" where
  "quant_fine_energy nb start fin oldEBands error fine_quant C enc =
     band_loop (quant_fine_step nb fine_quant) fin C start 0 (oldEBands, error) enc"

definition unquant_fine_step :: "nat \<Rightarrow> nat list \<Rightarrow> nat \<Rightarrow> nat \<Rightarrow> int list \<Rightarrow> ec_ctx \<Rightarrow> (int list \<times> ec_ctx) option" where
  "unquant_fine_step nb fine_quant i c oldEBands dec = do {
     bits \<leftarrow> elem fine_quant i;
     if bits = 0 then Some (oldEBands, dec)
     else do {
       let (q2, dec) = ec_dec_bits bits dec;
       let offset = fine_offset (sint q2) bits;
       let k = i + c * nb;
       old \<leftarrow> elem oldEBands k;
       oldEBands \<leftarrow> store oldEBands k (s16 (old + offset));
       Some (oldEBands, dec)
     }
   }"

definition unquant_fine_energy :: "nat \<Rightarrow> nat \<Rightarrow> nat \<Rightarrow> int list \<Rightarrow> nat list \<Rightarrow> nat \<Rightarrow> ec_ctx \<Rightarrow> (int list \<times> ec_ctx) option" where
  "unquant_fine_energy nb start fin oldEBands fine_quant C dec =
     band_loop (unquant_fine_step nb fine_quant) fin C start 0 oldEBands dec"

text \<open>
  The last bits: two rounds over the bands, by \<open>fine_priority\<close>, as long as there are bits for all channels. \<open>left\<close> reads
  \<open>bits_left\<close> from the state of the loop; \<open>MAX_FINE_BITS\<close> is 8.
\<close>

function budget_loop :: "('a \<Rightarrow> int) \<Rightarrow> (nat \<Rightarrow> nat \<Rightarrow> 'a \<Rightarrow> ec_ctx \<Rightarrow> ('a \<times> ec_ctx) option) \<Rightarrow> nat list \<Rightarrow> int list \<Rightarrow> int \<Rightarrow> nat \<Rightarrow> nat \<Rightarrow>
    nat \<Rightarrow> 'a \<Rightarrow> ec_ctx \<Rightarrow> ('a \<times> ec_ctx) option" where
  "budget_loop left body fine_quant fine_priority prio fin C i st s = (if i < fin \<and> left st \<ge> int C then do {
       bits \<leftarrow> elem fine_quant i;
       p \<leftarrow> elem fine_priority i;
       if bits \<ge> 8 \<or> p \<noteq> prio then budget_loop left body fine_quant fine_priority prio fin C (i + 1) st s
       else do {
         (st, s) \<leftarrow> band_loop body (i + 1) C i 0 st s;
         budget_loop left body fine_quant fine_priority prio fin C (i + 1) st s
       }
     } else Some (st, s))"
  by auto
termination by (relation "measure (\<lambda>(l, b, q, p, pr, fin, C, i, _). fin - i)") auto

declare budget_loop.simps [simp del]

definition last_offset :: "int \<Rightarrow> nat \<Rightarrow> int" where
  "last_offset q2 bits = s16 (SHR (SHL16 q2 10 - 512) (bits + 1))"

definition finalise_step :: "nat \<Rightarrow> nat list \<Rightarrow> nat \<Rightarrow> nat \<Rightarrow> int list \<times> int list \<times> int \<Rightarrow> ec_ctx \<Rightarrow>
    ((int list \<times> int list \<times> int) \<times> ec_ctx) option" where
  "finalise_step nb fine_quant i c st enc = do {
     let (oldEBands, error, bits_left) = st;
     let k = i + c * nb;
     bits \<leftarrow> elem fine_quant i;
     e \<leftarrow> elem error k;
     let q2 = (if e < 0 then 0 else 1 :: int);
     let enc = ec_enc_bits (word_of_int q2) 1 enc;
     let offset = last_offset q2 bits;
     old \<leftarrow> elem oldEBands k;
     oldEBands \<leftarrow> store oldEBands k (s16 (old + offset));
     error \<leftarrow> store error k (s16 (e - offset));
     Some ((oldEBands, error, bits_left - 1), enc)
   }"

definition quant_energy_finalise :: "nat \<Rightarrow> nat \<Rightarrow> nat \<Rightarrow> int list \<Rightarrow> int list \<Rightarrow> nat list \<Rightarrow> int list \<Rightarrow> int \<Rightarrow> nat \<Rightarrow> ec_ctx \<Rightarrow>
    ((int list \<times> int list \<times> int) \<times> ec_ctx) option" where
  "quant_energy_finalise nb start fin oldEBands error fine_quant fine_priority bits_left C enc = do {
     (st, enc) \<leftarrow> budget_loop (\<lambda>(_, _, l). l) (finalise_step nb fine_quant) fine_quant fine_priority 0 fin C start (oldEBands, error, bits_left) enc;
     budget_loop (\<lambda>(_, _, l). l) (finalise_step nb fine_quant) fine_quant fine_priority 1 fin C start st enc
   }"

definition unfinalise_step :: "nat \<Rightarrow> nat list \<Rightarrow> nat \<Rightarrow> nat \<Rightarrow> int list \<times> int \<Rightarrow> ec_ctx \<Rightarrow> ((int list \<times> int) \<times> ec_ctx) option" where
  "unfinalise_step nb fine_quant i c st dec = do {
     let (oldEBands, bits_left) = st;
     bits \<leftarrow> elem fine_quant i;
     let (q2, dec) = ec_dec_bits 1 dec;
     let offset = last_offset (sint q2) bits;
     let k = i + c * nb;
     old \<leftarrow> elem oldEBands k;
     oldEBands \<leftarrow> store oldEBands k (s16 (old + offset));
     Some ((oldEBands, bits_left - 1), dec)
   }"

definition unquant_energy_finalise :: "nat \<Rightarrow> nat \<Rightarrow> nat \<Rightarrow> int list \<Rightarrow> nat list \<Rightarrow> int list \<Rightarrow> int \<Rightarrow> nat \<Rightarrow> ec_ctx \<Rightarrow>
    ((int list \<times> int) \<times> ec_ctx) option" where
  "unquant_energy_finalise nb start fin oldEBands fine_quant fine_priority bits_left C dec = do {
     (st, dec) \<leftarrow> budget_loop snd (unfinalise_step nb fine_quant) fine_quant fine_priority 0 fin C start (oldEBands, bits_left) dec;
     budget_loop snd (unfinalise_step nb fine_quant) fine_quant fine_priority 1 fin C start st dec
   }"

subsection \<open>Loops are transmitted\<close>

lemma carries_conv:
  assumes "carries s put get ok"
    "\<And>a s'. put s = Some (a, s') \<Longrightarrow> \<exists>b. put' s = Some (b, s') \<and>
      (\<forall>d v d'. get d = Some (v, d') \<longrightarrow> ok a v \<longrightarrow> (\<exists>w. get' d = Some (w, d') \<and> ok' b w))"
  shows "carries s put' get' ok'"
  unfolding carries_def
proof
  assume "enc_range s"
  then obtain a s' where a: "put s = Some (a, s')" "advances s s'" "survives s s'"
    "enc_ok s \<and> ec_nbits_total s' < 2 ^ 31 \<and> ec_error s' = 0 \<longrightarrow> enc_ok s' \<and> follows get (ok a) s s'"
    using assms(1) unfolding carries_def by blast
  obtain b where b: "put' s = Some (b, s')"
    "\<And>d v d'. get d = Some (v, d') \<Longrightarrow> ok a v \<Longrightarrow> \<exists>w. get' d = Some (w, d') \<and> ok' b w" using assms(2)[OF a(1)] by blast
  have "follows get' (ok' b) s s'" if "follows get (ok a) s s'" using that b(2) unfolding follows_def by metis
  then show "\<exists>a s'. put' s = Some (a, s') \<and> advances s s' \<and> survives s s' \<and>
      (enc_ok s \<and> ec_nbits_total s' < 2 ^ 31 \<and> ec_error s' = 0 \<longrightarrow> enc_ok s' \<and> follows get' (ok' a) s s')"
    using a b(1) by blast
qed

lemma carries_return: "ok a v \<Longrightarrow> carries s (\<lambda>s. Some (a, s)) (\<lambda>d. Some (v, d)) ok"
  by (auto simp: carries_def advances_def follows_def survives_def)

lemma band_loop_carries:
  assumes "\<And>i c st s. i < fin \<Longrightarrow> c < C \<Longrightarrow> P i c st s \<Longrightarrow> carries s (put i c st) (get i c (r st)) (\<lambda>st' v. v = r st')"
    "\<And>i c st s st' s'. i < fin \<Longrightarrow> c < C \<Longrightarrow> P i c st s \<Longrightarrow> put i c st s = Some (st', s') \<Longrightarrow> P (i + 1) 0 st' s'"
    "\<And>i c st s st' s'. i < fin \<Longrightarrow> c < C \<Longrightarrow> P i c st s \<Longrightarrow> put i c st s = Some (st', s') \<Longrightarrow> c + 1 < C \<Longrightarrow> P i (c + 1) st' s'"
    "P i c st s" "c < C"
  shows "carries s (band_loop put fin C i c st) (band_loop get fin C i c (r st)) (\<lambda>st' v. v = r st')"
  using assms
proof (induction put fin C i c st s rule: band_loop.induct)
  case (1 put fin C i c st s)
  show ?case
  proof (cases "i < fin")
    case False
    then have "band_loop put fin C i c st = (\<lambda>s. Some (st, s))" "band_loop get fin C i c (r st) = (\<lambda>d. Some (r st, d))"
      by (simp_all add: fun_eq_iff band_loop.simps[of _ fin C i c])
    then show ?thesis by (simp add: carries_return)
  next
    case True
    let ?put2 = "\<lambda>st s. if c + 1 < C then band_loop put fin C i (c + 1) st s else band_loop put fin C (i + 1) 0 st s"
    let ?get2 = "\<lambda>v d. if c + 1 < C then band_loop get fin C i (c + 1) v d else band_loop get fin C (i + 1) 0 v d"
    have loops: "band_loop put fin C i c st = (\<lambda>s. Option.bind (put i c st s) (\<lambda>(st, s). ?put2 st s))"
      "band_loop get fin C i c (r st) = (\<lambda>d. Option.bind (get i c (r st) d) (\<lambda>(v, d). ?get2 v d))"
      using True by (simp_all add: fun_eq_iff band_loop.simps[of _ fin C i c])
    note P = True "1.prems"(5,4)
    show ?thesis unfolding loops
    proof (rule carries_bind[OF "1.prems"(1)[OF P]])
      fix st1 s1 v assume q: "put i c st s = Some (st1, s1)" and v: "v = r st1"
      show "carries s1 (?put2 st1) (?get2 v) (\<lambda>st' v. v = r st')"
      proof (cases "c + 1 < C")
        case c: True
        from "1.IH"(1)[OF True q refl c "1.prems"(1-3) "1.prems"(3)[OF P q c] c] show ?thesis using c v by simp
      next
        case c: False
        have "0 < C" using "1.prems"(5) by simp
        from "1.IH"(2)[OF True q refl c "1.prems"(1-3) "1.prems"(2)[OF P q] this] show ?thesis using c v by simp
      qed
    qed blast
  qed
qed

subsection \<open>A step is transmitted\<close>

definition prob_ok :: "byte list \<Rightarrow> bool" where
  "prob_ok prob_model \<longleftrightarrow> length prob_model = 42 \<and> models_ok (map unat prob_model)"

lemma prob_ok_table: "LM < 4 \<Longrightarrow> \<exists>m. prob_model_at LM intra = Some m \<and> prob_ok m"
proof -
  assume "LM < 4"
  then have l: "LM < length e_prob_model" by (simp add: e_prob_model_def)
  then have t: "e_prob_model ! LM \<in> set e_prob_model" by simp
  then have "length (e_prob_model ! LM) = 2" using e_prob_model_ok by blast
  then have n: "of_bool intra < length (e_prob_model ! LM)" by simp
  then have "prob_ok (e_prob_model ! LM ! of_bool intra)" unfolding prob_ok_def using e_prob_model_ok t nth_mem by blast
  then show ?thesis using l n by (simp only: prob_model_at_def elem_def Option.bind.bind_lunit if_True) blast
qed

lemma qi_carries_laplace:
  assumes "prob_ok prob_model" "15 \<le> left"
  shows "carries s (put_qi prob_model i left qi) (get_qi prob_model i left) (=)"
proof -
  define j where "j = min i 20"
  have j: "2 * j + 1 < length prob_model" using assms(1) by (simp add: j_def prob_ok_def)
  let ?p = "prob_model ! (2 * j)" and ?q = "prob_model ! (2 * j + 1)"
  have e: "elem prob_model (2 * j) = Some ?p" "elem prob_model (2 * j + 1) = Some ?q" using j by (simp_all add: elem_def)
  have "laplace_ok (unat ?p * 128) (unat ?q * 64)"
    using models_ok_at[of "map unat prob_model" j] assms(1) j by (simp add: prob_ok_def)
  moreover have "unat (push_bit 7 (ucast ?p) :: u32) = unat ?p * 128" by (rule prob_word)
  ultimately have "laplace_ok (unat (push_bit 7 (ucast ?p) :: u32)) (unat ?q * 64)" by simp
  from laplace_transmits(1)[OF this] show ?thesis
    using assms(2) e by (simp add: put_qi_def[abs_def] get_qi_def[abs_def] j_def[symmetric] Let_def del: push_bit_eq_mult)
qed

lemma qi_carries_icdf:
  assumes "2 \<le> left" "left < 15"
  shows "carries s (put_qi prob_model i left qi) (get_qi prob_model i left) (=)"
proof -
  define q where "q = max (- 1) (min qi 1)"
  define n where "n = nat ((2 * q) XOR (if q < 0 then - 1 else 0))"
  have "q = - 1 \<or> q = 0 \<or> q = 1" by (auto simp: q_def)
  then have n: "n < 3" "SHR (int n) 1 XOR - (int n AND 1) = q" by (auto simp: n_def SHR_def)
  have "icdf_valid (n, small_energy_icdf, 2)"
    using n(1) by (auto simp: icdf_valid_def small_energy_icdf_def less_Suc_eq numeral_3_eq_3)
  from icdf.transmits[OF this] have "transmits (ec_enc_icdf n small_energy_icdf 2) (dec_icdf (n, small_energy_icdf, 2)) (\<lambda>v. v = n)"
    by (simp add: enc_icdf_def[abs_def] icdf_agrees_def[abs_def])
  then have c: "carries s (\<lambda>s. map_option (Pair q) (ec_enc_icdf n small_energy_icdf 2 s)) (dec_icdf (n, small_energy_icdf, 2)) (\<lambda>_ v. v = n)"
    by (simp only: transmits_carries[where a = q])
  have p: "put_qi prob_model i left qi s = map_option (Pair q) (ec_enc_icdf n small_energy_icdf 2 s)" for s
    using assms by (simp add: put_qi_def Let_def q_def[symmetric] n_def[symmetric])
  show ?thesis
    by (rule carries_conv[OF c]) (use assms n(2) in \<open>auto simp: p get_qi_def dec_icdf_def\<close>)
qed

lemma qi_carries_bit:
  shows "carries s (put_qi prob_model i 1 qi) (get_qi prob_model i 1) (\<lambda>a v. a = min 0 qi \<and> v = max (- 1) a)"
proof -
  let ?q = "min 0 qi"
  have "logp_valid (- ?q \<noteq> 0, 1)" by (simp add: logp_valid_def)
  from logp.transmits[OF this] have "transmits (ec_enc_bit_logp (- ?q \<noteq> 0) 1) (ec_dec_bit_logp 1) (\<lambda>b. b = (- ?q \<noteq> 0))"
    by (simp add: enc_logp_def[abs_def] logp_agrees_def[abs_def] dec_logp_def[abs_def])
  then have c: "carries s (\<lambda>s. map_option (Pair ?q) (ec_enc_bit_logp (- ?q \<noteq> 0) 1 s)) (ec_dec_bit_logp 1) (\<lambda>_ b. b = (- ?q \<noteq> 0))"
    by (simp only: transmits_carries[where a = "?q"])
  show ?thesis by (rule carries_conv[OF c]) (auto simp: put_qi_def get_qi_def Let_def)
qed

text \<open>
  The decoder reads the number of steps that the encoder coded, unless a single bit is left and the encoder coded less than
  -1: then the encoder goes on with that number and the decoder with -1.
\<close>

lemma qi_carries:
  assumes "prob_ok prob_model" "left = 1 \<Longrightarrow> - 1 \<le> qi"
  shows "carries s (put_qi prob_model i left qi) (get_qi prob_model i left) (=)"
proof -
  consider "15 \<le> left" | "2 \<le> left" "left < 15" | "left = 1" | "left < 1" by linarith
  then show ?thesis
  proof cases
    case 1
    then show ?thesis by (rule qi_carries_laplace[OF assms(1)])
  next
    case 2
    then show ?thesis by (rule qi_carries_icdf)
  next
    case 3
    have "- 1 \<le> qi" using assms(2) 3 by simp
    then show ?thesis unfolding 3 by (intro carries_conv[OF qi_carries_bit[of s prob_model i qi]]) auto
  next
    case 4
    have "put_qi prob_model i left qi = (\<lambda>s. Some (- 1, s))" "get_qi prob_model i left = (\<lambda>d. Some (- 1, d))"
      using 4 by (simp_all add: put_qi_def get_qi_def fun_eq_iff)
    then show ?thesis by (simp add: carries_return)
  qed
qed

lemma put_qi_bound:
  assumes "prob_ok prob_model" "left = 1 \<Longrightarrow> - 1 \<le> qi" "put_qi prob_model i left qi s = Some (q, s')"
  shows "\<bar>q\<bar> \<le> 64"
proof (cases "15 \<le> left")
  case True
  define j where "j = min i 20"
  have j: "2 * j + 1 < length prob_model" using assms(1) by (simp add: j_def prob_ok_def)
  then have e: "elem prob_model (2 * j) = Some (prob_model ! (2 * j))" "elem prob_model (2 * j + 1) = Some (prob_model ! (2 * j + 1))"
    by (simp_all add: elem_def)
  have "laplace_ok (unat (push_bit 7 (ucast (prob_model ! (2 * j))) :: u32)) (unat (prob_model ! (2 * j + 1)) * 64)"
    using models_ok_at[of "map unat prob_model" j] assms(1) j by (simp add: prob_ok_def prob_word del: push_bit_eq_mult)
  from laplace_transmits(3)[OF this] show ?thesis
    using assms(3) True e by (simp add: put_qi_def j_def[symmetric] Let_def del: push_bit_eq_mult)
next
  case False
  then show ?thesis using assms(2,3) by (auto simp: put_qi_def Let_def split: if_splits)
qed

subsection \<open>No sum overflows\<close>

lemma s16_fits: "- 32768 \<le> x \<Longrightarrow> x < 32768 \<Longrightarrow> s16 x = x"
  by (simp add: s16_def sint_sbintrunc' signed_take_bit_int_eq_self)

lemma s32_fits: "- (2 ^ 31) \<le> x \<Longrightarrow> x < 2 ^ 31 \<Longrightarrow> s32 x = x"
  by (simp add: s32_def sint_sbintrunc' signed_take_bit_int_eq_self)

lemma s16_range: "- 32768 \<le> s16 x \<and> s16 x < 32768"
  using sint_range_size[of "word_of_int x :: 16 word"] by (simp add: s16_def size_word_def)

lemma i32_fits: "\<bar>x\<bar> < 2 ^ 31 \<Longrightarrow> i32 x = Some x"
  unfolding i32_def by auto

lemma SHR_small: "\<bar>x\<bar> \<le> b * 2 ^ n \<Longrightarrow> \<bar>SHR x n\<bar> \<le> b"
proof -
  assume x: "\<bar>x\<bar> \<le> b * 2 ^ n"
  have c: "(a * 2 ^ n) div 2 ^ n = a" for a :: int by simp
  have "x div 2 ^ n \<le> (b * 2 ^ n) div 2 ^ n" "((- b) * 2 ^ n) div 2 ^ n \<le> x div 2 ^ n" using x by (intro zdiv_mono1; simp)+
  then show ?thesis unfolding SHR_def c by simp
qed

lemma product_small: "\<bar>PSHR32 (MULT16_16 a b) 8\<bar> \<le> 4194305"
proof -
  have "\<bar>s16 a\<bar> * \<bar>s16 b\<bar> \<le> 32768 * 32768" using s16_range[of a] s16_range[of b] by (intro mult_mono) auto
  then have "\<bar>MULT16_16 a b\<bar> \<le> 1073741824" by (simp add: MULT16_16_def abs_mult)
  then have "\<bar>MULT16_16 a b + 2 ^ 8 div 2\<bar> \<le> 4194305 * 2 ^ 8" by simp
  then show ?thesis unfolding PSHR32_def by (rule SHR_small)
qed

text \<open>A step changes the prediction by at most \<open>64 * 2 ^ 17\<close>; \<open>50\<close> is \<open>C\<close> times the number of bands.\<close>

lemma coarse_update_fits:
  assumes "\<bar>prev\<bar> \<le> 50 * 8388608" "\<bar>qi\<bar> \<le> 64" "0 \<le> beta" "beta < 32768"
  shows "\<exists>e p. coarse_update coef beta oldE prev qi = Some (s16 e, p) \<and> \<bar>p\<bar> \<le> \<bar>prev\<bar> + 8388608"
proof -
  define t where "t = PSHR32 (MULT16_16 coef oldE) 8"
  have t: "\<bar>t\<bar> \<le> 4194305" unfolding t_def by (rule product_small)
  have q: "SHL32 qi 10 = qi * 1024" using assms(2) unfolding SHL32_def by (intro s32_fits[THEN trans]) auto
  have q7: "SHL32 (qi * 1024) 7 = qi * 131072" using assms(2) unfolding SHL32_def by (intro s32_fits[THEN trans]) auto
  have "PSHR32 (qi * 1024) 8 = qi * 4" unfolding PSHR32_def SHR_def by simp
  then have m: "MULT16_16 beta (PSHR32 (qi * 1024) 8) = beta * (qi * 4)" using assms by (simp add: MULT16_16_def s16_fits)
  define w where "w = 131072 - 4 * beta"
  have w: "0 \<le> w" "w \<le> 131072" using assms(3,4) by (simp_all add: w_def)
  have "prev + qi * 131072 - beta * (qi * 4) = prev + qi * w" by (simp add: w_def algebra_simps)
  moreover have "\<bar>qi * w\<bar> \<le> 64 * 131072" unfolding abs_mult using assms(2) w by (intro mult_mono) auto
  ultimately have p: "\<bar>prev + qi * 131072 - beta * (qi * 4)\<bar> \<le> \<bar>prev\<bar> + 8388608" by linarith
  show ?thesis
    unfolding coarse_update_def Let_def q q7 m t_def[symmetric]
    using t assms(1,2) p by (simp add: i32_fits) blast
qed

lemma coarse_pick_fits:
  assumes "\<bar>prev\<bar> \<le> 50 * 8388608" "- 32768 \<le> x" "x < 32768"
  shows "\<exists>f qi. coarse_pick coef max_decay x old oldE prev = Some (f, qi) \<and> \<bar>qi\<bar> \<le> 16384"
proof -
  define t where "t = PSHR32 (MULT16_16 coef oldE) 8"
  have t: "\<bar>t\<bar> \<le> 4194305" unfolding t_def by (rule product_small)
  have x: "SHL32 x 7 = x * 128" using assms(2,3) unfolding SHL32_def by (intro s32_fits[THEN trans]) auto
  define f where "f = x * 128 - t - prev"
  have f: "\<bar>f\<bar> < 1000000000" using t assms by (simp add: f_def)
  define q where "q = SHR (f + 65536) 17"
  have q: "\<bar>q\<bar> \<le> 16384" unfolding q_def by (rule SHR_small) (use f in simp)
  define d where "d = s16 (max (- 28672) (old - max_decay))"
  have d: "s16 d = d" using s16_range by (simp add: d_def s16_fits)
  have xs: "s16 x = x" using assms by (intro s16_fits)
  have up: "0 \<le> SHR (d - x) 10" if "x < d" using that by (simp add: SHR_def)
  show ?thesis
    unfolding coarse_pick_def Let_def x t_def[symmetric] d_def[symmetric] d xs
    using t f q up assms by (auto simp: i32_fits f_def[symmetric] q_def[symmetric])
qed

text \<open>
  The arrays hold \<open>C\<close> channels of \<open>nb\<close> bands, the energies of the frame are 16-bit numbers, and after \<open>n\<close> steps
  the predictions and the sum of changes are bounded.
\<close>

definition coarse_ok :: "coarse_input \<Rightarrow> nat \<Rightarrow> coarse \<Rightarrow> bool" where
  "coarse_ok a n st \<longleftrightarrow> q_C a \<in> {1, 2} \<and> q_end a \<le> q_nb a \<and> q_end a \<le> 25 \<and> prob_ok (q_prob a) \<and> length (c_prev st) = 2 \<and>
     q_C a * q_nb a \<le> length (q_bands a) \<and> q_C a * q_nb a \<le> length (c_old st) \<and> q_C a * q_nb a \<le> length (c_error st) \<and>
     0 \<le> q_beta a \<and> q_beta a < 32768 \<and> (\<forall>x \<in> set (q_bands a). - 32768 \<le> x \<and> x < 32768) \<and>
     (\<forall>p \<in> set (c_prev st). \<bar>p\<bar> \<le> int n * 8388608) \<and> 0 \<le> c_badness st \<and> c_badness st \<le> int n * 32768"

lemma coarse_ok_mono: "coarse_ok a m st \<Longrightarrow> m \<le> n \<Longrightarrow> coarse_ok a n st"
  by (force simp: coarse_ok_def)

lemma below_50:
  "\<bar>p\<bar> \<le> int n * 8388608 \<Longrightarrow> n < 50 \<Longrightarrow> \<bar>p\<bar> \<le> 50 * 8388608"
  "b \<le> int n * 32768 \<Longrightarrow> n < 50 \<Longrightarrow> b \<le> 50 * 32768"
  by linarith+

lemma step_count: "i < (e :: nat) \<Longrightarrow> e \<le> 25 \<Longrightarrow> c < C \<Longrightarrow> C \<in> {1, 2} \<Longrightarrow> i * C + c < 50"
  by auto

lemma index_less_channels:
  assumes "i < fin" "fin \<le> nb" "c < C" "C * nb \<le> n"
  shows "i + c * nb < (n :: nat)"
proof -
  have "(c + 1) * nb \<le> C * nb" using assms(3) by (intro mult_le_mono1) simp
  then show ?thesis using assms by simp
qed

lemma coarse_limit_bit:
  assumes "i \<noteq> start" "i < fin" "0 < C"
  shows "- 1 \<le> coarse_limit i start (1 - 3 * int (C * (fin - i))) lfe qi"
proof -
  have "0 < C * (fin - i)" using assms(2,3) by simp
  then have "1 - 3 * int (C * (fin - i)) < 16" by linarith
  then show ?thesis using assms(1) by (simp add: coarse_limit_def Let_def)
qed

text \<open>A step, from the number \<open>q\<close> that is to be coded on.\<close>

lemma step_run:
  assumes ok: "coarse_ok a (i * q_C a + c) st" and i: "i < q_end a" "c < q_C a" and bit: "i = q_start a \<longrightarrow> q_budget a - ec_tell s \<noteq> 1"
  defines "k \<equiv> i + c * q_nb a"
  shows "\<exists>q. (q_budget a - ec_tell s = 1 \<longrightarrow> - 1 \<le> q) \<and>
    (put_qi (q_prob a) i (q_budget a - ec_tell s) q s = None \<longrightarrow> quant_step a i c st s = None) \<and>
    (\<forall>qi s'. put_qi (q_prob a) i (q_budget a - ec_tell s) q s = Some (qi, s') \<longrightarrow>
      (\<exists>st' e r. quant_step a i c st s = Some (st', s') \<and> coarse_ok a (i * q_C a + c + 1) st' \<and>
        coarse_update (q_coef a) (q_beta a) (max (- 9216) (c_old st ! k)) (c_prev st ! c) qi = Some (e, r) \<and>
        c_old st' = (c_old st)[k := e] \<and> c_prev st' = (c_prev st)[c := r]))"
proof -
  let ?n = "i * q_C a + c" and ?L = "q_budget a - ec_tell s"
  have k: "k < length (q_bands a)" "k < length (c_old st)" "k < length (c_error st)" "c < length (c_prev st)"
    using ok i index_less_channels[of i "q_end a" "q_nb a" c "q_C a"] by (auto simp: coarse_ok_def k_def)
  have n: "?n < 50" using ok i step_count[of i "q_end a" c "q_C a"] by (simp add: coarse_ok_def)
  have prev: "\<bar>c_prev st ! c\<bar> \<le> int ?n * 8388608" using ok k(4) nth_mem[of c "c_prev st"] by (simp add: coarse_ok_def)
  then have prev50: "\<bar>c_prev st ! c\<bar> \<le> 50 * 8388608" by (rule below_50(1)) (rule n)
  have x: "- 32768 \<le> q_bands a ! k" "q_bands a ! k < 32768" using ok k(1) nth_mem[of k "q_bands a"] by (simp_all add: coarse_ok_def)
  define oldE where "oldE = max (- 9216) (c_old st ! k)"
  obtain f qi0 where f: "coarse_pick (q_coef a) (q_decay a) (q_bands a ! k) (c_old st ! k) oldE (c_prev st ! c) = Some (f, qi0)"
    "\<bar>qi0\<bar> \<le> 16384" using coarse_pick_fits[OF prev50 x] by blast
  define q where "q = coarse_limit i (q_start a) (?L - 3 * int (q_C a * (q_end a - i))) (q_lfe a) qi0"
  have q1: "- 1 \<le> q" if "?L = 1"
  proof -
    have "i \<noteq> q_start a" using bit that by blast
    then show ?thesis using coarse_limit_bit i that by (simp add: q_def)
  qed
  note step = quant_step_def elem_def store_def Let_def k_def[symmetric] oldE_def[symmetric] f(1) q_def[symmetric]
  show ?thesis
  proof (intro exI[of _ q] conjI impI allI)
    show "quant_step a i c st s = None" if "put_qi (q_prob a) i ?L q s = None" using k that by (simp add: step del: of_nat_mult)
    fix qi s' assume p: "put_qi (q_prob a) i ?L q s = Some (qi, s')"
    have qi: "\<bar>qi\<bar> \<le> 64" by (rule put_qi_bound[OF _ q1 p]) (use ok in \<open>simp_all add: coarse_ok_def\<close>)
    have "0 \<le> q_beta a" "q_beta a < 32768" using ok by (simp_all add: coarse_ok_def)
    from coarse_update_fits[OF prev50 qi this] obtain e r where
      u: "coarse_update (q_coef a) (q_beta a) oldE (c_prev st ! c) qi = Some (e, r)" "\<bar>r\<bar> \<le> \<bar>c_prev st ! c\<bar> + 8388608" by blast
    have "c_badness st \<le> int ?n * 32768" "0 \<le> c_badness st" "int (?n + 1) * 32768 = int ?n * 32768 + 32768"
      using ok by (simp_all add: coarse_ok_def)
    moreover from this(1) have "c_badness st \<le> 50 * 32768" by (rule below_50(2)) (rule n)
    moreover have "\<bar>qi0 - qi\<bar> \<le> 32768" using f(2) qi by linarith
    ultimately have b: "0 \<le> c_badness st + \<bar>qi0 - qi\<bar>" "c_badness st + \<bar>qi0 - qi\<bar> \<le> int (?n + 1) * 32768"
      "c_badness st + \<bar>qi0 - qi\<bar> \<le> 51 * 32768" by linarith+
    have i32: "i32 (c_badness st + \<bar>qi0 - qi\<bar>) = Some (c_badness st + \<bar>qi0 - qi\<bar>)" using b(1,3) by (intro i32_fits) simp
    define st' where "st' = \<lparr>c_old = (c_old st)[k := e], c_prev = (c_prev st)[c := r],
      c_error = (c_error st)[k := s16 (PSHR32 f 7 - SHL16 qi 10)], c_badness = c_badness st + \<bar>qi0 - qi\<bar>\<rparr>"
    have "quant_step a i c st s = Some (st', s')" using k p by (simp add: step u(1) i32 st'_def del: of_nat_mult)
    moreover have "coarse_ok a (?n + 1) st'"
    proof -
      have "\<bar>p\<bar> \<le> int (?n + 1) * 8388608" if "p \<in> set ((c_prev st)[c := r])" for p
      proof -
        have "p = r \<or> p \<in> set (c_prev st)" using that set_update_subset_insert by fastforce
        then show ?thesis using u(2) prev ok by (auto simp: coarse_ok_def)
      qed
      then show ?thesis using ok b by (simp add: coarse_ok_def st'_def del: of_nat_add of_nat_mult of_nat_Suc)
    qed
    ultimately show "\<exists>st' e r. quant_step a i c st s = Some (st', s') \<and> coarse_ok a (?n + 1) st' \<and>
        coarse_update (q_coef a) (q_beta a) (max (- 9216) (c_old st ! k)) (c_prev st ! c) qi = Some (e, r) \<and>
        c_old st' = (c_old st)[k := e] \<and> c_prev st' = (c_prev st)[c := r]"
      using u(1) by (auto simp: st'_def oldE_def)
  qed (fact q1)
qed

lemma step_ok:
  assumes "coarse_ok a (i * q_C a + c) st" "i < q_end a" "c < q_C a" "i = q_start a \<Longrightarrow> q_budget a - ec_tell s \<noteq> 1"
    "quant_step a i c st s = Some (st', s')"
  shows "coarse_ok a (i * q_C a + c + 1) st'"
proof -
  have bit: "i = q_start a \<longrightarrow> q_budget a - ec_tell s \<noteq> 1" using assms(4) by blast
  from step_run[OF assms(1-3) bit] show ?thesis
  proof (elim exE conjE, goal_cases)
    case (1 q)
    then show ?case using assms(5) by (cases "put_qi (q_prob a) i (q_budget a - ec_tell s) q s") fastforce+
  qed
qed

lemma step_carries:
  assumes ok: "coarse_ok a (i * q_C a + c) st" and i: "i < q_end a" "c < q_C a" and bit: "i = q_start a \<Longrightarrow> q_budget a - ec_tell s \<noteq> 1"
  shows "carries s (quant_step a i c st) (unquant_step (coarse_args.truncate a) i c (c_old st, c_prev st))
    (\<lambda>st' v. v = (c_old st', c_prev st'))"
proof -
  have bit': "i = q_start a \<longrightarrow> q_budget a - ec_tell s \<noteq> 1" using bit by blast
  let ?k = "i + c * q_nb a" and ?L = "q_budget a - ec_tell s"
  have k: "?k < length (c_old st)" "c < length (c_prev st)"
    using ok i index_less_channels[of i "q_end a" "q_nb a" c "q_C a"] by (auto simp: coarse_ok_def)
  obtain q where q: "?L = 1 \<Longrightarrow> - 1 \<le> q" "\<And>qi s'. put_qi (q_prob a) i ?L q s = Some (qi, s') \<Longrightarrow>
      \<exists>st' e r. quant_step a i c st s = Some (st', s') \<and> coarse_ok a (i * q_C a + c + 1) st' \<and>
        coarse_update (q_coef a) (q_beta a) (max (- 9216) (c_old st ! ?k)) (c_prev st ! c) qi = Some (e, r) \<and>
        c_old st' = (c_old st)[?k := e] \<and> c_prev st' = (c_prev st)[c := r]"
    using step_run[OF assms(1-3) bit'] by blast
  have "carries s (put_qi (q_prob a) i ?L q) (get_qi (q_prob a) i ?L) (=)"
    using ok q(1) by (intro qi_carries) (simp_all add: coarse_ok_def)
  then have c: "carries s (put_qi (q_prob a) i ?L q) (\<lambda>d. get_qi (q_prob a) i (q_budget a - ec_tell d) d) (=)"
    by (rule carries_look) simp
  show ?thesis
  proof (rule carries_conv[OF c])
    fix qi s' assume "put_qi (q_prob a) i ?L q s = Some (qi, s')"
    then obtain st' e r where st': "quant_step a i c st s = Some (st', s')"
      "coarse_update (q_coef a) (q_beta a) (max (- 9216) (c_old st ! ?k)) (c_prev st ! c) qi = Some (e, r)"
      "c_old st' = (c_old st)[?k := e]" "c_prev st' = (c_prev st)[c := r]" using q(2) by blast
    have "unquant_step (coarse_args.truncate a) i c (c_old st, c_prev st) d = Some ((c_old st', c_prev st'), d')"
      if "get_qi (q_prob a) i (q_budget a - ec_tell d) d = Some (qi, d')" for d d'
      using k that by (simp add: unquant_step_def coarse_args.truncate_def elem_def store_def st'(2-4))
    with st'(1) show "\<exists>b. quant_step a i c st s = Some (b, s') \<and> (\<forall>d v d'. get_qi (q_prob a) i (q_budget a - ec_tell d) d = Some (v, d') \<longrightarrow>
        qi = v \<longrightarrow> (\<exists>w. unquant_step (coarse_args.truncate a) i c (c_old st, c_prev st) d = Some (w, d') \<and>
          w = (c_old b, c_prev b)))" by blast
  qed
qed

text \<open>The one case in which the two sides may part: a single bit is left for a channel of the first band.\<close>

function one_bit_at_start :: "coarse_input \<Rightarrow> nat \<Rightarrow> coarse \<Rightarrow> ec_ctx \<Rightarrow> bool" where
  "one_bit_at_start a c st enc = (q_budget a - ec_tell enc = 1 \<or>
     (if c + 1 < q_C a then case quant_step a (q_start a) c st enc of Some (st, enc) \<Rightarrow> one_bit_at_start a (c + 1) st enc | None \<Rightarrow> False
      else False))"
  by auto
termination by (relation "measure (\<lambda>(a, c, _). q_C a - c)") auto

declare one_bit_at_start.simps [simp del]

lemma quant_loop_carries:
  assumes "coarse_ok a (i * q_C a + c) st" "c < q_C a" "q_start a \<le> i" "i = q_start a \<Longrightarrow> i < q_end a \<Longrightarrow> \<not> one_bit_at_start a c st s"
  shows "carries s (band_loop (quant_step a) (q_end a) (q_C a) i c st)
    (band_loop (unquant_step (coarse_args.truncate a)) (q_end a) (q_C a) i c (c_old st, c_prev st)) (\<lambda>st' v. v = (c_old st', c_prev st'))"
proof -
  let ?P = "\<lambda>i c st s. coarse_ok a (i * q_C a + c) st \<and> q_start a \<le> i \<and> (i = q_start a \<longrightarrow> i < q_end a \<longrightarrow> \<not> one_bit_at_start a c st s)"
  show ?thesis
  proof (rule band_loop_carries[where P = ?P and r = "\<lambda>st. (c_old st, c_prev st)"])
    fix i c st s assume i: "i < q_end a" "c < q_C a" and P: "?P i c st s"
    have bit: "q_budget a - ec_tell s \<noteq> 1" if "i = q_start a" using P i that by (simp add: one_bit_at_start.simps[of a c])
    then show "carries s (quant_step a i c st) (unquant_step (coarse_args.truncate a) i c (c_old st, c_prev st))
        (\<lambda>st' v. v = (c_old st', c_prev st'))"
      using P i by (intro step_carries) simp_all
    fix st' s' assume q: "quant_step a i c st s = Some (st', s')"
    have ok: "coarse_ok a (i * q_C a + c + 1) st'" by (rule step_ok[OF _ i bit q]) (use P in simp_all)
    have "coarse_ok a ((i + 1) * q_C a + 0) st'" by (rule coarse_ok_mono[OF ok]) (use i(2) in simp)
    then show "?P (i + 1) 0 st' s'" using P by simp
    show "?P i (c + 1) st' s'" if "c + 1 < q_C a"
      using P ok i q that by (auto simp: add.assoc one_bit_at_start.simps[of a c])
  qed (use assms in simp_all)
qed

subsection \<open>The coarse energy is transmitted\<close>

text \<open>In the run of \<open>quant_coarse_energy_impl\<close> a single bit is left for a channel of the first band.\<close>

definition first_band_one_bit :: "nat \<Rightarrow> nat \<Rightarrow> nat \<Rightarrow> int list \<Rightarrow> int list \<Rightarrow> int \<Rightarrow> int \<Rightarrow> byte list \<Rightarrow> int list \<Rightarrow> nat \<Rightarrow>
    nat \<Rightarrow> bool \<Rightarrow> int \<Rightarrow> bool \<Rightarrow> ec_ctx \<Rightarrow> bool" where
  "first_band_one_bit nb start fin eBands oldEBands budget tell prob_model error C LM intra max_decay lfe enc =
     (case do {
        enc \<leftarrow> (if tell + 3 \<le> budget then ec_enc_bit_logp intra 3 enc else Some enc);
        (coef, beta) \<leftarrow> coarse_coefs LM intra;
        let a = \<lparr>q_nb = nb, q_end = fin, q_budget = budget, q_prob = prob_model, q_C = C, q_coef = coef,
          q_beta = beta, q_start = start, q_bands = eBands, q_decay = max_decay, q_lfe = lfe\<rparr>;
        Some (one_bit_at_start a 0 \<lparr>c_old = oldEBands, c_prev = [0, 0], c_error = error, c_badness = 0\<rparr> enc)
      } of Some b \<Rightarrow> b \<and> start < fin | None \<Rightarrow> False)"

lemma flag_carries:
  assumes "budget < ec_tell s + 3 \<Longrightarrow> \<not> intra"
  shows "carries s (\<lambda>e. map_option (Pair intra) (if ec_tell s + 3 \<le> budget then ec_enc_bit_logp intra 3 e else Some e))
    (\<lambda>d. if ec_tell d + 3 \<le> budget then ec_dec_bit_logp 3 d else Some (False, d)) (=)"
proof (rule carries_look[where get = "\<lambda>d. if ec_tell s + 3 \<le> budget then ec_dec_bit_logp 3 d else Some (False, d)"])
  show "carries s (\<lambda>e. map_option (Pair intra) (if ec_tell s + 3 \<le> budget then ec_enc_bit_logp intra 3 e else Some e))
    (\<lambda>d. if ec_tell s + 3 \<le> budget then ec_dec_bit_logp 3 d else Some (False, d)) (=)"
  proof (cases "ec_tell s + 3 \<le> budget")
    case True
    have "logp_valid (intra, 3)" by (simp add: logp_valid_def)
    from logp.transmits[OF this] have "transmits (ec_enc_bit_logp intra 3) (ec_dec_bit_logp 3) (\<lambda>b. b = intra)"
      by (simp only: enc_logp_def[abs_def] logp_agrees_def[abs_def] dec_logp_def[abs_def] fst_conv snd_conv)
    from transmits_value[OF this] show ?thesis using True by simp
  next
    case False
    then show ?thesis using assms by (simp add: carries_return)
  qed
qed simp

lemma coarse_coefs_range: "LM < 4 \<Longrightarrow> \<exists>coef beta. coarse_coefs LM intra = Some (coef, beta) \<and> 0 \<le> beta \<and> beta < 32768"
proof -
  assume "LM < 4"
  then have "LM \<in> {0, 1, 2, 3}" by auto
  then show ?thesis by (cases intra) (auto simp: coarse_coefs_def elem_def beta_coef_def pred_coef_def beta_intra_def)
qed

lemma coarse_carries:
  assumes "C \<in> {1, 2}" "LM < 4" "fin \<le> nb" "C * nb \<le> length eBands" "C * nb \<le> length oldEBands" "C * nb \<le> length error"
    and fits: "fin \<le> 25" "\<forall>x \<in> set eBands. - 32768 \<le> x \<and> x < 32768" "length (ec_buf s) < 2 ^ 28"
    and prob: "prob_model_at LM intra = Some prob_model" and budget: "budget = 8 * int (length (ec_buf s))"
    and intra: "budget < ec_tell s + 3 \<Longrightarrow> \<not> intra"
    and bit: "\<not> first_band_one_bit nb start fin eBands oldEBands budget (ec_tell s) prob_model error C LM intra max_decay lfe s"
  shows "carries s (quant_coarse_energy_impl nb start fin eBands oldEBands budget (ec_tell s) prob_model error C LM intra max_decay lfe)
    (decode_coarse_energy nb start fin oldEBands budget C LM) (\<lambda>(olds, _) v. v = olds)"
proof -
  obtain coef beta where cb: "coarse_coefs LM intra = Some (coef, beta)" "0 \<le> beta" "beta < 32768"
    using coarse_coefs_range[OF assms(2)] by blast
  define a where "a = \<lparr>q_nb = nb, q_end = fin, q_budget = budget, q_prob = prob_model, q_C = C, q_coef = coef,
          q_beta = beta, q_start = start, q_bands = eBands, q_decay = max_decay, q_lfe = lfe\<rparr>"
  define st where "st = \<lparr>c_old = oldEBands, c_prev = [0, 0], c_error = error, c_badness = 0\<rparr>"
  define put1 where "put1 = (\<lambda>e. if ec_tell s + 3 \<le> budget then ec_enc_bit_logp intra 3 e else Some e)"
  have "prob_ok prob_model" using prob_ok_table[OF assms(2), of intra] prob by simp
  then have ok: "coarse_ok a (start * q_C a + 0) st" using assms(1,3-6) fits cb(2,3) by (simp add: coarse_ok_def a_def st_def)
  have s32: "s32 budget = budget" using fits(3) budget by (intro s32_fits) simp_all
  have C: "0 < q_C a" using assms(1) by (auto simp: a_def)
  have flag: "carries s (\<lambda>e. map_option (Pair intra) (put1 e))
      (\<lambda>d. if ec_tell d + 3 \<le> budget then ec_dec_bit_logp 3 d else Some (False, d)) (=)"
    unfolding put1_def by (rule flag_carries[OF intra])
  let ?put2 = "\<lambda>_ e. map_option (\<lambda>(st, e). ((c_old st, c_error st, if lfe then 0 else c_badness st), e)) (band_loop (quant_step a) fin C start 0 st e)"
  have p: "quant_coarse_energy_impl nb start fin eBands oldEBands budget (ec_tell s) prob_model error C LM intra max_decay lfe =
      (\<lambda>e. Option.bind (map_option (Pair intra) (put1 e)) (\<lambda>(x, e). ?put2 x e))"
    by (auto simp: fun_eq_iff quant_coarse_energy_impl_def cb(1) put1_def Let_def a_def[symmetric] st_def[symmetric] split: bind_splits)
  have g: "decode_coarse_energy nb start fin oldEBands budget C LM =
      (\<lambda>d. Option.bind (if ec_tell d + 3 \<le> budget then ec_dec_bit_logp 3 d else Some (False, d))
        (\<lambda>(intra, d). unquant_coarse_energy nb start fin oldEBands intra C LM d))"
    by (simp add: fun_eq_iff decode_coarse_energy_def Let_def)
  show ?thesis unfolding p g
  proof (rule carries_bind[OF flag])
    show "\<exists>v. x = v" for x :: bool by blast
  next
    fix x s1 v assume q: "map_option (Pair intra) (put1 s) = Some (x, s1)" and adv: "advances s s1" and v: "x = v"
    then have s1: "put1 s = Some s1" and x: "v = intra" by auto
    have f: "(if ec_tell s + 3 \<le> budget then ec_enc_bit_logp intra 3 s else Some s) = Some s1" using s1 by (simp only: put1_def)
    have nb: "\<not> one_bit_at_start a 0 st s1" if "start < fin"
      using bit that by (simp add: first_band_one_bit_def f cb(1) a_def[symmetric] st_def[symmetric])
    have qa: "q_start a = start" "q_end a = fin" "q_C a = C" by (simp_all add: a_def)
    have l: "carries s1 (band_loop (quant_step a) fin C start 0 st)
        (band_loop (unquant_step (coarse_args.truncate a)) fin C start 0 (c_old st, c_prev st)) (\<lambda>st' v. v = (c_old st', c_prev st'))"
    proof (rule quant_loop_carries[OF ok C, unfolded qa])
      show "start \<le> start" by simp
      show "\<not> one_bit_at_start a 0 st s1" if "start < fin" by (rule nb[OF that])
    qed
    have t: "coarse_args.truncate a = \<lparr>q_nb = nb, q_end = fin, q_budget = budget, q_prob = prob_model, q_C = C, q_coef = coef, q_beta = beta\<rparr>"
      by (simp add: a_def coarse_args.truncate_def)
    have len: "length (ec_buf s1) = length (ec_buf s)" using adv by (simp add: advances_def)
    have "carries s1 (?put2 x) (\<lambda>d. Option.bind (band_loop (unquant_step (coarse_args.truncate a)) fin C start 0 (c_old st, c_prev st) d)
        (\<lambda>(st, d). Some (fst st, d))) (\<lambda>(olds, _) v. v = olds)"
      by (rule carries_conv[OF l]) auto
    then show "carries s1 (?put2 x) (unquant_coarse_energy nb start fin oldEBands v C LM) (\<lambda>(olds, _) v. v = olds)"
      by (rule carries_look) (simp add: unquant_coarse_energy_def x prob cb(1) t len s32[unfolded budget] budget st_def)
  qed
qed

subsection \<open>The fine energy and the last bits are transmitted\<close>

definition energies_ok :: "nat \<Rightarrow> nat \<Rightarrow> nat \<Rightarrow> nat list \<Rightarrow> int list \<Rightarrow> int list \<Rightarrow> bool" where
  "energies_ok nb fin C fine_quant oldEBands error \<longleftrightarrow> fin \<le> nb \<and> fin \<le> length fine_quant \<and> (\<forall>b \<in> set fine_quant. b \<le> 10) \<and>
     C * nb \<le> length oldEBands \<and> C * nb \<le> length error"

lemma bits_carries:
  assumes "0 < bits" "bits \<le> 10" "0 \<le> q2" "q2 < 2 ^ bits"
  shows "carries s (\<lambda>e. Some (q2, ec_enc_bits (word_of_int q2) bits e)) (\<lambda>d. Some (ec_dec_bits bits d)) (\<lambda>a v. sint v = a)"
proof -
  have le: "(2 :: nat) ^ bits \<le> 2 ^ 10" using assms(2) by (intro power_increasing) simp_all
  have q: "q2 = int (nat q2)" "nat q2 < 2 ^ bits" using assms(3,4) by (simp_all add: nat_less_iff)
  have n: "nat q2 < 1024" using less_le_trans[OF q(2) le] by simp
  have w: "word_of_int q2 = (word_of_nat (nat q2) :: u32)" using q(1) by (metis of_int_of_nat_eq)
  have "unat (word_of_int q2 :: u32) = nat q2" unfolding w using n by (intro unat_nat_u32) simp
  then have t: "transmits (\<lambda>s. Some (ec_enc_bits (word_of_int q2) bits s)) (\<lambda>d. Some (ec_dec_bits bits d)) (\<lambda>v. v = word_of_int q2)"
    using assms q(2) by (intro bits_transmit) simp_all
  have "sint (word_of_int q2 :: u32) = q2" unfolding w using n q(1) by (subst sint_small) simp_all
  with transmits_value[OF t] show ?thesis by (intro carries_conv[OF transmits_value[OF t]]) auto
qed

lemma s16_power: "b \<le> 10 \<Longrightarrow> s16 (2 ^ b) = 2 ^ b"
proof -
  assume "b \<le> 10"
  then have "(2 :: int) ^ b \<le> 2 ^ 10" by (intro power_increasing) simp_all
  moreover have "(2 :: int) ^ 10 = 1024" "(0 :: int) \<le> 2 ^ b" by simp_all
  ultimately show ?thesis by (intro s16_fits) linarith+
qed

lemma fine_carries:
  assumes "energies_ok nb fin C fine_quant oldEBands error" "0 < C"
  shows "carries s (quant_fine_energy nb start fin oldEBands error fine_quant C) (unquant_fine_energy nb start fin oldEBands fine_quant C)
    (\<lambda>st v. v = fst st)"
proof -
  let ?P = "\<lambda>i c st s. energies_ok nb fin C fine_quant (fst st) (snd st)"
  have "carries s (band_loop (quant_fine_step nb fine_quant) fin C start 0 (oldEBands, error))
    (band_loop (unquant_fine_step nb fine_quant) fin C start 0 (fst (oldEBands, error))) (\<lambda>st v. v = fst st)"
  proof (rule band_loop_carries[where P = ?P])
    fix i c st s assume i: "i < fin" "c < C" and P: "?P i c st s"
    obtain olds err where st: "st = (olds, err)" by (rule prod.exhaust)
    let ?k = "i + c * nb" and ?b = "fine_quant ! i"
    have k: "?k < length olds" "?k < length err" "i < length fine_quant" "?b \<le> 10"
      using P i index_less_channels[of i fin nb c C] by (auto simp: energies_ok_def st)
    show "carries s (quant_fine_step nb fine_quant i c st) (unquant_fine_step nb fine_quant i c (fst st)) (\<lambda>st v. v = fst st)"
    proof (cases "?b = 0")
      case True
      then show ?thesis
        using k by (simp add: quant_fine_step_def[abs_def] unquant_fine_step_def[abs_def] elem_def st carries_return)
    next
      case False
      define x where "x = SHR (err ! ?k + 512) (10 - ?b)"
      define q2 where "q2 = (let q2 = (if x > s16 (2 ^ ?b) - 1 then s16 (2 ^ ?b) - 1 else x) in if q2 < 0 then 0 else q2)"
      have q2: "0 \<le> q2" "q2 < 2 ^ ?b" by (auto simp: q2_def Let_def s16_power[OF k(4)])
      show ?thesis
        by (rule carries_conv[OF bits_carries[OF _ k(4) q2]])
          (use False k in \<open>auto simp: quant_fine_step_def unquant_fine_step_def elem_def store_def st q2_def x_def Let_def\<close>)
    qed
    fix st' s' assume q: "quant_fine_step nb fine_quant i c st s = Some (st', s')"
    show "?P (i + 1) 0 st' s'"
      using P q by (auto simp: quant_fine_step_def store_def energies_ok_def Let_def split: bind_splits if_splits prod.splits)
    then show "?P i (c + 1) st' s'" .
  qed (use assms in simp_all)
  then show ?thesis by (simp add: quant_fine_energy_def[abs_def] unquant_fine_energy_def[abs_def])
qed

lemma band_loop_inv:
  assumes "\<And>i c st s st' s'. P st \<Longrightarrow> body i c st s = Some (st', s') \<Longrightarrow> P st'" "P st" "band_loop body fin C i c st s = Some (st', s')"
  shows "P st'"
  using assms
proof (induction body fin C i c st s rule: band_loop.induct)
  case (1 body fin C i c st s)
  show ?case
  proof (cases "i < fin")
    case True
    then obtain st1 s1 where b: "body i c st s = Some (st1, s1)"
      "(if c + 1 < C then band_loop body fin C i (c + 1) st1 s1 else band_loop body fin C (i + 1) 0 st1 s1) = Some (st', s')"
      using "1.prems"(3) by (auto simp: band_loop.simps[of body fin C i c] bind_eq_Some_conv)
    then show ?thesis
      using "1.IH"(1)[OF True b(1) refl _ "1.prems"(1)] "1.IH"(2)[OF True b(1) refl _ "1.prems"(1)] "1.prems"(1)[OF "1.prems"(2) b(1)]
      by (cases "c + 1 < C") simp_all
  qed (use "1.prems"(2,3) in \<open>simp add: band_loop.simps[of body fin C i c]\<close>)
qed

lemma budget_loop_inv:
  assumes "\<And>i c st s st' s'. P st \<Longrightarrow> body i c st s = Some (st', s') \<Longrightarrow> P st'"
    "P st" "budget_loop left body fine_quant fine_priority prio fin C i st s = Some (st', s')"
  shows "P st'"
  using assms(2,3)
proof (induction "fin - i" arbitrary: i st s)
  case 0
  then show ?case by (simp add: budget_loop.simps[of left body fine_quant fine_priority prio fin C i])
next
  case (Suc n)
  note IH = Suc.hyps(1)[of "i + 1"]
  show ?case
  proof (cases "left st \<ge> int C \<and> i < fin")
    case True
    then obtain bits :: nat and p :: int where b: "(if bits \<ge> 8 \<or> p \<noteq> prio then budget_loop left body fine_quant fine_priority prio fin C (i + 1) st s
        else Option.bind (band_loop body (i + 1) C i 0 st s) (\<lambda>(st, s). budget_loop left body fine_quant fine_priority prio fin C (i + 1) st s))
        = Some (st', s')"
      using Suc.prems(2) by (auto simp: budget_loop.simps[of left body fine_quant fine_priority prio fin C i] bind_eq_Some_conv)
    show ?thesis
    proof (cases "bits \<ge> 8 \<or> p \<noteq> prio")
      case False
      then obtain st1 s1 where l: "band_loop body (i + 1) C i 0 st s = Some (st1, s1)"
        "budget_loop left body fine_quant fine_priority prio fin C (i + 1) st1 s1 = Some (st', s')"
        using b by (auto simp: bind_eq_Some_conv)
      have "P st1" by (rule band_loop_inv[where P = P, OF assms(1) Suc.prems(1) l(1)])
      then show ?thesis using IH l(2) Suc.hyps(2) by simp
    qed (use b IH Suc.prems(1) Suc.hyps(2) in simp)
  qed (use Suc.prems in \<open>auto simp: budget_loop.simps[of left body fine_quant fine_priority prio fin C i]\<close>)
qed

lemma budget_loop_carries:
  assumes step: "\<And>i c st s. i < fin \<Longrightarrow> c < C \<Longrightarrow> P st \<Longrightarrow> carries s (put i c st) (get i c (r st)) (\<lambda>st' v. v = r st')"
    "\<And>i c st s st' s'. P st \<Longrightarrow> put i c st s = Some (st', s') \<Longrightarrow> P st'"
    and len: "fin \<le> length fine_quant" "fin \<le> length fine_priority" and "\<And>st. left' (r st) = left st" "0 < C" "P st"
  shows "carries s (budget_loop left put fine_quant fine_priority prio fin C i st)
    (budget_loop left' get fine_quant fine_priority prio fin C i (r st)) (\<lambda>st' v. v = r st')"
  using assms(7)
proof (induction "fin - i" arbitrary: i st s)
  case 0
  then have "budget_loop left put fine_quant fine_priority prio fin C i st = (\<lambda>s. Some (st, s))"
    "budget_loop left' get fine_quant fine_priority prio fin C i (r st) = (\<lambda>d. Some (r st, d))"
    by (simp_all add: fun_eq_iff budget_loop.simps[of _ _ fine_quant fine_priority prio fin C i])
  then show ?case by (simp add: carries_return)
next
  case (Suc n)
  note IH = Suc.hyps(1)[of "i + 1"]
  have i: "i < fin" "n = fin - (i + 1)" using Suc.hyps(2) by simp_all
  have e: "elem fine_quant i = Some (fine_quant ! i)" "elem fine_priority i = Some (fine_priority ! i)" using i(1) len by (simp_all add: elem_def)
  let ?skip = "fine_quant ! i \<ge> 8 \<or> fine_priority ! i \<noteq> prio"
  let ?p = "budget_loop left put fine_quant fine_priority prio fin C" and ?g = "budget_loop left' get fine_quant fine_priority prio fin C"
  show ?case
  proof (cases "left st \<ge> int C")
    case False
    then have "?p i st = (\<lambda>s. Some (st, s))" "?g i (r st) = (\<lambda>d. Some (r st, d))"
      using assms(5) by (simp_all add: fun_eq_iff budget_loop.simps[of _ _ fine_quant fine_priority prio fin C i])
    then show ?thesis by (simp add: carries_return)
  next
    case l: True
    show ?thesis
    proof (cases ?skip)
      case True
      then have "?p i st = ?p (i + 1) st" "?g i (r st) = ?g (i + 1) (r st)"
        using i l assms(5) by (simp_all add: fun_eq_iff e budget_loop.simps[of _ _ fine_quant fine_priority prio fin C i])
      then show ?thesis using IH[OF i(2) Suc.prems] by simp
    next
      case False
      then have loops: "?p i st = (\<lambda>s. Option.bind (band_loop put (i + 1) C i 0 st s) (\<lambda>(st, s). ?p (i + 1) st s))"
        "?g i (r st) = (\<lambda>d. Option.bind (band_loop get (i + 1) C i 0 (r st) d) (\<lambda>(v, d). ?g (i + 1) v d))"
        using i l assms(5) by (simp_all add: fun_eq_iff e budget_loop.simps[of _ _ fine_quant fine_priority prio fin C i])
      have b: "carries s (band_loop put (i + 1) C i 0 st) (band_loop get (i + 1) C i 0 (r st)) (\<lambda>st' v. v = r st')"
        by (rule band_loop_carries[where P = "\<lambda>_ _ st _. P st"]) (use step i(1) Suc.prems assms(6) in auto)
      show ?thesis unfolding loops
      proof (rule carries_bind[OF b])
        fix st1 s1 v assume q: "band_loop put (i + 1) C i 0 st s = Some (st1, s1)" and v: "v = r st1"
        have "P st1" by (rule band_loop_inv[where P = P, OF step(2) Suc.prems q])
        then show "carries s1 (?p (i + 1) st1) (?g (i + 1) v) (\<lambda>st' v. v = r st')" using IH[OF i(2)] v by simp
      qed blast
    qed
  qed
qed

lemma finalise_carries:
  assumes "energies_ok nb fin C fine_quant oldEBands error" "0 < C" "fin \<le> length fine_priority"
  shows "carries s (quant_energy_finalise nb start fin oldEBands error fine_quant fine_priority bits_left C)
    (unquant_energy_finalise nb start fin oldEBands fine_quant fine_priority bits_left C) (\<lambda>(olds, _, l) v. v = (olds, l))"
proof -
  let ?r = "\<lambda>(olds :: int list, error :: int list, l :: int). (olds, l)"
  let ?P = "\<lambda>(olds, error, l :: int). energies_ok nb fin C fine_quant olds error"
  let ?put = "finalise_step nb fine_quant" and ?get = "unfinalise_step nb fine_quant"
  have step: "carries s (?put i c st) (?get i c (?r st)) (\<lambda>st' v. v = ?r st')" if i: "i < fin" "c < C" and P: "?P st" for i c st s
  proof -
    obtain olds err l where st: "st = (olds, err, l)" by (rule prod_cases3)
    let ?k = "i + c * nb"
    have k: "?k < length olds" "?k < length err" "i < length fine_quant"
      using P i index_less_channels[of i fin nb c C] by (auto simp: energies_ok_def st)
    have q2: "0 \<le> (if err ! ?k < 0 then 0 else 1 :: int)" "(if err ! ?k < 0 then 0 else 1 :: int) < 2 ^ 1" by simp_all
    have b: "(0 :: nat) < 1" "(1 :: nat) \<le> 10" by simp_all
    show ?thesis
      by (rule carries_conv[OF bits_carries[OF b q2]])
        (use k in \<open>auto simp: finalise_step_def unfinalise_step_def elem_def store_def st Let_def\<close>)
  qed
  have inv: "?P st'" if "?P st" "?put i c st s = Some (st', s')" for i c st s st' s'
    using that by (auto simp: finalise_step_def store_def energies_ok_def Let_def split: bind_splits if_splits prod.splits)
  have len: "fin \<le> length fine_quant" using assms(1) by (simp add: energies_ok_def)
  have snd_r: "snd (?r st) = (\<lambda>(_, _, l). l) st" for st by (simp split: prod.split)
  have loop: "carries s (budget_loop (\<lambda>(_, _, l). l) ?put fine_quant fine_priority prio fin C start st)
      (budget_loop snd ?get fine_quant fine_priority prio fin C start (?r st)) (\<lambda>st' v. v = ?r st')" if "?P st" for st s prio
    by (rule budget_loop_carries[where P = ?P and r = ?r]) (fact step inv len assms(3) snd_r assms(2) that)+
  have st0: "?P (oldEBands, error, bits_left)" using assms(1) by simp
  have "carries s (\<lambda>s. Option.bind (budget_loop (\<lambda>(_, _, l). l) ?put fine_quant fine_priority 0 fin C start (oldEBands, error, bits_left) s)
        (\<lambda>(st, s). budget_loop (\<lambda>(_, _, l). l) ?put fine_quant fine_priority 1 fin C start st s))
      (\<lambda>d. Option.bind (budget_loop snd ?get fine_quant fine_priority 0 fin C start (?r (oldEBands, error, bits_left)) d)
        (\<lambda>(v, d). budget_loop snd ?get fine_quant fine_priority 1 fin C start v d)) (\<lambda>st v. v = ?r st)"
  proof (rule carries_bind[OF loop[OF st0]])
    fix st1 s1 v
    assume q: "budget_loop (\<lambda>(_, _, l). l) ?put fine_quant fine_priority 0 fin C start (oldEBands, error, bits_left) s = Some (st1, s1)"
      and v: "v = ?r st1"
    have "?P st1" by (rule budget_loop_inv[where P = ?P, OF inv st0 q])
    from loop[OF this] show "carries s1 (budget_loop (\<lambda>(_, _, l). l) ?put fine_quant fine_priority 1 fin C start st1)
        (budget_loop snd ?get fine_quant fine_priority 1 fin C start v) (\<lambda>st v. v = ?r st)" unfolding v .
  qed blast
  then show ?thesis
    by (simp add: quant_energy_finalise_def[abs_def] unquant_energy_finalise_def[abs_def] split_def)
qed

subsection \<open>Decoding any bytes\<close>

lemma reads_conv:
  assumes "reads get ok" "\<And>d v d'. get d = Some (v, d') \<Longrightarrow> ok v \<Longrightarrow> \<exists>w. get' d = Some (w, d') \<and> ok' w"
  shows "reads get' ok'"
  using assms unfolding reads_def by metis

lemma reads_at: "(\<And>x. reads (get x) ok) \<Longrightarrow> reads (\<lambda>d. get (f d) d) ok"
  by (simp add: reads_def)

lemma qi_reads:
  assumes "prob_ok prob_model"
  shows "reads (get_qi prob_model i left) (\<lambda>v. \<bar>v\<bar> \<le> 64)"
proof -
  consider "15 \<le> left" | "2 \<le> left" "left < 15" | "left = 1" | "left < 1" by linarith
  then show ?thesis
  proof cases
    case 1
    define j where "j = min i 20"
    have j: "2 * j + 1 < length prob_model" using assms by (simp add: j_def prob_ok_def)
    have "laplace_ok (unat (push_bit 7 (ucast (prob_model ! (2 * j))) :: u32)) (unat (prob_model ! (2 * j + 1)) * 64)"
      using models_ok_at[of "map unat prob_model" j] assms j by (simp add: prob_ok_def prob_word del: push_bit_eq_mult)
    from laplace_reads[OF this] show ?thesis
      using 1 j by (simp add: get_qi_def[abs_def] j_def[symmetric] elem_def Let_def del: push_bit_eq_mult)
  next
    case 2
    have "icdf_ok small_energy_icdf 2" by (simp add: icdf_ok_def small_energy_icdf_def)
    note r = icdf_reads[OF this]
    have "\<bar>SHR (int v) 1 XOR - (int v AND 1)\<bar> \<le> 64" if "icdf_valid (v, small_energy_icdf, 2)" for v
    proof -
      have "v \<in> {0, 1, 2}" using that by (auto simp: icdf_valid_def small_energy_icdf_def)
      then show ?thesis by (auto simp: SHR_def)
    qed
    then show ?thesis by (intro reads_conv[OF r]) (use 2 in \<open>auto simp: get_qi_def\<close>)
  next
    case 3
    have "reads (ec_dec_bit_logp 1) (\<lambda>_. True)" by (rule logp_reads) simp_all
    then show ?thesis by (rule reads_conv) (auto simp: get_qi_def 3)
  next
    case 4
    then show ?thesis using reads_return[of "\<lambda>v. \<bar>v\<bar> \<le> 64" "- 1 :: int"] by (simp add: get_qi_def[abs_def])
  qed
qed

text \<open>\<open>ok i c v\<close> holds before the body for the channel \<open>c\<close> of the band \<open>i\<close>.\<close>

lemma band_loop_reads_at:
  assumes "\<And>i c v. i < fin \<Longrightarrow> c < C \<Longrightarrow> ok i c v \<Longrightarrow> reads (get i c v) (\<lambda>w. (c + 1 < C \<longrightarrow> ok i (c + 1) w) \<and> ok (i + 1) 0 w)"
    "ok i c v" "c < C"
  shows "reads (band_loop get fin C i c v) (\<lambda>w. \<exists>i c. ok i c w)"
proof -
  have "dec_wf d \<Longrightarrow> \<exists>w d'. band_loop get fin C i c v d = Some (w, d') \<and> (\<exists>i c. ok i c w) \<and> dec_wf d' \<and> ec_buf d' = ec_buf d" for d
    using assms
  proof (induction get fin C i c v d rule: band_loop.induct)
    case (1 get fin C i c v d)
    show ?case
    proof (cases "i < fin")
      case True
      then obtain v1 d1 where g: "get i c v d = Some (v1, d1)" "c + 1 < C \<longrightarrow> ok i (c + 1) v1" "ok (i + 1) 0 v1" "dec_wf d1" "ec_buf d1 = ec_buf d"
        using "1.prems"(1) "1.prems"(2)[OF True "1.prems"(4,3)] unfolding reads_def by blast
      show ?thesis
      proof (cases "c + 1 < C")
        case c: True
        from "1.IH"(1)[OF True g(1) refl c g(4) "1.prems"(2) _ c] show ?thesis
          using g True c by (auto simp: band_loop.simps[of get fin C i c])
      next
        case c: False
        have "0 < C" using "1.prems"(4) by simp
        from "1.IH"(2)[OF True g(1) refl c g(4) "1.prems"(2) g(3) this] show ?thesis
          using g True c by (auto simp: band_loop.simps[of get fin C i c])
      qed
    qed (use "1.prems" in \<open>auto simp: band_loop.simps[of get fin C i c]\<close>)
  qed
  then show ?thesis by (simp add: reads_def)
qed

lemma band_loop_reads:
  assumes "\<And>i c v. i < fin \<Longrightarrow> c < C \<Longrightarrow> ok v \<Longrightarrow> reads (get i c v) ok" "ok v" "c < C"
  shows "reads (band_loop get fin C i c v) ok"
proof -
  have "reads (get i c v) (\<lambda>w. (c + 1 < C \<longrightarrow> ok w) \<and> ok w)" if "i < fin" "c < C" "ok v" for i c v
    by (rule reads_conv[OF assms(1)[OF that]]) auto
  from band_loop_reads_at[where ok = "\<lambda>_ _. ok", OF this assms(2,3)] show ?thesis by simp
qed

lemma budget_loop_reads:
  assumes "\<And>i c v. i < fin \<Longrightarrow> c < C \<Longrightarrow> ok v \<Longrightarrow> reads (get i c v) ok" "ok v" "0 < C" "fin \<le> length fine_quant" "fin \<le> length fine_priority"
  shows "reads (budget_loop left get fine_quant fine_priority prio fin C i v) ok"
  using assms(2)
proof (induction "fin - i" arbitrary: i v)
  case 0
  then show ?case using reads_return[of ok v] by (simp add: budget_loop.simps[abs_def])
next
  case (Suc n)
  have i: "i < fin" "n = fin - (i + 1)" using Suc.hyps(2) by simp_all
  have e: "elem fine_quant i = Some (fine_quant ! i)" "elem fine_priority i = Some (fine_priority ! i)"
    using i(1) assms(4,5) by (simp_all add: elem_def)
  let ?g = "budget_loop left get fine_quant fine_priority prio fin C"
  note IH = Suc.hyps(1)[OF i(2)]
  have b: "reads (band_loop get (i + 1) C i 0 v) ok"
    by (rule band_loop_reads) (use assms(1,3) i(1) Suc.prems in auto)
  consider "\<not> left v \<ge> int C" | "left v \<ge> int C" "fine_quant ! i \<ge> 8 \<or> fine_priority ! i \<noteq> prio"
    | "left v \<ge> int C" "\<not> (fine_quant ! i \<ge> 8 \<or> fine_priority ! i \<noteq> prio)" by blast
  then show ?case
  proof cases
    case 1
    then have "?g i v = (\<lambda>d. Some (v, d))" by (simp add: fun_eq_iff budget_loop.simps[of left get fine_quant fine_priority prio fin C i])
    then show ?thesis using reads_return[of ok v] Suc.prems by simp
  next
    case 2
    then have "?g i v = ?g (i + 1) v" using i by (simp add: fun_eq_iff e budget_loop.simps[of left get fine_quant fine_priority prio fin C i])
    then show ?thesis using IH[OF Suc.prems] by simp
  next
    case 3
    then have "?g i v = (\<lambda>d. Option.bind (band_loop get (i + 1) C i 0 v d) (\<lambda>(v, d). ?g (i + 1) v d))"
      using i by (simp add: fun_eq_iff e budget_loop.simps[of left get fine_quant fine_priority prio fin C i])
    then show ?thesis using reads_bind[OF b IH] by simp
  qed
qed

text \<open>What the decoder keeps: the length of the array, and energies of 16 bits.\<close>

definition olds_ok :: "nat \<Rightarrow> int list \<Rightarrow> bool" where
  "olds_ok n olds \<longleftrightarrow> length olds = n \<and> (\<forall>x \<in> set olds. - 32768 \<le> x \<and> x < 32768)"

lemma olds_ok_update: "olds_ok n olds \<Longrightarrow> olds_ok n (olds[k := s16 x])"
  using s16_range[of x] by (auto simp: olds_ok_def dest!: subsetD[OF set_update_subset_insert])

lemma unquant_coarse_reads:
  assumes "C \<in> {1, 2}" "LM < 4" "fin \<le> nb" "C * nb \<le> n" "olds_ok n oldEBands" "fin \<le> 25"
  shows "reads (unquant_coarse_energy nb start fin oldEBands intra C LM) (olds_ok n)"
proof -
  obtain coef beta where cb: "coarse_coefs LM intra = Some (coef, beta)" "0 \<le> beta" "beta < 32768"
    using coarse_coefs_range[OF assms(2)] by blast
  obtain prob_model where p: "prob_model_at LM intra = Some prob_model" "prob_ok prob_model" using prob_ok_table[OF assms(2)] by blast
  let ?a = "\<lambda>budget. \<lparr>q_nb = nb, q_end = fin, q_budget = budget, q_prob = prob_model, q_C = C, q_coef = coef, q_beta = beta\<rparr>"
  let ?ok = "\<lambda>i c (olds, prevs). olds_ok n olds \<and> length prevs = 2 \<and> (\<forall>p \<in> set prevs. \<bar>p\<bar> \<le> int (i * C + c) * 8388608)"
  let ?next = "\<lambda>i c w. (c + 1 < C \<longrightarrow> ?ok i (c + 1) w) \<and> ?ok (i + 1) 0 w"
  have step: "reads (unquant_step (?a budget) i c v) (?next i c)" if i: "i < fin" "c < C" "?ok i c v" for i c v budget
  proof -
    obtain olds prevs where v: "v = (olds, prevs)" by (rule prod.exhaust)
    let ?n = "i * C + c" and ?k = "i + c * nb"
    have k: "?k < length olds" "c < length prevs"
      using i assms(1,3,4) index_less_channels[of i fin nb c C] by (auto simp: v olds_ok_def)
    have n: "?n < 50" by (rule step_count[OF i(1) assms(6) i(2) assms(1)])
    have prevs: "\<forall>p \<in> set prevs. \<bar>p\<bar> \<le> int ?n * 8388608" using i(3) by (simp add: v)
    then have "\<bar>prevs ! c\<bar> \<le> int ?n * 8388608" using k(2) by simp
    moreover then have "\<bar>prevs ! c\<bar> \<le> 50 * 8388608" by (rule below_50(1)) (rule n)
    ultimately have update: "\<exists>e p. coarse_update coef beta old (prevs ! c) qi = Some (s16 e, p) \<and> \<bar>p\<bar> \<le> int (?n + 1) * 8388608"
      if "\<bar>qi\<bar> \<le> 64" for qi old
      using coarse_update_fits[OF _ that cb(2,3)] by fastforce
    have "reads (\<lambda>d. get_qi prob_model i (budget - ec_tell d) d) (\<lambda>v. \<bar>v\<bar> \<le> 64)" by (rule reads_at) (rule qi_reads[OF p(2)])
    then show ?thesis
    proof (rule reads_conv)
      fix d qi d' assume g: "get_qi prob_model i (budget - ec_tell d) d = Some (qi, d')" "\<bar>qi\<bar> \<le> 64"
      obtain e r where u: "coarse_update coef beta (max (- 9216) (olds ! ?k)) (prevs ! c) qi = Some (s16 e, r)"
        "\<bar>r\<bar> \<le> int (?n + 1) * 8388608" using update[OF g(2)] by blast
      let ?w = "(olds[?k := s16 e], prevs[c := r])"
      have m: "int m * 8388608 \<le> int m' * 8388608" if "m \<le> m'" for m m' using that by simp
      have "\<bar>p\<bar> \<le> int (?n + 1) * 8388608" if "p \<in> set (prevs[c := r])" for p
      proof -
        have "p = r \<or> p \<in> set prevs" using that set_update_subset_insert by fastforce
        then show ?thesis using u(2) prevs m[of ?n "?n + 1"] by fastforce
      qed
      moreover have "?n + 1 \<le> (i + 1) * C + 0" using i(2) by simp
      ultimately have "?next i c ?w"
        using i(3) m[of "?n + 1" "(i + 1) * C + 0"] by (fastforce simp: v add.assoc intro!: olds_ok_update)
      moreover have "unquant_step (?a budget) i c v d = Some (?w, d')"
        using g(1) k u(1) by (simp add: unquant_step_def v elem_def store_def Let_def)
      ultimately show "\<exists>w. unquant_step (?a budget) i c v d = Some (w, d') \<and> ?next i c w" by blast
    qed
  qed
  have start: "?ok start 0 (oldEBands, [0, 0])" "0 < C" using assms(1,5) by auto
  have loop: "reads (band_loop (unquant_step (?a budget)) fin C start 0 (oldEBands, [0, 0])) (\<lambda>(olds, _). olds_ok n olds)" for budget
    by (rule reads_conv[OF band_loop_reads_at[where ok = ?ok, OF step start]]) auto
  have "reads (\<lambda>d. band_loop (unquant_step (?a (s32 (8 * int (length (ec_buf d)))))) fin C start 0 (oldEBands, [0, 0]) d) (\<lambda>(olds, _). olds_ok n olds)"
    by (rule reads_at) (rule loop)
  then show ?thesis by (rule reads_conv) (auto simp: unquant_coarse_energy_def p cb(1) Let_def)
qed

lemma decode_coarse_reads:
  assumes "C \<in> {1, 2}" "LM < 4" "fin \<le> nb" "C * nb \<le> n" "olds_ok n oldEBands" "fin \<le> 25"
  shows "reads (decode_coarse_energy nb start fin oldEBands total_bits C LM) (olds_ok n)"
proof -
  have "reads (\<lambda>d. if b then ec_dec_bit_logp 3 d else Some (False, d)) (\<lambda>_. True)" for b
    using logp_reads[of 3] reads_return[of "\<lambda>_. True" False] by (cases b) simp_all
  then have "reads (\<lambda>d. if ec_tell d + 3 \<le> total_bits then ec_dec_bit_logp 3 d else Some (False, d)) (\<lambda>_. True)"
    by (simp add: reads_def)
  from reads_bind[OF this unquant_coarse_reads[OF assms]] show ?thesis
    by (simp add: decode_coarse_energy_def[abs_def] Let_def)
qed

lemma bits_reads: "0 < bits \<Longrightarrow> bits \<le> 25 \<Longrightarrow> reads (\<lambda>d. Some (ec_dec_bits bits d)) (\<lambda>v. unat v < 2 ^ bits)"
  unfolding reads_def by (metis bits_wf prod.exhaust)

lemma unquant_fine_reads:
  assumes "0 < C" "fin \<le> nb" "C * nb \<le> n" "fin \<le> length fine_quant" "\<forall>b \<in> set fine_quant. b \<le> 10" "olds_ok n oldEBands"
  shows "reads (unquant_fine_energy nb start fin oldEBands fine_quant C) (olds_ok n)"
proof -
  have step: "reads (unquant_fine_step nb fine_quant i c v) (olds_ok n)" if i: "i < fin" "c < C" "olds_ok n v" for i c v
  proof -
    have k: "i + c * nb < length v" "i < length fine_quant"
      using i assms(2-4) index_less_channels[of i fin nb c C] by (auto simp: olds_ok_def)
    then have e: "elem fine_quant i = Some (fine_quant ! i)" "fine_quant ! i \<le> 25" using assms(5) nth_mem[OF k(2)] by (fastforce simp: elem_def)+
    show ?thesis
    proof (cases "fine_quant ! i = 0")
      case True
      then show ?thesis using reads_return[of "olds_ok n" v] i(3) by (simp add: unquant_fine_step_def[abs_def] e)
    next
      case False
      then have "0 < fine_quant ! i" by simp
      from bits_reads[OF this e(2)] show ?thesis
        by (rule reads_conv)
          (use False k i(3) in \<open>auto simp: unquant_fine_step_def e elem_def store_def Let_def intro!: olds_ok_update\<close>)
    qed
  qed
  have "reads (band_loop (unquant_fine_step nb fine_quant) fin C start 0 oldEBands) (olds_ok n)"
    by (rule band_loop_reads) (use step assms in auto)
  then show ?thesis by (simp add: unquant_fine_energy_def[abs_def])
qed

lemma unquant_finalise_reads:
  assumes "0 < C" "fin \<le> nb" "C * nb \<le> n" "fin \<le> length fine_quant" "fin \<le> length fine_priority" "olds_ok n oldEBands"
  shows "reads (unquant_energy_finalise nb start fin oldEBands fine_quant fine_priority bits_left C) (\<lambda>(olds, _). olds_ok n olds)"
proof -
  let ?ok = "\<lambda>(olds, _ :: int). olds_ok n olds" and ?get = "unfinalise_step nb fine_quant"
  have step: "reads (?get i c v) ?ok" if i: "i < fin" "c < C" "?ok v" for i c v
  proof -
    obtain olds l where v: "v = (olds, l)" by (rule prod.exhaust)
    have k: "i + c * nb < length olds" "i < length fine_quant"
      using i assms(2-4) index_less_channels[of i fin nb c C] by (auto simp: olds_ok_def v)
    have "reads (\<lambda>d. Some (ec_dec_bits 1 d)) (\<lambda>v. unat v < 2 ^ 1)" by (rule bits_reads) simp_all
    then show ?thesis
      by (rule reads_conv) (use k i(3) in \<open>auto simp: unfinalise_step_def v elem_def store_def Let_def intro!: olds_ok_update\<close>)
  qed
  have loop: "reads (budget_loop snd ?get fine_quant fine_priority prio fin C start v) ?ok" if "?ok v" for v prio
    by (rule budget_loop_reads[OF step that assms(1,4,5)])
  have "reads (\<lambda>d. Option.bind (budget_loop snd ?get fine_quant fine_priority 0 fin C start (oldEBands, bits_left) d)
      (\<lambda>(v, d). budget_loop snd ?get fine_quant fine_priority 1 fin C start v d)) ?ok"
    by (rule reads_bind[OF loop loop]) (use assms(6) in simp_all)
  then show ?thesis by (simp add: unquant_energy_finalise_def[abs_def])
qed

end
