(* ===== verification/Celtframe.thy ===== *)
theory Celtframe
  imports Celtenergy
begin

section \<open>The energies of a frame, from the encoder to the decoder\<close>

text \<open>
  The order of a CELT frame (opus/celt/celt_encoder.c, celt_decoder.c): symbols, coarse energy, symbols and fine energy,
  pulse vectors and other symbols, the last bits. The symbols between, whose values come from parts that are not modelled,
  are lists of calls of the entropy coder and of \<open>encode_pulses\<close>.
\<close>

datatype item = Symbol ec_model nat | Pulses nat nat "int list"

fun item_kind :: "item \<Rightarrow> ec_model + nat \<times> nat" where
  "item_kind (Symbol m v) = Inl m"
| "item_kind (Pulses n k y) = Inr (n, k)"

fun item_value :: "item \<Rightarrow> nat + int list \<times> int" where
  "item_value (Symbol m v) = Inl v"
| "item_value (Pulses n k y) = Inr (y, sum_squares y)"

fun item_valid :: "item \<Rightarrow> bool" where
  "item_valid (Symbol m v) = sym_valid m v"
| "item_valid (Pulses n k y) = (pvq_ok n k \<and> 0 < k \<and> y \<in> pulse_vectors n k)"

fun put_item :: "item \<Rightarrow> ec_ctx \<Rightarrow> ec_ctx option" where
  "put_item (Symbol m v) s = put_sym m v s"
| "put_item (Pulses n k y) s = encode_pulses y n k s"

fun get_item :: "ec_model + nat \<times> nat \<Rightarrow> ec_ctx \<Rightarrow> ((nat + int list \<times> int) \<times> ec_ctx) option" where
  "get_item (Inl m) d = map_option (apfst Inl) (get_sym m d)"
| "get_item (Inr (n, k)) d = map_option (apfst Inr) (decode_pulses n k d)"

fun put_items :: "item list \<Rightarrow> ec_ctx \<Rightarrow> ec_ctx option" where
  "put_items [] s = Some s"
| "put_items (x # xs) s = do { s \<leftarrow> put_item x s; put_items xs s }"

fun get_items :: "(ec_model + nat \<times> nat) list \<Rightarrow> ec_ctx \<Rightarrow> ((nat + int list \<times> int) list \<times> ec_ctx) option" where
  "get_items [] d = Some ([], d)"
| "get_items (k # ks) d = do { (v, d) \<leftarrow> get_item k d; (vs, d) \<leftarrow> get_items ks d; Some (v # vs, d) }"

lemma item_transmits: "item_valid x \<Longrightarrow> transmits (put_item x) (get_item (item_kind x)) (\<lambda>v. v = item_value x)"
proof (cases x)
  case (Symbol m v)
  assume "item_valid x"
  then have "transmits (put_sym m v) (get_sym m) (\<lambda>w. w = v)" using Symbol by (simp add: sym_transmits)
  then show ?thesis unfolding Symbol put_item.simps[abs_def] by (rule transmits_get) (auto simp: Symbol)
next
  case (Pulses n k y)
  assume "item_valid x"
  then have "transmits (encode_pulses y n k) (decode_pulses n k) (\<lambda>r. r = (y, sum_squares y))"
    using Pulses by (intro pulses_transmit) simp_all
  then show ?thesis unfolding Pulses put_item.simps[abs_def] by (rule transmits_get) (auto simp: Pulses)
qed

lemma items_transmit:
  "\<forall>x \<in> set xs. item_valid x \<Longrightarrow> transmits (put_items xs) (get_items (map item_kind xs)) (\<lambda>vs. vs = map item_value xs)"
proof (induction xs)
  case Nil
  have "put_items [] = Some" "get_items [] = (\<lambda>d. Some ([], d))" by (simp_all add: fun_eq_iff)
  then show ?case using transmits_return [of "[]"] by simp
next
  case (Cons x xs)
  let ?get2 = "\<lambda>v d. do { (vs, d) \<leftarrow> get_items (map item_kind xs) d; Some (v # vs, d) }"
  have "transmits (put_items xs) (?get2 v) (\<lambda>vs. vs = map item_value (x # xs))" if "v = item_value x" for v
    by (rule transmits_get [OF Cons.IH]) (use Cons.prems that in auto)
  from transmits_bind [OF item_transmits this refl] Cons.prems
  have t: "transmits (\<lambda>s. Option.bind (put_item x s) (put_items xs)) (\<lambda>d. Option.bind (get_item (item_kind x) d) (\<lambda>(v, d). ?get2 v d))
    (\<lambda>vs. vs = map item_value (x # xs))" by simp
  have "put_items (x # xs) = (\<lambda>s. Option.bind (put_item x s) (put_items xs))" by (simp add: fun_eq_iff)
  moreover have "get_items (map item_kind (x # xs)) = (\<lambda>d. Option.bind (get_item (item_kind x) d) (\<lambda>(v, d). ?get2 v d))"
    by (simp add: fun_eq_iff)
  ultimately show ?case using t by simp
qed

lemma items_carry:
  assumes "\<forall>x \<in> set xs. item_valid x"
  shows "carries s (\<lambda>s. map_option (Pair a) (put_items xs s)) (get_items (map item_kind xs)) (\<lambda>_ vs. vs = map item_value xs)"
  using items_transmit[OF assms] by (simp only: transmits_carries[where a = a])

text \<open>The calls of both sides; \<open>celt_energies\<close> are the arguments that the code takes from its state and from parts not modelled.\<close>

record celt_energies =
  e_nb :: nat
  e_start :: nat
  e_end :: nat
  e_C :: nat
  e_LM :: nat
  e_old :: "int list"
  e_fine_quant :: "nat list"
  e_fine_priority :: "int list"

definition encode_frame :: "celt_energies \<Rightarrow> int list \<Rightarrow> int list \<Rightarrow> bool \<Rightarrow> int \<Rightarrow> bool \<Rightarrow> item list \<Rightarrow> item list \<Rightarrow> item list \<Rightarrow> ec_ctx \<Rightarrow>
    (int list \<times> ec_ctx) option" where
  "encode_frame a eBands error intra max_decay lfe xs ys zs s = do {
     let budget = 8 * int (length (ec_buf s));
     s \<leftarrow> put_items xs s;
     prob_model \<leftarrow> prob_model_at (e_LM a) intra;
     ((olds, error, _), s) \<leftarrow> quant_coarse_energy_impl (e_nb a) (e_start a) (e_end a) eBands (e_old a) budget (ec_tell s) prob_model error
       (e_C a) (e_LM a) intra max_decay lfe s;
     s \<leftarrow> put_items ys s;
     ((olds, error), s) \<leftarrow> quant_fine_energy (e_nb a) (e_start a) (e_end a) olds error (e_fine_quant a) (e_C a) s;
     s \<leftarrow> put_items zs s;
     ((olds, _), s) \<leftarrow> quant_energy_finalise (e_nb a) (e_start a) (e_end a) olds error (e_fine_quant a) (e_fine_priority a)
       (budget - ec_tell s) (e_C a) s;
     Some (olds, s)
   }"

definition decode_frame :: "celt_energies \<Rightarrow> (ec_model + nat \<times> nat) list \<Rightarrow> (ec_model + nat \<times> nat) list \<Rightarrow> (ec_model + nat \<times> nat) list \<Rightarrow> ec_ctx \<Rightarrow>
    ((int list \<times> (nat + int list \<times> int) list \<times> (nat + int list \<times> int) list \<times> (nat + int list \<times> int) list) \<times> ec_ctx) option" where
  "decode_frame a xs ys zs dec = do {
     let total_bits = 8 * int (length (ec_buf dec));
     (vs, dec) \<leftarrow> get_items xs dec;
     (olds, dec) \<leftarrow> decode_coarse_energy (e_nb a) (e_start a) (e_end a) (e_old a) total_bits (e_C a) (e_LM a) dec;
     (ws, dec) \<leftarrow> get_items ys dec;
     (olds, dec) \<leftarrow> unquant_fine_energy (e_nb a) (e_start a) (e_end a) olds (e_fine_quant a) (e_C a) dec;
     (us, dec) \<leftarrow> get_items zs dec;
     ((olds, _), dec) \<leftarrow> unquant_energy_finalise (e_nb a) (e_start a) (e_end a) olds (e_fine_quant a) (e_fine_priority a)
       (total_bits - ec_tell dec) (e_C a) dec;
     Some ((olds, vs, ws, us), dec)
   }"

lemma carries_put: "put' s = put s \<Longrightarrow> carries s put get ok \<Longrightarrow> carries s put' get ok"
  by (simp add: carries_def)

lemma carries_items_bind:
  assumes "\<forall>x \<in> set xs. item_valid x"
    "\<And>s1. put_items xs s = Some s1 \<Longrightarrow> advances s s1 \<Longrightarrow> carries s1 put2 (get2 (map item_value xs)) ok2"
  shows "carries s (\<lambda>s. Option.bind (put_items xs s) put2) (\<lambda>d. Option.bind (get_items (map item_kind xs) d) (\<lambda>(v, d). get2 v d)) ok2"
proof -
  have "carries s (\<lambda>s. Option.bind (map_option (Pair ()) (put_items xs s)) (\<lambda>(_, s). put2 s))
    (\<lambda>d. Option.bind (get_items (map item_kind xs) d) (\<lambda>(v, d). get2 v d)) ok2"
    by (rule carries_bind[OF items_carry[OF assms(1)]]) (use assms(2) in auto)
  then show ?thesis by (rule carries_put[rotated]) (cases "put_items xs s", simp_all)
qed

lemma carries_result:
  assumes "carries s put get ok" "\<And>a v. ok a v \<Longrightarrow> ok' (f a) (g v)"
  shows "carries s (\<lambda>s. Option.bind (put s) (\<lambda>(a, s). Some (f a, s))) (\<lambda>d. Option.bind (get d) (\<lambda>(v, d). Some (g v, d))) ok'"
  by (rule carries_conv[OF assms(1)]) (use assms(2) in auto)

definition frame_ok :: "celt_energies \<Rightarrow> int list \<Rightarrow> int list \<Rightarrow> bool" where
  "frame_ok a eBands error \<longleftrightarrow> e_C a \<in> {1, 2} \<and> e_LM a < 4 \<and> e_end a \<le> e_nb a \<and> e_C a * e_nb a \<le> length eBands \<and>
     e_C a * e_nb a \<le> length (e_old a) \<and> e_C a * e_nb a \<le> length error \<and> e_end a \<le> length (e_fine_quant a) \<and>
     (\<forall>b \<in> set (e_fine_quant a). b \<le> 10) \<and> e_end a \<le> length (e_fine_priority a) \<and> e_end a \<le> 25 \<and>
     (\<forall>x \<in> set eBands. - 32768 \<le> x \<and> x < 32768)"

text \<open>The flag may be sent, and a single bit is never all that is left for a channel of the first band.\<close>

definition coarse_bits_ok :: "celt_energies \<Rightarrow> int list \<Rightarrow> int list \<Rightarrow> bool \<Rightarrow> int \<Rightarrow> bool \<Rightarrow> ec_ctx \<Rightarrow> bool" where
  "coarse_bits_ok a eBands error intra max_decay lfe s \<longleftrightarrow> (let budget = 8 * int (length (ec_buf s)) in
     (budget < ec_tell s + 3 \<longrightarrow> \<not> intra) \<and>
     (case prob_model_at (e_LM a) intra of None \<Rightarrow> True | Some prob_model \<Rightarrow>
        \<not> first_band_one_bit (e_nb a) (e_start a) (e_end a) eBands (e_old a) budget (ec_tell s) prob_model error (e_C a) (e_LM a)
            intra max_decay lfe s))"

lemma coarse_keeps_lengths:
  assumes "quant_coarse_energy_impl nb start fin eBands oldEBands budget tell prob_model error C LM intra max_decay lfe s =
    Some ((olds, err, b), s')"
  shows "length olds = length oldEBands \<and> length err = length error"
proof -
  let ?P = "\<lambda>st. length (c_old st) = length oldEBands \<and> length (c_error st) = length error"
  obtain s1 coef beta st where l: "band_loop (quant_step \<lparr>q_nb = nb, q_end = fin, q_budget = budget, q_prob = prob_model, q_C = C, q_coef = coef,
         q_beta = beta, q_start = start, q_bands = eBands, q_decay = max_decay, q_lfe = lfe\<rparr>) fin C start 0
       \<lparr>c_old = oldEBands, c_prev = [0, 0], c_error = error, c_badness = 0\<rparr> s1 = Some (st, s')" "olds = c_old st" "err = c_error st"
    using assms by (auto simp: quant_coarse_energy_impl_def Let_def bind_eq_Some_conv split: if_splits)
  have "?P st"
    by (rule band_loop_inv[where P = ?P, OF _ _ l(1)])
      (auto simp: quant_step_def store_def Let_def split: bind_splits if_splits prod.splits)
  then show ?thesis using l(2,3) by simp
qed

lemma fine_keeps_lengths:
  assumes "quant_fine_energy nb start fin oldEBands error fine_quant C s = Some ((olds, err), s')"
  shows "length olds = length oldEBands \<and> length err = length error"
proof -
  let ?P = "\<lambda>st. length (fst st) = length oldEBands \<and> length (snd st) = length error"
  have "?P (olds, err)"
    by (rule band_loop_inv[where P = ?P, OF _ _ assms[unfolded quant_fine_energy_def]])
      (auto simp: quant_fine_step_def store_def Let_def split: bind_splits if_splits prod.splits)
  then show ?thesis by simp
qed

lemma frame_carries:
  assumes ok: "frame_ok a eBands error" and xs: "\<forall>x \<in> set xs. item_valid x" and ys: "\<forall>x \<in> set ys. item_valid x"
    and zs: "\<forall>x \<in> set zs. item_valid x"
    and bits: "\<And>s1. put_items xs s = Some s1 \<Longrightarrow> coarse_bits_ok a eBands error intra max_decay lfe s1"
    and len: "length (ec_buf s) < 2 ^ 28"
  shows "carries s (encode_frame a eBands error intra max_decay lfe xs ys zs)
    (decode_frame a (map item_kind xs) (map item_kind ys) (map item_kind zs))
    (\<lambda>olds r. r = (olds, map item_value xs, map item_value ys, map item_value zs))"
proof -
  define budget where "budget = 8 * int (length (ec_buf s))"
  note fo = ok[unfolded frame_ok_def]
  have C: "e_C a \<in> {1, 2}" "0 < e_C a" using fo by auto
  obtain prob_model where p: "prob_model_at (e_LM a) intra = Some prob_model" using prob_ok_table fo by blast
  let ?v = "map item_value xs" and ?w = "map item_value ys" and ?u = "map item_value zs"
  let ?ok = "\<lambda>olds r. r = (olds, ?v, ?w, ?u)"
  define last_put where "last_put = (\<lambda>olds error s. do {
       (st, s) \<leftarrow> quant_energy_finalise (e_nb a) (e_start a) (e_end a) olds error (e_fine_quant a) (e_fine_priority a) (budget - ec_tell s) (e_C a) s;
       Some (fst st, s) })"
  define last_get where "last_get = (\<lambda>vs ws us olds dec. do {
       (st, dec) \<leftarrow> unquant_energy_finalise (e_nb a) (e_start a) (e_end a) olds (e_fine_quant a) (e_fine_priority a) (budget - ec_tell dec) (e_C a) dec;
       Some ((fst st, vs :: (nat + int list \<times> int) list, ws :: (nat + int list \<times> int) list, us :: (nat + int list \<times> int) list), dec) })"
  have last: "carries s (last_put olds err) (last_get ?v ?w ?u olds) ?ok"
    if "energies_ok (e_nb a) (e_end a) (e_C a) (e_fine_quant a) olds err" for olds err s
  proof -
    let ?put = "\<lambda>l s. do { (st, s) \<leftarrow> quant_energy_finalise (e_nb a) (e_start a) (e_end a) olds err (e_fine_quant a) (e_fine_priority a) l (e_C a) s;
       Some (fst st, s) }"
    let ?get = "\<lambda>l dec. do { (st, dec) \<leftarrow> unquant_energy_finalise (e_nb a) (e_start a) (e_end a) olds (e_fine_quant a) (e_fine_priority a) l (e_C a) dec;
       Some ((fst st, ?v, ?w, ?u), dec) }"
    have "carries s (?put (budget - ec_tell s)) (?get (budget - ec_tell s)) ?ok"
      by (rule carries_result[OF finalise_carries[OF that C(2)]]) (use fo in auto)
    then have "carries s (?put (budget - ec_tell s)) (last_get ?v ?w ?u olds) ?ok"
      by (rule carries_look) (simp add: last_get_def)
    then show ?thesis by (rule carries_put[rotated]) (simp add: last_put_def)
  qed
  have fine: "carries s (quant_fine_energy (e_nb a) (e_start a) (e_end a) olds err (e_fine_quant a) (e_C a))
      (unquant_fine_energy (e_nb a) (e_start a) (e_end a) olds (e_fine_quant a) (e_C a)) (\<lambda>st v. v = fst st)"
    if "energies_ok (e_nb a) (e_end a) (e_C a) (e_fine_quant a) olds err" for olds err s
    by (rule fine_carries[OF that C(2)])
  define put3 where "put3 = (\<lambda>olds err s. Option.bind (put_items zs s) (last_put olds err))"
  define get3 where "get3 = (\<lambda>vs ws olds d. Option.bind (get_items (map item_kind zs) d) (\<lambda>(us, d). last_get vs ws us olds d))"
  define put2 where "put2 = (\<lambda>olds err s. Option.bind (quant_fine_energy (e_nb a) (e_start a) (e_end a) olds err (e_fine_quant a) (e_C a) s)
    (\<lambda>(st, s). put3 (fst st) (snd st) s))"
  define get2 where "get2 = (\<lambda>vs ws olds d. Option.bind (unquant_fine_energy (e_nb a) (e_start a) (e_end a) olds (e_fine_quant a) (e_C a) d)
    (\<lambda>(olds, d). get3 vs ws olds d))"
  define put1 where "put1 = (\<lambda>olds err s. Option.bind (put_items ys s) (put2 olds err))"
  define get1 where "get1 = (\<lambda>vs olds d. Option.bind (get_items (map item_kind ys) d) (\<lambda>(ws, d). get2 vs ws olds d))"
  define put0 where "put0 = (\<lambda>tell s. Option.bind (quant_coarse_energy_impl (e_nb a) (e_start a) (e_end a) eBands (e_old a) budget tell prob_model error
       (e_C a) (e_LM a) intra max_decay lfe s) (\<lambda>(st, s). put1 (fst st) (fst (snd st)) s))"
  define get0 where "get0 = (\<lambda>vs d. Option.bind (decode_coarse_energy (e_nb a) (e_start a) (e_end a) (e_old a) budget (e_C a) (e_LM a) d)
    (\<lambda>(olds, d). get1 vs olds d))"
  let ?e = "energies_ok (e_nb a) (e_end a) (e_C a) (e_fine_quant a)"
  have c3: "carries s (put3 olds err) (get3 ?v ?w olds) ?ok" if "?e olds err" for olds err s
    unfolding put3_def get3_def by (rule carries_items_bind[OF zs]) (rule last[OF that])
  have c2: "carries s (put2 olds err) (get2 ?v ?w olds) ?ok" if e: "?e olds err" for olds err s
    unfolding put2_def get2_def
  proof (rule carries_bind[OF fine[OF e]])
    fix st s1 v assume q: "quant_fine_energy (e_nb a) (e_start a) (e_end a) olds err (e_fine_quant a) (e_C a) s = Some (st, s1)"
      and v: "v = fst st"
    obtain o1 e1 where st: "st = (o1, e1)" by (rule prod.exhaust)
    have "?e (fst st) (snd st)" using e fine_keeps_lengths[OF q[unfolded st]] by (simp add: energies_ok_def st)
    from c3[OF this] show "carries s1 (put3 (fst st) (snd st)) (get3 ?v ?w v) ?ok" unfolding v .
  qed blast
  have c1: "carries s (put1 olds err) (get1 ?v olds) ?ok" if "?e olds err" for olds err s
    unfolding put1_def get1_def by (rule carries_items_bind[OF ys]) (rule c2[OF that])
  have c0: "carries s1 (\<lambda>s. put0 (ec_tell s) s) (get0 ?v) ?ok" if s1: "put_items xs s = Some s1" "advances s s1" for s1
  proof -
    have b: "budget = 8 * int (length (ec_buf s1))" using s1(2) by (simp add: budget_def advances_def)
    have len1: "length (ec_buf s1) < 2 ^ 28" using s1(2) len by (simp add: advances_def)
    have cb: "budget < ec_tell s1 + 3 \<Longrightarrow> \<not> intra" "\<not> first_band_one_bit (e_nb a) (e_start a) (e_end a) eBands (e_old a) budget (ec_tell s1)
        prob_model error (e_C a) (e_LM a) intra max_decay lfe s1"
      using bits[OF s1(1)] by (simp_all add: coarse_bits_ok_def b[symmetric] Let_def p)
    have "carries s1 (put0 (ec_tell s1)) (get0 ?v) ?ok"
      unfolding put0_def get0_def
    proof (rule carries_bind[OF coarse_carries[OF C(1) _ _ _ _ _ _ _ _ p b cb]])
      fix st s2 v
      assume q: "quant_coarse_energy_impl (e_nb a) (e_start a) (e_end a) eBands (e_old a) budget (ec_tell s1) prob_model error
          (e_C a) (e_LM a) intra max_decay lfe s1 = Some (st, s2)" and v: "(case st of (olds, _) \<Rightarrow> \<lambda>v. v = olds) v"
      obtain olds err bad where st: "st = (olds, err, bad)" by (rule prod_cases3)
      have "?e olds err" using coarse_keeps_lengths[OF q[unfolded st]] fo by (simp add: energies_ok_def)
      from c1[OF this] show "carries s2 (put1 (fst st) (fst (snd st))) (get1 ?v v) ?ok" using v by (simp add: st)
    qed (use fo len1 in auto)
    then show ?thesis by (rule carries_put[rotated]) simp
  qed
  have "carries s (\<lambda>s. Option.bind (put_items xs s) (\<lambda>s. put0 (ec_tell s) s)) (\<lambda>d. Option.bind (get_items (map item_kind xs) d) (\<lambda>(vs, d). get0 vs d)) ?ok"
    by (rule carries_items_bind[OF xs]) (rule c0)
  then have "carries s (encode_frame a eBands error intra max_decay lfe xs ys zs)
      (\<lambda>d. Option.bind (get_items (map item_kind xs) d) (\<lambda>(vs, d). get0 vs d)) ?ok"
    by (rule carries_put[rotated]) (simp add: encode_frame_def budget_def[symmetric] p put0_def put1_def put2_def put3_def last_put_def split_def Let_def)
  then show ?thesis
    by (rule carries_look) (simp add: decode_frame_def budget_def[symmetric] get0_def get1_def get2_def get3_def last_get_def split_def Let_def)
qed

subsection \<open>The decoder on any bytes\<close>

fun kind_ok :: "ec_model + nat \<times> nat \<Rightarrow> bool" where
  "kind_ok (Inl m) = model_ok m"
| "kind_ok (Inr (n, k)) = (pvq_ok n k \<and> 0 < k)"

fun value_ok :: "ec_model + nat \<times> nat \<Rightarrow> nat + int list \<times> int \<Rightarrow> bool" where
  "value_ok (Inl m) (Inl v) = sym_valid m v"
| "value_ok (Inr (n, k)) (Inr (y, yy)) = (y \<in> pulse_vectors n k \<and> yy = sum_squares y)"
| "value_ok _ _ = False"

lemma item_reads: "kind_ok k \<Longrightarrow> reads (get_item k) (value_ok k)"
proof (cases k)
  case (Inl m)
  assume "kind_ok k"
  then have "reads (get_sym m) (sym_valid m)" using Inl by (simp add: sym_reads)
  moreover have "get_item k = (\<lambda>d. map_option (apfst Inl) (get_sym m d))" by (simp add: fun_eq_iff Inl)
  ultimately show ?thesis using reads_map[of "get_sym m" "sym_valid m" "value_ok k" Inl] by (simp add: Inl)
next
  case (Inr p)
  assume k: "kind_ok k"
  obtain n i where p: "p = (n, i)" by (rule prod.exhaust)
  have "reads (decode_pulses n i) (\<lambda>(y, yy). y \<in> pulse_vectors n i \<and> yy = sum_squares y)"
    using k by (intro pulses_read) (simp_all add: Inr p)
  moreover have "get_item k = (\<lambda>d. map_option (apfst Inr) (decode_pulses n i d))" by (simp add: fun_eq_iff Inr p)
  ultimately show ?thesis
    using reads_map[of "decode_pulses n i" "\<lambda>(y, yy). y \<in> pulse_vectors n i \<and> yy = sum_squares y" "value_ok k" Inr] by (auto simp: Inr p)
qed

lemma items_read: "\<forall>k \<in> set ks. kind_ok k \<Longrightarrow> reads (get_items ks) (list_all2 value_ok ks)"
proof (induction ks)
  case Nil
  show ?case using reads_return[of "list_all2 value_ok []" "[]"] by (simp add: reads_def)
next
  case (Cons k ks)
  have "reads (\<lambda>d. do { (vs, d) \<leftarrow> get_items ks d; Some (v # vs, d) }) (list_all2 value_ok (k # ks))" if "value_ok k v" for v
    by (rule reads_conv[OF Cons.IH]) (use Cons.prems that in auto)
  from reads_bind[OF item_reads this] Cons.prems show ?case by simp
qed

definition decoder_shape :: "celt_energies \<Rightarrow> bool" where
  "decoder_shape a \<longleftrightarrow> e_C a \<in> {1, 2} \<and> e_LM a < 4 \<and> e_end a \<le> e_nb a \<and> e_C a * e_nb a \<le> length (e_old a) \<and>
     e_end a \<le> length (e_fine_quant a) \<and> (\<forall>b \<in> set (e_fine_quant a). b \<le> 10) \<and> e_end a \<le> length (e_fine_priority a) \<and>
     e_end a \<le> 25 \<and> (\<forall>x \<in> set (e_old a). - 32768 \<le> x \<and> x < 32768)"

lemma frame_reads:
  assumes a: "decoder_shape a" and k: "\<forall>k \<in> set xs. kind_ok k" "\<forall>k \<in> set ys. kind_ok k" "\<forall>k \<in> set zs. kind_ok k"
  shows "reads (decode_frame a xs ys zs) (\<lambda>(olds, vs, ws, us). olds_ok (length (e_old a)) olds \<and>
    list_all2 value_ok xs vs \<and> list_all2 value_ok ys ws \<and> list_all2 value_ok zs us)"
proof -
  let ?n = "length (e_old a)"
  let ?ok = "\<lambda>(olds, vs, ws, us). olds_ok ?n olds \<and> list_all2 value_ok xs vs \<and> list_all2 value_ok ys ws \<and> list_all2 value_ok zs us"
  note ad = a[unfolded decoder_shape_def]
  have C: "0 < e_C a" and old: "olds_ok ?n (e_old a)" using ad by (auto simp: olds_ok_def)
  define last where "last = (\<lambda>budget vs ws us olds dec. do {
       (st, dec) \<leftarrow> unquant_energy_finalise (e_nb a) (e_start a) (e_end a) olds (e_fine_quant a) (e_fine_priority a) (budget - ec_tell dec) (e_C a) dec;
       Some ((fst st, vs :: (nat + int list \<times> int) list, ws :: (nat + int list \<times> int) list, us :: (nat + int list \<times> int) list), dec) })"
  define get3 where "get3 = (\<lambda>budget vs ws olds d. Option.bind (get_items zs d) (\<lambda>(us, d). last budget vs ws us olds d))"
  define get2 where "get2 = (\<lambda>budget vs ws olds d. Option.bind (unquant_fine_energy (e_nb a) (e_start a) (e_end a) olds (e_fine_quant a) (e_C a) d)
    (\<lambda>(olds, d). get3 budget vs ws olds d))"
  define get1 where "get1 = (\<lambda>budget vs olds d. Option.bind (get_items ys d) (\<lambda>(ws, d). get2 budget vs ws olds d))"
  define get0 where "get0 = (\<lambda>budget vs d. Option.bind (decode_coarse_energy (e_nb a) (e_start a) (e_end a) (e_old a) budget (e_C a) (e_LM a) d)
    (\<lambda>(olds, d). get1 budget vs olds d))"
  have r4: "reads (last budget vs ws us olds) ?ok"
    if "olds_ok ?n olds" "list_all2 value_ok xs vs" "list_all2 value_ok ys ws" "list_all2 value_ok zs us" for budget vs ws us olds
  proof -
    have "reads (unquant_energy_finalise (e_nb a) (e_start a) (e_end a) olds (e_fine_quant a) (e_fine_priority a) l (e_C a)) (\<lambda>(olds, _). olds_ok ?n olds)" for l
      by (rule unquant_finalise_reads) (use ad C that(1) in auto)
    then have "reads (\<lambda>d. unquant_energy_finalise (e_nb a) (e_start a) (e_end a) olds (e_fine_quant a) (e_fine_priority a) (budget - ec_tell d) (e_C a) d)
      (\<lambda>(olds, _). olds_ok ?n olds)" by (rule reads_at)
    then show ?thesis unfolding last_def by (rule reads_conv) (use that in auto)
  qed
  have r3: "reads (get3 budget vs ws olds) ?ok"
    if "olds_ok ?n olds" "list_all2 value_ok xs vs" "list_all2 value_ok ys ws" for budget vs ws olds
    unfolding get3_def by (rule reads_bind[OF items_read[OF k(3)]]) (rule r4[OF that])
  have r2: "reads (get2 budget vs ws olds) ?ok"
    if "olds_ok ?n olds" "list_all2 value_ok xs vs" "list_all2 value_ok ys ws" for budget vs ws olds
  proof -
    have "reads (unquant_fine_energy (e_nb a) (e_start a) (e_end a) olds (e_fine_quant a) (e_C a)) (olds_ok ?n)"
      by (rule unquant_fine_reads) (use ad C that(1) in auto)
    then show ?thesis unfolding get2_def by (rule reads_bind) (rule r3[OF _ that(2,3)])
  qed
  have r1: "reads (get1 budget vs olds) ?ok" if "olds_ok ?n olds" "list_all2 value_ok xs vs" for budget vs olds
    unfolding get1_def by (rule reads_bind[OF items_read[OF k(2)]]) (rule r2[OF that])
  have r0: "reads (get0 budget vs) ?ok" if "list_all2 value_ok xs vs" for budget vs
  proof -
    have "reads (decode_coarse_energy (e_nb a) (e_start a) (e_end a) (e_old a) budget (e_C a) (e_LM a)) (olds_ok ?n)"
      by (rule decode_coarse_reads) (use ad old in auto)
    then show ?thesis unfolding get0_def by (rule reads_bind) (rule r1[OF _ that])
  qed
  have "reads (\<lambda>d. Option.bind (get_items xs d) (\<lambda>(vs, d). get0 budget vs d)) ?ok" for budget
    by (rule reads_bind[OF items_read[OF k(1)]]) (rule r0)
  then have "reads (\<lambda>d. Option.bind (get_items xs d) (\<lambda>(vs, d'). get0 (8 * int (length (ec_buf d))) vs d')) ?ok"
    by (rule reads_at)
  then show ?thesis
    by (rule reads_conv) (auto simp: decode_frame_def get0_def get1_def get2_def get3_def last_def split_def Let_def)
qed

subsection \<open>The properties\<close>

text \<open>
  C17: The energies of encoder and decoder stay in step. For every frame (symbols, coarse energy, symbols, fine energy, pulse
  vectors and symbols, last bits), whatever 16-bit energies the encoder is given: it returns, no 32-bit sum overflows, and if it reports no error at the
  end, the decoder, started with the same energies of the frame before on the finished bytes, ends with exactly the energies that
  the encoder predicts the next frame from, with all symbols and vectors that were sent, at the same position. It reads the
  flag, chooses between the codes by the bits that are left, and adapts the prediction as the encoder did. Excluded is
  the case that a single bit is left for a channel of the first band.
\<close>

theorem celt_energies_in_step:
  assumes "frame_ok a eBands error" and "\<forall>x \<in> set (xs @ ys @ zs). item_valid x" and "length buf < 2 ^ 28"
    and "put_items xs (ec_enc_init buf) = Some s0" and "coarse_bits_ok a eBands error intra max_decay lfe s0"
  shows "\<exists>olds s. encode_frame a eBands error intra max_decay lfe xs ys zs (ec_enc_init buf) = Some (olds, s) \<and>
    (ec_error (ec_enc_done s) = 0 \<and> ec_nbits_total s < 2 ^ 31 \<longrightarrow>
      (\<exists>d0 d. ec_dec_init (ec_buf (ec_enc_done s)) = Some d0 \<and>
        decode_frame a (map item_kind xs) (map item_kind ys) (map item_kind zs) d0 =
          Some ((olds, map item_value xs, map item_value ys, map item_value zs), d) \<and> ec_error d = 0 \<and> ec_tell d = ec_tell s))"
proof -
  have "carries (ec_enc_init buf) (encode_frame a eBands error intra max_decay lfe xs ys zs)
    (decode_frame a (map item_kind xs) (map item_kind ys) (map item_kind zs))
    (\<lambda>olds r. r = (olds, map item_value xs, map item_value ys, map item_value zs))"
    by (rule frame_carries[OF assms(1)]) (use assms(2-5) in \<open>auto simp: ec_enc_init_def\<close>)
  from stream_carries[OF this] show ?thesis by blast
qed

text \<open>
  C18: On any received bytes, whether or not an encoder made them, the decoder of the energies returns: no access leaves the arrays
  of energies, probabilities, bits or pulses, no 32-bit sum of the predictions overflows, all searches and loops end, the energies remain 16-bit numbers, each symbol is one of its
  model, each vector has the dimensions and pulses of its band, and the read positions stay within the buffer.
\<close>

theorem celt_energy_decoder_total:
  assumes "decoder_shape a" and "\<forall>k \<in> set (xs @ ys @ zs). kind_ok k"
  shows "\<exists>d0 olds vs ws us d. ec_dec_init buf = Some d0 \<and> decode_frame a xs ys zs d0 = Some ((olds, vs, ws, us), d) \<and>
    length olds = length (e_old a) \<and> (\<forall>x \<in> set olds. - 32768 \<le> x \<and> x < 32768) \<and>
    list_all2 value_ok xs vs \<and> list_all2 value_ok ys ws \<and> list_all2 value_ok zs us \<and>
    ec_buf d = buf \<and> ec_offs d \<le> length buf \<and> ec_end_offs d \<le> length buf"
proof -
  obtain d0 where d0: "ec_dec_init buf = Some d0" "dec_wf d0" "ec_buf d0 = buf" using init_wf by blast
  have "reads (decode_frame a xs ys zs) (\<lambda>(olds, vs, ws, us). olds_ok (length (e_old a)) olds \<and>
    list_all2 value_ok xs vs \<and> list_all2 value_ok ys ws \<and> list_all2 value_ok zs us)"
    by (rule frame_reads[OF assms(1)]) (use assms(2) in auto)
  then obtain r d where r: "decode_frame a xs ys zs d0 = Some (r, d)" "dec_wf d" "ec_buf d = buf"
    "case r of (olds, vs, ws, us) \<Rightarrow> olds_ok (length (e_old a)) olds \<and> list_all2 value_ok xs vs \<and> list_all2 value_ok ys ws \<and> list_all2 value_ok zs us"
    using d0(2,3) unfolding reads_def by blast
  then show ?thesis using d0(1) by (cases r) (auto simp: olds_ok_def dec_wf_def)
qed

subsection \<open>A frame\<close>

text \<open>Two bands, the second falling; one vector of pulses; two bits of fine energy and two last bits.\<close>

definition demo_energies :: celt_energies where
  "demo_energies = \<lparr>e_nb = 2, e_start = 0, e_end = 2, e_C = 1, e_LM = 3, e_old = [0, 512], e_fine_quant = [2, 0], e_fine_priority = [0, 1]\<rparr>"

definition demo_input :: coarse_input where
  "demo_input = \<lparr>q_nb = 2, q_end = 2, q_budget = 64, q_prob = e_prob_model ! 3 ! 0, q_C = 1, q_coef = 16384, q_beta = 6554,
     q_start = 0, q_bands = [3000, - 500], q_decay = 16384, q_lfe = False\<rparr>"

definition demo_state :: "int \<Rightarrow> u32 \<Rightarrow> u32 \<Rightarrow> int \<Rightarrow> nat \<Rightarrow> u32 \<Rightarrow> byte list \<Rightarrow> nat \<Rightarrow> ec_ctx" where
  "demo_state nbits rng v rm nend window buf offs = \<lparr>ec_buf = buf, ec_end_offs = 0, ec_end_window = window, ec_nend_bits = nend,
     ec_nbits_total = nbits, ec_offs = offs, ec_rng = rng, ec_val = v, ec_ext = 0, ec_rem = rm, ec_error = 0\<rparr>"

abbreviation demo_buf :: "byte list" where "demo_buf \<equiv> [7, 7, 7, 7, 7, 7, 7, 7]"

definition demo_vector :: "int list" where "demo_vector = [0, - 2, 0, 1]"

lemma demo_symbol: "put_items [Symbol (BitLogp 15) 0] (ec_enc_init demo_buf) = Some (demo_state 33 2147418112 0 (- 1) 0 0 demo_buf 0)"
  by (simp add: demo_state_def enc_eval)

lemma demo_flag: "ec_enc_bit_logp False 3 (demo_state 33 2147418112 0 (- 1) 0 0 demo_buf 0) = Some (demo_state 33 1878990848 0 (- 1) 0 0 demo_buf 0)"
  by (simp add: demo_state_def enc_eval)

lemma demo_intervals: "laplace_interval 3 5376 7744 = (3, 28238, 1612)" "laplace_interval (- 3) 12288 4224 = (- 3, 31380, 505)"
  by (simp_all add: laplace_interval_def ec_laplace_get_freq1_def laplace_search.simps Let_def)

lemma demo_laplace:
  "ec_laplace_encode 3 5376 7744 (demo_state 33 1878990848 0 (- 1) 0 0 demo_buf 0) = Some (3, demo_state 33 92435304 1619231588 (- 1) 0 0 demo_buf 0)"
  "ec_laplace_encode (- 3) 12288 4224 (demo_state 33 92435304 1619231588 (- 1) 0 0 demo_buf 0) = Some (- 3, demo_state 41 364569600 1245518848 203 0 0 demo_buf 0)"
  by (simp_all add: ec_laplace_encode_def demo_intervals demo_state_def enc_eval)

lemmas coarse_eval = quant_step_def put_qi_def coarse_pick_def coarse_limit_def coarse_update_def elem_def store_def
  SHL32_def SHL16_def SHR_def PSHR32_def MULT16_16_def i32_def s16_def s32_def Let_def

lemma demo_frame_tell: "ec_tell (demo_state 33 2147418112 0 (- 1) 0 0 demo_buf 0) = 2" "ec_tell (demo_state 33 1878990848 0 (- 1) 0 0 demo_buf 0) = 2"
  "ec_tell (demo_state 33 92435304 1619231588 (- 1) 0 0 demo_buf 0) = 6"
  by (simp_all add: demo_state_def ec_tell_def EC_ILOG_def bit_len.simps)

lemma demo_pick: "coarse_pick 16384 16384 3000 0 0 0 = Some (384000, 3)" "coarse_pick 16384 16384 (- 500) 512 512 314568 = Some (- 411336, - 3)"
  by (simp_all add: coarse_eval)

lemma demo_update: "coarse_update 16384 6554 0 0 3 = Some (3072, 314568)" "coarse_update 16384 6554 512 314568 (- 3) = Some (- 358, 0)"
  by (simp_all add: coarse_eval)

lemma demo_error: "s16 (PSHR32 384000 7 - SHL16 3 10) = - 72" "s16 (PSHR32 (- 411336) 7 - SHL16 (- 3) 10) = - 142"
  by (simp_all add: coarse_eval)

lemma demo_prob: "elem (e_prob_model ! 3 ! 0) 0 = Some 42" "elem (e_prob_model ! 3 ! 0) (Suc 0) = Some 121"
  "elem (e_prob_model ! 3 ! 0) 2 = Some 96" "elem (e_prob_model ! 3 ! 0) 3 = Some 66"
  by (simp_all add: e_prob_model_def elem_def)

lemma demo_put_qi:
  "put_qi (e_prob_model ! 3 ! 0) 0 62 3 (demo_state 33 1878990848 0 (- 1) 0 0 demo_buf 0) = Some (3, demo_state 33 92435304 1619231588 (- 1) 0 0 demo_buf 0)"
  "put_qi (e_prob_model ! 3 ! 0) (Suc 0) 58 (- 3) (demo_state 33 92435304 1619231588 (- 1) 0 0 demo_buf 0) = Some (- 3, demo_state 41 364569600 1245518848 203 0 0 demo_buf 0)"
  by (simp_all add: put_qi_def demo_prob demo_laplace push_bit_eq_mult Let_def)

lemma demo_steps:
  "quant_step demo_input 0 0 \<lparr>c_old = [0, 512], c_prev = [0, 0], c_error = [0, 0], c_badness = 0\<rparr> (demo_state 33 1878990848 0 (- 1) 0 0 demo_buf 0) =
    Some (\<lparr>c_old = [3072, 512], c_prev = [314568, 0], c_error = [- 72, 0], c_badness = 0\<rparr>, demo_state 33 92435304 1619231588 (- 1) 0 0 demo_buf 0)"
  "quant_step demo_input 1 0 \<lparr>c_old = [3072, 512], c_prev = [314568, 0], c_error = [- 72, 0], c_badness = 0\<rparr>
      (demo_state 33 92435304 1619231588 (- 1) 0 0 demo_buf 0) =
    Some (\<lparr>c_old = [3072, - 358], c_prev = [0, 0], c_error = [- 72, - 142], c_badness = 0\<rparr>, demo_state 41 364569600 1245518848 203 0 0 demo_buf 0)"
  by (simp_all add: quant_step_def elem_def store_def demo_input_def demo_pick demo_update demo_error demo_frame_tell demo_put_qi coarse_limit_def i32_def Let_def)

lemma demo_coarse:
  "quant_coarse_energy_impl 2 0 2 [3000, - 500] [0, 512] 64 2 (e_prob_model ! 3 ! 0) [0, 0] 1 3 False 16384 False
      (demo_state 33 2147418112 0 (- 1) 0 0 demo_buf 0) =
    Some (([3072, - 358], [- 72, - 142], 0), demo_state 41 364569600 1245518848 203 0 0 demo_buf 0)"
  by (simp add: quant_coarse_energy_impl_def demo_flag coarse_coefs_def elem_def beta_coef_def pred_coef_def demo_input_def[symmetric, unfolded One_nat_def] Let_def
      band_loop.simps[of _ 2 "Suc 0"] demo_steps[unfolded One_nat_def])

lemma demo_fine:
  "quant_fine_energy 2 0 2 [3072, - 358] [- 72, - 142] [2, 0] 1 (demo_state 41 364569600 1245518848 203 0 0 demo_buf 0) =
    Some (([2944, - 358], [56, - 142]), demo_state 43 364569600 1245518848 203 2 1 demo_buf 0)"
  by (simp add: quant_fine_energy_def band_loop.simps[of _ 2 "Suc 0"] quant_fine_step_def elem_def store_def fine_offset_def SHR_def SHL32_def
      s16_def s32_def Let_def demo_state_def ec_enc_bits_def)

lemma demo_index: "index_of demo_vector = 52"
  unfolding demo_vector_def by code_simp

lemma demo_uint: "ec_enc_uint 52 88 (demo_state 43 364569600 1245518848 203 2 1 demo_buf 0) =
  Some (demo_state 51 1060566016 340111360 174 2 1 [203, 7, 7, 7, 7, 7, 7, 7] 1)"
  by (simp add: demo_state_def enc_eval)

lemma demo_pulses: "encode_pulses demo_vector 4 3 (demo_state 43 364569600 1245518848 203 2 1 demo_buf 0) =
  Some (demo_state 51 1060566016 340111360 174 2 1 [203, 7, 7, 7, 7, 7, 7, 7] 1)"
proof -
  have y: "demo_vector \<in> pulse_vectors 4 3" by (simp add: pulse_vectors_def demo_vector_def)
  show ?thesis
    using cwrsi_icwrs(1)[OF pvq_ok_demo y] CELT_V[OF pvq_ok_demo] demo_uint
    by (simp add: encode_pulses_def V_demo demo_index)
qed

lemma demo_last_steps:
  "finalise_step 2 [2, 0] 0 0 ([2944, - 358], [56, - 142], 43) (demo_state 51 1060566016 340111360 174 2 1 [203, 7, 7, 7, 7, 7, 7, 7] 1) =
    Some (([3008, - 358], [- 8, - 142], 42), demo_state 52 1060566016 340111360 174 3 5 [203, 7, 7, 7, 7, 7, 7, 7] 1)"
  "finalise_step 2 [2, 0] (Suc 0) 0 ([3008, - 358], [- 8, - 142], 42) (demo_state 52 1060566016 340111360 174 3 5 [203, 7, 7, 7, 7, 7, 7, 7] 1) =
    Some (([3008, - 614], [- 8, 114], 41), demo_state 53 1060566016 340111360 174 4 5 [203, 7, 7, 7, 7, 7, 7, 7] 1)"
  by (simp_all add: finalise_step_def elem_def store_def last_offset_def SHR_def SHL16_def s16_def Let_def demo_state_def ec_enc_bits_def)

lemma demo_rounds:
  "budget_loop (\<lambda>(_, _, l). l) (finalise_step 2 [2, 0]) [2, 0] [0, 1] 0 2 (Suc 0) 0 ([2944, - 358], [56, - 142], 43)
      (demo_state 51 1060566016 340111360 174 2 1 [203, 7, 7, 7, 7, 7, 7, 7] 1) =
    Some (([3008, - 358], [- 8, - 142], 42), demo_state 52 1060566016 340111360 174 3 5 [203, 7, 7, 7, 7, 7, 7, 7] 1)"
  "budget_loop (\<lambda>(_, _, l). l) (finalise_step 2 [2, 0]) [2, 0] [0, 1] 1 2 (Suc 0) 0 ([3008, - 358], [- 8, - 142], 42)
      (demo_state 52 1060566016 340111360 174 3 5 [203, 7, 7, 7, 7, 7, 7, 7] 1) =
    Some (([3008, - 614], [- 8, 114], 41), demo_state 53 1060566016 340111360 174 4 5 [203, 7, 7, 7, 7, 7, 7, 7] 1)"
  by (simp_all add: budget_loop.simps[of _ _ _ _ _ 2 "Suc 0"] band_loop.simps[of _ _ "Suc 0"] demo_last_steps[unfolded One_nat_def] elem_def)

lemma demo_last:
  "quant_energy_finalise 2 0 2 [2944, - 358] [56, - 142] [2, 0] [0, 1] 43 1 (demo_state 51 1060566016 340111360 174 2 1 [203, 7, 7, 7, 7, 7, 7, 7] 1) =
    Some (([3008, - 614], [- 8, 114], 41), demo_state 53 1060566016 340111360 174 4 5 [203, 7, 7, 7, 7, 7, 7, 7] 1)"
  unfolding quant_energy_finalise_def One_nat_def demo_rounds[unfolded One_nat_def] by (simp add: demo_rounds[unfolded One_nat_def])

definition frame_coded :: ec_ctx where
  "frame_coded = demo_state 53 1060566016 340111360 174 4 5 [203, 7, 7, 7, 7, 7, 7, 7] 1"

lemma demo_prob_model: "prob_model_at 3 False = Some (e_prob_model ! 3 ! 0)"
  by (simp add: prob_model_at_def elem_def e_prob_model_def)

lemma demo_tell_pulses: "ec_tell (demo_state 51 1060566016 340111360 174 2 1 [203, 7, 7, 7, 7, 7, 7, 7] 1) = 21"
  by (simp add: demo_state_def ec_tell_def EC_ILOG_def bit_len.simps)

lemma demo_frame: "encode_frame demo_energies [3000, - 500] [0, 0] False 16384 False [Symbol (BitLogp 15) 0] [] [Pulses 4 3 demo_vector]
  (ec_enc_init demo_buf) = Some ([3008, - 614], frame_coded)"
proof -
  have l: "length (ec_buf (ec_enc_init demo_buf)) = 8" by (simp add: ec_enc_init_def)
  show ?thesis
    unfolding encode_frame_def demo_symbol Option.bind.bind_lunit Let_def l demo_energies_def
    by (simp add: demo_prob_model demo_frame_tell demo_coarse[unfolded One_nat_def] demo_fine[unfolded One_nat_def]
        demo_pulses[unfolded One_nat_def] demo_tell_pulses[unfolded One_nat_def] demo_last[unfolded One_nat_def] frame_coded_def)
qed

lemma demo_frame_done: "ec_error (ec_enc_done frame_coded) = 0" "ec_buf (ec_enc_done frame_coded) = [203, 174, 64, 0, 0, 0, 0, 5]"
  by (simp_all add: frame_coded_def demo_state_def ec_enc_done_def ec_done_end_def ec_done_loop.simps enc_eval)

lemma demo_bits_ok: "coarse_bits_ok demo_energies [3000, - 500] [0, 0] False 16384 False (demo_state 33 2147418112 0 (- 1) 0 0 demo_buf 0)"
proof -
  have l: "length (ec_buf (demo_state 33 2147418112 0 (- 1) 0 0 demo_buf 0)) = 8" by (simp add: demo_state_def)
  show ?thesis
    unfolding coarse_bits_ok_def l demo_energies_def
    by (simp add: demo_prob_model demo_frame_tell first_band_one_bit_def demo_flag coarse_coefs_def elem_def beta_coef_def pred_coef_def
        one_bit_at_start.simps[of _ 0] Let_def)
qed

lemma demo_valid_items: "\<forall>x \<in> set ([Symbol (BitLogp 15) 0] @ [] @ [Pulses 4 3 demo_vector]). item_valid x"
  by (simp add: pvq_ok_demo pulse_vectors_def demo_vector_def)

lemma celt_energies_in_step_witness:
  "\<exists>d0 d. ec_dec_init [203, 174, 64, 0, 0, 0, 0, 5] = Some d0 \<and>
     decode_frame demo_energies [Inl (BitLogp 15)] [] [Inr (4, 3)] d0 = Some (([3008, - 614], [Inl 0], [], [Inr ([0, - 2, 0, 1], 5)]), d) \<and>
     ec_tell d = ec_tell frame_coded"
proof -
  have ok: "frame_ok demo_energies [3000, - 500] [0, 0]" by (simp add: frame_ok_def demo_energies_def)
  have "sum_squares demo_vector = 5" "ec_nbits_total frame_coded < 2 ^ 31"
    by (simp_all add: sum_squares_def demo_vector_def frame_coded_def demo_state_def)
  then show ?thesis
    using celt_energies_in_step[OF ok demo_valid_items _ demo_symbol demo_bits_ok] demo_frame demo_frame_done
    by (auto simp: demo_vector_def)
qed

lemma celt_energy_decoder_total_witness:
  "\<exists>d0 olds vs ws us d. ec_dec_init [255, 255] = Some d0 \<and>
     decode_frame demo_energies [Inl (BitLogp 15)] [] [Inr (4, 3)] d0 = Some ((olds, vs, ws, us), d) \<and> length olds = 2 \<and> ec_offs d \<le> 2"
proof -
  have "decoder_shape demo_energies" by (simp add: decoder_shape_def demo_energies_def)
  moreover have "\<forall>k \<in> set ([Inl (BitLogp 15)] @ [] @ [Inr (4, 3)]). kind_ok k" by (simp add: pvq_ok_demo)
  moreover have "length (e_old demo_energies) = 2" by (simp add: demo_energies_def)
  ultimately show ?thesis
    using celt_energy_decoder_total[of demo_energies "[Inl (BitLogp 15)]" "[]" "[Inr (4, 3)]" "[255, 255]"] by fastforce
qed

end
