(* ===== verification/Opuspacket.thy ===== *)
theory Opuspacket
  imports Prelude
begin

section \<open>Opus packets (opus/src/opus.c, repacketizer.c)\<close>

text \<open>
  Parsing of packets into frames, and building packets from frames, in place where the code works
  in place. Memory is a list of bytes per object, a pointer an object and an offset; \<open>opus_int32\<close> and
  \<open>int\<close> are \<open>int\<close> (the lengths are those of objects in memory), \<open>opus_int16\<close> wraps. A read or write
  outside an object or an array is \<open>None\<close>.
\<close>

abbreviation (input) OPUS_OK :: int where "OPUS_OK \<equiv> 0"
abbreviation (input) OPUS_BAD_ARG :: int where "OPUS_BAD_ARG \<equiv> -1"
abbreviation (input) OPUS_BUFFER_TOO_SMALL :: int where "OPUS_BUFFER_TOO_SMALL \<equiv> -2"
abbreviation (input) OPUS_INVALID_PACKET :: int where "OPUS_INVALID_PACKET \<equiv> -4"

definition peek :: "byte list \<Rightarrow> nat \<Rightarrow> byte option" where
  "peek m i = (if i < length m then Some (m ! i) else None)"

definition poke :: "byte list \<Rightarrow> nat \<Rightarrow> byte \<Rightarrow> byte list option" where
  "poke m i b = (if i < length m then Some (m[i := b]) else None)"

definition arr_set :: "'a list \<Rightarrow> nat \<Rightarrow> 'a \<Rightarrow> 'a list option" where
  "arr_set a i v = (if i < length a then Some (a[i := v]) else None)"

definition arr_get :: "'a list \<Rightarrow> nat \<Rightarrow> 'a option" where
  "arr_get a i = (if i < length a then Some (a ! i) else None)"

text \<open>Conversion to \<open>opus_int16\<close>.\<close>

definition to_int16 :: "int \<Rightarrow> int" where
  "to_int16 x = sint (word_of_int x :: 16 word)"

subsection \<open>Sizes of frames\<close>

definition encode_size :: "int \<Rightarrow> byte list \<Rightarrow> nat \<Rightarrow> (nat \<times> byte list) option" where
  "encode_size sz m p = (if sz < 252 then do { m \<leftarrow> poke m p (word_of_int sz); Some (1, m) }
     else do {
       m \<leftarrow> poke m p (word_of_int (252 + (sz AND 3)));
       b \<leftarrow> peek m p;
       m \<leftarrow> poke m (p + 1) (word_of_int (drop_bit 2 (sz - uint b)));
       Some (2, m)
     })"

text \<open>The number of bytes and \<open>*size\<close>.\<close>

definition parse_size :: "byte list \<Rightarrow> nat \<Rightarrow> int \<Rightarrow> (int \<times> int) option" where
  "parse_size m p len = (if len < 1 then Some (-1, -1) else do {
     b0 \<leftarrow> peek m p;
     if b0 < 252 then Some (1, uint b0)
     else if len < 2 then Some (-1, -1)
     else do { b1 \<leftarrow> peek m (p + 1); Some (2, 4 * uint b1 + uint b0) }
   })"

definition opus_packet_get_samples_per_frame :: "byte list \<Rightarrow> nat \<Rightarrow> int \<Rightarrow> int option" where
  "opus_packet_get_samples_per_frame m p Fs = do {
     toc \<leftarrow> peek m p;
     Some (if toc AND 0x80 \<noteq> 0 then push_bit (unat (drop_bit 3 toc AND 3)) Fs div 400
       else if toc AND 0x60 = 0x60 then (if toc AND 0x08 \<noteq> 0 then Fs div 50 else Fs div 100)
       else let audiosize = drop_bit 3 toc AND 3
         in if audiosize = 3 then Fs * 60 div 1000 else push_bit (unat audiosize) Fs div 100)
   }"

definition opus_packet_get_nb_frames :: "byte list \<Rightarrow> nat \<Rightarrow> int \<Rightarrow> int option" where
  "opus_packet_get_nb_frames m p len = (if len < 1 then Some OPUS_BAD_ARG else do {
     b0 \<leftarrow> peek m p;
     let count = b0 AND 3;
     if count = 0 then Some 1
     else if count \<noteq> 3 then Some 2
     else if len < 2 then Some OPUS_INVALID_PACKET
     else do { b1 \<leftarrow> peek m (p + 1); Some (uint (b1 AND 0x3F)) }
   })"

definition opus_packet_get_nb_samples :: "byte list \<Rightarrow> nat \<Rightarrow> int \<Rightarrow> int \<Rightarrow> int option" where
  "opus_packet_get_nb_samples m p len Fs = do {
     count \<leftarrow> opus_packet_get_nb_frames m p len;
     if count < 0 then Some count else do {
       s \<leftarrow> opus_packet_get_samples_per_frame m p Fs;
       let samples = count * s;
       Some (if samples * 25 > Fs * 3 then OPUS_INVALID_PACKET else samples)
     }
   }"

subsection \<open>Parsing\<close>

record parse_state =
  p_count :: int
  p_cbr :: bool
  p_data :: nat
  p_len :: int
  p_last :: int
  p_pad :: int
  p_size :: "int list"

text \<open>An early return (\<open>Inl\<close>) carries the error and the array of sizes as far as it was written.\<close>

type_synonym parse_step = "((int \<times> int list) + parse_state) option"

abbreviation invalid :: "parse_state \<Rightarrow> parse_step" where
  "invalid st \<equiv> Some (Inl (OPUS_INVALID_PACKET, p_size st))"

definition and_then :: "('e + 'a) option \<Rightarrow> ('a \<Rightarrow> ('e + 'b) option) \<Rightarrow> ('e + 'b) option" where
  "and_then r f = (case r of None \<Rightarrow> None | Some (Inl e) \<Rightarrow> Some (Inl e) | Some (Inr x) \<Rightarrow> f x)"

text \<open>The loop over the padding bytes.\<close>

function skip_padding :: "byte list \<Rightarrow> parse_state \<Rightarrow> parse_step" where
  "skip_padding m st =
     (if p_len st \<le> 0 then invalid st else do {
        p \<leftarrow> peek m (p_data st);
        let tmp = (if p = 255 then 254 else uint p);
        let st = st\<lparr>p_data := p_data st + 1, p_len := p_len st - 1 - tmp, p_pad := p_pad st + tmp\<rparr>;
        if p = 255 then skip_padding m st else Some (Inr st)
      })"
  by pat_completeness auto
termination by (relation "measure (\<lambda>(m, st). nat (p_len st))") auto

declare skip_padding.simps [simp del]

text \<open>The loop over the sizes of all frames but the last, and the one that gives them all one size.\<close>

fun parse_sizes :: "byte list \<Rightarrow> nat \<Rightarrow> nat \<Rightarrow> parse_state \<Rightarrow> parse_step" where
  "parse_sizes m i 0 st = Some (Inr st)"
| "parse_sizes m i (Suc n) st = do {
     (bytes, sz) \<leftarrow> parse_size m (p_data st) (p_len st);
     a \<leftarrow> arr_set (p_size st) i sz;
     let st = st\<lparr>p_size := a, p_len := p_len st - bytes\<rparr>;
     if sz < 0 \<or> sz > p_len st then invalid st
     else parse_sizes m (i + 1) n (st\<lparr>p_data := p_data st + nat bytes, p_last := p_last st - (bytes + sz)\<rparr>)
   }"

fun fill_sizes :: "nat \<Rightarrow> nat \<Rightarrow> int \<Rightarrow> int list \<Rightarrow> int list option" where
  "fill_sizes i 0 v a = Some a"
| "fill_sizes i (Suc n) v a = do { a \<leftarrow> arr_set a i v; fill_sizes (i + 1) n v a }"

text \<open>The \<open>switch\<close> on the code of the packet. \<open>st\<close> stands after the table-of-contents byte.\<close>

definition parse_two_cbr :: "bool \<Rightarrow> parse_state \<Rightarrow> parse_step" where
  "parse_two_cbr sd st = (let st = st\<lparr>p_count := 2, p_cbr := True\<rparr>
     in if \<not> sd then
          if odd (p_len st) then invalid st else do {
            a \<leftarrow> arr_set (p_size st) 0 (to_int16 (p_len st div 2));
            Some (Inr (st\<lparr>p_last := p_len st div 2, p_size := a\<rparr>))
          }
        else Some (Inr st))"

definition parse_two_vbr :: "byte list \<Rightarrow> parse_state \<Rightarrow> parse_step" where
  "parse_two_vbr m st = do {
     (bytes, sz) \<leftarrow> parse_size m (p_data st) (p_len st);
     a \<leftarrow> arr_set (p_size st) 0 sz;
     let st = st\<lparr>p_count := 2, p_size := a, p_len := p_len st - bytes\<rparr>;
     if sz < 0 \<or> sz > p_len st then invalid st
     else Some (Inr (st\<lparr>p_data := p_data st + nat bytes, p_last := p_len st - sz\<rparr>))
   }"

definition parse_framing :: "byte list \<Rightarrow> bool \<Rightarrow> byte \<Rightarrow> parse_state \<Rightarrow> parse_step" where
  "parse_framing m sd ch st = (let st = st\<lparr>p_cbr := (ch AND 0x80 = 0)\<rparr>; n = nat (p_count st - 1)
     in if \<not> p_cbr st then
          and_then (parse_sizes m 0 n (st\<lparr>p_last := p_len st\<rparr>)) (\<lambda>st.
            if p_last st < 0 then invalid st else Some (Inr st))
        else if \<not> sd then
          let last = p_len st div p_count st; st = st\<lparr>p_last := last\<rparr>
          in if last * p_count st \<noteq> p_len st then invalid st
             else do { a \<leftarrow> fill_sizes 0 n (to_int16 last) (p_size st); Some (Inr (st\<lparr>p_size := a\<rparr>)) }
        else Some (Inr st))"

definition parse_many :: "byte list \<Rightarrow> bool \<Rightarrow> int \<Rightarrow> parse_state \<Rightarrow> parse_step" where
  "parse_many m sd framesize st = (if p_len st < 1 then invalid st else do {
     ch \<leftarrow> peek m (p_data st);
     let count = uint (ch AND 0x3F);
     let st = st\<lparr>p_data := p_data st + 1, p_count := count\<rparr>;
     if count \<le> 0 \<or> framesize * count > 5760 then invalid st
     else let st = st\<lparr>p_len := p_len st - 1\<rparr>
       in and_then (if ch AND 0x40 \<noteq> 0 then skip_padding m st else Some (Inr st)) (\<lambda>st.
            if p_len st < 0 then invalid st else parse_framing m sd ch st)
   })"

text \<open>The size of the last frame.\<close>

definition parse_last :: "byte list \<Rightarrow> bool \<Rightarrow> parse_state \<Rightarrow> parse_step" where
  "parse_last m sd st = (let n = nat (p_count st) in
     if sd then do {
       (bytes, sz) \<leftarrow> parse_size m (p_data st) (p_len st);
       a \<leftarrow> arr_set (p_size st) (n - 1) sz;
       let st = st\<lparr>p_size := a, p_len := p_len st - bytes\<rparr>;
       if sz < 0 \<or> sz > p_len st then invalid st
       else let st = st\<lparr>p_data := p_data st + nat bytes\<rparr>
         in if p_cbr st then
              if sz * p_count st > p_len st then invalid st
              else do { a \<leftarrow> fill_sizes 0 (n - 1) sz (p_size st); Some (Inr (st\<lparr>p_size := a\<rparr>)) }
            else if bytes + sz > p_last st then invalid st
            else Some (Inr st)
     }
     else if p_last st > 1275 then invalid st
     else do { a \<leftarrow> arr_set (p_size st) (n - 1) (to_int16 (p_last st)); Some (Inr (st\<lparr>p_size := a\<rparr>)) })"

text \<open>The loop that places the frames; \<open>frames\<close> is \<open>None\<close> for a \<open>NULL\<close> argument.\<close>

fun place_frames :: "nat \<Rightarrow> nat \<Rightarrow> nat \<Rightarrow> int list \<Rightarrow> nat list option \<Rightarrow> (nat \<times> nat list option) option" where
  "place_frames i 0 data a frames = Some (data, frames)"
| "place_frames i (Suc n) data a frames = do {
     frames \<leftarrow> (case frames of None \<Rightarrow> Some None | Some fs \<Rightarrow> map_option Some (arr_set fs i data));
     sz \<leftarrow> arr_get a i;
     place_frames (i + 1) n (data + nat sz) a frames
   }"

record packet =
  pk_count :: int
  pk_toc :: byte
  pk_frames :: "nat list option"
  pk_size :: "int list"
  pk_payload :: int
  pk_end :: int

text \<open>The array \<open>size\<close> is always given here, as by every caller in the library, so the test for NULL that would return
  \<open>OPUS_BAD_ARG\<close> is not in the model; \<open>frames\<close> may be NULL.\<close>

definition opus_packet_parse_impl ::
  "byte list \<Rightarrow> nat \<Rightarrow> int \<Rightarrow> bool \<Rightarrow> nat list option \<Rightarrow> int list \<Rightarrow> ((int \<times> int list) + packet) option" where
  "opus_packet_parse_impl m p len sd frames a =
     (if len < 0 then Some (Inl (OPUS_BAD_ARG, a))
      else if len = 0 then Some (Inl (OPUS_INVALID_PACKET, a))
      else do {
        framesize \<leftarrow> opus_packet_get_samples_per_frame m p 48000;
        toc \<leftarrow> peek m p;
        let st = \<lparr>p_count = 0, p_cbr = False, p_data = p + 1, p_len = len - 1, p_last = len - 1, p_pad = 0, p_size = a\<rparr>;
        and_then
          (if toc AND 3 = 0 then Some (Inr (st\<lparr>p_count := 1\<rparr>))
           else if toc AND 3 = 1 then parse_two_cbr sd st
           else if toc AND 3 = 2 then parse_two_vbr m st
           else parse_many m sd framesize st) (\<lambda>st.
        and_then (parse_last m sd st) (\<lambda>st. do {
          (data, frames) \<leftarrow> place_frames 0 (nat (p_count st)) (p_data st) (p_size st) frames;
          Some (Inr \<lparr>pk_count = p_count st, pk_toc = toc, pk_frames = frames, pk_size = p_size st,
            pk_payload = int (p_data st - p), pk_end = p_pad st + int (data - p)\<rparr>)
        }))
      })"

definition opus_packet_parse ::
  "byte list \<Rightarrow> nat \<Rightarrow> int \<Rightarrow> nat list option \<Rightarrow> int list \<Rightarrow> ((int \<times> int list) + packet) option" where
  "opus_packet_parse m p len frames a = opus_packet_parse_impl m p len False frames a"

subsection \<open>The repacketizer\<close>

type_synonym omem = "nat \<Rightarrow> byte list"
type_synonym optr = "nat \<times> nat"

record repacketizer =
  rp_toc :: byte
  rp_nb_frames :: nat
  rp_frames :: "optr list"
  rp_len :: "int list"
  rp_framesize :: int

definition opus_repacketizer_init :: "repacketizer \<Rightarrow> repacketizer" where
  "opus_repacketizer_init rp = rp\<lparr>rp_nb_frames := 0\<rparr>"

text \<open>The parser writes to the arrays from the first unused entry on.\<close>

definition cat_parsed :: "omem \<Rightarrow> repacketizer \<Rightarrow> optr \<Rightarrow> int \<Rightarrow> bool \<Rightarrow> int \<Rightarrow> (int \<times> repacketizer) option" where
  "cat_parsed mem rp data len sd curr_nb_frames = (let (ob, p) = data; n = rp_nb_frames rp in do {
     r \<leftarrow> opus_packet_parse_impl (mem ob) p len sd (Some (map snd (drop n (rp_frames rp)))) (drop n (rp_len rp));
     case r of
       Inl (e, a) \<Rightarrow> Some (e, rp\<lparr>rp_len := take n (rp_len rp) @ a\<rparr>)
     | Inr pk \<Rightarrow> (let c = nat (pk_count pk);
           rp = rp\<lparr>rp_frames := take n (rp_frames rp) @ map (Pair ob) (take c (the (pk_frames pk))) @ drop (n + c) (rp_frames rp),
             rp_len := take n (rp_len rp) @ pk_size pk\<rparr>
         in if pk_count pk < 1 then Some (pk_count pk, rp)
            else Some (OPUS_OK, rp\<lparr>rp_nb_frames := n + nat curr_nb_frames\<rparr>))
   })"

definition opus_repacketizer_cat_impl :: "omem \<Rightarrow> repacketizer \<Rightarrow> optr \<Rightarrow> int \<Rightarrow> bool \<Rightarrow> (int \<times> repacketizer) option" where
  "opus_repacketizer_cat_impl mem rp data len sd = (let (ob, p) = data; m = mem ob in
     if len < 1 then Some (OPUS_INVALID_PACKET, rp) else do {
       b \<leftarrow> peek m p;
       fs \<leftarrow> opus_packet_get_samples_per_frame m p 8000;
       if rp_nb_frames rp \<noteq> 0 \<and> rp_toc rp AND 0xFC \<noteq> b AND 0xFC then Some (OPUS_INVALID_PACKET, rp)
       else do {
         let rp = (if rp_nb_frames rp = 0 then rp\<lparr>rp_toc := b, rp_framesize := fs\<rparr> else rp);
         curr_nb_frames \<leftarrow> opus_packet_get_nb_frames m p len;
         if curr_nb_frames < 1 then Some (OPUS_INVALID_PACKET, rp)
         else if (curr_nb_frames + int (rp_nb_frames rp)) * rp_framesize rp > 960 then Some (OPUS_INVALID_PACKET, rp)
         else cat_parsed mem rp data len sd curr_nb_frames
       }
     })"

definition opus_repacketizer_cat :: "omem \<Rightarrow> repacketizer \<Rightarrow> optr \<Rightarrow> int \<Rightarrow> (int \<times> repacketizer) option" where
  "opus_repacketizer_cat mem rp data len = opus_repacketizer_cat_impl mem rp data len False"

text \<open>Writing: the header goes to the object \<open>m\<close> of \<open>data\<close>, at \<open>p\<close>; the result is the total size, the next
  position and the object.\<close>

type_synonym out_step = "(int + int \<times> nat \<times> byte list) option"

definition size_bytes :: "int \<Rightarrow> int" where
  "size_bytes l = 1 + (if l \<ge> 252 then 1 else 0)"

definition sd_bytes :: "bool \<Rightarrow> int list \<Rightarrow> int" where
  "sd_bytes sd ls = (if sd then size_bytes (last ls) else 0)"

definition out_short :: "byte \<Rightarrow> int list \<Rightarrow> int \<Rightarrow> bool \<Rightarrow> byte list \<Rightarrow> nat \<Rightarrow> out_step" where
  "out_short toc ls maxlen sd m p = (let tot = sd_bytes sd ls in
     if length ls = 1 then
       let tot = tot + ls ! 0 + 1
       in if tot > maxlen then Some (Inl OPUS_BUFFER_TOO_SMALL)
          else do { m \<leftarrow> poke m p (toc AND 0xFC); Some (Inr (tot, p + 1, m)) }
     else if length ls = 2 then
       if ls ! 1 = ls ! 0 then
         let tot = tot + 2 * ls ! 0 + 1
         in if tot > maxlen then Some (Inl OPUS_BUFFER_TOO_SMALL)
            else do { m \<leftarrow> poke m p ((toc AND 0xFC) OR 1); Some (Inr (tot, p + 1, m)) }
       else
         let tot = tot + ls ! 0 + ls ! 1 + 2 + (if ls ! 0 \<ge> 252 then 1 else 0)
         in if tot > maxlen then Some (Inl OPUS_BUFFER_TOO_SMALL)
            else do {
              m \<leftarrow> poke m p ((toc AND 0xFC) OR 2);
              (n, m) \<leftarrow> encode_size (ls ! 0) m (p + 1);
              Some (Inr (tot, p + 1 + n, m))
            }
     else Some (Inr (tot, p, m)))"

fun put_sizes :: "int list \<Rightarrow> byte list \<Rightarrow> nat \<Rightarrow> (nat \<times> byte list) option" where
  "put_sizes [] m p = Some (p, m)"
| "put_sizes (l # ls) m p = do { (n, m) \<leftarrow> encode_size l m p; put_sizes ls m (p + n) }"

fun put_run :: "nat \<Rightarrow> byte \<Rightarrow> byte list \<Rightarrow> nat \<Rightarrow> (nat \<times> byte list) option" where
  "put_run 0 b m p = Some (p, m)"
| "put_run (Suc k) b m p = do { m \<leftarrow> poke m p b; put_run k b m (p + 1) }"

definition out_padding :: "int \<Rightarrow> byte list \<Rightarrow> nat \<Rightarrow> nat \<Rightarrow> (nat \<times> byte list) option" where
  "out_padding pad_amount m p ptr = do {
     b \<leftarrow> peek m (p + 1);
     m \<leftarrow> poke m (p + 1) (b OR 0x40);
     let nb_255s = (pad_amount - 1) div 255;
     (ptr, m) \<leftarrow> put_run (nat nb_255s) 255 m ptr;
     m \<leftarrow> poke m ptr (word_of_int (pad_amount - 255 * nb_255s - 1));
     Some (ptr + 1, m)
   }"

definition out_many :: "byte \<Rightarrow> int list \<Rightarrow> int \<Rightarrow> bool \<Rightarrow> bool \<Rightarrow> byte list \<Rightarrow> nat \<Rightarrow> out_step" where
  "out_many toc ls maxlen sd pad m p = (let
     count = int (length ls);
     vbr = list_ex (\<lambda>l. l \<noteq> ls ! 0) (tl ls);
     tot = sd_bytes sd ls + (if vbr then 2 + sum_list (map (\<lambda>l. size_bytes l + l) (butlast ls)) + last ls else count * ls ! 0 + 2)
   in if tot > maxlen then Some (Inl OPUS_BUFFER_TOO_SMALL) else do {
     m \<leftarrow> poke m p ((toc AND 0xFC) OR 3);
     m \<leftarrow> poke m (p + 1) (word_of_int (if vbr then count OR 0x80 else count));
     let pad_amount = (if pad then maxlen - tot else 0);
     (ptr, m) \<leftarrow> (if pad_amount \<noteq> 0 then out_padding pad_amount m p (p + 2) else Some (p + 2, m));
     (ptr, m) \<leftarrow> (if vbr then put_sizes (butlast ls) m ptr else Some (ptr, m));
     Some (Inr (tot + pad_amount, ptr, m))
   })"

text \<open>\<open>OPUS_MOVE\<close>, which allows the regions to overlap, and the loop over the frames.\<close>

definition mem_move :: "omem \<Rightarrow> optr \<Rightarrow> optr \<Rightarrow> nat \<Rightarrow> omem option" where
  "mem_move mem dst src n = (let (d, i) = dst; (s, j) = src in
     if i + n \<le> length (mem d) \<and> j + n \<le> length (mem s)
     then Some (mem(d := take i (mem d) @ take n (drop j (mem s)) @ drop (i + n) (mem d))) else None)"

fun move_frames :: "optr list \<Rightarrow> int list \<Rightarrow> omem \<Rightarrow> nat \<Rightarrow> nat \<Rightarrow> (nat \<times> omem) option" where
  "move_frames (f # fs) (l # ls) mem d p = do { mem \<leftarrow> mem_move mem (d, p) f (nat l); move_frames fs ls mem d (p + nat l) }"
| "move_frames fs ls mem d p = Some (p, mem)"

definition opus_repacketizer_out_range_impl ::
  "omem \<Rightarrow> repacketizer \<Rightarrow> int \<Rightarrow> int \<Rightarrow> optr \<Rightarrow> int \<Rightarrow> bool \<Rightarrow> bool \<Rightarrow> (int \<times> omem) option" where
  "opus_repacketizer_out_range_impl mem rp beg fin data maxlen sd pad = (let (d, p) = data in
     if beg < 0 \<or> beg \<ge> fin \<or> fin > int (rp_nb_frames rp) then Some (OPUS_BAD_ARG, mem)
     else if nat fin > length (rp_len rp) \<or> nat fin > length (rp_frames rp) then None
     else let ls = take (nat (fin - beg)) (drop (nat beg) (rp_len rp));
              fs = take (nat (fin - beg)) (drop (nat beg) (rp_frames rp))
       in do {
         r \<leftarrow> out_short (rp_toc rp) ls maxlen sd (mem d) p;
         case r of Inl e \<Rightarrow> Some (e, mem) | Inr (tot, ptr, m) \<Rightarrow> do {
           r \<leftarrow> (if length ls > 2 \<or> (pad \<and> tot < maxlen) then out_many (rp_toc rp) ls maxlen sd pad m p
                 else Some (Inr (tot, ptr, m)));
           case r of Inl e \<Rightarrow> Some (e, mem(d := m)) | Inr (tot, ptr, m) \<Rightarrow> do {
             (ptr, m) \<leftarrow> (if sd then put_sizes [last ls] m ptr else Some (ptr, m));
             (ptr, mem) \<leftarrow> move_frames fs ls (mem(d := m)) d ptr;
             (ptr, m) \<leftarrow> (if pad then put_run (nat (int p + maxlen - int ptr)) 0 (mem d) ptr else Some (ptr, mem d));
             Some (tot, mem(d := m))
           }
         }
       })"

definition opus_repacketizer_out_range :: "omem \<Rightarrow> repacketizer \<Rightarrow> int \<Rightarrow> int \<Rightarrow> optr \<Rightarrow> int \<Rightarrow> (int \<times> omem) option" where
  "opus_repacketizer_out_range mem rp beg fin data maxlen =
     opus_repacketizer_out_range_impl mem rp beg fin data maxlen False False"

definition opus_repacketizer_out :: "omem \<Rightarrow> repacketizer \<Rightarrow> optr \<Rightarrow> int \<Rightarrow> (int \<times> omem) option" where
  "opus_repacketizer_out mem rp data maxlen =
     opus_repacketizer_out_range_impl mem rp 0 (int (rp_nb_frames rp)) data maxlen False False"

text \<open>The local repacketizer of the functions below starts with arbitrary contents \<open>rp\<close>.\<close>

definition opus_packet_pad :: "repacketizer \<Rightarrow> omem \<Rightarrow> optr \<Rightarrow> int \<Rightarrow> int \<Rightarrow> (int \<times> omem) option" where
  "opus_packet_pad rp mem data len new_len = (let (d, p) = data in
     if len < 1 then Some (OPUS_BAD_ARG, mem)
     else if len = new_len then Some (OPUS_OK, mem)
     else if len > new_len then Some (OPUS_BAD_ARG, mem)
     else do {
       let rp = opus_repacketizer_init rp;
       let q = p + nat (new_len - len);
       mem \<leftarrow> mem_move mem (d, q) (d, p) (nat len);
       (ret, rp) \<leftarrow> opus_repacketizer_cat mem rp (d, q) len;
       if ret \<noteq> OPUS_OK then Some (ret, mem) else do {
         (ret, mem) \<leftarrow> opus_repacketizer_out_range_impl mem rp 0 (int (rp_nb_frames rp)) (d, p) new_len False True;
         Some (if ret > 0 then OPUS_OK else ret, mem)
       }
     })"

definition opus_packet_unpad :: "repacketizer \<Rightarrow> omem \<Rightarrow> optr \<Rightarrow> int \<Rightarrow> (int \<times> omem) option" where
  "opus_packet_unpad rp mem data len =
     (if len < 1 then Some (OPUS_BAD_ARG, mem) else do {
       let rp = opus_repacketizer_init rp;
       (ret, rp) \<leftarrow> opus_repacketizer_cat mem rp data len;
       if ret < 0 then Some (ret, mem)
       else opus_repacketizer_out_range_impl mem rp 0 (int (rp_nb_frames rp)) data len False False
     })"

text \<open>Packets of several streams: all but the last are self-delimited. The array of sizes is a local one, \<open>a\<close>.\<close>

fun seek_stream :: "byte list \<Rightarrow> nat \<Rightarrow> nat \<Rightarrow> int \<Rightarrow> int list \<Rightarrow> (int + nat \<times> int) option" where
  "seek_stream m 0 p len a = Some (Inr (p, len))"
| "seek_stream m (Suc n) p len a =
     (if len \<le> 0 then Some (Inl OPUS_INVALID_PACKET) else do {
        r \<leftarrow> opus_packet_parse_impl m p len True None a;
        case r of Inl (e, a) \<Rightarrow> Some (Inl e)
        | Inr pk \<Rightarrow> seek_stream m n (p + nat (pk_end pk)) (len - pk_end pk) (pk_size pk)
      })"

definition opus_multistream_packet_pad ::
  "repacketizer \<Rightarrow> int list \<Rightarrow> omem \<Rightarrow> optr \<Rightarrow> int \<Rightarrow> int \<Rightarrow> int \<Rightarrow> (int \<times> omem) option" where
  "opus_multistream_packet_pad rp a mem data len new_len nb_streams = (let (d, p) = data in
     if len < 1 then Some (OPUS_BAD_ARG, mem)
     else if len = new_len then Some (OPUS_OK, mem)
     else if len > new_len then Some (OPUS_BAD_ARG, mem)
     else do {
       let amount = new_len - len;
       r \<leftarrow> seek_stream (mem d) (nat (nb_streams - 1)) p len a;
       case r of Inl e \<Rightarrow> Some (e, mem)
       | Inr (p, len) \<Rightarrow> opus_packet_pad rp mem (d, p) len (len + amount)
     })"

fun unpad_streams ::
  "repacketizer \<Rightarrow> nat \<Rightarrow> omem \<Rightarrow> nat \<Rightarrow> nat \<Rightarrow> int \<Rightarrow> nat \<Rightarrow> int \<Rightarrow> int list \<Rightarrow> (int \<times> omem) option" where
  "unpad_streams rp 0 mem d p len dst dst_len a = Some (dst_len, mem)"
| "unpad_streams rp (Suc n) mem d p len dst dst_len a = (let self_delimited = (n \<noteq> 0) in
     if len \<le> 0 then Some (OPUS_INVALID_PACKET, mem) else do {
       let rp = opus_repacketizer_init rp;
       r \<leftarrow> opus_packet_parse_impl (mem d) p len self_delimited None a;
       case r of Inl (e, a) \<Rightarrow> Some (e, mem)
       | Inr pk \<Rightarrow> do {
           (ret, rp) \<leftarrow> opus_repacketizer_cat_impl mem rp (d, p) (pk_end pk) self_delimited;
           if ret < 0 then Some (ret, mem) else do {
             (ret, mem) \<leftarrow> opus_repacketizer_out_range_impl mem rp 0 (int (rp_nb_frames rp)) (d, dst) len self_delimited False;
             if ret < 0 then Some (ret, mem)
             else unpad_streams rp n mem d (p + nat (pk_end pk)) (len - pk_end pk) (dst + nat ret) (dst_len + ret) (pk_size pk)
           }
         }
     })"

definition opus_multistream_packet_unpad ::
  "repacketizer \<Rightarrow> int list \<Rightarrow> omem \<Rightarrow> optr \<Rightarrow> int \<Rightarrow> int \<Rightarrow> (int \<times> omem) option" where
  "opus_multistream_packet_unpad rp a mem data len nb_streams = (let (d, p) = data in
     if len < 1 then Some (OPUS_BAD_ARG, mem) else unpad_streams rp (nat nb_streams) mem d p len p 0 a)"

end
