(* ===== verification/Opusformat.thy ===== *)
theory Opusformat
  imports Opuspacket
begin

section \<open>The format of opus packets\<close>

text \<open>
  What a packet means, read from the list of its bytes (RFC 6716, section 3): the reference the parser
  and the repacketizer are compared with.
\<close>

definition bytes :: "byte list \<Rightarrow> nat \<Rightarrow> int \<Rightarrow> byte list" where
  "bytes m p L = take (nat L) (drop p m)"

lemma length_bytes: "int p + L \<le> int (length m) \<Longrightarrow> length (bytes m p L) = nat L"
  by (auto simp: bytes_def)

lemma bytes_Nil [simp]: "L < 1 \<Longrightarrow> bytes m p L = []"
  by (simp add: bytes_def)

lemma bytes_Cons:
  assumes "1 \<le> L" "int p + L \<le> int (length m)"
  shows "bytes m p L = m ! p # bytes m (p + 1) (L - 1)"
proof -
  have "nat L = Suc (nat (L - 1))" "p < length m" using assms by linarith+
  then show ?thesis by (simp add: bytes_def Cons_nth_drop_Suc [symmetric])
qed

lemma take_bytes: "k \<le> L \<Longrightarrow> take (nat k) (bytes m p L) = bytes m p k"
  by (simp add: bytes_def min_def)

lemma drop_bytes: "0 \<le> k \<Longrightarrow> drop (nat k) (bytes m p L) = bytes m (p + nat k) (L - k)"
proof -
  assume "0 \<le> k"
  then have "nat L - nat k = nat (L - k)" by arith
  then show ?thesis by (simp add: bytes_def drop_take add.commute)
qed

subsection \<open>The duration of a frame\<close>

text \<open>In units of 2.5 ms, from the table of contents.\<close>

definition toc_units :: "byte \<Rightarrow> int" where
  "toc_units t = (if t AND 0x80 \<noteq> 0 then 2 ^ unat (drop_bit 3 t AND 3)
     else if t AND 0x60 = 0x60 then (if t AND 0x08 \<noteq> 0 then 8 else 4)
     else if drop_bit 3 t AND 3 = 3 then 24 else 4 * 2 ^ unat (drop_bit 3 t AND 3))"

lemma samples_units:
  "p < length m \<Longrightarrow> opus_packet_get_samples_per_frame m p (400 * c) = Some (toc_units (m ! p) * c)"
  by (simp add: opus_packet_get_samples_per_frame_def peek_def toc_units_def Let_def push_bit_eq_mult del: drop_bit_eq_div)

lemma and3_less: "unat (x AND 3 :: byte) < 4"
proof -
  have "x AND 3 = take_bit 2 x" by (simp add: take_bit_eq_mask mask_eq_exp_minus_1)
  moreover have "unat (take_bit 2 x) = take_bit 2 (unat x)" by (simp add: unsigned_take_bit_eq)
  ultimately show ?thesis using take_bit_nat_less_exp [of 2 "unat x"] by simp
qed

lemma toc_units_range: "1 \<le> toc_units t \<and> toc_units t \<le> 24"
proof -
  define k where "k = unat (drop_bit 3 t AND 3)"
  have k: "k < 4" unfolding k_def by (rule and3_less)
  then have a: "(2::int) ^ k \<le> 2 ^ 3" by (intro power_increasing) auto
  have "(2::int) ^ k \<le> 2 ^ 2" if "drop_bit 3 t AND 3 \<noteq> 3"
  proof -
    have "k \<noteq> unat (3 :: byte)" using that unfolding k_def word_unat_eq_iff .
    then have "k \<noteq> 3" by simp
    then show ?thesis using k by (intro power_increasing) auto
  qed
  moreover have "(1::int) \<le> 2 ^ k" by simp
  ultimately show ?thesis using a by (auto simp: toc_units_def simp del: one_le_power simp flip: k_def)
qed

lemma toc_units_config: "toc_units (t AND 0xFC) = toc_units t"
proof -
  have a: "(t AND 0xFC) AND 0x80 = t AND (0xFC AND 0x80)" "(t AND 0xFC) AND 0x60 = t AND (0xFC AND 0x60)"
    "(t AND 0xFC) AND 0x08 = t AND (0xFC AND 0x08)" by (simp_all only: and.assoc)
  have "drop_bit 3 (t AND 0xFC) AND 3 = drop_bit 3 t AND (drop_bit 3 0xFC AND 3)" by (simp only: drop_bit_and and.assoc)
  then have b: "drop_bit 3 (t AND 0xFC) AND 3 = drop_bit 3 t AND 3" by simp
  show ?thesis unfolding toc_units_def b a by simp
qed

lemma units_count: "toc_units t * c \<le> 48 \<Longrightarrow> 1 \<le> c \<Longrightarrow> c \<le> 48"
  using toc_units_range [of t] mult_right_mono [of 1 "toc_units t" c] by linarith

subsection \<open>Sizes and padding\<close>

abbreviation frame_size :: "int \<Rightarrow> bool" where
  "frame_size s \<equiv> 0 \<le> s \<and> s \<le> 1275"

fun size_of :: "byte list \<Rightarrow> (int \<times> byte list) option" where
  "size_of [] = None"
| "size_of (a # bs) = (if a < 252 then Some (uint a, bs)
     else case bs of [] \<Rightarrow> None | b # bs \<Rightarrow> Some (4 * uint b + uint a, bs))"

fun sizes_of :: "nat \<Rightarrow> byte list \<Rightarrow> (int list \<times> byte list) option" where
  "sizes_of 0 bs = Some ([], bs)"
| "sizes_of (Suc n) bs = do { (l, bs) \<leftarrow> size_of bs; (ls, bs) \<leftarrow> sizes_of n bs; Some (l # ls, bs) }"

fun padding_of :: "byte list \<Rightarrow> (nat \<times> byte list) option" where
  "padding_of [] = None"
| "padding_of (b # bs) = (if b = 255 then map_option (\<lambda>(k, bs). (254 + k, bs)) (padding_of bs) else Some (unat b, bs))"

lemma byte_range: "0 \<le> uint (b :: byte)" "uint b < 256"
  using uint_bounded [of b] by simp_all

lemma size_of_range:
  assumes "size_of bs = Some (s, bs')" shows "frame_size s" "length bs' < length bs"
proof -
  obtain a r where "bs = a # r" using assms by (cases bs) auto
  moreover have "frame_size (uint x)" "frame_size (4 * uint y + uint x)" for x y :: byte
    using byte_range [of x] byte_range [of y] by linarith+
  ultimately show "frame_size s" "length bs' < length bs" using assms by (auto split: if_splits list.splits)
qed

lemma sizes_of_range:
  "sizes_of n bs = Some (ls, bs') \<Longrightarrow> length ls = n \<and> list_all frame_size ls \<and> length bs' \<le> length bs"
proof (induction n arbitrary: bs ls)
  case (Suc n)
  then obtain l r ls' where s: "size_of bs = Some (l, r)" "sizes_of n r = Some (ls', bs')" "ls = l # ls'"
    by (auto split: bind_splits prod.splits)
  then show ?case using Suc.IH [OF s(2)] size_of_range [OF s(1)] by auto
qed simp

lemma padding_of_shorter: "padding_of bs = Some (k, bs') \<Longrightarrow> length bs' < length bs"
  by (induction bs arbitrary: k) (fastforce split: if_splits)+

lemma sum_frames: "list_all frame_size ls \<Longrightarrow> 0 \<le> sum_list ls"
  by (induction ls) auto

subsection \<open>Packets\<close>

text \<open>The number of frames, whether their sizes differ, the bytes after the header without the padding,
  and the size of the padding.\<close>

definition header_of :: "byte list \<Rightarrow> (nat \<times> bool \<times> byte list \<times> nat) option" where
  "header_of bs = (case bs of [] \<Rightarrow> None
     | t # bs \<Rightarrow>
       if t AND 3 = 0 then Some (1, True, bs, 0)
       else if t AND 3 = 1 then Some (2, False, bs, 0)
       else if t AND 3 = 2 then Some (2, True, bs, 0)
       else (case bs of [] \<Rightarrow> None
         | ch # bs \<Rightarrow> (let n = unat (ch AND 0x3F) in
             if n = 0 \<or> toc_units t * int n > 48 then None
             else do {
               (pad, bs) \<leftarrow> (if ch AND 0x40 \<noteq> 0 then padding_of bs else Some (0, bs));
               if pad > length bs then None else Some (n, ch AND 0x80 \<noteq> 0, take (length bs - pad) bs, pad)
             })))"

definition lengths_of :: "bool \<Rightarrow> nat \<Rightarrow> bool \<Rightarrow> byte list \<Rightarrow> (int list \<times> byte list) option" where
  "lengths_of sd n vbr bs =
     (if vbr then do {
        (ls, bs) \<leftarrow> sizes_of (n - 1) bs;
        (l, bs) \<leftarrow> (if sd then size_of bs else Some (int (length bs) - sum_list ls, bs));
        Some (ls @ [l], bs)
      }
      else do {
        (l, bs) \<leftarrow> (if sd then size_of bs else Some (int (length bs) div int n, bs));
        Some (replicate n l, bs)
      })"

fun split_at :: "int list \<Rightarrow> byte list \<Rightarrow> byte list list" where
  "split_at [] bs = []"
| "split_at (l # ls) bs = take (nat l) bs # split_at ls (drop (nat l) bs)"

text \<open>The frames, and the end of the packet; only a self-delimited one may end before the bytes do.\<close>

definition frames_of :: "bool \<Rightarrow> byte list \<Rightarrow> (byte list list \<times> int) option" where
  "frames_of sd bs = do {
     (n, vbr, r, pad) \<leftarrow> header_of bs;
     (ls, r) \<leftarrow> lengths_of sd n vbr r;
     if list_all frame_size ls \<and> (if sd then sum_list ls \<le> int (length r) else sum_list ls = int (length r))
     then Some (split_at ls r, int (length bs) - int (length r) + sum_list ls) else None
   }"

text \<open>Where the first frame starts.\<close>

definition frame_start :: "bool \<Rightarrow> byte list \<Rightarrow> int option" where
  "frame_start sd bs = do {
     (n, vbr, r, pad) \<leftarrow> header_of bs;
     (ls, r) \<leftarrow> lengths_of sd n vbr r;
     Some (int (length bs) - int pad - int (length r))
   }"

lemma frames_of_short:
  assumes "header_of bs = Some (n, True, r, pad)"
    and "\<forall>ls r'. sizes_of (n - 1) r = Some (ls, r') \<longrightarrow> int (length r') < sum_list ls"
  shows "frames_of sd bs = None"
proof (cases "sizes_of (n - 1) r")
  case None
  then show ?thesis using assms(1) by (simp add: frames_of_def lengths_of_def)
next
  case (Some x)
  then obtain ls r' where s: "sizes_of (n - 1) r = Some (ls, r')" by (cases x) simp
  then have l: "int (length r') < sum_list ls" using assms(2) by simp
  show ?thesis
  proof (cases sd)
    case True
    then show ?thesis using assms(1) s l size_of_range [of r']
      by (force simp: frames_of_def lengths_of_def split: bind_splits prod.splits option.splits)
  next
    case False
    then show ?thesis using assms(1) s l by (simp add: frames_of_def lengths_of_def)
  qed
qed

lemma frames_of_cbr:
  assumes "header_of bs = Some (n, False, r, pad)" "1 \<le> n" "if sd then size_of r = Some (l, r') else l = int (length r) div int n \<and> r' = r"
  shows "frames_of sd bs = (if frame_size l \<and> (if sd then int n * l \<le> int (length r') else int n * l = int (length r'))
    then Some (split_at (replicate n l) r', int (length bs) - int (length r') + int n * l) else None)"
proof -
  have "list_all frame_size (replicate n l) \<longleftrightarrow> frame_size l" using assms(2) by (auto simp: list_all_iff)
  then show ?thesis using assms by (cases sd) (simp_all add: frames_of_def lengths_of_def sum_list_replicate)
qed

lemma frames_of_vbr:
  assumes "header_of bs = Some (n, True, r, pad)" "sizes_of (n - 1) r = Some (ls, r1)"
    and "if sd then size_of r1 = Some (l, r') else l = int (length r1) - sum_list ls \<and> r' = r1"
  shows "frames_of sd bs = (if frame_size l \<and> (sd \<longrightarrow> sum_list ls + l \<le> int (length r'))
    then Some (split_at (ls @ [l]) r', int (length bs) - int (length r') + (sum_list ls + l)) else None)"
  using assms sizes_of_range [OF assms(2)] by (cases sd) (simp_all add: frames_of_def lengths_of_def)

lemma frame_start_cbr:
  assumes "header_of bs = Some (n, False, r, pad)" "if sd then size_of r = Some (l, r') else r' = r"
  shows "frame_start sd bs = Some (int (length bs) - int pad - int (length r'))"
  using assms by (cases sd) (simp_all add: frame_start_def lengths_of_def)

lemma frame_start_vbr:
  assumes "header_of bs = Some (n, True, r, pad)" "sizes_of (n - 1) r = Some (ls, r1)" "if sd then size_of r1 = Some (l, r') else r' = r1"
  shows "frame_start sd bs = Some (int (length bs) - int pad - int (length r'))"
  using assms by (cases sd) (simp_all add: frame_start_def lengths_of_def)

lemma frames_of_unsized:
  assumes "header_of bs = Some (n, vbr, r, pad)" "if vbr then sizes_of (n - 1) r = Some (ls, r1) else r1 = r" "size_of r1 = None"
  shows "frames_of True bs = None"
  using assms by (simp add: frames_of_def lengths_of_def split: if_splits)

end
