(* ===== verification/Opusparse.thy ===== *)
theory Opusparse
  imports Opusformat
begin

section \<open>Parsing of opus packets\<close>

text \<open>
  On any bytes the parser stays within the packet and its arrays, the frames it returns lie in the packet
  one after the other, and it accepts exactly the packets of the format.
\<close>

text \<open>A step of the parser: an early return, with a negative code, is one the condition \<open>B\<close> allows.\<close>

definition steps :: "((int \<times> int list) + 'a) option \<Rightarrow> nat \<Rightarrow> bool \<Rightarrow> ('a \<Rightarrow> bool) \<Rightarrow> bool" where
  "steps r n B Q \<longleftrightarrow> (case r of None \<Rightarrow> False | Some (Inl (e, a)) \<Rightarrow> e < 0 \<and> length a = n \<and> B | Some (Inr x) \<Rightarrow> Q x)"

lemma steps_simps [simp]:
  "steps (Some (Inr x)) n B Q = Q x" "steps (Some (Inl (e, a))) n B Q = (e < 0 \<and> length a = n \<and> B)" "\<not> steps None n B Q"
  by (simp_all add: steps_def)

lemma steps_and_then:
  assumes r: "steps r n B P" and f: "\<And>x. P x \<Longrightarrow> steps (f x) n B' Q" and B: "B \<Longrightarrow> B'"
  shows "steps (and_then r f) n B' Q"
proof -
  consider e a where "r = Some (Inl (e, a))" | x where "r = Some (Inr x)"
    using r by (auto simp: steps_def split: option.splits sum.splits)
  then show ?thesis using r f B by cases (simp_all add: and_then_def)
qed

lemma steps_mono: "steps r n B P \<Longrightarrow> (\<And>x. P x \<Longrightarrow> Q x) \<Longrightarrow> (B \<Longrightarrow> B') \<Longrightarrow> steps r n B' Q"
  by (auto simp: steps_def split: option.splits sum.splits)

lemma size_bytes_range: "1 \<le> size_bytes s \<and> size_bytes s \<le> 2"
  by (simp add: size_bytes_def)

lemma parse_size_cases:
  assumes m: "int p + len \<le> int (length m)"
  obtains "parse_size m p len = Some (-1, -1)" "size_of (bytes m p len) = None"
  | b s where "parse_size m p len = Some (b, s)" "frame_size s" "b = size_bytes s" "b \<le> len"
      "size_of (bytes m p len) = Some (s, bytes m (p + nat b) (len - b))"
proof -
  have lt: "x < 252 \<longleftrightarrow> uint x < 252" for x :: byte by (simp add: word_less_def)
  consider "len < 1" | "1 \<le> len" "m ! p < 252" | "1 \<le> len" "\<not> m ! p < 252" "len < 2" | "1 \<le> len" "\<not> m ! p < 252" "2 \<le> len" by linarith
  then show ?thesis
  proof cases
    case 1
    then show ?thesis by (intro that(1)) (simp_all add: parse_size_def)
  next
    case 2
    then show ?thesis using m byte_range [of "m ! p"]
      by (intro that(2) [of 1 "uint (m ! p)"]) (auto simp: parse_size_def peek_def size_bytes_def lt bytes_Cons)
  next
    case 3
    then show ?thesis using m by (intro that(1)) (auto simp: parse_size_def peek_def bytes_Cons)
  next
    case 4
    have "bytes m p len = m ! p # m ! (p + 1) # bytes m (p + 1 + 1) (len - 1 - 1)"
      using 4 m bytes_Cons [of len p m] bytes_Cons [of "len - 1" "p + 1" m] by simp
    moreover have "252 \<le> 4 * uint (m ! (p + 1)) + uint (m ! p)" using 4 byte_range(1) [of "m ! (p + 1)"] lt [of "m ! p"] by linarith
    ultimately show ?thesis using 4 m byte_range(2) [of "m ! p"] byte_range(2) [of "m ! (p + 1)"]
      by (intro that(2) [of 2 "4 * uint (m ! (p + 1)) + uint (m ! p)"]) (auto simp: parse_size_def peek_def size_bytes_def lt)
  qed
qed

text \<open>The position, the bytes left and the padding account for the packet of \<open>L\<close> bytes at \<open>p\<close>.\<close>

definition parse_ok :: "byte list \<Rightarrow> nat \<Rightarrow> int \<Rightarrow> parse_state \<Rightarrow> bool" where
  "parse_ok m p L st \<longleftrightarrow> int (p_data st) + p_len st + p_pad st = int p + L \<and> 0 \<le> p_pad st \<and> p < p_data st \<and>
     int p + L \<le> int (length m)"

abbreviation rest :: "byte list \<Rightarrow> parse_state \<Rightarrow> byte list" where
  "rest m st \<equiv> bytes m (p_data st) (p_len st)"

abbreviation rest_pad :: "byte list \<Rightarrow> parse_state \<Rightarrow> byte list" where
  "rest_pad m st \<equiv> bytes m (p_data st) (p_len st + p_pad st)"

lemma parse_ok_rest:
  assumes "parse_ok m p L st"
  shows "int (p_data st) + p_len st \<le> int (length m)" "length (rest m st) = nat (p_len st)"
    "int (p_data st) + (p_len st + p_pad st) \<le> int (length m)" "length (rest_pad m st) = nat (p_len st + p_pad st)"
  using assms length_bytes [of "p_data st" "p_len st" m] length_bytes [of "p_data st" "p_len st + p_pad st" m]
  unfolding parse_ok_def by linarith+

definition pad_bad :: "byte list \<Rightarrow> parse_state \<Rightarrow> bool" where
  "pad_bad m st \<longleftrightarrow> (\<forall>k bs. padding_of (rest_pad m st) = Some (k, bs) \<longrightarrow> int (length bs) < p_pad st + int k)"

definition pad_done :: "byte list \<Rightarrow> nat \<Rightarrow> int \<Rightarrow> parse_state \<Rightarrow> parse_state \<Rightarrow> bool" where
  "pad_done m p L st st' \<longleftrightarrow> parse_ok m p L st' \<and> p_count st' = p_count st \<and> p_size st' = p_size st \<and>
     0 \<le> p_len st' + p_pad st' \<and> (\<exists>k. padding_of (rest_pad m st) = Some (k, rest_pad m st') \<and> p_pad st' = p_pad st + int k)"

lemma skip_padding_ok:
  assumes "parse_ok m p L st"
  shows "steps (skip_padding m st) (length (p_size st)) (pad_bad m st) (pad_done m p L st)"
  using assms
proof (induction m st rule: skip_padding.induct)
  case (1 m st)
  show ?case
  proof (cases "p_len st \<le> 0")
    case True
    have "int (length bs) < p_pad st + int k" if "padding_of (rest_pad m st) = Some (k, bs)" for k bs
      using padding_of_shorter [OF that] parse_ok_rest(4) [OF 1(2)] True by linarith
    then show ?thesis using True by (simp add: skip_padding.simps [of m st] pad_bad_def)
  next
    case False
    let ?b = "m ! p_data st" and ?tmp = "if m ! p_data st = 255 then 254 else uint (m ! p_data st)"
    let ?st = "st\<lparr>p_data := p_data st + 1, p_len := p_len st - 1 - ?tmp, p_pad := p_pad st + ?tmp\<rparr>"
    have pk: "peek m (p_data st) = Some ?b" using 1(2) False by (auto simp: peek_def parse_ok_def)
    have ok: "parse_ok m p L ?st" using 1(2) byte_range(1) [of ?b] by (auto simp: parse_ok_def)
    have "1 \<le> p_len st + p_pad st" using 1(2) False by (simp add: parse_ok_def)
    from bytes_Cons [OF this parse_ok_rest(3) [OF 1(2)]]
    have bs: "rest_pad m st = ?b # rest_pad m ?st" by (simp add: algebra_simps)
    show ?thesis
    proof (cases "?b = 255")
      case True
      then have "skip_padding m st = skip_padding m ?st" using False pk by (simp add: skip_padding.simps [of m st])
      moreover have ih: "steps (skip_padding m ?st) (length (p_size st)) (pad_bad m ?st) (pad_done m p L ?st)"
        using 1(1) [OF False pk refl refl True] ok by simp
      have bad: "pad_bad m ?st \<Longrightarrow> pad_bad m st" using True bs by (auto simp: pad_bad_def)
      have ends: "pad_done m p L ?st st' \<Longrightarrow> pad_done m p L st st'" for st' using True bs by (auto simp: pad_done_def)
      have "steps (skip_padding m ?st) (length (p_size st)) (pad_bad m st) (pad_done m p L st)"
        by (rule steps_mono [OF ih]) (erule ends, erule bad)
      ultimately show ?thesis by simp
    next
      case b: False
      then have "skip_padding m st = Some (Inr ?st)" using False pk by (simp add: skip_padding.simps [of m st] Let_def)
      moreover have "\<exists>k. padding_of (rest_pad m st) = Some (k, rest_pad m ?st) \<and> p_pad ?st = p_pad st + int k"
        using b bs by (intro exI [of _ "unat ?b"]) simp
      moreover have "0 \<le> p_len ?st + p_pad ?st" using 1(2) False by (simp add: parse_ok_def)
      ultimately show ?thesis using ok by (simp add: pad_done_def)
    qed
  qed
qed

definition sizes_bad :: "byte list \<Rightarrow> nat \<Rightarrow> parse_state \<Rightarrow> bool" where
  "sizes_bad m n st \<longleftrightarrow> (\<forall>ls bs. sizes_of n (rest m st) = Some (ls, bs) \<longrightarrow> int (length bs) < sum_list ls)"

definition sizes_done :: "byte list \<Rightarrow> nat \<Rightarrow> int \<Rightarrow> nat \<Rightarrow> nat \<Rightarrow> parse_state \<Rightarrow> parse_state \<Rightarrow> bool" where
  "sizes_done m p L i n st st' \<longleftrightarrow> parse_ok m p L st' \<and> p_count st' = p_count st \<and> p_cbr st' = p_cbr st \<and> p_pad st' = p_pad st \<and>
     length (p_size st') = length (p_size st) \<and> take i (p_size st') = take i (p_size st) \<and>
     sizes_of n (rest m st) = Some (take n (drop i (p_size st')), rest m st') \<and>
     p_last st' + sum_list (take n (drop i (p_size st'))) - p_len st' = p_last st - p_len st \<and>
     (0 \<le> p_len st \<longrightarrow> 0 \<le> p_len st')"

lemma parse_sizes_ok:
  assumes "parse_ok m p L st" "i + n < length (p_size st)"
  shows "steps (parse_sizes m i n st) (length (p_size st)) (sizes_bad m n st) (sizes_done m p L i n st)"
  using assms
proof (induction n arbitrary: i st)
  case 0
  then show ?case by (simp add: sizes_done_def)
next
  case (Suc n)
  show ?case
  proof (cases rule: parse_size_cases [OF parse_ok_rest(1) [OF Suc.prems(1)]])
    case 1
    then show ?thesis using Suc.prems(2) by (simp add: arr_set_def sizes_bad_def)
  next
    case (2 b s)
    let ?a = "(p_size st)[i := s]"
    let ?st = "st\<lparr>p_size := ?a, p_len := p_len st - b, p_data := p_data st + nat b, p_last := p_last st - (b + s)\<rparr>"
    have i: "i < length (p_size st)" using Suc.prems(2) by simp
    have b: "1 \<le> b" using 2 size_bytes_range by simp
    have ok: "parse_ok m p L ?st" using Suc.prems(1) b by (auto simp: parse_ok_def)
    have r: "sizes_of (Suc n) (rest m st) = do { (ls, bs) \<leftarrow> sizes_of n (rest m ?st); Some (s # ls, bs) }" using 2(5) by simp
    show ?thesis
    proof (cases "s > p_len st - b")
      case True
      have "int (length bs) < s + sum_list ls" if "sizes_of n (rest m ?st) = Some (ls, bs)" for ls bs
        using sizes_of_range [OF that] sum_frames [of ls] parse_ok_rest(2) [OF ok] True 2(4) by simp linarith
      then have "sizes_bad m (Suc n) st" unfolding sizes_bad_def r by (auto split: bind_splits)
      then show ?thesis using 2 i True by (simp add: arr_set_def Let_def)
    next
      case False
      have ih: "steps (parse_sizes m (Suc i) n ?st) (length (p_size ?st)) (sizes_bad m n ?st) (sizes_done m p L (Suc i) n ?st)"
        using ok Suc.prems(2) by (intro Suc.IH) simp_all
      have bad: "sizes_bad m n ?st \<Longrightarrow> sizes_bad m (Suc n) st" unfolding sizes_bad_def r using 2(2)
        by (fastforce split: bind_splits)
      have ends: "sizes_done m p L (Suc i) n ?st st' \<Longrightarrow> sizes_done m p L i (Suc n) st st'" for st'
      proof -
        assume d: "sizes_done m p L (Suc i) n ?st st'"
        then have l: "length (p_size st') = length (p_size st)" "take (Suc i) (p_size st') = take (Suc i) ?a" by (simp_all add: sizes_done_def)
        then have "take i (p_size st') = take i (p_size st)" "p_size st' ! i = s"
          using i by (simp_all add: take_Suc_conv_app_nth)
        moreover from this have "take (Suc n) (drop i (p_size st')) = s # take n (drop (Suc i) (p_size st'))"
          using i l by (simp add: Cons_nth_drop_Suc [symmetric])
        ultimately show ?thesis using d r l 2(4) by (simp add: sizes_done_def)
      qed
      have "steps (parse_sizes m (Suc i) n ?st) (length (p_size ?st)) (sizes_bad m (Suc n) st) (sizes_done m p L i (Suc n) st)"
        by (rule steps_mono [OF ih]) (erule ends, erule bad)
      then show ?thesis using 2 False i by (simp add: arr_set_def Let_def)
    qed
  qed
qed

lemma fill_sizes_ok:
  "i + n \<le> length a \<Longrightarrow> fill_sizes i n v a = Some (take i a @ replicate n v @ drop (i + n) a)"
proof (induction n arbitrary: i a)
  case (Suc n)
  then have i: "i < length a" by simp
  have "fill_sizes (Suc i) n v (a[i := v]) = Some (take (Suc i) (a[i := v]) @ replicate n v @ drop (Suc i + n) (a[i := v]))"
    using Suc by (intro Suc.IH) simp
  moreover have "take (Suc i) (a[i := v]) = take i a @ [v]" using i by (simp add: take_Suc_conv_app_nth)
  ultimately show ?case using i by (simp add: arr_set_def replicate_append_same)
qed simp

subsection \<open>The contract of the parser\<close>

fun starts :: "int list \<Rightarrow> nat \<Rightarrow> nat list" where
  "starts [] q = []"
| "starts (l # ls) q = q # starts ls (q + nat l)"

lemma length_starts [simp]: "length (starts ls q) = length ls"
  by (induction ls arbitrary: q) auto

definition contents :: "byte list \<Rightarrow> nat list \<Rightarrow> int list \<Rightarrow> byte list list" where
  "contents m fs ls = map2 (\<lambda>q l. take (nat l) (drop q m)) fs ls"

lemma split_at_contents:
  "list_all frame_size ls \<Longrightarrow> sum_list ls \<le> L \<Longrightarrow> split_at ls (bytes m q L) = contents m (starts ls q) ls"
proof (induction ls arbitrary: q L)
  case (Cons l ls)
  have "l \<le> L" using Cons.prems sum_frames [of ls] by simp
  then show ?case using Cons by (simp add: take_bytes drop_bytes contents_def) (simp add: bytes_def)
qed (simp add: contents_def)

definition packet_ok :: "byte list \<Rightarrow> nat \<Rightarrow> int \<Rightarrow> bool \<Rightarrow> nat list option \<Rightarrow> int list \<Rightarrow> packet \<Rightarrow> bool" where
  "packet_ok m p len sd frames a pk \<longleftrightarrow> (let n = nat (pk_count pk); ls = take n (pk_size pk) in
     1 \<le> pk_count pk \<and> toc_units (m ! p) * pk_count pk \<le> 48 \<and> opus_packet_get_nb_frames m p len = Some (pk_count pk) \<and>
     pk_toc pk = m ! p \<and> length (pk_size pk) = length a \<and> list_all frame_size ls \<and>
     pk_frames pk = map_option (\<lambda>fs. starts ls (p + nat (pk_payload pk)) @ drop n fs) frames \<and>
     1 \<le> pk_payload pk \<and> pk_payload pk + sum_list ls \<le> pk_end pk \<and> pk_end pk \<le> len \<and> (\<not> sd \<longrightarrow> pk_end pk = len))"

text \<open>The arrays have an entry for every frame the header may announce.\<close>

definition room :: "byte list \<Rightarrow> nat \<Rightarrow> int \<Rightarrow> nat \<Rightarrow> bool" where
  "room m p L n \<longleftrightarrow> (\<forall>c. opus_packet_get_nb_frames m p L = Some c \<longrightarrow> toc_units (m ! p) * c \<le> 48 \<longrightarrow> nat c \<le> n)"

lemma room_48: "48 \<le> n \<Longrightarrow> room m p L n"
  using units_count by (fastforce simp: room_def)

text \<open>What holds after the \<open>switch\<close>: unless there is one size for all frames, the sizes of all but the last
  are known, and what they leave of the bytes is the last frame's.\<close>

abbreviation counted :: "byte list \<Rightarrow> nat \<Rightarrow> int \<Rightarrow> int \<Rightarrow> bool" where
  "counted m p L c \<equiv> 1 \<le> c \<and> toc_units (m ! p) * c \<le> 48 \<and> opus_packet_get_nb_frames m p L = Some c"

definition switched :: "byte list \<Rightarrow> nat \<Rightarrow> int \<Rightarrow> bool \<Rightarrow> nat \<Rightarrow> parse_state \<Rightarrow> bool" where
  "switched m p L sd n st \<longleftrightarrow> (let c = p_count st; k = nat (c - 1); ls = take k (p_size st) in
     parse_ok m p L st \<and> counted m p L c \<and> length (p_size st) = n \<and> 0 \<le> p_len st \<and>
     (\<exists>r. header_of (bytes m p L) = Some (nat c, \<not> p_cbr st, r, nat (p_pad st)) \<and>
        (if p_cbr st then r = rest m st \<and> (\<not> sd \<longrightarrow> p_last st * c = p_len st \<and> ls = replicate k (to_int16 (p_last st)))
         else sizes_of k r = Some (ls, rest m st) \<and> p_last st + sum_list ls = p_len st \<and> 0 \<le> p_last st)))"

text \<open>And after the size of the last frame.\<close>

definition sized :: "byte list \<Rightarrow> nat \<Rightarrow> int \<Rightarrow> bool \<Rightarrow> nat \<Rightarrow> parse_state \<Rightarrow> bool" where
  "sized m p L sd n st \<longleftrightarrow> (let c = p_count st; ls = take (nat c) (p_size st) in
     parse_ok m p L st \<and> counted m p L c \<and> length (p_size st) = n \<and>
     list_all frame_size ls \<and> sum_list ls \<le> p_len st \<and> (\<not> sd \<longrightarrow> sum_list ls = p_len st) \<and>
     frames_of sd (bytes m p L) = Some (split_at ls (rest m st), L - p_len st + sum_list ls) \<and>
     frame_start sd (bytes m p L) = Some (L - p_pad st - p_len st))"

abbreviation malformed :: "byte list \<Rightarrow> nat \<Rightarrow> int \<Rightarrow> bool \<Rightarrow> bool" where
  "malformed m p L sd \<equiv> frames_of sd (bytes m p L) = None"

lemma to_int16_frame: "frame_size s \<Longrightarrow> to_int16 s = s"
  by (simp add: to_int16_def sint_sbintrunc' signed_take_bit_int_eq_self)

lemma take_last_size:
  assumes "1 \<le> c" "nat c \<le> length a"
  shows "take (nat c) (a[nat c - 1 := v]) = take (nat (c - 1)) a @ [v]"
proof -
  have "nat c = Suc (nat (c - 1))" "nat (c - 1) < length a" using assms by linarith+
  then show ?thesis by (simp add: take_Suc_conv_app_nth)
qed

lemma last_plain:
  assumes sw: "switched m p L False n st" and room: "room m p L n"
  shows "steps (parse_last m False st) n (malformed m p L False) (sized m p L False n)"
proof -
  let ?c = "p_count st" and ?a = "p_size st" and ?l = "p_last st"
  let ?k = "nat (?c - 1)"
  from sw obtain r where ok: "parse_ok m p L st" and c: "counted m p L ?c" and n: "length ?a = n" and len: "0 \<le> p_len st"
    and h: "header_of (bytes m p L) = Some (nat ?c, \<not> p_cbr st, r, nat (p_pad st))"
    and cbr: "p_cbr st \<Longrightarrow> r = rest m st" "p_cbr st \<Longrightarrow> ?l * ?c = p_len st" "p_cbr st \<Longrightarrow> take ?k ?a = replicate ?k (to_int16 ?l)"
    and vbr: "\<not> p_cbr st \<Longrightarrow> sizes_of ?k r = Some (take ?k ?a, rest m st)" "\<not> p_cbr st \<Longrightarrow> ?l + sum_list (take ?k ?a) = p_len st" "\<not> p_cbr st \<Longrightarrow> 0 \<le> ?l"
    by (auto simp: switched_def Let_def split: if_splits)
  have cn: "nat ?c \<le> n" using room c by (simp add: room_def)
  have lb: "int (length (bytes m p L)) = L" using ok len length_bytes [of p L m] unfolding parse_ok_def by linarith
  have lr: "int (length (rest m st)) = p_len st" using parse_ok_rest(2) [OF ok] len by simp
  have pad0: "int (nat (p_pad st)) = p_pad st" using ok by (simp add: parse_ok_def)
  let ?b = "?a[nat ?c - 1 := to_int16 ?l]"
  have t: "take (nat ?c) ?b = take ?k ?a @ [to_int16 ?l]" using c cn n by (intro take_last_size) simp_all
  have k: "nat ?c - 1 = ?k" "nat ?c = Suc ?k" using c by linarith+
  have *: "frames_of False (bytes m p L) = (if frame_size ?l then Some (split_at (take ?k ?a @ [?l]) (rest m st), L) else None)
      \<and> (frame_size ?l \<longrightarrow> list_all frame_size (take ?k ?a) \<and> sum_list (take ?k ?a) + ?l = p_len st) \<and> 0 \<le> ?l
      \<and> frame_start False (bytes m p L) = Some (L - p_pad st - p_len st)"
  proof (cases "p_cbr st")
    case True
    have cl: "int (nat ?c) * ?l = p_len st" using cbr(2) [OF True] c by (simp add: mult.commute)
    have "0 \<le> ?c * ?l" using cl c len by simp
    then have l0: "0 \<le> ?l" using c by (simp add: zero_le_mult_iff)
    have "int (nat ?c) * ?l div int (nat ?c) = ?l" using c by (intro nonzero_mult_div_cancel_left) simp
    then have "?l = int (length (rest m st)) div int (nat ?c)" unfolding cl lr by (rule sym)
    moreover have h': "header_of (bytes m p L) = Some (nat ?c, False, rest m st, nat (p_pad st))" using h True cbr(1) by simp
    moreover have "1 \<le> nat ?c" using c by linarith
    ultimately have "frames_of False (bytes m p L) = (if frame_size ?l then Some (split_at (replicate (nat ?c) ?l) (rest m st), L) else None)"
      using frames_of_cbr [of "bytes m p L" "nat ?c" "rest m st" "nat (p_pad st)" False ?l "rest m st"] cl lr lb by simp
    moreover have rep: "frame_size ?l \<longrightarrow> take ?k ?a = replicate ?k ?l" using cbr(3) [OF True] by (auto simp: to_int16_frame)
    moreover have "int ?k * ?l + ?l = p_len st" using cl k(2) c by (simp add: algebra_simps)
    moreover have "frame_start False (bytes m p L) = Some (L - p_pad st - p_len st)"
      using frame_start_cbr [OF h', of False] lr lb pad0 by simp
    ultimately show ?thesis using l0 k(2) by (simp add: sum_list_replicate list_all_iff replicate_append_same)
  next
    case False
    then have h': "header_of (bytes m p L) = Some (nat ?c, True, r, nat (p_pad st))" "sizes_of (nat ?c - 1) r = Some (take ?k ?a, rest m st)"
      using h vbr(1) k(1) by simp_all
    then show ?thesis using frames_of_vbr [OF h', of False ?l "rest m st"] frame_start_vbr [OF h', of False]
      False vbr lr lb pad0 sizes_of_range [OF vbr(1)] by auto
  qed
  show ?thesis
  proof (cases "?l > 1275")
    case True
    then show ?thesis using * n by (simp add: parse_last_def Let_def)
  next
    case False
    then have f: "frame_size ?l" using * by simp
    have "parse_last m False st = Some (Inr (st\<lparr>p_size := ?b\<rparr>))" using False cn k n by (simp add: parse_last_def arr_set_def Let_def)
    moreover have "sized m p L False n (st\<lparr>p_size := ?b\<rparr>)" using ok c n t * f by (simp add: sized_def Let_def parse_ok_def to_int16_frame)
    ultimately show ?thesis by simp
  qed
qed

lemma last_sized:
  assumes sw: "switched m p L True n st" and room: "room m p L n"
  shows "steps (parse_last m True st) n (malformed m p L True) (sized m p L True n)"
proof -
  let ?c = "p_count st" and ?a = "p_size st"
  let ?k = "nat (?c - 1)"
  from sw obtain r where ok: "parse_ok m p L st" and c: "counted m p L ?c" and n: "length ?a = n" and len: "0 \<le> p_len st"
    and h: "header_of (bytes m p L) = Some (nat ?c, \<not> p_cbr st, r, nat (p_pad st))"
    and cbr: "p_cbr st \<Longrightarrow> r = rest m st"
    and vbr: "\<not> p_cbr st \<Longrightarrow> sizes_of ?k r = Some (take ?k ?a, rest m st)" "\<not> p_cbr st \<Longrightarrow> p_last st + sum_list (take ?k ?a) = p_len st"
    by (auto simp: switched_def Let_def split: if_splits)
  have cn: "nat ?c \<le> length ?a" "nat ?c - 1 < length ?a" using room c n by (auto simp: room_def)
  have k: "nat ?c - 1 = ?k" "nat ?c = Suc ?k" using c by linarith+
  have lb: "int (length (bytes m p L)) = L" using ok len length_bytes [of p L m] unfolding parse_ok_def by linarith
  show ?thesis
  proof (cases rule: parse_size_cases [OF parse_ok_rest(1) [OF ok]])
    case 1
    have "frames_of True (bytes m p L) = None"
      using frames_of_unsized [of "bytes m p L" "nat ?c" "\<not> p_cbr st" r "nat (p_pad st)" "take ?k ?a" "rest m st"] h 1(2) cbr vbr(1) k(1) by auto
    then show ?thesis using 1(1) cn(2) n by (simp add: parse_last_def arr_set_def Let_def)
  next
    case (2 b s)
    let ?a' = "?a[nat ?c - 1 := s]"
    let ?st = "st\<lparr>p_size := ?a', p_len := p_len st - b, p_data := p_data st + nat b\<rparr>"
    have b: "1 \<le> b" using 2 size_bytes_range by simp
    have ok': "parse_ok m p L ?st" using ok b by (auto simp: parse_ok_def)
    have lr: "int (length (rest m ?st)) = p_len st - b" using parse_ok_rest(2) [OF ok'] 2(4) by simp
    have sz: "size_of (rest m st) = Some (s, rest m ?st)" using 2(5) by simp
    have pad0: "int (nat (p_pad st)) = p_pad st" using ok by (simp add: parse_ok_def)
    show ?thesis
    proof (cases "p_cbr st")
      case True
      have "header_of (bytes m p L) = Some (nat ?c, False, rest m st, nat (p_pad st))" using h True cbr by simp
      note h' = this
      moreover have "1 \<le> nat ?c" "int (nat ?c) = ?c" using c by linarith+
      ultimately have fr: "frames_of True (bytes m p L) = (if s * ?c \<le> p_len st - b
          then Some (split_at (replicate (nat ?c) s) (rest m ?st), L - (p_len st - b) + s * ?c) else None)"
        using frames_of_cbr [of "bytes m p L" "nat ?c" "rest m st" "nat (p_pad st)" True s "rest m ?st"] sz 2(2) lr lb by (simp add: mult.commute)
      have fst: "frame_start True (bytes m p L) = Some (L - p_pad st - (p_len st - b))"
        using frame_start_cbr [OF h', of True s "rest m ?st"] sz lr lb pad0 by simp
      have sc: "s \<le> s * ?c" using 2(2) c mult_left_mono [of 1 ?c s] by simp
      show ?thesis
      proof (cases "s * ?c > p_len st - b")
        case big: True
        then show ?thesis using 2(1,2) True cn n fr by (auto simp: parse_last_def arr_set_def Let_def)
      next
        case False
        let ?f = "take 0 ?a' @ replicate (nat ?c - 1) s @ drop (0 + (nat ?c - 1)) ?a'"
        have f: "fill_sizes 0 (nat ?c - 1) s ?a' = Some ?f" using cn by (intro fill_sizes_ok) simp
        have "drop (nat ?c - 1) ?a' = s # drop (nat ?c) ?a" using cn(2) c by (simp add: drop_update_swap Cons_nth_drop_Suc [symmetric])
        then have f': "?f = replicate (nat ?c) s @ drop (nat ?c) ?a" using c
          by (cases "nat ?c") (simp_all add: replicate_append_same)
        have "parse_last m True st = Some (Inr (?st\<lparr>p_size := ?f\<rparr>))" using 2(1,2) True cn f False sc
          by (simp add: parse_last_def arr_set_def Let_def)
        moreover have "sized m p L True n (?st\<lparr>p_size := ?f\<rparr>)"
          unfolding f' using ok' c n cn 2(2) False fr fst by (simp add: sized_def Let_def parse_ok_def sum_list_replicate list_all_iff mult.commute)
        ultimately show ?thesis by simp
      qed
    next
      case False
      have t: "take (nat ?c) ?a' = take ?k ?a @ [s]" using c cn by (intro take_last_size) simp_all
      have fs: "list_all frame_size (take ?k ?a)" using sizes_of_range [OF vbr(1) [OF False]] by simp
      have h': "header_of (bytes m p L) = Some (nat ?c, True, r, nat (p_pad st))" "sizes_of (nat ?c - 1) r = Some (take ?k ?a, rest m st)"
        using h False vbr(1) k(1) by simp_all
      have fst: "frame_start True (bytes m p L) = Some (L - p_pad st - (p_len st - b))"
        using frame_start_vbr [OF h', of True s "rest m ?st"] sz lr lb pad0 by simp
      have fr: "frames_of True (bytes m p L) = (if sum_list (take ?k ?a) + s \<le> p_len st - b
          then Some (split_at (take ?k ?a @ [s]) (rest m ?st), L - (p_len st - b) + (sum_list (take ?k ?a) + s)) else None)"
        using frames_of_vbr [OF h', of True s "rest m ?st"] sz 2(2) lr lb by simp
      have ss: "s \<le> sum_list (take ?k ?a) + s" using sum_frames [OF fs] by simp
      show ?thesis
      proof (cases "b + s > p_last st")
        case True
        then have "frames_of True (bytes m p L) = None" using fr vbr(2) [OF False] by simp
        then show ?thesis using 2(1,2) True False cn n by (simp add: parse_last_def arr_set_def Let_def)
      next
        case l: False
        then have sum: "sum_list (take ?k ?a) + s \<le> p_len st - b" using vbr(2) [OF False] by simp
        then have "parse_last m True st = Some (Inr ?st)" using 2(1,2) l False cn(2) ss by (simp add: parse_last_def arr_set_def Let_def)
        moreover have "sized m p L True n ?st" using ok' c n t sum 2(2) fs fr fst by (simp add: sized_def Let_def parse_ok_def)
        ultimately show ?thesis by simp
      qed
    qed
  qed
qed

lemma two_cbr_ok:
  assumes ok: "parse_ok m p L st" "p_pad st = 0" "0 \<le> p_len st" and c: "counted m p L 2"
    and h: "header_of (bytes m p L) = Some (2, False, rest m st, 0)" and n: "length (p_size st) = n" "2 \<le> n"
  shows "steps (parse_two_cbr sd st) n (malformed m p L sd) (switched m p L sd n)"
proof (cases "sd \<or> odd (p_len st)")
  case True
  have "malformed m p L sd" if "\<not> sd"
  proof -
    have "odd (p_len st)" using True that by simp
    then have "2 * (p_len st div 2) \<noteq> p_len st" by presburger
    then show ?thesis using frames_of_cbr [OF h, of False "p_len st div 2" "rest m st"] parse_ok_rest(2) [OF ok(1)] ok(3) that by simp
  qed
  then show ?thesis using True ok c h n by (auto simp: parse_two_cbr_def Let_def switched_def parse_ok_def)
next
  case False
  let ?st = "st\<lparr>p_count := 2, p_cbr := True, p_last := p_len st div 2, p_size := (p_size st)[0 := to_int16 (p_len st div 2)]\<rparr>"
  have "parse_two_cbr sd st = Some (Inr ?st)" using False n by (simp add: parse_two_cbr_def Let_def arr_set_def)
  moreover have "take (Suc 0) (p_size ?st) = [to_int16 (p_len st div 2)]" using n by (cases "p_size st") auto
  moreover have "even (p_len st)" using False by simp
  then have "p_len st div 2 * 2 = p_len st" by presburger
  ultimately show ?thesis using False ok c h n by (simp add: switched_def parse_ok_def Let_def)
qed

lemma two_vbr_ok:
  assumes ok: "parse_ok m p L st" "p_pad st = 0" and c: "counted m p L 2" "\<not> p_cbr st"
    and h: "header_of (bytes m p L) = Some (2, True, rest m st, 0)" and n: "length (p_size st) = n" "2 \<le> n"
  shows "steps (parse_two_vbr m st) n (malformed m p L sd) (switched m p L sd n)"
proof (cases rule: parse_size_cases [OF parse_ok_rest(1) [OF ok(1)]])
  case 1
  have "malformed m p L sd" by (rule frames_of_short [OF h]) (simp add: 1(2))
  then show ?thesis using 1 n by (simp add: parse_two_vbr_def arr_set_def Let_def)
next
  case (2 b s)
  let ?st = "st\<lparr>p_count := 2, p_size := (p_size st)[0 := s], p_len := p_len st - b, p_data := p_data st + nat b\<rparr>"
  have b: "1 \<le> b" using 2 size_bytes_range by simp
  have ok': "parse_ok m p L ?st" using ok b by (auto simp: parse_ok_def)
  have sz: "sizes_of (Suc 0) (rest m st) = Some ([s], rest m ?st)" using 2(5) by simp
  have t: "take (Suc 0) ((p_size st)[0 := s]) = [s]" using n by (cases "p_size st") auto
  show ?thesis
  proof (cases "s > p_len st - b")
    case True
    have "malformed m p L sd" using sz True parse_ok_rest(2) [OF ok'] 2(2,4) by (intro frames_of_short [OF h]) auto
    then show ?thesis using 2(1) True n by (simp add: parse_two_vbr_def arr_set_def Let_def)
  next
    case False
    then have "parse_two_vbr m st = Some (Inr (?st\<lparr>p_last := p_len st - b - s\<rparr>))"
      using 2(1,2) n by (simp add: parse_two_vbr_def arr_set_def Let_def)
    moreover have "switched m p L sd n (?st\<lparr>p_last := p_len st - b - s\<rparr>)"
      using False ok ok' 2(2,4) c h sz t n by (simp add: switched_def Let_def parse_ok_def)
    ultimately show ?thesis by simp
  qed
qed

lemma framing_ok:
  assumes ok: "parse_ok m p L st" "0 \<le> p_len st" and c: "counted m p L (p_count st)"
    and h: "header_of (bytes m p L) = Some (nat (p_count st), ch AND 0x80 \<noteq> 0, rest m st, nat (p_pad st))"
    and n: "length (p_size st) = n" "nat (p_count st) \<le> n"
  shows "steps (parse_framing m sd ch st) n (malformed m p L sd) (switched m p L sd n)"
proof -
  let ?c = "p_count st" and ?k = "nat (p_count st - 1)"
  have k: "?k < n" "nat ?c - 1 = ?k" "1 \<le> nat ?c" "int (nat ?c) = ?c" using n c by linarith+
  consider (vbr) "ch AND 0x80 \<noteq> 0" | (cbr) "ch AND 0x80 = 0" "\<not> sd" | (later) "ch AND 0x80 = 0" sd by blast
  then show ?thesis
  proof cases
    case vbr
    then have h': "header_of (bytes m p L) = Some (nat ?c, True, rest m st, nat (p_pad st))" using h by simp
    let ?s = "st\<lparr>p_cbr := False, p_last := p_len st\<rparr>"
    have sizes: "steps (parse_sizes m 0 ?k ?s) (length (p_size ?s)) (sizes_bad m ?k ?s) (sizes_done m p L 0 ?k ?s)"
      using ok k n by (intro parse_sizes_ok) (auto simp: parse_ok_def)
    have bad: "malformed m p L sd" if "sizes_bad m ?k ?s"
      by (rule frames_of_short [OF h']) (use that k(2) in \<open>simp add: sizes_bad_def\<close>)
    have "steps (and_then (parse_sizes m 0 ?k ?s) (\<lambda>st. if p_last st < 0 then invalid st else Some (Inr st)))
      (length (p_size ?s)) (malformed m p L sd) (switched m p L sd n)"
    proof (rule steps_and_then [OF sizes _ bad])
      fix st'
      assume "sizes_done m p L 0 ?k ?s st'"
      then have d: "parse_ok m p L st'" "p_count st' = ?c" "\<not> p_cbr st'" "p_pad st' = p_pad st" "length (p_size st') = n"
        "sizes_of ?k (rest m st) = Some (take ?k (p_size st'), rest m st')" "p_last st' + sum_list (take ?k (p_size st')) = p_len st'" "0 \<le> p_len st'"
        using n ok(2) by (simp_all add: sizes_done_def)
      let ?ls = "take ?k (p_size st')"
      have r: "length (rest m st') = nat (p_len st')" "0 \<le> sum_list ?ls"
        using parse_ok_rest(2) [OF d(1)] sizes_of_range [OF d(6)] sum_frames by auto
      show "steps (if p_last st' < 0 then invalid st' else Some (Inr st')) (length (p_size ?s)) (malformed m p L sd) (switched m p L sd n)"
      proof (cases "p_last st' < 0")
        case True
        then have "int (length (rest m st')) < sum_list ?ls" using r d(7,8) by linarith
        then have "malformed m p L sd" using d(6) k(2) by (intro frames_of_short [OF h']) simp
        then show ?thesis using True d n by simp
      next
        case False
        then show ?thesis using d c h vbr n r by (simp add: switched_def Let_def)
      qed
    qed
    then show ?thesis using vbr n by (simp add: parse_framing_def Let_def)
  next
    case cbr
    let ?l = "p_len st div ?c"
    have h': "header_of (bytes m p L) = Some (nat ?c, False, rest m st, nat (p_pad st))" using h cbr by simp
    have f: "fill_sizes 0 ?k (to_int16 ?l) (p_size st) = Some (take 0 (p_size st) @ replicate ?k (to_int16 ?l) @ drop (0 + ?k) (p_size st))"
      using k n by (intro fill_sizes_ok) simp
    let ?s = "st\<lparr>p_cbr := True, p_last := ?l, p_size := replicate ?k (to_int16 ?l) @ drop ?k (p_size st)\<rparr>"
    have "malformed m p L sd" if "?l * ?c \<noteq> p_len st"
      using frames_of_cbr [OF h' k(3), of sd ?l "rest m st"] parse_ok_rest(2) [OF ok(1)] ok(2) cbr(2) that k(4) by (simp add: mult.commute)
    moreover have "switched m p L sd n ?s" if "?l * ?c = p_len st"
      using ok c h' n k cbr(2) that by (simp add: switched_def Let_def parse_ok_def)
    ultimately show ?thesis using cbr f n by (simp add: parse_framing_def Let_def)
  next
    case later
    then show ?thesis using ok c h n by (simp add: parse_framing_def switched_def Let_def parse_ok_def)
  qed
qed

text \<open>The second byte of a packet of code 3, and the padding it announces.\<close>

abbreviation padding_for :: "byte \<Rightarrow> byte list \<Rightarrow> (nat \<times> byte list) option" where
  "padding_for ch bs \<equiv> (if ch AND 0x40 \<noteq> 0 then padding_of bs else Some (0, bs))"

lemma header_of_many:
  assumes "t AND 3 = 3"
  shows "header_of (t # ch # bs) = (if uint (ch AND 0x3F) = 0 \<or> toc_units t * uint (ch AND 0x3F) > 48 then None else do {
    (pad, bs) \<leftarrow> padding_for ch bs;
    if pad > length bs then None else Some (nat (uint (ch AND 0x3F)), ch AND 0x80 \<noteq> 0, take (length bs - pad) bs, pad) })"
proof -
  have c: "int (unat (ch AND 0x3F)) = uint (ch AND 0x3F)" by simp
  then have "unat (ch AND 0x3F) = nat (uint (ch AND 0x3F))" "unat (ch AND 0x3F) = 0 \<longleftrightarrow> uint (ch AND 0x3F) = 0" by linarith+
  moreover have "header_of (t # ch # bs) = (if unat (ch AND 0x3F) = 0 \<or> toc_units t * int (unat (ch AND 0x3F)) > 48 then None else do {
    (pad, bs) \<leftarrow> padding_for ch bs;
    if pad > length bs then None else Some (unat (ch AND 0x3F), ch AND 0x80 \<noteq> 0, take (length bs - pad) bs, pad) })"
    using assms by (simp add: header_of_def Let_def)
  ultimately show ?thesis using c by (simp only:)
qed

definition padded :: "byte list \<Rightarrow> nat \<Rightarrow> int \<Rightarrow> byte \<Rightarrow> parse_state \<Rightarrow> parse_state \<Rightarrow> bool" where
  "padded m p L ch st st' \<longleftrightarrow> parse_ok m p L st' \<and> p_count st' = p_count st \<and> length (p_size st') = length (p_size st) \<and>
     0 \<le> p_len st' + p_pad st' \<and> (\<exists>k. padding_for ch (rest_pad m st) = Some (k, rest_pad m st') \<and> p_pad st' = int k)"

lemma padding_ok:
  assumes "parse_ok m p L st" "p_pad st = 0" "0 \<le> p_len st"
  shows "steps (if ch AND 0x40 \<noteq> 0 then skip_padding m st else Some (Inr st)) (length (p_size st))
    (ch AND 0x40 \<noteq> 0 \<and> pad_bad m st) (padded m p L ch st)"
proof (cases "ch AND 0x40 = 0")
  case False
  have "steps (skip_padding m st) (length (p_size st)) (ch AND 0x40 \<noteq> 0 \<and> pad_bad m st) (padded m p L ch st)"
    by (rule steps_mono [OF skip_padding_ok [OF assms(1)]]) (use False assms(2) in \<open>auto simp: padded_def pad_done_def\<close>)
  then show ?thesis using False by simp
qed (use assms in \<open>simp add: padded_def\<close>)

lemma after_padding:
  assumes pd: "padded m p L ch st st'" and c: "counted m p L (p_count st)" "nat (p_count st) \<le> length (p_size st)"
    and h: "header_of (bytes m p L) = do { (pad, bs) \<leftarrow> padding_for ch (rest_pad m st);
      if pad > length bs then None else Some (nat (p_count st), ch AND 0x80 \<noteq> 0, take (length bs - pad) bs, pad) }"
  shows "steps (if p_len st' < 0 then invalid st' else parse_framing m sd ch st') (length (p_size st)) (malformed m p L sd)
    (switched m p L sd (length (p_size st)))"
proof -
  from pd obtain k where k: "padding_for ch (rest_pad m st) = Some (k, rest_pad m st')" "p_pad st' = int k"
    and s': "parse_ok m p L st'" "p_count st' = p_count st" "length (p_size st') = length (p_size st)" "0 \<le> p_len st' + p_pad st'"
    unfolding padded_def by blast
  have h: "header_of (bytes m p L) = (if k > length (rest_pad m st') then None
      else Some (nat (p_count st), ch AND 0x80 \<noteq> 0, take (length (rest_pad m st') - k) (rest_pad m st'), k))"
    unfolding h k(1) by simp
  have len: "length (rest_pad m st') = nat (p_len st' + p_pad st')" using parse_ok_rest(4) [OF s'(1)] .
  show ?thesis
  proof (cases "p_len st' < 0")
    case True
    then have "k > length (rest_pad m st')" using len k(2) s'(4) by linarith
    then have "header_of (bytes m p L) = None" using h by simp
    then show ?thesis using True s' by (simp add: frames_of_def)
  next
    case False
    then have "length (rest_pad m st') - k = nat (p_len st')" using len k(2) by linarith
    then have "take (length (rest_pad m st') - k) (rest_pad m st') = rest m st'" using take_bytes k(2) by simp
    moreover have "\<not> k > length (rest_pad m st')" using len k(2) False by linarith
    ultimately have "header_of (bytes m p L) = Some (nat (p_count st'), ch AND 0x80 \<noteq> 0, rest m st', nat (p_pad st'))"
      using h k(2) s'(2) by simp
    then show ?thesis using framing_ok [of m p L st' ch "length (p_size st)" sd] s' c False by simp
  qed
qed

lemma many_ok:
  assumes ok: "parse_ok m p L st" and st: "p_data st = p + 1" "p_len st = L - 1" "p_pad st = 0" "1 \<le> L" "m ! p AND 3 = 3"
    and F: "F = toc_units (m ! p) * 120" and n: "length (p_size st) = n" "room m p L n"
  shows "steps (parse_many m sd F st) n (malformed m p L sd) (switched m p L sd n)"
proof -
  have b1: "bytes m p L = m ! p # rest m st" using ok bytes_Cons [OF st(4), of p m] st by (simp add: parse_ok_def)
  show ?thesis
  proof (cases "p_len st < 1")
    case True
    then have "header_of (bytes m p L) = None" using b1 st(5) by (simp add: header_of_def)
    then show ?thesis using True n by (simp add: parse_many_def frames_of_def)
  next
    case False
    let ?ch = "m ! p_data st"
    let ?c = "uint (?ch AND 0x3F)" and ?u = "toc_units (m ! p)"
    let ?st = "st\<lparr>p_data := p_data st + 1, p_count := ?c, p_len := p_len st - 1\<rparr>"
    have pk: "peek m (p_data st) = Some ?ch" using ok False by (auto simp: peek_def parse_ok_def)
    have b2: "rest m st = ?ch # rest_pad m ?st" using bytes_Cons [of "p_len st" "p_data st" m] parse_ok_rest(1) [OF ok] False st(3) by simp
    note hd = header_of_many [OF st(5), of ?ch "rest_pad m ?st", folded b2, folded b1]
    show ?thesis
    proof (cases "?c \<le> 0 \<or> F * ?c > 5760")
      case True
      then have "?c = 0 \<or> ?u * ?c > 48" using byte_range(1) [of "?ch AND 0x3F"] by (auto simp: F)
      then have "header_of (bytes m p L) = None" unfolding hd by simp
      then show ?thesis using True False pk n by (auto simp: parse_many_def Let_def frames_of_def)
    next
      case c: False
      have "1 \<le> ?c" using c by linarith
      moreover have "?u * ?c \<le> 48" using c by (simp add: F)
      moreover have "opus_packet_get_nb_frames m p L = Some ?c"
        using False pk ok st by (auto simp: opus_packet_get_nb_frames_def peek_def parse_ok_def Let_def)
      ultimately have ct: "counted m p L ?c" by simp
      then have cn: "nat ?c \<le> n" using n(2) by (simp add: room_def)
      have hd': "header_of (bytes m p L) = do { (pad, bs) \<leftarrow> padding_for ?ch (rest_pad m ?st);
          if pad > length bs then None else Some (nat ?c, ?ch AND 0x80 \<noteq> 0, take (length bs - pad) bs, pad) }"
        using hd ct by simp
      have ok1: "parse_ok m p L ?st" "p_pad ?st = 0" "0 \<le> p_len ?st" using ok st(3) False by (auto simp: parse_ok_def)
      have pc: "p_count ?st = ?c" "p_size ?st = p_size st" by simp_all
      have bad: "malformed m p L sd" if "?ch AND 0x40 \<noteq> 0 \<and> pad_bad m ?st"
        using that hd' st(3) by (fastforce simp: frames_of_def pad_bad_def split: bind_splits)
      have "steps (and_then (if ?ch AND 0x40 \<noteq> 0 then skip_padding m ?st else Some (Inr ?st))
          (\<lambda>st. if p_len st < 0 then invalid st else parse_framing m sd ?ch st)) (length (p_size ?st))
          (malformed m p L sd) (switched m p L sd (length (p_size ?st)))"
        by (rule steps_and_then [OF padding_ok [OF ok1] _ bad], rule after_padding, assumption)
          (simp_all only: pc ct cn hd' n(1) simp_thms)
      moreover have "parse_many m sd F st = and_then (if ?ch AND 0x40 \<noteq> 0 then skip_padding m ?st else Some (Inr ?st))
          (\<lambda>st. if p_len st < 0 then invalid st else parse_framing m sd ?ch st)"
        using False pk c by (simp add: parse_many_def Let_def)
      ultimately show ?thesis by (simp only: pc n(1))
    qed
  qed
qed

lemma place_frames_ok:
  assumes "i + n \<le> length a" "list_all frame_size (take n (drop i a))" "\<forall>fs. frames = Some fs \<longrightarrow> i + n \<le> length fs"
  shows "place_frames i n q a frames = Some (q + nat (sum_list (take n (drop i a))),
    map_option (\<lambda>fs. take i fs @ starts (take n (drop i a)) q @ drop (i + n) fs) frames)"
  using assms
proof (induction n arbitrary: i q frames)
  case 0
  then show ?case by (cases frames) auto
next
  case (Suc n)
  have i: "i < length a" using Suc.prems(1) by simp
  then have d: "take (Suc n) (drop i a) = a ! i # take n (drop (Suc i) a)" by (simp add: Cons_nth_drop_Suc [symmetric])
  let ?g = "map_option (\<lambda>fs. fs[i := q]) frames"
  have ih: "place_frames (Suc i) n (q + nat (a ! i)) a ?g = Some (q + nat (a ! i) + nat (sum_list (take n (drop (Suc i) a))),
    map_option (\<lambda>fs. take (Suc i) fs @ starts (take n (drop (Suc i) a)) (q + nat (a ! i)) @ drop (Suc i + n) fs) ?g)"
    using Suc.prems d by (intro Suc.IH) auto
  have nn: "0 \<le> a ! i" "0 \<le> sum_list (take n (drop (Suc i) a))" using Suc.prems(2) d by (auto simp: list_all_iff intro!: sum_list_nonneg)
  have f: "(case frames of None \<Rightarrow> Some None | Some fs \<Rightarrow> map_option Some (arr_set fs i q)) = Some ?g"
    using Suc.prems(3) by (cases frames) (auto simp: arr_set_def)
  have t: "take (Suc i) (fs[i := q]) = take i fs @ [q]" if "frames = Some fs" for fs
    using Suc.prems(3) that by (simp add: take_Suc_conv_app_nth)
  have e: "map_option (\<lambda>fs. take (Suc i) fs @ starts (take n (drop (Suc i) a)) (q + nat (a ! i)) @ drop (Suc i + n) fs) ?g =
    map_option (\<lambda>fs. take i fs @ starts (take (Suc n) (drop i a)) q @ drop (i + Suc n) fs) frames"
    unfolding d using t by (cases frames) simp_all
  show ?case using ih i nn unfolding e by (simp add: f arr_get_def d nat_add_distrib)
qed

text \<open>The frames of a parsed packet, and the format's.\<close>

definition packet_frames :: "byte list \<Rightarrow> nat \<Rightarrow> packet \<Rightarrow> byte list list" where
  "packet_frames m p pk = (let ls = take (nat (pk_count pk)) (pk_size pk) in contents m (starts ls (p + nat (pk_payload pk))) ls)"

definition reads_format :: "byte list \<Rightarrow> nat \<Rightarrow> int \<Rightarrow> bool \<Rightarrow> packet \<Rightarrow> bool" where
  "reads_format m p len sd pk \<longleftrightarrow> frames_of sd (bytes m p len) = Some (packet_frames m p pk, pk_end pk) \<and>
     frame_start sd (bytes m p len) = Some (pk_payload pk)"

lemma place_ok:
  assumes sz: "sized m p len sd (length a) st" and fr: "\<forall>fs. frames = Some fs \<longrightarrow> room m p len (length fs)" and room: "room m p len (length a)"
  shows "\<exists>pk. do { (data, frames) \<leftarrow> place_frames 0 (nat (p_count st)) (p_data st) (p_size st) frames;
       Some (Inr \<lparr>pk_count = p_count st, pk_toc = m ! p, pk_frames = frames, pk_size = p_size st,
         pk_payload = int (p_data st - p), pk_end = p_pad st + int (data - p)\<rparr>) } = (Some (Inr pk) :: ((int \<times> int list) + packet) option) \<and>
     packet_ok m p len sd frames a pk \<and> reads_format m p len sd pk"
proof -
  let ?c = "p_count st" and ?ls = "take (nat (p_count st)) (p_size st)"
  let ?pk = "\<lparr>pk_count = ?c, pk_toc = m ! p, pk_frames = map_option (\<lambda>fs. starts ?ls (p_data st) @ drop (nat ?c) fs) frames,
     pk_size = p_size st, pk_payload = int (p_data st - p), pk_end = p_pad st + int (p_data st + nat (sum_list ?ls) - p)\<rparr>"
  have s: "parse_ok m p len st" "counted m p len ?c" "length (p_size st) = length a"
    "list_all frame_size ?ls" "sum_list ?ls \<le> p_len st" "\<not> sd \<longrightarrow> sum_list ?ls = p_len st"
    "frames_of sd (bytes m p len) = Some (split_at ?ls (rest m st), len - p_len st + sum_list ?ls)"
    "frame_start sd (bytes m p len) = Some (len - p_pad st - p_len st)"
    using sz by (simp_all add: sized_def Let_def)
  have cn: "nat ?c \<le> length (p_size st)" "\<forall>fs. frames = Some fs \<longrightarrow> nat ?c \<le> length fs" using room fr s(2,3) by (auto simp: room_def)
  have pl: "place_frames 0 (nat ?c) (p_data st) (p_size st) frames = Some (p_data st + nat (sum_list ?ls),
    map_option (\<lambda>fs. starts ?ls (p_data st) @ drop (nat ?c) fs) frames)"
    using place_frames_ok [of 0 "nat ?c" "p_size st" frames "p_data st"] cn s(4) by simp
  have nn: "0 \<le> sum_list ?ls" using s(4) by (rule sum_frames)
  have d: "p + nat (int (p_data st) - int p) = p_data st" using s(1) unfolding parse_ok_def by arith
  have "packet_ok m p len sd frames a ?pk" using s nn d by (auto simp: packet_ok_def Let_def parse_ok_def)
  moreover have "split_at ?ls (rest m st) = contents m (starts ?ls (p_data st)) ?ls" using s(4,5) by (rule split_at_contents)
  then have "reads_format m p len sd ?pk" using s nn d by (simp add: reads_format_def packet_frames_def Let_def parse_ok_def)
  ultimately show ?thesis by (simp add: pl)
qed

lemma switch_ok:
  assumes m: "int p + len \<le> int (length m)" "1 \<le> len" and room: "room m p len (length a)"
    and st: "st = \<lparr>p_count = 0, p_cbr = False, p_data = p + 1, p_len = len - 1, p_last = len - 1, p_pad = 0, p_size = a\<rparr>"
  shows "steps (if m ! p AND 3 = 0 then Some (Inr (st\<lparr>p_count := 1\<rparr>))
           else if m ! p AND 3 = 1 then parse_two_cbr sd st
           else if m ! p AND 3 = 2 then parse_two_vbr m st
           else parse_many m sd (toc_units (m ! p) * 120) st) (length a) (malformed m p len sd) (switched m p len sd (length a))"
proof -
  let ?u = "toc_units (m ! p)"
  have ok: "parse_ok m p len st" using m by (simp add: parse_ok_def st)
  have b: "bytes m p len = m ! p # rest m st" using bytes_Cons [OF m(2,1)] by (simp add: st)
  have u: "?u * 2 \<le> 48" "?u \<le> 48" using toc_units_range [of "m ! p"] by simp_all
  have toc: "peek m p = Some (m ! p)" using m by (auto simp: peek_def)
  have nb: "m ! p AND 3 = 0 \<Longrightarrow> opus_packet_get_nb_frames m p len = Some 1"
    "m ! p AND 3 = 1 \<or> m ! p AND 3 = 2 \<Longrightarrow> opus_packet_get_nb_frames m p len = Some 2"
    using m(2) toc by (auto simp: opus_packet_get_nb_frames_def Let_def)
  have two: "m ! p AND 3 = 1 \<or> m ! p AND 3 = 2 \<Longrightarrow> 2 \<le> length a" using nb(2) room u by (auto simp: room_def)
  have "unat (m ! p AND 3) < 4" by (rule and3_less)
  then have "unat (m ! p AND 3) \<in> {unat (0 :: byte), unat (1 :: byte), unat (2 :: byte), unat (3 :: byte)}" by auto
  then have "m ! p AND 3 \<in> {0, 1, 2, 3}" by (simp only: insert_iff empty_iff word_unat_eq_iff [symmetric])
  then consider "m ! p AND 3 = 0" | "m ! p AND 3 = 1" | "m ! p AND 3 = 2" | "m ! p AND 3 = 3" by blast
  then show ?thesis
  proof cases
    case 1
    then show ?thesis using nb(1) ok u m b by (simp add: switched_def Let_def parse_ok_def header_of_def st)
  next
    case 2
    then have "header_of (bytes m p len) = Some (2, False, rest m st, 0)" by (simp add: b header_of_def)
    then show ?thesis using two_cbr_ok [OF ok, of "length a" sd] 2 nb(2) u two m by (simp add: st)
  next
    case 3
    then have "header_of (bytes m p len) = Some (2, True, rest m st, 0)" by (simp add: b header_of_def)
    then show ?thesis using two_vbr_ok [OF ok, of "length a" sd] 3 nb(2) u two m by (simp add: st)
  next
    case 4
    then show ?thesis using many_ok [OF ok, of "?u * 120" "length a" sd] room m(2) by (simp add: st)
  qed
qed

lemma parse_contract:
  assumes m: "int p + len \<le> int (length m)" and room: "room m p len (length a)" "\<forall>fs. frames = Some fs \<longrightarrow> room m p len (length fs)"
  shows "steps (opus_packet_parse_impl m p len sd frames a) (length a) (malformed m p len sd)
    (\<lambda>pk. packet_ok m p len sd frames a pk \<and> reads_format m p len sd pk)"
proof (cases "len < 1")
  case True
  then show ?thesis by (auto simp: opus_packet_parse_impl_def frames_of_def header_of_def)
next
  case False
  let ?st = "\<lparr>p_count = 0, p_cbr = False, p_data = p + 1, p_len = len - 1, p_last = len - 1, p_pad = 0, p_size = a\<rparr>"
  let ?place = "\<lambda>st. do { (data, frames) \<leftarrow> place_frames 0 (nat (p_count st)) (p_data st) (p_size st) frames;
          Some (Inr \<lparr>pk_count = p_count st, pk_toc = m ! p, pk_frames = frames, pk_size = p_size st,
            pk_payload = int (p_data st - p), pk_end = p_pad st + int (data - p)\<rparr>) }"
  have p: "p < length m" using m False by linarith
  have fs: "opus_packet_get_samples_per_frame m p 48000 = Some (toc_units (m ! p) * 120)" using samples_units [OF p, of 120] by simp
  have toc: "peek m p = Some (m ! p)" using p by (simp add: peek_def)
  have "1 \<le> len" using False by simp
  note sw = switch_ok [OF m this room(1) refl, of sd]
  have last: "steps (parse_last m sd st) (length a) (malformed m p len sd) (sized m p len sd (length a))"
    if "switched m p len sd (length a) st" for st
    using last_plain last_sized that room(1) by (cases sd) simp_all
  have place: "steps (?place st) (length a) (malformed m p len sd) (\<lambda>pk. packet_ok m p len sd frames a pk \<and> reads_format m p len sd pk)"
    if "sized m p len sd (length a) st" for st
    using place_ok [OF that room(2,1)] by (elim exE conjE) (simp only: steps_simps simp_thms)
  have eq: "opus_packet_parse_impl m p len sd frames a = and_then
      (if m ! p AND 3 = 0 then Some (Inr (?st\<lparr>p_count := 1\<rparr>))
           else if m ! p AND 3 = 1 then parse_two_cbr sd ?st
           else if m ! p AND 3 = 2 then parse_two_vbr m ?st
           else parse_many m sd (toc_units (m ! p) * 120) ?st) (\<lambda>st. and_then (parse_last m sd st) ?place)"
    using False fs toc by (simp add: opus_packet_parse_impl_def Let_def)
  show ?thesis unfolding eq
    by (rule steps_and_then [OF sw], rule steps_and_then [OF last], assumption, rule place)
qed

subsection \<open>The parser\<close>

text \<open>
  C26: parsing a packet is safe. For any bytes, of any length, every read lies in the packet and every write in the caller's
  arrays of 48 entries (the result is not \<open>None\<close>); errors are negative. An accepted packet has 1 to 48 frames of at most
  1275 bytes that last at most 120 ms together and lie one after the other, the first behind the header and the
  last before the end reported; the end is within the packet, and is the packet's end unless it is self-delimited.
\<close>

theorem parse_safe:
  assumes "int p + len \<le> int (length m)" "48 \<le> length a" "\<forall>fs. frames = Some fs \<longrightarrow> 48 \<le> length fs"
  shows "case opus_packet_parse_impl m p len sd frames a of None \<Rightarrow> False
    | Some (Inl (e, a')) \<Rightarrow> e < 0 \<and> length a' = length a
    | Some (Inr pk) \<Rightarrow> packet_ok m p len sd frames a pk"
  using parse_contract [OF assms(1) room_48 [OF assms(2)], of frames sd] assms(3)
  by (auto simp: steps_def room_48 split: option.splits sum.splits)

lemma parse_safe_witness:
  "case opus_packet_parse_impl [0x0B, 0x82, 2, 9, 9, 7] 0 6 False None (replicate 48 0) of None \<Rightarrow> False
    | Some (Inl (e, a')) \<Rightarrow> e < 0 \<and> length a' = length (replicate 48 (0::int))
    | Some (Inr pk) \<Rightarrow> packet_ok [0x0B, 0x82, 2, 9, 9, 7] 0 6 False None (replicate 48 0) pk"
  by (rule parse_safe) simp_all

text \<open>
  C22: the parser, which walks pointers over the packet and fills arrays, accepts exactly the packets of the format and
  finds exactly their frames: it agrees with the reading of the format on lists of bytes, on malformed packets too.
\<close>

theorem parse_is_format:
  assumes "int p + len \<le> int (length m)" "48 \<le> length a" "\<forall>fs. frames = Some fs \<longrightarrow> 48 \<le> length fs"
  shows "opus_packet_parse_impl m p len sd frames a \<noteq> None \<and> frames_of sd (bytes m p len) =
     (case opus_packet_parse_impl m p len sd frames a of Some (Inr pk) \<Rightarrow> Some (packet_frames m p pk, pk_end pk) | _ \<Rightarrow> None)"
  using parse_contract [OF assms(1) room_48 [OF assms(2)], of frames sd] assms(3)
  by (auto simp: steps_def room_48 reads_format_def split: option.splits sum.splits)

lemma parse_is_format_witness:
  "frames_of False [0x0B, 0x82, 2, 9, 9, 7] = Some ([[9, 9], [7]], 6) \<and>
   opus_packet_parse_impl [0x0B, 0x82, 2, 9, 9, 7] 0 6 False None (replicate 48 0) \<noteq> None \<and>
   frames_of False (bytes [0x0B, 0x82, 2, 9, 9, 7] 0 6) =
     (case opus_packet_parse_impl [0x0B, 0x82, 2, 9, 9, 7] 0 6 False None (replicate 48 0) of Some (Inr pk) \<Rightarrow> Some (packet_frames [0x0B, 0x82, 2, 9, 9, 7] 0 pk, pk_end pk) | _ \<Rightarrow> None)"
  using parse_is_format [of 0 6 "[0x0B, 0x82, 2, 9, 9, 7]" "replicate 48 0" None False]
  by (intro conjI) (simp_all add: frames_of_def header_of_def lengths_of_def toc_units_def Let_def)

end
