(* ===== verification/Repacket.thy ===== *)
theory Repacket
  imports Opusparse
begin

section \<open>Building opus packets\<close>

text \<open>
  What the repacketizer writes is a packet of the format with the frames it holds, also when source and
  destination overlap as in \<open>opus_packet_pad\<close> and \<open>opus_packet_unpad\<close>.
\<close>

subsection \<open>Writing a run of bytes\<close>

definition put :: "nat \<Rightarrow> 'a list \<Rightarrow> 'a list \<Rightarrow> 'a list" where
  "put p xs m = take p m @ xs @ drop (p + length xs) m"

lemma length_put [simp]: "p + length xs \<le> length m \<Longrightarrow> length (put p xs m) = length m"
  by (simp add: put_def)

lemma put_Nil [simp]: "put p [] m = m"
  by (simp add: put_def)

lemma put_put: "p + length xs + length ys \<le> length m \<Longrightarrow> put (p + length xs) ys (put p xs m) = put p (xs @ ys) m"
  by (simp add: put_def ac_simps)

lemma put_over: "length xs \<le> length ys \<Longrightarrow> p + length ys \<le> length m \<Longrightarrow> put p ys (put p xs m) = put p ys m"
  by (simp add: put_def ac_simps)

lemma drop_put: "p + length xs \<le> q \<Longrightarrow> q \<le> length m \<Longrightarrow> drop q (put p xs m) = drop q m"
  by (simp add: put_def)

lemma poke_put: "p < length m \<Longrightarrow> poke m p b = Some (put p [b] m)"
  by (simp add: poke_def put_def upd_conv_take_nth_drop)

lemma nth_put: "p + length xs \<le> length m \<Longrightarrow> i < length xs \<Longrightarrow> put p xs m ! (p + i) = xs ! i"
  by (simp add: put_def nth_append)

lemma bytes_put: "p + length xs \<le> length m \<Longrightarrow> bytes (put p xs m) p (int (length xs)) = xs"
  by (simp add: bytes_def put_def)

subsection \<open>Headers\<close>

definition size_enc :: "int \<Rightarrow> byte list" where
  "size_enc l = (if l < 252 then [word_of_int l]
     else [word_of_int (252 + l mod 4), word_of_int ((l - (252 + l mod 4)) div 4)])"

lemma length_size_enc [simp]: "int (length (size_enc l)) = size_bytes l"
  by (simp add: size_enc_def size_bytes_def)

lemma uint_byte: "0 \<le> x \<Longrightarrow> x < 256 \<Longrightarrow> uint (word_of_int x :: byte) = x"
  by (simp add: uint_word_of_int_eq take_bit_int_eq_self)

lemma encode_size_put:
  assumes "frame_size l" "p + length (size_enc l) \<le> length m"
  shows "encode_size l m p = Some (length (size_enc l), put p (size_enc l) m)"
proof (cases "l < 252")
  case True
  then show ?thesis using assms by (simp add: encode_size_def size_enc_def poke_put)
next
  case False
  have a: "l AND 3 = l mod 4" using take_bit_eq_mod [of 2 l] by (simp add: take_bit_eq_mask mask_eq_exp_minus_1)
  have u: "uint (word_of_int (252 + l mod 4) :: byte) = 252 + l mod 4" using pos_mod_bound [of 4 l] pos_mod_sign [of 4 l] by (intro uint_byte) linarith+
  have n: "put p [word_of_int (252 + l mod 4)] m ! p = word_of_int (252 + l mod 4)"
    using nth_put [of p "[word_of_int (252 + l mod 4)]" m 0] False assms(2) by (simp add: size_enc_def)
  have p: "p + 1 < length (put p [word_of_int (252 + l mod 4)] m)" using False assms(2) by (simp add: size_enc_def)
  have "encode_size l m p = map_option (Pair 2) (poke (put p [word_of_int (252 + l mod 4)] m) (p + 1) (word_of_int ((l - (252 + l mod 4)) div 4)))"
    using False assms(2) n u by (simp add: encode_size_def a poke_put peek_def size_enc_def drop_bit_eq_div map_conv_bind_option comp_def)
  then show ?thesis using False p put_put [of p "[word_of_int (252 + l mod 4)]" _ m] assms(2)
    by (simp add: poke_put size_enc_def)
qed

lemma size_of_enc:
  assumes "frame_size l"
  shows "size_of (size_enc l @ bs) = Some (l, bs)"
proof (cases "l < 252")
  case True
  then have "uint (word_of_int l :: byte) = l" using assms by (intro uint_byte) auto
  then show ?thesis using True by (simp add: size_enc_def word_less_def)
next
  case False
  let ?b = "252 + l mod 4" and ?c = "(l - (252 + l mod 4)) div 4"
  have b: "uint (word_of_int ?b :: byte) = ?b" using pos_mod_bound [of 4 l] pos_mod_sign [of 4 l] by (intro uint_byte) linarith+
  have "0 \<le> ?c" "?c < 256" using assms False by presburger+
  then have c: "uint (word_of_int ?c :: byte) = ?c" by (rule uint_byte)
  have "4 * ?c + ?b = l" by presburger
  moreover have "\<not> l mod 4 < 0" by simp
  ultimately show ?thesis using False b c by (simp add: size_enc_def word_less_def)
qed

lemma put_sizes_put:
  "list_all frame_size ls \<Longrightarrow> p + length (concat (map size_enc ls)) \<le> length m \<Longrightarrow>
     put_sizes ls m p = Some (p + length (concat (map size_enc ls)), put p (concat (map size_enc ls)) m)"
proof (induction ls arbitrary: m p)
  case (Cons l ls)
  then show ?case by (simp add: encode_size_put put_put add.assoc)
qed simp

lemma put_run_put: "p + k \<le> length m \<Longrightarrow> put_run k b m p = Some (p + k, put p (replicate k b) m)"
proof (induction k arbitrary: m p)
  case (Suc k)
  then show ?case using put_put [of p "[b]" "replicate k b" m] by (simp add: poke_put)
qed simp

lemma sizes_of_enc: "list_all frame_size ls \<Longrightarrow> sizes_of (length ls) (concat (map size_enc ls) @ bs) = Some (ls, bs)"
  by (induction ls) (simp_all add: size_of_enc)

definition padding_enc :: "int \<Rightarrow> byte list" where
  "padding_enc A = (if A \<le> 0 then [] else replicate (nat ((A - 1) div 255)) 255 @ [word_of_int ((A - 1) mod 255)])"

text \<open>Of \<open>A\<close> bytes of padding, those after the frames.\<close>

definition padding_tail :: "int \<Rightarrow> nat" where
  "padding_tail A = (if A \<le> 0 then 0 else nat (A - 1 - (A - 1) div 255))"

definition vbr :: "int list \<Rightarrow> bool" where
  "vbr ls = list_ex (\<lambda>l. l \<noteq> ls ! 0) (tl ls)"

definition count_byte :: "int \<Rightarrow> bool \<Rightarrow> bool \<Rightarrow> byte" where
  "count_byte n v a = (if a then word_of_int (if v then n OR 0x80 else n) OR 0x40 else word_of_int (if v then n OR 0x80 else n))"

definition many_header :: "byte \<Rightarrow> int list \<Rightarrow> int \<Rightarrow> byte list" where
  "many_header t ls A = (t AND 0xFC OR 3) # count_byte (int (length ls)) (vbr ls) (A > 0) # padding_enc A @
     (if vbr ls then concat (map size_enc (butlast ls)) else [])"

definition short_header :: "byte \<Rightarrow> int list \<Rightarrow> byte list" where
  "short_header t ls = (if length ls = 1 then [t AND 0xFC]
     else if ls ! 1 = ls ! 0 then [t AND 0xFC OR 1] else (t AND 0xFC OR 2) # size_enc (ls ! 0))"

definition sd_enc :: "bool \<Rightarrow> int list \<Rightarrow> byte list" where
  "sd_enc sd ls = (if sd then size_enc (last ls) else [])"

text \<open>The sizes of the packet with the one and the other header, without padding.\<close>

definition short_total :: "bool \<Rightarrow> int list \<Rightarrow> int" where
  "short_total sd ls = (if length ls = 2 \<and> ls ! 1 \<noteq> ls ! 0 then 1 + size_bytes (ls ! 0) else 1) + sd_bytes sd ls + sum_list ls"

definition many_total :: "bool \<Rightarrow> int list \<Rightarrow> int" where
  "many_total sd ls = 2 + (if vbr ls then sum_list (map size_bytes (butlast ls)) else 0) + sd_bytes sd ls + sum_list ls"

lemma length_encs: "int (length (concat (map size_enc ls))) = sum_list (map size_bytes ls)"
  by (induction ls) simp_all

lemma length_sd_enc [simp]: "int (length (sd_enc sd ls)) = sd_bytes sd ls"
  by (simp add: sd_enc_def sd_bytes_def)

lemma length_padding: "0 \<le> A \<Longrightarrow> int (length (padding_enc A)) + int (padding_tail A) = A"
proof (cases "A = 0")
  case False
  assume "0 \<le> A"
  then have "0 \<le> A - 1" using False by simp
  then have q: "0 \<le> (A - 1) div 255" by (simp add: pos_imp_zdiv_nonneg_iff)
  moreover have "0 \<le> A - 1 - (A - 1) div 255"
    using mult_div_mod_eq [of 255 "A - 1"] pos_mod_sign [of 255 "A - 1"] q by linarith
  ultimately show ?thesis using False \<open>0 \<le> A\<close> by (simp add: padding_enc_def padding_tail_def)
qed (simp add: padding_enc_def padding_tail_def)

lemma length_many_header: "0 \<le> A \<Longrightarrow> int (length (many_header t ls A)) + int (padding_tail A) + sd_bytes sd ls + sum_list ls = many_total sd ls + A"
  using length_padding [of A] length_encs [of "butlast ls"] by (simp add: many_header_def many_total_def)

lemma length_short_header: "length ls = 1 \<or> length ls = 2 \<Longrightarrow> int (length (short_header t ls)) + sd_bytes sd ls + sum_list ls = short_total sd ls"
  by (auto simp: short_header_def short_total_def)

lemma not_vbr: "\<not> vbr ls \<Longrightarrow> ls \<noteq> [] \<Longrightarrow> ls = replicate (length ls) (ls ! 0)"
  by (cases ls) (auto simp: vbr_def list_ex_iff intro!: replicate_eqI)

lemma sd_bytes_pos: "0 \<le> sd_bytes sd ls"
  by (simp add: sd_bytes_def size_bytes_def)

lemma out_short_put:
  assumes ls: "list_all frame_size ls" "ls \<noteq> []" and m: "int p + maxlen \<le> int (length m)"
  shows "out_short t ls maxlen sd m p =
    (if length ls > 2 then Some (Inr (sd_bytes sd ls, p, m))
     else if short_total sd ls > maxlen then Some (Inl OPUS_BUFFER_TOO_SMALL)
     else Some (Inr (short_total sd ls, p + length (short_header t ls), put p (short_header t ls) m)))"
proof -
  consider (one) a where "ls = [a]" | (two) a b where "ls = [a, b]" | (many) "length ls > 2"
    using ls(2) by (cases ls; cases "tl ls"; cases "tl (tl ls)") auto
  then show ?thesis
  proof cases
    case one
    then show ?thesis using m ls sd_bytes_pos [of sd ls] by (auto simp: out_short_def short_total_def short_header_def Let_def poke_put)
  next
    case two
    show ?thesis
    proof (cases "a = b")
      case True
      then show ?thesis using two m ls sd_bytes_pos [of sd ls] by (auto simp: out_short_def short_total_def short_header_def Let_def poke_put)
    next
      case False
      have fit: "p + 1 + length (size_enc a) \<le> length m" if "short_total sd ls \<le> maxlen"
      proof -
        have "1 + int (length (size_enc a)) \<le> maxlen" using that two False ls sd_bytes_pos [of sd ls] by (simp add: short_total_def)
        then show ?thesis using m by linarith
      qed
      have "encode_size a (put p [t AND 0xFC OR 2] m) (p + 1) = Some (length (size_enc a), put (p + 1) (size_enc a) (put p [t AND 0xFC OR 2] m))"
        if "short_total sd ls \<le> maxlen" using fit [OF that] ls two by (intro encode_size_put) auto
      moreover have "put (p + 1) (size_enc a) (put p [t AND 0xFC OR 2] m) = put p ((t AND 0xFC OR 2) # size_enc a) m"
        if "short_total sd ls \<le> maxlen" using put_put [of p "[t AND 0xFC OR 2]" "size_enc a" m] fit [OF that] by simp
      moreover have "sd_bytes sd ls + a + b + 2 + (if 252 \<le> a then 1 else 0) = short_total sd ls"
        using two False by (simp add: short_total_def size_bytes_def)
      ultimately show ?thesis using two False fit by (auto simp: out_short_def short_header_def Let_def poke_put)
    qed
  next
    case many
    then show ?thesis by (auto simp: out_short_def Let_def)
  qed
qed

lemma out_many_put:
  assumes ls: "list_all frame_size ls" "ls \<noteq> []" and m: "int p + maxlen \<le> int (length m)"
  shows "out_many t ls maxlen sd pad m p =
    (if many_total sd ls > maxlen then Some (Inl OPUS_BUFFER_TOO_SMALL)
     else let A = (if pad then maxlen - many_total sd ls else 0)
       in Some (Inr (many_total sd ls + A, p + length (many_header t ls A), put p (many_header t ls A) m)))"
proof -
  let ?v = "vbr ls"
  have vt: "?v \<Longrightarrow> sum_list (map (\<lambda>l. size_bytes l + l) (butlast ls)) + last ls = sum_list (map size_bytes (butlast ls)) + sum_list ls"
    using ls(2) by (cases ls rule: rev_cases) (simp_all add: sum_list_addf)
  have ct: "\<not> ?v \<Longrightarrow> int (length ls) * ls ! 0 = sum_list ls"
    using not_vbr [OF _ ls(2)] by (metis sum_list_replicate of_int_of_nat_eq of_nat_eq_iff)
  have tot: "sd_bytes sd ls + (if ?v then 2 + sum_list (map (\<lambda>l. size_bytes l + l) (butlast ls)) + last ls else int (length ls) * ls ! 0 + 2) = many_total sd ls"
    using vt ct by (simp add: many_total_def)
  show ?thesis
  proof (cases "many_total sd ls > maxlen")
    case True
    then show ?thesis using tot by (simp add: out_many_def Let_def flip: vbr_def)
  next
    case False
    let ?A = "if pad then maxlen - many_total sd ls else 0"
    let ?c = "word_of_int (if ?v then int (length ls) OR 0x80 else int (length ls)) :: byte"
    let ?h = "[t AND 0xFC OR 3, count_byte (int (length ls)) ?v (?A > 0)]" and ?p = "padding_enc ?A"
      and ?s = "if ?v then concat (map size_enc (butlast ls)) else []"
    have A: "0 \<le> ?A" using False by simp
    have hdr: "many_header t ls ?A = ?h @ ?p @ ?s" by (simp add: many_header_def)
    have "int (length (many_header t ls ?A)) \<le> maxlen"
      using length_many_header [OF A, of t ls sd] sd_bytes_pos [of sd ls] sum_frames [OF ls(1)] False by (auto split: if_splits)
    then have fit: "p + length (many_header t ls ?A) \<le> length m" using m by linarith
    have two: "put (p + 1) [?c] (put p [t AND 0xFC OR 3] m) = put p [t AND 0xFC OR 3, ?c] m"
      using put_put [of p "[t AND 0xFC OR 3]" "[?c]" m] fit hdr by simp
    have pads: "(if ?A \<noteq> 0 then out_padding ?A (put p [t AND 0xFC OR 3, ?c] m) p (p + 2) else Some (p + 2, put p [t AND 0xFC OR 3, ?c] m))
       = Some (p + 2 + length ?p, put p (?h @ ?p) m)"
    proof (cases "?A = 0")
      case True
      then show ?thesis by (simp add: count_byte_def padding_enc_def)
    next
      case pos: False
      let ?k = "nat ((?A - 1) div 255)"
      have p': "?p = replicate ?k 255 @ [word_of_int ((?A - 1) mod 255)]" "?A > 0" using pos A by (simp_all add: padding_enc_def)
      have r: "?A - 255 * ((?A - 1) div 255) - 1 = (?A - 1) mod 255" using minus_mult_div_eq_mod [of "?A - 1" 255] by linarith
      have n: "put p [t AND 0xFC OR 3, ?c] m ! (p + 1) = ?c" using nth_put [of p "[t AND 0xFC OR 3, ?c]" m 1] fit hdr by simp
      have over: "put (p + 1) [?c OR 0x40] (put p [t AND 0xFC OR 3, ?c] m) = put p ?h m" 
        using p'(2) fit hdr by (simp add: put_def count_byte_def)
      have run: "put_run ?k 255 (put p ?h m) (p + 2) = Some (p + 2 + ?k, put p (?h @ replicate ?k 255) m)"
        using put_run_put [of "p + 2" ?k "put p ?h m" 255] put_put [of p ?h "replicate ?k 255" m] fit hdr p'(1) by simp
      have last: "poke (put p (?h @ replicate ?k 255) m) (p + 2 + ?k) (word_of_int ((?A - 1) mod 255)) = Some (put p (?h @ ?p) m)"
        using poke_put [of "p + 2 + ?k" "put p (?h @ replicate ?k 255) m" "word_of_int ((?A - 1) mod 255)"]
          put_put [of p "?h @ replicate ?k 255" "[word_of_int ((?A - 1) mod 255)]" m] fit hdr p'(1) by simp
      have "out_padding ?A (put p [t AND 0xFC OR 3, ?c] m) p (p + 2) = Some (p + 2 + length ?p, put p (?h @ ?p) m)"
        unfolding out_padding_def peek_def Let_def r using fit hdr n over run last p'(1) by (simp add: poke_put)
      then show ?thesis using pos by simp
    qed
    have sizes: "(if ?v then put_sizes (butlast ls) (put p (?h @ ?p) m) (p + 2 + length ?p) else Some (p + 2 + length ?p, put p (?h @ ?p) m))
       = Some (p + length (many_header t ls ?A), put p (many_header t ls ?A) m)"
    proof (cases ?v)
      case True
      have "list_all frame_size (butlast ls)" using ls(1) by (auto simp: list_all_iff dest: in_set_butlastD)
      then show ?thesis using True fit hdr put_put [of p "?h @ ?p" ?s m] by (simp add: put_sizes_put)
    qed (use hdr in simp)
    have p1: "poke m p (t AND 0xFC OR 3) = Some (put p [t AND 0xFC OR 3] m)" using fit hdr by (simp add: poke_put)
    have "poke (put p [t AND 0xFC OR 3] m) (p + 1) ?c = Some (put (p + 1) [?c] (put p [t AND 0xFC OR 3] m))"
      using fit hdr by (intro poke_put) simp
    then have p2: "poke (put p [t AND 0xFC OR 3] m) (p + 1) ?c = Some (put p [t AND 0xFC OR 3, ?c] m)" by (simp only: two)
    show ?thesis unfolding out_many_def Let_def vbr_def [symmetric] tot
      using False by (simp only: p1 p2 pads sizes Option.bind.bind_lunit prod.case if_False)
  qed
qed

subsection \<open>Reading back what was built\<close>

lemma count_bits_all:
  "list_all (\<lambda>n. list_all (\<lambda>v. list_all (\<lambda>a. let c = count_byte n v a in
     uint (c AND 0x3F) = n \<and> (c AND 0x40 \<noteq> 0) = a \<and> (c AND 0x80 \<noteq> 0) = v) [False, True]) [False, True]) (map int [1..<49])"
  by (simp add: count_byte_def Let_def upt_rec)

lemma count_bits:
  assumes "1 \<le> n" "n \<le> 48"
  shows "uint (count_byte n v a AND 0x3F) = n" "count_byte n v a AND 0x40 \<noteq> 0 \<longleftrightarrow> a" "count_byte n v a AND 0x80 \<noteq> 0 \<longleftrightarrow> v"
proof -
  have "n \<in> set (map int [1..<49])" using assms by (auto intro!: image_eqI [of _ _ "nat n"])
  moreover have "v \<in> set [False, True]" "a \<in> set [False, True]" by auto
  ultimately show "uint (count_byte n v a AND 0x3F) = n" "count_byte n v a AND 0x40 \<noteq> 0 \<longleftrightarrow> a" "count_byte n v a AND 0x80 \<noteq> 0 \<longleftrightarrow> v"
    using count_bits_all unfolding list_all_iff Let_def by blast+
qed

lemma toc_code:
  fixes t :: byte
  shows "(t AND 0xFC) AND 3 = 0" "(t AND 0xFC OR 1) AND 3 = 1" "(t AND 0xFC OR 2) AND 3 = 2" "(t AND 0xFC OR 3) AND 3 = 3"
  by (simp_all add: bit.conj_disj_distrib2 and.assoc)

lemma toc_config:
  fixes t :: byte
  shows "(t AND 0xFC OR 1) AND 0xFC = t AND 0xFC" "(t AND 0xFC OR 2) AND 0xFC = t AND 0xFC" "(t AND 0xFC OR 3) AND 0xFC = t AND 0xFC"
  by (simp_all add: bit.conj_disj_distrib2 and.assoc)

lemma toc_units_code: "toc_units (t AND 0xFC OR 3) = toc_units t"
  using toc_units_config [of "t AND 0xFC OR 3"] toc_units_config [of t] by (simp only: toc_config)

lemma padding_of_enc:
  assumes "0 < A"
  shows "padding_of (padding_enc A @ bs) = Some (padding_tail A, bs)"
proof -
  have run: "padding_of (replicate k 255 @ w # bs) = Some (254 * k + unat w, bs)" if "w \<noteq> 255" for k and w :: byte
    using that by (induction k) simp_all
  let ?q = "(A - 1) div 255" and ?w = "word_of_int ((A - 1) mod 255) :: byte"
  have q: "0 \<le> ?q" using assms by (simp add: pos_imp_zdiv_nonneg_iff)
  have r: "0 \<le> (A - 1) mod 255" "(A - 1) mod 255 < 255" by simp_all
  have w: "uint ?w = (A - 1) mod 255" using r by (intro uint_byte) linarith+
  then have "?w \<noteq> 255" using r(2) by auto
  moreover have "int (254 * nat ?q + unat ?w) = A - 1 - ?q" using w q mult_div_mod_eq [of 255 "A - 1"] by simp
  then have "254 * nat ?q + unat ?w = nat (A - 1 - ?q)" by linarith
  then have "254 * nat ?q + unat ?w = padding_tail A" using assms by (simp add: padding_tail_def)
  ultimately show ?thesis using assms run [of ?w "nat ?q"] by (simp add: padding_enc_def)
qed

abbreviation lengths :: "byte list list \<Rightarrow> int list" where
  "lengths fs \<equiv> map (\<lambda>f. int (length f)) fs"

lemma split_concat: "split_at (lengths fs) (concat fs @ bs) = fs"
  by (induction fs) simp_all

lemma length_concat_int: "int (length (concat fs)) = sum_list (lengths fs)"
  by (induction fs) simp_all

lemma frames_of_body:
  assumes h: "header_of bs = Some (length fs, v, (if v then concat (map size_enc (butlast (lengths fs))) else []) @ sd_enc sd (lengths fs) @ concat fs, pad)"
    and same: "\<not> v \<Longrightarrow> lengths fs = replicate (length fs) (lengths fs ! 0)" and fs: "fs \<noteq> []" "list_all frame_size (lengths fs)"
  shows "frames_of sd bs = Some (fs, int (length bs))"
proof -
  let ?ls = "lengths fs" and ?r = "sd_enc sd (lengths fs) @ concat fs"
  have ls: "?ls = butlast ?ls @ [last ?ls]" using fs(1) by simp
  have fl: "list_all frame_size (butlast ?ls)" "frame_size (last ?ls)"
    using fs(2) unfolding arg_cong [OF ls, of "list_all frame_size"] by (simp_all only: list_all_append list.pred_inject)
  have sum: "sum_list (butlast ?ls) + last ?ls = int (length (concat fs))"
    unfolding length_concat_int using arg_cong [OF ls, of sum_list] by simp
  have sp: "split_at ?ls (concat fs) = fs" using split_concat [of fs "[]"] by simp
  show ?thesis
  proof (cases v)
    case True
    have "length (butlast ?ls) = length fs - 1" by simp
    then have "sizes_of (length fs - 1) (concat (map size_enc (butlast ?ls)) @ ?r) = Some (butlast ?ls, ?r)"
      using sizes_of_enc [OF fl(1)] by metis
    moreover have "if sd then size_of ?r = Some (last ?ls, concat fs) else last ?ls = int (length ?r) - sum_list (butlast ?ls) \<and> concat fs = ?r"
      using size_of_enc [OF fl(2)] sum by (simp add: sd_enc_def)
    ultimately show ?thesis using frames_of_vbr [of bs "length fs" _ pad "butlast ?ls" ?r sd "last ?ls" "concat fs"] h True fl(2) sum sp
      by (simp flip: ls)
  next
    case False
    let ?l = "?ls ! 0"
    have n: "1 \<le> length fs" using fs(1) by (cases fs) auto
    have rl: "?ls = replicate (length fs) ?l" using same [OF False] .
    have last: "last ?ls = ?l" using fs(1) by (subst rl) simp
    have sum': "int (length fs) * ?l = int (length (concat fs))" unfolding length_concat_int by (subst (2) rl) (simp add: sum_list_replicate)
    then have "?l = int (length (concat fs)) div int (length fs)" using n by (metis nonzero_mult_div_cancel_left of_nat_0_eq_iff not_one_le_zero)
    then have l: "if sd then size_of ?r = Some (?l, concat fs) else ?l = int (length ?r) div int (length fs) \<and> concat fs = ?r"
      using size_of_enc [OF fl(2)] last by (simp add: sd_enc_def)
    have h': "header_of bs = Some (length fs, False, ?r, pad)" using h False by simp
    have sp': "split_at (replicate (length fs) ?l) (concat fs) = fs" using sp unfolding rl [symmetric] .
    have "frame_size ?l" using fl(2) last by simp
    then show ?thesis unfolding frames_of_cbr [OF h' n l] sp' sum' by simp
  qed
qed

lemma frames_of_short_header:
  assumes fs: "length fs = 1 \<or> length fs = 2" "list_all frame_size (lengths fs)"
  shows "frames_of sd (short_header t (lengths fs) @ sd_enc sd (lengths fs) @ concat fs) =
    Some (fs, int (length (short_header t (lengths fs) @ sd_enc sd (lengths fs) @ concat fs)))"
proof -
  consider (one) a where "fs = [a]" | (two) a b where "fs = [a, b]"
    using fs(1) by (cases fs; cases "tl fs") auto
  then show ?thesis
  proof cases
    case one
    show ?thesis by (rule frames_of_body [where v = True and pad = 0]) (use one fs in \<open>simp_all add: short_header_def header_of_def toc_code\<close>)
  next
    case two
    show ?thesis
      by (rule frames_of_body [where v = "length a \<noteq> length b" and pad = 0])
        (use two fs in \<open>auto simp: short_header_def header_of_def toc_code numeral_2_eq_2\<close>)
  qed
qed

lemma frames_of_many_header:
  assumes A: "0 \<le> A" and fs: "fs \<noteq> []" "list_all frame_size (lengths fs)" "toc_units t * int (length fs) \<le> 48"
  shows "frames_of sd (many_header t (lengths fs) A @ sd_enc sd (lengths fs) @ concat fs @ replicate (padding_tail A) 0) =
    Some (fs, int (length (many_header t (lengths fs) A @ sd_enc sd (lengths fs) @ concat fs @ replicate (padding_tail A) 0)))"
proof -
  let ?v = "vbr (lengths fs)"
  let ?c = "count_byte (int (length fs)) ?v (A > 0)"
  let ?body = "(if ?v then concat (map size_enc (butlast (lengths fs))) else []) @ sd_enc sd (lengths fs) @ concat fs"
  have n: "1 \<le> int (length fs)" using fs(1) by (cases fs) auto
  then have n48: "int (length fs) \<le> 48" using units_count [OF fs(3)] by simp
  note bits = count_bits [OF n n48, of ?v "A > 0"]
  have pd: "padding_for ?c (padding_enc A @ ?body @ replicate (padding_tail A) 0) = Some (padding_tail A, ?body @ replicate (padding_tail A) 0)"
    using bits(2) A padding_of_enc [of A] by (cases "A = 0") (simp_all add: padding_enc_def padding_tail_def)
  have "header_of ((t AND 0xFC OR 3) # ?c # padding_enc A @ ?body @ replicate (padding_tail A) 0) = Some (length fs, ?v, ?body, padding_tail A)"
    unfolding header_of_many [OF toc_code(4)] pd unfolding bits toc_units_code using fs(1,3) n by simp
  then have h: "header_of (many_header t (lengths fs) A @ sd_enc sd (lengths fs) @ concat fs @ replicate (padding_tail A) 0) =
      Some (length fs, ?v, ?body, padding_tail A)" by (simp add: many_header_def)
  show ?thesis by (rule frames_of_body [OF h _ fs(1,2)]) (use not_vbr [of "lengths fs"] fs(1) in simp)
qed

subsection \<open>Moving the frames\<close>

definition frames_at :: "omem \<Rightarrow> optr list \<Rightarrow> int list \<Rightarrow> byte list list" where
  "frames_at mem fs ls = map2 (\<lambda>f l. take (nat l) (drop (snd f) (mem (fst f)))) fs ls"

definition in_memory :: "omem \<Rightarrow> optr list \<Rightarrow> int list \<Rightarrow> bool" where
  "in_memory mem fs ls \<longleftrightarrow> list_all2 (\<lambda>f l. frame_size l \<and> snd f + nat l \<le> length (mem (fst f))) fs ls"

text \<open>A frame that lies in the object written to lies at or behind the place it moves to.\<close>

fun behind :: "nat \<Rightarrow> nat \<Rightarrow> optr list \<Rightarrow> int list \<Rightarrow> bool" where
  "behind d q (f # fs) (l # ls) = ((fst f = d \<longrightarrow> q \<le> snd f) \<and> behind d (q + nat l) fs ls)"
| "behind d q fs ls = True"

lemma behind_all: "behind d q fs ls \<Longrightarrow> length fs = length ls \<Longrightarrow> \<forall>f \<in> set fs. fst f = d \<longrightarrow> q \<le> snd f"
  by (induction d q fs ls rule: behind.induct) auto

lemma lengths_frames_at: "in_memory mem fs ls \<Longrightarrow> lengths (frames_at mem fs ls) = ls"
  unfolding in_memory_def by (induction rule: list_all2_induct) (auto simp: frames_at_def)

lemma in_memory_sizes: "in_memory mem fs ls \<Longrightarrow> list_all frame_size ls \<and> length fs = length ls"
  unfolding in_memory_def by (induction rule: list_all2_induct) auto

lemma frames_at_put:
  assumes "in_memory mem fs ls" "\<forall>f \<in> set fs. fst f = d \<longrightarrow> p + length xs \<le> snd f" "p + length xs \<le> length (mem d)"
  shows "frames_at (mem(d := put p xs (mem d))) fs ls = frames_at mem fs ls" "in_memory (mem(d := put p xs (mem d))) fs ls"
proof -
  have "frames_at (mem(d := put p xs (mem d))) fs ls = frames_at mem fs ls \<and> in_memory (mem(d := put p xs (mem d))) fs ls"
    using assms unfolding in_memory_def
    by (induction rule: list_all2_induct) (auto simp: frames_at_def drop_put)
  then show "frames_at (mem(d := put p xs (mem d))) fs ls = frames_at mem fs ls" "in_memory (mem(d := put p xs (mem d))) fs ls" by simp_all
qed

lemma move_frames_put:
  "in_memory mem fs ls \<Longrightarrow> behind d q fs ls \<Longrightarrow> int q + sum_list ls \<le> int (length (mem d)) \<Longrightarrow>
     move_frames fs ls mem d q = Some (q + length (concat (frames_at mem fs ls)), mem(d := put q (concat (frames_at mem fs ls)) (mem d)))"
proof (induction fs ls arbitrary: mem q rule: list_induct2')
  case (4 f fs l ls)
  let ?x = "take (nat l) (drop (snd f) (mem (fst f)))"
  let ?m = "mem(d := put q ?x (mem d))"
  have l: "frame_size l" "snd f + nat l \<le> length (mem (fst f))" and rest: "in_memory mem fs ls" using 4(2) by (simp_all add: in_memory_def)
  have lx: "length ?x = nat l" using l(2) by simp
  have sz: "0 \<le> sum_list ls" "length fs = length ls" using in_memory_sizes [OF rest] sum_frames by auto
  have fit: "q + nat l + nat (sum_list ls) \<le> length (mem d)" using 4(4) l(1) sz(1) by simp linarith
  have "mem_move mem (d, q) f (nat l) = Some ?m" using fit l(2) lx by (cases f) (simp add: mem_move_def put_def)
  moreover have all: "\<forall>g \<in> set fs. fst g = d \<longrightarrow> q + length ?x \<le> snd g" using 4(3) behind_all [of d "q + nat l" fs ls] lx sz(2) by simp
  have fa: "frames_at ?m fs ls = frames_at mem fs ls" "in_memory ?m fs ls"
    by (rule frames_at_put [OF rest all]; use fit lx in simp)+
  have "move_frames fs ls ?m d (q + nat l) = Some (q + nat l + length (concat (frames_at mem fs ls)),
      ?m(d := put (q + nat l) (concat (frames_at mem fs ls)) (?m d)))"
  proof -
    have "length (?m d) = length (mem d)" using fit lx by simp
    then have "int (q + nat l) + sum_list ls \<le> int (length (?m d))" using fit sz(1) by linarith
    moreover have "behind d (q + nat l) fs ls" using 4(3) by simp
    ultimately show ?thesis using 4(1) [OF fa(2)] unfolding fa(1) by blast
  qed
  moreover have "int (length (concat (frames_at mem fs ls))) = sum_list ls"
    unfolding length_concat_int lengths_frames_at [OF rest] ..
  then have "put (q + nat l) (concat (frames_at mem fs ls)) (put q ?x (mem d)) = put q (?x @ concat (frames_at mem fs ls)) (mem d)"
    using put_put [of q ?x "concat (frames_at mem fs ls)" "mem d"] fit lx by simp
  ultimately show ?case using lx by (simp add: frames_at_def fun_eq_iff)
qed (simp_all add: in_memory_def frames_at_def)

subsection \<open>The packet that is written\<close>

definition many_coded :: "bool \<Rightarrow> int list \<Rightarrow> int \<Rightarrow> bool \<Rightarrow> bool" where
  "many_coded sd ls maxlen pad \<longleftrightarrow> length ls > 2 \<or> pad \<and> short_total sd ls < maxlen"

definition padding_of_total :: "bool \<Rightarrow> int list \<Rightarrow> int \<Rightarrow> bool \<Rightarrow> int" where
  "padding_of_total sd ls maxlen pad = (if pad \<and> many_coded sd ls maxlen pad then maxlen - many_total sd ls else 0)"

definition header :: "byte \<Rightarrow> int list \<Rightarrow> int \<Rightarrow> bool \<Rightarrow> bool \<Rightarrow> byte list" where
  "header t ls maxlen sd pad = (if many_coded sd ls maxlen pad then many_header t ls (padding_of_total sd ls maxlen pad)
     else short_header t ls) @ sd_enc sd ls"

definition build :: "byte \<Rightarrow> byte list list \<Rightarrow> int \<Rightarrow> bool \<Rightarrow> bool \<Rightarrow> byte list" where
  "build t fs maxlen sd pad = header t (lengths fs) maxlen sd pad @ concat fs @
     replicate (padding_tail (padding_of_total sd (lengths fs) maxlen pad)) 0"

definition min_total :: "bool \<Rightarrow> int list \<Rightarrow> int" where
  "min_total sd ls = (if length ls > 2 then many_total sd ls else short_total sd ls)"

lemma many_short_total:
  assumes "ls \<noteq> []" "\<not> length ls > 2"
  shows "many_total sd ls = short_total sd ls + 1"
proof -
  consider (one) a where "ls = [a]" | (two) a b where "ls = [a, b]"
    using assms by (cases ls; cases "tl ls"; cases "tl (tl ls)") auto
  then show ?thesis by cases (auto simp: many_total_def short_total_def vbr_def)
qed

lemma short_many_header:
  assumes "ls \<noteq> []" "\<not> length ls > 2"
  shows "length (short_header t ls) \<le> length (many_header t ls A)"
proof -
  consider (one) a where "ls = [a]" | (two) a b where "ls = [a, b]"
    using assms by (cases ls; cases "tl ls"; cases "tl (tl ls)") auto
  then show ?thesis by cases (auto simp: short_header_def many_header_def vbr_def)
qed

lemma padding_of_total_pos: "ls \<noteq> [] \<Longrightarrow> min_total sd ls \<le> maxlen \<Longrightarrow> 0 \<le> padding_of_total sd ls maxlen pad"
  using many_short_total [of ls sd] by (cases "length ls > 2") (auto simp: padding_of_total_def many_coded_def min_total_def)

lemma length_header:
  assumes "ls \<noteq> []" "min_total sd ls \<le> maxlen"
  shows "int (length (header t ls maxlen sd pad)) + sum_list ls + int (padding_tail (padding_of_total sd ls maxlen pad)) =
    (if many_coded sd ls maxlen pad then many_total sd ls + padding_of_total sd ls maxlen pad else short_total sd ls)"
proof (cases "many_coded sd ls maxlen pad")
  case True
  then show ?thesis using length_many_header [OF padding_of_total_pos [OF assms, of pad], where t = t and ls = ls and sd = sd] by (simp add: header_def)
next
  case False
  then have "length ls = 1 \<or> length ls = 2" using assms(1) by (cases ls; cases "tl ls") (auto simp: many_coded_def)
  then show ?thesis using False length_short_header [of ls t sd] by (simp add: header_def padding_of_total_def padding_tail_def)
qed

text \<open>The padded packet has the size asked for, and no packet exceeds the space.\<close>

lemma built_total:
  assumes "ls \<noteq> []" "min_total sd ls \<le> maxlen"
  shows "(if many_coded sd ls maxlen pad then many_total sd ls + padding_of_total sd ls maxlen pad else short_total sd ls) =
    (if pad then maxlen else min_total sd ls)"
  using assms by (auto simp: many_coded_def padding_of_total_def min_total_def)

lemma length_build:
  assumes "fs \<noteq> []" "min_total sd (lengths fs) \<le> maxlen"
  shows "int (length (build t fs maxlen sd pad)) = (if pad then maxlen else min_total sd (lengths fs))"
  using length_header [of "lengths fs" sd maxlen t pad] built_total [of "lengths fs" sd maxlen pad] assms
  by (simp add: build_def length_concat_int)

lemma frames_of_build:
  assumes fs: "fs \<noteq> []" "list_all frame_size (lengths fs)" "toc_units t * int (length fs) \<le> 48"
    and fit: "min_total sd (lengths fs) \<le> maxlen"
  shows "frames_of sd (build t fs maxlen sd pad) = Some (fs, int (length (build t fs maxlen sd pad)))"
proof (cases "many_coded sd (lengths fs) maxlen pad")
  case True
  have "0 \<le> padding_of_total sd (lengths fs) maxlen pad" using fit fs(1) by (intro padding_of_total_pos) simp_all
  then show ?thesis using frames_of_many_header [OF _ fs] True by (simp add: build_def header_def)
next
  case False
  then have "length fs = 1 \<or> length fs = 2" using fs(1) by (cases fs; cases "tl fs") (auto simp: many_coded_def)
  then show ?thesis using frames_of_short_header [OF _ fs(2), of sd t] False
    by (simp add: build_def header_def padding_of_total_def padding_tail_def)
qed

text \<open>The header without the last size, and how the code writes it: where both forms are written, the
  second covers the first.\<close>

definition header1 :: "byte \<Rightarrow> int list \<Rightarrow> int \<Rightarrow> bool \<Rightarrow> bool \<Rightarrow> byte list" where
  "header1 t ls maxlen sd pad = (if many_coded sd ls maxlen pad then many_header t ls (padding_of_total sd ls maxlen pad) else short_header t ls)"

lemma header1_put:
  assumes ls: "list_all frame_size ls" "ls \<noteq> []" and m: "int p + maxlen \<le> int (length m)" and fit: "min_total sd ls \<le> maxlen"
  obtains tot ptr m1 where "out_short t ls maxlen sd m p = Some (Inr (tot, ptr, m1))"
    "(if length ls > 2 \<or> pad \<and> tot < maxlen then out_many t ls maxlen sd pad m1 p else Some (Inr (tot, ptr, m1))) =
      Some (Inr (if pad then maxlen else min_total sd ls, p + length (header1 t ls maxlen sd pad), put p (header1 t ls maxlen sd pad) m))"
proof -
  let ?h = "header1 t ls maxlen sd pad" and ?A = "padding_of_total sd ls maxlen pad"
  have fits: "int p + int (length (header t ls maxlen sd pad)) \<le> int (length m)"
    using length_header [OF ls(2) fit, of t pad] built_total [OF ls(2) fit, of pad] sum_frames [OF ls(1)] m fit by (auto split: if_splits)
  have hl: "length ?h \<le> length (header t ls maxlen sd pad)" by (simp add: header1_def header_def)
  note tot = built_total [OF ls(2) fit, of pad]
  consider (many) "length ls > 2" | (pad) "\<not> length ls > 2" "pad" "short_total sd ls < maxlen" | (short) "\<not> many_coded sd ls maxlen pad"
    by (auto simp: many_coded_def)
  then show ?thesis
  proof cases
    case many
    have "out_many t ls maxlen sd pad m p = Some (Inr (many_total sd ls + ?A, p + length ?h, put p ?h m))"
      using out_many_put [OF ls m, of t sd pad] many fit by (simp add: min_total_def padding_of_total_def many_coded_def header1_def Let_def)
    moreover have "many_total sd ls + ?A = (if pad then maxlen else min_total sd ls)" using tot many by (simp add: many_coded_def)
    ultimately show ?thesis using many by (intro that [OF out_short_put [OF ls m, unfolded if_P [OF many]]]) simp
  next
    case pad
    let ?m = "put p (short_header t ls) m"
    have le: "length (short_header t ls) \<le> length ?h" using short_many_header [OF ls(2) pad(1)] pad by (simp add: header1_def many_coded_def)
    then have m': "int p + maxlen \<le> int (length ?m)" using m fits hl by simp
    have "many_total sd ls \<le> maxlen" using many_short_total [OF ls(2) pad(1), of sd] pad(3) by simp
    then have "out_many t ls maxlen sd pad ?m p = Some (Inr (many_total sd ls + ?A, p + length ?h, put p ?h ?m))"
      using out_many_put [OF ls m', of t sd pad] pad by (simp add: padding_of_total_def many_coded_def header1_def Let_def)
    moreover have "put p ?h ?m = put p ?h m" using le fits hl by (intro put_over) simp_all
    moreover have "many_total sd ls + ?A = (if pad then maxlen else min_total sd ls)" using tot pad by (simp add: many_coded_def)
    ultimately have o2: "out_many t ls maxlen sd pad ?m p = Some (Inr (if pad then maxlen else min_total sd ls, p + length ?h, put p ?h m))" by simp
    have o1: "out_short t ls maxlen sd m p = Some (Inr (short_total sd ls, p + length (short_header t ls), ?m))"
      using pad out_short_put [OF ls m, of t sd] by simp
    have c: "length ls > 2 \<or> pad \<and> short_total sd ls < maxlen" using pad by simp
    show ?thesis by (rule that [OF o1]) (simp only: c if_True o2)
  next
    case short
    then have "short_total sd ls = (if pad then maxlen else min_total sd ls)" "\<not> length ls > 2" "\<not> short_total sd ls > maxlen"
      using tot fit by (auto simp: many_coded_def min_total_def split: if_splits)
    then show ?thesis using short out_short_put [OF ls m, of t sd]
      by (intro that [of "short_total sd ls" "p + length (short_header t ls)" "put p (short_header t ls) m"])
        (auto simp: many_coded_def header1_def)
  qed
qed

lemma header_put:
  assumes ls: "list_all frame_size ls" "ls \<noteq> []" and m: "p + length (header t ls maxlen sd pad) \<le> length m"
  shows "(if sd then put_sizes [last ls] (put p (header1 t ls maxlen sd pad) m) (p + length (header1 t ls maxlen sd pad))
      else Some (p + length (header1 t ls maxlen sd pad), put p (header1 t ls maxlen sd pad) m)) =
    Some (p + length (header t ls maxlen sd pad), put p (header t ls maxlen sd pad) m)"
proof -
  let ?h = "header1 t ls maxlen sd pad"
  have h: "header t ls maxlen sd pad = ?h @ sd_enc sd ls" by (simp add: header_def header1_def)
  have "list_all frame_size [last ls]" using ls last_in_set [of ls] by (auto simp: list_all_iff)
  then have "sd \<Longrightarrow> put_sizes [last ls] (put p ?h m) (p + length ?h) = Some (p + length ?h + length (size_enc (last ls)), put (p + length ?h) (size_enc (last ls)) (put p ?h m))"
    using put_sizes_put [of "[last ls]" "p + length ?h" "put p ?h m"] m unfolding h by (simp add: sd_enc_def)
  then show ?thesis using m unfolding h by (auto simp: sd_enc_def put_put add.assoc)
qed

subsection \<open>Writing packets\<close>

definition same_outside :: "omem \<Rightarrow> omem \<Rightarrow> nat \<Rightarrow> nat \<Rightarrow> int \<Rightarrow> bool" where
  "same_outside mem mem' d p n \<longleftrightarrow> (\<forall>o'. o' \<noteq> d \<longrightarrow> mem' o' = mem o') \<and> length (mem' d) = length (mem d) \<and>
     take p (mem' d) = take p (mem d) \<and> drop (p + nat n) (mem' d) = drop (p + nat n) (mem d)"

lemma out_range_put:
  assumes r: "0 \<le> beg" "beg < fin" "fin \<le> int (rp_nb_frames rp)" "nat fin \<le> length (rp_len rp)" "nat fin \<le> length (rp_frames rp)"
    and ls: "ls = take (nat (fin - beg)) (drop (nat beg) (rp_len rp))" and fs: "fs = take (nat (fin - beg)) (drop (nat beg) (rp_frames rp))"
    and mem: "in_memory mem fs ls" and m: "int p + maxlen \<le> int (length (mem d))"
    and behind: "min_total sd ls \<le> maxlen \<longrightarrow> behind d (p + length (header (rp_toc rp) ls maxlen sd pad)) fs ls"
  shows "opus_repacketizer_out_range_impl mem rp beg fin (d, p) maxlen sd pad =
    (if min_total sd ls > maxlen then Some (OPUS_BUFFER_TOO_SMALL, mem)
     else let B = build (rp_toc rp) (frames_at mem fs ls) maxlen sd pad in Some (int (length B), mem(d := put p B (mem d))))"
proof -
  let ?t = "rp_toc rp" and ?F = "frames_at mem fs ls"
  have ne: "ls \<noteq> []" using r ls by auto
  have sz: "list_all frame_size ls" using in_memory_sizes [OF mem] by simp
  have guard: "\<not> (beg < 0 \<or> beg \<ge> fin \<or> fin > int (rp_nb_frames rp))" "\<not> (nat fin > length (rp_len rp) \<or> nat fin > length (rp_frames rp))"
    using r by simp_all
  show ?thesis
  proof (cases "min_total sd ls > maxlen")
    case True
    have "opus_repacketizer_out_range_impl mem rp beg fin (d, p) maxlen sd pad = Some (OPUS_BUFFER_TOO_SMALL, mem)"
    proof (cases "length ls > 2")
      case many: True
      then have "out_short ?t ls maxlen sd (mem d) p = Some (Inr (sd_bytes sd ls, p, mem d))"
        "out_many ?t ls maxlen sd pad (mem d) p = Some (Inl OPUS_BUFFER_TOO_SMALL)"
        using True out_short_put [OF sz ne m, of ?t sd] out_many_put [OF sz ne m, of ?t sd pad] by (simp_all add: min_total_def)
      then show ?thesis using guard many unfolding opus_repacketizer_out_range_impl_def Let_def prod.case ls [symmetric] by simp
    next
      case False
      then have "out_short ?t ls maxlen sd (mem d) p = Some (Inl OPUS_BUFFER_TOO_SMALL)"
        using True out_short_put [OF sz ne m, of ?t sd] by (simp add: min_total_def)
      then show ?thesis using guard unfolding opus_repacketizer_out_range_impl_def Let_def prod.case ls [symmetric] by simp
    qed
    then show ?thesis using True by simp
  next
    case False
    then have fit: "min_total sd ls \<le> maxlen" by simp
    let ?h = "header ?t ls maxlen sd pad" and ?k = "padding_tail (padding_of_total sd ls maxlen pad)"
    let ?T = "if pad then maxlen else min_total sd ls"
    from header1_put [OF sz ne m fit, of ?t pad] obtain tot ptr m1 where
      out: "out_short ?t ls maxlen sd (mem d) p = Some (Inr (tot, ptr, m1))"
        "(if length ls > 2 \<or> pad \<and> tot < maxlen then out_many ?t ls maxlen sd pad m1 p else Some (Inr (tot, ptr, m1))) =
          Some (Inr (?T, p + length (header1 ?t ls maxlen sd pad), put p (header1 ?t ls maxlen sd pad) (mem d)))" .
    have F: "lengths ?F = ls" "?F \<noteq> []" using lengths_frames_at [OF mem] ne by auto
    then have cF: "int (length (concat ?F)) = sum_list ls" unfolding length_concat_int by simp
    have T: "int (length ?h) + sum_list ls + int ?k = ?T"
      using length_header [OF ne fit, of ?t pad] built_total [OF ne fit, of pad] by simp
    have B: "build ?t ?F maxlen sd pad = ?h @ concat ?F @ replicate ?k 0" "int (length (build ?t ?F maxlen sd pad)) = ?T"
      using F T cF by (simp_all add: build_def)
    have "?T \<le> maxlen" using fit by simp
    then have room: "p + length ?h + length (concat ?F) + ?k \<le> length (mem d)" using T cF m by linarith
    let ?m = "mem(d := put p ?h (mem d))"
    have beh: "behind d (p + length ?h) fs ls" using behind fit by simp
    have lens: "length fs = length ls" using in_memory_sizes [OF mem] by simp
    have fa: "frames_at ?m fs ls = ?F" "in_memory ?m fs ls"
      by (rule frames_at_put [OF mem behind_all [OF beh lens]]; use room in simp)+
    have "move_frames fs ls ?m d (p + length ?h) = Some (p + length ?h + length (concat ?F), ?m(d := put (p + length ?h) (concat ?F) (?m d)))"
      using move_frames_put [OF fa(2) beh] room cF unfolding fa(1) by simp
    moreover have "?m(d := put (p + length ?h) (concat ?F) (?m d)) = mem(d := put p (?h @ concat ?F) (mem d))"
      using room by (simp add: put_put)
    ultimately have mv: "move_frames fs ls ?m d (p + length ?h) = Some (p + length ?h + length (concat ?F), mem(d := put p (?h @ concat ?F) (mem d)))"
      by (simp only:)
    have z: "(if pad then put_run (nat (int p + maxlen - int (p + length ?h + length (concat ?F)))) 0 (put p (?h @ concat ?F) (mem d)) (p + length ?h + length (concat ?F))
        else Some (p + length ?h + length (concat ?F), put p (?h @ concat ?F) (mem d))) =
      Some (p + length ?h + length (concat ?F) + ?k, put p (?h @ concat ?F @ replicate ?k 0) (mem d))"
    proof (cases pad)
      case True
      then have "nat (int p + maxlen - int (p + length ?h + length (concat ?F))) = ?k" using T cF by simp
      moreover have "put_run ?k 0 (put p (?h @ concat ?F) (mem d)) (p + length ?h + length (concat ?F)) =
          Some (p + length ?h + length (concat ?F) + ?k, put p (?h @ concat ?F @ replicate ?k 0) (mem d))"
        using put_run_put [of "p + length ?h + length (concat ?F)" ?k "put p (?h @ concat ?F) (mem d)" 0]
          put_put [of p "?h @ concat ?F" "replicate ?k 0" "mem d"] room by (simp add: add.assoc)
      ultimately show ?thesis using True by simp
    next
      case np: False
      then show ?thesis by (simp add: padding_of_total_def padding_tail_def)
    qed
    have hp: "p + length ?h \<le> length (mem d)" using room by simp
    have "opus_repacketizer_out_range_impl mem rp beg fin (d, p) maxlen sd pad = Some (?T, mem(d := put p (build ?t ?F maxlen sd pad) (mem d)))"
      unfolding opus_repacketizer_out_range_impl_def Let_def prod.case ls [symmetric] fs [symmetric] if_not_P [OF guard(1)] if_not_P [OF guard(2)]
      by (simp only: out Option.bind.bind_lunit sum.case prod.case header_put [OF sz ne hp] mv fun_upd_same z B(1)) simp
    then show ?thesis using False B(2) by (simp add: Let_def)
  qed
qed

end
