(* ===== verification/Repacketizer.thy ===== *)
theory Repacketizer
  imports Repacket
begin

section \<open>The repacketizer\<close>

text \<open>
  What \<open>opus_repacketizer_cat\<close> keeps, \<open>opus_repacketizer_out\<close> gives back, also in place.
\<close>

text \<open>A parsed packet by its frames: \<open>fs\<close>, the first of them at \<open>q\<close>.\<close>

definition parsed :: "byte list \<Rightarrow> nat \<Rightarrow> int \<Rightarrow> bool \<Rightarrow> byte list list \<Rightarrow> int \<Rightarrow> nat \<Rightarrow> bool" where
  "parsed m p len sd fs e q \<longleftrightarrow> frames_of sd (bytes m p len) = Some (fs, e) \<and> frame_start sd (bytes m p len) = Some (int q - int p) \<and>
     opus_packet_get_nb_frames m p len = Some (int (length fs)) \<and> 1 \<le> length fs \<and> toc_units (m ! p) * int (length fs) \<le> 48 \<and>
     list_all frame_size (lengths fs) \<and> contents m (starts (lengths fs) q) (lengths fs) = fs \<and> p < q \<and>
     int q - int p + sum_list (lengths fs) \<le> e \<and> e \<le> len \<and> (\<not> sd \<longrightarrow> e = len) \<and> int p + len \<le> int (length m)"

lemma lengths_contents:
  "list_all frame_size ls \<Longrightarrow> int q + sum_list ls \<le> int (length m) \<Longrightarrow> lengths (contents m (starts ls q) ls) = ls"
proof (induction ls arbitrary: q)
  case (Cons l ls)
  have "int (q + nat l) + sum_list ls \<le> int (length m)" "int q + l \<le> int (length m)" using Cons.prems sum_frames [of ls] by auto
  then show ?case using Cons by (auto simp: contents_def)
qed (simp add: contents_def)

lemma parse_frames:
  assumes m: "int p + len \<le> int (length m)" and room: "room m p len (length a)" "\<forall>fs. frames = Some fs \<longrightarrow> room m p len (length fs)"
  obtains (error) e a' where "opus_packet_parse_impl m p len sd frames a = Some (Inl (e, a'))" "e < 0" "length a' = length a" "malformed m p len sd"
  | (packet) pk fs q where "opus_packet_parse_impl m p len sd frames a = Some (Inr pk)" "parsed m p len sd fs (pk_end pk) q"
      "pk_count pk = int (length fs)" "take (length fs) (pk_size pk) = lengths fs" "length (pk_size pk) = length a"
      "pk_frames pk = map_option (\<lambda>f. starts (lengths fs) q @ drop (length fs) f) frames" "pk_toc pk = m ! p"
proof -
  note c = parse_contract [OF m room, of sd]
  then consider e a' where "opus_packet_parse_impl m p len sd frames a = Some (Inl (e, a'))" "e < 0" "length a' = length a" "malformed m p len sd"
    | pk where "opus_packet_parse_impl m p len sd frames a = Some (Inr pk)" "packet_ok m p len sd frames a pk" "reads_format m p len sd pk"
    by (auto simp: steps_def split: option.splits sum.splits)
  then show ?thesis
  proof cases
    case 1
    then show ?thesis by (rule error)
  next
    case (2 pk)
    let ?ls = "take (nat (pk_count pk)) (pk_size pk)" and ?q = "p + nat (pk_payload pk)"
    have ok: "1 \<le> pk_count pk" "toc_units (m ! p) * pk_count pk \<le> 48" "opus_packet_get_nb_frames m p len = Some (pk_count pk)"
      "length (pk_size pk) = length a" "list_all frame_size ?ls" "1 \<le> pk_payload pk" "pk_payload pk + sum_list ?ls \<le> pk_end pk"
      "pk_end pk \<le> len" "\<not> sd \<longrightarrow> pk_end pk = len" "pk_toc pk = m ! p"
      "pk_frames pk = map_option (\<lambda>fs. starts ?ls ?q @ drop (nat (pk_count pk)) fs) frames"
      using 2(2) by (simp_all add: packet_ok_def Let_def)
    have fl: "lengths (packet_frames m p pk) = ?ls"
      unfolding packet_frames_def Let_def using ok m by (intro lengths_contents) simp_all
    have "nat (pk_count pk) \<le> length (pk_size pk)" using room(1) ok(2-4) by (simp add: room_def)
    then have n: "length (packet_frames m p pk) = nat (pk_count pk)" using arg_cong [OF fl, of length] by simp
    show ?thesis
    proof (rule packet [OF 2(1)])
      show "parsed m p len sd (packet_frames m p pk) (pk_end pk) ?q"
        using 2(3) ok n m fl by (simp add: parsed_def reads_format_def) (simp add: packet_frames_def Let_def)
    qed (use ok n fl in simp_all)
  qed
qed

lemma parse_parsed: "int p + len \<le> int (length m) \<Longrightarrow> frames_of sd (bytes m p len) = Some (fs, e) \<Longrightarrow> \<exists>q. parsed m p len sd fs e q"
  by (rule parse_frames [of p len m "replicate 48 0" None sd]) (auto simp: room_48 parsed_def)

lemma starts_memory:
  "list_all frame_size ls \<Longrightarrow> int q + sum_list ls \<le> int (length (mem ob)) \<Longrightarrow>
     in_memory mem (map (Pair ob) (starts ls q)) ls \<and> frames_at mem (map (Pair ob) (starts ls q)) ls = contents (mem ob) (starts ls q) ls"
proof (induction ls arbitrary: q)
  case (Cons l ls)
  have "int (q + nat l) + sum_list ls \<le> int (length (mem ob))" "int q + l \<le> int (length (mem ob))" using Cons.prems sum_frames [of ls] by auto
  then show ?case using Cons by (auto simp: in_memory_def frames_at_def contents_def)
qed (simp add: in_memory_def frames_at_def contents_def)

text \<open>The invariant: the arrays are those of the structure, and the frames held lie in memory, are of one
  configuration and together not longer than 120 ms.\<close>

definition rp_ok :: "omem \<Rightarrow> repacketizer \<Rightarrow> bool" where
  "rp_ok mem rp \<longleftrightarrow> (let n = rp_nb_frames rp in
     length (rp_frames rp) = 48 \<and> length (rp_len rp) = 48 \<and> n \<le> 48 \<and>
     in_memory mem (take n (rp_frames rp)) (take n (rp_len rp)) \<and>
     (n \<noteq> 0 \<longrightarrow> rp_framesize rp = toc_units (rp_toc rp) * 20 \<and> toc_units (rp_toc rp) * int n \<le> 48))"

definition held :: "omem \<Rightarrow> repacketizer \<Rightarrow> byte list list" where
  "held mem rp = frames_at mem (take (rp_nb_frames rp) (rp_frames rp)) (take (rp_nb_frames rp) (rp_len rp))"

text \<open>The packets that may be appended.\<close>

definition cat_allowed :: "omem \<Rightarrow> repacketizer \<Rightarrow> optr \<Rightarrow> int \<Rightarrow> bool \<Rightarrow> byte list list \<Rightarrow> bool" where
  "cat_allowed mem rp data len sd fs \<longleftrightarrow> (let (ob, p) = data; n = rp_nb_frames rp; b = mem ob ! p in
     (\<exists>e. frames_of sd (bytes (mem ob) p len) = Some (fs, e)) \<and>
     (n = 0 \<or> rp_toc rp AND 0xFC = b AND 0xFC) \<and> toc_units b * int (n + length fs) \<le> 48)"

text \<open>What a successful call leaves in the arrays.\<close>

definition appended :: "repacketizer \<Rightarrow> repacketizer \<Rightarrow> nat \<Rightarrow> nat \<Rightarrow> int list \<Rightarrow> bool" where
  "appended rp rp' ob q ls \<longleftrightarrow> rp_nb_frames rp' = rp_nb_frames rp + length ls \<and>
     take (rp_nb_frames rp') (rp_frames rp') = take (rp_nb_frames rp) (rp_frames rp) @ map (Pair ob) (starts ls q) \<and>
     take (rp_nb_frames rp') (rp_len rp') = take (rp_nb_frames rp) (rp_len rp) @ ls"

lemma take_add_append: "length xs = n \<Longrightarrow> take (n + k) (xs @ ys) = xs @ take k ys"
  by simp

lemma cat_parsed_ok:
  assumes arrays: "length (rp_frames rp) = 48" "length (rp_len rp) = 48" and m: "int p + len \<le> int (length (mem ob))"
    and c: "opus_packet_get_nb_frames (mem ob) p len = Some c" "1 \<le> c" "toc_units (mem ob ! p) * (c + int (rp_nb_frames rp)) \<le> 48"
  obtains (error) ret a' where "cat_parsed mem rp (ob, p) len sd c = Some (ret, rp\<lparr>rp_len := take (rp_nb_frames rp) (rp_len rp) @ a'\<rparr>)" "ret < 0"
      "length a' = 48 - rp_nb_frames rp" "malformed (mem ob) p len sd"
  | (packet) fs e q rp' where "cat_parsed mem rp (ob, p) len sd c = Some (OPUS_OK, rp')" "parsed (mem ob) p len sd fs e q" "c = int (length fs)"
      "appended rp rp' ob q (lengths fs)" "length (rp_frames rp') = 48" "length (rp_len rp') = 48"
      "rp_toc rp' = rp_toc rp" "rp_framesize rp' = rp_framesize rp"
proof -
  let ?n = "rp_nb_frames rp"
  have cn: "c + int ?n \<le> 48" using units_count [OF c(3)] c(2) by simp
  have room: "room (mem ob) p len (48 - ?n)" using c cn by (auto simp: room_def)
  let ?F = "Some (map snd (drop ?n (rp_frames rp)))"
  show ?thesis
  proof (rule parse_frames [OF m, of "drop ?n (rp_len rp)" ?F sd])
    show "room (mem ob) p len (length (drop ?n (rp_len rp)))" "\<forall>fs. ?F = Some fs \<longrightarrow> room (mem ob) p len (length fs)" using room arrays by simp_all
  next
    fix e a'
    assume "opus_packet_parse_impl (mem ob) p len sd ?F (drop ?n (rp_len rp)) = Some (Inl (e, a'))" "e < 0"
      "length a' = length (drop ?n (rp_len rp))" "malformed (mem ob) p len sd"
    then show ?thesis using arrays by (intro error [of e a']) (simp_all add: cat_parsed_def Let_def)
  next
    fix pk fs q
    assume pk: "opus_packet_parse_impl (mem ob) p len sd ?F (drop ?n (rp_len rp)) = Some (Inr pk)" "parsed (mem ob) p len sd fs (pk_end pk) q"
      "pk_count pk = int (length fs)" "take (length fs) (pk_size pk) = lengths fs" "length (pk_size pk) = length (drop ?n (rp_len rp))"
      "pk_frames pk = map_option (\<lambda>f. starts (lengths fs) q @ drop (length fs) f) ?F"
    let ?f = "take ?n (rp_frames rp) @ map (Pair ob) (starts (lengths fs) q) @ drop (?n + length fs) (rp_frames rp)"
      and ?l = "take ?n (rp_len rp) @ pk_size pk"
    have cf: "c = int (length fs)" using pk(2) c(1) by (simp add: parsed_def)
    then have nf: "?n + length fs \<le> 48" using cn by simp
    show ?thesis
    proof (rule packet [OF _ pk(2) cf])
      show "cat_parsed mem rp (ob, p) len sd c = Some (OPUS_OK, rp\<lparr>rp_frames := ?f, rp_len := ?l, rp_nb_frames := ?n + length fs\<rparr>)"
        using pk c(2) cf by (simp add: cat_parsed_def Let_def)
      have "take (?n + length fs) ?f = take ?n (rp_frames rp) @ map (Pair ob) (starts (lengths fs) q)"
        "take (?n + length fs) ?l = take ?n (rp_len rp) @ lengths fs" using arrays nf pk(4) by (subst take_add_append, simp_all)+
      then show "appended rp (rp\<lparr>rp_frames := ?f, rp_len := ?l, rp_nb_frames := ?n + length fs\<rparr>) ob q (lengths fs)"
        by (simp add: appended_def)
    qed (use arrays nf pk(5) in simp_all)
  qed
qed

text \<open>A rejected packet leaves what is held; the table of contents may change while nothing is held.\<close>

definition unchanged :: "repacketizer \<Rightarrow> repacketizer \<Rightarrow> bool" where
  "unchanged rp rp' \<longleftrightarrow> rp_nb_frames rp' = rp_nb_frames rp \<and> rp_frames rp' = rp_frames rp \<and> length (rp_len rp') = length (rp_len rp) \<and>
     take (rp_nb_frames rp) (rp_len rp') = take (rp_nb_frames rp) (rp_len rp) \<and>
     (rp_nb_frames rp \<noteq> 0 \<longrightarrow> rp_toc rp' = rp_toc rp \<and> rp_framesize rp' = rp_framesize rp)"

definition configured :: "repacketizer \<Rightarrow> byte \<Rightarrow> bool" where
  "configured rp b \<longleftrightarrow> rp_framesize rp = toc_units b * 20 \<and> rp_toc rp AND 0xFC = b AND 0xFC"

lemma nb_frames_total: "1 \<le> len \<Longrightarrow> int p + len \<le> int (length m) \<Longrightarrow> \<exists>c. opus_packet_get_nb_frames m p len = Some c"
  by (auto simp: opus_packet_get_nb_frames_def peek_def Let_def)

lemma cat_cases:
  assumes arrays: "length (rp_frames rp) = 48" "length (rp_len rp) = 48" and fs: "rp_nb_frames rp \<noteq> 0 \<longrightarrow> rp_framesize rp = toc_units (rp_toc rp) * 20"
    and m: "int p + len \<le> int (length (mem ob))"
  obtains (reject) ret rp' where "opus_repacketizer_cat_impl mem rp (ob, p) len sd = Some (ret, rp')" "ret < 0"
      "\<forall>fs. \<not> cat_allowed mem rp (ob, p) len sd fs" "unchanged rp rp'"
  | (accept) fs e q rp' where "opus_repacketizer_cat_impl mem rp (ob, p) len sd = Some (OPUS_OK, rp')" "cat_allowed mem rp (ob, p) len sd fs"
      "parsed (mem ob) p len sd fs e q" "appended rp rp' ob q (lengths fs)" "length (rp_frames rp') = 48" "length (rp_len rp') = 48"
      "configured rp' (mem ob ! p)"
proof (cases "len < 1")
  case True
  then show ?thesis by (intro reject [of OPUS_INVALID_PACKET rp])
    (simp_all add: opus_repacketizer_cat_impl_def Let_def cat_allowed_def frames_of_def header_of_def unchanged_def)
next
  case False
  let ?b = "mem ob ! p" and ?n = "rp_nb_frames rp"
  define F where "F = toc_units ?b * 20"
  let ?rp = "if ?n = 0 then rp\<lparr>rp_toc := ?b, rp_framesize := F\<rparr> else rp"
  have p: "p < length (mem ob)" "1 \<le> len" using m False by linarith+
  have pk: "peek (mem ob) p = Some ?b" using p by (simp add: peek_def)
  have s: "opus_packet_get_samples_per_frame (mem ob) p 8000 = Some F" using samples_units [OF p(1), of 20] by (simp add: F_def)
  obtain c where c: "opus_packet_get_nb_frames (mem ob) p len = Some c" using nb_frames_total [OF p(2) m] by blast
  have count: "c = int (length fs)" "1 \<le> length fs" if a: "cat_allowed mem rp (ob, p) len sd fs" for fs
  proof -
    obtain e where "frames_of sd (bytes (mem ob) p len) = Some (fs, e)" using a by (auto simp: cat_allowed_def Let_def)
    from parse_parsed [OF m this] show "c = int (length fs)" "1 \<le> length fs" using c by (auto simp: parsed_def)
  qed
  show ?thesis
  proof (cases "?n \<noteq> 0 \<and> rp_toc rp AND 0xFC \<noteq> ?b AND 0xFC")
    case True
    then have "opus_repacketizer_cat_impl mem rp (ob, p) len sd = Some (OPUS_INVALID_PACKET, rp)"
      using False pk s by (simp add: opus_repacketizer_cat_impl_def Let_def)
    then show ?thesis using True by (intro reject [of OPUS_INVALID_PACKET rp]) (simp_all add: cat_allowed_def unchanged_def)
  next
    case same: False
    have cfg: "configured ?rp ?b" using same fs toc_units_config [of "rp_toc rp"] toc_units_config [of ?b] by (auto simp: configured_def F_def)
    have fF: "rp_framesize ?rp = F" using cfg by (simp add: configured_def F_def)
    have un: "unchanged rp ?rp" by (simp add: unchanged_def)
    have imp: "opus_repacketizer_cat_impl mem rp (ob, p) len sd =
        (if c < 1 \<or> (c + int ?n) * F > 960 then Some (OPUS_INVALID_PACKET, ?rp) else cat_parsed mem ?rp (ob, p) len sd c)"
      using False pk s c fF same by (auto simp: opus_repacketizer_cat_impl_def Let_def)
    show ?thesis
    proof (cases "c < 1 \<or> (c + int ?n) * F > 960")
      case True
      have "\<not> cat_allowed mem rp (ob, p) len sd fs" for fs
      proof
        assume a: "cat_allowed mem rp (ob, p) len sd fs"
        then have "toc_units ?b * (c + int ?n) \<le> 48" using count [OF a] by (simp add: cat_allowed_def Let_def add.commute)
        then have "(c + int ?n) * F \<le> 960" by (simp add: F_def mult.commute mult.left_commute)
        then show False using True count [OF a] by simp
      qed
      then show ?thesis using True imp un by (intro reject [of OPUS_INVALID_PACKET ?rp]) simp_all
    next
      case ok: False
      then have c1: "1 \<le> c" and units0: "toc_units ?b * (c + int (rp_nb_frames ?rp)) \<le> 48" by (auto simp: F_def mult.commute mult.left_commute)
      have rpn: "rp_nb_frames ?rp = ?n" by simp
      note units = units0 [unfolded rpn]
      have arr: "length (rp_frames ?rp) = 48" "length (rp_len ?rp) = 48" using arrays by simp_all
      have imp': "opus_repacketizer_cat_impl mem rp (ob, p) len sd = cat_parsed mem ?rp (ob, p) len sd c" using imp ok by simp
      show ?thesis
      proof (rule cat_parsed_ok [where rp = ?rp and mem = mem and ob = ob and sd = sd, OF arr m c c1 units0])
        fix ret a'
        assume e: "cat_parsed mem ?rp (ob, p) len sd c = Some (ret, ?rp\<lparr>rp_len := take (rp_nb_frames ?rp) (rp_len ?rp) @ a'\<rparr>)" "ret < 0"
          "length a' = 48 - rp_nb_frames ?rp" "malformed (mem ob) p len sd"
        have "\<forall>fs. \<not> cat_allowed mem rp (ob, p) len sd fs" using e(4) by (simp add: cat_allowed_def)
        moreover have "?n \<le> 48" using units_count [OF units] c1 by simp
        then have "unchanged rp (?rp\<lparr>rp_len := take (rp_nb_frames ?rp) (rp_len ?rp) @ a'\<rparr>)" using arrays e(3) by (auto simp: unchanged_def)
        ultimately show ?thesis using e imp' by (intro reject) simp_all
      next
        fix fs e q rp'
        assume a: "cat_parsed mem ?rp (ob, p) len sd c = Some (OPUS_OK, rp')" "parsed (mem ob) p len sd fs e q" "c = int (length fs)"
          "appended ?rp rp' ob q (lengths fs)" "length (rp_frames rp') = 48" "length (rp_len rp') = 48"
          "rp_toc rp' = rp_toc ?rp" "rp_framesize rp' = rp_framesize ?rp"
        have "configured rp' ?b" using cfg a(7,8) by (simp add: configured_def)
        moreover have "appended rp rp' ob q (lengths fs)" using a(4) by (auto simp: appended_def)
        moreover have "cat_allowed mem rp (ob, p) len sd fs"
          using a(2,3) units rpn same by (auto simp: cat_allowed_def parsed_def Let_def add.commute)
        ultimately show ?thesis using a imp' by (intro accept) simp_all
      qed
    qed
  qed
qed

lemma in_memory_append: "in_memory mem fs ls \<Longrightarrow> in_memory mem gs ks \<Longrightarrow> in_memory mem (fs @ gs) (ls @ ks)"
  by (simp add: in_memory_def list_all2_appendI)

lemma frames_at_append: "length fs = length ls \<Longrightarrow> frames_at mem (fs @ gs) (ls @ ks) = frames_at mem fs ls @ frames_at mem gs ks"
  by (simp add: frames_at_def)

lemma parsed_memory:
  assumes "parsed (mem ob) p len sd fs e q"
  shows "in_memory mem (map (Pair ob) (starts (lengths fs) q)) (lengths fs)"
    "frames_at mem (map (Pair ob) (starts (lengths fs) q)) (lengths fs) = fs"
  using assms starts_memory [of "lengths fs" q mem ob] by (auto simp: parsed_def)

lemma cat_accept:
  assumes ok: "rp_ok mem rp" and a: "cat_allowed mem rp (ob, p) len sd fs" "parsed (mem ob) p len sd fs e q" "appended rp rp' ob q (lengths fs)"
    "length (rp_frames rp') = 48" "length (rp_len rp') = 48" "configured rp' (mem ob ! p)"
  shows "rp_ok mem rp'" "held mem rp' = held mem rp @ fs"
proof -
  let ?n = "rp_nb_frames rp" and ?b = "mem ob ! p"
  have n': "rp_nb_frames rp' = ?n + length fs" using a(3) by (simp add: appended_def)
  have ap: "take (rp_nb_frames rp') (rp_frames rp') = take ?n (rp_frames rp) @ map (Pair ob) (starts (lengths fs) q)"
    "take (rp_nb_frames rp') (rp_len rp') = take ?n (rp_len rp) @ lengths fs" using a(3) unfolding appended_def by blast+
  have u: "toc_units (rp_toc rp') = toc_units ?b"
    using a(6) toc_units_config [of "rp_toc rp'"] toc_units_config [of ?b] by (simp add: configured_def)
  have "toc_units ?b * int (?n + length fs) \<le> 48" using a(1) by (simp add: cat_allowed_def Let_def)
  then have "toc_units (rp_toc rp') * int (rp_nb_frames rp') \<le> 48" using u n' by simp
  moreover from this have "rp_nb_frames rp' \<le> 48" using units_count [of "rp_toc rp'" "int (rp_nb_frames rp')"] by (cases "rp_nb_frames rp' = 0") auto
  moreover have "in_memory mem (take (rp_nb_frames rp') (rp_frames rp')) (take (rp_nb_frames rp') (rp_len rp'))"
    unfolding ap using ok parsed_memory(1) [where mem = mem and ob = ob, OF a(2)] by (intro in_memory_append) (simp_all add: rp_ok_def Let_def)
  moreover have "rp_framesize rp' = toc_units (rp_toc rp') * 20" using a(6) u by (simp add: configured_def)
  ultimately show "rp_ok mem rp'" using a(4,5) by (simp add: rp_ok_def Let_def)
  have "length (take ?n (rp_frames rp)) = length (take ?n (rp_len rp))" using ok by (simp add: rp_ok_def Let_def)
  then show "held mem rp' = held mem rp @ fs"
    using parsed_memory(2) [where mem = mem and ob = ob, OF a(2)] unfolding held_def ap by (simp only: frames_at_append)
qed

lemma rp_ok_unchanged: "rp_ok mem rp \<Longrightarrow> unchanged rp rp' \<Longrightarrow> rp_ok mem rp' \<and> held mem rp' = held mem rp"
  by (auto simp: rp_ok_def unchanged_def held_def Let_def)

text \<open>
  C27: appending a packet to the repacketizer keeps its invariant. The packet is accepted, with \<open>OPUS_OK\<close>, when it is
  well formed, of the configuration of the frames held (the first packet sets it) and the frames together last
  at most 120 ms; then exactly its frames are appended. Otherwise the result is negative and what is held stays.
\<close>

theorem cat_appends_frames:
  assumes "rp_ok mem rp" "int p + len \<le> int (length (mem ob))"
  shows "\<exists>ret rp'. opus_repacketizer_cat_impl mem rp (ob, p) len sd = Some (ret, rp') \<and> rp_ok mem rp' \<and>
    (if \<exists>fs. cat_allowed mem rp (ob, p) len sd fs
     then ret = OPUS_OK \<and> (\<exists>fs. cat_allowed mem rp (ob, p) len sd fs \<and> held mem rp' = held mem rp @ fs)
     else ret < 0 \<and> held mem rp' = held mem rp)"
proof -
  have "length (rp_frames rp) = 48" "length (rp_len rp) = 48" "rp_nb_frames rp \<noteq> 0 \<longrightarrow> rp_framesize rp = toc_units (rp_toc rp) * 20"
    using assms(1) by (simp_all add: rp_ok_def Let_def)
  from this assms(2) show ?thesis
  proof (cases rule: cat_cases [where sd = sd])
    case (reject ret rp')
    then show ?thesis using rp_ok_unchanged [OF assms(1) reject(4)] by auto
  next
    case (accept fs e q rp')
    then show ?thesis using cat_accept [OF assms(1) accept(2-)] by auto
  qed
qed

text \<open>A repacketizer with one frame of three bytes, for examples.\<close>

definition one_frame :: repacketizer where
  "one_frame = \<lparr>rp_toc = 8, rp_nb_frames = 1, rp_frames = (0, 1) # replicate 47 (0, 0), rp_len = 3 # replicate 47 0, rp_framesize = 160\<rparr>"

definition some_memory :: omem where
  "some_memory = (\<lambda>ob. if ob = 0 then [8, 1, 2, 3] else if ob = 1 then [9, 4, 5, 6, 7] else replicate 20 0)"

lemma one_frame_ok: "rp_ok some_memory one_frame"
  by (simp add: rp_ok_def one_frame_def some_memory_def in_memory_def toc_units_def Let_def)

lemma cat_appends_frames_witness:
  "\<exists>ret rp'. opus_repacketizer_cat_impl some_memory one_frame (1, 0) 5 False = Some (ret, rp') \<and> rp_ok some_memory rp' \<and>
    (if \<exists>fs. cat_allowed some_memory one_frame (1, 0) 5 False fs
     then ret = OPUS_OK \<and> (\<exists>fs. cat_allowed some_memory one_frame (1, 0) 5 False fs \<and> held some_memory rp' = held some_memory one_frame @ fs)
     else ret < 0 \<and> held some_memory rp' = held some_memory one_frame)"
  by (rule cat_appends_frames [OF one_frame_ok]) (simp add: some_memory_def)

subsection \<open>Writing what is held\<close>

lemma in_memory_sub: "in_memory mem fs ls \<Longrightarrow> in_memory mem (take k (drop b fs)) (take k (drop b ls))"
  by (simp add: in_memory_def list_all2_takeI list_all2_dropI)

lemma frames_at_sub: "frames_at mem (take k (drop b fs)) (take k (drop b ls)) = take k (drop b (frames_at mem fs ls))"
  by (simp add: frames_at_def take_map drop_map take_zip drop_zip)

lemma take_drop_held: "b + k \<le> n \<Longrightarrow> take k (drop b (take n xs)) = take k (drop b xs)"
  by (simp add: drop_take min_def)

lemma same_outside_put: "p + length B \<le> length (mem d) \<Longrightarrow> same_outside mem (mem(d := put p B (mem d))) d p (int (length B))"
  by (simp add: same_outside_def put_def)

text \<open>The outcome of writing the frames \<open>fs\<close> of the configuration of \<open>t\<close>.\<close>

definition written :: "omem \<Rightarrow> (int \<times> omem) option \<Rightarrow> nat \<Rightarrow> nat \<Rightarrow> int \<Rightarrow> bool \<Rightarrow> bool \<Rightarrow> byte \<Rightarrow> byte list list \<Rightarrow> bool" where
  "written mem r d p maxlen sd pad t fs \<longleftrightarrow> (if min_total sd (lengths fs) > maxlen then r = Some (OPUS_BUFFER_TOO_SMALL, mem)
     else let n = (if pad then maxlen else min_total sd (lengths fs)) in
       \<exists>mem'. r = Some (n, mem') \<and> same_outside mem mem' d p n \<and> frames_of sd (bytes (mem' d) p n) = Some (fs, n) \<and>
         mem' d ! p AND 0xFC = t AND 0xFC)"

lemma build_config: "build t fs maxlen sd pad \<noteq> [] \<and> build t fs maxlen sd pad ! 0 AND 0xFC = t AND 0xFC"
  by (auto simp: build_def header_def many_header_def short_header_def toc_config)

lemma out_range_frames:
  assumes ok: "rp_ok mem rp" and r: "0 \<le> beg" "beg < fin" "fin \<le> int (rp_nb_frames rp)" and m: "int p + maxlen \<le> int (length (mem d))"
    and fs: "fs = take (nat (fin - beg)) (drop (nat beg) (held mem rp))"
    and behind: "min_total sd (lengths fs) \<le> maxlen \<longrightarrow>
      behind d (p + length (header (rp_toc rp) (lengths fs) maxlen sd pad)) (take (nat (fin - beg)) (drop (nat beg) (rp_frames rp))) (lengths fs)"
  shows "written mem (opus_repacketizer_out_range_impl mem rp beg fin (d, p) maxlen sd pad) d p maxlen sd pad (rp_toc rp) fs"
proof -
  let ?n = "rp_nb_frames rp" and ?k = "nat (fin - beg)" and ?b = "nat beg"
  let ?ls = "take ?k (drop ?b (rp_len rp))" and ?f = "take ?k (drop ?b (rp_frames rp))"
  have bk: "?b + ?k \<le> ?n" "1 \<le> ?k" using r by linarith+
  have ok': "length (rp_frames rp) = 48" "length (rp_len rp) = 48" "?n \<le> 48" "in_memory mem (take ?n (rp_frames rp)) (take ?n (rp_len rp))"
    "rp_framesize rp = toc_units (rp_toc rp) * 20" "toc_units (rp_toc rp) * int ?n \<le> 48" using ok bk by (auto simp: rp_ok_def Let_def)
  have im: "in_memory mem ?f ?ls" using in_memory_sub [OF ok'(4), of ?k ?b] by (simp only: take_drop_held [OF bk(1)])
  have fa: "frames_at mem ?f ?ls = fs"
    using frames_at_sub [of mem ?k ?b "take ?n (rp_frames rp)" "take ?n (rp_len rp)"] unfolding fs held_def by (simp only: take_drop_held [OF bk(1)])
  have ls: "lengths fs = ?ls" using lengths_frames_at [OF im] fa by simp
  have lf: "length fs = ?k" using arg_cong [OF ls, of length] ok' bk by simp
  have fl: "list_all frame_size (lengths fs)" using in_memory_sizes [OF im] ls by simp
  have nf: "nat fin \<le> 48" using r ok'(3) by linarith
  have out: "opus_repacketizer_out_range_impl mem rp beg fin (d, p) maxlen sd pad =
    (if min_total sd (lengths fs) > maxlen then Some (OPUS_BUFFER_TOO_SMALL, mem)
     else let B = build (rp_toc rp) fs maxlen sd pad in Some (int (length B), mem(d := put p B (mem d))))"
    using out_range_put [OF r _ _ refl refl im m, of sd pad] behind nf ok'(1,2) unfolding ls fa by simp
  show ?thesis
  proof (cases "min_total sd (lengths fs) > maxlen")
    case True
    then show ?thesis using out by (simp add: written_def)
  next
    case False
    let ?B = "build (rp_toc rp) fs maxlen sd pad"
    have ne: "fs \<noteq> []" using lf bk by auto
    have B: "int (length ?B) = (if pad then maxlen else min_total sd (lengths fs))" using length_build [OF ne] False by simp
    then have fit: "p + length ?B \<le> length (mem d)" using m False by (auto split: if_splits)
    have "toc_units (rp_toc rp) * int (length fs) \<le> toc_units (rp_toc rp) * int ?n"
      using lf bk toc_units_range [of "rp_toc rp"] by (intro mult_left_mono) linarith+
    then have "frames_of sd ?B = Some (fs, int (length ?B))" using ne fl ok'(6) False by (intro frames_of_build) simp_all
    moreover have "put p ?B (mem d) ! p AND 0xFC = rp_toc rp AND 0xFC"
      using nth_put [OF fit, of 0] build_config [of "rp_toc rp" fs maxlen sd pad] by simp
    ultimately show ?thesis using out False B same_outside_put [where mem = mem and d = d, OF fit] bytes_put [OF fit]
      by (auto simp: written_def Let_def intro!: exI [of _ "mem(d := put p ?B (mem d))"])
  qed
qed

lemma behind_elsewhere: "\<forall>f \<in> set fs. fst f \<noteq> d \<Longrightarrow> behind d q fs ls"
  by (induction d q fs ls rule: behind.induct) auto

text \<open>
  C25: what the repacketizer holds it can give back. Writing the frames \<open>beg\<close> to \<open>fin\<close> to another buffer of \<open>maxlen\<close>
  bytes fails, with \<open>OPUS_BUFFER_TOO_SMALL\<close> and the buffer untouched, exactly when the frames need more bytes.
  Otherwise the bytes written form a packet of the format with exactly these frames, of their configuration and of the
  number of bytes returned (\<open>maxlen\<close> when padded), and no other byte of memory changes; for self-delimited and padded packets too.
\<close>

theorem out_gives_frames_back:
  assumes "rp_ok mem rp" "0 \<le> beg" "beg < fin" "fin \<le> int (rp_nb_frames rp)" "int p + maxlen \<le> int (length (mem d))"
    and "\<forall>f \<in> set (take (rp_nb_frames rp) (rp_frames rp)). fst f \<noteq> d"
  shows "written mem (opus_repacketizer_out_range_impl mem rp beg fin (d, p) maxlen sd pad) d p maxlen sd pad (rp_toc rp)
    (take (nat (fin - beg)) (drop (nat beg) (held mem rp)))"
proof (rule out_range_frames [OF assms(1-5) refl], rule impI, rule behind_elsewhere)
  have "nat beg + nat (fin - beg) \<le> rp_nb_frames rp" using assms(2-4) by linarith
  note eq = take_drop_held [OF this, of "rp_frames rp", symmetric]
  show "\<forall>f \<in> set (take (nat (fin - beg)) (drop (nat beg) (rp_frames rp))). fst f \<noteq> d"
    unfolding eq using assms(6) by (blast dest: in_set_takeD in_set_dropD)
qed

lemma out_gives_frames_back_witness:
  "written some_memory (opus_repacketizer_out_range_impl some_memory one_frame 0 1 (2, 1) 9 False True) 2 1 9 False True (rp_toc one_frame)
    (take (nat (1 - 0)) (drop (nat 0) (held some_memory one_frame)))"
  by (rule out_gives_frames_back [OF one_frame_ok]) (simp_all add: one_frame_def some_memory_def)

end
