(* ===== verification/Packetpad.thy ===== *)
theory Packetpad
  imports Repacketizer
begin

section \<open>Padding and unpadding packets in place\<close>

text \<open>
  The packet written is never longer than one with the same frames, whatever its header and padding, so that the
  in-place rewriting never overtakes the frames it has yet to move.
\<close>

lemma size_of_length: "size_of bs = Some (l, bs') \<Longrightarrow> int (length bs) = int (length bs') + size_bytes l"
proof (cases bs)
  case (Cons a r)
  assume s: "size_of bs = Some (l, bs')"
  have "uint a < 252 \<longleftrightarrow> a < 252" by (simp add: word_less_def)
  moreover have "252 \<le> 4 * uint y + uint x" if "\<not> uint x < 252" for x y :: byte using that byte_range(1) [of y] by linarith
  ultimately show ?thesis using s Cons by (auto simp: size_bytes_def split: if_splits list.splits)
qed simp

lemma sizes_of_length: "sizes_of n bs = Some (ls, bs') \<Longrightarrow> int (length bs) = int (length bs') + sum_list (map size_bytes ls)"
proof (induction n arbitrary: bs ls)
  case (Suc n)
  then obtain l r ls' where s: "size_of bs = Some (l, r)" "sizes_of n r = Some (ls', bs')" "ls = l # ls'"
    by (auto split: bind_splits prod.splits)
  then show ?case using Suc.IH [OF s(2)] size_of_length [OF s(1)] by simp
qed simp

lemma padding_of_length:
  "padding_of bs = Some (k, bs') \<Longrightarrow> \<exists>c r. length bs = length bs' + Suc c \<and> k = 254 * c + r \<and> r < 255"
proof (induction bs arbitrary: k)
  case (Cons b bs)
  show ?case
  proof (cases "b = 255")
    case True
    then obtain k' where k': "padding_of bs = Some (k', bs')" "k = 254 + k'" using Cons.prems by auto
    then obtain c r where "length bs = length bs' + Suc c" "k' = 254 * c + r" "r < 255" using Cons.IH by blast
    then show ?thesis using k' by (intro exI [of _ "Suc c"] exI [of _ r]) simp
  next
    case False
    then have "k = unat b" "bs' = bs" using Cons.prems by auto
    moreover have "int (unat b) < 256" using byte_range(2) [of b] by simp
    then have "unat b < 256" by linarith
    moreover have "unat b \<noteq> unat (255 :: byte)" using False unfolding word_unat_eq_iff .
    then have "unat b \<noteq> 255" by simp
    ultimately show ?thesis by (intro exI [of _ 0] exI [of _ "unat b"]) simp
  qed
qed simp

lemma padding_tail_coded:
  assumes "padding_of bs = Some (k, bs')"
  shows "k = padding_tail (int (length bs) - int (length bs') + int k)"
proof -
  obtain c r where cr: "length bs = length bs' + Suc c" "k = 254 * c + r" "r < 255" using padding_of_length [OF assms] by blast
  then have "int (length bs) - int (length bs') + int k - 1 = int r + 255 * int c" by simp
  moreover from this have "(int (length bs) - int (length bs') + int k - 1) div 255 = int c" using cr(3) by simp
  ultimately show ?thesis using cr by (simp add: padding_tail_def)
qed

lemma padding_tail_mono:
  assumes "A \<le> B"
  shows "padding_tail A \<le> padding_tail B"
proof (cases "A \<le> 0")
  case False
  let ?x = "A - 1" and ?y = "B - 1"
  have "?x = 255 * (?x div 255) + ?x mod 255" "?y = 255 * (?y div 255) + ?y mod 255" by simp_all
  moreover have "0 \<le> ?x mod 255" "?x mod 255 < 255" "0 \<le> ?y mod 255" "?y mod 255 < 255" by simp_all
  ultimately have "?x - ?x div 255 \<le> ?y - ?y div 255" using assms by linarith
  then show ?thesis using False assms by (simp add: padding_tail_def nat_mono)
qed (simp add: padding_tail_def)

lemma header_of_size:
  assumes "header_of bs = Some (n, v, r, pad)"
  obtains (plain) "int (length bs) = 1 + int (length r)" "pad = 0" "n = 1 \<and> v \<or> n = 2"
  | (many) A where "0 \<le> A" "pad = padding_tail A" "int (length bs) = 2 + A + int (length r)" "1 \<le> n"
proof -
  obtain t b where bs: "bs = t # b" using assms by (cases bs) (auto simp: header_of_def)
  show ?thesis
  proof (cases "t AND 3 = 0 \<or> t AND 3 = 1 \<or> t AND 3 = 2")
    case True
    then show ?thesis using assms bs by (intro plain) (auto simp: header_of_def split: if_splits)
  next
    case False
    then obtain ch b' where b: "b = ch # b'" using assms bs by (cases b) (auto simp: header_of_def)
    have t: "t AND 3 = 3"
    proof -
      have "unat (t AND 3) < 4" by (rule and3_less)
      then have "unat (t AND 3) \<in> {unat (0 :: byte), unat (1 :: byte), unat (2 :: byte), unat (3 :: byte)}" by auto
      then have "t AND 3 \<in> {0, 1, 2, 3}" by (simp only: insert_iff empty_iff word_unat_eq_iff [symmetric])
      then show ?thesis using False by blast
    qed
    obtain k b2 where k: "padding_for ch b' = Some (k, b2)" "k \<le> length b2" "r = take (length b2 - k) b2" "pad = k" "n = nat (uint (ch AND 0x3F))" "uint (ch AND 0x3F) \<noteq> 0"
    proof -
      have "\<not> (uint (ch AND 0x3F) = 0 \<or> toc_units t * uint (ch AND 0x3F) > 48)" using assms unfolding bs b header_of_many [OF t] by (metis option.distinct(1))
      then have h: "do { (pad, bs) \<leftarrow> padding_for ch b';
          if pad > length bs then None else Some (nat (uint (ch AND 0x3F)), ch AND 0x80 \<noteq> 0, take (length bs - pad) bs, pad) } = Some (n, v, r, pad)"
        and z: "uint (ch AND 0x3F) \<noteq> 0"
        using assms unfolding bs b header_of_many [OF t] by simp_all
      obtain k b2 where k: "padding_for ch b' = Some (k, b2)" using h by (cases "padding_for ch b'") auto
      have le: "\<not> k > length b2" using h unfolding k by (auto simp del: not_less)
      then have "n = nat (uint (ch AND 0x3F))" "r = take (length b2 - k) b2" "pad = k" using h unfolding k by auto
      then show ?thesis using that [OF k] le z by simp
    qed
    have n: "1 \<le> n" using k(5,6) byte_range(1) [of "ch AND 0x3F"] by linarith
    show ?thesis
    proof (cases "ch AND 0x40 = 0")
      case True
      then show ?thesis using k bs b n by (intro many [of 0]) (simp_all add: padding_tail_def)
    next
      case False
      then have pd: "padding_of b' = Some (k, b2)" using k(1) by simp
      have "0 \<le> int (length b') - int (length b2) + int k" using padding_of_shorter [OF pd] by linarith
      then show ?thesis using k bs b n padding_tail_coded [OF pd]
        by (intro many [of "int (length b') - int (length b2) + int k"]) simp_all
    qed
  qed
qed

lemma lengths_of_size:
  assumes "lengths_of sd n v r = Some (ls, r')" "1 \<le> n"
  shows "length ls = n" "int (length r) = int (length r') + (if v then sum_list (map size_bytes (butlast ls)) else 0) + sd_bytes sd ls"
    "\<not> v \<Longrightarrow> \<not> vbr ls"
proof -
  have "length ls = n \<and> int (length r) = int (length r') + (if v then sum_list (map size_bytes (butlast ls)) else 0) + sd_bytes sd ls
    \<and> (\<not> v \<longrightarrow> \<not> vbr ls)"
  proof (cases v)
    case True
    then obtain ks l r1 where k: "sizes_of (n - 1) r = Some (ks, r1)" "ls = ks @ [l]" "(if sd then size_of r1 else Some (int (length r1) - sum_list ks, r1)) = Some (l, r')"
      using assms(1) by (auto simp: lengths_of_def split: bind_splits)
    have "length ks = n - 1" using sizes_of_range [OF k(1)] by simp
    then show ?thesis using True k sizes_of_length [OF k(1)] size_of_length [of r1 l r'] assms(2) by (cases sd) (simp_all add: sd_bytes_def)
  next
    case False
    then obtain l where l: "ls = replicate n l" "(if sd then size_of r else Some (int (length r) div int n, r)) = Some (l, r')"
      using assms(1) by (auto simp: lengths_of_def split: bind_splits)
    have "\<not> vbr ls" using l(1) assms(2) by (auto simp: vbr_def list_ex_iff)
    moreover have "last ls = l" using l(1) assms(2) by simp
    ultimately show ?thesis using False l size_of_length [of r l r'] by (cases sd) (simp_all add: sd_bytes_def)
  qed
  then show "length ls = n" "int (length r) = int (length r') + (if v then sum_list (map size_bytes (butlast ls)) else 0) + sd_bytes sd ls"
    "\<not> v \<Longrightarrow> \<not> vbr ls" by simp_all
qed

lemma lengths_split: "list_all frame_size ls \<Longrightarrow> sum_list ls \<le> int (length bs) \<Longrightarrow> lengths (split_at ls bs) = ls"
proof (induction ls arbitrary: bs)
  case (Cons l ls)
  have "l \<le> int (length bs)" "sum_list ls \<le> int (length (drop (nat l) bs))" using Cons.prems sum_frames [of ls] by auto
  then show ?case using Cons by auto
qed simp

text \<open>What a packet's frames need at least, and what its padding leaves.\<close>

lemma encoding_bounds:
  assumes f: "frames_of sd bs = Some (fs, e)" and s: "frame_start sd bs = Some s"
  shows "min_total sd (lengths fs) \<le> s + sum_list (lengths fs)"
    "\<exists>A. 0 \<le> A \<and> e = s + sum_list (lengths fs) + int (padding_tail A) \<and> (A = 0 \<or> many_total sd (lengths fs) + A \<le> e)"
proof -
  obtain n v r pad ls r' where h: "header_of bs = Some (n, v, r, pad)" "lengths_of sd n v r = Some (ls, r')"
    and fits: "list_all frame_size ls" "sum_list ls \<le> int (length r')" and fs: "fs = split_at ls r'" "e = int (length bs) - int (length r') + sum_list ls"
    using f by (auto simp: frames_of_def split: bind_splits if_splits)
  have ls: "lengths fs = ls" using lengths_split [OF fits] fs(1) by simp
  have st: "s = int (length bs) - int pad - int (length r')" using s h by (simp add: frame_start_def)
  let ?v = "if v then sum_list (map size_bytes (butlast ls)) else 0"
  have vge: "(if vbr ls then sum_list (map size_bytes (butlast ls)) else 0) \<le> ?v" "0 \<le> ?v" if "1 \<le> n"
    using lengths_of_size(3) [OF h(2) that] by (auto simp: size_bytes_def intro!: sum_list_nonneg)
  have "min_total sd ls \<le> s + sum_list ls \<and> (\<exists>A. 0 \<le> A \<and> e = s + sum_list ls + int (padding_tail A) \<and> (A = 0 \<or> many_total sd ls + A \<le> e))"
  proof (cases rule: header_of_size [OF h(1)])
    case 1
    then have n: "1 \<le> n" by auto
    note len = lengths_of_size [OF h(2) n]
    have "e = s + sum_list ls + int (padding_tail 0)" using fs(2) st 1(2) by (simp add: padding_tail_def)
    moreover have "short_total sd ls \<le> s + sum_list ls"
    proof (cases "length ls = 2 \<and> ls ! 1 \<noteq> ls ! 0")
      case True
      then obtain a b where ab: "ls = [a, b]" "a \<noteq> b" by (cases ls; cases "tl ls") auto
      then have v using len(3) by (auto simp: vbr_def)
      then show ?thesis using ab st 1 len(2) by (simp add: short_total_def)
    next
      case False
      then show ?thesis using st 1 len(2) vge(2) [OF n] by (auto simp: short_total_def)
    qed
    moreover have "\<not> length ls > 2" using 1(3) len(1) by auto
    ultimately show ?thesis by (auto simp: min_total_def)
  next
    case (2 A)
    note len = lengths_of_size [OF h(2) 2(4)]
    have ne: "ls \<noteq> []" using len(1) 2(4) by auto
    have e: "e = s + sum_list ls + int (padding_tail A)" using fs(2) st 2(2) by simp
    have m: "many_total sd ls + A \<le> e" using 2(3) len(2) vge(1) [OF 2(4)] fs(2) by (simp add: many_total_def)
    have "int (padding_tail A) \<le> A" using length_padding [OF 2(1)] by linarith
    then have "many_total sd ls \<le> s + sum_list ls" using e m by linarith
    moreover have "min_total sd ls \<le> many_total sd ls" using many_short_total [OF ne, of sd] by (auto simp: min_total_def)
    ultimately show ?thesis using e m 2(1) by auto
  qed
  then show "min_total sd (lengths fs) \<le> s + sum_list (lengths fs)"
    "\<exists>A. 0 \<le> A \<and> e = s + sum_list (lengths fs) + int (padding_tail A) \<and> (A = 0 \<or> many_total sd (lengths fs) + A \<le> e)"
    by (simp_all add: ls)
qed

lemma behind_starts: "q \<le> q' \<Longrightarrow> behind d q (map (Pair d) (starts ls q')) ls"
  by (induction ls arbitrary: q q') auto

lemma header_behind:
  assumes f: "frames_of False bs = Some (fs, int (length bs))" "frame_start False bs = Some s" and ne: "fs \<noteq> []"
    and m: "int p + maxlen \<le> int q + int (length bs)" "p \<le> q" "int (length bs) \<le> maxlen" and pad: "pad \<longrightarrow> int (length bs) < maxlen"
  shows "int p + int (length (header t (lengths fs) maxlen False pad)) \<le> int q + s"
proof -
  let ?ls = "lengths fs" and ?P = "padding_of_total False (lengths fs) maxlen pad"
  note b = encoding_bounds [OF f]
  obtain A where A: "0 \<le> A" "int (length bs) = s + sum_list ?ls + int (padding_tail A)" "A = 0 \<or> many_total False ?ls + A \<le> int (length bs)"
    using b(2) by blast
  have ne': "?ls \<noteq> []" using ne by simp
  have fit: "min_total False ?ls \<le> maxlen" using b(1) A(2) m(3) by linarith
  have h: "int (length (header t ?ls maxlen False pad)) + sum_list ?ls + int (padding_tail ?P) = (if pad then maxlen else min_total False ?ls)"
    using length_header [OF ne' fit, of t pad] built_total [OF ne' fit, of pad] by simp
  show ?thesis
  proof (cases pad)
    case False
    then show ?thesis using h b(1) m(2) by (simp add: padding_of_total_def padding_tail_def)
  next
    case True
    have "padding_tail A \<le> padding_tail ?P"
    proof (cases "A = 0")
      case True
      then show ?thesis by (simp add: padding_tail_def)
    next
      case False
      then have big: "many_total False ?ls + A < maxlen" using A(3) pad True by simp
      then have "many_coded False ?ls maxlen pad" using True A(1) many_short_total [OF ne', of False]
        by (cases "2 < length ?ls") (auto simp: many_coded_def)
      then have "?P = maxlen - many_total False ?ls" using True by (simp add: padding_of_total_def)
      then show ?thesis using big by (intro padding_tail_mono) linarith
    qed
    then show ?thesis using h True m(1) A(2) by simp
  qed
qed

lemma plain_end: "frames_of False bs = Some (fs, e) \<Longrightarrow> e = int (length bs) \<and> (\<exists>s. frame_start False bs = Some s)"
  by (auto simp: frames_of_def frame_start_def split: bind_splits if_splits)

lemma parsed_unique:
  assumes a: "parsed m p len sd fs e q" and b: "parsed m p len sd fs' e' q'"
  shows "fs = fs' \<and> e = e' \<and> q = q'"
proof -
  have "Some (fs, e) = Some (fs', e')" "Some (int q - int p) = Some (int q' - int p)" using a b unfolding parsed_def by metis+
  then show ?thesis by simp
qed

text \<open>A fresh repacketizer reads the packet at \<open>q\<close> and writes it to \<open>p\<close>, at or before \<open>q\<close> in the same object.\<close>

lemma rewrite_in_place:
  assumes arrays: "length (rp_frames rp) = 48" "length (rp_len rp) = 48" "rp_nb_frames rp = 0"
    and mem: "int q + len \<le> int (length (mem d))" and f: "frames_of False (bytes (mem d) q len) = Some (fs, e)"
    and m: "int p + maxlen = int q + len" "len \<le> maxlen" and pad: "pad \<longrightarrow> len < maxlen"
  shows "\<exists>rp'. opus_repacketizer_cat mem rp (d, q) len = Some (OPUS_OK, rp') \<and>
    written mem (opus_repacketizer_out_range_impl mem rp' 0 (int (rp_nb_frames rp')) (d, p) maxlen False pad) d p maxlen False pad (mem d ! q) fs \<and>
    min_total False (lengths fs) \<le> len"
proof -
  let ?bs = "bytes (mem d) q len"
  have ok: "rp_ok mem rp" and h0: "held mem rp = []"
    using arrays by (simp_all add: rp_ok_def Let_def in_memory_def held_def frames_at_def)
  obtain q0 where P: "parsed (mem d) q len False fs e q0" using parse_parsed [OF mem f] by blast
  have al: "cat_allowed mem rp (d, q) len False fs" using f P arrays(3) by (auto simp: cat_allowed_def parsed_def Let_def)
  have "rp_nb_frames rp \<noteq> 0 \<longrightarrow> rp_framesize rp = toc_units (rp_toc rp) * 20" using arrays(3) by simp
  from arrays(1,2) this mem show ?thesis
  proof (cases rule: cat_cases [where sd = False])
    case (reject ret rp')
    then show ?thesis using al by blast
  next
    case (accept fs' e' q' rp')
    have same: "fs' = fs" "e' = e" "q' = q0" using parsed_unique [OF accept(3) P] by simp_all
    have n1: "rp_nb_frames rp' = length fs" using accept(4) arrays(3) same by (simp add: appended_def)
    have "take (rp_nb_frames rp') (rp_frames rp') = take (rp_nb_frames rp) (rp_frames rp) @ map (Pair d) (starts (lengths fs') q')"
      using accept(4) unfolding appended_def by blast
    then have "take (length fs) (rp_frames rp') = map (Pair d) (starts (lengths fs) q0)" unfolding n1 arrays(3) same by simp
    note n = n1 this
    note acc = cat_accept [OF ok accept(2,3,4,5,6,7)]
    have held: "held mem rp' = fs" using acc(2) h0 same by simp
    have "0 \<le> len" using P sum_frames [of "lengths fs"] unfolding parsed_def by linarith
    then have len1: "1 \<le> length fs" "e = len" "int (length ?bs) = len" using P length_bytes [OF mem] by (auto simp: parsed_def)
    have st: "frame_start False ?bs = Some (int q0 - int q)" using P by (simp add: parsed_def)
    have f': "frames_of False ?bs = Some (fs, int (length ?bs))" using f len1 by simp
    have ne: "fs \<noteq> []" using len1(1) by auto
    have toc: "rp_toc rp' AND 0xFC = mem d ! q AND 0xFC" using accept(7) by (simp add: configured_def)
    have "int p + int (length (header (rp_toc rp') (lengths fs) maxlen False pad)) \<le> int q + (int q0 - int q)"
      by (rule header_behind [OF f' st ne]) (use m len1 pad in simp_all)
    then have beh: "behind d (p + length (header (rp_toc rp') (lengths fs) maxlen False pad)) (map (Pair d) (starts (lengths fs) q0)) (lengths fs)"
      by (intro behind_starts) linarith
    have "written mem (opus_repacketizer_out_range_impl mem rp' 0 (int (rp_nb_frames rp')) (d, p) maxlen False pad) d p maxlen False pad (rp_toc rp') fs"
    proof (rule out_range_frames [OF acc(1)])
      show "min_total False (lengths fs) \<le> maxlen \<longrightarrow> behind d (p + length (header (rp_toc rp') (lengths fs) maxlen False pad))
          (take (nat (int (rp_nb_frames rp') - 0)) (drop (nat 0) (rp_frames rp'))) (lengths fs)" using beh n by simp
    qed (use m mem len1 n held ne in simp_all)
    then have "written mem (opus_repacketizer_out_range_impl mem rp' 0 (int (rp_nb_frames rp')) (d, p) maxlen False pad) d p maxlen False pad (mem d ! q) fs"
      unfolding written_def toc .
    moreover have "min_total False (lengths fs) \<le> len"
      using encoding_bounds(1) [OF f' st] P by (simp add: parsed_def)
    ultimately show ?thesis using accept(1) by (auto simp: opus_repacketizer_cat_def)
  qed
qed

lemma cat_malformed:
  assumes arrays: "length (rp_frames rp) = 48" "length (rp_len rp) = 48" "rp_nb_frames rp = 0"
    and mem: "int q + len \<le> int (length (mem d))" and f: "frames_of False (bytes (mem d) q len) = None"
  shows "\<exists>ret rp'. opus_repacketizer_cat mem rp (d, q) len = Some (ret, rp') \<and> ret < 0"
proof -
  have "rp_nb_frames rp \<noteq> 0 \<longrightarrow> rp_framesize rp = toc_units (rp_toc rp) * 20" using arrays(3) by simp
  from arrays(1,2) this mem show ?thesis
  proof (cases rule: cat_cases [where sd = False])
    case (accept fs' e' q' rp')
    then show ?thesis using f by (simp add: parsed_def)
  qed (auto simp: opus_repacketizer_cat_def)
qed

lemma init_arrays:
  "rp_frames (opus_repacketizer_init rp) = rp_frames rp" "rp_len (opus_repacketizer_init rp) = rp_len rp" "rp_nb_frames (opus_repacketizer_init rp) = 0"
  by (simp_all add: opus_repacketizer_init_def)

text \<open>
  C24: unpadding a packet in place. \<open>opus_packet_unpad\<close> on a well formed packet leaves a packet with the same frames and
  configuration in the same place and returns its size: positive, at most the size it had (the code asserts both)
  and not more than any packet with these frames has, whatever its padding. Bytes outside the packet keep their
  values; a malformed packet is refused with a negative code and memory as it was.
\<close>

theorem unpad_shortest:
  assumes "length (rp_frames rp) = 48" "length (rp_len rp) = 48" "1 \<le> len" "int p + len \<le> int (length (mem d))"
  shows "\<exists>ret mem'. opus_packet_unpad rp mem (d, p) len = Some (ret, mem') \<and>
    (case frames_of False (bytes (mem d) p len) of None \<Rightarrow> ret < 0 \<and> mem' = mem
     | Some (fs, e) \<Rightarrow> 0 < ret \<and> ret \<le> len \<and> same_outside mem mem' d p ret \<and> mem' d ! p AND 0xFC = mem d ! p AND 0xFC \<and>
         frames_of False (bytes (mem' d) p ret) = Some (fs, ret) \<and>
         (\<forall>bs. frames_of False bs = Some (fs, int (length bs)) \<longrightarrow> ret \<le> int (length bs)))"
proof (cases "frames_of False (bytes (mem d) p len)")
  case None
  then obtain ret rp' where "opus_repacketizer_cat mem (opus_repacketizer_init rp) (d, p) len = Some (ret, rp')" "ret < 0"
    using cat_malformed [of "opus_repacketizer_init rp" p len mem d] assms by (auto simp: init_arrays)
  then show ?thesis using None assms(3) by (simp add: opus_packet_unpad_def)
next
  case (Some x)
  then obtain fs e where f: "frames_of False (bytes (mem d) p len) = Some (fs, e)" by (cases x) auto
  have "\<exists>rp'. opus_repacketizer_cat mem (opus_repacketizer_init rp) (d, p) len = Some (OPUS_OK, rp') \<and>
      written mem (opus_repacketizer_out_range_impl mem rp' 0 (int (rp_nb_frames rp')) (d, p) len False False) d p len False False (mem d ! p) fs \<and>
      min_total False (lengths fs) \<le> len"
    by (rule rewrite_in_place [where mem = mem and d = d, OF _ _ _ assms(4) f]) (use assms in \<open>simp_all add: init_arrays\<close>)
  then obtain rp' mem' where cat: "opus_repacketizer_cat mem (opus_repacketizer_init rp) (d, p) len = Some (OPUS_OK, rp')"
    and out: "opus_repacketizer_out_range_impl mem rp' 0 (int (rp_nb_frames rp')) (d, p) len False False = Some (min_total False (lengths fs), mem')"
      "same_outside mem mem' d p (min_total False (lengths fs))" "mem' d ! p AND 0xFC = mem d ! p AND 0xFC"
      "frames_of False (bytes (mem' d) p (min_total False (lengths fs))) = Some (fs, min_total False (lengths fs))"
    and le: "min_total False (lengths fs) \<le> len" by (auto simp: written_def Let_def)
  have "min_total False (lengths fs) \<le> int (length bs)" if b: "frames_of False bs = Some (fs, int (length bs))" for bs
  proof -
    obtain s where s: "frame_start False bs = Some s" using plain_end [OF b] by blast
    show ?thesis using encoding_bounds [OF b s] by auto
  qed
  moreover have "0 < min_total False (lengths fs)"
  proof (rule ccontr)
    assume "\<not> ?thesis"
    then have "bytes (mem' d) p (min_total False (lengths fs)) = []" by simp
    then show False using out(4) by (simp add: frames_of_def header_of_def)
  qed
  ultimately show ?thesis using cat out le f assms(3) by (simp add: opus_packet_unpad_def)
qed

text \<open>
  C23: padding a packet in place. \<open>opus_packet_pad\<close> moves the packet to the end of the \<open>new_len\<close> bytes and rebuilds it from
  the start: although source and destination overlap, the result is a packet of exactly \<open>new_len\<close> bytes with the same
  frames and configuration, and no other byte changes. A malformed packet gives a negative code.
\<close>

theorem pad_keeps_frames:
  assumes "length (rp_frames rp) = 48" "length (rp_len rp) = 48" "1 \<le> len" "len < new_len" "int p + new_len \<le> int (length (mem d))"
  shows "\<exists>ret mem'. opus_packet_pad rp mem (d, p) len new_len = Some (ret, mem') \<and> same_outside mem mem' d p new_len \<and>
    (case frames_of False (bytes (mem d) p len) of None \<Rightarrow> ret < 0
     | Some (fs, e) \<Rightarrow> ret = OPUS_OK \<and> frames_of False (bytes (mem' d) p new_len) = Some (fs, new_len) \<and>
         mem' d ! p AND 0xFC = mem d ! p AND 0xFC)"
proof -
  let ?q = "p + nat (new_len - len)" and ?bs = "bytes (mem d) p len"
  let ?m = "mem(d := put ?q ?bs (mem d))"
  have q: "int ?q + len = int p + new_len" using assms(4) by simp
  have lb: "int (length ?bs) = len" using length_bytes [of p len "mem d"] assms by simp
  have fit: "?q + length ?bs \<le> length (mem d)" using q lb assms(5) by linarith
  have "?q + nat len \<le> length (mem d)" "p + nat len \<le> length (mem d)" "length ?bs = nat len" using fit lb assms(4,5) by linarith+
  then have mv: "mem_move mem (d, ?q) (d, p) (nat len) = Some ?m" by (simp add: mem_move_def put_def bytes_def)
  have bs: "bytes (?m d) ?q len = ?bs" using bytes_put [OF fit] lb by simp
  have m5: "int ?q + len \<le> int (length (?m d))" using q assms(5) fit by simp
  have out1: "same_outside mem ?m d p new_len"
  proof -
    have "p + nat new_len = ?q + length ?bs" using q lb assms by linarith
    then show ?thesis using fit by (simp add: same_outside_def put_def add.assoc)
  qed
  have start: "opus_packet_pad rp mem (d, p) len new_len = do {
       (ret, rp) \<leftarrow> opus_repacketizer_cat ?m (opus_repacketizer_init rp) (d, ?q) len;
       if ret \<noteq> OPUS_OK then Some (ret, ?m) else do {
         (ret, mem) \<leftarrow> opus_repacketizer_out_range_impl ?m rp 0 (int (rp_nb_frames rp)) (d, p) new_len False True;
         Some (if ret > 0 then OPUS_OK else ret, mem) } }"
    using assms(3,4) mv by (simp add: opus_packet_pad_def Let_def)
  show ?thesis
  proof (cases "frames_of False ?bs")
    case None
    then obtain ret rp' where "opus_repacketizer_cat ?m (opus_repacketizer_init rp) (d, ?q) len = Some (ret, rp')" "ret < 0"
      using cat_malformed [of "opus_repacketizer_init rp" ?q len ?m d] assms m5 bs by (auto simp: init_arrays)
    then show ?thesis using None out1 unfolding start by auto
  next
    case (Some x)
    then obtain fs e where f: "frames_of False (bytes (?m d) ?q len) = Some (fs, e)" using bs by (cases x) auto
    have "\<exists>rp'. opus_repacketizer_cat ?m (opus_repacketizer_init rp) (d, ?q) len = Some (OPUS_OK, rp') \<and>
        written ?m (opus_repacketizer_out_range_impl ?m rp' 0 (int (rp_nb_frames rp')) (d, p) new_len False True) d p new_len False True (?m d ! ?q) fs \<and>
        min_total False (lengths fs) \<le> len"
      by (rule rewrite_in_place [where mem = ?m and d = d, OF _ _ _ m5 f]) (use assms q in \<open>simp_all add: init_arrays\<close>)
    then obtain rp' mem' where cat: "opus_repacketizer_cat ?m (opus_repacketizer_init rp) (d, ?q) len = Some (OPUS_OK, rp')"
      and out: "opus_repacketizer_out_range_impl ?m rp' 0 (int (rp_nb_frames rp')) (d, p) new_len False True = Some (new_len, mem')"
        "same_outside ?m mem' d p new_len" "mem' d ! p AND 0xFC = ?m d ! ?q AND 0xFC" "frames_of False (bytes (mem' d) p new_len) = Some (fs, new_len)"
      using assms(4) by (auto simp: written_def Let_def)
    have "?m d ! ?q = mem d ! p" using nth_put [OF fit, of 0] bytes_Cons [of len p "mem d"] assms by simp
    moreover have "same_outside mem mem' d p new_len" using out1 out(2) by (auto simp: same_outside_def)
    moreover have "frames_of False ?bs = Some (fs, e)" using f bs by simp
    ultimately show ?thesis using cat out assms(3,4) unfolding start by simp
  qed
qed

lemma unpad_shortest_witness:
  "\<exists>ret mem'. opus_packet_unpad one_frame some_memory (1, 0) 5 = Some (ret, mem') \<and>
    (case frames_of False (bytes (some_memory 1) 0 5) of None \<Rightarrow> ret < 0 \<and> mem' = some_memory
     | Some (fs, e) \<Rightarrow> 0 < ret \<and> ret \<le> 5 \<and> same_outside some_memory mem' 1 0 ret \<and> mem' 1 ! 0 AND 0xFC = some_memory 1 ! 0 AND 0xFC \<and>
         frames_of False (bytes (mem' 1) 0 ret) = Some (fs, ret) \<and>
         (\<forall>bs. frames_of False bs = Some (fs, int (length bs)) \<longrightarrow> ret \<le> int (length bs)))"
  by (rule unpad_shortest) (simp_all add: one_frame_def some_memory_def)

lemma pad_keeps_frames_witness:
  "\<exists>ret mem'. opus_packet_pad one_frame some_memory (0, 0) 3 4 = Some (ret, mem') \<and> same_outside some_memory mem' 0 0 4 \<and>
    (case frames_of False (bytes (some_memory 0) 0 3) of None \<Rightarrow> ret < 0
     | Some (fs, e) \<Rightarrow> ret = OPUS_OK \<and> frames_of False (bytes (mem' 0) 0 4) = Some (fs, 4) \<and>
         mem' 0 ! 0 AND 0xFC = some_memory 0 ! 0 AND 0xFC)"
  by (rule pad_keeps_frames) (simp_all add: one_frame_def some_memory_def)

end
