(* ===== verification/Spec2Isabelle.thy ===== *)
theory Spec2Isabelle
  imports Tmr Jbuf Rtp Ctrans Strans Reg Telephony Celtframe Packetpad
begin

text \<open>
  \<^bold>\<open>The program.\<close> The C part of this repository, \<open>src/sip/native/\<close>, is the SIP telephony engine of a
  Kotlin Multiplatform application. \<open>telephony.c\<close> with its bridges \<open>telephony_kn.c\<close> (Kotlin/Native),
  \<open>telephony_notify.c\<close> and \<open>wrapper.c\<close> (JNI) is the program's own module: the application sends
  commands (call, hang up, stop) from its own thread through a message queue and gets events back
  through a callback. The module drives baresip (\<open>baresip/src\<close>: user agents \<open>ua.c\<close>, calls \<open>call.c\<close>,
  event listeners \<open>event.c\<close>), which stands on the libraries re (\<open>re/src\<close>: buffers, lists, timers, SIP
  transactions, RTP, jitter buffer), rem and opus, all in the tree and compiled in.

  \<^bold>\<open>The theories\<close>, in the order of their imports:

  \<^item> \<open>Prelude\<close>: results of operations that may be undefined (\<open>None\<close>: a NULL or freed pointer is used)
    and the predicate \<open>runs\<close> with its rules; generic facts.
  \<^item> \<open>Mbuf\<close>: \<open>re/src/mbuf/mbuf.c\<close>. A buffer is its bytes, position, end and size; allocation is a
    parameter. Readers and writers agree, a shift keeps the unread bytes.
  \<^item> \<open>LinkedList\<close>: \<open>re/src/list/list.c\<close> as pointer code over a store of list elements, the loops as
    partial functions. A list in memory represents a list of elements; every operation is related to
    the operation on that list, and the loops are shown to end.
  \<^item> \<open>Tmr\<close>: \<open>re/src/tmr/tmr.c\<close> over \<open>LinkedList\<close>. The sorted list refines a map from timers to
    deadlines; polling fires the due timers once each, for any handlers that keep a state with a well-formed list
    and leave the other due timers on it (re-arming the own timer for later is such a handler).
  \<^item> \<open>Rtp\<close>: \<open>re/src/rtp/rtp.c\<close> (headers with and without an extension, over \<open>Mbuf\<close>) and \<open>source.c\<close> (sequence numbers and loss).
  \<^item> \<open>Jbuf\<close>: \<open>re/src/jbuf/jbuf.c\<close> over \<open>Rtp\<close>: the pool of frames, the order of playback, the adaptive
    delay; references to packets are counted by the events \<open>ref\<close> and \<open>deref\<close>. Playback is followed from
    \<open>jbuf_alloc\<close>: in order, when the packets put before the first one is handed out lie in one half of the circle of
    16-bit numbers.
  \<^item> \<open>Ctrans\<close>, \<open>Strans\<close>: \<open>re/src/sip/ctrans.c\<close> and \<open>strans.c\<close>, the SIP client and server transactions
    as machines whose steps are the handlers of the code and whose outputs are the calls they make
    (send, start a timer, tell the application). \<open>Ctrans\<close> runs its timer commands on \<open>Tmr\<close>. A copy of a request
    is absorbed in every state a transaction reaches, and answered with the last response, if there is one.
  \<^item> \<open>Ua\<close>: \<open>baresip/src/ua.c\<close> and \<open>call.c\<close>: user agents, their calls and every event of a call. The
    locale \<open>ua_listener\<close> states what baresip needs of an event listener: it leaves the objects alone,
    and holds on to no call that was closed. Each allocation, lookup and answer of the layers below is a field of its own
    in the environment \<open>env\<close> of an operation.
  \<^item> \<open>Sipreg\<close>: \<open>re/src/sipreg/reg.c\<close>, the client that keeps an address registered, with the loop state of
    \<open>re/src/sip/request.c\<close>; its events are responses, its timer, keep-alive failures and its owner. It never stalls,
    refreshes in time, and a dropped client removes its binding, says nothing more and is freed; its owner's handler is
    replaced by \<open>dummy_handler\<close> then.
  \<^item> \<open>Reg\<close>: \<open>baresip/src/reg.c\<close> over \<open>Sipreg\<close> and the events of \<open>Ua\<close>: the register client of a user agent
    together with the registration clients it has replaced, whose reports take the same way to it as those of the client
    in use: the handler swapped in keeps them from it.
  \<^item> \<open>Telephony\<close>: \<open>telephony.c\<close>, \<open>telephony_kn.c\<close>, \<open>telephony_notify.c\<close> and \<open>re/src/mqueue/mqueue.c\<close>;
    interprets \<open>ua_listener\<close> with the module's \<open>event_listener\<close>. Its state extends the one of \<open>Ua\<close>.

  \<^item> \<open>Entcode\<close>, \<open>Entenc\<close>, \<open>Entdec\<close>: the entropy coder of opus (\<open>opus/celt/entcode.c\<close>, \<open>entenc.c\<close>,
    \<open>entdec.c\<close>): division and bit count in both of their versions, the range encoder with its carry
    propagation and raw bits, the range decoder.
  \<^item> \<open>Rangecoder\<close>, \<open>Roundtrip\<close>, \<open>Anystream\<close>: their correctness. The interval of the encoder as numbers; the locale
    \<open>range_symbol\<close>, what each pair of coding and decoding operations promises, interpreted for the three
    kinds of symbols; the end of a stream; the round trip of any list of symbols and the room it
    needs; decoding of bytes that no encoder made.

  \<^item> \<open>Pvqtable\<close>, \<open>Pvq\<close>, \<open>Pvqsmall\<close>: \<open>opus/celt/cwrs.c\<close>, the numbering of the vectors of pulses that code the shape of a
    band, with the table of the usual build and without it (\<open>SMALL_FOOTPRINT\<close>). The table is the recurrence of its
    comment; index and vector are inverse to each other on all of the table; the two builds compute the same.
  \<^item> \<open>Laplace\<close>: \<open>opus/celt/laplace.c\<close>, the symbols of the coarse energy, with the models of \<open>quant_bands.c\<close>, and the two
    operations of \<open>cwrs.c\<close> that use the range coder. The intervals of the encoder partition the range and the search of the
    decoder finds them.
  \<^item> \<open>Celtenergy\<close>: \<open>opus/celt/quant_bands.c\<close> in its fixed-point build: coarse, fine and final energies of the bands, encoder
    and decoder, with every sum of 32-bit numbers checked for overflow; at most 25 bands (the table \<open>eMeans\<close>), a frame of
    less than \<open>2 ^ 28\<close> bytes. \<open>quant_coarse_energy\<close> makes one pass or two and keeps the result of one: the pass is modelled.
  \<^item> \<open>Celtframe\<close>: the energies in the order of a frame of CELT with the other symbols between them: the decoder computes the
    energies the encoder has kept, and on any bytes it returns and stays within its arrays.

  \<^item> \<open>Opuspacket\<close>: packets of opus (\<open>opus/src/opus.c\<close>, \<open>repacketizer.c\<close>): the parser, which finds the frames in a
    packet, and the repacketizer, which merges, splits, pads and unpads packets, in place where the code
    does. Memory is a list of bytes per object; pointers may alias.
  \<^item> \<open>Opusformat\<close>, \<open>Opusparse\<close>: the format of packets read from a list of bytes, and the parser as an implementation
    of it. \<open>Repacket\<close>, \<open>Repacketizer\<close>, \<open>Packetpad\<close>: what is written is such a packet; the invariant of the
    repacketizer; rewriting in place keeps the frames because no packet is shorter than the one written.

  \<^bold>\<open>How the model corresponds to the code.\<close> Every operation is a function of the same name on the state
  of its component, returned updated. Integers have the width of the code (\<open>u8\<close> to \<open>u64\<close>) where they can
  wrap; sizes that are bounded by an invariant are \<open>nat\<close>. An error code is the error code. What the
  code leaves undefined is \<open>None\<close>, and the safety properties show it does not happen. What is outside
  the code modelled (sockets, clocks, memory that may run out, the parts of baresip behind \<open>Ua\<close>) is an
  argument. There is no fuel: loops over pointers and the renormalisation of the range coder are partial
  functions with a proof that they return.

  \<^bold>\<open>Not modelled.\<close> The codecs of opus between the entropy coder and the packets but for the pulse vectors and energies
  of CELT: its transforms, the shapes of the bands (\<open>bands.c\<close>), the allocation of bits (\<open>rate.c\<close>), the choice of \<open>quant_coarse_energy\<close> between
  intra and inter coding; SILK. The audio and video pipelines, the device drivers and media
  plug-ins of baresip and rem; parsers and printers of SIP, SDP and account strings; DNS, TLS, sockets,
  the event loop of \<open>re/src/main\<close>, HTTP, WebSocket, ICE, STUN and TURN; the path
  of a request below \<open>sip_drequestf\<close> (dialogs, DNS, authentication); the text of log messages; the JNI wrapper, which converts strings only. What the
  modelled code needs of them is a parameter of the definitions.
\<close>

end
